(* ===== verification/Prelude.thy ===== *)
theory Prelude
  imports Main
begin

text \<open>
  Shared material of the development: the models of the parts of the C++ standard library
  that the Object Store sources use (\<open>std::find_if\<close>, \<open>std::lower_bound\<close>), the type
  names the components share, and generic lemmas on lists and on finite sets of natural
  numbers.

  Sizes and positions (\<open>size_t\<close>) are natural numbers. The code's sentinel \<open>size_t(-1)\<close>
  is \<open>npos\<close>. A position is an index into a collection held in memory, so sums of
  positions and counts stay below \<open>npos\<close>; where a subtraction of the code could go below
  zero, the lemmas on that operation show that it does not.
\<close>

named_theorems cursor_laws \<open>how the iterator operations move and change a cursor\<close>
named_theorems set_sem \<open>the set of positions an operation leaves\<close>

subsection \<open>Sizes\<close>

definition npos :: nat where
  "npos = 2 ^ 64 - 1"

definition add_diff :: "nat \<Rightarrow> int \<Rightarrow> nat" where
  "add_diff x d = nat (int x + d)"

lemma add_diff_0 [simp]: "add_diff x 0 = x"
  by (simp add: add_diff_def)

lemma add_diff_of_nat [simp]: "add_diff x (int n) = x + n"
  by (simp add: add_diff_def nat_add_distrib)

lemma add_diff_1 [simp]: "add_diff x 1 = Suc x"
  by (simp add: add_diff_def nat_add_distrib)

lemma add_diff_minus_1 [simp]: "add_diff x (- 1) = x - 1"
  by (simp add: add_diff_def nat_diff_distrib')

lemma take_drop_append [simp]: "take n xs @ drop n xs @ ys = xs @ ys"
  by (metis append.assoc append_take_drop_id)

subsection \<open>Standard algorithms\<close>

text \<open>\<open>std::find_if\<close>: the index of the first match, or the length.\<close>

primrec find_if :: "('a \<Rightarrow> bool) \<Rightarrow> 'a list \<Rightarrow> nat" where
  "find_if P [] = 0"
| "find_if P (x # xs) = (if P x then 0 else Suc (find_if P xs))"

lemma find_if_le: "find_if P xs \<le> length xs"
  by (induction xs) auto

lemma find_if_nth: "find_if P xs < length xs \<Longrightarrow> P (xs ! find_if P xs)"
  by (induction xs) (auto split: if_splits)

lemma find_if_before: "i < find_if P xs \<Longrightarrow> \<not> P (xs ! i)"
proof (induction xs arbitrary: i)
  case (Cons x xs)
  then show ?case by (cases i) (auto split: if_splits)
qed simp

lemma find_if_none: "(\<forall>x \<in> set xs. \<not> P x) \<Longrightarrow> find_if P xs = length xs"
  by (induction xs) auto

lemma find_if_append:
  "find_if P (xs @ ys) =
     (if \<exists>x \<in> set xs. P x then find_if P xs else length xs + find_if P ys)"
  by (induction xs) auto

text \<open>
  \<open>std::lower_bound\<close> on the positions \<open>[first, first + len)\<close>: the binary search
  for the first element that the comparison does not put before the value.
\<close>

function lower_bound :: "('a \<Rightarrow> bool) \<Rightarrow> 'a list \<Rightarrow> nat \<Rightarrow> nat \<Rightarrow> nat" where
  "lower_bound lt xs first len =
     (if len = 0 then first
      else let half = len div 2; mid = first + half in
        if lt (xs ! mid) then lower_bound lt xs (Suc mid) (len - half - 1)
        else lower_bound lt xs first half)"
  by pat_completeness auto
termination
  by (relation "measure (\<lambda>(b, xs, f, len). len)") auto

declare lower_bound.simps [simp del]

lemma lower_bound_partition:
  assumes "first \<le> p" "p \<le> first + len"
    and "\<And>i. first \<le> i \<Longrightarrow> i < first + len \<Longrightarrow> lt (xs ! i) \<longleftrightarrow> i < p"
  shows "lower_bound lt xs first len = p"
  using assms
proof (induction lt xs first len rule: lower_bound.induct)
  case (1 lt xs first len)
  show ?case
  proof (cases "len = 0")
    case True
    with "1.prems" show ?thesis by (simp add: lower_bound.simps)
  next
    case False
    define half where "half = len div 2"
    have half: "half < len" using False by (simp add: half_def)
    show ?thesis
    proof (cases "lt (xs ! (first + half))")
      case True
      with "1.prems"(3)[of "first + half"] half have "first + half < p" by simp
      then have "lower_bound lt xs (Suc (first + half)) (len - half - 1) = p"
        using "1.prems" half by (intro "1.IH"(1)[OF False half_def refl True]) auto
      with True False show ?thesis
        by (subst lower_bound.simps) (simp add: Let_def half_def)
    next
      case no: False
      with "1.prems"(3)[of "first + half"] half have "p \<le> first + half" by simp
      then have "lower_bound lt xs first half = p"
        using "1.prems" half by (intro "1.IH"(2)[OF False half_def refl no]) auto
      with no False show ?thesis
        by (subst lower_bound.simps) (simp add: Let_def half_def)
    qed
  qed
qed

end
