(* ===== verification/Range_Vector.thy ===== *)
theory Range_Vector
  imports Prelude
begin

text \<open>
  The chunked vector of ranges of \<open>index_set.hpp\<close> and \<open>index_set.cpp\<close>
  (\<open>ChunkedRangeVector\<close>) and its iterators. A vector is the list of its chunks; a chunk
  carries its ranges and the cached begin, end and count of their union. An iterator is the
  pair of the chunk's index and the offset in the chunk; \<open>end()\<close> has the index past the
  last chunk and the null inner pointer, which is offset 0 here.

  The build modelled is the release build that is shipped: \<open>max_size\<close> is 256, and \<open>verify()\<close> and
  \<open>REALM_ASSERT_DEBUG\<close> compile to nothing. \<open>REALM_ASSERT\<close> is enabled (\<open>util/config.h\<close>); the ones of the
  index set (nonempty counts, ranges pushed in order) are preconditions that the operations leave
  out, and the lemmas have as premises or from the invariant. What \<open>verify()\<close> checks in a debug build is
  the executable \<open>verify\<close> below, and the invariant \<open>crv_inv\<close> implies it.

  A \<open>cursor\<close> relates an iterator to the flat list of ranges cut in two at its position.
  The locale \<open>range_cursor\<close> states how iterator operations move and change that cut and
  derives the composite steps the index set is built from; it is interpreted on the chunked
  vector at the end of the theory.
\<close>

subsection \<open>Data\<close>

type_synonym range = "nat \<times> nat"

record chunk =
  data :: "range list"
  chunk_begin :: nat
  chunk_end :: nat
  chunk_count :: nat

type_synonym crv = "chunk list"
type_synonym iter = "nat \<times> nat"

definition max_size :: nat where
  "max_size = 4096 div 16"

definition crv_empty :: "crv \<Rightarrow> bool" where
  "crv_empty m = (m = [])"

definition crv_end :: "crv \<Rightarrow> iter" where
  "crv_end m = (length m, 0)"

definition crv_begin :: "crv \<Rightarrow> iter" where
  "crv_begin m = (if crv_empty m then crv_end m else (0, 0))"

definition rlen :: "range \<Rightarrow> nat" where
  "rlen r = snd r - fst r"

definition flat :: "crv \<Rightarrow> range list" where
  "flat m = concat (map data m)"

subsection \<open>Iterators\<close>

definition deref :: "crv \<Rightarrow> iter \<Rightarrow> range" where
  "deref m it = data (m ! fst it) ! snd it"

text \<open>An iterator that points at a range, as every iterator other than \<open>end()\<close> does.\<close>

definition it_more :: "crv \<Rightarrow> iter \<Rightarrow> bool" where
  "it_more m it \<longleftrightarrow> fst it < length m \<and> snd it < length (data (m ! fst it))"

definition next_chunk :: "iter \<Rightarrow> iter" where
  "next_chunk it = (Suc (fst it), 0)"

definition it_next :: "crv \<Rightarrow> iter \<Rightarrow> iter" where
  "it_next m it =
     (if Suc (snd it) = length (data (m ! fst it)) then next_chunk it
      else (fst it, Suc (snd it)))"

definition it_prev :: "crv \<Rightarrow> iter \<Rightarrow> iter" where
  "it_prev m it =
     (if fst it = length m \<or> snd it = 0
      then (fst it - 1, length (data (m ! (fst it - 1))) - 1)
      else (fst it, snd it - 1))"

definition it_set :: "crv \<Rightarrow> iter \<Rightarrow> nat \<Rightarrow> nat \<Rightarrow> crv" where
  "it_set m it front back =
     (let c = m ! fst it; r = data c ! snd it in
      m[fst it := c\<lparr>
        data := (data c)[snd it := (front, back)],
        chunk_begin := (if snd it = 0 then front else chunk_begin c),
        chunk_end := (if Suc (snd it) = length (data c) then back else chunk_end c),
        chunk_count := chunk_count c - (snd r - fst r) + (back - front)\<rparr>])"

definition it_adjust :: "crv \<Rightarrow> iter \<Rightarrow> int \<Rightarrow> int \<Rightarrow> crv" where
  "it_adjust m it front back =
     (let c = m ! fst it; r = data c ! snd it in
      m[fst it := c\<lparr>
        data := (data c)[snd it := (add_diff (fst r) front, add_diff (snd r) back)],
        chunk_begin := (if snd it = 0 then add_diff (chunk_begin c) front else chunk_begin c),
        chunk_end :=
          (if Suc (snd it) = length (data c) then add_diff (chunk_end c) back else chunk_end c),
        chunk_count := add_diff (chunk_count c) (- front + back)\<rparr>])"

definition it_shift :: "crv \<Rightarrow> iter \<Rightarrow> int \<Rightarrow> crv" where
  "it_shift m it distance =
     (let c = m ! fst it; r = data c ! snd it in
      m[fst it := c\<lparr>
        data := (data c)[snd it := (add_diff (fst r) distance, add_diff (snd r) distance)],
        chunk_begin :=
          (if snd it = 0 then add_diff (chunk_begin c) distance else chunk_begin c),
        chunk_end :=
          (if Suc (snd it) = length (data c) then add_diff (chunk_end c) distance
           else chunk_end c)\<rparr>])"

subsection \<open>Vector operations\<close>

definition crv_push_back :: "crv \<Rightarrow> range \<Rightarrow> crv" where
  "crv_push_back m v =
     (if \<not> crv_empty m \<and> length (data (last m)) < max_size
      then butlast m @ [(last m)\<lparr>
        data := data (last m) @ [v],
        chunk_count := chunk_count (last m) + (snd v - fst v),
        chunk_end := snd v\<rparr>]
      else m @ [\<lparr>data = [v], chunk_begin = fst v, chunk_end = snd v,
                 chunk_count = snd v - fst v\<rparr>])"

definition ensure_space :: "crv \<Rightarrow> iter \<Rightarrow> crv \<times> iter" where
  "ensure_space m it =
     (let c = m ! fst it in
      if length (data c) + 1 \<le> max_size then (m, it)
      else
        let to_move = max_size div 2;
            keep = length (data c) - to_move;
            moved = drop keep (data c);
            kept = take keep (data c);
            moved_count = sum_list (map rlen moved);
            prev = c\<lparr>data := kept, chunk_end := snd (last kept),
                     chunk_count := chunk_count c - moved_count\<rparr>;
            new_pos = \<lparr>data = moved, chunk_begin = fst (hd moved),
                       chunk_end = snd (last moved), chunk_count = moved_count\<rparr>;
            m' = take (fst it) m @ [prev, new_pos] @ drop (Suc (fst it)) m
        in if to_move \<le> snd it then (m', (Suc (fst it), snd it - to_move))
           else (m', it))"

definition crv_insert :: "crv \<Rightarrow> iter \<Rightarrow> range \<Rightarrow> crv \<times> iter" where
  "crv_insert m it v =
     (if fst it = length m
      then (let m' = crv_push_back m v in (m', it_prev m' (crv_end m')))
      else
        let (m', it') = ensure_space m it; c = m' ! fst it' in
        (m'[fst it' := c\<lparr>
           data := take (snd it') (data c) @ [v] @ drop (snd it') (data c),
           chunk_count := chunk_count c + (snd v - fst v),
           chunk_begin := min (chunk_begin c) (fst v),
           chunk_end := max (chunk_end c) (snd v)\<rparr>], it'))"

definition crv_erase :: "crv \<Rightarrow> iter \<Rightarrow> crv \<times> iter" where
  "crv_erase m it =
     (let c = m ! fst it; r = data c ! snd it;
          d = take (snd it) (data c) @ drop (Suc (snd it)) (data c);
          count = chunk_count c - (snd r - fst r)
      in if d = [] then (take (fst it) m @ drop (Suc (fst it)) m, (fst it, 0))
         else (m[fst it := \<lparr>data = d, chunk_begin = fst (hd d), chunk_end = snd (last d),
                            chunk_count = count\<rparr>],
               if snd it < length d then it else next_chunk it))"

subsection \<open>The invariant\<close>

text \<open>The checks of \<open>verify()\<close>, in its order: first all ranges, then each chunk.\<close>

fun verify_ranges :: "nat \<Rightarrow> range list \<Rightarrow> bool" where
  "verify_ranges prev_end [] = True"
| "verify_ranges prev_end (r # rs) =
     (fst r < snd r \<and> (prev_end = npos \<or> prev_end < fst r) \<and> verify_ranges (snd r) rs)"

definition verify_chunk :: "chunk \<Rightarrow> bool" where
  "verify_chunk c \<longleftrightarrow>
     data c \<noteq> [] \<and> fst (hd (data c)) = chunk_begin c \<and> snd (last (data c)) = chunk_end c \<and>
     chunk_count c \<le> chunk_end c - chunk_begin c \<and>
     sum_list (map rlen (data c)) = chunk_count c"

definition verify :: "crv \<Rightarrow> bool" where
  "verify m \<longleftrightarrow> verify_ranges npos (flat m) \<and> list_all verify_chunk m"

definition chunk_ok :: "chunk \<Rightarrow> bool" where
  "chunk_ok c \<longleftrightarrow>
     data c \<noteq> [] \<and> length (data c) \<le> max_size \<and>
     chunk_begin c = fst (hd (data c)) \<and> chunk_end c = snd (last (data c)) \<and>
     chunk_count c = sum_list (map rlen (data c))"

definition ranges_ok :: "range list \<Rightarrow> bool" where
  "ranges_ok rs \<longleftrightarrow>
     (\<forall>r \<in> set rs. fst r < snd r) \<and> sorted_wrt (\<lambda>r s. snd r < fst s) rs"

definition crv_inv :: "crv \<Rightarrow> bool" where
  "crv_inv m \<longleftrightarrow> list_all chunk_ok m \<and> ranges_ok (flat m)"

definition cursor :: "crv \<Rightarrow> iter \<Rightarrow> range list \<Rightarrow> range list \<Rightarrow> bool" where
  "cursor m it xs ys \<longleftrightarrow>
     list_all chunk_ok m \<and>
     (it = crv_end m \<and> xs = flat m \<and> ys = [] \<or>
      (\<exists>ms c ns i. m = ms @ c # ns \<and> it = (length ms, i) \<and> i < length (data c) \<and>
        xs = flat ms @ take i (data c) \<and> ys = drop i (data c) @ flat ns))"

subsection \<open>Flat views and cursors\<close>

lemma flat_Nil [simp]: "flat [] = []"
  by (simp add: flat_def)

lemma flat_append [simp]: "flat (ms @ ns) = flat ms @ flat ns"
  by (simp add: flat_def)

lemma flat_Cons [simp]: "flat (c # ns) = data c @ flat ns"
  by (simp add: flat_def)

lemma rlen_pair [simp]: "rlen (a, b) = b - a"
  by (simp add: rlen_def)

lemma ranges_ok_Nil [simp]: "ranges_ok []"
  by (simp add: ranges_ok_def)

lemma ranges_ok_append:
  "ranges_ok (xs @ ys) \<longleftrightarrow>
     ranges_ok xs \<and> ranges_ok ys \<and> (\<forall>r \<in> set xs. \<forall>s \<in> set ys. snd r < fst s)"
  by (auto simp: ranges_ok_def sorted_wrt_append)

lemma ranges_ok_Cons:
  "ranges_ok (r # rs) \<longleftrightarrow> fst r < snd r \<and> (\<forall>s \<in> set rs. snd r < fst s) \<and> ranges_ok rs"
  by (auto simp: ranges_ok_def)

lemma ranges_ok_lt: "ranges_ok rs \<Longrightarrow> r \<in> set rs \<Longrightarrow> fst r < snd r"
  by (simp add: ranges_ok_def)

lemma cursorI:
  assumes "list_all chunk_ok (ms @ c # ns)" "data c = as @ r # bs"
  shows "cursor (ms @ c # ns) (length ms, length as) (flat ms @ as) (r # bs @ flat ns)"
proof -
  have "\<exists>ms' c' ns' i. ms @ c # ns = ms' @ c' # ns' \<and> (length ms, length as) = (length ms', i) \<and>
    i < length (data c') \<and> flat ms @ as = flat ms' @ take i (data c') \<and>
    r # bs @ flat ns = drop i (data c') @ flat ns'"
    using assms(2)
    by (rule_tac x = ms in exI, rule_tac x = c in exI, rule_tac x = ns in exI,
        rule_tac x = "length as" in exI) simp
  with assms(1) show ?thesis unfolding cursor_def by blast
qed

lemma cursor_endI: "list_all chunk_ok m \<Longrightarrow> cursor m (crv_end m) (flat m) []"
  by (simp add: cursor_def)

lemma cursor_ConsE:
  assumes "cursor m it xs (r # ys)"
  obtains ms c ns as bs where "m = ms @ c # ns" "it = (length ms, length as)"
    "data c = as @ r # bs" "xs = flat ms @ as" "ys = bs @ flat ns" "list_all chunk_ok (ms @ c # ns)"
proof -
  from assms obtain ms c ns i where *: "m = ms @ c # ns" "it = (length ms, i)" "i < length (data c)"
    "xs = flat ms @ take i (data c)" "r # ys = drop i (data c) @ flat ns" "list_all chunk_ok m"
    by (auto simp: cursor_def)
  from *(3,5) have "data c ! i = r" "ys = drop (Suc i) (data c) @ flat ns"
    by (metis Cons_nth_drop_Suc append_Cons list.inject)+
  with * show thesis
    by (intro that[of ms c ns "take i (data c)" "drop (Suc i) (data c)"])
       (auto simp: id_take_nth_drop[symmetric])
qed

lemma cursor_NilE:
  assumes "cursor m it xs []"
  shows "it = crv_end m" "xs = flat m"
  using assms by (auto simp: cursor_def)

lemma cursor_flat: "cursor m it xs ys \<Longrightarrow> flat m = xs @ ys"
  by (auto simp: cursor_def)

lemma cursor_chunks: "cursor m it xs ys \<Longrightarrow> list_all chunk_ok m"
  by (simp add: cursor_def)

lemma cursor_snd0_prefix:
  assumes "cursor m it xs ys" "fst it < length m"
  shows "\<exists>as. xs = flat (take (fst it) m) @ as \<and> length as = snd it"
  using assms by (auto simp: cursor_def crv_end_def)

subsection \<open>Moving\<close>

lemma cursor_begin: "list_all chunk_ok m \<Longrightarrow> cursor m (crv_begin m) [] (flat m)"
proof (cases m)
  case (Cons c ns)
  assume ok: "list_all chunk_ok m"
  with Cons have "data c \<noteq> []" by (simp add: chunk_ok_def)
  then obtain r bs where "data c = [] @ r # bs" by (cases "data c") auto
  with ok Cons cursorI[of "[]" c ns "[]" r bs] show ?thesis
    by (simp add: crv_begin_def crv_empty_def)
qed (simp add: cursor_def crv_begin_def crv_empty_def crv_end_def)

lemma cursor_deref [simp]: "cursor m it xs (r # ys) \<Longrightarrow> deref m it = r"
  by (erule cursor_ConsE) (simp add: deref_def)

lemma cursor_it_more: "cursor m it xs ys \<Longrightarrow> it_more m it \<longleftrightarrow> ys \<noteq> []"
  by (cases ys) (auto simp: it_more_def crv_end_def dest: cursor_NilE elim: cursor_ConsE)

lemma cursor_eq_end: "cursor m it xs ys \<Longrightarrow> it = crv_end m \<longleftrightarrow> ys = []"
  by (cases ys) (auto simp: crv_end_def dest: cursor_NilE elim: cursor_ConsE)

lemma cursor_next:
  assumes "cursor m it xs (r # ys)"
  shows "cursor m (it_next m it) (xs @ [r]) ys"
  using assms
proof (rule cursor_ConsE)
  fix ms c ns as bs
  assume *: "m = ms @ c # ns" "it = (length ms, length as)" "data c = as @ r # bs"
    "xs = flat ms @ as" "ys = bs @ flat ns" "list_all chunk_ok (ms @ c # ns)"
  show ?thesis
  proof (cases bs)
    case (Cons r' bs')
    with * cursorI[of ms c ns "as @ [r]" r' bs'] show ?thesis
      by (simp add: it_next_def)
  next
    case Nil
    show ?thesis
    proof (cases ns)
      case ns: (Cons d ns')
      with * have "data d \<noteq> []" by (simp add: chunk_ok_def)
      then obtain s cs where "data d = [] @ s # cs" by (cases "data d") auto
      with * Nil ns cursorI[of "ms @ [c]" d ns' "[]" s cs] show ?thesis
        by (simp add: it_next_def next_chunk_def)
    next
      case ns: Nil
      with * Nil cursor_endI[of "ms @ [c]"] show ?thesis
        by (simp add: it_next_def next_chunk_def crv_end_def)
    qed
  qed
qed

lemma cursor_prev:
  assumes "cursor m it (xs @ [r]) ys"
  shows "cursor m (it_prev m it) xs (r # ys)"
proof -
  have last_chunk: "cursor m (length ms - 1, length (data (m ! (length ms - 1))) - 1) xs (r # flat ns)"
    if m: "m = ms @ ns" and ok: "list_all chunk_ok m" and xs: "flat ms = xs @ [r]" for ms ns
  proof -
    from xs have "ms \<noteq> []" by auto
    then obtain ks d where ms: "ms = ks @ [d]" by (cases ms rule: rev_cases) auto
    with m ok have "data d \<noteq> []" by (simp add: chunk_ok_def)
    then obtain as s where d: "data d = as @ [s]" by (cases "data d" rule: rev_cases) auto
    from xs ms d have "s = r" "xs = flat ks @ as" by auto
    with m ms d ok cursorI[of ks d ns as r "[]"] show ?thesis by simp
  qed
  show ?thesis
  proof (cases ys)
    case Nil
    with assms have "it = crv_end m" "flat m = xs @ [r]" "list_all chunk_ok m"
      by (auto dest: cursor_NilE cursor_chunks)
    with last_chunk[of m "[]"] Nil show ?thesis by (simp add: it_prev_def crv_end_def)
  next
    case (Cons y ys')
    with assms obtain ms c ns as bs where *: "m = ms @ c # ns" "it = (length ms, length as)"
      "data c = as @ y # bs" "xs @ [r] = flat ms @ as" "ys' = bs @ flat ns"
      "list_all chunk_ok (ms @ c # ns)" by (auto elim: cursor_ConsE)
    show ?thesis
    proof (cases as rule: rev_cases)
      case Nil
      with * Cons last_chunk[of ms "c # ns"] show ?thesis by (simp add: it_prev_def)
    next
      case (snoc as' s)
      with * Cons cursorI[of ms c ns as' r "y # bs"] show ?thesis
        by (auto simp: it_prev_def)
    qed
  qed
qed

lemma cursor_fst0: "cursor m it xs ys \<Longrightarrow> it = (0, 0) \<longleftrightarrow> xs = []"
proof (cases ys)
  case Nil
  assume c: "cursor m it xs ys"
  with Nil have "it = crv_end m" "xs = flat m" by (auto dest: cursor_NilE)
  moreover from cursor_chunks[OF c] have "flat m = [] \<longleftrightarrow> m = []"
    by (cases m) (auto simp: chunk_ok_def)
  ultimately show ?thesis by (simp add: crv_end_def)
next
  case (Cons y ys')
  assume "cursor m it xs ys"
  then have "cursor m it xs (y # ys')" using Cons by simp
  then show ?thesis
  proof (rule cursor_ConsE)
    fix ms c ns as bs
    assume *: "it = (length ms, length as)" "xs = flat ms @ as" "list_all chunk_ok (ms @ c # ns)"
    from *(3) have "flat ms = [] \<longleftrightarrow> ms = []" by (cases ms) (auto simp: chunk_ok_def)
    with * show ?thesis by simp
  qed
qed

lemma cursor_eq_begin: "cursor m it xs ys \<Longrightarrow> it = crv_begin m \<longleftrightarrow> xs = []"
  by (drule cursor_fst0) (auto simp: crv_begin_def crv_empty_def crv_end_def)

text \<open>
  The iterator at a cut is determined by the sizes of the chunks, so a change that keeps the
  sizes keeps every other iterator where it was.
\<close>

fun iter_at :: "nat list \<Rightarrow> nat \<Rightarrow> iter" where
  "iter_at [] n = (0, 0)"
| "iter_at (l # ls) n =
     (if n < l then (0, n) else (Suc (fst (iter_at ls (n - l))), snd (iter_at ls (n - l))))"

definition sizes :: "crv \<Rightarrow> nat list" where
  "sizes m = map (length \<circ> data) m"

lemma iter_at_append:
  "iter_at (sizes (ms @ ns)) (length (flat ms) + n) =
     (length ms + fst (iter_at (sizes ns) n), snd (iter_at (sizes ns) n))"
  by (induction ms) (auto simp: sizes_def)

lemma cursor_iter_at: "cursor m it xs ys \<Longrightarrow> it = iter_at (sizes m) (length xs)"
proof (cases ys)
  case Nil
  assume "cursor m it xs ys"
  with Nil have "it = crv_end m" "xs = flat m" by (auto dest: cursor_NilE)
  with iter_at_append[of m "[]" 0] show ?thesis by (simp add: crv_end_def sizes_def)
next
  case (Cons r ys')
  assume "cursor m it xs ys"
  with Cons obtain ms c ns as bs where "m = ms @ c # ns" "it = (length ms, length as)"
    "data c = as @ r # bs" "xs = flat ms @ as" by (auto elim: cursor_ConsE)
  with iter_at_append[of ms "c # ns" "length as"] show ?thesis by (simp add: sizes_def)
qed

lemma cursor_exists: "list_all chunk_ok m \<Longrightarrow> flat m = xs @ ys \<Longrightarrow> \<exists>it. cursor m it xs ys"
proof (induction xs arbitrary: ys rule: rev_induct)
  case Nil
  then show ?case using cursor_begin by fastforce
next
  case (snoc x xs)
  then show ?case using cursor_next by (metis append.assoc append_Cons append_Nil)
qed

lemma cursor_iff:
  "cursor m it xs ys \<longleftrightarrow>
     list_all chunk_ok m \<and> flat m = xs @ ys \<and> it = iter_at (sizes m) (length xs)"
  by (metis cursor_chunks cursor_exists cursor_flat cursor_iter_at)

lemma cursor_unique: "cursor m i xs ys \<Longrightarrow> cursor m j xs ys \<Longrightarrow> i = j"
  by (simp add: cursor_iff)

subsection \<open>Changing ranges in place\<close>

lemma length_it_ops [simp]:
  "length (it_set m it a b) = length m" "length (it_adjust m it f k) = length m"
  "length (it_shift m it d) = length m"
  by (simp_all add: it_set_def it_adjust_def it_shift_def Let_def)

lemma length_data_it_shift [simp]:
  "k < length m \<Longrightarrow> length (data (it_shift m it d ! k)) = length (data (m ! k))"
  by (cases "k = fst it") (auto simp: it_shift_def Let_def nth_list_update)

lemma sizes_it_set [simp]: "sizes (it_set m it a b) = sizes m"
  by (cases "fst it < length m")
     (auto simp: it_set_def Let_def sizes_def list_eq_iff_nth_eq nth_list_update)

lemma cursor_set:
  assumes "cursor m it xs (r # ys)"
  shows "cursor (it_set m it a b) it xs ((a, b) # ys)"
  using assms
proof (rule cursor_ConsE)
  fix ms c ns as bs
  assume *: "m = ms @ c # ns" "it = (length ms, length as)" "data c = as @ r # bs"
    "xs = flat ms @ as" "ys = bs @ flat ns" "list_all chunk_ok (ms @ c # ns)"
  define c' where "c' = it_set m it a b ! length ms"
  from * have "data c' = as @ (a, b) # bs" "chunk_ok c'" "it_set m it a b = ms @ c' # ns"
    by (auto simp: c'_def it_set_def Let_def chunk_ok_def rlen_def hd_append)
  with * cursorI[of ms c' ns as "(a, b)" bs] show ?thesis by simp
qed

lemma cursor_set_frame:
  assumes "cursor m i xs (r # zs @ ws)" "cursor m j (xs @ r # zs) ws"
  shows "cursor (it_set m i a b) j (xs @ (a, b) # zs) ws"
proof -
  from cursor_set[OF assms(1), of a b] have "list_all chunk_ok (it_set m i a b)"
    "flat (it_set m i a b) = xs @ (a, b) # zs @ ws" by (auto dest: cursor_chunks cursor_flat)
  with assms(2) show ?thesis by (simp add: cursor_iff)
qed

text \<open>\<open>adjust\<close> and \<open>shift\<close> are \<open>set\<close> with the new bounds.\<close>

lemma it_adjust_eq_set:
  assumes "cursor m it xs ((a, b) # ys)" "a \<le> b" "0 \<le> int a + front" "int a + front \<le> int b + back"
  shows "it_adjust m it front back = it_set m it (add_diff a front) (add_diff b back)"
  using assms(1)
proof (rule cursor_ConsE)
  fix ms c ns as bs
  assume *: "m = ms @ c # ns" "it = (length ms, length as)" "data c = as @ (a, b) # bs"
    "list_all chunk_ok (ms @ c # ns)"
  then have cnt: "chunk_count c = sum_list (map rlen as) + ((b - a) + sum_list (map rlen bs))"
    by (simp add: chunk_ok_def)
  have "int (add_diff b back - add_diff a front) = int (b - a) - front + back"
    using assms(2-4) by (simp add: add_diff_def of_nat_diff)
  with cnt have "add_diff (chunk_count c) (- front + back) =
      chunk_count c - (b - a) + (add_diff b back - add_diff a front)"
    by (simp add: add_diff_def[of "_ + _"])
  with * show ?thesis
    by (auto simp: it_adjust_def it_set_def Let_def chunk_ok_def)
qed

lemma it_shift_eq_set:
  assumes "cursor m it xs ((a, b) # ys)" "a \<le> b" "0 \<le> int a + d"
  shows "it_shift m it d = it_set m it (add_diff a d) (add_diff b d)"
  using assms(1)
proof (rule cursor_ConsE)
  fix ms c ns as bs
  assume *: "m = ms @ c # ns" "it = (length ms, length as)" "data c = as @ (a, b) # bs"
    "list_all chunk_ok (ms @ c # ns)"
  moreover have "add_diff b d - add_diff a d = b - a"
    using assms(2,3) by (simp add: add_diff_def nat_diff_distrib[symmetric])
  ultimately have "chunk_count c - (b - a) + (add_diff b d - add_diff a d) = chunk_count c"
    by (simp add: chunk_ok_def)
  with * show ?thesis
    by (auto simp: it_shift_def it_set_def Let_def chunk_ok_def)
qed

subsection \<open>Erasing and inserting\<close>

lemma cursor_erase:
  assumes "cursor m it xs (r # ys)" "crv_erase m it = (m', it')"
  shows "cursor m' it' xs ys"
  using assms(1)
proof (rule cursor_ConsE)
  fix ms c ns as bs
  assume *: "m = ms @ c # ns" "it = (length ms, length as)" "data c = as @ r # bs"
    "xs = flat ms @ as" "ys = bs @ flat ns" "list_all chunk_ok (ms @ c # ns)"
  define c' where "c' = \<lparr>data = as @ bs, chunk_begin = fst (hd (as @ bs)),
    chunk_end = snd (last (as @ bs)), chunk_count = chunk_count c - (snd r - fst r)\<rparr>"
  have at_chunk: "cursor (ks @ ns) (length ks, 0) (flat ks) (flat ns)"
    if "list_all chunk_ok (ks @ ns)" for ks
  proof (cases ns)
    case Nil
    with that cursor_endI[of ks] show ?thesis by (simp add: crv_end_def)
  next
    case (Cons d ns')
    with that have "data d \<noteq> []" by (simp add: chunk_ok_def)
    then obtain s cs where "data d = [] @ s # cs" by (cases "data d") auto
    with that Cons cursorI[of ks d ns' "[]" s cs] show ?thesis by simp
  qed
  show ?thesis
  proof (cases "as @ bs = []")
    case True
    with assms(2) * have "m' = ms @ ns" "it' = (length ms, 0)"
      by (auto simp: crv_erase_def Let_def)
    with * True at_chunk[of ms] show ?thesis by simp
  next
    case False
    with assms(2) * have m': "m' = ms @ c' # ns"
      and it': "it' = (if length as < length (as @ bs) then it else next_chunk it)"
      by (auto simp: crv_erase_def Let_def c'_def)
    from * False have ok: "chunk_ok c'" by (auto simp: chunk_ok_def c'_def rlen_def)
    show ?thesis
    proof (cases bs)
      case Nil
      with * m' it' ok at_chunk[of "ms @ [c']"] show ?thesis
        by (simp add: next_chunk_def c'_def)
    next
      case (Cons s bs')
      with * m' it' ok cursorI[of ms c' ns as s bs'] show ?thesis by (simp add: c'_def)
    qed
  qed
qed

lemma max_size_half: "2 * (max_size div 2) = max_size" "0 < max_size div 2"
  by (simp_all add: max_size_def)

lemma split_chunk_ok:
  assumes "chunk_ok c" "length (data c) = max_size" "data c = kept @ moved"
    "length moved = max_size div 2"
  shows "chunk_ok (c\<lparr>data := kept, chunk_end := snd (last kept),
           chunk_count := chunk_count c - sum_list (map rlen moved)\<rparr>)"
    and "chunk_ok \<lparr>data = moved, chunk_begin = fst (hd moved), chunk_end = snd (last moved),
           chunk_count = sum_list (map rlen moved)\<rparr>"
proof -
  have "kept \<noteq> []" "moved \<noteq> []" "length kept \<le> max_size" "length moved \<le> max_size"
    using assms(2-4) max_size_half by auto
  with assms show "chunk_ok (c\<lparr>data := kept, chunk_end := snd (last kept),
      chunk_count := chunk_count c - sum_list (map rlen moved)\<rparr>)"
    and "chunk_ok \<lparr>data = moved, chunk_begin = fst (hd moved), chunk_end = snd (last moved),
      chunk_count = sum_list (map rlen moved)\<rparr>"
    by (auto simp: chunk_ok_def)
qed

lemma cursor_ensure_space:
  assumes "cursor m it xs (r # ys)" "ensure_space m it = (m', it')"
  shows "cursor m' it' xs (r # ys) \<and> length (data (m' ! fst it')) < max_size"
  using assms(1)
proof (rule cursor_ConsE)
  fix ms c ns as bs
  assume *: "m = ms @ c # ns" "it = (length ms, length as)" "data c = as @ r # bs"
    "xs = flat ms @ as" "ys = bs @ flat ns" "list_all chunk_ok (ms @ c # ns)"
  show ?thesis
  proof (cases "length (data c) + 1 \<le> max_size")
    case True
    with assms * show ?thesis by (auto simp: ensure_space_def Let_def)
  next
    case False
    define h where "h = max_size div 2"
    with * False have len: "length (data c) = max_size" by (auto simp: chunk_ok_def)
    with max_size_half have keep: "length (data c) - h = h" "h < max_size" "0 < h"
      by (auto simp: h_def)
    define kept moved where "kept = take h (data c)" and "moved = drop h (data c)"
    define pc where "pc = c\<lparr>data := kept, chunk_end := snd (last kept),
      chunk_count := chunk_count c - sum_list (map rlen moved)\<rparr>"
    define nc where "nc = \<lparr>data = moved, chunk_begin = fst (hd moved),
      chunk_end = snd (last moved), chunk_count = sum_list (map rlen moved)\<rparr>"
    have lens: "length kept = h" "length moved = h" "data c = kept @ moved"
      using len keep by (simp_all add: kept_def moved_def)
    have ok: "list_all chunk_ok (ms @ pc # nc # ns)"
      using * split_chunk_ok[OF _ len lens(3)] lens(2) by (simp add: pc_def nc_def h_def)
    have "ensure_space m it = (if h \<le> length as
        then (ms @ pc # nc # ns, (Suc (length ms), length as - h)) else (ms @ pc # nc # ns, it))"
      using *(1,2) False keep(1)
      by (simp add: ensure_space_def Let_def h_def[symmetric] pc_def nc_def kept_def moved_def)
    then have eq: "(m', it') = (if h \<le> length as
        then (ms @ pc # nc # ns, (Suc (length ms), length as - h)) else (ms @ pc # nc # ns, it))"
      using assms(2) by simp
    show ?thesis
    proof (cases "h \<le> length as")
      case True
      then have "moved = drop h as @ r # bs" "kept = take h as"
        using *(3) by (simp_all add: moved_def kept_def)
      then have "cursor (ms @ pc # nc # ns) (Suc (length ms), length as - h) xs (r # ys)"
        using * ok cursorI[of "ms @ [pc]" nc ns "drop h as" r bs] True
        by (simp add: pc_def nc_def)
      with eq True keep(2) lens show ?thesis by (simp add: nth_append pc_def nc_def)
    next
      case False
      then have "kept = as @ r # take (h - Suc (length as)) bs"
        "moved = drop (h - Suc (length as)) bs"
        using *(3) by (auto simp: moved_def kept_def take_Cons' drop_Cons')
      then have "data pc = as @ r # take (h - Suc (length as)) bs"
        "data nc = drop (h - Suc (length as)) bs" by (simp_all add: pc_def nc_def)
      then have "cursor (ms @ pc # nc # ns) it xs (r # ys)"
        using *(2,4,5) cursorI[OF ok, of as r "take (h - Suc (length as)) bs"] by simp
      with eq False keep(2) lens * show ?thesis by (simp add: nth_append pc_def)
    qed
  qed
qed

lemma cursor_push_back:
  assumes "list_all chunk_ok m"
  shows "cursor (crv_push_back m v) (it_prev (crv_push_back m v) (crv_end (crv_push_back m v)))
    (flat m) [v]"
proof -
  have "list_all chunk_ok (crv_push_back m v) \<and> flat (crv_push_back m v) = flat m @ [v]"
  proof (cases m rule: rev_cases)
    case Nil
    then show ?thesis
      by (simp add: crv_push_back_def crv_empty_def chunk_ok_def rlen_def max_size_def)
  next
    case (snoc ms c)
    with assms show ?thesis
      by (auto simp: crv_push_back_def crv_empty_def chunk_ok_def rlen_def max_size_def)
  qed
  then show ?thesis by (metis cursor_endI cursor_prev)
qed

lemma cursor_insert:
  assumes "cursor m it xs ys" "ranges_ok (xs @ v # ys)" "crv_insert m it v = (m', it')"
  shows "cursor m' it' xs (v # ys)"
proof (cases ys)
  case Nil
  with assms(1) have "it = crv_end m" "xs = flat m" "list_all chunk_ok m"
    by (auto dest: cursor_NilE cursor_chunks)
  with assms(3) Nil cursor_push_back[of m v] show ?thesis
    by (auto simp: crv_insert_def crv_end_def Let_def)
next
  case (Cons r ys')
  obtain m1 it1 where es: "ensure_space m it = (m1, it1)"
    by (cases "ensure_space m it")
  from assms(1) Cons cursor_ensure_space[OF _ es] have c1: "cursor m1 it1 xs (r # ys')"
    and space: "length (data (m1 ! fst it1)) < max_size" by auto
  from assms(1) Cons have "fst it < length m" by (auto elim!: cursor_ConsE)
  with assms(3) es have m': "m' = m1[fst it1 := (m1 ! fst it1)\<lparr>
      data := take (snd it1) (data (m1 ! fst it1)) @ [v] @ drop (snd it1) (data (m1 ! fst it1)),
      chunk_count := chunk_count (m1 ! fst it1) + (snd v - fst v),
      chunk_begin := min (chunk_begin (m1 ! fst it1)) (fst v),
      chunk_end := max (chunk_end (m1 ! fst it1)) (snd v)\<rparr>]" and it': "it' = it1"
    by (auto simp: crv_insert_def Let_def)
  from c1 show ?thesis
  proof (rule cursor_ConsE)
    fix ms c ns as bs
    assume *: "m1 = ms @ c # ns" "it1 = (length ms, length as)" "data c = as @ r # bs"
      "xs = flat ms @ as" "ys' = bs @ flat ns" "list_all chunk_ok (ms @ c # ns)"
    define c' where "c' = c\<lparr>data := as @ v # r # bs,
      chunk_count := chunk_count c + (snd v - fst v),
      chunk_begin := min (chunk_begin c) (fst v), chunk_end := max (chunk_end c) (snd v)\<rparr>"
    have ok: "ranges_ok (as @ v # r # bs)"
      using assms(2) Cons * by (simp add: ranges_ok_append ranges_ok_Cons)
    have "last (r # bs) \<in> set (r # bs)" by (rule last_in_set) simp
    moreover from ok have "\<forall>s \<in> set (r # bs). snd v < fst s \<and> fst s < snd s"
      using ranges_ok_lt[OF ok] by (simp add: ranges_ok_append ranges_ok_Cons)
    ultimately have "snd v < fst (last (r # bs))" "fst (last (r # bs)) < snd (last (r # bs))"
      by blast+
    then have "chunk_end c' = snd (last (r # bs))"
      using * by (simp add: c'_def chunk_ok_def)
    moreover have "chunk_begin c' = fst (hd (as @ v # r # bs))"
      using ok * by (cases as) (auto simp: c'_def chunk_ok_def ranges_ok_append ranges_ok_Cons)
    moreover note space
    ultimately have "chunk_ok c'" using * by (auto simp: chunk_ok_def c'_def rlen_def)
    with * Cons m' it' cursorI[of ms c' ns as v "r # bs"] show ?thesis by (simp add: c'_def)
  qed
qed

subsection \<open>The cursor interface\<close>

text \<open>
  What the index set relies on: reading, moving, overwriting, erasing and inserting at an
  iterator, stated on the list of ranges before and from the iterator. The composite steps
  below (joining two ranges, splitting one, stepping back after an erasure) are the ones
  \<open>do_add\<close>, \<open>do_erase\<close>, \<open>do_remove\<close> and \<open>shift_for_insert_at\<close> take.
\<close>

locale range_cursor =
  fixes cur :: "'m \<Rightarrow> 'i \<Rightarrow> range list \<Rightarrow> range list \<Rightarrow> bool"
    and get :: "'m \<Rightarrow> 'i \<Rightarrow> range"
    and fwd :: "'m \<Rightarrow> 'i \<Rightarrow> 'i"
    and bwd :: "'m \<Rightarrow> 'i \<Rightarrow> 'i"
    and put :: "'m \<Rightarrow> 'i \<Rightarrow> nat \<Rightarrow> nat \<Rightarrow> 'm"
    and del :: "'m \<Rightarrow> 'i \<Rightarrow> 'm \<times> 'i"
    and ins :: "'m \<Rightarrow> 'i \<Rightarrow> range \<Rightarrow> 'm \<times> 'i"
  assumes cur_get: "cur m i xs (r # ys) \<Longrightarrow> get m i = r"
    and cur_fwd: "cur m i xs (r # ys) \<Longrightarrow> cur m (fwd m i) (xs @ [r]) ys"
    and cur_bwd: "cur m i (xs @ [r]) ys \<Longrightarrow> cur m (bwd m i) xs (r # ys)"
    and cur_put: "cur m i xs (r # ys) \<Longrightarrow> cur (put m i a b) i xs ((a, b) # ys)"
    and cur_frame: "cur m i xs (r # zs @ ws) \<Longrightarrow> cur m j (xs @ r # zs) ws \<Longrightarrow>
      cur (put m i a b) j (xs @ (a, b) # zs) ws"
    and cur_del: "cur m i xs (r # ys) \<Longrightarrow> del m i = (m', i') \<Longrightarrow> cur m' i' xs ys"
    and cur_ins: "cur m i xs ys \<Longrightarrow> ranges_ok (xs @ v # ys) \<Longrightarrow> ins m i v = (m', i') \<Longrightarrow>
      cur m' i' xs (v # ys)"
begin

lemma put_before:
  assumes "cur m i (xs @ [p]) ys"
  shows "cur (put m (bwd m i) a b) i (xs @ [(a, b)]) ys"
    and "cur (put m (bwd m i) a b) (bwd m i) xs ((a, b) # ys)"
  using cur_frame[of m "bwd m i" xs p "[]" ys i a b] cur_put[of m "bwd m i" xs p ys a b]
    cur_bwd[OF assms] assms by auto

lemma join_before:
  assumes "cur m i (xs @ [p]) (r # ys)" "del (put m (bwd m i) a b) i = (m', i')"
  shows "cur m' i' (xs @ [(a, b)]) ys"
  by (rule cur_del[OF put_before(1)[OF assms(1)] assms(2)])

lemma join_before_back:
  assumes "cur m i (xs @ [p]) (r # ys)" "del (put m (bwd m i) a b) i = (m', i')"
  shows "cur m' (bwd m' i') xs ((a, b) # ys)"
  by (rule cur_bwd[OF join_before[OF assms]])

lemma split_here:
  assumes "cur m i xs (r # ys)" "ranges_ok (xs @ (a, b) # v # ys)"
    and "ins (put m i a b) (fwd (put m i a b) i) v = (m', i')"
  shows "cur m' i' (xs @ [(a, b)]) (v # ys)"
  using cur_ins[OF cur_fwd[OF cur_put[OF assms(1)]] _ assms(3)] assms(2) by simp

end

interpretation rv: range_cursor cursor deref it_next it_prev it_set crv_erase crv_insert
  by unfold_locales
    (fact cursor_deref cursor_next cursor_prev cursor_set cursor_set_frame cursor_erase
      cursor_insert)+

subsection \<open>The invariant and the debug check\<close>

lemma crv_inv_Nil [simp]: "crv_inv []"
  by (simp add: crv_inv_def)

lemma cursor_inv: "cursor m it xs ys \<Longrightarrow> crv_inv m \<longleftrightarrow> ranges_ok (xs @ ys)"
  by (auto simp: crv_inv_def dest: cursor_flat cursor_chunks)

lemma verify_ranges_ok:
  "ranges_ok rs \<Longrightarrow> prev_end = npos \<or> (\<forall>r \<in> set rs. prev_end < fst r) \<Longrightarrow>
     verify_ranges prev_end rs"
  by (induction rs arbitrary: prev_end) (auto simp: ranges_ok_Cons)

lemma sum_rlen_le:
  "ranges_ok rs \<Longrightarrow> rs \<noteq> [] \<Longrightarrow> fst (hd rs) + sum_list (map rlen rs) \<le> snd (last rs)"
proof (induction rs)
  case (Cons r rs)
  show ?case
  proof (cases rs)
    case Nil
    with Cons.prems show ?thesis by (simp add: ranges_ok_Cons rlen_def)
  next
    case rs: (Cons s rs')
    with Cons.IH Cons.prems have "fst s + sum_list (map rlen rs) \<le> snd (last rs)"
      "snd r < fst s" "fst r < snd r" by (auto simp: ranges_ok_Cons)
    moreover from \<open>fst r < snd r\<close> have "fst r + rlen r = snd r" by (simp add: rlen_def)
    ultimately show ?thesis using rs by simp
  qed
qed simp

lemma crv_inv_verify: "crv_inv m \<Longrightarrow> verify m"
proof -
  assume inv: "crv_inv m"
  have "verify_chunk c" if "c \<in> set m" for c
  proof -
    from inv that have ok: "chunk_ok c" by (auto simp: crv_inv_def list_all_iff)
    from that obtain ms ns where "m = ms @ c # ns" by (metis split_list)
    with inv have "ranges_ok (data c)" by (simp add: crv_inv_def ranges_ok_append)
    with ok sum_rlen_le[of "data c"] show ?thesis by (auto simp: chunk_ok_def verify_chunk_def)
  qed
  with inv show ?thesis
    by (auto simp: verify_def list_all_iff crv_inv_def intro: verify_ranges_ok)
qed

end
