(* ===== verification/Index_Set.thy ===== *)
theory Index_Set
  imports Range_Vector
begin

text \<open>
  The single-position operations of \<open>IndexSet\<close> (\<open>index_set.cpp\<close>): a set of
  positions kept as a chunked vector of disjoint, non-adjacent ranges. \<open>elems\<close> is the set
  a vector stands for, and each operation is shown to keep the representation invariant and
  to change that set as the comments of \<open>index_set.hpp\<close> promise.

  A loop over iterators stops at \<open>end()\<close>; the recursive functions test \<open>it_more\<close>,
  which agrees with \<open>it != end()\<close> on every iterator of a well-formed vector
  (\<open>cursor_it_more\<close>, \<open>cursor_eq_end\<close>).
\<close>

subsection \<open>The set of positions\<close>

definition elems_of :: "range list \<Rightarrow> nat set" where
  "elems_of rs = (\<Union>r \<in> set rs. {fst r ..< snd r})"

definition elems :: "crv \<Rightarrow> nat set" where
  "elems m = elems_of (flat m)"

definition below :: "nat set \<Rightarrow> nat \<Rightarrow> nat" where
  "below E x = card {y \<in> E. y < x}"

definition unshifted :: "nat set \<Rightarrow> nat \<Rightarrow> nat" where
  "unshifted E x = x - below E x"

subsection \<open>Searching and reading\<close>

definition is_find_from :: "crv \<Rightarrow> nat \<Rightarrow> iter \<Rightarrow> iter" where
  "is_find_from m index b =
     (let out = fst b + find_if (\<lambda>c. index < chunk_end c) (drop (fst b) m) in
      if out = length m then crv_end m
      else if index < chunk_begin (m ! out) then (out, 0)
      else
        let inner = (if out = fst b then snd b else 0) in
        (out, lower_bound (\<lambda>r. snd r \<le> index) (data (m ! out)) inner
                (length (data (m ! out)) - inner)))"

definition is_find :: "crv \<Rightarrow> nat \<Rightarrow> iter" where
  "is_find m index = is_find_from m index (crv_begin m)"

definition is_contains :: "crv \<Rightarrow> nat \<Rightarrow> bool" where
  "is_contains m index =
     (let it = is_find m index in it \<noteq> crv_end m \<and> fst (deref m it) \<le> index)"

text \<open>
  \<open>count\<close>, loop by loop: the rest of the chunk the start index falls in, complete chunks,
  complete ranges of the last chunk, and the part of the last range.
\<close>

function count_rest_of_chunk :: "crv \<Rightarrow> nat \<Rightarrow> iter \<Rightarrow> nat \<Rightarrow> iter \<times> nat" where
  "count_rest_of_chunk m end_index it ret =
     (if it_more m it \<and> snd (deref m it) < end_index \<and> snd it \<noteq> 0
      then count_rest_of_chunk m end_index (it_next m it)
             (ret + (snd (deref m it) - fst (deref m it)))
      else (it, ret))"
  by pat_completeness auto
termination
  by (relation "measures [\<lambda>(m, e, it, ret). length m - fst it,
        \<lambda>(m, e, it, ret). length (data (m ! fst it)) - snd it]")
     (auto simp: it_more_def it_next_def next_chunk_def split: if_splits)

function count_chunks :: "crv \<Rightarrow> nat \<Rightarrow> iter \<Rightarrow> nat \<Rightarrow> iter \<times> nat" where
  "count_chunks m end_index it ret =
     (if it_more m it \<and> chunk_end (m ! fst it) \<le> end_index
      then count_chunks m end_index (next_chunk it) (ret + chunk_count (m ! fst it))
      else (it, ret))"
  by pat_completeness auto
termination
  by (relation "measure (\<lambda>(m, e, it, ret). length m - fst it)")
     (auto simp: it_more_def next_chunk_def)

function count_ranges :: "crv \<Rightarrow> nat \<Rightarrow> iter \<Rightarrow> nat \<Rightarrow> iter \<times> nat" where
  "count_ranges m end_index it ret =
     (if it_more m it \<and> snd (deref m it) \<le> end_index
      then count_ranges m end_index (it_next m it)
             (ret + (snd (deref m it) - fst (deref m it)))
      else (it, ret))"
  by pat_completeness auto
termination
  by (relation "measures [\<lambda>(m, e, it, ret). length m - fst it,
        \<lambda>(m, e, it, ret). length (data (m ! fst it)) - snd it]")
     (auto simp: it_more_def it_next_def next_chunk_def split: if_splits)

definition count_tail :: "crv \<Rightarrow> nat \<Rightarrow> iter \<Rightarrow> nat \<Rightarrow> nat" where
  "count_tail m end_index it0 ret0 =
     (let (it1, ret1) = count_chunks m end_index it0 ret0;
          (it2, ret2) = count_ranges m end_index it1 ret1
      in if it_more m it2 \<and> fst (deref m it2) < end_index
         then ret2 + (end_index - fst (deref m it2)) else ret2)"

definition is_count :: "crv \<Rightarrow> nat \<Rightarrow> nat \<Rightarrow> nat" where
  "is_count m start_index end_index =
     (let it = is_find m start_index in
      if it = crv_end m \<or> end_index \<le> fst (deref m it) then 0
      else let r = deref m it in
      if end_index \<le> snd r then min (snd r) end_index - max (fst r) start_index
      else if fst r < start_index \<or> snd it \<noteq> 0 then
        let (it', ret) = count_rest_of_chunk m end_index (it_next m it)
                           (snd r - max (fst r) start_index);
            ret' = (if it_more m it' \<and> fst (deref m it') < end_index \<and> snd it' \<noteq> 0
                    then ret + (end_index - fst (deref m it')) else ret)
        in if \<not> it_more m it' \<or> end_index \<le> snd (deref m it') then ret'
           else count_tail m end_index it' ret'
      else count_tail m end_index it 0)"

fun shift_ranges :: "range list \<Rightarrow> nat \<Rightarrow> nat" where
  "shift_ranges [] index = index"
| "shift_ranges (r # rs) index =
     (if index < fst r then index else shift_ranges rs (index + (snd r - fst r)))"

definition is_shift :: "crv \<Rightarrow> nat \<Rightarrow> nat" where
  "is_shift m index = shift_ranges (flat m) index"

definition is_unshift :: "crv \<Rightarrow> nat \<Rightarrow> nat" where
  "is_unshift m index = index - is_count m 0 index"

subsection \<open>Adding\<close>

definition do_add :: "crv \<Rightarrow> iter \<Rightarrow> nat \<Rightarrow> crv \<times> iter" where
  "do_add m it index =
     (let more_before = (it \<noteq> crv_begin m); valid = (it \<noteq> crv_end m) in
      if valid \<and> fst (deref m it) \<le> index \<and> index < snd (deref m it) then (m, it)
      else if more_before \<and> snd (deref m (it_prev m it)) = index then
        let prev = it_prev m it; m1 = it_adjust m prev 0 1 in
        if valid \<and> snd (deref m1 prev) = fst (deref m1 it) then
          let m2 = it_adjust m1 prev 0 (int (snd (deref m1 it) - fst (deref m1 it)));
              (m3, it3) = crv_erase m2 it
          in (m3, it_prev m3 it3)
        else (m1, prev)
      else if valid \<and> fst (deref m it) = index + 1 then (it_adjust m it (- 1) 0, it)
      else crv_insert m it (index, index + 1))"

definition is_add :: "crv \<Rightarrow> nat \<Rightarrow> crv" where
  "is_add m index = fst (do_add m (is_find m index) index)"

text \<open>The constructor from a list of positions.\<close>

definition is_of_list :: "nat list \<Rightarrow> crv" where
  "is_of_list values = fold (\<lambda>v m. is_add m v) values []"

function add_shifted_chunks :: "crv \<Rightarrow> iter \<Rightarrow> nat \<Rightarrow> iter \<times> nat" where
  "add_shifted_chunks m it index =
     (if it_more m it \<and> chunk_end (m ! fst it) \<le> index
      then add_shifted_chunks m (next_chunk it) (index + chunk_count (m ! fst it))
      else (it, index))"
  by pat_completeness auto
termination
  by (relation "measure (\<lambda>(m, it, index). length m - fst it)")
     (auto simp: it_more_def next_chunk_def)

function add_shifted_ranges :: "crv \<Rightarrow> iter \<Rightarrow> nat \<Rightarrow> iter \<times> nat" where
  "add_shifted_ranges m it index =
     (if it_more m it \<and> fst (deref m it) \<le> index
      then add_shifted_ranges m (it_next m it) (index + (snd (deref m it) - fst (deref m it)))
      else (it, index))"
  by pat_completeness auto
termination
  by (relation "measures [\<lambda>(m, it, index). length m - fst it,
        \<lambda>(m, it, index). length (data (m ! fst it)) - snd it]")
     (auto simp: it_more_def it_next_def next_chunk_def split: if_splits)

definition is_add_shifted :: "crv \<Rightarrow> nat \<Rightarrow> crv \<times> nat" where
  "is_add_shifted m index =
     (let (it1, index1) = add_shifted_chunks m (crv_begin m) index;
          (it2, index2) = add_shifted_ranges m it1 index1
      in (fst (do_add m it2 index2), index2))"

definition is_clear :: "crv \<Rightarrow> crv" where
  "is_clear m = []"

definition is_set :: "crv \<Rightarrow> nat \<Rightarrow> crv" where
  "is_set m len = (if len \<noteq> 0 then crv_push_back (is_clear m) (0, len) else is_clear m)"

subsection \<open>Shifting, inserting and erasing\<close>

function shift_until_end_by :: "crv \<Rightarrow> iter \<Rightarrow> int \<Rightarrow> crv" where
  "shift_until_end_by m it d =
     (if it_more m it
      then (let m' = it_shift m it d in shift_until_end_by m' (it_next m' it) d)
      else m)"
  by pat_completeness auto
termination
  by (relation "measures [\<lambda>(m, it, d). length m - fst it,
        \<lambda>(m, it, d). length (data (m ! fst it)) - snd it]")
     (auto simp: it_more_def it_next_def next_chunk_def split: if_splits)

primrec add_run :: "crv \<Rightarrow> iter \<Rightarrow> nat \<Rightarrow> nat \<Rightarrow> crv" where
  "add_run m pos index 0 = m"
| "add_run m pos index (Suc count) =
     (let (m', pos') = do_add m pos index in add_run m' (it_next m' pos') (Suc index) count)"

definition is_insert_at :: "crv \<Rightarrow> nat \<Rightarrow> nat \<Rightarrow> crv" where
  "is_insert_at m index count =
     (let pos = is_find m index in
      if pos \<noteq> crv_end m then
        if fst (deref m pos) \<le> index then
          let m1 = it_adjust m pos 0 (int count) in
          shift_until_end_by m1 (it_next m1 pos) (int count)
        else
          let m1 = it_shift m pos (int count);
              m2 = shift_until_end_by m1 (it_next m1 pos) (int count)
          in add_run m2 pos index count
      else add_run m pos index count)"

definition is_shift_for_insert_at :: "crv \<Rightarrow> nat \<Rightarrow> nat \<Rightarrow> crv" where
  "is_shift_for_insert_at m index count =
     (let it = is_find m index in
      if it = crv_end m then m
      else
        let m1 = shift_until_end_by m it (int count); r = deref m1 it in
        if fst r < index + count
        then (let m2 = it_set m1 it (fst r - count) index in
              fst (crv_insert m2 (it_next m2 it) (index + count, snd r)))
        else m1)"

definition do_erase :: "crv \<Rightarrow> iter \<Rightarrow> nat \<Rightarrow> crv" where
  "do_erase m it index =
     (let r = deref m it in
      if fst r \<le> index then
        if fst r + 1 = snd r then
          let (m1, it1) = crv_erase m it in shift_until_end_by m1 it1 (- 1)
        else
          let m1 = it_adjust m it 0 (- 1) in shift_until_end_by m1 (it_next m1 it) (- 1)
      else if it \<noteq> crv_begin m \<and> snd (deref m (it_prev m it)) + 1 = fst r then
        let m1 = it_adjust m (it_prev m it) 0 (int (snd r - fst r));
            (m2, it2) = crv_erase m1 it
        in shift_until_end_by m2 it2 (- 1)
      else shift_until_end_by m it (- 1))"

definition is_erase_at :: "crv \<Rightarrow> nat \<Rightarrow> crv" where
  "is_erase_at m index =
     (let it = is_find m index in if it \<noteq> crv_end m then do_erase m it index else m)"

function unshift_chunks :: "crv \<Rightarrow> iter \<Rightarrow> nat \<Rightarrow> nat \<Rightarrow> iter \<times> nat" where
  "unshift_chunks m it index shifted =
     (if it_more m it \<and> chunk_end (m ! fst it) \<le> index
      then unshift_chunks m (next_chunk it) index (shifted - chunk_count (m ! fst it))
      else (it, shifted))"
  by pat_completeness auto
termination
  by (relation "measure (\<lambda>(m, it, index, s). length m - fst it)")
     (auto simp: it_more_def next_chunk_def)

function unshift_ranges :: "crv \<Rightarrow> iter \<Rightarrow> nat \<Rightarrow> nat \<Rightarrow> iter \<times> nat" where
  "unshift_ranges m it index shifted =
     (if it_more m it \<and> snd (deref m it) \<le> index
      then unshift_ranges m (it_next m it) index
             (shifted - (snd (deref m it) - fst (deref m it)))
      else (it, shifted))"
  by pat_completeness auto
termination
  by (relation "measures [\<lambda>(m, it, index, s). length m - fst it,
        \<lambda>(m, it, index, s). length (data (m ! fst it)) - snd it]")
     (auto simp: it_more_def it_next_def next_chunk_def split: if_splits)

definition is_erase_or_unshift :: "crv \<Rightarrow> nat \<Rightarrow> crv \<times> nat" where
  "is_erase_or_unshift m index =
     (let (it1, shifted1) = unshift_chunks m (crv_begin m) index index;
          (it2, shifted2) = unshift_ranges m it1 index shifted1
      in if it2 = crv_end m then (m, shifted2)
         else
           let shifted3 = (if fst (deref m it2) \<le> index then npos else shifted2) in
           (do_erase m it2 index, shifted3))"

subsection \<open>Removing without shifting\<close>

text \<open>
  One round of the loop of \<open>do_remove\<close> removes or trims one range, so the number of
  ranges plus one bounds the rounds; \<open>do_remove_loop_correct\<close> shows that with this fuel
  the loop ends by its own condition.
\<close>

fun do_remove_loop :: "nat \<Rightarrow> crv \<Rightarrow> iter \<Rightarrow> nat \<Rightarrow> nat \<Rightarrow> crv \<times> iter" where
  "do_remove_loop 0 m it lo hi = (m, it)"
| "do_remove_loop (Suc fuel) m it lo hi =
     (if it \<noteq> crv_end m \<and> fst (deref m it) < hi then
        let r = deref m it;
            b = max (fst r) lo;
            (m', it') =
              (if fst r < b \<and> hi < snd r then
                 let m1 = it_set m it (fst r) b;
                     (m2, it2) = crv_insert m1 (it_next m1 it) (hi, snd r)
                 in (m2, it_prev m2 it2)
               else if b = fst r \<and> snd r \<le> hi then crv_erase m it
               else if b = fst r then (it_set m it hi (snd r), it)
               else (it_set m it (fst r) b, it))
        in do_remove_loop fuel m' (is_find_from m' b it') b hi
      else (m, it))"

definition do_remove :: "crv \<Rightarrow> iter \<Rightarrow> nat \<Rightarrow> nat \<Rightarrow> crv \<times> iter" where
  "do_remove m it lo hi =
     do_remove_loop (Suc (length (flat m))) m (is_find_from m lo it) lo hi"

definition is_remove :: "crv \<Rightarrow> nat \<Rightarrow> nat \<Rightarrow> crv" where
  "is_remove m index count = fst (do_remove m (is_find m index) index (index + count))"

fun remove_ranges :: "crv \<Rightarrow> iter \<Rightarrow> range list \<Rightarrow> crv" where
  "remove_ranges m it [] = m"
| "remove_ranges m it (r # rs) =
     (let (m', it') = do_remove m it (fst r) (snd r) in
      if it' = crv_end m' then m' else remove_ranges m' it' rs)"

definition is_remove_set :: "crv \<Rightarrow> crv \<Rightarrow> crv" where
  "is_remove_set m values = remove_ranges m (crv_begin m) (flat values)"

end
