(* ===== verification/Index_Set_Find.thy ===== *)
theory Index_Set_Find
  imports Index_Set
begin

text \<open>
  What a vector of ranges says about its set of positions, and the correctness of the
  operations that search it or add one position: \<open>find\<close>, \<open>contains\<close>, \<open>add\<close>,
  the constructor from a list and \<open>shift\<close>.
\<close>

subsection \<open>Facts about position sets\<close>

lemma elems_of_Nil [simp]: "elems_of [] = {}"
  by (simp add: elems_of_def)

lemma elems_of_Cons [simp]: "elems_of (r # rs) = {fst r ..< snd r} \<union> elems_of rs"
  by (simp add: elems_of_def)

lemma elems_of_append [simp]: "elems_of (xs @ ys) = elems_of xs \<union> elems_of ys"
  by (auto simp: elems_of_def)

lemma finite_elems_of [simp]: "finite (elems_of rs)"
  by (simp add: elems_of_def)

lemma elems_Nil [simp]: "elems [] = {}"
  by (simp add: elems_def)

lemma cursor_elems: "cursor m it xs ys \<Longrightarrow> elems m = elems_of xs \<union> elems_of ys"
  by (auto simp: elems_def dest!: cursor_flat)

lemma finite_elems [simp]: "finite (elems m)"
  by (simp add: elems_def)

lemma elems_of_less: "\<forall>r \<in> set rs. snd r \<le> x \<Longrightarrow> y \<in> elems_of rs \<Longrightarrow> y < x"
  by (auto simp: elems_of_def)

lemma elems_of_ge: "\<forall>r \<in> set rs. x \<le> fst r \<Longrightarrow> y \<in> elems_of rs \<Longrightarrow> x \<le> y"
  by (auto simp: elems_of_def)

lemma ranges_ok_snoc_le:
  "ranges_ok (xs @ r # ys) \<Longrightarrow> s \<in> set xs \<Longrightarrow> snd s < fst r"
  by (simp add: ranges_ok_append ranges_ok_Cons)

lemma ranges_ok_ConsD: "ranges_ok (xs @ r # ys) \<Longrightarrow> s \<in> set ys \<Longrightarrow> snd r < fst s"
  by (simp add: ranges_ok_append ranges_ok_Cons)

lemma card_elems_of: "ranges_ok rs \<Longrightarrow> card (elems_of rs) = sum_list (map rlen rs)"
proof (induction rs)
  case (Cons r rs)
  then have "{fst r ..< snd r} \<inter> elems_of rs = {}"
    by (fastforce simp: ranges_ok_Cons elems_of_def)
  with Cons show ?case
    by (simp add: card_Un_disjoint ranges_ok_Cons rlen_def)
qed simp

text \<open>A position that a prefix of the ranges lies before and the rest lies at or after.\<close>

lemma below_split:
  assumes "ranges_ok (xs @ ys)" "\<forall>r \<in> set xs. snd r \<le> x" "\<forall>r \<in> set ys. x \<le> fst r"
  shows "below (elems_of (xs @ ys)) x = sum_list (map rlen xs)"
proof -
  have "{y \<in> elems_of (xs @ ys). y < x} = elems_of xs"
    using elems_of_less[OF assms(2)] elems_of_ge[OF assms(3)] by fastforce
  with assms(1) show ?thesis by (simp add: below_def card_elems_of ranges_ok_append)
qed

subsection \<open>Searching\<close>

lemma takeWhile_none: "\<not> P x \<Longrightarrow> takeWhile P (x # xs) = [] \<and> dropWhile P (x # xs) = x # xs"
  by simp

lemma ranges_snd_sorted: "ranges_ok rs \<Longrightarrow> sorted_wrt (\<lambda>r s. snd r < snd s) rs"
  by (induction rs) (fastforce simp: ranges_ok_Cons dest: ranges_ok_lt)+

text \<open>The binary search finds the first range that ends after the index.\<close>

lemma lower_bound_ranges:
  assumes "ranges_ok (as @ bs)" "\<forall>r \<in> set as. snd r \<le> index" "\<exists>r \<in> set bs. index < snd r"
  shows "lower_bound (\<lambda>r. snd r \<le> index) (as @ bs) (length as) (length bs) =
    length as + length (takeWhile (\<lambda>r. snd r \<le> index) bs)"
proof (rule lower_bound_partition)
  let ?P = "\<lambda>r :: range. snd r \<le> index"
  show "length as \<le> length as + length (takeWhile ?P bs)" by simp
  show "length as + length (takeWhile ?P bs) \<le> length as + length bs"
    by (simp add: length_takeWhile_le)
  fix i assume i: "length as \<le> i" "i < length as + length bs"
  define k where "k = i - length as"
  have k: "k < length bs" "(as @ bs) ! i = bs ! k" using i by (auto simp: k_def nth_append)
  let ?t = "length (takeWhile ?P bs)"
  have "snd (bs ! k) \<le> index \<longleftrightarrow> k < ?t"
  proof
    assume "k < ?t"
    then show "snd (bs ! k) \<le> index" by (metis nth_mem set_takeWhileD takeWhile_nth)
  next
    assume le: "snd (bs ! k) \<le> index"
    show "k < ?t"
    proof (rule ccontr)
      assume "\<not> k < ?t"
      with k have "?t < length bs" by simp
      then have "index < snd (bs ! ?t)" using nth_length_takeWhile by fastforce
      moreover have "snd (bs ! ?t) \<le> snd (bs ! k)"
        using \<open>\<not> k < ?t\<close> k ranges_snd_sorted[of bs] assms(1)
        by (cases "?t = k") (auto simp: sorted_wrt_iff_nth_less ranges_ok_append less_imp_le)
      ultimately show False using le by simp
    qed
  qed
  with k i show "snd ((as @ bs) ! i) \<le> index \<longleftrightarrow> i < length as + ?t" by (auto simp: k_def)
qed

lemma chunk_end_le:
  assumes "chunk_ok c" "ranges_ok (data c)" "r \<in> set (data c)"
  shows "snd r \<le> chunk_end c" "chunk_begin c \<le> fst r"
proof -
  from assms(3) obtain as bs where *: "data c = as @ r # bs" by (metis split_list)
  have "last (r # bs) \<in> set (r # bs)" by (rule last_in_set) simp
  moreover from assms(2) * have "\<forall>s \<in> set bs. snd r < fst s \<and> fst s < snd s"
    by (auto simp: ranges_ok_append ranges_ok_Cons dest: ranges_ok_lt)
  ultimately have "snd r \<le> snd (last (r # bs))" by (auto simp: less_imp_le)
  with assms(1) * show "snd r \<le> chunk_end c" by (simp add: chunk_ok_def)
  from assms(1,2) * show "chunk_begin c \<le> fst r"
    by (cases as) (auto simp: chunk_ok_def ranges_ok_append ranges_ok_Cons)
qed

text \<open>The search inside the chunk that the outer search stopped at.\<close>

lemma find_in_chunk:
  assumes "list_all chunk_ok (ms @ c # ns)" "ranges_ok (flat (ms @ c # ns))"
    and "data c = as @ bs" "\<forall>r \<in> set as. snd r \<le> index" "index < chunk_end c"
  shows "cursor (ms @ c # ns)
     (if index < chunk_begin c then (length ms, 0)
      else (length ms, lower_bound (\<lambda>r. snd r \<le> index) (data c) (length as) (length bs)))
     (flat ms @ as @ takeWhile (\<lambda>r. snd r \<le> index) (bs @ flat ns))
     (dropWhile (\<lambda>r. snd r \<le> index) (bs @ flat ns))"
proof -
  let ?P = "\<lambda>r :: range. snd r \<le> index"
  have okc: "chunk_ok c" "ranges_ok (data c)"
    using assms(1,2) by (simp_all add: ranges_ok_append)
  have "last (data c) \<in> set bs"
    using assms(3-5) okc(1) by (cases bs rule: rev_cases)
      (auto simp: chunk_ok_def dest: bspec[of _ _ "last as"])
  moreover have "snd (last (data c)) = chunk_end c" using okc(1) by (simp add: chunk_ok_def)
  ultimately have ex: "\<exists>r \<in> set bs. index < snd r" using assms(5) by metis
  then obtain r rs where dw: "dropWhile ?P bs = r # rs"
    by (metis dropWhile_eq_Nil_conv linorder_not_le neq_Nil_conv)
  have app: "takeWhile ?P (bs @ flat ns) = takeWhile ?P bs"
    "dropWhile ?P (bs @ flat ns) = dropWhile ?P bs @ flat ns"
    using ex by (auto simp: takeWhile_append dropWhile_append)
  from dw have bs: "bs = takeWhile ?P bs @ r # rs" by (metis takeWhile_dropWhile_id)
  have at: "cursor (ms @ c # ns) (length ms, length (as @ takeWhile ?P bs))
     (flat ms @ as @ takeWhile ?P bs) (r # rs @ flat ns)"
    using cursorI[OF assms(1), of "as @ takeWhile ?P bs" r rs] assms(3) bs by simp
  show ?thesis
  proof (cases "index < chunk_begin c")
    case True
    have "s \<notin> set as" "\<not> ?P s" if "s \<in> set (data c)" for s
      using chunk_end_le(2)[OF okc that] ranges_ok_lt[OF okc(2) that] True assms(4) by force+
    then have "as = []" "takeWhile ?P bs = []"
      using assms(3) bs by (metis Un_iff last_in_set set_append, metis Un_iff list.set_sel(1)
        set_append set_takeWhileD)
    with at dw app True show ?thesis by simp
  next
    case False
    with at dw app lower_bound_ranges[OF _ assms(4) ex] okc(2) assms(3) show ?thesis by simp
  qed
qed

lemma nth_after: "(ms @ c # ns) ! Suc (length ms + k) = ns ! k"
  by (metis add_Suc_right nth_Cons_Suc nth_append_length_plus)

lemma find_skip_chunks:
  assumes "list_all chunk_ok (ms @ ns)" "ranges_ok (flat (ms @ ns))"
  shows "cursor (ms @ ns)
     (let k = find_if (\<lambda>c. index < chunk_end c) ns in
      if k = length ns then (length ms + k, 0)
      else if index < chunk_begin (ns ! k) then (length ms + k, 0)
      else (length ms + k, lower_bound (\<lambda>r. snd r \<le> index) (data (ns ! k)) 0
              (length (data (ns ! k)))))
     (flat ms @ takeWhile (\<lambda>r. snd r \<le> index) (flat ns))
     (dropWhile (\<lambda>r. snd r \<le> index) (flat ns))"
  using assms
proof (induction ns arbitrary: ms)
  case Nil
  then show ?case using cursor_endI[of ms] by (simp add: crv_end_def)
next
  case (Cons c ns)
  show ?case
  proof (cases "index < chunk_end c")
    case True
    with find_in_chunk[OF Cons.prems, of "[]" "data c" index] show ?thesis
      by (cases "index < chunk_begin c") (simp_all add: Let_def)
  next
    case False
    have "chunk_ok c" "ranges_ok (data c)"
      using Cons.prems by (simp_all add: ranges_ok_append)
    then have "\<forall>r \<in> set (data c). snd r \<le> index"
      using chunk_end_le(1) False by fastforce
    with Cons.IH[of "ms @ [c]"] Cons.prems False show ?thesis
      by (simp add: Let_def takeWhile_append dropWhile_append split: if_splits)
  qed
qed

lemma find_from_cursor:
  assumes cur: "cursor m b xs ys" and inv: "crv_inv m" and le: "\<forall>r \<in> set xs. snd r \<le> index"
  shows "cursor m (is_find_from m index b) (xs @ takeWhile (\<lambda>r. snd r \<le> index) ys)
    (dropWhile (\<lambda>r. snd r \<le> index) ys)"
proof (cases ys)
  case Nil
  with cur have "b = crv_end m" by (auto dest: cursor_NilE)
  with cur Nil show ?thesis by (simp add: is_find_from_def crv_end_def)
next
  case (Cons r ys')
  let ?P = "\<lambda>r :: range. snd r \<le> index" and ?Q = "\<lambda>c. index < chunk_end c"
  from cur Cons obtain ms c ns as bs where m: "m = ms @ c # ns" and b: "b = (length ms, length as)"
    and d: "data c = as @ r # bs" and xs: "xs = flat ms @ as" and ys': "ys' = bs @ flat ns"
    and ok: "list_all chunk_ok (ms @ c # ns)" by (auto elim: cursor_ConsE)
  have rok: "ranges_ok (flat (ms @ c # ns))" using inv m by (simp add: crv_inv_def)
  show ?thesis
  proof (cases "?Q c")
    case True
    with find_in_chunk[OF ok rok d _ True] le xs ys' Cons m b d show ?thesis
      by (cases "index < chunk_begin c"; cases "snd r \<le> index")
         (simp_all add: is_find_from_def Let_def)
  next
    case False
    have "\<forall>s \<in> set (data c). snd s \<le> index"
      using chunk_end_le(1)[of c] False ok rok by (fastforce simp: ranges_ok_append)
    moreover have "length ms + Suc (find_if ?Q ns) \<noteq> length ms" by simp
    ultimately show ?thesis
      using find_skip_chunks[of "ms @ [c]" ns index] False ok rok xs ys' Cons m b d
      by (simp add: is_find_from_def Let_def takeWhile_append dropWhile_append crv_end_def
          nth_after split: if_splits)
  qed
qed

lemma find_cursor:
  assumes "crv_inv m"
  shows "cursor m (is_find m index) (takeWhile (\<lambda>r. snd r \<le> index) (flat m))
    (dropWhile (\<lambda>r. snd r \<le> index) (flat m))"
  unfolding is_find_def
  using find_from_cursor[OF cursor_begin[of m] assms, of index] assms by (simp add: crv_inv_def)

text \<open>
  The form most proofs use: the search splits the ranges into those that end at or before
  the index and those that end after it.
\<close>

lemma find_cases:
  assumes "crv_inv m"
  obtains xs ys where "cursor m (is_find m index) xs ys" "ranges_ok (xs @ ys)"
    "flat m = xs @ ys" "\<forall>r \<in> set xs. snd r \<le> index" "\<forall>r \<in> set ys. index < snd r"
proof -
  let ?P = "\<lambda>r :: range. snd r \<le> index"
  define xs ys where "xs = takeWhile ?P (flat m)" and "ys = dropWhile ?P (flat m)"
  have c: "cursor m (is_find m index) xs ys"
    unfolding xs_def ys_def using assms by (rule find_cursor)
  have ok: "ranges_ok (xs @ ys)" using assms by (simp add: crv_inv_def xs_def ys_def)
  have "\<forall>r \<in> set ys. index < snd r"
  proof (cases ys)
    case (Cons s rs)
    then have "index < snd s"
      by (metis ys_def hd_dropWhile linorder_not_le list.discI list.sel(1))
    with ok Cons show ?thesis
      by (fastforce simp: ranges_ok_append ranges_ok_Cons dest: ranges_ok_lt)
  qed simp
  moreover have "\<forall>r \<in> set xs. snd r \<le> index" by (auto simp: xs_def dest: set_takeWhileD)
  moreover have "flat m = xs @ ys" by (simp add: xs_def ys_def)
  ultimately show thesis using c ok that by blast
qed

subsection \<open>Membership and adding\<close>

lemma contains_correct: "crv_inv m \<Longrightarrow> is_contains m x \<longleftrightarrow> x \<in> elems m"
proof (erule find_cases[where index = x])
  fix xs ys
  assume *: "cursor m (is_find m x) xs ys" "ranges_ok (xs @ ys)" "flat m = xs @ ys"
    "\<forall>r \<in> set xs. snd r \<le> x" "\<forall>r \<in> set ys. x < snd r"
  have out: "x \<notin> elems_of xs" using elems_of_less[OF *(4)] by blast
  show ?thesis
  proof (cases ys)
    case Nil
    with * out show ?thesis
      by (simp add: is_contains_def Let_def cursor_eq_end cursor_elems)
  next
    case (Cons r ys')
    then have "x \<notin> elems_of ys'" using *(2,5) elems_of_ge[of ys' "Suc x"]
      by (fastforce simp: ranges_ok_append ranges_ok_Cons)
    with * Cons out show ?thesis
      by (simp add: is_contains_def Let_def cursor_eq_end cursor_elems)
  qed
qed

lemma ranges_ok_hd_gap:
  "ranges_ok ys \<Longrightarrow> (ys \<noteq> [] \<Longrightarrow> x < fst (hd ys)) \<Longrightarrow> \<forall>r \<in> set ys. x < fst r"
  by (cases ys) (auto simp: ranges_ok_Cons)

lemma do_add_cursor:
  assumes cur: "cursor m it xs ys" and ok: "ranges_ok (xs @ ys)"
    and bef: "\<forall>r \<in> set xs. snd r \<le> index" and aft: "\<forall>r \<in> set ys. index < snd r"
  obtains m' it' xs' r' ys' where "do_add m it index = (m', it')" "cursor m' it' xs' (r' # ys')"
    "ranges_ok (xs' @ r' # ys')"
    "elems_of (xs' @ r' # ys') = insert index (elems_of (xs @ ys))" "fst r' \<le> index" "index < snd r'"
proof -
  note res = that
  have more: "it \<noteq> crv_begin m \<longleftrightarrow> xs \<noteq> []" "it \<noteq> crv_end m \<longleftrightarrow> ys \<noteq> []"
    using cursor_eq_begin[OF cur] cursor_eq_end[OF cur] by auto
  have gap: "\<forall>r \<in> set ys. x < fst r" if "ys \<noteq> [] \<Longrightarrow> x < fst (hd ys)" for x
    using that ok ranges_ok_hd_gap[of ys x] by (auto simp: ranges_ok_append)
  have gap': "\<forall>r \<in> set xs. snd r < index" if "xs \<noteq> [] \<Longrightarrow> snd (last xs) \<noteq> index"
    using that ok bef
    by (cases xs rule: rev_cases) (fastforce simp: ranges_ok_append ranges_ok_Cons)+
  consider (inside) a b ys0 where "ys = (a, b) # ys0" "a \<le> index"
    | (after) xs0 p where "xs = xs0 @ [(p, index)]" "\<forall>r \<in> set ys. index < fst r"
    | (before) b ys0 where "ys = (Suc index, b) # ys0" "\<forall>r \<in> set xs. snd r < index"
    | (apart) "\<forall>r \<in> set xs. snd r < index" "\<forall>r \<in> set ys. Suc index < fst r"
  proof -
    consider "ys \<noteq> [] \<and> fst (hd ys) \<le> index"
      | "\<forall>r \<in> set ys. index < fst r" "xs \<noteq> []" "snd (last xs) = index"
      | "\<forall>r \<in> set ys. index < fst r" "\<forall>r \<in> set xs. snd r < index"
      using gap gap' by (cases "ys \<noteq> [] \<and> fst (hd ys) \<le> index") (auto simp: not_le)
    then show thesis
    proof cases
      case 1
      then show ?thesis using inside by (cases ys) auto
    next
      case 2
      then show ?thesis using after by (cases xs rule: rev_cases) auto
    next
      case 3
      show ?thesis
      proof (cases "ys \<noteq> [] \<and> fst (hd ys) = Suc index")
        case True
        with 3 show ?thesis using before by (cases ys) auto
      next
        case False
        with 3 have "\<forall>r \<in> set ys. Suc index < fst r"
          by (intro gap) (metis Suc_lessI list.set_sel(1))
        with 3 show ?thesis using apart by blast
      qed
    qed
  qed
  then show thesis
  proof cases
    case inside
    with cur more ok aft show thesis
      by (intro res[of m it xs "(a, b)" ys0]) (auto simp: do_add_def)
  next
    case after
    let ?prev = "it_prev m it" and ?m1 = "it_set m (it_prev m it) p (Suc index)"
    have cp: "cursor m ?prev xs0 ((p, index) # ys)"
      using cursor_prev[of m it xs0 "(p, index)" ys] cur after(1) by simp
    have c1: "cursor ?m1 it (xs0 @ [(p, Suc index)]) ys" "cursor ?m1 ?prev xs0 ((p, Suc index) # ys)"
      using rv.put_before[of m it xs0 "(p, index)" ys p "Suc index"] cur after(1) by simp_all
    have p: "p < index" using ok after(1) by (simp add: ranges_ok_append ranges_ok_Cons)
    with cp have m1: "it_adjust m ?prev 0 1 = ?m1" by (subst it_adjust_eq_set) auto
    have add: "do_add m it index = (if ys \<noteq> [] \<and> fst (hd ys) = Suc index
      then (case crv_erase (it_adjust ?m1 ?prev 0 (int (snd (hd ys) - fst (hd ys)))) it of
              (m3, it3) \<Rightarrow> (m3, it_prev m3 it3))
      else (?m1, ?prev))"
      using cur after cp c1 more m1 by (cases ys) (auto simp: do_add_def Let_def)
    show thesis
    proof (cases "ys \<noteq> [] \<and> fst (hd ys) = Suc index")
      case True
      then obtain b ys0 where ys: "ys = (Suc index, b) # ys0" by (cases ys) auto
      with ok have b: "Suc index < b" by (simp add: ranges_ok_append ranges_ok_Cons)
      have bwd: "it_prev ?m1 it = ?prev"
        using cursor_prev[OF c1(1)] c1(2) by (rule cursor_unique)
      have m2: "it_adjust ?m1 ?prev 0 (int (b - Suc index)) = it_set ?m1 (it_prev ?m1 it) p b"
        using c1(2) p b by (subst it_adjust_eq_set) (auto simp: bwd add_diff_def)
      obtain m3 it3 where er: "crv_erase (it_set ?m1 (it_prev ?m1 it) p b) it = (m3, it3)"
        by (cases "crv_erase (it_set ?m1 (it_prev ?m1 it) p b) it")
      have "cursor m3 (it_prev m3 it3) xs0 ((p, b) # ys0)"
        using rv.join_before_back[OF _ er] c1(1) ys by simp
      moreover have "do_add m it index = (m3, it_prev m3 it3)"
        using add er m2 ys by simp
      ultimately show thesis using ok after ys p b
        by (intro res[of m3 "it_prev m3 it3" xs0 "(p, b)" ys0])
           (auto simp: ranges_ok_append ranges_ok_Cons)
    next
      case False
      with after have "\<forall>r \<in> set ys. Suc index < fst r"
        by (intro gap) (metis Suc_lessI list.set_sel(1))
      with False add c1(2) ok after p show thesis
        by (intro res[of ?m1 ?prev xs0 "(p, Suc index)" ys])
           (auto simp: ranges_ok_append ranges_ok_Cons)
    qed
  next
    case before
    have b: "Suc index < b" using ok before(1) by (simp add: ranges_ok_append ranges_ok_Cons)
    have c1: "cursor (it_set m it index b) it xs ((index, b) # ys0)"
      using cursor_set[of m it xs] cur before(1) by blast
    have "it_adjust m it (- 1) 0 = it_set m it index b"
      using cur before b by (subst it_adjust_eq_set[of m it xs "Suc index" b ys0]) auto
    moreover have "xs \<noteq> [] \<Longrightarrow> snd (deref m (it_prev m it)) \<noteq> index"
      using cur before(2) cursor_prev[of m it "butlast xs" "last xs" ys] last_in_set[of xs]
      by force
    ultimately have "do_add m it index = (it_set m it index b, it)"
      using more before cur by (auto simp: do_add_def Let_def)
    with c1 ok before b show thesis
      by (intro res[of "it_set m it index b" it xs "(index, b)" ys0])
         (auto simp: ranges_ok_append ranges_ok_Cons)
  next
    case apart
    have ok': "ranges_ok (xs @ (index, Suc index) # ys)"
      using ok apart by (auto simp: ranges_ok_append ranges_ok_Cons)
    obtain m1 it1 where ins: "crv_insert m it (index, Suc index) = (m1, it1)"
      by (cases "crv_insert m it (index, Suc index)")
    have "xs \<noteq> [] \<Longrightarrow> snd (deref m (it_prev m it)) \<noteq> index"
      using cur apart(1) cursor_prev[of m it "butlast xs" "last xs" ys] last_in_set[of xs]
      by force
    moreover have "ys \<noteq> [] \<Longrightarrow> Suc index < fst (deref m it)"
      using cur apart(2) by (cases ys) auto
    ultimately have "do_add m it index = (m1, it1)"
      using more ins by (auto simp: do_add_def Let_def)
    with cursor_insert[OF cur ok' ins] ok' show thesis
      by (intro res[of m1 it1 xs "(index, Suc index)" ys]) auto
  qed
qed

text \<open>The same, without the position the iterator is left at.\<close>

lemma do_add_inv:
  assumes "cursor m it xs ys" "ranges_ok (xs @ ys)"
    "\<forall>r \<in> set xs. snd r \<le> index" "\<forall>r \<in> set ys. index < snd r"
  shows "crv_inv (fst (do_add m it index))" "elems (fst (do_add m it index)) = insert index (elems m)"
proof -
  obtain m' it' xs' r' ys' where *: "do_add m it index = (m', it')" "cursor m' it' xs' (r' # ys')"
    "ranges_ok (xs' @ r' # ys')" "elems_of (xs' @ r' # ys') = insert index (elems_of (xs @ ys))"
    using assms by (rule do_add_cursor)
  then show "crv_inv (fst (do_add m it index))" using cursor_inv by simp
  from * assms(1) show "elems (fst (do_add m it index)) = insert index (elems m)"
    using cursor_elems[of m' it' xs' "r' # ys'"] cursor_elems[of m it xs ys] by simp
qed

lemma add_correct:
  assumes "crv_inv m"
  shows "crv_inv (is_add m x)" "elems (is_add m x) = insert x (elems m)"
  using assms
  by (auto elim!: find_cases[where index = x] simp: is_add_def do_add_inv)

lemma of_list_correct: "crv_inv (is_of_list xs) \<and> elems (is_of_list xs) = set xs"
proof -
  have "crv_inv (fold (\<lambda>v m. is_add m v) xs m) \<and>
      elems (fold (\<lambda>v m. is_add m v) xs m) = set xs \<union> elems m" if "crv_inv m" for m
    using that by (induction xs arbitrary: m) (auto simp: add_correct)
  from this[of "[]"] show ?thesis by (simp add: is_of_list_def)
qed

subsection \<open>Positions of members and non-members\<close>

lemma below_le: "below E x \<le> x"
proof -
  have "{y \<in> E. y < x} \<subseteq> {..<x}" by auto
  then have "card {y \<in> E. y < x} \<le> card {..<x}" by (rule card_mono[rotated]) simp
  then show ?thesis by (simp add: below_def)
qed

lemma below_add:
  "x \<le> y \<Longrightarrow> below E y = below E x + card {z \<in> E. x \<le> z \<and> z < y}"
proof -
  assume "x \<le> y"
  then have "{z \<in> E. z < y} = {z \<in> E. z < x} \<union> {z \<in> E. x \<le> z \<and> z < y}" by auto
  moreover have "card ({z \<in> E. z < x} \<union> {z \<in> E. x \<le> z \<and> z < y}) =
      card {z \<in> E. z < x} + card {z \<in> E. x \<le> z \<and> z < y}"
    by (rule card_Un_disjoint) auto
  ultimately show ?thesis by (simp add: below_def)
qed

lemma unshifted_less:
  assumes "x < y" "x \<notin> E"
  shows "unshifted E x < unshifted E y"
proof -
  have "{z \<in> E. x \<le> z \<and> z < y} \<subseteq> {Suc x ..< y}"
  proof
    fix z assume "z \<in> {z \<in> E. x \<le> z \<and> z < y}"
    with assms(2) show "z \<in> {Suc x ..< y}" by (cases "z = x") auto
  qed
  then have "card {z \<in> E. x \<le> z \<and> z < y} \<le> card {Suc x ..< y}" by (rule card_mono[rotated]) simp
  with assms(1) below_add[of x y E] have "below E y \<le> below E x + (y - Suc x)" by simp
  with assms(1) below_le[of E x] show ?thesis unfolding unshifted_def by linarith
qed

lemma unshifted_inj: "x \<notin> E \<Longrightarrow> y \<notin> E \<Longrightarrow> unshifted E x = unshifted E y \<Longrightarrow> x = y"
  by (metis less_irrefl linorder_neqE_nat unshifted_less)

lemma unshifted_mono: "x \<le> y \<Longrightarrow> unshifted E x \<le> unshifted E y"
proof -
  assume "x \<le> y"
  have "card {z \<in> E. x \<le> z \<and> z < y} \<le> card {x ..< y}" by (rule card_mono) auto
  with below_add[OF \<open>x \<le> y\<close>, of E] have "below E y \<le> below E x + (y - x)" by simp
  with below_le[of E x] \<open>x \<le> y\<close> show ?thesis unfolding unshifted_def by linarith
qed

text \<open>
  A position is reached from \<open>index\<close> by skipping the ranges of a set exactly when it is
  the non-member with \<open>index\<close> non-members before it.
\<close>

definition shifted_to :: "nat set \<Rightarrow> nat \<Rightarrow> nat \<Rightarrow> bool" where
  "shifted_to E index x \<longleftrightarrow> x \<notin> E \<and> unshifted E x = index"

lemma shifted_to_unique: "shifted_to E i x \<Longrightarrow> shifted_to E i y \<Longrightarrow> x = y"
  by (auto simp: shifted_to_def dest: unshifted_inj)

lemma shifted_to_split:
  assumes "ranges_ok (xs @ ys)" "\<forall>r \<in> set xs. snd r \<le> index + sum_list (map rlen xs)"
    "\<forall>r \<in> set ys. index + sum_list (map rlen xs) < fst r"
  shows "shifted_to (elems_of (xs @ ys)) index (index + sum_list (map rlen xs))"
  using below_split[OF assms(1,2)] assms elems_of_less[OF assms(2)]
    elems_of_ge[of ys "Suc (index + sum_list (map rlen xs))"]
  by (fastforce simp: shifted_to_def unshifted_def)

lemma shift_ranges_shifted:
  assumes "ranges_ok (xs @ ys)" "\<forall>r \<in> set xs. snd r \<le> index + sum_list (map rlen xs)"
  shows "shifted_to (elems_of (xs @ ys)) index (shift_ranges ys (index + sum_list (map rlen xs)))"
  using assms
proof (induction ys arbitrary: xs)
  case Nil
  then show ?case using shifted_to_split[of xs "[]" index] by simp
next
  case (Cons r ys)
  let ?i = "index + sum_list (map rlen xs)"
  show ?case
  proof (cases "?i < fst r")
    case True
    with Cons.prems have "\<forall>s \<in> set (r # ys). ?i < fst s"
      by (fastforce simp: ranges_ok_append ranges_ok_Cons)
    with True Cons.prems shifted_to_split[of xs "r # ys" index] show ?thesis by simp
  next
    case False
    have "snd r \<le> fst r + rlen r" by (simp add: rlen_def)
    then have "\<forall>s \<in> set (xs @ [r]). snd s \<le> index + sum_list (map rlen (xs @ [r]))"
      using Cons.prems(2) False by fastforce
    with Cons.IH[of "xs @ [r]"] Cons.prems False show ?thesis
      by (simp add: add.assoc rlen_def[of r, symmetric])
  qed
qed

lemma shift_correct: "crv_inv m \<Longrightarrow> shifted_to (elems m) index (is_shift m index)"
  using shift_ranges_shifted[of "[]" "flat m" index]
  by (simp add: is_shift_def elems_def crv_inv_def)

end
