(* ===== verification/Index_Set_Count.thy ===== *)
theory Index_Set_Count
  imports Index_Set_Find
begin

text \<open>
  The loops that count positions chunk by chunk and range by range: \<open>count\<close>,
  \<open>unshift\<close> and \<open>add_shifted\<close>.
\<close>

subsection \<open>The counting loops\<close>

declare count_rest_of_chunk.simps [simp del] count_chunks.simps [simp del]
  count_ranges.simps [simp del] add_shifted_chunks.simps [simp del]
  add_shifted_ranges.simps [simp del] unshift_chunks.simps [simp del]
  unshift_ranges.simps [simp del] shift_until_end_by.simps [simp del]

lemma ex3I: "P a b c \<Longrightarrow> \<exists>a b c. P a b c"
  by blast

lemma cursor_moreE:
  assumes "cursor m it xs ys" "it_more m it"
  obtains r ys' where "ys = r # ys'" "deref m it = r" "cursor m (it_next m it) (xs @ [r]) ys'"
  using assms cursor_it_more cursor_deref cursor_next by (metis neq_Nil_conv)

lemma cursor_chunkE:
  assumes "cursor m it xs ys" "it_more m it" "snd it = 0"
  obtains ys' where "ys = data (m ! fst it) @ ys'" "chunk_ok (m ! fst it)"
    "cursor m (next_chunk it) (xs @ data (m ! fst it)) ys'"
proof -
  from assms obtain r ys0 where ys: "ys = r # ys0" by (auto elim: cursor_moreE)
  with assms obtain ms c ns bs where *: "m = ms @ c # ns" "it = (length ms, 0)"
    "data c = r # bs" "xs = flat ms" "ys0 = bs @ flat ns" "list_all chunk_ok (ms @ c # ns)"
    by (auto elim!: cursor_ConsE)
  have "cursor m (next_chunk it) (xs @ data c) (flat ns)"
  proof (cases ns)
    case Nil
    with * cursor_endI[of "ms @ [c]"] show ?thesis by (simp add: next_chunk_def crv_end_def)
  next
    case (Cons d ns')
    with * obtain s cs where "data d = [] @ s # cs" by (cases "data d") (auto simp: chunk_ok_def)
    with * Cons cursorI[of "ms @ [c]" d ns' "[]" s cs] show ?thesis by (simp add: next_chunk_def)
  qed
  with * ys show thesis by (intro that[of "flat ns"]) auto
qed

lemma chunk_all_le:
  assumes "ranges_ok (xs @ data c @ ys)" "chunk_ok c" "chunk_end c \<le> x"
  shows "\<forall>r \<in> set (data c). snd r \<le> x"
  using assms chunk_end_le(1)[of c] by (fastforce simp: ranges_ok_append)

lemma ranges_end_after:
  "ranges_ok (xs @ ys) \<Longrightarrow> (ys \<noteq> [] \<Longrightarrow> e < snd (hd ys)) \<Longrightarrow> \<forall>r \<in> set ys. e < snd r"
  by (cases ys) (fastforce simp: ranges_ok_append ranges_ok_Cons dest: ranges_ok_lt)+

text \<open>What a chunk loop and a range loop have skipped, and what they have added up.\<close>

definition skipped :: "crv \<Rightarrow> range list \<Rightarrow> range list \<Rightarrow> iter \<Rightarrow> range list \<Rightarrow> range list \<Rightarrow> bool" where
  "skipped m xs ys it xs' ys' \<longleftrightarrow> ys = xs' @ ys' \<and> cursor m it (xs @ xs') ys'"

lemma count_chunks_skip:
  assumes "cursor m it xs ys" "ranges_ok (xs @ ys)" "snd it = 0"
  shows "\<exists>it' xs' ys'. count_chunks m e it ret = (it', ret + sum_list (map rlen xs')) \<and>
    skipped m xs ys it' xs' ys' \<and> (\<forall>r \<in> set xs'. snd r \<le> e)"
  using assms
proof (induction m e it ret arbitrary: xs ys rule: count_chunks.induct)
  case (1 m e it ret)
  show ?case
  proof (cases "it_more m it \<and> chunk_end (m ! fst it) \<le> e")
    case True
    with "1.prems" obtain ys0 where *: "ys = data (m ! fst it) @ ys0" "chunk_ok (m ! fst it)"
      "cursor m (next_chunk it) (xs @ data (m ! fst it)) ys0" by (auto elim: cursor_chunkE)
    with "1.prems" have ok: "ranges_ok ((xs @ data (m ! fst it)) @ ys0)"
      and le: "\<forall>r \<in> set (data (m ! fst it)). snd r \<le> e"
      using chunk_all_le[of xs "m ! fst it" ys0 e] True by simp_all
    from "1.IH"[OF True *(3) ok] obtain it' xs' ys' where
      "count_chunks m e (next_chunk it) (ret + chunk_count (m ! fst it)) =
         (it', ret + chunk_count (m ! fst it) + sum_list (map rlen xs'))"
      "skipped m (xs @ data (m ! fst it)) ys0 it' xs' ys'" "\<forall>r \<in> set xs'. snd r \<le> e"
      by (auto simp: next_chunk_def)
    with True * le show ?thesis
      by (rule_tac ex3I[where a = it' and b = "data (m ! fst it) @ xs'" and c = ys'])
         (auto simp: skipped_def count_chunks.simps[of m e it] chunk_ok_def)
  next
    case False
    with "1.prems" show ?thesis
      by (rule_tac ex3I[where a = it and b = "[]" and c = ys])
         (auto simp: skipped_def count_chunks.simps[of m e it])
  qed
qed

lemma count_ranges_skip:
  assumes "cursor m it xs ys" "ranges_ok (xs @ ys)"
  shows "\<exists>it' xs' ys'. count_ranges m e it ret = (it', ret + sum_list (map rlen xs')) \<and>
    skipped m xs ys it' xs' ys' \<and> (\<forall>r \<in> set xs'. snd r \<le> e) \<and> (\<forall>r \<in> set ys'. e < snd r)"
  using assms
proof (induction m e it ret arbitrary: xs ys rule: count_ranges.induct)
  case (1 m e it ret)
  show ?case
  proof (cases "it_more m it \<and> snd (deref m it) \<le> e")
    case True
    with "1.prems" obtain r ys0 where *: "ys = r # ys0" "deref m it = r"
      "cursor m (it_next m it) (xs @ [r]) ys0" by (auto elim: cursor_moreE)
    from "1.IH"[OF True *(3)] "1.prems"(2) *(1,2) obtain it' xs' ys' where
      "count_ranges m e (it_next m it) (ret + rlen r) = (it', ret + rlen r + sum_list (map rlen xs'))"
      "skipped m (xs @ [r]) ys0 it' xs' ys'" "\<forall>r \<in> set xs'. snd r \<le> e" "\<forall>r \<in> set ys'. e < snd r"
      by (auto simp: rlen_def[of r])
    with True * show ?thesis
      by (rule_tac ex3I[where a = it' and b = "r # xs'" and c = ys'])
         (auto simp: skipped_def count_ranges.simps[of m e it] rlen_def[of r, symmetric])
  next
    case False
    with "1.prems" have "\<forall>r \<in> set ys. e < snd r"
      using cursor_it_more[OF "1.prems"(1)]
      by (intro ranges_end_after[of xs ys]) (auto simp: neq_Nil_conv)
    with False "1.prems" show ?thesis
      by (rule_tac ex3I[where a = it and b = "[]" and c = ys])
         (auto simp: skipped_def count_ranges.simps[of m e it])
  qed
qed

text \<open>The loops of \<open>erase_or_unshift\<close> subtract what the loops of \<open>count\<close> add.\<close>

lemma unshift_chunks_count:
  "count_chunks m i it ret = (it', ret') \<Longrightarrow>
     unshift_chunks m it i s = (it', s - (ret' - ret)) \<and> ret \<le> ret'"
proof (induction m i it ret arbitrary: s rule: count_chunks.induct)
  case (1 m i it ret)
  show ?case
  proof (cases "it_more m it \<and> chunk_end (m ! fst it) \<le> i")
    case True
    with "1.prems" "1.IH"[of "s - chunk_count (m ! fst it)"] show ?thesis
      by (auto simp: count_chunks.simps[of m i it] unshift_chunks.simps[of m it])
  next
    case False
    with "1.prems" show ?thesis
      by (auto simp: count_chunks.simps[of m i it] unshift_chunks.simps[of m it'])
  qed
qed

lemma unshift_ranges_count:
  "count_ranges m i it ret = (it', ret') \<Longrightarrow>
     unshift_ranges m it i s = (it', s - (ret' - ret)) \<and> ret \<le> ret'"
proof (induction m i it ret arbitrary: s rule: count_ranges.induct)
  case (1 m i it ret)
  show ?case
  proof (cases "it_more m it \<and> snd (deref m it) \<le> i")
    case True
    with "1.prems" "1.IH"[of "s - (snd (deref m it) - fst (deref m it))"] show ?thesis
      by (auto simp: count_ranges.simps[of m i it] unshift_ranges.simps[of m it])
  next
    case False
    with "1.prems" show ?thesis
      by (auto simp: count_ranges.simps[of m i it] unshift_ranges.simps[of m it'])
  qed
qed

lemma add_shifted_chunks_skip:
  assumes "cursor m it xs ys" "ranges_ok (xs @ ys)" "snd it = 0"
  shows "\<exists>it' xs' ys'. add_shifted_chunks m it index = (it', index + sum_list (map rlen xs')) \<and>
    skipped m xs ys it' xs' ys' \<and> (\<forall>r \<in> set xs'. snd r \<le> index + sum_list (map rlen xs'))"
  using assms
proof (induction m it index arbitrary: xs ys rule: add_shifted_chunks.induct)
  case (1 m it index)
  show ?case
  proof (cases "it_more m it \<and> chunk_end (m ! fst it) \<le> index")
    case True
    with "1.prems" obtain ys0 where *: "ys = data (m ! fst it) @ ys0" "chunk_ok (m ! fst it)"
      "cursor m (next_chunk it) (xs @ data (m ! fst it)) ys0" by (auto elim: cursor_chunkE)
    with "1.prems" have ok: "ranges_ok ((xs @ data (m ! fst it)) @ ys0)"
      and le: "\<forall>r \<in> set (data (m ! fst it)). snd r \<le> index"
      using chunk_all_le[of xs "m ! fst it" ys0 index] True by simp_all
    from "1.IH"[OF True *(3) ok] obtain it' xs' ys' where
      "add_shifted_chunks m (next_chunk it) (index + chunk_count (m ! fst it)) =
         (it', index + chunk_count (m ! fst it) + sum_list (map rlen xs'))"
      "skipped m (xs @ data (m ! fst it)) ys0 it' xs' ys'"
      "\<forall>r \<in> set xs'. snd r \<le> index + chunk_count (m ! fst it) + sum_list (map rlen xs')"
      by (auto simp: next_chunk_def)
    with True * le show ?thesis
      by (rule_tac ex3I[where a = it' and b = "data (m ! fst it) @ xs'" and c = ys'])
         (auto simp: skipped_def add_shifted_chunks.simps[of m it] chunk_ok_def add.assoc
           intro: trans_le_add1)
  next
    case False
    with "1.prems" show ?thesis
      by (rule_tac ex3I[where a = it and b = "[]" and c = ys])
         (auto simp: skipped_def add_shifted_chunks.simps[of m it])
  qed
qed

lemma add_shifted_ranges_skip:
  assumes "cursor m it xs ys" "ranges_ok (xs @ ys)"
  shows "\<exists>it' xs' ys'. add_shifted_ranges m it index = (it', index + sum_list (map rlen xs')) \<and>
    skipped m xs ys it' xs' ys' \<and> (\<forall>r \<in> set xs'. snd r \<le> index + sum_list (map rlen xs')) \<and>
    (\<forall>r \<in> set ys'. index + sum_list (map rlen xs') < fst r)"
  using assms
proof (induction m it index arbitrary: xs ys rule: add_shifted_ranges.induct)
  case (1 m it index)
  show ?case
  proof (cases "it_more m it \<and> fst (deref m it) \<le> index")
    case True
    with "1.prems" obtain r ys0 where *: "ys = r # ys0" "deref m it = r"
      "cursor m (it_next m it) (xs @ [r]) ys0" by (auto elim: cursor_moreE)
    from "1.IH"[OF True *(3)] "1.prems"(2) *(1,2) obtain it' xs' ys' where
      "add_shifted_ranges m (it_next m it) (index + rlen r) = (it', index + rlen r + sum_list (map rlen xs'))"
      "skipped m (xs @ [r]) ys0 it' xs' ys'"
      "\<forall>s \<in> set xs'. snd s \<le> index + rlen r + sum_list (map rlen xs')"
      "\<forall>s \<in> set ys'. index + rlen r + sum_list (map rlen xs') < fst s"
      by (auto simp: rlen_def[of r])
    moreover have "snd r \<le> index + rlen r" using True * by (auto simp: rlen_def)
    ultimately show ?thesis using True *
      by (rule_tac ex3I[where a = it' and b = "r # xs'" and c = ys'])
         (auto simp: skipped_def add_shifted_ranges.simps[of m it] rlen_def[of r, symmetric]
           add.assoc intro: order_trans)
  next
    case False
    with "1.prems" have "\<forall>r \<in> set ys. index < fst r"
      using cursor_it_more[OF "1.prems"(1)]
      by (intro ranges_ok_hd_gap) (auto simp: ranges_ok_append neq_Nil_conv)
    with False "1.prems" show ?thesis
      by (rule_tac ex3I[where a = it and b = "[]" and c = ys])
         (auto simp: skipped_def add_shifted_ranges.simps[of m it])
  qed
qed

subsection \<open>Counting\<close>

text \<open>The number of positions of the given ranges that lie before \<open>e\<close>.\<close>

lemma below_partial:
  assumes "ranges_ok (xs @ r # ys)" "\<forall>s \<in> set xs. snd s \<le> e" "e \<le> snd r"
  shows "below (elems_of (xs @ r # ys)) e = sum_list (map rlen xs) + (e - fst r)"
proof (cases "fst r < e")
  case True
  then have "{y \<in> elems_of (xs @ r # ys). y < e} = elems_of (xs @ [(fst r, e)])"
    using assms elems_of_less[OF assms(2)] elems_of_ge[of ys "snd r"]
    by (fastforce simp: ranges_ok_append ranges_ok_Cons)
  moreover have "ranges_ok (xs @ [(fst r, e)])"
    using assms True by (simp add: ranges_ok_append ranges_ok_Cons)
  ultimately have "below (elems_of (xs @ r # ys)) e = sum_list (map rlen (xs @ [(fst r, e)]))"
    by (simp only: below_def card_elems_of)
  then show ?thesis by simp
next
  case False
  with assms have "\<forall>s \<in> set (r # ys). e \<le> fst s"
    by (fastforce simp: ranges_ok_append ranges_ok_Cons)
  with below_split[OF assms(1,2)] False show ?thesis by simp
qed

lemma count_tail_below:
  assumes "cursor m it xs ys" "crv_inv m" "snd it = 0" "\<forall>r \<in> set xs. snd r \<le> e"
  shows "count_tail m e it ret + sum_list (map rlen xs) = ret + below (elems m) e"
proof -
  have ok: "ranges_ok (xs @ ys)" and el: "elems m = elems_of (xs @ ys)"
    using assms(1,2) cursor_inv cursor_elems by auto
  obtain it1 xs1 ys1 where 1: "count_chunks m e it ret = (it1, ret + sum_list (map rlen xs1))"
    "ys = xs1 @ ys1" "cursor m it1 (xs @ xs1) ys1" "\<forall>r \<in> set xs1. snd r \<le> e"
    using count_chunks_skip[OF assms(1) ok assms(3)] unfolding skipped_def by blast
  let ?ret1 = "ret + sum_list (map rlen xs1)"
  have ok1: "ranges_ok ((xs @ xs1) @ ys1)" using ok 1 by simp
  obtain it2 xs2 ys2 where 2: "count_ranges m e it1 ?ret1 = (it2, ?ret1 + sum_list (map rlen xs2))"
    "ys1 = xs2 @ ys2" "cursor m it2 ((xs @ xs1) @ xs2) ys2" "\<forall>r \<in> set xs2. snd r \<le> e"
    "\<forall>r \<in> set ys2. e < snd r"
    using count_ranges_skip[OF 1(3) ok1] unfolding skipped_def by blast
  have le: "\<forall>r \<in> set ((xs @ xs1) @ xs2). snd r \<le> e" using assms(4) 1(4) 2(4) by auto
  have more: "it_more m it2 \<longleftrightarrow> ys2 \<noteq> []" using cursor_it_more[OF 2(3)] .
  show ?thesis
  proof (cases ys2)
    case Nil
    with below_split[of "(xs @ xs1) @ xs2" "[]" e] ok 1 2 le more el show ?thesis
      by (simp add: count_tail_def)
  next
    case (Cons r ys3)
    with 2(3) have d: "deref m it2 = r" by simp
    have "below (elems m) e = sum_list (map rlen ((xs @ xs1) @ xs2)) + (e - fst r)"
      using below_partial[of "(xs @ xs1) @ xs2" r ys3 e] ok 1(2) 2(2,5) Cons le el by (simp add: less_imp_le)
    with 1(1) 2(1) more Cons d show ?thesis by (auto simp: count_tail_def)
  qed
qed

lemma count_from_zero:
  assumes "crv_inv m"
  shows "is_count m 0 e = below (elems m) e"
proof -
  obtain xs ys where *: "cursor m (is_find m 0) xs ys" "ranges_ok (xs @ ys)"
    "flat m = xs @ ys" "\<forall>r \<in> set xs. snd r \<le> 0" "\<forall>r \<in> set ys. 0 < snd r"
    using assms by (rule find_cases)
  have xs: "xs = []"
    using *(2,4) by (cases xs) (auto simp: ranges_ok_append ranges_ok_Cons)
  have it: "is_find m 0 = (0, 0)" using cursor_fst0[OF *(1)] xs by simp
  show ?thesis
  proof (cases ys)
    case Nil
    with * xs cursor_eq_end[OF *(1)] show ?thesis
      by (simp add: is_count_def Let_def below_def elems_def)
  next
    case (Cons r ys')
    then have d: "deref m (is_find m 0) = r" and ne: "is_find m 0 \<noteq> crv_end m"
      using *(1) cursor_eq_end[OF *(1)] by auto
    have el: "elems m = elems_of ([] @ r # ys')" using * xs Cons by (simp add: elems_def)
    have ok: "ranges_ok ([] @ r # ys')" using *(2) xs Cons by simp
    show ?thesis
    proof (cases "e \<le> snd r")
      case True
      with below_partial[OF ok _ True] el d ne show ?thesis
        by (auto simp: is_count_def Let_def)
    next
      case False
      with count_tail_below[OF *(1) assms, of e 0] xs it d ne ok show ?thesis
        by (auto simp: is_count_def Let_def ranges_ok_Cons)
    qed
  qed
qed

lemma unshift_correct: "crv_inv m \<Longrightarrow> is_unshift m x = unshifted (elems m) x"
  by (simp add: is_unshift_def unshifted_def count_from_zero)

lemma count_rest_of_chunk_skip:
  assumes "cursor m it xs ys" "ranges_ok (xs @ ys)"
  shows "\<exists>it' xs' ys'. count_rest_of_chunk m e it ret = (it', ret + sum_list (map rlen xs')) \<and>
    skipped m xs ys it' xs' ys' \<and> (\<forall>r \<in> set xs'. snd r \<le> e) \<and>
    (ys' \<noteq> [] \<and> snd it' \<noteq> 0 \<longrightarrow> e \<le> snd (hd ys'))"
  using assms
proof (induction m e it ret arbitrary: xs ys rule: count_rest_of_chunk.induct)
  case (1 m e it ret)
  show ?case
  proof (cases "it_more m it \<and> snd (deref m it) < e \<and> snd it \<noteq> 0")
    case True
    with "1.prems" obtain r ys0 where *: "ys = r # ys0" "deref m it = r"
      "cursor m (it_next m it) (xs @ [r]) ys0" by (auto elim: cursor_moreE)
    have ok': "ranges_ok ((xs @ [r]) @ ys0)" using "1.prems"(2) *(1) by simp
    from "1.IH"[OF True *(3) ok', unfolded *(2) rlen_def[of r, symmetric]] obtain it' xs' ys' where
      "count_rest_of_chunk m e (it_next m it) (ret + rlen r) =
         (it', ret + rlen r + sum_list (map rlen xs'))"
      "skipped m (xs @ [r]) ys0 it' xs' ys'" "\<forall>r \<in> set xs'. snd r \<le> e"
      "ys' \<noteq> [] \<and> snd it' \<noteq> 0 \<longrightarrow> e \<le> snd (hd ys')"
      by blast
    with True * show ?thesis
      by (rule_tac ex3I[where a = it' and b = "r # xs'" and c = ys'])
         (auto simp: skipped_def count_rest_of_chunk.simps[of m e it] rlen_def[of r, symmetric])
  next
    case False
    with "1.prems" cursor_it_more[OF "1.prems"(1)] show ?thesis
      by (rule_tac ex3I[where a = it and b = "[]" and c = ys])
         (auto simp: skipped_def count_rest_of_chunk.simps[of m e it] neq_Nil_conv)
  qed
qed

text \<open>
  Between two indices, \<open>count\<close> is right unless the count starts inside a chunk and the
  first range of a later chunk reaches over the end index: then the part of that range that
  lies before the end index is not added (\<open>count_misses_straddling_range\<close> in \<open>Index_Set_Props\<close>).
\<close>

definition straddles_chunk_start :: "crv \<Rightarrow> nat \<Rightarrow> bool" where
  "straddles_chunk_start m e \<longleftrightarrow>
     (\<exists>c \<in> set (tl m). fst (hd (data c)) < e \<and> e \<le> snd (hd (data c)))"

lemma not_straddling_at_chunk_start:
  assumes "cursor m it xs (r # ys)" "snd it = 0" "xs \<noteq> []" "\<not> straddles_chunk_start m e"
  shows "\<not> (fst r < e \<and> e \<le> snd r)"
proof -
  from assms(1,2) obtain ms c ns bs where *: "m = ms @ c # ns" "data c = r # bs" "xs = flat ms"
    by (auto elim!: cursor_ConsE)
  with assms(3) have "c \<in> set (tl m)" by (cases ms) auto
  with assms(4) * show ?thesis by (force simp: straddles_chunk_start_def)
qed

lemma count_mid_chunk:
  assumes cur: "cursor m (is_find m s) xs (r # ys0)" and inv: "crv_inv m"
    and bs: "below (elems m) s = sum_list (map rlen xs) + (s - fst r)"
    and lee: "\<forall>t \<in> set xs. snd t \<le> e" and long: "snd r < e" "s < snd r"
    and mid: "fst r < s \<or> snd (is_find m s) \<noteq> 0" and ns: "\<not> straddles_chunk_start m e"
  shows "is_count m s e + below (elems m) s = below (elems m) e"
proof -
  let ?ret = "snd r - max (fst r) s"
  have ok: "ranges_ok (xs @ r # ys0)" and el: "elems m = elems_of (xs @ r # ys0)"
    using cur inv cursor_inv cursor_elems by auto
  have d: "deref m (is_find m s) = r" and ne: "is_find m s \<noteq> crv_end m"
    using cur cursor_eq_end[OF cur] by auto
  note unfold = is_count_def Let_def ranges_ok_append ranges_ok_Cons
  have cn: "cursor m (it_next m (is_find m s)) (xs @ [r]) ys0"
    using cursor_next cur by blast
  have ok0: "ranges_ok ((xs @ [r]) @ ys0)" using ok by simp
  obtain it1 xs1 ys1 where 1:
    "count_rest_of_chunk m e (it_next m (is_find m s)) ?ret = (it1, ?ret + sum_list (map rlen xs1))"
    "ys0 = xs1 @ ys1" "cursor m it1 ((xs @ [r]) @ xs1) ys1" "\<forall>t \<in> set xs1. snd t \<le> e"
    "ys1 \<noteq> [] \<and> snd it1 \<noteq> 0 \<longrightarrow> e \<le> snd (hd ys1)"
    using count_rest_of_chunk_skip[OF cn ok0, of e ?ret] unfolding skipped_def by blast
  let ?pre = "(xs @ [r]) @ xs1"
  have le1: "\<forall>t \<in> set ?pre. snd t \<le> e" using lee long 1(4) by auto
  have ok1: "ranges_ok (?pre @ ys1)" using ok 1(2) by simp
  have total: "?ret + sum_list (map rlen xs1) + below (elems m) s = sum_list (map rlen ?pre)"
    using bs ok long(2) by (auto simp: ranges_ok_append ranges_ok_Cons rlen_def[of r])
  have more: "it_more m it1 \<longleftrightarrow> ys1 \<noteq> []" using cursor_it_more[OF 1(3)] .
  show ?thesis
  proof (cases ys1)
    case Nil
    have "below (elems m) e = sum_list (map rlen ?pre)"
      using below_split[OF ok1 le1] el 1(2) Nil by simp
    with total 1(1) more Nil mid long d ne ok show ?thesis by (auto simp: unfold)
  next
    case (Cons r2 ys2)
    have d1: "deref m it1 = r2" using 1(3) Cons by simp
    show ?thesis
    proof (cases "e \<le> snd r2")
      case True
      have "below (elems m) e = sum_list (map rlen ?pre) + (e - fst r2)"
        using below_partial[OF _ le1 True, of ys2] ok1 el 1(2) Cons by simp
      moreover have "snd it1 = 0 \<Longrightarrow> \<not> fst r2 < e"
        using not_straddling_at_chunk_start[OF 1(3)[unfolded Cons] _ _ ns] True by simp
      ultimately show ?thesis using total 1(1) more Cons mid long d d1 ne ok True
        by (auto simp: unfold)
    next
      case False
      with 1(5) Cons have "snd it1 = 0" by auto
      then show ?thesis
        using count_tail_below[OF 1(3) inv _ le1, of "?ret + sum_list (map rlen xs1)"]
          total 1(1) more Cons mid long d d1 ne ok False by (auto simp: unfold)
    qed
  qed
qed

lemma count_between:
  assumes inv: "crv_inv m" and se: "s \<le> e" and ns: "\<not> straddles_chunk_start m e"
  shows "is_count m s e + below (elems m) s = below (elems m) e"
proof -
  obtain xs ys where *: "cursor m (is_find m s) xs ys" "ranges_ok (xs @ ys)"
    "flat m = xs @ ys" "\<forall>r \<in> set xs. snd r \<le> s" "\<forall>r \<in> set ys. s < snd r"
    using inv by (rule find_cases)
  have el: "elems m = elems_of (xs @ ys)" using *(3) by (simp add: elems_def)
  show ?thesis
  proof (cases ys)
    case Nil
    with * el below_split[of xs "[]" s] below_split[of xs "[]" e] se cursor_eq_end[OF *(1)]
    show ?thesis by (fastforce simp: is_count_def)
  next
    case (Cons r ys0)
    then have d: "deref m (is_find m s) = r" and ne: "is_find m s \<noteq> crv_end m"
      using *(1) cursor_eq_end[OF *(1)] by auto
    have ok: "ranges_ok (xs @ r # ys0)" and lee: "\<forall>t \<in> set xs. snd t \<le> e"
      using *(2,4) Cons se by auto
    have bs: "below (elems m) s = sum_list (map rlen xs) + (s - fst r)"
      using below_partial[OF ok *(4)] *(5) Cons el by simp
    show ?thesis
    proof (cases "e \<le> snd r")
      case True
      with below_partial[OF ok lee True] bs el Cons d ne se show ?thesis
        by (auto simp: is_count_def Let_def)
    next
      case long: False
      show ?thesis
      proof (cases "fst r < s \<or> snd (is_find m s) \<noteq> 0")
        case False
        with count_tail_below[OF *(1) inv _ lee, of 0] bs d ne long ok show ?thesis
          by (auto simp: is_count_def Let_def ranges_ok_append ranges_ok_Cons)
      next
        case True
        then show ?thesis
          using count_mid_chunk[OF _ inv bs lee _ _ True ns] long *(1,5) Cons by simp
      qed
    qed
  qed
qed

lemma add_shifted_correct:
  assumes "crv_inv m" "is_add_shifted m index = (m', x)"
  shows "crv_inv m'" "shifted_to (elems m) index x" "elems m' = insert x (elems m)"
proof -
  have ch: "list_all chunk_ok m" and ok: "ranges_ok ([] @ flat m)" and b0: "snd (crv_begin m) = 0"
    using assms(1) by (auto simp: crv_inv_def crv_begin_def crv_end_def)
  obtain it1 xs1 ys1 where 1:
    "add_shifted_chunks m (crv_begin m) index = (it1, index + sum_list (map rlen xs1))"
    "flat m = xs1 @ ys1" "cursor m it1 xs1 ys1"
    "\<forall>r \<in> set xs1. snd r \<le> index + sum_list (map rlen xs1)"
    using add_shifted_chunks_skip[OF cursor_begin[OF ch] ok b0, of index]
    unfolding skipped_def by auto
  let ?i1 = "index + sum_list (map rlen xs1)"
  have ok1: "ranges_ok (xs1 @ ys1)" using ok 1(2) by simp
  obtain it2 xs2 ys2 where 2:
    "add_shifted_ranges m it1 ?i1 = (it2, ?i1 + sum_list (map rlen xs2))"
    "ys1 = xs2 @ ys2" "cursor m it2 (xs1 @ xs2) ys2"
    "\<forall>r \<in> set xs2. snd r \<le> ?i1 + sum_list (map rlen xs2)"
    "\<forall>r \<in> set ys2. ?i1 + sum_list (map rlen xs2) < fst r"
    using add_shifted_ranges_skip[OF 1(3) ok1, of ?i1] unfolding skipped_def by auto
  have x: "x = index + sum_list (map rlen (xs1 @ xs2))" and m': "m' = fst (do_add m it2 x)"
    using assms(2) 1(1) 2(1) by (auto simp: is_add_shifted_def add.assoc)
  have bef: "\<forall>r \<in> set (xs1 @ xs2). snd r \<le> x" using 1(4) 2(4) x by fastforce
  have aft: "\<forall>r \<in> set ys2. x < fst r" using 2(5) x by (simp add: add.assoc)
  have ok2: "ranges_ok ((xs1 @ xs2) @ ys2)" using ok 1(2) 2(2) by simp
  have "\<forall>r \<in> set ys2. x < snd r"
    using aft ok2 by (fastforce simp: ranges_ok_append dest: ranges_ok_lt)
  from do_add_inv[OF 2(3) ok2 bef this] show "crv_inv m'" "elems m' = insert x (elems m)"
    by (simp_all add: m')
  show "shifted_to (elems m) index x"
    using shifted_to_split[OF ok2, of index] bef aft x 1(2) 2(2) by (simp add: elems_def)
qed

subsection \<open>Shifting the rest of the vector\<close>


end
