(* ===== verification/Index_Set_Shift.thy ===== *)
theory Index_Set_Shift
  imports Index_Set_Count
begin

text \<open>
  The operations that move the positions behind an index: \<open>insert_at\<close>,
  \<open>shift_for_insert_at\<close>, \<open>erase_at\<close> and \<open>erase_or_unshift\<close>.
\<close>

subsection \<open>Shifting every range behind a cursor\<close>

definition rshift :: "int \<Rightarrow> range \<Rightarrow> range" where
  "rshift d r = (add_diff (fst r) d, add_diff (snd r) d)"

lemma sizes_it_shift [simp]: "sizes (it_shift m it d) = sizes m"
  by (cases "fst it < length m")
     (auto simp: it_shift_def Let_def sizes_def list_eq_iff_nth_eq nth_list_update)

lemma sizes_shift_until_end [simp]: "sizes (shift_until_end_by m it d) = sizes m"
  by (induction m it d rule: shift_until_end_by.induct)
     (subst shift_until_end_by.simps, simp add: Let_def)

lemma cursor_shift_until_end:
  assumes "cursor m it xs ys" "\<forall>r \<in> set ys. fst r \<le> snd r \<and> 0 \<le> int (fst r) + d"
  shows "cursor (shift_until_end_by m it d) it xs (map (rshift d) ys)"
  using assms
proof (induction m it d arbitrary: xs ys rule: shift_until_end_by.induct)
  case (1 m it d)
  show ?case
  proof (cases "it_more m it")
    case False
    with "1.prems" show ?thesis
      by (simp add: shift_until_end_by.simps[of m it] cursor_it_more)
  next
    case True
    with "1.prems"(1) obtain a b ys0 where ys: "ys = (a, b) # ys0"
      using cursor_it_more[OF "1.prems"(1)] by (cases ys) auto
    with "1.prems"(1) have cur: "cursor m it xs ((a, b) # ys0)" by simp
    let ?m = "it_shift m it d" and ?r = "rshift d (a, b)"
    have c1: "cursor ?m it xs (?r # ys0)"
      using it_shift_eq_set[OF cur, of d] cursor_set[OF cur] "1.prems"(2) ys
      by (simp add: rshift_def)
    have "cursor (shift_until_end_by ?m (it_next ?m it) d) (it_next ?m it) (xs @ [?r])
        (map (rshift d) ys0)"
      using "1.IH"[OF True refl cursor_next[OF c1]] "1.prems"(2) ys by simp
    then have "list_all chunk_ok (shift_until_end_by m it d)"
      "flat (shift_until_end_by m it d) = xs @ map (rshift d) ys"
      using True ys
      by (auto simp: shift_until_end_by.simps[of m it] Let_def dest: cursor_chunks cursor_flat)
    then show ?thesis using cursor_iter_at[OF c1] by (simp add: cursor_iff)
  qed
qed

lemma rshift_nat: "rshift (int n) r = (fst r + n, snd r + n)"
  by (simp add: rshift_def)

lemma rshift_minus_1: "rshift (- 1) r = (fst r - 1, snd r - 1)"
  by (simp add: rshift_def)

lemma ranges_ok_shift: "ranges_ok (map (rshift (int n)) rs) \<longleftrightarrow> ranges_ok rs"
  by (induction rs) (auto simp: ranges_ok_Cons rshift_nat)

lemma ranges_ok_shift_back:
  "ranges_ok rs \<Longrightarrow> \<forall>r \<in> set rs. 0 < fst r \<Longrightarrow> ranges_ok (map (rshift (- 1)) rs)"
  by (induction rs) (fastforce simp: ranges_ok_Cons rshift_minus_1)+

lemma image_add_nat: "(\<lambda>x. x + n) ` {a ..< b :: nat} = {a + n ..< b + n}"
  by (simp add: add.commute)

lemma elems_of_shift: "elems_of (map (rshift (int n)) rs) = (\<lambda>x. x + n) ` elems_of rs"
  by (induction rs) (simp_all add: image_Un rshift_nat image_add_nat)

lemma image_pred_nat: "0 < a \<Longrightarrow> (\<lambda>x. x - 1) ` {a ..< b :: nat} = {a - 1 ..< b - 1}"
proof -
  assume "0 < a"
  have "x \<in> (\<lambda>x. x - 1) ` {a ..< b}" if "x \<in> {a - 1 ..< b - 1}" for x
    using that \<open>0 < a\<close> by (intro image_eqI[of _ _ "Suc x"]) auto
  with \<open>0 < a\<close> show ?thesis by auto
qed

lemma elems_of_shift_back:
  "\<forall>r \<in> set rs. 0 < fst r \<Longrightarrow> elems_of (map (rshift (- 1)) rs) = (\<lambda>x. x - 1) ` elems_of rs"
  by (induction rs) (simp_all add: image_Un rshift_minus_1 image_pred_nat[simplified])

subsection \<open>Inserting and making room\<close>

text \<open>Positions from \<open>index\<close> on move up by \<open>n\<close>; or down by one over a deleted position.\<close>

definition open_gap :: "nat \<Rightarrow> nat \<Rightarrow> nat set \<Rightarrow> nat set" where
  "open_gap index n E = {x \<in> E. x < index} \<union> (\<lambda>x. x + n) ` {x \<in> E. index \<le> x}"

definition close_gap :: "nat \<Rightarrow> nat set \<Rightarrow> nat set" where
  "close_gap index E = {x \<in> E. x < index} \<union> (\<lambda>x. x - 1) ` {x \<in> E. index < x}"

lemma open_gap_Un: "open_gap i n (A \<union> B) = open_gap i n A \<union> open_gap i n B"
  by (auto simp: open_gap_def)

lemma open_gap_before: "\<forall>r \<in> set xs. snd r \<le> i \<Longrightarrow> open_gap i n (elems_of xs) = elems_of xs"
  using elems_of_less[of xs i] by (fastforce simp: open_gap_def)

lemma open_gap_after:
  "\<forall>r \<in> set ys. i \<le> fst r \<Longrightarrow> open_gap i n (elems_of ys) = (\<lambda>x. x + n) ` elems_of ys"
  using elems_of_ge[of ys i] by (fastforce simp: open_gap_def)

lemma open_gap_inside:
  "a \<le> i \<Longrightarrow> i < b \<Longrightarrow> open_gap i n {a ..< b} = {a ..< i} \<union> {i + n ..< b + n}"
proof -
  assume "a \<le> i" "i < b"
  then have "{x \<in> {a ..< b}. x < i} = {a ..< i}" "{x \<in> {a ..< b}. i \<le> x} = {i ..< b}" by auto
  then show ?thesis by (simp add: open_gap_def image_add_nat)
qed

lemma close_gap_Un: "close_gap i (A \<union> B) = close_gap i A \<union> close_gap i B"
  by (auto simp: close_gap_def)

lemma close_gap_before: "\<forall>r \<in> set xs. snd r \<le> i \<Longrightarrow> close_gap i (elems_of xs) = elems_of xs"
  using elems_of_less[of xs i] by (fastforce simp: close_gap_def)

lemma close_gap_after:
  "\<forall>r \<in> set ys. i < fst r \<Longrightarrow> close_gap i (elems_of ys) = (\<lambda>x. x - 1) ` elems_of ys"
  using elems_of_ge[of ys "Suc i"] by (fastforce simp: close_gap_def)

lemma close_gap_inside: "a \<le> i \<Longrightarrow> i < b \<Longrightarrow> close_gap i {a ..< b} = {a ..< b - 1}"
proof -
  assume *: "a \<le> i" "i < b"
  then have "{x \<in> {a ..< b}. x < i} = {a ..< i}" "{x \<in> {a ..< b}. i < x} = {Suc i ..< b}" by auto
  moreover have "(\<lambda>x. x - 1) ` {Suc i ..< b} = {i ..< b - 1}"
    using image_pred_nat[of "Suc i" b] by simp
  ultimately show ?thesis using * by (simp add: close_gap_def ivl_disj_un)
qed

lemma add_run_correct:
  assumes "cursor m pos xs ys" "ranges_ok (xs @ ys)"
    "\<forall>r \<in> set xs. snd r \<le> index" "\<forall>r \<in> set ys. index + n < fst r"
  shows "crv_inv (add_run m pos index n) \<and>
    elems (add_run m pos index n) = elems m \<union> {index ..< index + n}"
  using assms
proof (induction n arbitrary: m pos xs ys index)
  case 0
  then show ?case using cursor_inv by auto
next
  case (Suc n)
  have aft: "\<forall>r \<in> set ys. index < snd r"
    using Suc.prems(2,4) by (fastforce simp: ranges_ok_append dest: ranges_ok_lt)
  obtain m' it' xs' r' ys' where *: "do_add m pos index = (m', it')" "cursor m' it' xs' (r' # ys')"
    "ranges_ok (xs' @ r' # ys')" "elems_of (xs' @ r' # ys') = insert index (elems_of (xs @ ys))"
    "fst r' \<le> index" "index < snd r'"
    using Suc.prems(1-3) aft by (rule do_add_cursor)
  have far: "index + Suc n < x" if "x \<in> elems_of (xs @ ys)" "index < x" for x
    using that elems_of_less[OF Suc.prems(3)] elems_of_ge[of ys "Suc (index + Suc n)"] Suc.prems(4)
    by fastforce
  have in': "x \<in> insert index (elems_of (xs @ ys))" if "x \<in> elems_of (xs' @ r' # ys')" for x
    using that unfolding *(4) .
  have r': "snd r' = Suc index"
  proof (rule ccontr)
    assume "snd r' \<noteq> Suc index"
    with *(5,6) have "Suc index \<in> elems_of (xs' @ r' # ys')" by simp
    then show False using in' far[of "Suc index"] by fastforce
  qed
  have "\<forall>s \<in> set ys'. Suc index + n < fst s"
  proof
    fix s assume s: "s \<in> set ys'"
    with *(3) r' have "Suc index < fst s" "fst s < snd s"
      by (auto simp: ranges_ok_append ranges_ok_Cons dest: ranges_ok_lt)
    moreover from s \<open>fst s < snd s\<close> have "fst s \<in> elems_of (xs' @ r' # ys')"
      by (auto simp: elems_of_def)
    ultimately show "Suc index + n < fst s" using in'[of "fst s"] far[of "fst s"] by fastforce
  qed
  moreover have "\<forall>s \<in> set (xs' @ [r']). snd s \<le> Suc index"
    using *(3,5) r' by (fastforce simp: ranges_ok_append)
  ultimately have "crv_inv (add_run m' (it_next m' it') (Suc index) n) \<and>
    elems (add_run m' (it_next m' it') (Suc index) n) = elems m' \<union> {Suc index ..< Suc index + n}"
    using Suc.IH[OF cursor_next[OF *(2)]] *(3) by simp
  moreover have "elems m' = insert index (elems m)"
    using cursor_elems[OF *(2)] cursor_elems[OF Suc.prems(1)] *(4) by simp
  moreover have "insert index {Suc index ..< Suc index + n} = {index ..< index + Suc n}" by auto
  ultimately show ?case using *(1) by auto
qed

lemma insert_at_correct:
  assumes inv: "crv_inv m"
  shows "crv_inv (is_insert_at m index n)"
    "elems (is_insert_at m index n) = open_gap index n (elems m) \<union> {index ..< index + n}"
proof -
  obtain xs ys where *: "cursor m (is_find m index) xs ys" "ranges_ok (xs @ ys)"
    "flat m = xs @ ys" "\<forall>r \<in> set xs. snd r \<le> index" "\<forall>r \<in> set ys. index < snd r"
    using inv by (rule find_cases)
  let ?pos = "is_find m index"
  have el: "elems m = elems_of xs \<union> elems_of ys" using *(3) by (simp add: elems_def)
  have "crv_inv (is_insert_at m index n) \<and>
    elems (is_insert_at m index n) = open_gap index n (elems m) \<union> {index ..< index + n}"
  proof (cases ys)
    case Nil
    with * add_run_correct[OF *(1,2,4), of n] cursor_eq_end[OF *(1)] el show ?thesis
      by (simp add: is_insert_at_def Let_def open_gap_before)
  next
    case (Cons r ys0)
    obtain a b where r: "r = (a, b)" by (cases r)
    have d: "deref m ?pos = (a, b)" and ne: "?pos \<noteq> crv_end m" and ab: "a < b" "index < b"
      using * Cons r cursor_eq_end[OF *(1)] by (auto simp: ranges_ok_append ranges_ok_Cons)
    show ?thesis
    proof (cases "a \<le> index")
      case True
      define m1 where "m1 = it_set m ?pos a (b + n)"
      have cur: "cursor m ?pos xs ((a, b) # ys0)" using *(1) Cons r by simp
      have adj: "it_adjust m ?pos 0 (int n) = m1"
        using it_adjust_eq_set[OF cur, of 0 "int n"] ab by (simp add: m1_def)
      have c1: "cursor m1 (it_next m1 ?pos) (xs @ [(a, b + n)]) ys0"
        unfolding m1_def by (rule cursor_next[OF cursor_set[OF cur]])
      have "\<forall>s \<in> set ys0. fst s \<le> snd s \<and> 0 \<le> int (fst s) + int n"
        using *(2) Cons by (fastforce simp: ranges_ok_append ranges_ok_Cons dest: ranges_ok_lt)
      from cursor_shift_until_end[OF c1 this]
      have c2: "cursor (is_insert_at m index n) (it_next m1 ?pos) (xs @ [(a, b + n)])
          (map (rshift (int n)) ys0)"
        using d ne True adj by (simp add: is_insert_at_def Let_def)
      have "ranges_ok ((xs @ [(a, b + n)]) @ map (rshift (int n)) ys0)"
        using *(2) Cons r ranges_ok_shift[of n ys0]
        by (auto simp: ranges_ok_append ranges_ok_Cons rshift_nat intro: trans_less_add1)
      moreover have "{a ..< b + n} = open_gap index n {a ..< b} \<union> {index ..< index + n}"
        using True ab by (auto simp: open_gap_inside)
      moreover have "open_gap index n (elems_of ys0) = (\<lambda>x. x + n) ` elems_of ys0"
        using *(2) Cons r ab by (intro open_gap_after) (auto simp: ranges_ok_append ranges_ok_Cons)
      ultimately show ?thesis
        using cursor_inv[OF c2] cursor_elems[OF c2] el Cons r *(4)
        by (auto simp: open_gap_Un open_gap_before elems_of_shift)
    next
      case False
      let ?m2 = "shift_until_end_by m ?pos (int n)"
      have ge: "\<forall>s \<in> set ys. index < fst s"
        using *(2) Cons r False by (auto simp: ranges_ok_append ranges_ok_Cons)
      have "\<forall>s \<in> set ys. fst s \<le> snd s \<and> 0 \<le> int (fst s) + int n"
        using *(2) by (auto simp: ranges_ok_append dest!: ranges_ok_lt)
      then have c2: "cursor ?m2 ?pos xs (map (rshift (int n)) ys)"
        by (rule cursor_shift_until_end[OF *(1)])
      have "it_more m ?pos" using cursor_it_more[OF *(1)] Cons by simp
      then have eq: "is_insert_at m index n = add_run ?m2 ?pos index n"
        using d ne False
        by (simp add: is_insert_at_def Let_def shift_until_end_by.simps[of m ?pos])
      have "ranges_ok (xs @ map (rshift (int n)) ys)"
        using *(2) ranges_ok_shift[of n ys] by (fastforce simp: ranges_ok_append rshift_nat)
      moreover have "\<forall>s \<in> set (map (rshift (int n)) ys). index + n < fst s"
        using ge by (auto simp: rshift_nat)
      ultimately have "crv_inv (is_insert_at m index n) \<and>
          elems (is_insert_at m index n) = elems ?m2 \<union> {index ..< index + n}"
        using add_run_correct[OF c2 _ *(4)] eq by simp
      with cursor_elems[OF c2] el ge *(4) show ?thesis
        by (simp add: open_gap_Un open_gap_before open_gap_after elems_of_shift less_imp_le)
    qed
  qed
  then show "crv_inv (is_insert_at m index n)"
    "elems (is_insert_at m index n) = open_gap index n (elems m) \<union> {index ..< index + n}"
    by auto
qed

subsection \<open>Making room, erasing and closing the gap\<close>

lemma ranges_ok_append_shift:
  "ranges_ok (xs @ ys) \<Longrightarrow> ranges_ok (xs @ map (rshift (int n)) ys)"
  using ranges_ok_shift[of n ys] by (fastforce simp: ranges_ok_append rshift_nat)

lemma shift_for_insert_at_correct:
  assumes inv: "crv_inv m" and n: "0 < n"
  shows "crv_inv (is_shift_for_insert_at m index n)"
    "elems (is_shift_for_insert_at m index n) = open_gap index n (elems m)"
proof -
  obtain xs ys where *: "cursor m (is_find m index) xs ys" "ranges_ok (xs @ ys)"
    "flat m = xs @ ys" "\<forall>r \<in> set xs. snd r \<le> index" "\<forall>r \<in> set ys. index < snd r"
    using inv by (rule find_cases)
  let ?it = "is_find m index" and ?m1 = "shift_until_end_by m (is_find m index) (int n)"
  have el: "elems m = elems_of xs \<union> elems_of ys" using *(3) by (simp add: elems_def)
  have "\<forall>s \<in> set ys. fst s \<le> snd s \<and> 0 \<le> int (fst s) + int n"
    using *(2) by (auto simp: ranges_ok_append dest!: ranges_ok_lt)
  then have c1: "cursor ?m1 ?it xs (map (rshift (int n)) ys)"
    by (rule cursor_shift_until_end[OF *(1)])
  have "crv_inv (is_shift_for_insert_at m index n) \<and>
    elems (is_shift_for_insert_at m index n) = open_gap index n (elems m)"
  proof (cases ys)
    case Nil
    with * cursor_eq_end[OF *(1)] el inv show ?thesis
      by (simp add: is_shift_for_insert_at_def Let_def open_gap_before)
  next
    case (Cons r ys0)
    obtain a b where r: "r = (a, b)" by (cases r)
    have ab: "a < b" "index < b" using *(2,5) Cons r by (auto simp: ranges_ok_append ranges_ok_Cons)
    have c1': "cursor ?m1 ?it xs ((a + n, b + n) # map (rshift (int n)) ys0)"
      using c1 Cons r by (simp add: rshift_nat)
    have ne: "?it \<noteq> crv_end m" using cursor_eq_end[OF *(1)] Cons by simp
    show ?thesis
    proof (cases "a < index")
      case True
      obtain m3 it3 where ins: "crv_insert (it_set ?m1 ?it a index)
          (it_next (it_set ?m1 ?it a index) ?it) (index + n, b + n) = (m3, it3)"
        by (cases "crv_insert (it_set ?m1 ?it a index)
          (it_next (it_set ?m1 ?it a index) ?it) (index + n, b + n)")
      have ok: "ranges_ok (xs @ (a, index) # (index + n, b + n) # map (rshift (int n)) ys0)"
        using ranges_ok_append_shift[OF *(2), of n] *(2,4) Cons r True n ab
        by (auto simp: ranges_ok_append ranges_ok_Cons rshift_nat)
      have c3: "cursor m3 it3 (xs @ [(a, index)]) ((index + n, b + n) # map (rshift (int n)) ys0)"
        by (rule rv.split_here[OF c1' ok ins])
      have "open_gap index n (elems_of ys0) = (\<lambda>x. x + n) ` elems_of ys0"
        using *(2) Cons r ab by (intro open_gap_after) (auto simp: ranges_ok_append ranges_ok_Cons)
      moreover have "is_shift_for_insert_at m index n = m3"
        using ne c1' True ins by (simp add: is_shift_for_insert_at_def Let_def)
      ultimately show ?thesis
        using cursor_inv[OF c3] cursor_elems[OF c3] ok el Cons r *(4) True ab
        by (simp add: open_gap_Un open_gap_before open_gap_inside elems_of_shift Un_assoc)
    next
      case False
      have "\<forall>s \<in> set ys. index \<le> fst s"
        using *(2) Cons r False ab by (auto simp: ranges_ok_append ranges_ok_Cons)
      moreover have "is_shift_for_insert_at m index n = ?m1"
        using ne c1' False by (simp add: is_shift_for_insert_at_def Let_def)
      ultimately show ?thesis
        using cursor_inv[OF c1] cursor_elems[OF c1] ranges_ok_append_shift[OF *(2), of n] el *(4)
        by (simp add: open_gap_Un open_gap_before open_gap_after elems_of_shift)
    qed
  qed
  then show "crv_inv (is_shift_for_insert_at m index n)"
    "elems (is_shift_for_insert_at m index n) = open_gap index n (elems m)" by auto
qed

subsection \<open>Erasing with a shift\<close>

lemma shift_back_rest:
  assumes "cursor m it xs ys" "ranges_ok ys" "\<forall>r \<in> set ys. 0 < fst r"
    "\<forall>r \<in> set xs. \<forall>s \<in> set ys. snd r < fst s - 1" "ranges_ok xs"
  shows "crv_inv (shift_until_end_by m it (- 1)) \<and>
    elems (shift_until_end_by m it (- 1)) = elems_of xs \<union> (\<lambda>x. x - 1) ` elems_of ys"
proof -
  have "\<forall>s \<in> set ys. fst s \<le> snd s \<and> 0 \<le> int (fst s) + - 1"
    using assms(2,3) by (auto dest!: ranges_ok_lt)
  from cursor_shift_until_end[OF assms(1) this]
  have c: "cursor (shift_until_end_by m it (- 1)) it xs (map (rshift (- 1)) ys)" .
  have "ranges_ok (xs @ map (rshift (- 1)) ys)"
    using assms ranges_ok_shift_back[of ys] by (auto simp: ranges_ok_append rshift_minus_1)
  with cursor_inv[OF c] cursor_elems[OF c] assms(3) show ?thesis
    by (simp add: elems_of_shift_back)
qed

lemma do_erase_correct:
  assumes cur: "cursor m it xs (r # ys)" and ok: "ranges_ok (xs @ r # ys)"
    and bef: "\<forall>s \<in> set xs. snd s \<le> index" and idx: "index < snd r"
  shows "crv_inv (do_erase m it index) \<and>
    elems (do_erase m it index) = close_gap index (elems_of (xs @ r # ys))"
proof -
  obtain a b where r: "r = (a, b)" by (cases r)
  have d: "deref m it = (a, b)" using cur r by simp
  have ab: "a < b" "index < b" and lt: "\<forall>s \<in> set ys. b < fst s" and oks: "ranges_ok xs" "ranges_ok ys"
    and lx: "\<forall>s \<in> set xs. snd s < a"
    using ok idx r by (auto simp: ranges_ok_append ranges_ok_Cons)
  have ys': "close_gap index (elems_of ys) = (\<lambda>x. x - 1) ` elems_of ys"
    using lt ab by (intro close_gap_after) auto
  have pos: "\<forall>s \<in> set ys. 0 < fst s" using lt by auto
  have goal: "close_gap index (elems_of (xs @ r # ys)) =
      elems_of xs \<union> (close_gap index {a ..< b} \<union> (\<lambda>x. x - 1) ` elems_of ys)"
    using bef ys' r by (simp add: close_gap_Un close_gap_before)
  consider (single) "a \<le> index" "a + 1 = b" | (inner) "a \<le> index" "a + 1 < b"
    | (join) xs0 p where "index < a" "xs = xs0 @ [(p, index)]" "Suc index = a"
    | (apart) "index < a" "\<forall>s \<in> set xs. Suc (snd s) < a"
  proof -
    have "(\<exists>xs0 p. xs = xs0 @ [(p, index)] \<and> Suc index = a) \<or> (\<forall>s \<in> set xs. Suc (snd s) < a)"
      if "index < a"
    proof (cases xs rule: rev_cases)
      case (snoc xs0 s)
      then show ?thesis
      proof (cases "Suc (snd s) < a")
        case True
        with snoc ok show ?thesis by (fastforce simp: ranges_ok_append ranges_ok_Cons)
      next
        case False
        with snoc bef that lx have "snd s = index" "Suc index = a" by auto
        with snoc show ?thesis by (cases s) auto
      qed
    qed simp
    with ab show thesis using single inner join apart by (metis Suc_eq_plus1 Suc_lessI not_le)
  qed
  then show ?thesis
  proof cases
    case single
    obtain m1 it1 where er: "crv_erase m it = (m1, it1)" by (cases "crv_erase m it")
    have "\<forall>s \<in> set xs. \<forall>t \<in> set ys. snd s < fst t - 1" using lx lt single by fastforce
    with shift_back_rest[OF cursor_erase[OF cur er] oks(2) pos _ oks(1)] goal single ab d er
    show ?thesis by (simp add: do_erase_def close_gap_inside)
  next
    case inner
    define m1 where "m1 = it_set m it a (b - 1)"
    have c1: "cursor m1 (it_next m1 it) (xs @ [(a, b - 1)]) ys"
      unfolding m1_def by (rule cursor_next[OF cursor_set[OF cur]])
    have "it_adjust m it 0 (- 1) = m1"
      using it_adjust_eq_set[OF cur[unfolded r], of 0 "- 1"] inner by (simp add: m1_def)
    moreover have "\<forall>s \<in> set (xs @ [(a, b - 1)]). \<forall>t \<in> set ys. snd s < fst t - 1"
      using lx lt inner by fastforce
    moreover have "ranges_ok (xs @ [(a, b - 1)])"
      using oks(1) lx inner by (simp add: ranges_ok_append ranges_ok_Cons)
    ultimately show ?thesis
      using shift_back_rest[OF c1 oks(2) pos] goal inner ab d
      by (simp add: do_erase_def Let_def close_gap_inside Un_assoc)
  next
    case join
    define p' where "p' = it_prev m it"
    have cp: "cursor m p' xs0 ((p, index) # r # ys)" unfolding p'_def
      using cur join(2) by (intro cursor_prev) simp
    have p: "p < index" using oks(1) join(2) by (simp add: ranges_ok_append ranges_ok_Cons)
    define m1 where "m1 = it_set m p' p (b - 1)"
    have adj: "it_adjust m p' 0 (int (b - a)) = m1"
      using it_adjust_eq_set[OF cp, of 0 "int (b - a)"] p join(3) ab(1)
      by (auto simp: m1_def add_diff_def nat_diff_distrib')
    obtain m2 it2 where er: "crv_erase m1 it = (m2, it2)" by (cases "crv_erase m1 it")
    have c2: "cursor m2 it2 (xs0 @ [(p, b - 1)]) ys"
      using rv.join_before[of m it xs0 "(p, index)" r ys p "b - 1" m2 it2] cur er join(2)
      by (simp add: m1_def p'_def)
    have "it \<noteq> crv_begin m" using cursor_eq_begin[OF cur] join(2) by simp
    then have eq: "do_erase m it index = shift_until_end_by m2 it2 (- 1)"
      using d cp adj er join by (simp add: do_erase_def p'_def[symmetric])
    have "\<forall>s \<in> set (xs0 @ [(p, b - 1)]). \<forall>t \<in> set ys. snd s < fst t - 1"
      using lx lt join ab by fastforce
    moreover have "ranges_ok (xs0 @ [(p, b - 1)])"
      using oks(1) join p ab by (auto simp: ranges_ok_append ranges_ok_Cons)
    ultimately have "crv_inv (do_erase m it index) \<and> elems (do_erase m it index) =
        elems_of xs0 \<union> {p ..< b - 1} \<union> (\<lambda>x. x - 1) ` elems_of ys"
      using shift_back_rest[OF c2 oks(2) pos] eq by simp
    moreover have "close_gap index {a ..< b} = {index ..< b - 1}"
      using join close_gap_after[of "[(a, b)]" index] image_pred_nat[of a b] by auto
    moreover have "{p ..< b - 1} = {p ..< index} \<union> {index ..< b - 1}"
      using p join ab by auto
    ultimately show ?thesis using goal join by auto
  next
    case apart
    have "it \<noteq> crv_begin m \<and> Suc (snd (deref m (it_prev m it))) = a \<Longrightarrow> False"
      using cursor_eq_begin[OF cur] apart(2) cursor_prev[of m it "butlast xs" "last xs" "r # ys"] cur
        last_in_set[of xs] by force
    then have eq: "do_erase m it index = shift_until_end_by m it (- 1)"
      using d apart(1) by (auto simp: do_erase_def Let_def)
    have "\<forall>s \<in> set (r # ys). 0 < fst s" using pos r apart(1) by auto
    moreover have "\<forall>s \<in> set xs. \<forall>t \<in> set (r # ys). snd s < fst t - 1"
      using apart(2) lt ab r by fastforce
    moreover have "ranges_ok (r # ys)" using ok by (simp add: ranges_ok_append)
    ultimately show ?thesis
      using shift_back_rest[OF cur, of ] oks(1) eq goal r apart(1)
        close_gap_after[of "[(a, b)]" index] image_pred_nat[of a b] by (simp add: image_Un)
  qed
qed

lemma erase_at_correct:
  assumes inv: "crv_inv m"
  shows "crv_inv (is_erase_at m index)" "elems (is_erase_at m index) = close_gap index (elems m)"
proof -
  obtain xs ys where *: "cursor m (is_find m index) xs ys" "ranges_ok (xs @ ys)"
    "flat m = xs @ ys" "\<forall>r \<in> set xs. snd r \<le> index" "\<forall>r \<in> set ys. index < snd r"
    using inv by (rule find_cases)
  have el: "elems m = elems_of (xs @ ys)" using *(3) by (simp add: elems_def)
  have "crv_inv (is_erase_at m index) \<and> elems (is_erase_at m index) = close_gap index (elems m)"
  proof (cases ys)
    case Nil
    with * cursor_eq_end[OF *(1)] el inv show ?thesis
      by (simp add: is_erase_at_def Let_def close_gap_before)
  next
    case (Cons r ys0)
    with * cursor_eq_end[OF *(1)] el do_erase_correct[of m "is_find m index" xs r ys0 index]
    show ?thesis by (simp add: is_erase_at_def Let_def)
  qed
  then show "crv_inv (is_erase_at m index)"
    "elems (is_erase_at m index) = close_gap index (elems m)" by auto
qed

lemma erase_or_unshift_correct:
  assumes inv: "crv_inv m" and res: "is_erase_or_unshift m index = (m', s)"
  shows "crv_inv m'" "elems m' = close_gap index (elems m)"
    "s = (if index \<in> elems m then npos else unshifted (elems m) index)"
proof -
  have ch: "list_all chunk_ok m" and ok: "ranges_ok ([] @ flat m)" and b0: "snd (crv_begin m) = 0"
    using inv by (auto simp: crv_inv_def crv_begin_def crv_end_def)
  obtain it1 xs1 ys1 where 1: "count_chunks m index (crv_begin m) 0 = (it1, sum_list (map rlen xs1))"
    "flat m = xs1 @ ys1" "cursor m it1 xs1 ys1" "\<forall>r \<in> set xs1. snd r \<le> index"
    using count_chunks_skip[OF cursor_begin[OF ch] ok b0, of index 0] unfolding skipped_def by auto
  have ok1: "ranges_ok (xs1 @ ys1)" using ok 1(2) by simp
  obtain it2 xs2 ys where 2: "count_ranges m index it1 0 = (it2, sum_list (map rlen xs2))"
    "ys1 = xs2 @ ys" "cursor m it2 (xs1 @ xs2) ys" "\<forall>r \<in> set xs2. snd r \<le> index"
    "\<forall>r \<in> set ys. index < snd r"
    using count_ranges_skip[OF 1(3) ok1, of index 0] unfolding skipped_def by auto
  let ?xs = "xs1 @ xs2"
  have le: "\<forall>r \<in> set ?xs. snd r \<le> index" and ok2: "ranges_ok (?xs @ ys)"
    and el: "elems m = elems_of (?xs @ ys)"
    using 1(2,4) 2(2,4) ok by (auto simp: elems_def)
  let ?s = "index - sum_list (map rlen ?xs)"
  have eq: "is_erase_or_unshift m index =
      (if it2 = crv_end m then (m, ?s)
       else (do_erase m it2 index, if fst (deref m it2) \<le> index then npos else ?s))"
    using unshift_chunks_count[OF 1(1), of index]
      unshift_ranges_count[OF 2(1), of "index - sum_list (map rlen xs1)"]
    by (simp add: is_erase_or_unshift_def)
  have "crv_inv m' \<and> elems m' = close_gap index (elems m) \<and>
    s = (if index \<in> elems m then npos else unshifted (elems m) index)"
  proof (cases ys)
    case Nil
    have "index \<notin> elems m" using elems_of_less[OF le] el Nil by auto
    moreover have "unshifted (elems m) index = ?s"
      using below_split[OF ok2 le] el Nil by (simp add: unshifted_def)
    moreover have "close_gap index (elems m) = elems m"
      using close_gap_before[OF le] el Nil by simp
    ultimately show ?thesis using eq res cursor_eq_end[OF 2(3)] Nil inv by simp
  next
    case (Cons r ys0)
    have d: "deref m it2 = r" and ne: "it2 \<noteq> crv_end m"
      using 2(3) Cons cursor_eq_end[OF 2(3)] by auto
    have c: "cursor m it2 ?xs (r # ys0)" and ok3: "ranges_ok (?xs @ r # ys0)" and ir: "index < snd r"
      using 2(3,5) ok2 Cons by simp_all
    have "index \<notin> elems_of ys0"
      using elems_of_ge[of ys0 "Suc index"] ok3 ir
      by (fastforce simp: ranges_ok_append ranges_ok_Cons)
    then have mem: "index \<in> elems m \<longleftrightarrow> fst r \<le> index"
      using elems_of_less[OF le] el Cons ir by auto
    have "unshifted (elems m) index = ?s" if "\<not> fst r \<le> index"
      using below_partial[OF ok3 le, of] ir el Cons that by (simp add: unshifted_def)
    with do_erase_correct[OF c ok3 le ir] eq res d ne mem el Cons show ?thesis by auto
  qed
  then show "crv_inv m'" "elems m' = close_gap index (elems m)"
    "s = (if index \<in> elems m then npos else unshifted (elems m) index)" by auto
qed

subsection \<open>Removing\<close>


end
