(* ===== verification/Index_Set_Remove.thy ===== *)
theory Index_Set_Remove
  imports Index_Set_Shift
begin

text \<open>
  \<open>remove\<close>: taking positions out of the set without moving the others. The loop of
  \<open>do_remove\<close> is shown to end by its own condition within the fuel it is given.
\<close>

lemma find_from_exact:
  assumes "cursor m it xs (zs @ ys)" "crv_inv m" "\<forall>r \<in> set xs. snd r \<le> lo"
    "\<forall>r \<in> set zs. snd r \<le> lo" "\<forall>r \<in> set ys. lo < snd r"
  shows "cursor m (is_find_from m lo it) (xs @ zs) ys"
proof -
  have "takeWhile (\<lambda>r. snd r \<le> lo) (zs @ ys) = zs" "dropWhile (\<lambda>r. snd r \<le> lo) (zs @ ys) = ys"
    using assms(4,5) by (cases ys; auto simp: takeWhile_append dropWhile_append)+
  with find_from_cursor[OF assms(1-3)] show ?thesis by simp
qed

definition removed_to :: "crv \<Rightarrow> nat \<Rightarrow> nat \<Rightarrow> crv \<times> iter \<Rightarrow> bool" where
  "removed_to m lo hi res \<longleftrightarrow>
     crv_inv (fst res) \<and> elems (fst res) = elems m - {lo ..< hi} \<and>
     (\<exists>xs ys. cursor (fst res) (snd res) xs ys \<and>
        (\<forall>r \<in> set xs. snd r \<le> hi) \<and> (\<forall>r \<in> set ys. hi \<le> fst r))"

lemma removed_stop:
  assumes "cursor m it xs ys" "crv_inv m" "\<forall>r \<in> set xs. snd r \<le> lo" "\<forall>r \<in> set ys. hi \<le> fst r"
    "lo \<le> hi"
  shows "removed_to m lo hi (do_remove_loop fuel m it lo hi)"
proof -
  have "it \<noteq> crv_end m \<Longrightarrow> hi \<le> fst (deref m it)"
    using assms(1,4) cursor_eq_end[OF assms(1)] by (cases ys) auto
  then have stop: "do_remove_loop fuel m it lo hi = (m, it)" by (cases fuel) auto
  have el: "elems m = elems_of xs \<union> elems_of ys" using cursor_elems[OF assms(1)] .
  have "elems m = elems m - {lo ..< hi}"
    using elems_of_less[OF assms(3)] elems_of_ge[OF assms(4)] el by fastforce
  then show ?thesis unfolding removed_to_def stop using assms by fastforce
qed

lemma removed_step:
  assumes "removed_to m' lo' hi res" "elems m - {lo ..< hi} = elems m' - {lo' ..< hi}"
  shows "removed_to m lo hi res"
  using assms by (simp add: removed_to_def)

lemma do_remove_loop_correct:
  assumes "cursor m it xs ys" "crv_inv m" "\<forall>r \<in> set xs. snd r \<le> lo" "\<forall>r \<in> set ys. lo < snd r"
    "lo < hi" "length ys < fuel"
  shows "removed_to m lo hi (do_remove_loop fuel m it lo hi)"
  using assms
proof (induction fuel arbitrary: m it xs ys lo)
  case (Suc fuel)
  have ok: "ranges_ok (xs @ ys)" using Suc.prems(1,2) cursor_inv by blast
  show ?case
  proof (cases "ys \<noteq> [] \<and> fst (hd ys) < hi")
    case False
    with ok have "\<forall>r \<in> set ys. hi \<le> fst r"
      by (cases ys) (auto simp: ranges_ok_append ranges_ok_Cons)
    with Suc.prems show ?thesis by (intro removed_stop) auto
  next
    case True
    then obtain a b ys0 where ys: "ys = (a, b) # ys0" and a: "a < hi" by (cases ys) auto
    have cur: "cursor m it xs ((a, b) # ys0)" using Suc.prems(1) ys by simp
    have d: "deref m it = (a, b)" "it \<noteq> crv_end m" using cur cursor_eq_end[OF cur] by auto
    have ab: "a < b" "lo < b" and lt: "\<forall>r \<in> set ys0. b < fst r \<and> b < snd r"
      and oks: "ranges_ok xs" "ranges_ok ys0" and lx: "\<forall>r \<in> set xs. snd r < a"
      using ok Suc.prems(4) ys
      by (auto simp: ranges_ok_append ranges_ok_Cons dest: ranges_ok_lt)
         (metis less_trans prod.sel ranges_ok_lt)
    have el: "elems m = elems_of xs \<union> ({a ..< b} \<union> elems_of ys0)"
      using cursor_elems[OF cur] by simp
    have no: "x < lo" "x < a" if "x \<in> elems_of xs" for x
      using elems_of_less[OF Suc.prems(3) that] elems_of_less[of xs a, OF _ that] lx
      by (auto simp: less_imp_le)
    have ge: "b < x" if "x \<in> elems_of ys0" for x
      using elems_of_ge[of ys0 "Suc b"] lt that by fastforce
    consider (split) "a < lo" "hi < b" | (whole) "lo \<le> a" "b \<le> hi" | (front) "lo \<le> a" "hi < b"
      | (rear) "a < lo" "b \<le> hi" by linarith
    then show ?thesis
    proof cases
      case split
      obtain m2 it2 where ins: "crv_insert (it_set m it a lo) (it_next (it_set m it a lo) it) (hi, b)
          = (m2, it2)"
        by (cases "crv_insert (it_set m it a lo) (it_next (it_set m it a lo) it) (hi, b)")
      have ok2: "ranges_ok (xs @ (a, lo) # (hi, b) # ys0)"
        using oks lx lt Suc.prems(3,5) split ab by (auto simp: ranges_ok_append ranges_ok_Cons)
           (metis less_trans prod.sel)+
      have c2: "cursor m2 it2 (xs @ [(a, lo)]) ((hi, b) # ys0)"
        by (rule rv.split_here[OF cur ok2 ins])
      have c3: "cursor m2 (it_prev m2 it2) xs ([(a, lo)] @ (hi, b) # ys0)"
        using cursor_prev[OF c2] by simp
      have inv2: "crv_inv m2" using cursor_inv[OF c2] ok2 by simp
      have c4: "cursor m2 (is_find_from m2 lo (it_prev m2 it2)) (xs @ [(a, lo)]) ((hi, b) # ys0)"
        using Suc.prems(3,5) lt split by (intro find_from_exact[OF c3 inv2]) auto
      have step: "do_remove_loop (Suc fuel) m it lo hi =
          do_remove_loop fuel m2 (is_find_from m2 lo (it_prev m2 it2)) lo hi"
        using d a split ins by (simp add: Let_def max_def)
      have rem: "removed_to m2 lo hi (do_remove_loop fuel m2 (is_find_from m2 lo (it_prev m2 it2)) lo hi)"
        using Suc.prems(3,5) lt split by (intro removed_stop[OF c4 inv2]) auto
      have "elems_of xs - {lo ..< hi} = elems_of xs" "elems_of ys0 - {lo ..< hi} = elems_of ys0"
        "{a ..< b} - {lo ..< hi} = {a ..< lo} \<union> {hi ..< b}"
        using split Suc.prems(5) by (auto dest: no ge)
      then have "elems m2 = elems m - {lo ..< hi}"
        using cursor_elems[OF c4] el by (simp add: Un_Diff Un_assoc)
      then show ?thesis unfolding step by (intro removed_step[OF rem]) simp
    next
      case whole
      obtain m1 it1 where er: "crv_erase m it = (m1, it1)" by (cases "crv_erase m it")
      have c1: "cursor m1 it1 xs ([] @ ys0)" using cursor_erase[OF cur er] by simp
      have inv1: "crv_inv m1" using cursor_inv[OF c1] ok ys by (simp add: ranges_ok_append ranges_ok_Cons)
      have c2: "cursor m1 (is_find_from m1 a it1) (xs @ []) ys0"
        using lx lt ab by (intro find_from_exact[OF c1 inv1]) auto
      have step: "do_remove_loop (Suc fuel) m it lo hi =
          do_remove_loop fuel m1 (is_find_from m1 a it1) a hi"
        using d a whole er by (simp add: Let_def max_def)
      have "removed_to m1 a hi (do_remove_loop fuel m1 (is_find_from m1 a it1) a hi)"
        using lx lt ab a Suc.prems(6) ys by (intro Suc.IH[OF c2 inv1]) auto
      moreover have "elems m - {lo ..< hi} = elems m1 - {a ..< hi}"
        unfolding cursor_elems[OF c1] el using whole ab by (auto dest: no ge)
      ultimately show ?thesis unfolding step by (rule removed_step)
    next
      case front
      have c1: "cursor (it_set m it hi b) it xs ([] @ (hi, b) # ys0)" using cursor_set[OF cur] by simp
      have inv1: "crv_inv (it_set m it hi b)"
        using cursor_inv[OF c1] ok ys front a lx by (fastforce simp: ranges_ok_append ranges_ok_Cons)
      have c2: "cursor (it_set m it hi b) (is_find_from (it_set m it hi b) a it) (xs @ []) ((hi, b) # ys0)"
        using lx lt ab by (intro find_from_exact[OF c1 inv1]) auto
      have step: "do_remove_loop (Suc fuel) m it lo hi =
          do_remove_loop fuel (it_set m it hi b) (is_find_from (it_set m it hi b) a it) a hi"
        using d a front by (simp add: Let_def max_def)
      have "removed_to (it_set m it hi b) a hi
          (do_remove_loop fuel (it_set m it hi b) (is_find_from (it_set m it hi b) a it) a hi)"
        using lx lt front a by (intro removed_stop[OF c2 inv1]) auto
      moreover have "elems m - {lo ..< hi} = elems (it_set m it hi b) - {a ..< hi}"
        unfolding cursor_elems[OF c1] el using front a by (auto dest: no ge)
      ultimately show ?thesis unfolding step by (rule removed_step)
    next
      case rear
      have c1: "cursor (it_set m it a lo) it xs ([(a, lo)] @ ys0)" using cursor_set[OF cur] by simp
      have inv1: "crv_inv (it_set m it a lo)"
        using cursor_inv[OF c1] ok ys rear ab by (fastforce simp: ranges_ok_append ranges_ok_Cons)
      have c2: "cursor (it_set m it a lo) (is_find_from (it_set m it a lo) lo it) (xs @ [(a, lo)]) ys0"
        using Suc.prems(3) lt ab by (intro find_from_exact[OF c1 inv1]) auto
      have step: "do_remove_loop (Suc fuel) m it lo hi =
          do_remove_loop fuel (it_set m it a lo) (is_find_from (it_set m it a lo) lo it) lo hi"
        using d a rear by (simp add: Let_def max_def)
      have "removed_to (it_set m it a lo) lo hi
          (do_remove_loop fuel (it_set m it a lo) (is_find_from (it_set m it a lo) lo it) lo hi)"
        using Suc.prems(3,5,6) lt ab ys by (intro Suc.IH[OF c2 inv1]) auto
      moreover have "elems m - {lo ..< hi} = elems (it_set m it a lo) - {lo ..< hi}"
        unfolding cursor_elems[OF c1] el using rear ab by (auto dest: no ge)
      ultimately show ?thesis unfolding step by (rule removed_step)
    qed
  qed
qed simp

lemma dropWhile_after:
  "ranges_ok ys \<Longrightarrow> \<forall>r \<in> set (dropWhile (\<lambda>r. snd r \<le> lo) ys). lo < snd r"
proof (induction ys)
  case (Cons r ys)
  have "fst s < snd s" if "s \<in> set ys" for s
    using that Cons.prems ranges_ok_lt by (auto simp: ranges_ok_Cons)
  with Cons show ?case by (cases "snd r \<le> lo") (force simp: ranges_ok_Cons)+
qed simp

lemma do_remove_correct:
  assumes "cursor m it xs ys" "crv_inv m" "\<forall>r \<in> set xs. snd r \<le> lo" "lo < hi"
  shows "removed_to m lo hi (do_remove m it lo hi)"
  unfolding do_remove_def
proof (rule do_remove_loop_correct[OF find_from_cursor[OF assms(1-3)] assms(2)])
  show "\<forall>r \<in> set (xs @ takeWhile (\<lambda>r. snd r \<le> lo) ys). snd r \<le> lo"
    using assms(3) by (auto dest: set_takeWhileD)
  have "ranges_ok ys" using assms(1,2) cursor_inv ranges_ok_append by blast
  then show "\<forall>r \<in> set (dropWhile (\<lambda>r. snd r \<le> lo) ys). lo < snd r" by (rule dropWhile_after)
  have "length (dropWhile (\<lambda>r. snd r \<le> lo) ys) \<le> length ys" by (rule length_dropWhile_le)
  also have "length ys \<le> length (flat m)" using cursor_flat[OF assms(1)] by simp
  finally show "length (dropWhile (\<lambda>r. snd r \<le> lo) ys) < Suc (length (flat m))" by simp
qed (fact assms(4))

lemma remove_correct:
  assumes inv: "crv_inv m" and n: "0 < n"
  shows "crv_inv (is_remove m index n)" "elems (is_remove m index n) = elems m - {index ..< index + n}"
proof -
  obtain xs ys where "cursor m (is_find m index) xs ys" "\<forall>r \<in> set xs. snd r \<le> index"
    using inv by (rule find_cases)
  with do_remove_correct[of m "is_find m index" xs ys index "index + n"] inv n
  show "crv_inv (is_remove m index n)" "elems (is_remove m index n) = elems m - {index ..< index + n}"
    by (auto simp: is_remove_def removed_to_def)
qed

lemma remove_ranges_correct:
  assumes "cursor m it xs ys" "crv_inv m" "ranges_ok rs"
    "\<forall>r \<in> set xs. \<forall>s \<in> set rs. snd r \<le> fst s"
  shows "crv_inv (remove_ranges m it rs) \<and> elems (remove_ranges m it rs) = elems m - elems_of rs"
  using assms
proof (induction rs arbitrary: m it xs ys)
  case (Cons s rs)
  obtain m' it' where eq: "do_remove m it (fst s) (snd s) = (m', it')"
    by (cases "do_remove m it (fst s) (snd s)")
  have "removed_to m (fst s) (snd s) (m', it')"
    using do_remove_correct[of m it xs ys "fst s" "snd s"] Cons.prems eq by (simp add: ranges_ok_Cons)
  then obtain xs' ys' where *: "crv_inv m'" "elems m' = elems m - {fst s ..< snd s}"
    "cursor m' it' xs' ys'" "\<forall>r \<in> set xs'. snd r \<le> snd s" by (auto simp: removed_to_def)
  have gap: "\<forall>t \<in> set rs. snd s < fst t" "ranges_ok rs"
    using Cons.prems(3) by (auto simp: ranges_ok_Cons)
  show ?case
  proof (cases "it' = crv_end m'")
    case True
    then have "ys' = []" using cursor_eq_end[OF *(3)] by simp
    then have "x < snd s" if "x \<in> elems m'" for x
      using that elems_of_less[OF *(4)] cursor_elems[OF *(3)] by simp
    moreover have "snd s < x" if "x \<in> elems_of rs" for x
      using that elems_of_ge[of rs "Suc (snd s)"] gap(1) by fastforce
    ultimately have "elems m' - elems_of rs = elems m'" by fastforce
    with True eq * show ?thesis by auto
  next
    case False
    have "\<forall>r \<in> set xs'. \<forall>t \<in> set rs. snd r \<le> fst t" using *(4) gap(1) by fastforce
    with Cons.IH[OF *(3,1) gap(2)] False eq *(2) show ?thesis by auto
  qed
qed simp

lemma remove_set_correct:
  assumes "crv_inv m" "crv_inv values"
  shows "crv_inv (is_remove_set m values)" "elems (is_remove_set m values) = elems m - elems values"
  using remove_ranges_correct[OF cursor_begin[of m], of "flat values"] assms
  by (simp_all add: is_remove_set_def crv_inv_def elems_def)

lemma set_correct: "crv_inv (is_set m len)" "elems (is_set m len) = {0 ..< len}"
  by (auto simp: is_set_def is_clear_def crv_push_back_def crv_empty_def crv_inv_def chunk_ok_def
      max_size_def elems_def ranges_ok_Cons rlen_def)

lemma clear_correct [simp]: "crv_inv (is_clear m)" "elems (is_clear m) = {}"
  by (simp_all add: is_clear_def)

end
