(* ===== verification/Index_Set_Bulk.thy ===== *)
theory Index_Set_Bulk
  imports Index_Set_Remove
begin

text \<open>
  The operations of \<open>IndexSet\<close> that take a second set: they walk both sets in order and
  write the result with a \<open>ChunkedRangeVectorBuilder\<close>. A forward iteration over ranges is
  the list of ranges still to visit, and an \<open>IndexIterator\<close> is the list of positions still
  to visit.

  Each loop is shown to push a list of ranges computed by a pure function, and the builder to
  merge that list into a well-formed vector. The builder gives a chunk that it appends beyond
  the ones it allotted the count 1 whatever range opens it; \<open>add_shifted_by\<close> is the only
  caller that can push a longer range there, so its chunk counts are right when the result fits
  into the chunks allotted.
\<close>

subsection \<open>The builder\<close>

type_synonym builder = "crv \<times> nat"

definition empty_chunk :: chunk where
  "empty_chunk = \<lparr>data = [], chunk_begin = 0, chunk_end = 0, chunk_count = 0\<rparr>"

definition builder_init :: "crv \<Rightarrow> builder" where
  "builder_init expected =
     (let size = sum_list (map (\<lambda>c. length (data c)) expected) in
      (replicate (size div max_size + 1) empty_chunk, 0))"

definition builder_push_back :: "range \<Rightarrow> builder \<Rightarrow> builder" where
  "builder_push_back r b =
     (let (m_data, m_outer_pos) = b; c = m_data ! m_outer_pos in
      if data c = [] then
        (m_data[m_outer_pos := c\<lparr>data := [r], chunk_count := snd r - fst r,
                                 chunk_begin := fst r\<rparr>], m_outer_pos)
      else if fst r = snd (last (data c)) then
        (m_data[m_outer_pos := c\<lparr>
           data := butlast (data c) @ [(fst (last (data c)), snd r)],
           chunk_count := chunk_count c + (snd r - fst r)\<rparr>], m_outer_pos)
      else if length (data c) < max_size then
        (m_data[m_outer_pos := c\<lparr>data := data c @ [r],
                                 chunk_count := chunk_count c + (snd r - fst r)\<rparr>], m_outer_pos)
      else
        let m_data = m_data[m_outer_pos := c\<lparr>chunk_end := snd (last (data c))\<rparr>];
            m_outer_pos = m_outer_pos + 1
        in if length m_data \<le> m_outer_pos
           then (m_data @ [\<lparr>data = [r], chunk_begin = fst r, chunk_end = 0, chunk_count = 1\<rparr>],
                 m_outer_pos)
           else let c' = m_data ! m_outer_pos in
             (m_data[m_outer_pos := c'\<lparr>data := data c' @ [r], chunk_begin := fst r,
                                       chunk_count := snd r - fst r\<rparr>], m_outer_pos))"

definition builder_push_index :: "nat \<Rightarrow> builder \<Rightarrow> builder" where
  "builder_push_index index b = builder_push_back (index, index + 1) b"

definition builder_finalize :: "builder \<Rightarrow> crv" where
  "builder_finalize b =
     (let (m_data, m_outer_pos) = b in
      if m_data \<noteq> [] then
        let m_data = take (m_outer_pos + 1) m_data; c = last m_data in
        if data c = [] then butlast m_data
        else butlast m_data @ [c\<lparr>chunk_end := snd (last (data c))\<rparr>]
      else m_data)"

subsection \<open>Operations on two sets\<close>

definition as_indexes :: "crv \<Rightarrow> nat list" where
  "as_indexes m = concat (map (\<lambda>r. [fst r ..< snd r]) (flat m))"

primrec add_indexes :: "crv \<Rightarrow> iter \<Rightarrow> nat list \<Rightarrow> crv" where
  "add_indexes m it [] = m"
| "add_indexes m it (index # rest) =
     (let (m', it') = do_add m (is_find_from m index it) index in add_indexes m' it' rest)"

definition is_add_set :: "crv \<Rightarrow> crv \<Rightarrow> crv" where
  "is_add_set m other = add_indexes m (crv_begin m) (as_indexes other)"

fun skip_shifts :: "range list \<Rightarrow> nat \<Rightarrow> nat \<Rightarrow> nat \<Rightarrow> range list \<times> nat \<times> nat" where
  "skip_shifts [] index new_shift skip_until = ([], new_shift, skip_until)"
| "skip_shifts (s # ss) index new_shift skip_until =
     (if fst s \<le> index then skip_shifts ss index (new_shift + (snd s - fst s)) (snd s)
      else (s # ss, new_shift, skip_until))"

fun copy_old :: "range list \<Rightarrow> nat \<Rightarrow> nat \<Rightarrow> builder \<Rightarrow> range list \<times> nat \<times> builder" where
  "copy_old [] target old_shift b = ([], old_shift, b)"
| "copy_old (r # rs) target old_shift b =
     (if fst r \<le> target + old_shift
      then copy_old rs target (old_shift + (snd r - fst r))
             (fold builder_push_index [fst r ..< snd r] b)
      else (r # rs, old_shift, b))"

fun add_shifted_loop ::
  "nat list \<Rightarrow> range list \<Rightarrow> range list \<Rightarrow> nat \<Rightarrow> nat \<Rightarrow> nat \<Rightarrow> builder \<Rightarrow> builder" where
  "add_shifted_loop [] old sh skip_until old_shift new_shift b = fold builder_push_back old b"
| "add_shifted_loop (index # rest) old sh skip_until old_shift new_shift b =
     (let (sh, new_shift, skip_until) = skip_shifts sh index new_shift skip_until in
      if index < skip_until then add_shifted_loop rest old sh skip_until old_shift new_shift b
      else
        let (old, old_shift, b) = copy_old old (index - new_shift) old_shift b in
        add_shifted_loop rest old sh skip_until old_shift new_shift
          (builder_push_index (index - new_shift + old_shift) b))"

definition is_add_shifted_by :: "crv \<Rightarrow> crv \<Rightarrow> crv \<Rightarrow> crv" where
  "is_add_shifted_by m shifted_by values =
     (if crv_empty values then m
      else builder_finalize
        (add_shifted_loop (as_indexes values) (flat m) (flat shifted_by) 0 0 0 (builder_init m)))"

fun insert_at_loop :: "nat list \<Rightarrow> nat list \<Rightarrow> nat \<Rightarrow> builder \<Rightarrow> builder" where
  "insert_at_loop [] ys shift b = fold builder_push_index ys b"
| "insert_at_loop (x # xs) [] shift b =
     insert_at_loop xs [] shift (builder_push_index (x + shift) b)"
| "insert_at_loop (x # xs) (y # ys) shift b =
     (if x + shift < y then insert_at_loop xs (y # ys) shift (builder_push_index (x + shift) b)
      else insert_at_loop (x # xs) ys (shift + 1) (builder_push_index y b))"

definition is_insert_at_set :: "crv \<Rightarrow> crv \<Rightarrow> crv" where
  "is_insert_at_set m positions =
     (if crv_empty positions then m
      else if crv_empty m then positions
      else builder_finalize
        (insert_at_loop (as_indexes m) (as_indexes positions) 0 (builder_init m)))"

fun shift_for_insert_loop :: "nat list \<Rightarrow> nat list \<Rightarrow> nat \<Rightarrow> builder \<Rightarrow> builder" where
  "shift_for_insert_loop [] ys shift b = b"
| "shift_for_insert_loop (x # xs) [] shift b =
     shift_for_insert_loop xs [] shift (builder_push_index (x + shift) b)"
| "shift_for_insert_loop (x # xs) (y # ys) shift b =
     (if x + shift < y
      then shift_for_insert_loop xs (y # ys) shift (builder_push_index (x + shift) b)
      else shift_for_insert_loop (x # xs) ys (shift + 1) b)"

definition is_shift_for_insert_at_set :: "crv \<Rightarrow> crv \<Rightarrow> crv" where
  "is_shift_for_insert_at_set m values =
     (if crv_empty m \<or> crv_empty values then m
      else if chunk_end (last m) \<le> chunk_begin (hd values) then m
      else builder_finalize
        (shift_for_insert_loop (as_indexes m) (as_indexes values) 0 (builder_init m)))"

fun erase_at_loop :: "nat list \<Rightarrow> nat list \<Rightarrow> nat \<Rightarrow> builder \<Rightarrow> builder" where
  "erase_at_loop [] ys shift b = b"
| "erase_at_loop (x # xs) [] shift b =
     erase_at_loop xs [] shift (builder_push_index (x - shift) b)"
| "erase_at_loop (x # xs) (y # ys) shift b =
     (if x < y then erase_at_loop xs (y # ys) shift (builder_push_index (x - shift) b)
      else if x = y then erase_at_loop xs ys (shift + 1) b
      else erase_at_loop (x # xs) ys (shift + 1) b)"

definition is_erase_at_set :: "crv \<Rightarrow> crv \<Rightarrow> crv" where
  "is_erase_at_set m positions =
     (if crv_empty m \<or> crv_empty positions then m
      else builder_finalize
        (erase_at_loop (as_indexes m) (as_indexes positions) 0 (builder_init m)))"

subsection \<open>What the builder builds\<close>

text \<open>Pushing a range on a list of ranges, joined to the last one when they touch.\<close>

definition join_back :: "range \<Rightarrow> range list \<Rightarrow> range list" where
  "join_back r rs =
     (if rs \<noteq> [] \<and> snd (last rs) = fst r then butlast rs @ [(fst (last rs), snd r)] else rs @ [r])"

text \<open>
  The state of the builder after pushing: finished chunks, the chunk being filled, and untouched
  ones; the flag says whether the cached counts are right.
\<close>

definition counted :: "bool \<Rightarrow> chunk \<Rightarrow> bool" where
  "counted exact c \<longleftrightarrow> chunk_begin c = fst (hd (data c)) \<and>
     (exact \<longrightarrow> chunk_count c = sum_list (map rlen (data c)))"

definition finished :: "bool \<Rightarrow> chunk \<Rightarrow> bool" where
  "finished exact c \<longleftrightarrow>
     length (data c) = max_size \<and> chunk_end c = snd (last (data c)) \<and> counted exact c"

definition builder_ok :: "bool \<Rightarrow> nat \<Rightarrow> builder \<Rightarrow> range list \<Rightarrow> bool" where
  "builder_ok exact n b rs \<longleftrightarrow>
     (\<exists>ds cur k. b = (ds @ cur # replicate k empty_chunk, length ds) \<and>
        list_all (finished exact) ds \<and>
        (if data cur = [] then ds = [] \<and> cur = empty_chunk else counted exact cur) \<and>
        length (data cur) \<le> max_size \<and> flat ds @ data cur = rs \<and>
        n \<le> length ds + k + 1)"

lemma max_size_pos [simp]: "0 < max_size"
  by (simp add: max_size_def)

lemma builder_okI:
  assumes "b = (ds @ cur # replicate k empty_chunk, length ds)" "list_all (finished exact) ds"
    "data cur \<noteq> []" "counted exact cur" "length (data cur) \<le> max_size"
    "flat ds @ data cur = rs" "n \<le> length ds + k + 1"
  shows "builder_ok exact n b rs"
  unfolding builder_ok_def using assms by metis

lemma counted_weaken: "counted exact c \<Longrightarrow> (exact' \<Longrightarrow> exact) \<Longrightarrow> counted exact' c"
  by (simp add: counted_def)

lemma finished_weaken:
  "list_all (finished exact) ds \<Longrightarrow> (exact' \<Longrightarrow> exact) \<Longrightarrow> list_all (finished exact') ds"
  by (auto simp: list_all_iff finished_def intro: counted_weaken)

lemma builder_ok_weaken:
  "builder_ok exact n b rs \<Longrightarrow> (exact' \<Longrightarrow> exact) \<Longrightarrow> builder_ok exact' n b rs"
  unfolding builder_ok_def using counted_weaken finished_weaken by metis

lemma builder_init_ok:
  "builder_ok True (length (flat m) div max_size + 1) (builder_init m) []"
proof -
  have "sum_list (map (\<lambda>c. length (data c)) m) = length (flat m)"
    by (induction m) auto
  then show ?thesis unfolding builder_ok_def
    by (rule_tac x = "[]" in exI, rule_tac x = empty_chunk in exI,
        rule_tac x = "length (flat m) div max_size" in exI)
       (simp add: builder_init_def empty_chunk_def)
qed

lemma counted_first: "counted exact (c\<lparr>data := [r], chunk_count := snd r - fst r, chunk_begin := fst r\<rparr>)"
  by (simp add: counted_def rlen_def)

lemma counted_snoc:
  "counted exact c \<Longrightarrow> data c \<noteq> [] \<Longrightarrow>
   counted exact (c\<lparr>data := data c @ [r], chunk_count := chunk_count c + (snd r - fst r)\<rparr>)"
  by (simp add: counted_def rlen_def)

lemma counted_join:
  assumes "counted exact c" "data c = as @ [l]" "fst l < snd l" "fst r < snd r" "fst r = snd l"
  shows "counted exact (c\<lparr>data := as @ [(fst l, snd r)],
    chunk_count := chunk_count c + (snd r - fst r)\<rparr>)"
  using assms by (cases as) (auto simp: counted_def rlen_def)

lemma length_finished: "list_all (finished exact) ds \<Longrightarrow> length (flat ds) = max_size * length ds"
  by (induction ds) (auto simp: finished_def)

lemma push_into_next_chunk:
  assumes "list_all (finished exact) ds" "counted exact cur" "data cur = as @ [l]"
    "length (data cur) = max_size" "n \<le> length ds + k + 1" "fst r \<noteq> snd l"
  shows "builder_ok (exact \<and> (rlen r = 1 \<or> length (flat ds @ data cur @ [r]) \<le> max_size * n)) n
    (builder_push_back r (ds @ cur # replicate k empty_chunk, length ds)) (flat ds @ data cur @ [r])"
    (is "builder_ok ?exact n ?b _")
proof -
  define cur' where "cur' = cur\<lparr>chunk_end := snd l\<rparr>"
  have "finished exact cur'" using assms(2-4) by (simp add: cur'_def finished_def counted_def)
  with assms(1) have fin: "list_all (finished ?exact) (ds @ [cur'])"
    by (auto simp: list_all_iff finished_def counted_def)
  have data: "data cur' = data cur" by (simp add: cur'_def)
  show ?thesis
  proof (cases k)
    case 0
    let ?new = "\<lparr>data = [r], chunk_begin = fst r, chunk_end = 0, chunk_count = 1\<rparr>"
    have "max_size * n \<le> max_size * (length ds + 1)" using assms(5) 0 by (intro mult_le_mono) auto
    then have "counted ?exact ?new"
      using length_finished[OF assms(1)] assms(4) by (auto simp: counted_def)
    moreover have "?b = ((ds @ [cur']) @ ?new # replicate 0 empty_chunk, length (ds @ [cur']))"
      using assms(3,4,6) 0 by (simp add: builder_push_back_def cur'_def)
    ultimately show ?thesis using fin data assms(5) 0
      by (intro builder_okI[of _ "ds @ [cur']" ?new 0]) (auto simp: Suc_le_eq)
  next
    case (Suc k')
    let ?new = "empty_chunk\<lparr>data := [r], chunk_begin := fst r, chunk_count := snd r - fst r\<rparr>"
    have "?b = ((ds @ [cur']) @ ?new # replicate k' empty_chunk, length (ds @ [cur']))"
      using assms(3,4,6) Suc
      by (simp add: builder_push_back_def cur'_def empty_chunk_def nth_append list_update_append)
    then show ?thesis using fin data assms(5) Suc
      by (intro builder_okI[of _ "ds @ [cur']" ?new k']) (auto simp: counted_def rlen_def Suc_le_eq)
  qed
qed

lemma builder_push_ok:
  assumes "builder_ok exact n b rs" and lt: "\<forall>s \<in> set (r # rs). fst s < snd s"
  shows "builder_ok (exact \<and> (rlen r = 1 \<or> length (join_back r rs) \<le> max_size * n)) n
    (builder_push_back r b) (join_back r rs)"
proof -
  from assms(1) obtain ds cur k where b: "b = (ds @ cur # replicate k empty_chunk, length ds)"
    and fin: "list_all (finished exact) ds"
    and cur: "if data cur = [] then ds = [] \<and> cur = empty_chunk else counted exact cur"
    and rest: "length (data cur) \<le> max_size" "flat ds @ data cur = rs" "n \<le> length ds + k + 1"
    unfolding builder_ok_def by metis
  show ?thesis
  proof (cases "data cur = []")
    case True
    with cur b rest have "builder_push_back r b =
        ([] @ (cur\<lparr>data := [r], chunk_count := snd r - fst r, chunk_begin := fst r\<rparr>)
           # replicate k empty_chunk, length [])"
      by (simp add: builder_push_back_def)
    moreover have "join_back r rs = [r]" using True cur rest by (simp add: join_back_def)
    ultimately show ?thesis using rest True cur
      by (intro builder_okI[OF _ _ _ counted_first]) (auto simp: Suc_le_eq)
  next
    case ne: False
    with cur obtain as l where l: "data cur = as @ [l]" and c: "counted exact cur"
      by (metis rev_exhaust)
    have rs: "rs = flat ds @ as @ [l]" using rest(2) l by simp
    show ?thesis
    proof (cases "fst r = snd l")
      case True
      have "fst l < snd l" "fst r < snd r" using lt rs by auto
      note cj = counted_join[OF c l this True]
      have "builder_push_back r b = (ds @ (cur\<lparr>data := as @ [(fst l, snd r)],
          chunk_count := chunk_count cur + (snd r - fst r)\<rparr>) # replicate k empty_chunk, length ds)"
        using b l True by (simp add: builder_push_back_def)
      moreover have "join_back r rs = flat ds @ as @ [(fst l, snd r)]"
        using rs True by (simp add: join_back_def butlast_append)
      ultimately have "builder_ok exact n (builder_push_back r b) (join_back r rs)"
        using fin rest l by (intro builder_okI[OF _ fin _ cj]) auto
      then show ?thesis by (rule builder_ok_weaken) simp
    next
      case gap: False
      then have jb: "join_back r rs = flat ds @ data cur @ [r]"
        using rs l by (simp add: join_back_def)
      show ?thesis
      proof (cases "length (data cur) < max_size")
        case True
        have "builder_push_back r b = (ds @ (cur\<lparr>data := data cur @ [r],
            chunk_count := chunk_count cur + (snd r - fst r)\<rparr>) # replicate k empty_chunk, length ds)"
          using b l gap True by (simp add: builder_push_back_def)
        then have "builder_ok exact n (builder_push_back r b) (join_back r rs)"
          using jb True rest by (intro builder_okI[OF _ fin _ counted_snoc[OF c ne]]) auto
        then show ?thesis by (rule builder_ok_weaken) simp
      next
        case False
        then have "length (data cur) = max_size" using rest(1) by simp
        from push_into_next_chunk[OF fin c l this rest(3) gap] show ?thesis
          by (simp add: b jb)
      qed
    qed
  qed
qed

lemma length_join_back: "length rs \<le> length (join_back r rs)"
  by (auto simp: join_back_def)

lemma length_fold_join_back: "length rs \<le> length (fold join_back ps rs)"
proof (induction ps arbitrary: rs)
  case (Cons p ps)
  show ?case using Cons.IH[of "join_back p rs"] length_join_back[of rs p] by simp
qed simp

text \<open>The ranges pushed are in order; two neighbours may touch.\<close>

definition ascending :: "range list \<Rightarrow> bool" where
  "ascending ps \<longleftrightarrow> (\<forall>p \<in> set ps. fst p < snd p) \<and> sorted_wrt (\<lambda>r s. snd r \<le> fst s) ps"

lemma ascending_Cons:
  "ascending (p # ps) \<longleftrightarrow> fst p < snd p \<and> (\<forall>q \<in> set ps. snd p \<le> fst q) \<and> ascending ps"
  by (auto simp: ascending_def)

lemma ascending_append:
  "ascending (ps @ qs) \<longleftrightarrow>
     ascending ps \<and> ascending qs \<and> (\<forall>p \<in> set ps. \<forall>q \<in> set qs. snd p \<le> fst q)"
  by (auto simp: ascending_def sorted_wrt_append)

lemma join_back_ok:
  assumes "ranges_ok rs" "fst p < snd p" "\<forall>r \<in> set rs. snd r \<le> fst p"
  shows "ranges_ok (join_back p rs)" "elems_of (join_back p rs) = elems_of rs \<union> {fst p ..< snd p}"
    "\<forall>r \<in> set (join_back p rs). snd r \<le> snd p"
proof -
  have "ranges_ok (join_back p rs) \<and> elems_of (join_back p rs) = elems_of rs \<union> {fst p ..< snd p} \<and>
    (\<forall>r \<in> set (join_back p rs). snd r \<le> snd p)"
  proof (cases rs rule: rev_cases)
    case (snoc as l)
    have "r \<in> set as \<Longrightarrow> snd r < fst p" for r
      using assms snoc by (fastforce simp: ranges_ok_append ranges_ok_Cons)
    moreover have "snd l \<noteq> fst p \<Longrightarrow> snd l < fst p" using assms snoc by simp
    ultimately show ?thesis using assms snoc
      by (auto simp: join_back_def ranges_ok_append ranges_ok_Cons less_imp_le)
  qed (use assms in \<open>auto simp: join_back_def ranges_ok_Cons\<close>)
  then show "ranges_ok (join_back p rs)" "elems_of (join_back p rs) = elems_of rs \<union> {fst p ..< snd p}"
    "\<forall>r \<in> set (join_back p rs). snd r \<le> snd p" by auto
qed

lemma fold_join_back_ok:
  assumes "ranges_ok rs" "ascending ps" "\<forall>r \<in> set rs. \<forall>p \<in> set ps. snd r \<le> fst p"
  shows "ranges_ok (fold join_back ps rs) \<and> elems_of (fold join_back ps rs) = elems_of rs \<union> elems_of ps"
  using assms
proof (induction ps arbitrary: rs)
  case (Cons p ps)
  have p: "fst p < snd p" "\<forall>r \<in> set rs. snd r \<le> fst p" "\<forall>q \<in> set ps. snd p \<le> fst q" "ascending ps"
    using Cons.prems by (auto simp: ascending_Cons)
  note jb = join_back_ok[OF Cons.prems(1) p(1,2)]
  from Cons.IH[OF jb(1) p(4)] jb(2,3) p(3) show ?case by fastforce
qed simp

lemma builder_fold_ok:
  assumes "builder_ok exact n b rs" "ranges_ok rs" "ascending ps"
    "\<forall>r \<in> set rs. \<forall>p \<in> set ps. snd r \<le> fst p"
  shows "builder_ok
    (exact \<and> ((\<forall>p \<in> set ps. rlen p = 1) \<or> length (fold join_back ps rs) \<le> max_size * n)) n
    (fold builder_push_back ps b) (fold join_back ps rs)"
  using assms
proof (induction ps arbitrary: b rs exact)
  case (Cons p ps)
  have p: "fst p < snd p" "\<forall>r \<in> set rs. snd r \<le> fst p" "\<forall>q \<in> set ps. snd p \<le> fst q" "ascending ps"
    using Cons.prems by (auto simp: ascending_Cons)
  note jb = join_back_ok[OF Cons.prems(2) p(1,2)]
  have "\<forall>s \<in> set (p # rs). fst s < snd s"
    using p(1) ranges_ok_lt[OF Cons.prems(2)] by simp
  note step = builder_push_ok[OF Cons.prems(1) this]
  have "\<forall>r \<in> set (join_back p rs). \<forall>q \<in> set ps. snd r \<le> fst q"
    using jb(3) p(3) by fastforce
  note * = Cons.IH[OF step jb(1) p(4) this]
  let ?len = "length (fold join_back ps (join_back p rs))"
  have "length (join_back p rs) \<le> ?len" by (rule length_fold_join_back)
  then have "(exact \<and> (rlen p = 1 \<or> length (join_back p rs) \<le> max_size * n)) \<and>
      ((\<forall>p \<in> set ps. rlen p = 1) \<or> ?len \<le> max_size * n)"
    if "exact \<and> ((\<forall>q \<in> set (p # ps). rlen q = 1) \<or> ?len \<le> max_size * n)"
    using that by auto
  then show ?case using builder_ok_weaken[OF *] by simp
qed simp

lemma builder_finalize_ok:
  assumes "builder_ok exact n b rs" "ranges_ok rs"
  shows "flat (builder_finalize b) = rs" "exact \<Longrightarrow> crv_inv (builder_finalize b)"
proof -
  from assms(1) obtain ds cur k where b: "b = (ds @ cur # replicate k empty_chunk, length ds)"
    and fin: "list_all (finished exact) ds"
    and cur: "if data cur = [] then ds = [] \<and> cur = empty_chunk else counted exact cur"
    and rest: "length (data cur) \<le> max_size" "flat ds @ data cur = rs"
    unfolding builder_ok_def by metis
  let ?fin = "if data cur = [] then [] else ds @ [cur\<lparr>chunk_end := snd (last (data cur))\<rparr>]"
  have res: "builder_finalize b = ?fin"
    using b cur by (auto simp: builder_finalize_def Let_def)
  with rest cur show flat: "flat (builder_finalize b) = rs" by auto
  assume exact
  then have "list_all chunk_ok ds"
    using fin by (auto simp: list_all_iff finished_def counted_def chunk_ok_def)
       (metis list.size(3) max_size_pos less_irrefl)
  then have "list_all chunk_ok ?fin"
    using rest(1) cur \<open>exact\<close> by (auto simp: chunk_ok_def counted_def)
  with flat assms(2) res show "crv_inv (builder_finalize b)" by (simp add: crv_inv_def)
qed

text \<open>The vector built from a list of pushed ranges.\<close>

lemma built_ranges:
  fixes m :: crv
  assumes "ascending ps"
  defines "res \<equiv> builder_finalize (fold builder_push_back ps (builder_init m))"
  shows "ranges_ok (flat res)" "elems res = elems_of ps"
    "(\<forall>p \<in> set ps. rlen p = 1) \<or> length (flat res) \<le> max_size * (length (flat m) div max_size + 1)
       \<Longrightarrow> crv_inv res"
proof -
  note ok = builder_fold_ok[OF builder_init_ok[of m] ranges_ok_Nil assms(1)]
  have r: "ranges_ok (fold join_back ps [])" "elems_of (fold join_back ps []) = elems_of ps"
    using fold_join_back_ok[OF ranges_ok_Nil assms(1)] by simp_all
  have f: "flat res = fold join_back ps []"
    unfolding res_def using ok r(1) by (intro builder_finalize_ok(1)) auto
  show "ranges_ok (flat res)" "elems res = elems_of ps" using f r by (simp_all add: elems_def)
  assume "(\<forall>p \<in> set ps. rlen p = 1) \<or> length (flat res) \<le> max_size * (length (flat m) div max_size + 1)"
  with ok f have "builder_ok True (length (flat m) div max_size + 1)
      (fold builder_push_back ps (builder_init m)) (fold join_back ps [])" by simp
  then show "crv_inv res" unfolding res_def using r(1) by (rule builder_finalize_ok(2)) simp
qed

lemma fold_push_index:
  "fold builder_push_index xs b = fold builder_push_back (map (\<lambda>i. (i, Suc i)) xs) b"
  by (induction xs arbitrary: b) (simp_all add: builder_push_index_def)

lemma built_indexes:
  fixes m :: crv
  assumes "sorted_wrt (<) xs"
  defines "res \<equiv> builder_finalize (fold builder_push_index xs (builder_init m))"
  shows "crv_inv res" "elems res = set xs"
proof -
  have asc: "ascending (map (\<lambda>i. (i, Suc i)) xs)"
    using assms(1) by (induction xs) (auto simp: ascending_def Suc_le_eq)
  have "elems_of (map (\<lambda>i. (i, Suc i)) xs) = set xs" by (auto simp: elems_of_def)
  with built_ranges(2,3)[OF asc, of m] show "crv_inv res" "elems res = set xs"
    by (simp_all add: res_def fold_push_index)
qed

lemma set_as_indexes: "set (as_indexes m) = elems m"
  by (auto simp: as_indexes_def elems_def elems_of_def)

lemma sorted_as_indexes: "ranges_ok (flat m) \<Longrightarrow> sorted_wrt (<) (as_indexes m)"
proof -
  have "sorted_wrt (<) (concat (map (\<lambda>r. [fst r ..< snd r]) rs))" if "ranges_ok rs" for rs
    using that by (induction rs) (fastforce simp: ranges_ok_Cons sorted_wrt_append)+
  then show "ranges_ok (flat m) \<Longrightarrow> sorted_wrt (<) (as_indexes m)" by (simp add: as_indexes_def)
qed

subsection \<open>Adding every position of another set\<close>

lemma add_indexes_correct:
  assumes "cursor m it xs ys" "crv_inv m" "sorted_wrt (<) is" "\<forall>r \<in> set xs. \<forall>i \<in> set is. snd r \<le> i"
  shows "crv_inv (add_indexes m it is) \<and> elems (add_indexes m it is) = elems m \<union> set is"
  using assms
proof (induction "is" arbitrary: m it xs ys)
  case (Cons i "is")
  let ?P = "\<lambda>r. snd r \<le> i"
  have le: "\<forall>r \<in> set xs. snd r \<le> i" using Cons.prems(4) by simp
  note c = find_from_cursor[OF Cons.prems(1,2) le]
  have ok: "ranges_ok ys" "ranges_ok ((xs @ takeWhile ?P ys) @ dropWhile ?P ys)"
    using Cons.prems(1,2) cursor_inv[OF Cons.prems(1)] by (auto simp: ranges_ok_append)
  have bef: "\<forall>r \<in> set (xs @ takeWhile ?P ys). snd r \<le> i" using le by (auto dest: set_takeWhileD)
  obtain m' it' xs' r' ys' where *: "do_add m (is_find_from m i it) i = (m', it')"
    "cursor m' it' xs' (r' # ys')" "ranges_ok (xs' @ r' # ys')"
    "elems_of (xs' @ r' # ys') = insert i (elems_of ((xs @ takeWhile ?P ys) @ dropWhile ?P ys))"
    "fst r' \<le> i" "i < snd r'"
    using do_add_cursor[OF c ok(2) bef dropWhile_after[OF ok(1)]] by blast
  have inv: "crv_inv m'" using * cursor_inv by blast
  have el: "elems m' = insert i (elems m)"
    using cursor_elems[OF *(2)] cursor_elems[OF Cons.prems(1)] *(4) by simp
  have "\<forall>r \<in> set xs'. \<forall>j \<in> set is. snd r \<le> j"
    using *(3,5) Cons.prems(3) by (fastforce simp: ranges_ok_append)
  from Cons.IH[OF *(2) inv _ this] Cons.prems(3) el *(1) show ?case by simp
qed simp

lemma add_set_correct:
  assumes "crv_inv m" "crv_inv other"
  shows "crv_inv (is_add_set m other)" "elems (is_add_set m other) = elems m \<union> elems other"
proof -
  have "cursor m (crv_begin m) [] (flat m)" using assms(1) by (intro cursor_begin) (simp add: crv_inv_def)
  from add_indexes_correct[OF this assms(1) sorted_as_indexes] assms(2)
  show "crv_inv (is_add_set m other)" "elems (is_add_set m other) = elems m \<union> elems other"
    by (auto simp: is_add_set_def crv_inv_def set_as_indexes)
qed

subsection \<open>Inserting, making room and erasing at a set of positions\<close>

text \<open>
  The set \<open>E\<close> after positions \<open>P\<close> were inserted: each position moves to the one that
  has it for its place among the positions outside \<open>P\<close>. And after \<open>P\<close> were erased.
\<close>

definition shift_image :: "nat set \<Rightarrow> nat set \<Rightarrow> nat set" where
  "shift_image P E = {y. y \<notin> P \<and> unshifted P y \<in> E}"

definition unshift_image :: "nat set \<Rightarrow> nat set \<Rightarrow> nat set" where
  "unshift_image P E = unshifted P ` (E - P)"

lemma shift_image_shifted: "shift_image P E = {y. \<exists>x \<in> E. shifted_to P x y}"
  by (auto simp: shift_image_def shifted_to_def)

text \<open>The positions the loops push.\<close>

fun room_out :: "nat list \<Rightarrow> nat list \<Rightarrow> nat \<Rightarrow> nat list" where
  "room_out [] ys shift = []"
| "room_out (x # xs) [] shift = (x + shift) # room_out xs [] shift"
| "room_out (x # xs) (y # ys) shift =
     (if x + shift < y then (x + shift) # room_out xs (y # ys) shift
      else room_out (x # xs) ys (shift + 1))"

fun insert_out :: "nat list \<Rightarrow> nat list \<Rightarrow> nat \<Rightarrow> nat list" where
  "insert_out [] ys shift = ys"
| "insert_out (x # xs) [] shift = (x + shift) # insert_out xs [] shift"
| "insert_out (x # xs) (y # ys) shift =
     (if x + shift < y then (x + shift) # insert_out xs (y # ys) shift
      else y # insert_out (x # xs) ys (shift + 1))"

fun erase_out :: "nat list \<Rightarrow> nat list \<Rightarrow> nat \<Rightarrow> nat list" where
  "erase_out [] ys shift = []"
| "erase_out (x # xs) [] shift = (x - shift) # erase_out xs [] shift"
| "erase_out (x # xs) (y # ys) shift =
     (if x < y then (x - shift) # erase_out xs (y # ys) shift
      else if x = y then erase_out xs ys (shift + 1)
      else erase_out (x # xs) ys (shift + 1))"

lemma shift_for_insert_loop_out:
  "shift_for_insert_loop xs ys k b = fold builder_push_index (room_out xs ys k) b"
  by (induction xs ys k b rule: shift_for_insert_loop.induct) auto

lemma insert_at_loop_out:
  "insert_at_loop xs ys k b = fold builder_push_index (insert_out xs ys k) b"
  by (induction xs ys k b rule: insert_at_loop.induct) auto

lemma erase_at_loop_out:
  "erase_at_loop xs ys k b = fold builder_push_index (erase_out xs ys k) b"
  by (induction xs ys k b rule: erase_at_loop.induct) auto

lemma set_insert_out: "set (insert_out xs ys k) = set ys \<union> set (room_out xs ys k)"
  by (induction xs ys k rule: insert_out.induct) auto

text \<open>
  Where the loops stand: the positions \<open>C\<close> of the second set already passed lie before
  the ones to come, and before the target of every remaining position of the first.
\<close>

lemma shifted_to_next:
  assumes "finite C" "card C = k" "\<forall>c \<in> C. c < x + k" "\<forall>y \<in> Y. x + k < y"
  shows "shifted_to (C \<union> Y) x (x + k)"
proof -
  have "{y \<in> C \<union> Y. y < x + k} = C" using assms(3,4) by fastforce
  with assms show ?thesis by (fastforce simp: shifted_to_def unshifted_def below_def)
qed

lemma room_out_set:
  assumes "sorted_wrt (<) xs" "sorted_wrt (<) ys" "finite C" "card C = k"
    "\<forall>c \<in> C. (\<forall>y \<in> set ys. c < y) \<and> (\<forall>x \<in> set xs. c < x + k)"
  shows "set (room_out xs ys k) = {y. \<exists>x \<in> set xs. shifted_to (C \<union> set ys) x y}"
  using assms
proof (induction xs ys k arbitrary: C rule: room_out.induct)
  case (2 x xs shift)
  have "shifted_to C x (x + shift)" using "2.prems" shifted_to_next[of C shift x "{}"] by simp
  with 2 show ?case by (auto dest: shifted_to_unique)
next
  case (3 x xs y ys shift)
  show ?case
  proof (cases "x + shift < y")
    case True
    then have "shifted_to (C \<union> set (y # ys)) x (x + shift)"
      using "3.prems" by (intro shifted_to_next) auto
    with 3 True show ?thesis by (auto dest: shifted_to_unique)
  next
    case False
    have "set (room_out (x # xs) ys (shift + 1)) =
        {z. \<exists>x \<in> set (x # xs). shifted_to (insert y C \<union> set ys) x z}"
      using "3.prems" False by (intro "3.IH"(2)) (auto simp: less_Suc_eq)
    moreover have "insert y C \<union> set ys = C \<union> set (y # ys)" by auto
    ultimately show ?thesis using False by simp
  qed
qed simp

lemma room_out_ge:
  "\<forall>x \<in> set xs. l \<le> x + k \<Longrightarrow> \<forall>z \<in> set (room_out xs ys k). l \<le> z"
  by (induction xs ys k rule: room_out.induct) (auto simp: le_SucI)

lemma sorted_room_out:
  "sorted_wrt (<) xs \<Longrightarrow> sorted_wrt (<) (room_out xs ys k)"
proof (induction xs ys k rule: room_out.induct)
  case (2 x xs k)
  with room_out_ge[of xs "Suc (x + k)" k "[]"] show ?case by (fastforce simp: Suc_le_eq)
next
  case (3 x xs y ys k)
  with room_out_ge[of xs "Suc (x + k)" k "y # ys"] show ?case by (fastforce simp: Suc_le_eq)
qed simp

lemma sorted_insert_out:
  "sorted_wrt (<) xs \<Longrightarrow> sorted_wrt (<) ys \<Longrightarrow> sorted_wrt (<) (insert_out xs ys k)"
proof (induction xs ys k rule: insert_out.induct)
  case (2 x xs k)
  with room_out_ge[of xs "Suc (x + k)" k "[]"] show ?case
    by (fastforce simp: Suc_le_eq set_insert_out)
next
  case (3 x xs y ys k)
  show ?case
  proof (cases "x + k < y")
    case True
    with 3 room_out_ge[of xs "Suc (x + k)" k "y # ys"] show ?thesis
      by (fastforce simp: Suc_le_eq set_insert_out)
  next
    case False
    with 3 room_out_ge[of "x # xs" "Suc y" "k + 1" ys] show ?thesis
      by (fastforce simp: Suc_le_eq set_insert_out)
  qed
qed simp

lemma erase_out_set:
  assumes "sorted_wrt (<) xs" "sorted_wrt (<) ys" "finite C" "card C = k"
    "\<forall>c \<in> C. (\<forall>y \<in> set ys. c < y) \<and> (\<forall>x \<in> set xs. c < x)"
  shows "set (erase_out xs ys k) = unshifted (C \<union> set ys) ` (set xs - set ys)"
  using assms
proof (induction xs ys k arbitrary: C rule: erase_out.induct)
  case (2 x xs k)
  have "{y \<in> C. y < x} = C" using "2.prems" by auto
  then have "unshifted C x = x - k" using "2.prems" by (simp add: unshifted_def below_def)
  with 2 show ?case by auto
next
  case (3 x xs y ys k)
  have eq: "insert y C \<union> set ys = C \<union> set (y # ys)" by auto
  have y: "finite (insert y C)" "card (insert y C) = k + 1" using "3.prems" by auto
  consider "x < y" | "x = y" | "y < x" by linarith
  then show ?case
  proof cases
    case 1
    have "{z \<in> C \<union> set (y # ys). z < x} = C" using "3.prems" 1 by fastforce
    then have "unshifted (C \<union> set (y # ys)) x = x - k" using "3.prems" by (simp add: unshifted_def below_def)
    moreover have "x \<notin> set (y # ys)" using "3.prems"(2) 1 by fastforce
    ultimately show ?thesis using "3.IH"(1)[of C] 1 "3.prems" by (auto simp: insert_Diff_if)
  next
    case 2
    have "set (erase_out xs ys (k + 1)) = unshifted (insert y C \<union> set ys) ` (set xs - set ys)"
      using "3.prems" 2 y by (intro "3.IH"(2)) auto
    moreover have "set (x # xs) - set (y # ys) = set xs - set ys" using 2 "3.prems"(1) by auto
    ultimately show ?thesis using 2 eq by simp
  next
    case 3
    have "set (erase_out (x # xs) ys (k + 1)) =
        unshifted (insert y C \<union> set ys) ` (set (x # xs) - set ys)"
      using "3.prems" 3 y by (intro "3.IH"(3)) auto
    moreover have "set (x # xs) - set (y # ys) = set (x # xs) - set ys" using 3 "3.prems"(1) by auto
    ultimately show ?thesis using 3 eq by simp
  qed
qed simp

lemma erase_out_ge:
  assumes "sorted_wrt (<) xs" "sorted_wrt (<) ys" "\<forall>x \<in> set xs \<union> set ys. l + k \<le> x"
  shows "\<forall>z \<in> set (erase_out xs ys k). l \<le> z"
  using assms
proof (induction xs ys k rule: erase_out.induct)
  case (2 x xs k)
  then have "l \<le> x - k" by auto
  with 2 show ?case by simp
next
  case (3 x xs y ys k)
  have "l \<le> x - k" using "3.prems"(3) by auto
  moreover have "\<forall>z \<in> set (erase_out xs ys (k + 1)). l \<le> z" if "x = y"
    using that "3.prems" by (intro "3.IH"(2)) (auto simp: Suc_le_eq dest: le_less_trans)
  moreover have "\<forall>z \<in> set (erase_out (x # xs) ys (k + 1)). l \<le> z" if "y < x"
    using that "3.prems" by (intro "3.IH"(3)) (auto simp: Suc_le_eq dest: le_less_trans less_trans)
  ultimately show ?case using "3.IH"(1) "3.prems" by auto
qed simp

lemma sorted_erase_out:
  assumes "sorted_wrt (<) xs" "sorted_wrt (<) ys" "\<forall>x \<in> set xs \<union> set ys. k \<le> x"
  shows "sorted_wrt (<) (erase_out xs ys k)"
  using assms
proof (induction xs ys k rule: erase_out.induct)
  case (2 x xs k)
  then have "\<forall>z \<in> set (erase_out xs [] k). x - k + 1 \<le> z"
    by (intro erase_out_ge) (auto simp: Suc_le_eq)
  with 2 show ?case by (simp add: Suc_le_eq)
next
  case (3 x xs y ys k)
  have "x < y \<Longrightarrow> \<forall>z \<in> set (erase_out xs (y # ys) k). x - k + 1 \<le> z"
    using "3.prems" by (intro erase_out_ge) (auto simp: Suc_le_eq dest: less_trans)
  moreover have "sorted_wrt (<) (erase_out xs ys (k + 1))" if "x = y"
    using that "3.prems" by (intro "3.IH"(2)) (auto simp: Suc_le_eq dest: le_less_trans)
  moreover have "sorted_wrt (<) (erase_out (x # xs) ys (k + 1))" if "y < x"
    using that "3.prems" by (intro "3.IH"(3)) (auto simp: Suc_le_eq dest: le_less_trans less_trans)
  ultimately show ?case using "3.IH"(1) "3.prems" by (auto simp: Suc_le_eq)
qed simp

lemma crv_inv_empty_iff: "crv_inv m \<Longrightarrow> elems m = {} \<longleftrightarrow> m = []"
proof (cases m)
  case (Cons c ns)
  moreover assume "crv_inv m"
  ultimately obtain r rs where "flat m = r # rs" "fst r < snd r"
    by (cases "data c") (auto simp: crv_inv_def chunk_ok_def ranges_ok_Cons)
  then have "fst r \<in> elems m" by (simp add: elems_def)
  with Cons show ?thesis by auto
qed simp

lemma shift_image_empty [simp]: "shift_image {} E = E" "shift_image P {} = {}"
  by (auto simp: shift_image_def unshifted_def below_def)

lemma unshift_image_empty [simp]: "unshift_image {} E = E" "unshift_image P {} = {}"
  by (auto simp: unshift_image_def unshifted_def below_def)

lemma insert_at_set_correct:
  assumes "crv_inv m" "crv_inv positions"
  shows "crv_inv (is_insert_at_set m positions)"
    "elems (is_insert_at_set m positions) = elems positions \<union> shift_image (elems positions) (elems m)"
proof -
  let ?xs = "as_indexes m" and ?ys = "as_indexes positions"
  have s: "sorted_wrt (<) ?xs" "sorted_wrt (<) ?ys"
    using assms sorted_as_indexes by (auto simp: crv_inv_def)
  have el: "set (insert_out ?xs ?ys 0) = elems positions \<union> shift_image (elems positions) (elems m)"
    using room_out_set[OF s, of "{}"] by (simp add: set_insert_out set_as_indexes shift_image_shifted)
  note built = built_indexes[OF sorted_insert_out[OF s, of 0], of m]
  show "crv_inv (is_insert_at_set m positions)"
    "elems (is_insert_at_set m positions) = elems positions \<union> shift_image (elems positions) (elems m)"
    using built el assms
    by (auto simp: is_insert_at_set_def crv_empty_def insert_at_loop_out)
qed

lemma crv_first_last:
  assumes "crv_inv m" "m \<noteq> []"
  shows "\<forall>x \<in> elems m. chunk_begin (hd m) \<le> x \<and> x < chunk_end (last m)"
proof -
  have ok: "\<And>c. c \<in> set m \<Longrightarrow> chunk_ok c" "ranges_ok (flat m)"
    using assms(1) by (auto simp: crv_inv_def list_all_iff)
  obtain c ns where m: "m = c # ns" using assms(2) by (cases m) auto
  with ok(1)[of c] obtain r rs where c: "data c = r # rs" "chunk_begin c = fst r"
    by (cases "data c") (auto simp: chunk_ok_def)
  have "\<forall>s \<in> set (flat m). fst r \<le> fst s"
    using ok(2) m c by (auto simp: ranges_ok_Cons dest: less_imp_le less_trans)
  moreover obtain ms d where m': "m = ms @ [d]" using assms(2) by (metis rev_exhaust)
  with ok(1)[of d] obtain qs q where d: "data d = qs @ [q]" "chunk_end d = snd q"
    by (cases "data d" rule: rev_cases) (auto simp: chunk_ok_def)
  have "\<forall>s \<in> set (flat m). snd s \<le> snd q"
    using ok(2) m' d by (auto simp: ranges_ok_append ranges_ok_Cons)
  moreover have "chunk_begin (hd m) = fst r" "chunk_end (last m) = snd q"
    using m m' c d by (simp, metis last_snoc)
  ultimately show ?thesis using elems_of_ge[of "flat m" "fst r"] elems_of_less[of "flat m" "snd q"]
    by (simp add: elems_def)
qed

lemma shift_for_insert_at_set_correct:
  assumes "crv_inv m" "crv_inv values"
  shows "crv_inv (is_shift_for_insert_at_set m values)"
    "elems (is_shift_for_insert_at_set m values) = shift_image (elems values) (elems m)"
proof -
  let ?xs = "as_indexes m" and ?ys = "as_indexes values"
  have s: "sorted_wrt (<) ?xs" "sorted_wrt (<) ?ys"
    using assms sorted_as_indexes by (auto simp: crv_inv_def)
  have el: "set (room_out ?xs ?ys 0) = shift_image (elems values) (elems m)"
    using room_out_set[OF s, of "{}"] by (simp add: set_as_indexes shift_image_shifted)
  note built = built_indexes[OF sorted_room_out[OF s(1), of ?ys 0], of m]
  have none: "shift_image (elems values) (elems m) = elems m"
    if "m \<noteq> []" "values \<noteq> []" "chunk_end (last m) \<le> chunk_begin (hd values)"
  proof -
    have lt: "\<forall>x \<in> elems m. \<forall>y \<in> elems values. x < y"
      using crv_first_last[OF assms(1) that(1)] crv_first_last[OF assms(2) that(2)] that(3) by fastforce
    then have "shifted_to (elems values) x x" if "x \<in> elems m" for x
      using shifted_to_next[of "{}" 0 x "elems values"] that by simp
    then show ?thesis by (auto simp: shift_image_shifted dest: shifted_to_unique)
  qed
  show "crv_inv (is_shift_for_insert_at_set m values)"
    "elems (is_shift_for_insert_at_set m values) = shift_image (elems values) (elems m)"
    using built el assms none
    by (auto simp: is_shift_for_insert_at_set_def crv_empty_def shift_for_insert_loop_out)
qed

lemma erase_at_set_correct:
  assumes "crv_inv m" "crv_inv positions"
  shows "crv_inv (is_erase_at_set m positions)"
    "elems (is_erase_at_set m positions) = unshift_image (elems positions) (elems m)"
proof -
  let ?xs = "as_indexes m" and ?ys = "as_indexes positions"
  have s: "sorted_wrt (<) ?xs" "sorted_wrt (<) ?ys"
    using assms sorted_as_indexes by (auto simp: crv_inv_def)
  have el: "set (erase_out ?xs ?ys 0) = unshift_image (elems positions) (elems m)"
    using erase_out_set[OF s, of "{}"] by (simp add: set_as_indexes unshift_image_def)
  note built = built_indexes[OF sorted_erase_out[OF s, of 0], of m]
  show "crv_inv (is_erase_at_set m positions)"
    "elems (is_erase_at_set m positions) = unshift_image (elems positions) (elems m)"
    using built el assms
    by (auto simp: is_erase_at_set_def crv_empty_def erase_at_loop_out)
qed

subsection \<open>Adding shifted positions in bulk\<close>

lemma ascendingD:
  "ascending ps \<Longrightarrow> p \<in> set ps \<Longrightarrow> fst p \<in> elems_of ps \<and> snd p - 1 \<in> elems_of ps \<and> fst p < snd p"
  unfolding elems_of_def ascending_def by (intro conjI UN_I) auto

lemma ascending_appendI:
  assumes "ascending ps" "ascending qs" "\<And>x y. x \<in> elems_of ps \<Longrightarrow> y \<in> elems_of qs \<Longrightarrow> x < y"
  shows "ascending (ps @ qs)"
proof -
  have "snd p \<le> fst q" if "p \<in> set ps" "q \<in> set qs" for p q
    using ascendingD[OF assms(1) that(1)] ascendingD[OF assms(2) that(2)]
      assms(3)[of "snd p - 1" "fst q"] by linarith
  with assms(1,2) show ?thesis by (simp add: ascending_append)
qed

lemma ranges_ascending: "ranges_ok rs \<Longrightarrow> ascending rs"
  by (induction rs) (auto simp: ranges_ok_Cons ascending_def less_imp_le)

lemma ascending_indexes: "ascending (map (\<lambda>i. (i, Suc i)) [a ..< b])"
  by (auto simp: ascending_def sorted_wrt_map sorted_wrt_iff_nth_less)

lemma elems_of_indexes: "elems_of (map (\<lambda>i. (i, Suc i)) xs) = set xs"
  by (auto simp: elems_of_def)

lemma skip_shifts_split:
  "\<exists>as bs. sh = as @ bs \<and>
     skip_shifts sh i ns sk = (bs, ns + sum_list (map rlen as), if as = [] then sk else snd (last as)) \<and>
     (\<forall>s \<in> set as. fst s \<le> i) \<and> (bs \<noteq> [] \<longrightarrow> i < fst (hd bs))"
proof (induction sh arbitrary: ns sk)
  case (Cons s sh)
  show ?case
  proof (cases "fst s \<le> i")
    case True
    obtain as bs where "sh = as @ bs"
      "skip_shifts sh i (ns + rlen s) (snd s) =
         (bs, ns + rlen s + sum_list (map rlen as), if as = [] then snd s else snd (last as))"
      "\<forall>s \<in> set as. fst s \<le> i" "bs \<noteq> [] \<longrightarrow> i < fst (hd bs)"
      using Cons.IH by blast
    with True show ?thesis
      by (rule_tac x = "s # as" in exI, rule_tac x = bs in exI) (auto simp: rlen_def[of s])
  qed auto
qed simp

lemma copy_old_split:
  assumes "ranges_ok old"
  shows "\<exists>xs ys ps. old = xs @ ys \<and>
     copy_old old t os b = (ys, os + sum_list (map rlen xs), fold builder_push_back ps b) \<and>
     ascending ps \<and> elems_of ps = elems_of xs \<and>
     (\<forall>r \<in> set xs. snd r \<le> t + (os + sum_list (map rlen xs))) \<and>
     (ys \<noteq> [] \<longrightarrow> t + (os + sum_list (map rlen xs)) < fst (hd ys))"
  using assms
proof (induction old arbitrary: os b)
  case (Cons r old)
  have ok: "ranges_ok old" "fst r < snd r" "\<forall>s \<in> set old. snd r < fst s"
    using Cons.prems by (auto simp: ranges_ok_Cons)
  show ?case
  proof (cases "fst r \<le> t + os")
    case True
    let ?ix = "map (\<lambda>i. (i, Suc i)) [fst r ..< snd r]"
    obtain xs ys ps where *: "old = xs @ ys"
      "copy_old old t (os + rlen r) (fold builder_push_index [fst r ..< snd r] b) =
         (ys, os + rlen r + sum_list (map rlen xs),
          fold builder_push_back ps (fold builder_push_index [fst r ..< snd r] b))"
      "ascending ps" "elems_of ps = elems_of xs"
      "\<forall>r' \<in> set xs. snd r' \<le> t + (os + rlen r + sum_list (map rlen xs))"
      "ys \<noteq> [] \<longrightarrow> t + (os + rlen r + sum_list (map rlen xs)) < fst (hd ys)"
      using Cons.IH[OF ok(1)] by blast
    have "\<forall>s \<in> set xs. snd r \<le> fst s" using ok(3) *(1) by (simp add: less_imp_le)
    then have "x < snd r \<Longrightarrow> y \<in> elems_of xs \<Longrightarrow> x < y" for x y
      using elems_of_ge[of xs "snd r" y] by simp
    with * have "ascending (?ix @ ps)"
      by (intro ascending_appendI ascending_indexes) (auto simp: elems_of_indexes)
    moreover have "snd r \<le> t + (os + rlen r)" using True ok(2) by (simp add: rlen_def)
    ultimately show ?thesis using * True
      by (rule_tac x = "r # xs" in exI, rule_tac x = ys in exI, rule_tac x = "?ix @ ps" in exI)
         (auto simp: fold_push_index elems_of_indexes rlen_def[of r])
  qed (auto simp: ascending_def intro: exI[of _ "[]"])
qed (auto simp: ascending_def intro: exI[of _ "[]"])


text \<open>The end of the last range, where the code keeps \<open>skip_until\<close>.\<close>

definition last_end :: "range list \<Rightarrow> nat" where
  "last_end rs = (if rs = [] then 0 else snd (last rs))"

lemma last_end_member:
  assumes "ranges_ok (as @ bs)" "\<forall>s \<in> set as. fst s \<le> i" "bs \<noteq> [] \<longrightarrow> i < fst (hd bs)"
  shows "i < last_end as \<longleftrightarrow> i \<in> elems_of (as @ bs)"
    "\<not> i < last_end as \<Longrightarrow> unshifted (elems_of (as @ bs)) i = i - sum_list (map rlen as)"
proof -
  have bs: "\<forall>s \<in> set bs. i < fst s" using assms(1,3) ranges_ok_hd_gap[of bs i] by (simp add: ranges_ok_append)
  then have nb: "i \<notin> elems_of bs" using elems_of_ge[of bs "Suc i" i] by (auto simp: Suc_le_eq)
  have le: "\<forall>s \<in> set as. snd s \<le> last_end as"
    using assms(1) by (cases as rule: rev_cases)
      (auto simp: last_end_def ranges_ok_append ranges_ok_Cons dest: less_imp_le less_trans)
  show "i < last_end as \<longleftrightarrow> i \<in> elems_of (as @ bs)"
    using assms(2) nb elems_of_less[OF le, of i]
    by (cases as rule: rev_cases) (auto simp: last_end_def)
  assume "\<not> i < last_end as"
  with le have "\<forall>s \<in> set as. snd s \<le> i" by fastforce
  with below_split[OF assms(1), of i] bs
  show "unshifted (elems_of (as @ bs)) i = i - sum_list (map rlen as)"
    by (simp add: unshifted_def less_imp_le)
qed

lemma shifted_to_mono:
  assumes "shifted_to E s x" "shifted_to E t y" "s < t"
  shows "x < y"
  using assms unshifted_mono[of y x E] by (force simp: shifted_to_def)

lemma add_shifted_loop_pushes:
  assumes "ranges_ok (xs0 @ old)" "ranges_ok (s0 @ sh)" "sorted_wrt (<) vs"
    "\<forall>s \<in> set s0. \<forall>i \<in> set vs. fst s \<le> i"
    "\<forall>r \<in> set xs0. \<forall>i \<in> set vs. snd r \<le> unshifted (elems_of (s0 @ sh)) i + sum_list (map rlen xs0)"
  shows "\<exists>ps. add_shifted_loop vs old sh (last_end s0) (sum_list (map rlen xs0))
        (sum_list (map rlen s0)) b = fold builder_push_back ps b \<and> ascending ps \<and>
      elems_of ps = elems_of old \<union> {x. \<exists>i \<in> set vs - elems_of (s0 @ sh).
        shifted_to (elems_of (xs0 @ old)) (unshifted (elems_of (s0 @ sh)) i) x}"
  using assms
proof (induction vs arbitrary: xs0 old s0 sh b)
  case Nil
  then show ?case by (auto simp: ranges_ok_append intro: ranges_ascending)
next
  case (Cons i vs)
  let ?S = "elems_of (s0 @ sh)" and ?E = "elems_of (xs0 @ old)"
  have le: "(if as = [] then last_end s0 else snd (last as)) = last_end (s0 @ as)" for as
    by (simp add: last_end_def)
  obtain as bs where sk: "sh = as @ bs"
    "skip_shifts sh i (sum_list (map rlen s0)) (last_end s0) =
       (bs, sum_list (map rlen (s0 @ as)), last_end (s0 @ as))"
    "\<forall>s \<in> set as. fst s \<le> i" "bs \<noteq> [] \<longrightarrow> i < fst (hd bs)"
    using skip_shifts_split[of sh i "sum_list (map rlen s0)" "last_end s0"]
    unfolding le by auto
  have okS: "ranges_ok ((s0 @ as) @ bs)" and S: "?S = elems_of ((s0 @ as) @ bs)"
    using Cons.prems(2) sk(1) by simp_all
  have fs: "\<forall>s \<in> set (s0 @ as). fst s \<le> i" using sk(3) Cons.prems(4) by auto
  have fs': "\<forall>s \<in> set (s0 @ as). \<forall>j \<in> set vs. fst s \<le> j"
    using fs Cons.prems(3) by fastforce
  note mem = last_end_member[OF okS fs sk(4), folded S]
  have vs: "sorted_wrt (<) vs" "\<forall>j \<in> set vs. i < j" using Cons.prems(3) by auto
  show ?case
  proof (cases "i < last_end (s0 @ as)")
    case True
    with mem have "i \<in> ?S" by simp
    with Cons.IH[OF Cons.prems(1) okS vs(1) fs', folded S, of b] Cons.prems(5) True sk(2)
    show ?thesis by (auto simp: insert_Diff_if)
  next
    case False
    let ?t = "unshifted ?S i"
    have i: "i \<notin> ?S" and t: "i - sum_list (map rlen (s0 @ as)) = ?t" using mem False by auto
    have ok: "ranges_ok old" using Cons.prems(1) by (simp add: ranges_ok_append)
    obtain xs ys ps where c: "old = xs @ ys"
      "copy_old old ?t (sum_list (map rlen xs0)) b =
         (ys, sum_list (map rlen (xs0 @ xs)), fold builder_push_back ps b)"
      "ascending ps" "elems_of ps = elems_of xs"
      "\<forall>r \<in> set xs. snd r \<le> ?t + sum_list (map rlen (xs0 @ xs))"
      "ys \<noteq> [] \<longrightarrow> ?t + sum_list (map rlen (xs0 @ xs)) < fst (hd ys)"
      using copy_old_split[OF ok, of ?t "sum_list (map rlen xs0)" b] by auto
    let ?x = "?t + sum_list (map rlen (xs0 @ xs))"
    have E: "?E = elems_of ((xs0 @ xs) @ ys)" and okE: "ranges_ok ((xs0 @ xs) @ ys)"
      using Cons.prems(1) c(1) by simp_all
    have ys: "\<forall>r \<in> set ys. ?x < fst r"
      using ranges_ok_hd_gap[of ys ?x] okE c(6) by (simp add: ranges_ok_append)
    have xs: "\<forall>r \<in> set (xs0 @ xs). snd r \<le> ?x" using c(5) Cons.prems(5) by fastforce
    have sx: "shifted_to ?E ?t ?x" unfolding E by (rule shifted_to_split[OF okE xs ys])
    have later: "?t < unshifted ?S j" if "j \<in> set vs" for j
      using that vs(2) i by (intro unshifted_less) auto
    have "\<forall>r \<in> set (xs0 @ xs). \<forall>j \<in> set vs. snd r \<le> unshifted ?S j + sum_list (map rlen (xs0 @ xs))"
      using xs later by fastforce
    with Cons.IH[OF okE okS vs(1) fs', folded S E,
        of "builder_push_index ?x (fold builder_push_back ps b)"]
    obtain qs where q: "add_shifted_loop vs ys bs (last_end (s0 @ as)) (sum_list (map rlen (xs0 @ xs)))
        (sum_list (map rlen (s0 @ as))) (builder_push_index ?x (fold builder_push_back ps b)) =
        fold builder_push_back qs (builder_push_index ?x (fold builder_push_back ps b))"
      "ascending qs" "elems_of qs = elems_of ys \<union> {x. \<exists>j \<in> set vs - ?S. shifted_to ?E (unshifted ?S j) x}"
      by blast
    have gt: "?x < y" if "y \<in> elems_of qs" for y
      using that q(3) elems_of_ge[of ys "Suc ?x" y] ys shifted_to_mono[OF sx _ later]
      by (auto simp: Suc_le_eq)
    have lt: "y < ?x" if "y \<in> elems_of ps" for y
      using that c(4) elems_of_less[of xs ?x y] xs by auto
    have "ascending (ps @ (?x, Suc ?x) # qs)"
      using gt lt c(3) q(2) by (intro ascending_appendI)
        (fastforce simp: ascending_Cons dest: ascendingD)+
    moreover have "add_shifted_loop (i # vs) old sh (last_end s0) (sum_list (map rlen xs0))
        (sum_list (map rlen s0)) b = fold builder_push_back (ps @ (?x, Suc ?x) # qs) b"
      using sk(2) False c(2) q(1) t by (simp add: builder_push_index_def)
    moreover have "elems_of (ps @ (?x, Suc ?x) # qs) = elems_of old \<union>
        {x. \<exists>j \<in> set (i # vs) - ?S. shifted_to ?E (unshifted ?S j) x}"
      using c(1,4) q(3) sx i by (auto dest: shifted_to_unique)
    ultimately show ?thesis by blast
  qed
qed

text \<open>
  \<open>add_shifted_by\<close>: the positions of \<open>values\<close> outside \<open>shifted_by\<close>, taken
  back over \<open>shifted_by\<close> and then moved over the set itself, join the set.
\<close>

lemma add_shifted_by_correct:
  assumes "crv_inv m" "crv_inv shifted_by" "crv_inv values"
  defines "res \<equiv> is_add_shifted_by m shifted_by values"
  shows "ranges_ok (flat res)"
    "elems res = elems m \<union> shift_image (elems m) (unshift_image (elems shifted_by) (elems values))"
    "length (flat res) \<le> max_size * (length (flat m) div max_size + 1) \<Longrightarrow> crv_inv res"
proof -
  have ok: "ranges_ok ([] @ flat m)" "ranges_ok ([] @ flat shifted_by)" "sorted_wrt (<) (as_indexes values)"
    using assms(1-3) sorted_as_indexes by (auto simp: crv_inv_def)
  obtain ps where ps: "add_shifted_loop (as_indexes values) (flat m) (flat shifted_by) 0 0 0
        (builder_init m) = fold builder_push_back ps (builder_init m)" "ascending ps"
      "elems_of ps = elems m \<union> {x. \<exists>i \<in> elems values - elems shifted_by.
        shifted_to (elems m) (unshifted (elems shifted_by) i) x}"
    using add_shifted_loop_pushes[OF ok, of "builder_init m"]
    by (auto simp: last_end_def set_as_indexes elems_def)
  have im: "shift_image (elems m) (unshift_image (elems shifted_by) (elems values)) =
      {x. \<exists>i \<in> elems values - elems shifted_by.
        shifted_to (elems m) (unshifted (elems shifted_by) i) x}"
    by (auto simp: shift_image_shifted unshift_image_def)
  note b = built_ranges[OF ps(2), of m]
  show "ranges_ok (flat res)"
    "elems res = elems m \<union> shift_image (elems m) (unshift_image (elems shifted_by) (elems values))"
    "length (flat res) \<le> max_size * (length (flat m) div max_size + 1) \<Longrightarrow> crv_inv res"
    using b assms(1) ps(1,3)
    by (auto simp: res_def is_add_shifted_by_def crv_empty_def crv_inv_def im)
qed

end
