(* ===== verification/Index_Set_Interface.thy ===== *)
theory Index_Set_Interface
  imports Index_Set_Bulk
begin

text \<open>
  The contract of \<open>IndexSet\<close> as its clients use it: the locale \<open>position_set\<close> fixes the
  operations and states, for each, the set of positions it leaves and that it keeps the
  invariant. What a client needs of several operations together (a shifted position is taken
  back by \<open>unshift\<close>, making room and erasing cancel, counting through \<open>unshift\<close>)
  is proved from the contract alone. The interpretation \<open>ix\<close> discharges the contract for
  the chunked vectors.
\<close>

subsection \<open>Positions before and after an insertion or deletion\<close>

lemma mem_close_gap: "x \<in> close_gap i E \<longleftrightarrow> (if x < i then x \<in> E else Suc x \<in> E)"
proof -
  have "x \<in> (\<lambda>x. x - 1) ` {y \<in> E. i < y} \<longleftrightarrow> i \<le> x \<and> Suc x \<in> E"
  proof
    assume "i \<le> x \<and> Suc x \<in> E"
    then show "x \<in> (\<lambda>x. x - 1) ` {y \<in> E. i < y}" by (intro image_eqI[of _ _ "Suc x"]) auto
  qed (auto simp: Suc_leI)
  then show ?thesis by (auto simp: close_gap_def)
qed

lemma mem_open_gap: "x \<in> open_gap i n E \<longleftrightarrow> x < i \<and> x \<in> E \<or> i + n \<le> x \<and> x - n \<in> E"
proof -
  have "x \<in> (\<lambda>x. x + n) ` {y \<in> E. i \<le> y} \<longleftrightarrow> i + n \<le> x \<and> x - n \<in> E"
  proof
    assume "i + n \<le> x \<and> x - n \<in> E"
    then show "x \<in> (\<lambda>x. x + n) ` {y \<in> E. i \<le> y}" by (intro image_eqI[of _ _ "x - n"]) auto
  qed auto
  then show ?thesis by (auto simp: open_gap_def)
qed

lemma close_open_gap: "close_gap i (open_gap i 1 E) = E"
  by (rule set_eqI) (simp add: mem_close_gap mem_open_gap not_less)

lemma close_open_gap_with: "close_gap i (open_gap i 1 E \<union> {i ..< i + 1}) = E"
  by (rule set_eqI) (simp add: mem_close_gap mem_open_gap not_less)

lemma open_close_gap: "open_gap i 1 (close_gap i E) = E - {i}"
proof (rule set_eqI)
  fix x
  show "x \<in> open_gap i 1 (close_gap i E) \<longleftrightarrow> x \<in> E - {i}"
    by (cases x) (auto simp: mem_close_gap mem_open_gap)
qed

lemma shift_image_unshift: "shift_image P (unshift_image P E) = E - P"
  by (auto simp: shift_image_def unshift_image_def dest: unshifted_inj)

subsection \<open>The contract\<close>

locale position_set =
  fixes inv :: "'s \<Rightarrow> bool" and elts :: "'s \<Rightarrow> nat set"
    and mem :: "'s \<Rightarrow> nat \<Rightarrow> bool" and add :: "'s \<Rightarrow> nat \<Rightarrow> 's"
    and add_shifted :: "'s \<Rightarrow> nat \<Rightarrow> 's \<times> nat"
    and insert_at :: "'s \<Rightarrow> nat \<Rightarrow> nat \<Rightarrow> 's" and make_room :: "'s \<Rightarrow> nat \<Rightarrow> nat \<Rightarrow> 's"
    and erase_at :: "'s \<Rightarrow> nat \<Rightarrow> 's" and erase_or_unshift :: "'s \<Rightarrow> nat \<Rightarrow> 's \<times> nat"
    and remove :: "'s \<Rightarrow> nat \<Rightarrow> nat \<Rightarrow> 's"
    and shift :: "'s \<Rightarrow> nat \<Rightarrow> nat" and unshift :: "'s \<Rightarrow> nat \<Rightarrow> nat"
  assumes fin: "finite (elts s)"
    and mem: "inv s \<Longrightarrow> mem s x \<longleftrightarrow> x \<in> elts s"
    and add: "inv s \<Longrightarrow> inv (add s x) \<and> elts (add s x) = insert x (elts s)"
    and add_shifted: "inv s \<Longrightarrow> add_shifted s i = (s', x) \<Longrightarrow>
      inv s' \<and> shifted_to (elts s) i x \<and> elts s' = insert x (elts s)"
    and insert_at: "inv s \<Longrightarrow>
      inv (insert_at s i n) \<and> elts (insert_at s i n) = open_gap i n (elts s) \<union> {i ..< i + n}"
    and make_room: "inv s \<Longrightarrow> 0 < n \<Longrightarrow>
      inv (make_room s i n) \<and> elts (make_room s i n) = open_gap i n (elts s)"
    and erase_at: "inv s \<Longrightarrow> inv (erase_at s i) \<and> elts (erase_at s i) = close_gap i (elts s)"
    and erase_or_unshift: "inv s \<Longrightarrow> erase_or_unshift s i = (s', u) \<Longrightarrow>
      inv s' \<and> elts s' = close_gap i (elts s) \<and>
      u = (if i \<in> elts s then npos else unshifted (elts s) i)"
    and remove: "inv s \<Longrightarrow> 0 < n \<Longrightarrow>
      inv (remove s i n) \<and> elts (remove s i n) = elts s - {i ..< i + n}"
    and shift: "inv s \<Longrightarrow> shifted_to (elts s) i (shift s i)"
    and unshift: "inv s \<Longrightarrow> unshift s i = unshifted (elts s) i"
begin

lemma mem_add: "inv s \<Longrightarrow> mem (add s x) y \<longleftrightarrow> y = x \<or> mem s y"
  by (simp add: add mem)

lemma unshift_shift: "inv s \<Longrightarrow> \<not> mem s (shift s i) \<and> unshift s (shift s i) = i"
  using shift[of s i] by (simp add: mem unshift shifted_to_def)

lemma shift_unshift: "inv s \<Longrightarrow> \<not> mem s x \<Longrightarrow> shift s (unshift s x) = x"
  using shift[of s "unshift s x"] by (auto simp: mem unshift shifted_to_def dest: unshifted_inj)

lemma shift_strict_mono: "inv s \<Longrightarrow> i < j \<Longrightarrow> shift s i < shift s j"
  using shift shifted_to_mono by blast

lemma add_shifted_is_shift: "inv s \<Longrightarrow> snd (add_shifted s i) = shift s i"
  using add_shifted[of s i "fst (add_shifted s i)" "snd (add_shifted s i)"] shift[of s i]
  by (auto dest: shifted_to_unique)

lemma erase_room: "inv s \<Longrightarrow> elts (erase_at (make_room s i 1) i) = elts s"
  by (simp add: make_room erase_at close_open_gap[simplified])

lemma erase_inserted: "inv s \<Longrightarrow> elts (erase_at (insert_at s i 1) i) = elts s"
  using close_open_gap_with[of i "elts s"] by (simp add: insert_at erase_at)

lemma room_erased: "inv s \<Longrightarrow> elts (make_room (erase_at s i) i 1) = elts (remove s i 1)"
  using open_close_gap[of i "elts s"] by (simp add: make_room erase_at remove)

lemma erase_or_unshift_is_erase:
  "inv s \<Longrightarrow> elts (fst (erase_or_unshift s i)) = elts (erase_at s i)"
  using erase_or_unshift[of s i "fst (erase_or_unshift s i)" "snd (erase_or_unshift s i)"]
  by (simp add: erase_at)

end

interpretation ix: position_set crv_inv elems is_contains is_add is_add_shifted is_insert_at
  is_shift_for_insert_at is_erase_at is_erase_or_unshift is_remove is_shift is_unshift
proof (unfold_locales, goal_cases)
  case (4 s i s' x) then show ?case using add_shifted_correct by blast
next
  case (8 s i s' u) then show ?case using erase_or_unshift_correct by blast
qed (simp_all add: contains_correct add_correct insert_at_correct shift_for_insert_at_correct
  erase_at_correct remove_correct shift_correct unshift_correct)

end
