(* ===== verification/Index_Set_Props.thy ===== *)
theory Index_Set_Props
  imports Index_Set_Interface
begin

text \<open>
  The properties of \<open>IndexSet\<close>: each operation implements its specification on sets of
  positions and keeps what \<open>verify()\<close> checks, with the two places where the cached counts
  go wrong.
\<close>

lemma of_list_inv [simp]: "crv_inv (is_of_list xs)" "elems (is_of_list xs) = set xs"
  using of_list_correct by auto

text \<open>
  C3. \<open>IndexSet::add\<close> keeps every check of \<open>verify()\<close>, and \<open>contains\<close> then
  answers yes for the added position and as before for every other one.
\<close>

theorem add_then_contains:
  assumes "crv_inv m"
  shows "crv_inv (is_add m x) \<and> verify (is_add m x) \<and>
    (is_contains (is_add m x) y \<longleftrightarrow> y = x \<or> is_contains m y)"
  using assms by (simp add: ix.mem_add add_correct crv_inv_verify)

theorem add_then_contains_witness:
  "is_contains (is_add (is_of_list [3, 5]) 4) 4 \<and> verify (is_add (is_of_list [3, 5]) 4)"
  using add_then_contains[of "is_of_list [3, 5]" 4 4] by simp

text \<open>
  C34. \<open>shift\<close> returns a position outside the set and \<open>unshift\<close> takes it back;
  conversely \<open>shift\<close> takes an unshifted position outside the set back to itself.
\<close>

theorem shift_unshift_roundtrip:
  assumes "crv_inv m"
  shows "\<not> is_contains m (is_shift m i) \<and> is_unshift m (is_shift m i) = i \<and>
    (\<not> is_contains m x \<longrightarrow> is_shift m (is_unshift m x) = x)"
  using assms by (simp add: ix.unshift_shift ix.shift_unshift)

theorem shift_unshift_roundtrip_witness:
  "is_unshift (is_of_list [0, 1, 4]) (is_shift (is_of_list [0, 1, 4]) 2) = 2 \<and>
   is_shift (is_of_list [0, 1, 4]) (is_unshift (is_of_list [0, 1, 4]) 3) = 3"
  using shift_unshift_roundtrip[of "is_of_list [0, 1, 4]" 2 3]
  by (simp add: contains_correct)

text \<open>
  \<open>count\<close> from position 0 is the number of positions of the set before the end index, and
  between two indices it is the number of positions in that interval, unless the first range of a
  chunk other than the first straddles the end index.
\<close>

lemma count_positions:
  assumes "crv_inv m"
  shows "is_count m 0 e = card {y \<in> elems m. y < e} \<and>
    (s \<le> e \<and> \<not> straddles_chunk_start m e \<longrightarrow>
       is_count m s e = card {y \<in> elems m. s \<le> y \<and> y < e})"
  using count_from_zero[OF assms] count_between[OF assms, of s e] below_add[of s e "elems m"]
  by (simp add: below_def)

theorem count_positions_witness:
  "is_count (is_of_list [1, 2, 7]) 2 8 = card {y \<in> {1, 2, 7}. 2 \<le> y \<and> y < (8 :: nat)}"
proof -
  have "\<not> straddles_chunk_start (is_of_list [1, 2, 7]) 8" by code_simp
  with count_positions[of "is_of_list [1, 2, 7]" 8 2] show ?thesis by simp
qed

text \<open>
  The exception of the previous property is real: with one range per chunk, six of the positions 10, 11 and
  20 to 29 lie between 11 and 25, but \<open>count\<close> returns 1, because the part of the range
  that begins the second chunk is not added.
\<close>

lemma count_misses_straddling_range:
  "let m = [\<lparr>data = [(10, 12)], chunk_begin = 10, chunk_end = 12, chunk_count = 2\<rparr>,
            \<lparr>data = [(20, 30)], chunk_begin = 20, chunk_end = 30, chunk_count = 10\<rparr>]
   in crv_inv m \<and> is_count m 11 25 = 1 \<and> card {y \<in> elems m. 11 \<le> y \<and> y < 25} = 6"
proof -
  let ?m = "[\<lparr>data = [(10, 12)], chunk_begin = 10, chunk_end = 12, chunk_count = 2\<rparr>,
             \<lparr>data = [(20, 30)], chunk_begin = 20, chunk_end = 30, chunk_count = 10\<rparr>]"
  have "crv_inv ?m"
    by (simp add: crv_inv_def chunk_ok_def ranges_ok_Cons max_size_def)
  moreover have "is_count ?m 11 25 = 1" by code_simp
  moreover have "{y \<in> elems ?m. 11 \<le> y \<and> y < 25} = {11} \<union> {20 ..< 25}"
    by (auto simp: elems_def)
  ultimately show ?thesis by simp
qed

text \<open>
  \<open>insert_at\<close> opens a gap of \<open>n\<close> positions at the index, moves everything at or
  behind it up and adds the gap's positions; \<open>shift_for_insert_at\<close> does the same without
  adding them.
\<close>

lemma insert_at_opens_gap:
  assumes "crv_inv m" "0 < n"
  shows "crv_inv (is_insert_at m i n) \<and> crv_inv (is_shift_for_insert_at m i n) \<and>
    elems (is_insert_at m i n) = elems (is_shift_for_insert_at m i n) \<union> {i ..< i + n} \<and>
    (x \<in> elems (is_shift_for_insert_at m i n) \<longleftrightarrow>
       (if x < i then x \<in> elems m else i + n \<le> x \<and> x - n \<in> elems m))"
  using ix.insert_at[of m i n] ix.make_room[of m n i] assms by (auto simp: mem_open_gap)

theorem insert_at_opens_gap_witness:
  "elems (is_insert_at (is_of_list [1, 5]) 3 2) =
     elems (is_shift_for_insert_at (is_of_list [1, 5]) 3 2) \<union> {3 ..< 5}"
  using insert_at_opens_gap[of "is_of_list [1, 5]" 2 3] by simp

text \<open>
  C33. \<open>erase_or_unshift\<close> removes the position and closes the gap, and returns \<open>npos\<close>
  when the position was in the set and its unshifted value otherwise; on the set a preceding
  insertion or room of one position is undone exactly.
\<close>

theorem erase_or_unshift_spec:
  assumes "crv_inv m" "is_erase_or_unshift m i = (m', u)"
  shows "crv_inv m' \<and> (x \<in> elems m' \<longleftrightarrow> (if x < i then x \<in> elems m else Suc x \<in> elems m)) \<and>
    u = (if is_contains m i then npos else is_unshift m i) \<and>
    elems (is_erase_at (is_insert_at m i 1) i) = elems m"
  using ix.erase_or_unshift[OF assms] assms(1) ix.erase_inserted[of m i]
  by (simp add: mem_close_gap ix.mem ix.unshift)

theorem erase_or_unshift_spec_witness:
  "crv_inv (fst (is_erase_or_unshift (is_of_list [2, 6]) 2)) \<and>
   snd (is_erase_or_unshift (is_of_list [2, 6]) 2) = npos"
  using erase_or_unshift_spec[of "is_of_list [2, 6]" 2
      "fst (is_erase_or_unshift (is_of_list [2, 6]) 2)" "snd (is_erase_or_unshift (is_of_list [2, 6]) 2)"]
  by (simp add: contains_correct)

text \<open>
  C30. \<open>remove\<close> of a range and of another set take exactly those positions out, without moving
  the others; \<open>add\<close> of another set is the union. All keep the invariant.
\<close>

theorem remove_and_add_sets:
  assumes "crv_inv m" "crv_inv v" "0 < n"
  shows "crv_inv (is_remove m i n) \<and> elems (is_remove m i n) = elems m - {i ..< i + n} \<and>
    crv_inv (is_remove_set m v) \<and> elems (is_remove_set m v) = elems m - elems v \<and>
    crv_inv (is_add_set m v) \<and> elems (is_add_set m v) = elems m \<union> elems v"
  using assms by (simp add: remove_correct remove_set_correct add_set_correct)

theorem remove_and_add_sets_witness:
  "elems (is_remove_set (is_of_list [1, 2, 3]) (is_of_list [2, 9])) = {1, 3} \<and>
   elems (is_remove (is_of_list [1, 2, 3]) 2 5) = {1}"
proof -
  have "{1, 2, 3} - {2, 9} = {1, 3 :: nat}" "{1, 2, 3} - {2 ..< 7} = {1 :: nat}" by auto
  then show ?thesis
    using remove_and_add_sets[of "is_of_list [1, 2, 3]" "is_of_list [2, 9]" 5 2] by simp
qed

text \<open>
  C31. The operations on a whole set of positions: \<open>insert_at\<close> adds the given positions and moves
  the old ones over them, \<open>shift_for_insert_at\<close> only moves them, \<open>erase_at\<close> removes the
  given positions and moves the rest down; erasing and making room again loses only the erased
  positions.
\<close>

theorem bulk_positions:
  assumes "crv_inv m" "crv_inv p"
  shows "crv_inv (is_insert_at_set m p) \<and>
      elems (is_insert_at_set m p) = elems p \<union> elems (is_shift_for_insert_at_set m p) \<and>
    (x \<in> elems (is_shift_for_insert_at_set m p) \<longleftrightarrow>
       \<not> is_contains p x \<and> is_contains m (is_unshift p x)) \<and>
    crv_inv (is_erase_at_set m p) \<and>
      elems (is_erase_at_set m p) = is_unshift p ` (elems m - elems p) \<and>
    elems (is_shift_for_insert_at_set (is_erase_at_set m p) p) = elems m - elems p"
proof -
  have "is_unshift p ` (elems m - elems p) = unshift_image (elems p) (elems m)"
    by (simp add: unshift_image_def ix.unshift[OF assms(2)])
  with assms show ?thesis
    by (simp add: insert_at_set_correct shift_for_insert_at_set_correct
        erase_at_set_correct shift_image_unshift ix.mem ix.unshift) (simp add: shift_image_def)
qed

theorem bulk_positions_witness:
  "elems (is_shift_for_insert_at_set (is_erase_at_set (is_of_list [0, 2, 5]) (is_of_list [2, 3]))
     (is_of_list [2, 3])) = {0, 5}"
  using bulk_positions[of "is_of_list [0, 2, 5]" "is_of_list [2, 3]"] by auto

text \<open>
  C32. \<open>add_shifted_by\<close> adds, for every position of \<open>values\<close> outside \<open>shifted_by\<close>,
  the position that \<open>add_shifted\<close> would add for it, and its ranges stay ordered and apart.
  The cached counts are right when the result fits into the chunks the builder allots.
\<close>

theorem add_shifted_by_spec:
  assumes "crv_inv m" "crv_inv s" "crv_inv v"
  shows "ranges_ok (flat (is_add_shifted_by m s v)) \<and>
    elems (is_add_shifted_by m s v) =
       elems m \<union> (\<lambda>i. is_shift m (is_unshift s i)) ` (elems v - elems s) \<and>
    (length (flat (is_add_shifted_by m s v)) \<le> max_size * (length (flat m) div max_size + 1) \<longrightarrow>
       crv_inv (is_add_shifted_by m s v))"
proof -
  have "is_shift m j = y" if "shifted_to (elems m) j y" for j y
    using shift_correct[OF assms(1)] that by (rule shifted_to_unique)
  then have "shift_image (elems m) (unshift_image (elems s) (elems v)) =
      (\<lambda>i. is_shift m (is_unshift s i)) ` (elems v - elems s)"
    using shift_correct[OF assms(1)]
    by (auto simp: shift_image_shifted unshift_image_def ix.unshift[OF assms(2)] image_iff)
  with add_shifted_by_correct[OF assms] show ?thesis by simp
qed

theorem add_shifted_by_spec_witness:
  "elems (is_add_shifted_by (is_of_list [1]) (is_of_list [0]) (is_of_list [0, 2])) =
     {1} \<union> (\<lambda>i. is_shift (is_of_list [1]) (is_unshift (is_of_list [0]) i)) ` {2}"
  using add_shifted_by_spec[of "is_of_list [1]" "is_of_list [0]" "is_of_list [0, 2]"] by auto

text \<open>
  When the last chunk is full and no further chunk was allotted, the builder's
  \<open>push_back\<close> opens a chunk whose cached count is 1 whatever the length of the range, so
  for a longer range the vector fails \<open>verify()\<close>.
\<close>

lemma builder_miscounts_overflow:
  assumes "length (data c) = max_size" "fst r \<noteq> snd (last (data c))"
  shows "chunk_count (last (builder_finalize (builder_push_back r (ds @ [c], length ds)))) = 1 \<and>
    (snd r - fst r \<noteq> 1 \<longrightarrow>
       \<not> verify (builder_finalize (builder_push_back r (ds @ [c], length ds))))"
proof -
  have "data c \<noteq> []" using assms(1) max_size_pos by (metis list.size(3) less_irrefl)
  then have eq: "builder_finalize (builder_push_back r (ds @ [c], length ds)) =
      ds @ [c\<lparr>chunk_end := snd (last (data c))\<rparr>,
            \<lparr>data = [r], chunk_begin = fst r, chunk_end = snd r, chunk_count = 1\<rparr>]"
    using assms by (simp add: builder_push_back_def builder_finalize_def Let_def butlast_append)
  show ?thesis unfolding eq by (auto simp: verify_def verify_chunk_def rlen_def)
qed

lemma builder_miscounts_overflow_witness:
  "\<not> verify (builder_finalize (builder_push_back (1000, 1010)
      ([\<lparr>data = map (\<lambda>i. (2 * i, 2 * i + 1)) [0 ..< 256], chunk_begin = 0, chunk_end = 511,
         chunk_count = 256\<rparr>], 0)))"
  using builder_miscounts_overflow[of
    "\<lparr>data = map (\<lambda>i. (2 * i, 2 * i + 1)) [0 ..< 256], chunk_begin = 0, chunk_end = 511,
      chunk_count = 256\<rparr>" "(1000, 1010)" "[]"]
  by (simp add: max_size_def last_map)

end
