(* ===== verification/Change_Builder.thy ===== *)
theory Change_Builder
  imports Index_Set_Interface "HOL-Library.AList"
begin

text \<open>
  \<open>CollectionChangeSet\<close> (\<open>collection_notifications.hpp\<close>) and the operations of
  \<open>CollectionChangeBuilder\<close> (\<open>impl/collection_change_builder.cpp\<close>) that record how a
  collection changes while a transaction log is read, and that merge two such records. The
  calculation of a difference from two lists of rows is in \<open>Change_Calculate\<close>.

  \<open>m_move_mapping\<close>, an \<open>unordered_map\<close>, is an association list whose order stands
  for the unspecified iteration order. \<open>std::remove_if\<close> applies its predicate once to each
  element in order, so a predicate with side effects is a recursion that threads the state.
\<close>

subsection \<open>Change sets\<close>

record move =
  move_from :: nat
  move_to :: nat

record change_set =
  deletions :: crv
  insertions :: crv
  modifications :: crv
  modifications_new :: crv
  moves :: "move list"
  columns :: "crv list"

record change_builder = change_set +
  m_move_mapping :: "(nat \<times> nat) list"
  m_track_columns :: bool

definition cs_empty :: "'a change_set_scheme \<Rightarrow> bool" where
  "cs_empty c \<longleftrightarrow> crv_empty (deletions c) \<and> crv_empty (insertions c) \<and>
     crv_empty (modifications c) \<and> crv_empty (modifications_new c) \<and> moves c = []"

definition make_builder :: "crv \<Rightarrow> crv \<Rightarrow> crv \<Rightarrow> move list \<Rightarrow> change_builder" where
  "make_builder dels inss mods mvs =
     \<lparr>deletions = fold (\<lambda>m d. is_add d (move_from m)) mvs dels,
      insertions = fold (\<lambda>m i. is_add i (move_to m)) mvs inss,
      modifications = mods, modifications_new = [], moves = mvs, columns = [],
      m_move_mapping = [], m_track_columns = True\<rparr>"

text \<open>\<open>std::vector::resize\<close> and \<open>std::rotate\<close>, and assignment and erasure by key.\<close>

definition resize :: "nat \<Rightarrow> crv list \<Rightarrow> crv list" where
  "resize n cols = take n cols @ replicate (n - length cols) []"

definition rotate_range :: "nat \<Rightarrow> nat \<Rightarrow> nat \<Rightarrow> 'a list \<Rightarrow> 'a list" where
  "rotate_range first mid stop xs =
     take first xs @ take (stop - mid) (drop mid xs) @ take (mid - first) (drop first xs) @
     drop stop xs"

definition um_insert :: "nat \<times> nat \<Rightarrow> (nat \<times> nat) list \<Rightarrow> (nat \<times> nat) list" where
  "um_insert kv m = (if map_of m (fst kv) = None then m @ [kv] else m)"

subsection \<open>Merging\<close>

text \<open>The lambda \<open>for_each_col\<close> of \<open>merge\<close>: both column vectors get the same length.\<close>

definition for_each_col2 ::
  "(crv \<Rightarrow> crv \<Rightarrow> crv \<times> crv) \<Rightarrow> change_builder \<Rightarrow> change_builder \<Rightarrow> change_builder \<times> change_builder"
where
  "for_each_col2 f t c =
     (let (m1, m2) = f (modifications t) (modifications c);
          t = t\<lparr>modifications := m1\<rparr>; c = c\<lparr>modifications := m2\<rparr>
      in if m_track_columns t then
           let n = max (length (columns t)) (length (columns c));
               ps = map2 f (resize n (columns t)) (resize n (columns c))
           in (t\<lparr>columns := map fst ps\<rparr>, c\<lparr>columns := map snd ps\<rparr>)
         else (t, c))"

definition carry_modified :: "nat \<Rightarrow> nat \<Rightarrow> crv \<Rightarrow> crv \<Rightarrow> crv \<times> crv" where
  "carry_modified from to col other =
     (col, if is_contains col from then is_add other to else other)"

fun update_old_moves ::
  "move list \<Rightarrow> change_builder \<Rightarrow> change_builder \<Rightarrow> move list \<times> change_builder \<times> change_builder" where
  "update_old_moves [] t c = ([], t, c)"
| "update_old_moves (old # rest) t c =
     (let k = find_if (\<lambda>m. move_to old = move_from m) (moves c) in
      if k \<noteq> length (moves c) then
        let it = moves c ! k;
            (t, c) = for_each_col2 (carry_modified (move_from it) (move_to it)) t c;
            c = c\<lparr>moves := butlast ((moves c)[k := last (moves c)])\<rparr>;
            (ms, t, c) = update_old_moves rest t c
        in (old\<lparr>move_to := move_to it\<rparr> # ms, t, c)
      else if is_contains (deletions c) (move_to old) then update_old_moves rest t c
      else
        let to' = is_shift (insertions c) (is_unshift (deletions c) (move_to old));
            (ms, t, c) = update_old_moves rest t c
        in (old\<lparr>move_to := to'\<rparr> # ms, t, c))"

fun carry_new_moves :: "move list \<Rightarrow> change_builder \<Rightarrow> change_builder \<Rightarrow> change_builder \<times> change_builder"
where
  "carry_new_moves [] t c = (t, c)"
| "carry_new_moves (m # ms) t c =
     (let (t, c) = for_each_col2 (carry_modified (move_from m) (move_to m)) t c
      in carry_new_moves ms t c)"

fun drop_stale :: "move list \<Rightarrow> crv \<Rightarrow> crv \<Rightarrow> move list \<times> crv \<times> crv" where
  "drop_stale [] dels inss = ([], dels, inss)"
| "drop_stale (m # ms) dels inss =
     (if move_from m - is_count dels 0 (move_from m) \<noteq> move_to m - is_count inss 0 (move_to m)
      then (let (ms', dels, inss) = drop_stale ms dels inss in (m # ms', dels, inss))
      else drop_stale ms (is_remove dels (move_from m) 1) (is_remove inss (move_to m) 1))"

definition clean_up_stale_moves :: "change_builder \<Rightarrow> change_builder" where
  "clean_up_stale_moves t =
     (let (ms, dels, inss) = drop_stale (moves t) (deletions t) (insertions t) in
      t\<lparr>moves := ms, deletions := dels, insertions := inss\<rparr>)"

text \<open>The steps of \<open>merge\<close> on the moves, each with its guard.\<close>

definition merge_old :: "change_builder \<Rightarrow> change_builder \<Rightarrow> change_builder \<times> change_builder" where
  "merge_old t c =
     (if moves c \<noteq> [] \<or> \<not> crv_empty (deletions c) \<or> \<not> crv_empty (insertions c)
      then (let (ms, t, c) = update_old_moves (moves t) t c in (t\<lparr>moves := ms\<rparr>, c))
      else (t, c))"

definition drop_moves_of_inserted :: "change_builder \<Rightarrow> change_builder \<Rightarrow> change_builder" where
  "drop_moves_of_inserted t c =
     (if \<not> crv_empty (insertions t) \<and> moves c \<noteq> []
      then c\<lparr>moves := filter (\<lambda>m. \<not> is_contains (insertions t) (move_from m)) (moves c)\<rparr> else c)"

definition keep_moved_modified ::
  "change_builder \<Rightarrow> change_builder \<Rightarrow> change_builder \<times> change_builder" where
  "keep_moved_modified t c =
     (if \<not> crv_empty (modifications t) \<and> moves c \<noteq> []
      then carry_new_moves (moves c) t c else (t, c))"

definition unshift_new_moves :: "change_builder \<Rightarrow> change_builder \<Rightarrow> change_builder" where
  "unshift_new_moves t c =
     (if \<not> crv_empty (deletions t) \<or> \<not> crv_empty (insertions t)
      then c\<lparr>moves := map (\<lambda>m. m\<lparr>move_from :=
              is_shift (deletions t) (is_unshift (insertions t) (move_from m))\<rparr>) (moves c)\<rparr>
      else c)"

definition merge_moves :: "change_builder \<Rightarrow> change_builder \<Rightarrow> change_builder \<times> change_builder" where
  "merge_moves t c =
     (let (t, c) = merge_old t c;
          c = drop_moves_of_inserted t c;
          (t, c) = keep_moved_modified t c;
          c = unshift_new_moves t c
      in (t\<lparr>moves := moves t @ moves c\<rparr>, c))"

definition cb_merge :: "change_builder \<Rightarrow> change_builder \<Rightarrow> change_builder" where
  "cb_merge t c =
     (if cs_empty c then t
      else if cs_empty t then c
      else
        let (t, c) = merge_moves t c;
            t = t\<lparr>deletions := is_add_shifted_by (deletions t) (insertions t) (deletions c)\<rparr>;
            t = t\<lparr>insertions :=
                   is_insert_at_set (is_erase_at_set (insertions t) (deletions c)) (insertions c)\<rparr>;
            t = clean_up_stale_moves t;
            (t, c) = for_each_col2 (\<lambda>col other.
               (is_add_set (is_shift_for_insert_at_set (is_erase_at_set col (deletions c))
                  (insertions c)) other, other)) t c
        in t)"

subsection \<open>Recording single changes\<close>

definition parse_complete :: "change_builder \<Rightarrow> change_builder" where
  "parse_complete t =
     (let t = fold (\<lambda>kv t.
          if fst kv = snd kv
          then t\<lparr>deletions := is_remove (deletions t) (snd kv) 1,
                 insertions := is_remove (insertions t) (fst kv) 1\<rparr>
          else t\<lparr>moves := moves t @ [\<lparr>move_from = snd kv, move_to = fst kv\<rparr>]\<rparr>)
        (m_move_mapping t) t
      in t\<lparr>m_move_mapping := [], moves := sort_key move_from (moves t)\<rparr>)"

definition cb_modify :: "nat \<Rightarrow> nat \<Rightarrow> change_builder \<Rightarrow> change_builder" where
  "cb_modify ndx col t =
     (let t = t\<lparr>modifications := is_add (modifications t) ndx\<rparr> in
      if \<not> m_track_columns t \<or> col = npos then t
      else
        let cols = (if length (columns t) \<le> col then resize (col + 1) (columns t) else columns t)
        in t\<lparr>columns := cols[col := is_add (cols ! col) ndx]\<rparr>)"

definition for_each_col :: "(crv \<Rightarrow> crv) \<Rightarrow> change_builder \<Rightarrow> change_builder" where
  "for_each_col f t =
     (let t = t\<lparr>modifications := f (modifications t)\<rparr> in
      if m_track_columns t then t\<lparr>columns := map f (columns t)\<rparr> else t)"

definition shift_mapping :: "nat \<Rightarrow> nat \<Rightarrow> (nat \<times> nat) list \<Rightarrow> (nat \<times> nat) list" where
  "shift_mapping index count mapping =
     (let shifted = map (\<lambda>kv. (fst kv + count, snd kv)) (filter (\<lambda>kv. index \<le> fst kv) mapping)
      in fold um_insert shifted (filter (\<lambda>kv. \<not> index \<le> fst kv) mapping))"

definition cb_insert :: "nat \<Rightarrow> nat \<Rightarrow> bool \<Rightarrow> change_builder \<Rightarrow> change_builder" where
  "cb_insert index count track_moves t =
     (let t = for_each_col (\<lambda>col. is_shift_for_insert_at col index count) t in
      if \<not> track_moves then t
      else
        let t = t\<lparr>insertions := is_insert_at (insertions t) index count,
                  moves := map (\<lambda>m. if index \<le> move_to m then m\<lparr>move_to := move_to m + count\<rparr>
                                     else m) (moves t)\<rparr>
        in if m_move_mapping t = [] then t
           else t\<lparr>m_move_mapping := shift_mapping index count (m_move_mapping t)\<rparr>)"

definition erase_moves :: "nat \<Rightarrow> move list \<Rightarrow> move list" where
  "erase_moves index ms =
     map (\<lambda>m. if index < move_to m then m\<lparr>move_to := move_to m - 1\<rparr> else m)
       (filter (\<lambda>m. move_to m \<noteq> index) ms)"

definition cb_erase :: "nat \<Rightarrow> change_builder \<Rightarrow> change_builder" where
  "cb_erase index t =
     (let t = for_each_col (\<lambda>col. is_erase_at col index) t;
          (inss, unsh) = is_erase_or_unshift (insertions t) index;
          t = t\<lparr>insertions := inss\<rparr>;
          t = (if unsh \<noteq> npos then t\<lparr>deletions := fst (is_add_shifted (deletions t) unsh)\<rparr> else t)
      in t\<lparr>moves := erase_moves index (moves t)\<rparr>)"

definition cb_clear :: "nat \<Rightarrow> change_builder \<Rightarrow> change_builder" where
  "cb_clear old_size t =
     (let old_size =
        (if old_size \<noteq> npos
         then old_size + sum_list (map rlen (flat (deletions t)))
                - sum_list (map rlen (flat (insertions t)))
         else old_size)
      in t\<lparr>modifications := [], insertions := [], moves := [], m_move_mapping := [],
           columns := [], deletions := is_set (deletions t) old_size\<rparr>)"

text \<open>The loop of \<open>move\<close> over the moves recorded so far.\<close>

fun move_loop :: "nat \<Rightarrow> nat \<Rightarrow> move list \<Rightarrow> crv \<Rightarrow> bool \<Rightarrow> move list \<times> crv \<times> bool" where
  "move_loop from to [] inss updated = ([], inss, updated)"
| "move_loop from to (m # ms) inss updated =
     (if move_to m \<noteq> from then
        let m' = (if to \<le> move_to m \<and> move_to m < from then m\<lparr>move_to := move_to m + 1\<rparr>
                  else if move_to m \<le> to \<and> from < move_to m then m\<lparr>move_to := move_to m - 1\<rparr>
                  else m);
            (ms', inss, updated) = move_loop from to ms inss updated
        in (m' # ms', inss, updated)
      else
        let (ms', inss, updated) =
              move_loop from to ms (is_insert_at (is_erase_at inss from) to 1) True
        in (m\<lparr>move_to := to\<rparr> # ms', inss, updated))"

definition move_row :: "nat \<Rightarrow> nat \<Rightarrow> change_builder \<Rightarrow> change_builder" where
  "move_row from to t =
     (let (ms, inss, updated_existing_move) = move_loop from to (moves t) (insertions t) False;
          t = t\<lparr>moves := ms, insertions := inss\<rparr>;
          t = (if \<not> updated_existing_move then
                 let (inss, shifted_from) = is_erase_or_unshift (insertions t) from;
                     t = t\<lparr>insertions := is_insert_at inss to 1\<rparr>
                 in if shifted_from \<noteq> npos then
                      let (dels, shifted_from) = is_add_shifted (deletions t) shifted_from in
                      t\<lparr>deletions := dels,
                        moves := moves t @ [\<lparr>move_from = shifted_from, move_to = to\<rparr>]\<rparr>
                    else t
               else t)
      in for_each_col (\<lambda>col.
           if is_contains col from then is_insert_at (is_erase_at col from) to 1
           else is_shift_for_insert_at (is_erase_at col from) to 1) t)"

subsection \<open>Row operations\<close>

text \<open>The end of the last range of a set, \<open>prev(insertions.end())->second\<close>.\<close>

definition last_range_end :: "crv \<Rightarrow> nat" where
  "last_range_end m = snd (deref m (it_prev m (crv_end m)))"

definition cb_move_over :: "nat \<Rightarrow> nat \<Rightarrow> bool \<Rightarrow> change_builder \<Rightarrow> change_builder" where
  "cb_move_over row_ndx last_row track_moves t =
     (if row_ndx = last_row then
        let t = (if track_moves then
                   let (inss, shifted_from) = is_erase_or_unshift (insertions t) row_ndx;
                       t = t\<lparr>insertions := inss\<rparr>;
                       t = (if shifted_from \<noteq> npos
                            then t\<lparr>deletions := fst (is_add_shifted (deletions t) shifted_from)\<rparr>
                            else t)
                   in t\<lparr>m_move_mapping := AList.delete row_ndx (m_move_mapping t)\<rparr>
                 else t)
        in for_each_col (\<lambda>col. is_remove col row_ndx 1) t
      else
        let t = for_each_col (\<lambda>col.
              if is_contains col last_row then is_add (is_remove col last_row 1) row_ndx
              else is_remove col row_ndx 1) t
        in if \<not> track_moves then t
        else
          let row_is_insertion = is_contains (insertions t) row_ndx;
              last_is_insertion = (\<not> crv_empty (insertions t) \<and>
                last_range_end (insertions t) = last_row + 1);
              (mapping, last_was_already_moved) =
                (if last_is_insertion then
                   case map_of (m_move_mapping t) last_row of
                     Some old \<Rightarrow> (AList.delete last_row (AList.update row_ndx old (m_move_mapping t)), True)
                   | None \<Rightarrow> (m_move_mapping t, False)
                 else (m_move_mapping t, False));
              mapping = (if row_is_insertion \<and> \<not> last_was_already_moved
                         then AList.delete row_ndx mapping else mapping);
              t = t\<lparr>m_move_mapping := mapping\<rparr>;
              t = (if last_is_insertion
                   then t\<lparr>insertions := is_remove (insertions t) last_row 1\<rparr>
                   else if \<not> last_was_already_moved then
                     let (dels, shifted) = is_add_shifted (deletions t) (is_unshift (insertions t) last_row)
                     in t\<lparr>deletions := dels,
                          m_move_mapping := AList.update row_ndx shifted (m_move_mapping t)\<rparr>
                   else t)
          in if \<not> row_is_insertion
             then t\<lparr>deletions := fst (is_add_shifted (deletions t) (is_unshift (insertions t) row_ndx)),
                    insertions := is_add (insertions t) row_ndx\<rparr>
             else t)"

text \<open>\<open>swap\<close>: the lambda \<open>update_move\<close>, then the four cases.\<close>

definition move_source :: "nat \<Rightarrow> nat \<Rightarrow> change_builder \<Rightarrow> change_builder" where
  "move_source ndx key t =
     (if \<not> is_contains (insertions t) ndx then
        let (dels, shifted) = is_add_shifted (deletions t) (is_unshift (insertions t) ndx)
        in t\<lparr>deletions := dels, m_move_mapping := AList.update key shifted (m_move_mapping t),
             insertions := is_add (insertions t) ndx\<rparr>
      else t)"

definition update_move :: "nat \<Rightarrow> nat \<Rightarrow> nat \<Rightarrow> change_builder \<Rightarrow> change_builder" where
  "update_move original ndx_1 ndx_2 t =
     move_source ndx_1 ndx_2
       (t\<lparr>m_move_mapping := AList.update ndx_1 original (AList.delete ndx_2 (m_move_mapping t))\<rparr>)"

definition swap_modified :: "nat \<Rightarrow> nat \<Rightarrow> crv \<Rightarrow> crv" where
  "swap_modified ndx_1 ndx_2 col =
     (let row_1_modified = is_contains col ndx_1; row_2_modified = is_contains col ndx_2 in
      if row_1_modified \<noteq> row_2_modified then
        if row_1_modified then is_add (is_remove col ndx_1 1) ndx_2
        else is_add (is_remove col ndx_2 1) ndx_1
      else col)"

definition cb_swap :: "nat \<Rightarrow> nat \<Rightarrow> bool \<Rightarrow> change_builder \<Rightarrow> change_builder" where
  "cb_swap ndx_1 ndx_2 track_moves t =
     (let (ndx_1, ndx_2) = (if ndx_2 < ndx_1 then (ndx_2, ndx_1) else (ndx_1, ndx_2));
          t = for_each_col (swap_modified ndx_1 ndx_2) t
      in if \<not> track_moves then t
         else case (map_of (m_move_mapping t) ndx_1, map_of (m_move_mapping t) ndx_2) of
           (Some old_1, Some old_2) \<Rightarrow>
             t\<lparr>m_move_mapping := AList.update ndx_1 old_2 (AList.update ndx_2 old_1 (m_move_mapping t))\<rparr>
         | (Some old_1, None) \<Rightarrow> update_move old_1 ndx_2 ndx_1 t
         | (None, Some old_2) \<Rightarrow> update_move old_2 ndx_1 ndx_2 t
         | (None, None) \<Rightarrow> move_source ndx_1 ndx_2 (move_source ndx_2 ndx_1 t))"

definition cb_subsume :: "nat \<Rightarrow> nat \<Rightarrow> bool \<Rightarrow> change_builder \<Rightarrow> change_builder" where
  "cb_subsume old_ndx new_ndx track_moves t =
     (let t = for_each_col (\<lambda>col. if is_contains col old_ndx then is_add col new_ndx else col) t in
      if \<not> track_moves then t
      else case map_of (m_move_mapping t) old_ndx of
        Some old \<Rightarrow>
          t\<lparr>m_move_mapping := AList.delete old_ndx (AList.update new_ndx old (m_move_mapping t))\<rparr>
      | None \<Rightarrow>
          if \<not> is_contains (insertions t) old_ndx
          then t\<lparr>m_move_mapping := AList.update new_ndx
                   (is_shift (deletions t) (is_unshift (insertions t) old_ndx)) (m_move_mapping t)\<rparr>
          else t)"

subsection \<open>Columns and the final change set\<close>

definition insert_column :: "nat \<Rightarrow> change_builder \<Rightarrow> change_builder" where
  "insert_column ndx t =
     (if ndx < length (columns t)
      then t\<lparr>columns := take ndx (columns t) @ [[]] @ drop ndx (columns t)\<rparr> else t)"

definition move_column :: "nat \<Rightarrow> nat \<Rightarrow> change_builder \<Rightarrow> change_builder" where
  "move_column from to t =
     (if length (columns t) \<le> from \<and> length (columns t) \<le> to then t
      else
        let cols = (if length (columns t) \<le> from \<or> length (columns t) \<le> to
                    then resize (max from to + 1) (columns t) else columns t)
        in t\<lparr>columns := (if from < to then rotate_range from (from + 1) (to + 1) cols
                         else rotate_range to from (from + 1) cols)\<rparr>)"

definition finalize :: "change_builder \<Rightarrow> change_set" where
  "finalize t =
     (let modifications_in_old =
        is_shift_for_insert_at_set (is_erase_at_set (modifications t) (insertions t)) (deletions t)
      in \<lparr>deletions = deletions t, insertions = insertions t,
          modifications = modifications_in_old,
          modifications_new = is_remove_set (modifications t) (insertions t),
          moves = moves t, columns = columns t\<rparr>)"

text \<open>The assertions of \<open>verify()\<close> in a debug build.\<close>

definition cb_verify :: "change_builder \<Rightarrow> bool" where
  "cb_verify t \<longleftrightarrow> list_all (\<lambda>m. is_contains (deletions t) (move_from m) \<and>
     is_contains (insertions t) (move_to m)) (moves t)"

end
