(* ===== verification/List_Edit.thy ===== *)
theory List_Edit
  imports Index_Set_Interface
begin

text \<open>
  Lists seen through sets of positions: \<open>keep A D\<close> is the list without the positions in
  \<open>D\<close>. A change from \<open>A\<close> to \<open>B\<close> deletes positions \<open>D\<close> of \<open>A\<close> and
  inserts positions \<open>I\<close> of \<open>B\<close> when \<open>keep A D = keep B I\<close>. The lemmas state how
  such views compose, in terms of \<open>shift_image\<close> and \<open>unshift_image\<close>, the sets that
  \<open>IndexSet\<close> computes.
\<close>

definition keep :: "'a list \<Rightarrow> nat set \<Rightarrow> 'a list" where
  "keep A D = nths A (- D)"

lemma keep_empty [simp]: "keep A {} = A"
  by (simp add: keep_def nths_all)

lemma keep_Nil [simp]: "keep [] D = []"
  by (simp add: keep_def)

lemma card_kept: "card {i' \<in> - D. i' < i} = unshifted D i" for i :: nat
proof -
  have "card {i' \<in> D. i' < i} + card {i' \<in> - D. i' < i} =
      card ({i' \<in> D. i' < i} \<union> {i' \<in> - D. i' < i})"
    by (subst card_Un_disjoint) auto
  also have "{i' \<in> D. i' < i} \<union> {i' \<in> - D. i' < i} = {..< i}" by auto
  finally show ?thesis by (simp add: unshifted_def below_def)
qed

lemma keep_keep: "keep (keep A D) U = keep A (D \<union> shift_image D U)"
proof -
  have "{i \<in> - D. \<exists>j \<in> - U. card {i' \<in> - D. i' < i} = j} = - (D \<union> shift_image D U)"
    by (auto simp: card_kept[simplified] shift_image_def)
  then show ?thesis by (simp add: keep_def nths_nths)
qed

lemma keep_unshift: "keep (keep A D) (unshift_image D E) = keep A (D \<union> E)"
  by (simp add: keep_keep shift_image_unshift)

lemma length_keep: "length (keep A D) = unshifted D (length A)"
  using card_kept[of D "length A"] by (simp add: keep_def length_nths conj_commute)

lemma unshifted_lt_length:
  assumes "x \<notin> D"
  shows "unshifted D x < length (keep A D) \<longleftrightarrow> x < length A"
proof
  assume "x < length A"
  then show "unshifted D x < length (keep A D)" using assms by (simp add: length_keep unshifted_less)
next
  assume *: "unshifted D x < length (keep A D)"
  show "x < length A"
  proof (rule ccontr)
    assume "\<not> x < length A"
    then have "unshifted D (length A) \<le> unshifted D x" by (intro unshifted_mono) simp
    with * show False by (simp add: length_keep)
  qed
qed

lemma keep_append: "keep (xs @ ys) D = keep xs D @ keep ys {j. j + length xs \<in> D}"
proof -
  have "- {j. j + length xs \<in> D} = {j. j + length xs \<in> - D}" by auto
  then show ?thesis by (simp add: keep_def nths_append)
qed

lemma keep_nth:
  assumes "x \<notin> D" "x < length A"
  shows "keep A D ! unshifted D x = A ! x"
proof -
  have "A = take x A @ [A ! x] @ drop (Suc x) A" using assms(2) by (simp add: id_take_nth_drop)
  then have "keep A D = keep (take x A) D @ keep ([A ! x] @ drop (Suc x) A) {j. j + x \<in> D}"
    using assms(2) keep_append[of "take x A" "[A ! x] @ drop (Suc x) A" D] by simp
  moreover have "keep ([A ! x] @ drop (Suc x) A) {j. j + x \<in> D} ! 0 = A ! x"
    using assms(1) by (simp add: keep_def nths_Cons)
  moreover have "length (keep (take x A) D) = unshifted D x" using assms(2) by (simp add: length_keep)
  ultimately show ?thesis by (simp add: nth_append)
qed

lemma kept_nth_eq:
  assumes "keep A D = keep B I" "x \<notin> D" "y \<notin> I" "unshifted D x = unshifted I y" "x < length A"
  shows "y < length B" "A ! x = B ! y"
proof -
  show y: "y < length B"
    using assms unshifted_lt_length[of x D A] unshifted_lt_length[of y I B] by simp
  show "A ! x = B ! y" using keep_nth[OF assms(2,5)] keep_nth[OF assms(3) y] assms(1,4) by simp
qed

subsection \<open>One position\<close>

lemma shift_image_single: "x \<notin> D \<Longrightarrow> shift_image D {unshifted D x} = {x}"
  by (auto simp: shift_image_def dest: unshifted_inj)

lemma keep_insert: "x \<notin> D \<Longrightarrow> keep A (insert x D) = keep (keep A D) {unshifted D x}"
  by (simp add: keep_keep shift_image_single)

lemma unshifted_single: "unshifted {i} y = (if i < y then y - 1 else y)"
proof -
  have "{x \<in> {i}. x < y} = (if i < y then {i} else {})" by auto
  then show ?thesis by (simp add: unshifted_def below_def)
qed

lemma shift_image_close: "shift_image {i} (close_gap i I) = I - {i}"
  by (rule set_eqI) (auto simp: shift_image_def mem_close_gap unshifted_single split: if_splits)

lemma keep_erase: "keep (keep B {i}) (close_gap i I) = keep B (insert i I)"
  by (simp add: keep_keep shift_image_close)

lemma unshifted_interval: "y \<notin> {i ..< i + n} \<Longrightarrow> unshifted {i ..< i + n} y = (if y < i then y else y - n)"
proof -
  assume "y \<notin> {i ..< i + n}"
  then have "{x \<in> {i ..< i + n}. x < y} = (if y < i then {} else {i ..< i + n})" by auto
  then show ?thesis by (simp add: unshifted_def below_def)
qed

lemma shift_image_open: "shift_image {i ..< i + n} E = open_gap i n E"
proof (rule set_eqI)
  fix y
  show "y \<in> shift_image {i ..< i + n} E \<longleftrightarrow> y \<in> open_gap i n E"
    by (cases "y \<in> {i ..< i + n}") (auto simp: shift_image_def mem_open_gap unshifted_interval)
qed

lemma keep_open: "keep B' (open_gap i n I \<union> {i ..< i + n}) = keep (keep B' {i ..< i + n}) I"
  by (simp add: keep_keep shift_image_open Un_commute)

lemma keep_single: "u < length X \<Longrightarrow> keep X {u} = take u X @ drop (Suc u) X"
proof -
  assume u: "u < length X"
  then have "X = take u X @ [X ! u] @ drop (Suc u) X" by (simp add: id_take_nth_drop)
  then have "keep X {u} = keep (take u X) {u} @ keep ([X ! u] @ drop (Suc u) X) {j. j + u = u}"
    using keep_append[of "take u X" "[X ! u] @ drop (Suc u) X" "{u}"] u by simp
  moreover have "keep (take u X) {u} = take u X"
    using u by (auto simp: keep_def intro: nths_all)
  moreover have "keep (drop (Suc u) X) {j. Suc (j + u) = u} = drop (Suc u) X"
    by (simp add: keep_def nths_all)
  ultimately show ?thesis by (simp add: keep_def nths_Cons nths_all)
qed

lemma keep_single_inj:
  assumes "keep X {u} = keep Y {u}" "X ! u = Y ! u" "u < length X" "u < length Y"
  shows "X = Y"
proof -
  have "take u X @ drop (Suc u) X = take u Y @ drop (Suc u) Y"
    using assms by (simp add: keep_single)
  then have "take u X = take u Y" "drop (Suc u) X = drop (Suc u) Y"
    using assms(3,4) by (simp_all add: append_eq_append_conv)
  then show ?thesis using assms id_take_nth_drop by metis
qed

lemma unshifted_remove: "unshifted (D - {f}) f = unshifted D f"
proof -
  have "{y \<in> D - {f}. y < f} = {y \<in> D. y < f}" by auto
  then show ?thesis by (simp add: unshifted_def below_def)
qed

text \<open>A deleted and an inserted position that hold the same element at the same place cancel.\<close>

lemma keep_cancel:
  assumes "keep A D = keep C I" "f \<in> D" "t \<in> I" "unshifted D f = unshifted I t" "A ! f = C ! t"
    "f < length A" "t < length C"
  shows "keep A (D - {f}) = keep C (I - {t})"
proof -
  let ?u = "unshifted D f"
  have D: "keep (keep A (D - {f})) {?u} = keep A D"
    using keep_insert[of f "D - {f}" A] assms(2) by (simp add: unshifted_remove insert_absorb)
  have I: "keep (keep C (I - {t})) {?u} = keep C I"
    using keep_insert[of t "I - {t}" C] assms(3,4) by (simp add: unshifted_remove insert_absorb)
  have "keep A (D - {f}) ! ?u = A ! f" "?u < length (keep A (D - {f}))"
    using keep_nth[of f "D - {f}" A] unshifted_lt_length[of f "D - {f}" A] assms(6)
    by (simp_all add: unshifted_remove)
  moreover have "keep C (I - {t}) ! ?u = C ! t" "?u < length (keep C (I - {t}))"
    using keep_nth[of t "I - {t}" C] unshifted_lt_length[of t "I - {t}" C] assms(4,7)
    by (simp_all add: unshifted_remove)
  ultimately show ?thesis using D I assms(1,5) by (rule_tac keep_single_inj[of _ ?u]) simp_all
qed

text \<open>An element outside the change has its place in the new list.\<close>

lemma kept_position:
  assumes "keep A D = keep B I" "x \<notin> D" "x < length A" "shifted_to I (unshifted D x) y"
  shows "y < length B" "A ! x = B ! y"
  using kept_nth_eq[OF assms(1,2) _ _ assms(3), of y] assms(4) by (auto simp: shifted_to_def)

subsection \<open>Composition\<close>

lemma keep_compose:
  assumes "keep A D1 = keep B I1" "keep B D2 = keep C I2"
  shows "keep A (D1 \<union> shift_image D1 (unshift_image I1 D2)) =
    keep C (I2 \<union> shift_image I2 (unshift_image D2 I1))"
proof -
  have "keep A (D1 \<union> shift_image D1 (unshift_image I1 D2)) = keep B (I1 \<union> D2)"
    by (simp only: keep_keep[symmetric] keep_unshift assms(1))
  also have "\<dots> = keep C (I2 \<union> shift_image I2 (unshift_image D2 I1))"
    by (simp only: keep_keep[symmetric] keep_unshift assms(2)[symmetric] Un_commute)
  finally show ?thesis .
qed

end
