(* ===== verification/Change_Track.thy ===== *)
theory Change_Track
  imports Change_Builder List_Edit "HOL-Library.Multiset"
begin

text \<open>
  What a change builder records of a list. \<open>tracks A B t\<close> says that \<open>t\<close> describes the
  change from \<open>A\<close> to \<open>B\<close>: without the deleted positions the old list equals the new
  one without the inserted positions, and each recorded move leads from a deleted to an inserted
  position that holds the same element. Every recording operation is shown to keep this relation
  when the same edit is made to the list, and to keep the rows that count as modified.
\<close>

subsection \<open>The relation\<close>

definition links :: "change_builder \<Rightarrow> (nat \<times> nat) list" where
  "links t = map (\<lambda>m. (move_from m, move_to m)) (moves t) @ map prod.swap (m_move_mapping t)"

definition links_ok :: "'a list \<Rightarrow> 'a list \<Rightarrow> nat set \<Rightarrow> nat set \<Rightarrow> (nat \<times> nat) list \<Rightarrow> bool" where
  "links_ok A B D I ls \<longleftrightarrow>
     (\<forall>l \<in> set ls. fst l \<in> D \<and> snd l \<in> I \<and> A ! fst l = B ! snd l) \<and>
     distinct (map fst ls) \<and> distinct (map snd ls)"

definition diff_ok :: "'a list \<Rightarrow> 'a list \<Rightarrow> nat set \<Rightarrow> nat set \<Rightarrow> bool" where
  "diff_ok A B D I \<longleftrightarrow>
     D \<subseteq> {..< length A} \<and> I \<subseteq> {..< length B} \<and> keep A D = keep B I"

definition tracks :: "'a list \<Rightarrow> 'a list \<Rightarrow> change_builder \<Rightarrow> bool" where
  "tracks A B t \<longleftrightarrow> crv_inv (deletions t) \<and> crv_inv (insertions t) \<and>
     diff_ok A B (elems (deletions t)) (elems (insertions t)) \<and>
     links_ok A B (elems (deletions t)) (elems (insertions t)) (links t)"

text \<open>The marks of modified rows, and the rows they stand for.\<close>

definition marks_ok :: "nat \<Rightarrow> change_builder \<Rightarrow> bool" where
  "marks_ok n t \<longleftrightarrow> crv_inv (modifications t) \<and> elems (modifications t) \<subseteq> {..< n}"

definition modified_rows :: "'a list \<Rightarrow> change_builder \<Rightarrow> 'a set" where
  "modified_rows B t = (\<lambda>i. B ! i) ` elems (modifications t)"

lemma for_each_col_simps [simp]:
  "deletions (for_each_col f t) = deletions t" "insertions (for_each_col f t) = insertions t"
  "moves (for_each_col f t) = moves t" "m_move_mapping (for_each_col f t) = m_move_mapping t"
  "m_track_columns (for_each_col f t) = m_track_columns t"
  "modifications (for_each_col f t) = f (modifications t)"
  by (simp_all add: for_each_col_def Let_def)

subsection \<open>Positions and elements\<close>

lemma shifted_to_exists: "finite P \<Longrightarrow> \<exists>y. shifted_to P i y"
  using shift_correct[of "is_of_list (sorted_list_of_set P)"] of_list_correct[of "sorted_list_of_set P"]
  by auto

lemma close_gap_unshift: "close_gap i E = unshift_image {i} E"
proof (rule set_eqI)
  fix y
  have "y \<in> unshift_image {i} E \<longleftrightarrow> (\<exists>x \<in> E. x \<noteq> i \<and> y = (if i < x then x - 1 else x))"
    by (auto simp: unshift_image_def unshifted_single image_iff)
  also have "\<dots> \<longleftrightarrow> (if y < i then y \<in> E else Suc y \<in> E)"
  proof (cases "y < i")
    case False
    then have "(\<exists>x \<in> E. x \<noteq> i \<and> y = (if i < x then x - 1 else x)) \<longleftrightarrow> (\<exists>x \<in> E. x = Suc y)"
      by (intro bex_cong) auto
    with False show ?thesis by auto
  next
    case True
    then have "(\<exists>x \<in> E. x \<noteq> i \<and> y = (if i < x then x - 1 else x)) \<longleftrightarrow> (\<exists>x \<in> E. x = y)"
      by (intro bex_cong) auto
    with True show ?thesis by auto
  qed
  finally show "y \<in> close_gap i E \<longleftrightarrow> y \<in> unshift_image {i} E" by (simp add: mem_close_gap)
qed

lemma shifted_nth:
  assumes "shifted_to P x y" "x < length (keep X P)"
  shows "y < length X" "X ! y = keep X P ! x"
  using assms unshifted_lt_length[of y P X] keep_nth[of y P X] by (auto simp: shifted_to_def)

lemma unshifted_nth:
  assumes "x \<notin> P" "x < length X"
  shows "unshifted P x < length (keep X P)" "keep X P ! unshifted P x = X ! x"
  using assms unshifted_lt_length[of x P X] keep_nth[of x P X] by auto

lemma shift_image_rows:
  assumes "finite P" "E \<subseteq> {..< length (keep X P)}"
  shows "shift_image P E \<subseteq> {..< length X}"
    "(\<lambda>i. X ! i) ` shift_image P E = (\<lambda>i. keep X P ! i) ` E"
proof -
  have *: "y < length X \<and> X ! y = keep X P ! x" if "shifted_to P x y" "x \<in> E" for x y
    using shifted_nth[OF that(1), of X] that(2) assms(2) by auto
  then show "shift_image P E \<subseteq> {..< length X}" by (auto simp: shift_image_shifted)
  show "(\<lambda>i. X ! i) ` shift_image P E = (\<lambda>i. keep X P ! i) ` E"
  proof (intro equalityI subsetI)
    fix r assume "r \<in> (\<lambda>i. keep X P ! i) ` E"
    then obtain x where "x \<in> E" "r = keep X P ! x" by auto
    moreover obtain y where "shifted_to P x y" using shifted_to_exists[OF assms(1)] by blast
    ultimately show "r \<in> (\<lambda>i. X ! i) ` shift_image P E"
      using * by (force simp: shift_image_shifted)
  qed (use * in \<open>auto simp: shift_image_shifted\<close>)
qed

lemma unshift_image_rows:
  assumes "E \<subseteq> {..< length X}"
  shows "unshift_image P E \<subseteq> {..< length (keep X P)}"
    "(\<lambda>i. keep X P ! i) ` unshift_image P E = (\<lambda>i. X ! i) ` (E - P)"
  using assms unshifted_nth[of _ P X]
  by (force simp: unshift_image_def, force simp: unshift_image_def image_image)

subsection \<open>Changing the new list\<close>

text \<open>
  The new list \<open>C\<close> loses positions \<open>P\<close> of \<open>B\<close> that were inserted before, or gains
  positions \<open>P\<close>.
\<close>

lemma diff_ok_gain:
  assumes "diff_ok A B D I" "finite P" "P \<subseteq> {..< length C}" "keep C P = B"
  shows "diff_ok A C D (P \<union> shift_image P I)"
  using assms shift_image_rows(1)[of P I C] by (auto simp: diff_ok_def keep_keep[symmetric])

lemma diff_ok_lose_inserted:
  assumes "diff_ok A B D I" "P \<subseteq> I"
  shows "diff_ok A (keep B P) D (unshift_image P I)"
  using assms unshift_image_rows(1)[of I B P]
  by (auto simp: diff_ok_def keep_unshift Un_absorb1)

lemma diff_ok_lose_kept:
  assumes "diff_ok A B D I" "i \<notin> I" "i < length B" "shifted_to D (unshifted I i) x"
  shows "diff_ok A (keep B {i}) (insert x D) (unshift_image {i} I)" "x < length A" "A ! x = B ! i"
proof -
  have d: "keep A D = keep B I" using assms(1) by (simp add: diff_ok_def)
  have x: "x \<notin> D" "unshifted D x = unshifted I i" using assms(4) by (auto simp: shifted_to_def)
  show b: "x < length A" "A ! x = B ! i"
    using kept_nth_eq[OF d[symmetric] assms(2) x(1) x(2)[symmetric] assms(3)] by simp_all
  have "keep A (insert x D) = keep B (insert i I)"
    using keep_insert[OF x(1), of A] keep_insert[OF assms(2), of B] d x(2) by simp
  also have "\<dots> = keep (keep B {i}) (unshift_image {i} I)" by (simp add: keep_unshift)
  finally show "diff_ok A (keep B {i}) (insert x D) (unshift_image {i} I)"
    using assms(1) b(1) unshift_image_rows(1)[of I B "{i}"] by (auto simp: diff_ok_def)
qed

lemma links_ok_gain:
  assumes "links_ok A B D I ls" "keep C P = B" "I \<subseteq> {..< length B}"
    and sh: "\<And>l. l \<in> set ls \<Longrightarrow> shifted_to P (snd l) (g (snd l))"
  shows "links_ok A C D (P \<union> shift_image P I) (map (\<lambda>l. (fst l, g (snd l))) ls)"
proof -
  have "A ! fst l = C ! g (snd l) \<and> g (snd l) \<in> shift_image P I" if "l \<in> set ls" for l
    using shifted_nth[OF sh[OF that], of C] that assms(1-3) sh[OF that]
    by (auto simp: links_ok_def shift_image_def shifted_to_def)
  moreover have "distinct (map (\<lambda>l. g (snd l)) ls)"
  proof -
    have "inj_on g (snd ` set ls)"
      using sh by (intro inj_on_inverseI[of _ "unshifted P"]) (auto simp: shifted_to_def)
    moreover have "distinct (map snd ls)" using assms(1) by (simp add: links_ok_def)
    ultimately have "distinct (map g (map snd ls))" unfolding distinct_map[of g] by simp
    then show ?thesis by (simp add: comp_def)
  qed
  ultimately show ?thesis using assms(1) by (auto simp: links_ok_def comp_def)
qed

lemma links_ok_lose:
  assumes "links_ok A B D I ls" "I \<subseteq> {..< length B}" "D \<subseteq> D'"
  shows "links_ok A (keep B P) D' (unshift_image P I)
    (map (\<lambda>l. (fst l, unshifted P (snd l))) (filter (\<lambda>l. snd l \<notin> P) ls))"
proof -
  have "fst l \<in> D' \<and> unshifted P (snd l) \<in> unshift_image P I \<and> A ! fst l = keep B P ! unshifted P (snd l)"
    if "l \<in> set ls" "snd l \<notin> P" for l
    using that assms unshifted_nth[of "snd l" P B] by (auto simp: links_ok_def unshift_image_def)
  moreover have "distinct (map fst (filter Q ls))" "distinct (map snd (filter Q ls))" for Q
    using assms(1) by (auto simp: links_ok_def distinct_map_filter)
  moreover have "inj_on (unshifted P) (snd ` set (filter (\<lambda>l. snd l \<notin> P) ls))"
    by (intro inj_onI) (auto dest: unshifted_inj)
  then have "distinct (map (\<lambda>l. unshifted P (snd l)) (filter (\<lambda>l. snd l \<notin> P) ls))"
    using \<open>distinct (map snd (filter _ ls))\<close> by (metis (no_types, lifting) comp_def distinct_map list.map_comp list.set_map map_eq_conv)
  ultimately show ?thesis by (auto simp: links_ok_def comp_def)
qed

lemma links_ok_perm: "mset ls = mset ls' \<Longrightarrow> links_ok A B D I ls \<Longrightarrow> links_ok A B D I ls'"
  unfolding links_ok_def by (metis (no_types, lifting) mset_eq_imp_distinct_iff mset_eq_setD mset_map)

subsection \<open>Recording an insertion\<close>

lemma keep_inserted:
  "i \<le> length B \<Longrightarrow> keep (take i B @ new @ drop i B) {i ..< i + length new} = B"
proof -
  assume i: "i \<le> length B"
  have "keep (take i B) {i ..< i + length new} = take i B"
    "keep (drop i B) {j. j + length (take i B @ new) \<in> {i ..< i + length new}} = drop i B"
    using i by (auto simp: keep_def intro!: nths_all)
  moreover have "keep new {j. j + length (take i B) \<in> {i ..< i + length new}} = []"
    using i by (simp add: keep_def length_nths flip: length_0_conv)
  ultimately show ?thesis
    using keep_append[of "take i B @ new" "drop i B"] keep_append[of "take i B" new] by simp
qed

lemma fold_um_insert:
  assumes "distinct (map fst (base @ kvs))"
  shows "fold um_insert kvs base = base @ kvs"
  using assms
proof (induction kvs arbitrary: base)
  case (Cons kv kvs)
  then have "um_insert kv base = base @ [kv]"
    by (auto simp: um_insert_def map_of_eq_None_iff)
  with Cons show ?case by simp
qed simp

lemma shift_mapping_mset:
  assumes "distinct (map fst mapping)"
  shows "mset (shift_mapping i n mapping) =
    mset (map (\<lambda>kv. (if i \<le> fst kv then fst kv + n else fst kv, snd kv)) mapping)"
proof -
  let ?lo = "filter (\<lambda>kv. \<not> i \<le> fst kv) mapping" and ?hi = "filter (\<lambda>kv. i \<le> fst kv) mapping"
  let ?sh = "map (\<lambda>kv. (fst kv + n, snd kv)) ?hi"
  have "distinct (map fst ?hi)" using assms by (simp add: distinct_map_filter)
  then have "distinct (map fst ?sh)" by (simp add: distinct_map comp_def inj_on_def)
  moreover have "distinct (map fst ?lo)" using assms by (simp add: distinct_map_filter)
  moreover have "set (map fst ?lo) \<inter> set (map fst ?sh) = {}" by auto
  ultimately have "shift_mapping i n mapping = ?lo @ ?sh"
    unfolding shift_mapping_def Let_def by (intro fold_um_insert) simp
  moreover have "mset (?lo @ ?sh) =
      mset (map (\<lambda>kv. (if i \<le> fst kv then fst kv + n else fst kv, snd kv)) mapping)"
    by (induction mapping) auto
  ultimately show ?thesis by simp
qed

lemma shifted_to_gap: "shifted_to {i ..< i + n} x (if i \<le> x then x + n else x)"
  by (auto simp: shifted_to_def unshifted_interval)

text \<open>The moves after an insertion: each destination at or behind the index moves up.\<close>

lemma links_insert:
  assumes "distinct (map snd (links t))"
  shows "mset (links (cb_insert i n True t)) =
    mset (map (\<lambda>l. (fst l, if i \<le> snd l then snd l + n else snd l)) (links t))"
proof -
  have d: "distinct (map fst (m_move_mapping t))"
    using assms by (simp add: links_def comp_def)
  let ?f = "\<lambda>l. (fst l, if i \<le> snd l then snd l + n else snd l)"
  have "mset (map prod.swap (shift_mapping i n (m_move_mapping t))) =
      mset (map ?f (map prod.swap (m_move_mapping t)))"
    unfolding mset_map[of prod.swap] shift_mapping_mset[OF d]
    by (simp add: image_mset.compositionality comp_def cong: if_cong flip: mset_map)
  moreover have "m_move_mapping (cb_insert i n True t) =
      (if m_move_mapping t = [] then [] else shift_mapping i n (m_move_mapping t))"
    by (simp add: cb_insert_def Let_def)
  ultimately have "mset (map prod.swap (m_move_mapping (cb_insert i n True t))) =
      mset (map ?f (map prod.swap (m_move_mapping t)))" by simp
  moreover have "map (\<lambda>m. (move_from m, move_to m)) (moves (cb_insert i n True t)) =
      map ?f (map (\<lambda>m. (move_from m, move_to m)) (moves t))"
    by (simp add: cb_insert_def Let_def)
  ultimately show ?thesis by (simp only: links_def map_append mset_append)
qed

lemma cb_insert_tracks:
  assumes t: "tracks A B t" and i: "i \<le> length B" and n: "new \<noteq> []"
  shows "tracks A (take i B @ new @ drop i B) (cb_insert i (length new) True t)"
proof -
  let ?n = "length new" and ?C = "take i B @ new @ drop i B" and ?t = "cb_insert i (length new) True t"
  let ?P = "{i ..< i + length new}"
  have f: "deletions ?t = deletions t" "insertions ?t = is_insert_at (insertions t) i ?n"
    by (simp_all add: cb_insert_def Let_def)
  have I: "crv_inv (insertions ?t)"
    "elems (insertions ?t) = ?P \<union> shift_image ?P (elems (insertions t))"
    using t ix.insert_at[of "insertions t" i ?n] by (auto simp: f tracks_def shift_image_open)
  have k: "keep ?C ?P = B" using keep_inserted[OF i] .
  have "diff_ok A ?C (elems (deletions t)) (elems (insertions ?t))"
    unfolding I using t k i by (intro diff_ok_gain) (auto simp: tracks_def)
  moreover have "links_ok A ?C (elems (deletions t)) (elems (insertions ?t))
      (map (\<lambda>l. (fst l, if i \<le> snd l then snd l + ?n else snd l)) (links t))"
    unfolding I using t k shifted_to_gap[of i ?n]
    by (intro links_ok_gain[where B = B and g = "\<lambda>x. if i \<le> x then x + ?n else x"])
       (auto simp: tracks_def diff_ok_def)
  then have "links_ok A ?C (elems (deletions t)) (elems (insertions ?t)) (links ?t)"
    by (rule links_ok_perm[rotated]) (use t in \<open>simp add: links_insert tracks_def links_ok_def\<close>)
  ultimately show ?thesis using t I(1) f by (simp add: tracks_def)
qed

lemma cb_insert_marks:
  assumes "marks_ok (length B) t" "i \<le> length B" "new \<noteq> []"
  shows "marks_ok (length (take i B @ new @ drop i B)) (cb_insert i (length new) tr t)"
    "modified_rows (take i B @ new @ drop i B) (cb_insert i (length new) tr t) = modified_rows B t"
proof -
  let ?n = "length new" and ?C = "take i B @ new @ drop i B" and ?t = "cb_insert i (length new) tr t"
  let ?P = "{i ..< i + length new}"
  have "modifications ?t = is_shift_for_insert_at (modifications t) i ?n"
    by (simp add: cb_insert_def Let_def)
  with ix.make_room[of "modifications t" ?n i] assms have M: "crv_inv (modifications ?t)"
    "elems (modifications ?t) = shift_image ?P (elems (modifications t))"
    by (auto simp: marks_ok_def shift_image_open)
  have k: "keep ?C ?P = B" using keep_inserted[OF assms(2)] .
  from shift_image_rows[of ?P "elems (modifications t)" ?C] assms(1) k M
  show "marks_ok (length ?C) ?t" "modified_rows ?C ?t = modified_rows B t"
    by (simp_all add: marks_ok_def modified_rows_def)
qed

subsection \<open>Recording an erasure\<close>

lemma unshifted_le: "unshifted E x \<le> x"
  by (simp add: unshifted_def)

text \<open>
  What \<open>erase_or_unshift\<close> and \<open>add_shifted\<close> together record: position \<open>i\<close> of the new
  list is gone, and the old position it came from, if any, is deleted.
\<close>

lemma erase_diff:
  assumes ok: "diff_ok A B (elems dels) (elems inss)" "crv_inv dels" "crv_inv inss"
    and i: "i < length B" "length B \<le> npos"
    and er: "is_erase_or_unshift inss i = (inss', u)"
    and ad: "dels' = (if u \<noteq> npos then fst (is_add_shifted dels u) else dels)"
  shows "crv_inv inss'" "crv_inv dels'" "elems inss' = unshift_image {i} (elems inss)"
    "diff_ok A (keep B {i}) (elems dels') (elems inss')" "elems dels \<subseteq> elems dels'"
    "u \<noteq> npos \<longleftrightarrow> i \<notin> elems inss"
    "u \<noteq> npos \<Longrightarrow> snd (is_add_shifted dels u) \<in> elems dels' - elems dels \<and>
       snd (is_add_shifted dels u) < length A \<and> A ! snd (is_add_shifted dels u) = B ! i"
proof -
  note e = ix.erase_or_unshift[OF ok(3) er]
  have "u < npos" if "i \<notin> elems inss" using that e i unshifted_le[of "elems inss" i] by auto
  with e show u: "u \<noteq> npos \<longleftrightarrow> i \<notin> elems inss" by auto
  obtain d x where dx: "is_add_shifted dels u = (d, x)" by (cases "is_add_shifted dels u")
  note a = ix.add_shifted[OF ok(2) dx]
  show "crv_inv inss'" "crv_inv dels'" "elems dels \<subseteq> elems dels'"
    using e a ad dx ok(2) by auto
  show im: "elems inss' = unshift_image {i} (elems inss)" using e by (simp add: close_gap_unshift)
  show "diff_ok A (keep B {i}) (elems dels') (elems inss')"
  proof (cases "i \<in> elems inss")
    case True
    then show ?thesis using diff_ok_lose_inserted[OF ok(1), of "{i}"] u ad im by simp
  next
    case False
    then have "shifted_to (elems dels) (unshifted (elems inss) i) x" using a e by simp
    from diff_ok_lose_kept(1)[OF ok(1) False i(1) this] False u ad im dx a show ?thesis by simp
  qed
  assume "u \<noteq> npos"
  with u e have n: "i \<notin> elems inss" "u = unshifted (elems inss) i" by auto
  with a have s: "shifted_to (elems dels) (unshifted (elems inss) i) x" by simp
  from diff_ok_lose_kept(2,3)[OF ok(1) n(1) i(1) s] a s dx ad \<open>u \<noteq> npos\<close>
  show "snd (is_add_shifted dels u) \<in> elems dels' - elems dels \<and>
       snd (is_add_shifted dels u) < length A \<and> A ! snd (is_add_shifted dels u) = B ! i"
    by (auto simp: shifted_to_def)
qed

lemma cb_erase_fields:
  "is_erase_or_unshift (insertions t) i = (inss', u) \<Longrightarrow> insertions (cb_erase i t) = inss'"
  "is_erase_or_unshift (insertions t) i = (inss', u) \<Longrightarrow> deletions (cb_erase i t) =
     (if u \<noteq> npos then fst (is_add_shifted (deletions t) u) else deletions t)"
  "moves (cb_erase i t) = erase_moves i (moves t)"
  "m_move_mapping (cb_erase i t) = m_move_mapping t"
  "modifications (cb_erase i t) = is_erase_at (modifications t) i"
  by (auto simp: cb_erase_def Let_def split: prod.splits)

lemma erase_moves_links:
  "map (\<lambda>m. (move_from m, move_to m)) (erase_moves i ms) =
   map (\<lambda>l. (fst l, unshifted {i} (snd l)))
     (filter (\<lambda>l. snd l \<notin> {i}) (map (\<lambda>m. (move_from m, move_to m)) ms))"
  by (induction ms) (auto simp: erase_moves_def unshifted_single)

lemma cb_erase_tracks:
  assumes t: "tracks A B t" "m_move_mapping t = []" and i: "i < length B" "length B \<le> npos"
  shows "tracks A (take i B @ drop (Suc i) B) (cb_erase i t)"
proof -
  obtain inss' u where er: "is_erase_or_unshift (insertions t) i = (inss', u)"
    by (cases "is_erase_or_unshift (insertions t) i")
  have ok: "diff_ok A B (elems (deletions t)) (elems (insertions t))"
    "crv_inv (deletions t)" "crv_inv (insertions t)" using t(1) by (auto simp: tracks_def)
  note e = erase_diff[OF ok i er cb_erase_fields(2)[OF er]]
  have "links (cb_erase i t) = map (\<lambda>l. (fst l, unshifted {i} (snd l)))
      (filter (\<lambda>l. snd l \<notin> {i}) (links t))"
    using t(2) by (simp only: links_def cb_erase_fields(3,4) erase_moves_links) simp
  moreover have "links_ok A (keep B {i}) (elems (deletions (cb_erase i t)))
      (unshift_image {i} (elems (insertions t)))
      (map (\<lambda>l. (fst l, unshifted {i} (snd l))) (filter (\<lambda>l. snd l \<notin> {i}) (links t)))"
    using t(1) e(5) by (intro links_ok_lose) (auto simp: tracks_def diff_ok_def)
  ultimately show ?thesis
    using e(1-4) i by (simp add: tracks_def cb_erase_fields(1)[OF er] keep_single)
qed

lemma cb_erase_marks:
  assumes "marks_ok (length B) t" "i < length B"
  shows "marks_ok (length (take i B @ drop (Suc i) B)) (cb_erase i t)"
    "modified_rows (take i B @ drop (Suc i) B) (cb_erase i t) =
       (\<lambda>j. B ! j) ` (elems (modifications t) - {i})"
proof -
  have M: "crv_inv (modifications (cb_erase i t))"
    "elems (modifications (cb_erase i t)) = unshift_image {i} (elems (modifications t))"
    using ix.erase_at[of "modifications t" i] assms(1)
    by (auto simp: marks_ok_def cb_erase_fields close_gap_unshift)
  have "elems (modifications t) \<subseteq> {..< length B}" using assms(1) by (simp add: marks_ok_def)
  from unshift_image_rows[OF this, of "{i}"] M
  show "marks_ok (length (take i B @ drop (Suc i) B)) (cb_erase i t)"
    "modified_rows (take i B @ drop (Suc i) B) (cb_erase i t) =
       (\<lambda>j. B ! j) ` (elems (modifications t) - {i})"
    using keep_single[OF assms(2)] by (simp_all only: marks_ok_def modified_rows_def)
qed

subsection \<open>Recording that the list was cleared\<close>

lemma cb_clear_tracks:
  assumes t: "tracks A B t" and n: "length B \<noteq> npos"
  shows "tracks A [] (cb_clear (length B) t)"
proof -
  let ?D = "elems (deletions t)" and ?I = "elems (insertions t)"
  have *: "keep A ?D = keep B ?I" "?D \<subseteq> {..< length A}" "?I \<subseteq> {..< length B}"
    "ranges_ok (flat (deletions t))" "ranges_ok (flat (insertions t))"
    using t by (auto simp: tracks_def diff_ok_def crv_inv_def)
  have "{y \<in> ?D. y < length A} = ?D" "{y \<in> ?I. y < length B} = ?I" using *(2,3) by auto
  moreover have "length (keep A ?D) = length (keep B ?I)" using *(1) by simp
  ultimately have "length A - card ?D = length B - card ?I"
    by (simp add: length_keep unshifted_def below_def)
  moreover have "card ?D \<le> length A" "card ?I \<le> length B"
    using *(2,3) card_mono[of "{..< length A}" ?D] card_mono[of "{..< length B}" ?I] by auto
  moreover have "card ?D = sum_list (map rlen (flat (deletions t)))"
    "card ?I = sum_list (map rlen (flat (insertions t)))"
    using *(4,5) by (simp_all add: elems_def card_elems_of)
  ultimately have "length B + sum_list (map rlen (flat (deletions t))) -
      sum_list (map rlen (flat (insertions t))) = length A" by linarith
  with n have "deletions (cb_clear (length B) t) = is_set (deletions t) (length A)"
    "insertions (cb_clear (length B) t) = []" "links (cb_clear (length B) t) = []"
    by (simp_all add: cb_clear_def links_def)
  moreover have "keep A {0 ..< length A} = []"
    using length_keep[of A "{0 ..< length A}"] card_kept[of "{0 ..< length A}" "length A"]
    by (auto simp flip: length_0_conv)
  ultimately show ?thesis
    by (simp add: tracks_def diff_ok_def links_ok_def set_correct atLeast0LessThan)
qed

end
