(* ===== verification/Change_Move.thy ===== *)
theory Change_Move
  imports Change_Track
begin

text \<open>
  \<open>CollectionChangeBuilder::move\<close>, the move of one element of an ordered list: it erases the
  element and inserts it again, and follows a move that led to it before.
\<close>

definition move_elem :: "nat \<Rightarrow> nat \<Rightarrow> 'a list \<Rightarrow> 'a list" where
  "move_elem from to B = (let C = take from B @ drop (Suc from) B in take to C @ [B ! from] @ drop to C)"

definition moved_dest :: "nat \<Rightarrow> nat \<Rightarrow> nat \<Rightarrow> nat" where
  "moved_dest from to x = (let u = unshifted {from} x in if to \<le> u then u + 1 else u)"

lemma links_ok_add:
  assumes "links_ok A B D I ls" "f \<in> D" "f \<notin> fst ` set ls" "t \<in> I" "t \<notin> snd ` set ls" "A ! f = B ! t"
  shows "links_ok A B D I ((f, t) # ls)"
  using assms by (auto simp: links_ok_def)

lemma moved_dest_code:
  "x \<noteq> from \<Longrightarrow> moved_dest from to x =
     (if to \<le> x \<and> x < from then x + 1 else if x \<le> to \<and> from < x then x - 1 else x)"
  by (auto simp: moved_dest_def unshifted_single Let_def)

text \<open>The moves after the loop.\<close>

definition redirect :: "nat \<Rightarrow> nat \<Rightarrow> nat \<times> nat \<Rightarrow> nat \<times> nat" where
  "redirect from to l = (fst l, if snd l = from then to else moved_dest from to (snd l))"

lemma move_loop_no_match:
  assumes "\<forall>m \<in> set ms. move_to m \<noteq> from"
  shows "fst (snd (move_loop from to ms inss b)) = inss" "snd (snd (move_loop from to ms inss b)) = b"
  using assms by (induction ms) (auto split: prod.splits simp: Let_def)

lemma move_loop_sets:
  assumes "distinct (map move_to ms)"
  shows "snd (move_loop from to ms inss b) =
    (if \<exists>m \<in> set ms. move_to m = from then (is_insert_at (is_erase_at inss from) to 1, True)
     else (inss, b))"
  using assms
proof (induction ms arbitrary: inss b)
  case (Cons m ms)
  show ?case
  proof (cases "move_to m = from")
    case True
    with Cons.prems have "\<forall>m' \<in> set ms. move_to m' \<noteq> from" by (auto simp: image_iff)
    with True move_loop_no_match[OF this, of to "is_insert_at (is_erase_at inss from) to 1" True]
    show ?thesis by (auto split: prod.splits simp: Let_def)
  next
    case False
    have "snd (move_loop from to (m # ms) inss b) = snd (move_loop from to ms inss b)"
      using False by (simp add: Let_def split: prod.splits)
    then show ?thesis using Cons.IH[of inss b] Cons.prems False by simp
  qed
qed simp

lemma move_loop_links:
  "map (\<lambda>m. (move_from m, move_to m)) (fst (move_loop from to ms inss b)) =
   map (redirect from to) (map (\<lambda>m. (move_from m, move_to m)) ms)"
proof (induction ms arbitrary: inss b)
  case (Cons m ms)
  from Cons[of inss b] Cons[of "is_insert_at (is_erase_at inss from) to 1" True]
  show ?case by (auto split: prod.splits simp: Let_def redirect_def moved_dest_code)
qed simp

lemma move_elem_kept:
  assumes "from < length B" "to < length B"
  shows "keep (move_elem from to B) {to ..< to + 1} = keep B {from}"
    "length (move_elem from to B) = length B" "move_elem from to B ! to = B ! from"
proof -
  let ?C = "keep B {from}"
  have C: "?C = take from B @ drop (Suc from) B" "to \<le> length ?C"
    using assms by (simp_all add: keep_single)
  then have m: "move_elem from to B = take to ?C @ [B ! from] @ drop to ?C"
    by (simp add: move_elem_def Let_def)
  then show "keep (move_elem from to B) {to ..< to + 1} = ?C"
    using keep_inserted[OF C(2), of "[B ! from]"] by simp
  show "length (move_elem from to B) = length B" using assms C by (simp add: m)
  show "move_elem from to B ! to = B ! from" using C(2) by (simp add: m nth_append)
qed

text \<open>The moves that do not lead to the moved element, after erasing and inserting it.\<close>

lemma links_ok_moved:
  assumes ok: "links_ok A B D I ls" "I \<subseteq> {..< length B}" "D \<subseteq> D'" and ft: "from < length B" "to < length B"
  defines "I' \<equiv> {to ..< to + 1} \<union> shift_image {to ..< to + 1} (unshift_image {from} I)"
    and "ls' \<equiv> map (redirect from to) (filter (\<lambda>l. snd l \<noteq> from) ls)"
  shows "links_ok A (move_elem from to B) D' I' ls'" "to \<notin> snd ` set ls'"
    "fst ` set ls' = fst ` set (filter (\<lambda>l. snd l \<noteq> from) ls)"
proof -
  let ?ls0 = "map (\<lambda>l. (fst l, unshifted {from} (snd l))) (filter (\<lambda>l. snd l \<notin> {from}) ls)"
  have ls: "ls' = map (\<lambda>l. (fst l, if to \<le> snd l then snd l + 1 else snd l)) ?ls0"
    by (simp add: ls'_def redirect_def moved_dest_def Let_def)
  have "links_ok A (keep B {from}) D' (unshift_image {from} I) ?ls0"
    using ok by (rule links_ok_lose)
  then show "links_ok A (move_elem from to B) D' I' ls'"
    unfolding ls I'_def
    using move_elem_kept(1)[OF ft] unshift_image_rows(1)[OF ok(2), of "{from}"] shifted_to_gap[of to 1]
    by (intro links_ok_gain[where B = "keep B {from}" and g = "\<lambda>x. if to \<le> x then x + 1 else x"]) auto
  show "to \<notin> snd ` set ls'" "fst ` set ls' = fst ` set (filter (\<lambda>l. snd l \<noteq> from) ls)"
    unfolding ls by (auto simp: image_image)
qed


lemma redirect_mset:
  assumes "distinct (map snd ls)" "(f, from) \<in> set ls"
  shows "mset ((f, to) # map (redirect from to) (filter (\<lambda>l. snd l \<noteq> from) ls)) =
    mset (map (redirect from to) ls)"
proof -
  obtain xs ys where ls: "ls = xs @ (f, from) # ys" using assms(2) by (meson split_list)
  with assms(1) have "filter (\<lambda>l. snd l \<noteq> from) xs = xs" "filter (\<lambda>l. snd l \<noteq> from) ys = ys"
    by (auto simp: filter_id_conv image_iff)
  with ls show ?thesis by (simp add: redirect_def)
qed

lemma moved_diff:
  assumes "diff_ok A (keep B {from}) D' (unshift_image {from} I)" "from < length B" "to < length B"
  shows "diff_ok A (move_elem from to B) D'
    ({to ..< to + 1} \<union> shift_image {to ..< to + 1} (unshift_image {from} I))"
  using assms move_elem_kept[OF assms(2,3)] by (intro diff_ok_gain) auto

lemma reinserted_elems:
  assumes "crv_inv inss" "elems inss = unshift_image {from} I"
  shows "crv_inv (is_insert_at inss to 1)"
    "elems (is_insert_at inss to 1) =
       {to ..< to + 1} \<union> shift_image {to ..< to + 1} (unshift_image {from} I)"
  using ix.insert_at[OF assms(1), of to 1] assms(2) shift_image_open[of to 1] by (auto simp: Un_commute)

text \<open>The sets and moves that \<open>move\<close> leaves, by what led to the moved element before.\<close>

lemma move_row_followed:
  assumes "distinct (map move_to (moves t))" "m \<in> set (moves t)" "move_to m = from"
  shows "insertions (move_row from to t) = is_insert_at (is_erase_at (insertions t) from) to 1"
    "deletions (move_row from to t) = deletions t"
    "links (move_row from to t) = map (redirect from to) (map (\<lambda>m. (move_from m, move_to m)) (moves t))
       @ map prod.swap (m_move_mapping t)"
proof -
  have "snd (move_loop from to (moves t) (insertions t) False) =
      (is_insert_at (is_erase_at (insertions t) from) to 1, True)"
    using move_loop_sets[OF assms(1), of "from" to "insertions t" False] assms(2,3) by auto
  then obtain ms' where ml: "move_loop from to (moves t) (insertions t) False =
      (ms', is_insert_at (is_erase_at (insertions t) from) to 1, True)"
    by (metis prod.collapse)
  with move_loop_links[of "from" to "moves t" "insertions t" False]
  show "insertions (move_row from to t) = is_insert_at (is_erase_at (insertions t) from) to 1"
    "deletions (move_row from to t) = deletions t"
    "links (move_row from to t) = map (redirect from to) (map (\<lambda>m. (move_from m, move_to m)) (moves t))
       @ map prod.swap (m_move_mapping t)"
    by (simp_all add: move_row_def links_def)
qed

lemma move_row_fresh:
  assumes "distinct (map move_to (moves t))" "\<forall>m \<in> set (moves t). move_to m \<noteq> from"
    "is_erase_or_unshift (insertions t) from = (inss', u)"
  shows "insertions (move_row from to t) = is_insert_at inss' to 1"
    "deletions (move_row from to t) =
       (if u \<noteq> npos then fst (is_add_shifted (deletions t) u) else deletions t)"
    "links (move_row from to t) = map (redirect from to) (map (\<lambda>m. (move_from m, move_to m)) (moves t))
       @ (if u \<noteq> npos then [(snd (is_add_shifted (deletions t) u), to)] else [])
       @ map prod.swap (m_move_mapping t)"
proof -
  have "snd (move_loop from to (moves t) (insertions t) False) = (insertions t, False)"
    using move_loop_sets[OF assms(1), of "from" to "insertions t" False] assms(2) by auto
  then obtain ms' where ml: "move_loop from to (moves t) (insertions t) False = (ms', insertions t, False)"
    by (metis prod.collapse)
  with move_loop_links[of "from" to "moves t" "insertions t" False] assms(3)
  show "insertions (move_row from to t) = is_insert_at inss' to 1"
    "deletions (move_row from to t) =
       (if u \<noteq> npos then fst (is_add_shifted (deletions t) u) else deletions t)"
    "links (move_row from to t) = map (redirect from to) (map (\<lambda>m. (move_from m, move_to m)) (moves t))
       @ (if u \<noteq> npos then [(snd (is_add_shifted (deletions t) u), to)] else [])
       @ map prod.swap (m_move_mapping t)"
    by (simp_all add: move_row_def links_def Let_def split: prod.splits)
qed

lemma move_row_tracks:
  assumes t: "tracks A B t" "m_move_mapping t = []"
    and ft: "from < length B" "to < length B" and n: "length B \<le> npos"
  shows "tracks A (move_elem from to B) (move_row from to t)"
proof -
  let ?D = "elems (deletions t)" and ?I = "elems (insertions t)" and ?t = "move_row from to t"
  let ?ls = "map (\<lambda>m. (move_from m, move_to m)) (moves t)"
  let ?I' = "{to ..< to + 1} \<union> shift_image {to ..< to + 1} (unshift_image {from} ?I)"
  have ok: "diff_ok A B ?D ?I" "crv_inv (deletions t)" "crv_inv (insertions t)" "links_ok A B ?D ?I ?ls"
    using t by (auto simp: tracks_def links_def)
  have I: "?I \<subseteq> {..< length B}" and dist: "distinct (map move_to (moves t))"
    using ok(1,4) by (auto simp: diff_ok_def links_ok_def comp_def)
  obtain inss' u where er: "is_erase_or_unshift (insertions t) from = (inss', u)"
    by (cases "is_erase_or_unshift (insertions t) from")
  define dels' where "dels' = (if u \<noteq> npos then fst (is_add_shifted (deletions t) u) else deletions t)"
  note e = erase_diff[OF ok(1-3) ft(1) n er dels'_def]
  note mv = links_ok_moved[OF ok(4) I e(5) ft]
  show ?thesis
  proof (cases "\<exists>m \<in> set (moves t). move_to m = from")
    case True
    then obtain m where m: "m \<in> set (moves t)" "move_to m = from" by blast
    note f = move_row_followed[OF dist m, of to]
    have "from \<in> ?I" using ok(4) m by (auto simp: links_ok_def)
    then have D: "dels' = deletions t" using e(6) by (simp add: dels'_def)
    have "crv_inv (is_erase_at (insertions t) from)"
      "elems (is_erase_at (insertions t) from) = unshift_image {from} ?I"
      using ix.erase_at[OF ok(3)] by (auto simp: close_gap_unshift)
    note I' = reinserted_elems[OF this, of to]
    have "links_ok A (move_elem from to B) ?D ?I'
        ((move_from m, to) # map (redirect from to) (filter (\<lambda>l. snd l \<noteq> from) ?ls))"
    proof (rule links_ok_add)
      show "move_from m \<notin> fst ` set (map (redirect from to) (filter (\<lambda>l. snd l \<noteq> from) ?ls))"
        unfolding mv(3) using ok(4) m by (auto simp: links_ok_def distinct_map comp_def dest: inj_onD)
    qed (use mv(1,2) D ok(4) m move_elem_kept[OF ft] in \<open>auto simp: links_ok_def\<close>)
    moreover have "mset ((move_from m, to) # map (redirect from to) (filter (\<lambda>l. snd l \<noteq> from) ?ls)) =
        mset (map (redirect from to) ?ls)"
      using m ok(4) by (intro redirect_mset) (auto simp: links_ok_def image_iff)
    ultimately have "links_ok A (move_elem from to B) ?D ?I' (links ?t)"
      using links_ok_perm f(3) t(2) by fastforce
    with I' moved_diff[OF e(4)[unfolded e(3) D] ft] show ?thesis
      using ok(2) f(1,2) by (simp add: tracks_def)
  next
    case False
    then have no: "\<forall>m \<in> set (moves t). move_to m \<noteq> from" by simp
    note f = move_row_fresh[OF dist no er, of to]
    note I' = reinserted_elems[OF e(1,3), of to]
    have "filter (\<lambda>l. snd l \<noteq> from) ?ls = ?ls" using no by (auto simp: filter_id_conv)
    note mv' = mv[unfolded this]
    have "links_ok A (move_elem from to B) (elems dels') ?I'
      ((if u \<noteq> npos then [(snd (is_add_shifted (deletions t) u), to)] else []) @ map (redirect from to) ?ls)"
    proof (cases "u \<noteq> npos")
      case True
      have "fst ` set ?ls \<subseteq> ?D" using ok(4) by (auto simp: links_ok_def)
      then have "snd (is_add_shifted (deletions t) u) \<notin> fst ` set (map (redirect from to) ?ls)"
        unfolding mv'(3) using e(7)[OF True] by blast
      then show ?thesis using links_ok_add[OF mv'(1) _ _ _ mv'(2)] e(7)[OF True] move_elem_kept(3)[OF ft] True
        by simp
    qed (use mv'(1) in simp)
    then have "links_ok A (move_elem from to B) (elems dels') ?I' (links ?t)"
      by (rule links_ok_perm[rotated]) (use f(3) t(2) in auto)
    with I' moved_diff[OF e(4)[unfolded e(3)] ft] show ?thesis
      using e(2) f(1,2) by (simp add: tracks_def dels'_def)
  qed
qed

lemma move_row_modifications:
  "modifications (move_row from to t) =
     (if is_contains (modifications t) from then is_insert_at (is_erase_at (modifications t) from) to 1
      else is_shift_for_insert_at (is_erase_at (modifications t) from) to 1)"
  by (auto simp: move_row_def Let_def split: prod.splits)

lemma move_row_marks:
  assumes "marks_ok (length B) t" "from < length B" "to < length B"
  shows "marks_ok (length (move_elem from to B)) (move_row from to t)"
    "modified_rows (move_elem from to B) (move_row from to t) = modified_rows B t"
proof -
  let ?M = "elems (modifications t)" and ?B = "move_elem from to B" and ?P = "{to ..< to + 1}"
  let ?S = "shift_image ?P (unshift_image {from} ?M)"
  have M: "crv_inv (modifications t)" "?M \<subseteq> {..< length B}" using assms(1) by (auto simp: marks_ok_def)
  have er: "crv_inv (is_erase_at (modifications t) from)"
    "elems (is_erase_at (modifications t) from) = unshift_image {from} ?M"
    using ix.erase_at[OF M(1)] by (auto simp: close_gap_unshift)
  have el: "crv_inv (modifications (move_row from to t))"
    "elems (modifications (move_row from to t)) = (if from \<in> ?M then {to} else {}) \<union> ?S"
    using reinserted_elems[OF er, of to] ix.make_room[OF er(1), of 1 to] er(2) shift_image_open[of to 1] M(1)
    by (auto simp: move_row_modifications ix.mem)
  note k = move_elem_kept[OF assms(2,3)]
  have un: "unshift_image {from} ?M \<subseteq> {..< length (keep ?B ?P)}"
    using unshift_image_rows(1)[OF M(2), of "{from}"] k(1) by simp
  note sh = shift_image_rows[OF _ un]
  show "marks_ok (length ?B) (move_row from to t)"
    using sh(1) el k(2) assms(3) by (auto simp: marks_ok_def)
  have "(\<lambda>i. ?B ! i) ` ?S = (\<lambda>i. B ! i) ` (?M - {from})"
    using sh(2) k(1) unshift_image_rows(2)[OF M(2), of "{from}"] by simp
  then show "modified_rows ?B (move_row from to t) = modified_rows B t"
    using el(2) k(3) by (auto simp: modified_rows_def image_Un)
qed

end
