(* ===== verification/Change_Merge.thy ===== *)
theory Change_Merge
  imports Change_Move
begin

text \<open>
  \<open>CollectionChangeBuilder::merge\<close>: when one builder records the change from \<open>A\<close> to
  \<open>B\<close> and a second one the change from \<open>B\<close> to \<open>C\<close>, the merged builder records
  the change from \<open>A\<close> to \<open>C\<close>, with the moves of both carried along.
\<close>

definition lk :: "move \<Rightarrow> nat \<times> nat" where
  "lk m = (move_from m, move_to m)"

lemma lk_simps [simp]: "fst (lk m) = move_from m" "snd (lk m) = move_to m"
  by (simp_all add: lk_def)

subsection \<open>Dropping stale moves\<close>

lemma drop_stale_correct:
  assumes "crv_inv dels" "crv_inv inss" "diff_ok A C (elems dels) (elems inss)"
    "links_ok A C (elems dels) (elems inss) (map lk ms)" "drop_stale ms dels inss = (ms', dels', inss')"
  shows "crv_inv dels' \<and> crv_inv inss' \<and> diff_ok A C (elems dels') (elems inss') \<and>
    elems dels - move_from ` set ms \<subseteq> elems dels' \<and> elems inss - move_to ` set ms \<subseteq> elems inss' \<and>
    links_ok A C (elems dels') (elems inss') (map lk ms') \<and> set ms' \<subseteq> set ms"
  using assms
proof (induction ms arbitrary: dels inss ms')
  case Nil
  then show ?case by simp
next
  case (Cons m ms)
  let ?D = "elems dels" and ?I = "elems inss" and ?f = "move_from m" and ?t = "move_to m"
  have l: "?f \<in> ?D" "?t \<in> ?I" "A ! ?f = C ! ?t" "?f \<notin> move_from ` set ms" "?t \<notin> move_to ` set ms"
    using Cons.prems(4) by (auto simp: links_ok_def comp_def)
  have rest: "links_ok A C ?D ?I (map lk ms)" using Cons.prems(4) by (simp add: links_ok_def)
  have d: "?D \<subseteq> {..< length A}" "?I \<subseteq> {..< length C}" "keep A ?D = keep C ?I"
    using Cons.prems(3) by (auto simp: diff_ok_def)
  have cnt: "?f - is_count dels 0 ?f = unshifted ?D ?f" "?t - is_count inss 0 ?t = unshifted ?I ?t"
    using Cons.prems(1,2) by (simp_all add: count_from_zero unshifted_def)
  show ?case
  proof (cases "unshifted ?D ?f = unshifted ?I ?t")
    case True
    have rd: "crv_inv (is_remove dels ?f 1)" "elems (is_remove dels ?f 1) = ?D - {?f}"
      "crv_inv (is_remove inss ?t 1)" "elems (is_remove inss ?t 1) = ?I - {?t}"
      using ix.remove[OF Cons.prems(1), of 1] ix.remove[OF Cons.prems(2), of 1] by auto
    have "keep A (?D - {?f}) = keep C (?I - {?t})"
      using d l True by (intro keep_cancel) auto
    then have "diff_ok A C (elems (is_remove dels ?f 1)) (elems (is_remove inss ?t 1))"
      using d rd by (auto simp: diff_ok_def)
    moreover have "links_ok A C (elems (is_remove dels ?f 1)) (elems (is_remove inss ?t 1)) (map lk ms)"
      using rest l rd by (auto simp: links_ok_def comp_def image_iff)
    moreover have "drop_stale ms (is_remove dels ?f 1) (is_remove inss ?t 1) = (ms', dels', inss')"
      using Cons.prems(5) True cnt by simp
    ultimately show ?thesis using Cons.IH[OF rd(1,3)] rd by auto
  next
    case False
    then obtain ms0 where ms0: "drop_stale ms dels inss = (ms0, dels', inss')" "ms' = m # ms0"
      using Cons.prems(5) cnt by (auto split: prod.splits)
    note ih = Cons.IH[OF Cons.prems(1-3) rest ms0(1)]
    then have "links_ok A C (elems dels') (elems inss') (map lk ms')"
      using l ms0(2) by (auto simp: links_ok_def comp_def image_iff subset_iff)
    with ih ms0 show ?thesis by auto
  qed
qed

subsection \<open>Old moves\<close>

lemma for_each_col2_simps [simp]:
  assumes "for_each_col2 f t c = (t', c')"
  shows "deletions t' = deletions t" "insertions t' = insertions t" "moves t' = moves t"
    "m_move_mapping t' = m_move_mapping t" "m_track_columns t' = m_track_columns t"
    "deletions c' = deletions c" "insertions c' = insertions c" "moves c' = moves c"
    "modifications t' = fst (f (modifications t) (modifications c))"
    "modifications c' = snd (f (modifications t) (modifications c))"
  using assms by (auto simp: for_each_col2_def Let_def split: prod.splits if_splits)

lemma swap_remove_mset:
  assumes "k < length xs"
  shows "mset xs = add_mset (xs ! k) (mset (butlast (xs[k := last xs])))"
proof (cases xs rule: rev_cases)
  case (snoc ys z)
  show ?thesis
  proof (cases "k = length ys")
    case False
    with assms snoc have k: "k < length ys" by simp
    then have "mset ys = add_mset (ys ! k) (mset ys - {#ys ! k#})" by simp
    with k snoc show ?thesis
      by (simp add: list_update_append nth_append mset_update add_mset_commute)
  qed (use snoc in simp)
qed (use assms in simp)

subsection \<open>The moves of both change sets\<close>

text \<open>
  Where the old moves lead after the second change: the destination of a new move that starts
  where an old one ended, or the place of the old destination in the new list.
\<close>

definition follows :: "(nat \<times> nat) set \<Rightarrow> nat set \<Rightarrow> nat set \<Rightarrow> nat set \<Rightarrow> nat \<times> nat \<Rightarrow> bool" where
  "follows used xs D2 I2 l \<longleftrightarrow>
     snd l \<in> snd ` used \<or> (\<exists>x \<in> xs. x \<notin> D2 \<and> shifted_to I2 (unshifted D2 x) (snd l))"

lemma update_old_cases:
  assumes "update_old_moves (old # rest) t c = (ms', t', c')"
  obtains
    (follow) k t1 c1 ms1 where "k < length (moves c)" "move_from (moves c ! k) = move_to old"
      "for_each_col2 (carry_modified (move_from (moves c ! k)) (move_to (moves c ! k))) t c = (t1, c1)"
      "update_old_moves rest t1 (c1\<lparr>moves := butlast ((moves c)[k := last (moves c)])\<rparr>) = (ms1, t', c')"
      "ms' = old\<lparr>move_to := move_to (moves c ! k)\<rparr> # ms1"
  | (deleted) "move_to old \<notin> move_from ` set (moves c)" "is_contains (deletions c) (move_to old)"
      "update_old_moves rest t c = (ms', t', c')"
  | (shifted) ms1 where "move_to old \<notin> move_from ` set (moves c)"
      "\<not> is_contains (deletions c) (move_to old)" "update_old_moves rest t c = (ms1, t', c')"
      "ms' = old\<lparr>move_to := is_shift (insertions c) (is_unshift (deletions c) (move_to old))\<rparr> # ms1"
proof -
  define k where "k = find_if (\<lambda>m. move_to old = move_from m) (moves c)"
  show thesis
  proof (cases "k = length (moves c)")
    case True
    have "move_to old \<noteq> move_from m" if "m \<in> set (moves c)" for m
      using find_if_before[of _ "\<lambda>m. move_to old = move_from m" "moves c"] that True
      unfolding k_def[symmetric] by (auto simp: in_set_conv_nth)
    then have "move_to old \<notin> move_from ` set (moves c)" by auto
    with assms True show thesis
      by (cases "is_contains (deletions c) (move_to old)")
         (auto simp: k_def[symmetric] Let_def split: prod.splits intro: deleted shifted)
  next
    case False
    then have k: "k < length (moves c)" "move_from (moves c ! k) = move_to old"
      using find_if_le[of _ "moves c"] find_if_nth[of "\<lambda>m. move_to old = move_from m" "moves c"]
      by (auto simp: k_def le_neq_implies_less)
    obtain t1 c1 where fe: "for_each_col2 (carry_modified (move_from (moves c ! k)) (move_to (moves c ! k))) t c = (t1, c1)"
      by (cases "for_each_col2 (carry_modified (move_from (moves c ! k)) (move_to (moves c ! k))) t c")
    then have "moves c1 = moves c" by simp
    with assms False fe show thesis
      by (auto simp: k_def[symmetric] Let_def split: prod.splits intro!: follow[OF k fe])
  qed
qed

lemma update_old_moves_frame:
  assumes "update_old_moves ms t c = (ms', t', c')"
  shows "deletions t' = deletions t \<and> insertions t' = insertions t \<and> moves t' = moves t \<and>
    m_move_mapping t' = m_move_mapping t \<and> modifications t' = modifications t \<and>
    deletions c' = deletions c \<and> insertions c' = insertions c"
  using assms
proof (induction ms arbitrary: t c ms')
  case (Cons old rest)
  from Cons.prems show ?case
  proof (cases rule: update_old_cases)
    case (follow k t1 c1 ms1)
    from Cons.IH[OF follow(4)] for_each_col2_simps[OF follow(3)] show ?thesis
      by (simp add: carry_modified_def)
  qed (use Cons.IH in blast)+
qed simp

lemma used_subset: "mset xs = mset ys + mset us \<Longrightarrow> set us \<subseteq> set xs"
  by (metis Un_upper2 set_mset_mset set_mset_union)

lemma links_ok_sub:
  assumes "mset ls = add_mset l (mset ls')" "links_ok A B D I ls"
  shows "links_ok A B D I ls'"
proof -
  have "mset ls = mset (l # ls')" using assms(1) by simp
  from links_ok_perm[OF this assms(2)] show ?thesis by (simp add: links_ok_def)
qed

lemma links_ok_fresh:
  assumes "mset ls = add_mset l (mset ls')" "links_ok A B D I ls"
  shows "snd l \<notin> snd ` set ls'"
proof -
  have "mset ls = mset (l # ls')" using assms(1) by simp
  from links_ok_perm[OF this assms(2)] show ?thesis by (simp add: links_ok_def)
qed

lemma update_old_moves_links:
  assumes "update_old_moves ms t c = (ms', t', c')"
    "links_ok A B D1 I1 (map lk ms)" "links_ok B C D2 I2 (map lk (moves c))" "I1 \<subseteq> {..< length B}"
    "keep B D2 = keep C I2" "crv_inv (deletions c)" "crv_inv (insertions c)"
    "elems (deletions c) = D2" "elems (insertions c) = I2"
  shows "\<exists>used. mset (map lk (moves c)) = mset (map lk (moves c')) + mset used \<and>
    (\<forall>m \<in> set ms'. move_from m \<in> move_from ` set ms \<and> A ! move_from m = C ! move_to m \<and>
       follows (set used) (move_to ` set ms) D2 I2 (lk m)) \<and>
    distinct (map move_from ms') \<and> distinct (map move_to ms')"
  using assms
proof (induction ms arbitrary: t c ms')
  case Nil
  then show ?case by (intro exI[of _ "[]"]) auto
next
  case (Cons old rest)
  have old: "A ! move_from old = B ! move_to old" "move_to old \<in> I1"
    "move_from old \<notin> move_from ` set rest" "move_to old \<notin> move_to ` set rest"
    and rest: "links_ok A B D1 I1 (map lk rest)"
    using Cons.prems(2) by (auto simp: links_ok_def comp_def)
  note prem = rest Cons.prems(3-9)
  from Cons.prems(1) show ?case
  proof (cases rule: update_old_cases)
    case (follow k t1 c1 ms1)
    let ?mk = "moves c ! k" and ?ms2 = "butlast ((moves c)[k := last (moves c)])"
    let ?c2 = "c1\<lparr>moves := ?ms2\<rparr>"
    have ms: "mset (map lk (moves c)) = add_mset (lk ?mk) (mset (map lk ?ms2))"
      using swap_remove_mset[OF follow(1)] by (metis image_mset_add_mset mset_map)
    have ok2: "links_ok B C D2 I2 (map lk (moves ?c2))"
      using links_ok_sub[OF ms prem(2)] by simp
    obtain used where u: "mset (map lk (moves ?c2)) = mset (map lk (moves c')) + mset used"
      "\<forall>m \<in> set ms1. move_from m \<in> move_from ` set rest \<and> A ! move_from m = C ! move_to m \<and>
         follows (set used) (move_to ` set rest) D2 I2 (lk m)"
      "distinct (map move_from ms1)" "distinct (map move_to ms1)"
      using Cons.IH[OF follow(4) prem(1) ok2 prem(3,4)] prem(5-8) for_each_col2_simps[OF follow(3)] by auto
    have mk: "?mk \<in> set (moves c)" using follow(1) by simp
    have mkI: "move_to ?mk \<in> I2" "B ! move_to old = C ! move_to ?mk"
      using mk prem(2) follow(2) by (auto simp: links_ok_def)
    have "move_to ?mk \<notin> snd ` set used"
      using links_ok_fresh[OF ms prem(2)] used_subset[OF u(1)] by auto
    then have new: "move_to ?mk \<notin> move_to ` set ms1"
      using u(2) mkI(1) by (auto simp: follows_def shifted_to_def)
    show ?thesis
    proof (intro exI[of _ "lk ?mk # used"] conjI ballI)
      show "mset (map lk (moves c)) = mset (map lk (moves c')) + mset (lk ?mk # used)"
        using ms u(1) by simp
      show "distinct (map move_from ms')" "distinct (map move_to ms')"
        using u(2-4) new old(3) follow(5) by auto
    qed (use u(2) follow(5) mkI(2) old(1) in \<open>auto simp: follows_def\<close>)
  next
    case deleted
    from Cons.IH[OF deleted(3) prem] show ?thesis by (fastforce simp: follows_def)
  next
    case (shifted ms1)
    let ?y = "is_shift (insertions c) (is_unshift (deletions c) (move_to old))"
    obtain used where u: "mset (map lk (moves c)) = mset (map lk (moves c')) + mset used"
      "\<forall>m \<in> set ms1. move_from m \<in> move_from ` set rest \<and> A ! move_from m = C ! move_to m \<and>
         follows (set used) (move_to ` set rest) D2 I2 (lk m)"
      "distinct (map move_from ms1)" "distinct (map move_to ms1)"
      using Cons.IH[OF shifted(3) prem] by auto
    have x: "move_to old \<notin> D2" "move_to old < length B"
      using shifted(2) prem(5,7) old(2) prem(3) by (auto simp: ix.mem)
    have y: "shifted_to I2 (unshifted D2 (move_to old)) ?y"
      using ix.shift[OF prem(6)] ix.unshift[OF prem(5)] prem(7,8) by simp
    have "A ! move_from old = C ! ?y" using kept_position[OF prem(4) x y] old(1) by simp
    have sub: "snd ` set used \<subseteq> I2"
      using prem(2) image_mono[OF used_subset[OF u(1)], of snd] by (auto simp: links_ok_def)
    have same: "move_to old = x'" if s: "shifted_to I2 (unshifted D2 x') ?y" "x' \<notin> D2" for x'
      using unshifted_inj[OF x(1) s(2)] s(1) y unfolding shifted_to_def by metis
    have new: "?y \<notin> move_to ` set ms1"
    proof
      assume "?y \<in> move_to ` set ms1"
      then obtain m where "m \<in> set ms1" "move_to m = ?y" by auto
      with u(2) have "follows (set used) (move_to ` set rest) D2 I2 (lk m)" by blast
      with \<open>move_to m = ?y\<close> show False
        using sub y same old(4) unfolding follows_def shifted_to_def by auto
    qed
    show ?thesis
    proof (intro exI[of _ used] conjI ballI)
      show "distinct (map move_from ms')" "distinct (map move_to ms')"
        using u(2-4) new old(3) shifted(4) by auto
      fix m assume "m \<in> set ms'"
      then show "follows (set used) (move_to ` set (old # rest)) D2 I2 (lk m)"
        using u(2) shifted(4) x(1) y by (auto simp: follows_def)
    qed (use u(1,2) shifted(4) \<open>A ! move_from old = C ! ?y\<close> in auto)
  qed
qed


lemma merge_old_links:
  assumes t: "tracks A B t" "m_move_mapping t = []" and c: "tracks B C c" "m_move_mapping c = []"
    and res: "merge_old t c = (t', c')"
  shows "deletions t' = deletions t" "insertions t' = insertions t" "m_move_mapping t' = []"
    "modifications t' = modifications t" "deletions c' = deletions c" "insertions c' = insertions c"
    "\<exists>used. mset (map lk (moves c)) = mset (map lk (moves c')) + mset used \<and>
      (\<forall>m \<in> set (moves t'). move_from m \<in> elems (deletions t) \<and> A ! move_from m = C ! move_to m \<and>
        follows (set used) (move_to ` set (moves t)) (elems (deletions c)) (elems (insertions c)) (lk m)) \<and>
      distinct (map move_from (moves t')) \<and> distinct (map move_to (moves t'))"
proof -
  let ?D1 = "elems (deletions t)" and ?I1 = "elems (insertions t)"
  let ?D2 = "elems (deletions c)" and ?I2 = "elems (insertions c)"
  have lt: "links_ok A B ?D1 ?I1 (map lk (moves t))" "?I1 \<subseteq> {..< length B}"
    and lc: "links_ok B C ?D2 ?I2 (map lk (moves c))" "keep B ?D2 = keep C ?I2"
      "crv_inv (deletions c)" "crv_inv (insertions c)"
    using t c by (auto simp: tracks_def links_def diff_ok_def lk_def[abs_def])
  show "deletions t' = deletions t" "insertions t' = insertions t" "m_move_mapping t' = []"
    "modifications t' = modifications t" "deletions c' = deletions c" "insertions c' = insertions c"
    using res update_old_moves_frame[of "moves t" t c] t(2)
    by (auto simp: merge_old_def split: if_splits prod.splits)
  show "\<exists>used. mset (map lk (moves c)) = mset (map lk (moves c')) + mset used \<and>
      (\<forall>m \<in> set (moves t'). move_from m \<in> ?D1 \<and> A ! move_from m = C ! move_to m \<and>
        follows (set used) (move_to ` set (moves t)) ?D2 ?I2 (lk m)) \<and>
      distinct (map move_from (moves t')) \<and> distinct (map move_to (moves t'))"
  proof (cases "moves c \<noteq> [] \<or> \<not> crv_empty (deletions c) \<or> \<not> crv_empty (insertions c)")
    case True
    then obtain ms t1 where up: "update_old_moves (moves t) t c = (ms, t1, c')" "t' = t1\<lparr>moves := ms\<rparr>"
      using res by (auto simp: merge_old_def split: prod.splits)
    have "move_from ` set (moves t) \<subseteq> ?D1" using lt by (auto simp: links_ok_def)
    with update_old_moves_links[OF up(1) lt(1) lc(1) lt(2) lc(2-4)] up(2) show ?thesis by fastforce
  next
    case False
    then have e: "t' = t" "c' = c" "?D2 = {}" "?I2 = {}"
      using res by (auto simp: merge_old_def crv_empty_def)
    have "shifted_to {} (unshifted {} x) x" for x by (simp add: shifted_to_def)
    with e lt lc(2) show ?thesis
      by (intro exI[of _ "[]"]) (auto simp: follows_def links_ok_def comp_def intro: bexI[rotated])
  qed
qed

lemma carry_new_moves_frame:
  assumes "carry_new_moves ms t c = (t', c')"
  shows "deletions t' = deletions t \<and> insertions t' = insertions t \<and> moves t' = moves t \<and>
    m_move_mapping t' = m_move_mapping t \<and> modifications t' = modifications t \<and>
    deletions c' = deletions c \<and> insertions c' = insertions c \<and> moves c' = moves c"
  using assms
proof (induction ms arbitrary: t c)
  case (Cons m ms)
  obtain t1 c1 where fe: "for_each_col2 (carry_modified (move_from m) (move_to m)) t c = (t1, c1)"
    by (cases "for_each_col2 (carry_modified (move_from m) (move_to m)) t c")
  with Cons.IH[of t1 c1] Cons.prems for_each_col2_simps[OF fe] show ?case
    by (simp add: carry_modified_def)
qed simp

lemma merge_moves_eq:
  assumes "merge_old t c = (t1, c1)" "crv_inv (deletions t1)" "crv_inv (insertions t1)"
    "merge_moves t c = (t', c')"
  shows "deletions t' = deletions t1" "insertions t' = insertions t1"
    "m_move_mapping t' = m_move_mapping t1" "modifications t' = modifications t1"
    "deletions c' = deletions c1" "insertions c' = insertions c1"
    "moves t' = moves t1 @ map (\<lambda>m. m\<lparr>move_from :=
        is_shift (deletions t1) (is_unshift (insertions t1) (move_from m))\<rparr>)
      (filter (\<lambda>m. move_from m \<notin> elems (insertions t1)) (moves c1))"
proof -
  define c2 where "c2 = drop_moves_of_inserted t1 c1"
  have m2: "moves c2 = filter (\<lambda>m. move_from m \<notin> elems (insertions t1)) (moves c1)"
    "deletions c2 = deletions c1" "insertions c2 = insertions c1"
    using assms(3) by (auto simp: c2_def drop_moves_of_inserted_def ix.mem crv_empty_def)
  obtain t3 c3 where 3: "keep_moved_modified t1 c2 = (t3, c3)" by (cases "keep_moved_modified t1 c2")
  then have f3: "deletions t3 = deletions t1 \<and> insertions t3 = insertions t1 \<and> moves t3 = moves t1 \<and>
    m_move_mapping t3 = m_move_mapping t1 \<and> modifications t3 = modifications t1 \<and>
    deletions c3 = deletions c1 \<and> insertions c3 = insertions c1 \<and> moves c3 = moves c2"
    using carry_new_moves_frame[of "moves c2" t1 c2 t3 c3] m2
    by (auto simp: keep_moved_modified_def split: if_splits)
  have "is_shift [] (is_unshift [] x) = x" for x
    by (simp add: is_shift_def is_unshift_def is_count_def is_find_def is_find_from_def
        crv_begin_def crv_end_def crv_empty_def)
  then have "moves (unshift_new_moves t3 c3) = map (\<lambda>m. m\<lparr>move_from :=
        is_shift (deletions t3) (is_unshift (insertions t3) (move_from m))\<rparr>) (moves c3)"
    by (auto simp: unshift_new_moves_def crv_empty_def map_idI)
  moreover have "t' = t3\<lparr>moves := moves t3 @ moves (unshift_new_moves t3 c3)\<rparr>"
    "c' = unshift_new_moves t3 c3"
    using assms(1,4) 3 by (auto simp: merge_moves_def c2_def[symmetric] Let_def)
  moreover have "deletions (unshift_new_moves t3 c3) = deletions c3"
    "insertions (unshift_new_moves t3 c3) = insertions c3" by (simp_all add: unshift_new_moves_def)
  ultimately show "deletions t' = deletions t1" "insertions t' = insertions t1"
    "m_move_mapping t' = m_move_mapping t1" "modifications t' = modifications t1"
    "deletions c' = deletions c1" "insertions c' = insertions c1"
    "moves t' = moves t1 @ map (\<lambda>m. m\<lparr>move_from :=
        is_shift (deletions t1) (is_unshift (insertions t1) (move_from m))\<rparr>)
      (filter (\<lambda>m. move_from m \<notin> elems (insertions t1)) (moves c1))"
    using f3 m2 by simp_all
qed

subsection \<open>The merged change set\<close>

lemma links_ok_appendI:
  assumes "links_ok A B D I ls" "links_ok A B D I ls'" "fst ` set ls \<inter> fst ` set ls' = {}"
    "snd ` set ls \<inter> snd ` set ls' = {}"
  shows "links_ok A B D I (ls @ ls')"
  using assms by (auto simp: links_ok_def)

lemma follows_dest:
  assumes "follows used xs D2 I2 l" "snd ` used \<subseteq> I2" "xs \<subseteq> I1"
  shows "snd l \<in> I2 \<union> shift_image I2 (unshift_image D2 I1)"
    "snd l \<in> I2 \<Longrightarrow> snd l \<in> snd ` used"
  using assms by (auto simp: follows_def shift_image_shifted unshift_image_def shifted_to_def)

lemma merged_links:
  assumes t: "tracks A B t" "m_move_mapping t = []" and c: "tracks B C c" "m_move_mapping c = []"
    and res: "merge_moves t c = (t', c')"
  defines "D1 \<equiv> elems (deletions t)" and "I1 \<equiv> elems (insertions t)"
    and "D2 \<equiv> elems (deletions c)" and "I2 \<equiv> elems (insertions c)"
  shows "links_ok A C (D1 \<union> shift_image D1 (unshift_image I1 D2))
      (I2 \<union> shift_image I2 (unshift_image D2 I1)) (map lk (moves t'))"
proof -
  obtain t1 c1 where old: "merge_old t c = (t1, c1)" by (cases "merge_old t c")
  note o = merge_old_links[OF t c old]
  have inv: "crv_inv (deletions t)" "crv_inv (insertions t)" using t by (auto simp: tracks_def)
  have d1: "keep A D1 = keep B I1" "I1 \<subseteq> {..< length B}" "D1 \<subseteq> {..< length A}"
    and d2: "D2 \<subseteq> {..< length B}"
    using t c by (auto simp: tracks_def diff_ok_def D1_def I1_def D2_def)
  have lt: "links_ok A B D1 I1 (map lk (moves t))" and lc: "links_ok B C D2 I2 (map lk (moves c))"
    using t c by (auto simp: tracks_def links_def lk_def[abs_def] D1_def I1_def D2_def I2_def)
  obtain used where u: "mset (map lk (moves c)) = mset (map lk (moves c1)) + mset used"
    "\<And>m. m \<in> set (moves t1) \<Longrightarrow> move_from m \<in> D1 \<and> A ! move_from m = C ! move_to m \<and>
      follows (set used) (move_to ` set (moves t)) D2 I2 (lk m)"
    "distinct (map move_from (moves t1))" "distinct (map move_to (moves t1))"
    using o(7) unfolding D1_def D2_def I2_def by blast
  have lc': "links_ok B C D2 I2 (map lk (moves c1) @ used)"
    using u(1) by (intro links_ok_perm[OF _ lc]) simp
  let ?src = "\<lambda>x. is_shift (deletions t) (is_unshift (insertions t) x)"
  let ?new = "filter (\<lambda>m. move_from m \<notin> I1) (moves c1)"
  have mv: "moves t' = moves t1 @ map (\<lambda>m. m\<lparr>move_from := ?src (move_from m)\<rparr>) ?new"
    using merge_moves_eq(7)[OF old _ _ res] o(1,2) inv by (simp add: I1_def)
  have src: "shifted_to D1 (unshifted I1 x) (?src x)" for x
    using ix.shift[OF inv(1)] ix.unshift[OF inv(2)] by (simp add: D1_def I1_def)
  have new: "?src (move_from m) \<in> shift_image D1 (unshift_image I1 D2) \<and> ?src (move_from m) \<notin> D1 \<and>
      A ! ?src (move_from m) = C ! move_to m \<and> move_to m \<in> I2"
    if "m \<in> set ?new" for m
  proof -
    have m: "move_from m \<in> D2" "move_from m \<notin> I1" "move_to m \<in> I2" "B ! move_from m = C ! move_to m"
      using that lc' by (auto simp: links_ok_def ball_Un)
    then have "move_from m < length B" using d2 by auto
    from kept_position(2)[OF d1(1)[symmetric] m(2) this src] m src[of "move_from m"] show ?thesis
      by (auto simp: shift_image_shifted unshift_image_def shifted_to_def)
  qed
  let ?D = "D1 \<union> shift_image D1 (unshift_image I1 D2)"
  let ?I = "I2 \<union> shift_image I2 (unshift_image D2 I1)"
  let ?ls2 = "map (\<lambda>m. (?src (move_from m), move_to m)) ?new"
  have us: "snd ` set used \<subseteq> I2" "move_to ` set (moves t) \<subseteq> I1"
    using lc' lt by (auto simp: links_ok_def ball_Un)
  have l1: "links_ok A C ?D ?I (map lk (moves t1))"
  proof -
    have "move_to m \<in> ?I" if "m \<in> set (moves t1)" for m
      using follows_dest(1)[OF _ us, of D2 "lk m"] u(2)[OF that] by simp
    with u(2-4) show ?thesis by (auto simp: links_ok_def comp_def)
  qed
  have dist: "distinct (map move_from ?new)" "distinct (map move_to ?new)"
    using lc' by (auto simp: links_ok_def comp_def distinct_map_filter)
  have "inj_on ?src (- I1)"
    using src unfolding shifted_to_def by (intro inj_onI) (metis ComplD unshifted_inj)
  then have "inj_on ?src (move_from ` set ?new)" by (rule inj_on_subset) auto
  with dist(1) have "distinct (map ?src (map move_from ?new))" by (simp add: distinct_map comp_inj_on)
  with new dist(2) have l2: "links_ok A C ?D ?I ?ls2"
    by (auto simp: links_ok_def comp_def)
  have "fst ` set (map lk (moves t1)) \<inter> fst ` set ?ls2 = {}" using new u(2) by force
  moreover have "snd ` set (map lk (moves t1)) \<inter> snd ` set ?ls2 = {}"
  proof -
    have dj: "move_to ` set (moves c1) \<inter> snd ` set used = {}"
      using lc' by (auto simp: links_ok_def image_image)
    have "move_to m \<noteq> move_to m'" if m: "m \<in> set (moves t1)" "m' \<in> set ?new" for m m'
    proof
      assume eq: "move_to m = move_to m'"
      with new[OF m(2)] follows_dest(2)[OF _ us, of D2 "lk m"] u(2)[OF m(1)]
      have "move_to m' \<in> snd ` set used" by simp
      with dj m(2) show False by auto
    qed
    then show ?thesis by auto
  qed
  ultimately have "links_ok A C ?D ?I (map lk (moves t1) @ ?ls2)" by (rule links_ok_appendI[OF l1 l2])
  then show ?thesis by (simp add: mv comp_def lk_def[abs_def])
qed

lemma diff_ok_compose:
  assumes "diff_ok A B D1 I1" "diff_ok B C D2 I2"
  shows "diff_ok A C (D1 \<union> shift_image D1 (unshift_image I1 D2)) (I2 \<union> shift_image I2 (unshift_image D2 I1))"
proof -
  have *: "keep A D1 = keep B I1" "keep B D2 = keep C I2" "D1 \<subseteq> {..< length A}" "I1 \<subseteq> {..< length B}"
    "D2 \<subseteq> {..< length B}" "I2 \<subseteq> {..< length C}" using assms by (auto simp: diff_ok_def)
  have fin: "finite D1" "finite I2" using *(3,6) finite_subset by blast+
  have "shift_image D1 (unshift_image I1 D2) \<subseteq> {..< length A}"
    using shift_image_rows(1)[OF fin(1)] unshift_image_rows(1)[OF *(5), of I1] *(1) by metis
  moreover have "shift_image I2 (unshift_image D2 I1) \<subseteq> {..< length C}"
    using shift_image_rows(1)[OF fin(2)] unshift_image_rows(1)[OF *(4), of D2] *(2) by metis
  ultimately show ?thesis using * keep_compose[OF *(1,2)] by (auto simp: diff_ok_def)
qed

text \<open>
  The merged builder. Its deletions come from \<open>add_shifted_by\<close>, whose cached counts are right
  when the result fits into the chunks of the builder (\<open>add_shifted_by_correct\<close>).
\<close>

definition merge_fits :: "change_builder \<Rightarrow> change_builder \<Rightarrow> bool" where
  "merge_fits t c \<longleftrightarrow>
     length (flat (is_add_shifted_by (deletions t) (insertions t) (deletions c))) \<le>
       max_size * (length (flat (deletions t)) div max_size + 1)"

lemma tracks_empty:
  assumes "tracks A B t" "cs_empty t"
  shows "A = B"
proof -
  have "keep A {} = keep B {}" using assms by (simp add: tracks_def diff_ok_def cs_empty_def crv_empty_def)
  then show ?thesis by simp
qed

lemma cb_merge_tracks:
  assumes t: "tracks A B t" "m_move_mapping t = []" and c: "tracks B C c" "m_move_mapping c = []"
    and fits: "merge_fits t c"
  shows "tracks A C (cb_merge t c)"
proof (cases "cs_empty c \<or> cs_empty t")
  case True
  with t c tracks_empty[OF t(1)] tracks_empty[OF c(1)] show ?thesis by (auto simp: cb_merge_def)
next
  case ne: False
  obtain t1 c1 where old: "merge_old t c = (t1, c1)" by (cases "merge_old t c")
  obtain t2 c2 where mm: "merge_moves t c = (t2, c2)" by (cases "merge_moves t c")
  let ?D1 = "elems (deletions t)" and ?I1 = "elems (insertions t)"
  let ?D2 = "elems (deletions c)" and ?I2 = "elems (insertions c)"
  let ?D = "?D1 \<union> shift_image ?D1 (unshift_image ?I1 ?D2)"
  let ?I = "?I2 \<union> shift_image ?I2 (unshift_image ?D2 ?I1)"
  have inv: "crv_inv (deletions t)" "crv_inv (insertions t)" "crv_inv (deletions c)" "crv_inv (insertions c)"
    using t c by (auto simp: tracks_def)
  note o = merge_old_links[OF t c old]
  have f: "deletions t2 = deletions t" "insertions t2 = insertions t" "m_move_mapping t2 = []"
    "deletions c2 = deletions c" "insertions c2 = insertions c"
    using merge_moves_eq[OF old _ _ mm] o(1-6) inv by simp_all
  define dels where "dels = is_add_shifted_by (deletions t) (insertions t) (deletions c)"
  define inss where "inss = is_insert_at_set (is_erase_at_set (insertions t) (deletions c)) (insertions c)"
  have D: "crv_inv dels" "elems dels = ?D"
    using add_shifted_by_correct[OF inv(1-3)] fits by (auto simp: dels_def merge_fits_def)
  have I: "crv_inv inss" "elems inss = ?I"
    using insert_at_set_correct[of "is_erase_at_set (insertions t) (deletions c)" "insertions c"]
      erase_at_set_correct[OF inv(2,3)] inv(4) by (auto simp: inss_def)
  have "diff_ok A C (elems dels) (elems inss)"
    unfolding D(2) I(2) using t c by (intro diff_ok_compose) (auto simp: tracks_def)
  moreover have "links_ok A C (elems dels) (elems inss) (map lk (moves t2))"
    unfolding D(2) I(2) using merged_links[OF t c mm] .
  moreover obtain ms dels' inss' where ds: "drop_stale (moves t2) dels inss = (ms, dels', inss')"
    by (cases "drop_stale (moves t2) dels inss")
  ultimately have st: "crv_inv dels'" "crv_inv inss'" "diff_ok A C (elems dels') (elems inss')"
    "links_ok A C (elems dels') (elems inss') (map lk ms)"
    using drop_stale_correct[OF D(1) I(1)] by blast+
  have "deletions (cb_merge t c) = dels' \<and> insertions (cb_merge t c) = inss' \<and>
      moves (cb_merge t c) = ms \<and> m_move_mapping (cb_merge t c) = []"
    using ne mm ds f
    by (auto simp: cb_merge_def Let_def clean_up_stale_moves_def dels_def[symmetric] inss_def[symmetric]
        split: prod.splits)
  with st show ?thesis by (simp add: tracks_def links_def lk_def[abs_def])
qed

end
