(* ===== verification/Change_Rows.thy ===== *)
theory Change_Rows
  imports Change_Merge
begin

text \<open>
  The operations for table rows, which have no order of their own: \<open>move_over\<close> (the last
  row takes the place of a deleted one), \<open>swap\<close>, and \<open>parse_complete\<close>, which turns
  the mapping kept for them into moves. They keep the relation \<open>tracks\<close> for the list of rows
  when the same change is made to it.
\<close>

subsection \<open>The mapping of moved rows\<close>

definition mapping_ok :: "'a list \<Rightarrow> 'a list \<Rightarrow> nat set \<Rightarrow> nat set \<Rightarrow> (nat \<times> nat) list \<Rightarrow> bool" where
  "mapping_ok A B D I L \<longleftrightarrow> distinct (map fst L) \<and> inj_on snd (set L) \<and>
     (\<forall>kv \<in> set L. fst kv \<in> I \<and> snd kv \<in> D \<and> A ! snd kv = B ! fst kv)"

lemma links_mapping_ok: "links_ok A B D I (map prod.swap L) \<longleftrightarrow> mapping_ok A B D I L"
proof -
  have "distinct (map snd L) \<longleftrightarrow> inj_on snd (set L)" if "distinct (map fst L)"
    using that by (auto simp: distinct_map)
  then show ?thesis by (auto simp: links_ok_def mapping_ok_def comp_def)
qed

lemma set_delete: "set (AList.delete k L) = {kv \<in> set L. fst kv \<noteq> k}"
  by (auto simp: AList.delete_eq)

lemma set_update:
  "distinct (map fst L) \<Longrightarrow> set (AList.update k v L) = insert (k, v) {kv \<in> set L. fst kv \<noteq> k}"
  by (induction L) (auto simp: image_iff)

lemma distinct_fst_delete: "distinct (map fst L) \<Longrightarrow> distinct (map fst (AList.delete k L))"
  by (simp add: AList.distinct_delete)

lemma distinct_fst_update: "distinct (map fst L) \<Longrightarrow> distinct (map fst (AList.update k v L))"
  by (simp add: AList.distinct_update)

lemmas alist_sets = set_delete set_update distinct_fst_delete distinct_fst_update

lemma mapping_okI:
  assumes "mapping_ok A B D I L" "distinct (map fst L')" "inj_on snd (set L')"
    "\<And>k v. (k, v) \<in> set L' \<Longrightarrow>
       (k, v) \<in> set L \<and> k \<in> I' \<and> B' ! k = B ! k \<or> k \<in> I' \<and> v \<in> D' \<and> A ! v = B' ! k" "D \<subseteq> D'"
  shows "mapping_ok A B' D' I' L'"
  using assms unfolding mapping_ok_def by (metis fst_conv prod.collapse snd_conv subsetD)

subsection \<open>Marking a row as deleted and inserted\<close>

lemma keep_update: "i \<in> I \<Longrightarrow> keep (B[i := v]) I = keep B I"
proof (cases "i < length B")
  case True
  moreover assume "i \<in> I"
  moreover have "B = take i B @ [B ! i] @ drop (Suc i) B" using True by (simp add: id_take_nth_drop)
  moreover have "B[i := v] = take i B @ [v] @ drop (Suc i) B" using True by (simp add: upd_conv_take_nth_drop)
  ultimately show ?thesis
    using keep_append[of "take i B" "[v] @ drop (Suc i) B" I]
      keep_append[of "take i B" "[B ! i] @ drop (Suc i) B" I]
    by (simp add: keep_def nths_Cons)
qed (simp add: list_update_beyond)

lemma diff_ok_update: "diff_ok A B D I \<Longrightarrow> i \<in> I \<Longrightarrow> diff_ok A (B[i := v]) D I"
  by (simp add: diff_ok_def keep_update)

lemma diff_ok_mark:
  assumes "diff_ok A B D I" "i \<notin> I" "i < length B" "shifted_to D (unshifted I i) x"
  shows "diff_ok A B (insert x D) (insert i I)" "x < length A" "A ! x = B ! i" "x \<notin> D"
proof -
  have d: "keep A D = keep B I" using assms(1) by (simp add: diff_ok_def)
  have x: "x \<notin> D" "unshifted D x = unshifted I i" using assms(4) by (auto simp: shifted_to_def)
  show b: "x < length A" "A ! x = B ! i"
    using kept_nth_eq[OF d[symmetric] assms(2) x(1) x(2)[symmetric] assms(3)] by simp_all
  show "x \<notin> D" by (fact x(1))
  have "keep A (insert x D) = keep B (insert i I)"
    using keep_insert[OF x(1), of A] keep_insert[OF assms(2), of B] d x(2) by simp
  then show "diff_ok A B (insert x D) (insert i I)" using assms(1,3) b(1) by (auto simp: diff_ok_def)
qed

lemma diff_ok_drop_last:
  assumes "diff_ok A B D I" "length B = Suc l" "l \<in> I"
  shows "diff_ok A (butlast B) D (I - {l})"
proof -
  have "unshifted {l} x = x" if "x \<in> I - {l}" for x
  proof -
    have "x < l" using that assms(1,2) by (auto simp: diff_ok_def less_Suc_eq)
    then show ?thesis by (simp add: unshifted_single)
  qed
  then have "unshifted {l} ` (I - {l}) = (\<lambda>x. x) ` (I - {l})" by (intro image_cong) auto
  then have "unshift_image {l} I = I - {l}" by (simp add: unshift_image_def)
  moreover have "keep B {l} = butlast B"
    using assms(2) keep_single[of l B] by (simp add: butlast_conv_take)
  ultimately show ?thesis using diff_ok_lose_inserted[OF assms(1), of "{l}"] assms(3) by simp
qed

lemma last_range_end_iff:
  assumes "crv_inv m" "elems m \<subseteq> {..< Suc l}"
  shows "\<not> crv_empty m \<and> last_range_end m = l + 1 \<longleftrightarrow> l \<in> elems m"
proof (cases "m = []")
  case False
  have "flat m \<noteq> []" using assms(1) False crv_inv_empty_iff[OF assms(1)] by (auto simp: elems_def)
  then obtain rs r where fl: "flat m = rs @ [r]" by (metis rev_exhaust)
  have "cursor m (crv_end m) (rs @ [r]) []" using cursor_endI[of m] assms(1) fl by (simp add: crv_inv_def)
  then have "cursor m (it_prev m (crv_end m)) rs [r]" using cursor_prev by fastforce
  then have e: "last_range_end m = snd r" by (simp add: last_range_end_def)
  have ok: "ranges_ok (rs @ [r])" using assms(1) fl by (simp add: crv_inv_def)
  then have r: "fst r < snd r" "\<forall>s \<in> set rs. snd s \<le> fst r"
    by (auto simp: ranges_ok_append ranges_ok_Cons less_imp_le)
  have el: "elems m = elems_of rs \<union> {fst r ..< snd r}" using fl by (simp add: elems_def)
  then have "snd r - 1 \<in> elems m" using r by auto
  then have "snd r \<le> l + 1" using assms(2) by auto
  then show ?thesis using e el r elems_of_less[OF r(2), of l] False by (auto simp: crv_empty_def)
qed (simp add: crv_empty_def)


subsection \<open>The last row takes the place of another\<close>

definition over :: "nat \<Rightarrow> 'a list \<Rightarrow> 'a list" where
  "over row B = (if row = length B - 1 then butlast B else butlast (B[row := last B]))"

text \<open>The sets after \<open>move_over\<close>, first for the last row, then for the row it replaces.\<close>

lemma add_shifted_mark:
  assumes "diff_ok A B (elems dels) (elems inss)" "crv_inv dels" "crv_inv inss"
    "i \<notin> elems inss" "i < length B" "is_add_shifted dels (is_unshift inss i) = (d, x)"
  shows "crv_inv d" "elems d = insert x (elems dels)" "x \<notin> elems dels" "A ! x = B ! i"
    "diff_ok A B (elems d) (insert i (elems inss))"
proof -
  note a = ix.add_shifted[OF assms(2,6)]
  with ix.unshift[OF assms(3)] have "shifted_to (elems dels) (unshifted (elems inss) i) x" by simp
  note m = diff_ok_mark[OF assms(1,4,5) this]
  show "crv_inv d" "elems d = insert x (elems dels)" "x \<notin> elems dels" "A ! x = B ! i"
    "diff_ok A B (elems d) (insert i (elems inss))" using a m by auto
qed

lemma elems_remove1: "crv_inv m \<Longrightarrow> crv_inv (is_remove m i 1) \<and> elems (is_remove m i 1) = elems m - {i}"
  using ix.remove[of m 1 i] by auto

lemma over_nth:
  assumes "length B = Suc l" "row < l" "k < l"
  shows "over row B ! k = (if k = row then B ! l else B ! k)"
proof -
  have "last B = B ! l" using assms(1) by (cases B rule: rev_cases) auto
  with assms show ?thesis by (auto simp: over_def nth_butlast nth_list_update)
qed

lemma replaced_diff:
  assumes "diff_ok A B D I" "length B = Suc l" "row < l" "l \<in> I" "row \<in> I"
  shows "diff_ok A (over row B) D (I - {l})"
proof -
  have "diff_ok A (B[row := last B]) D I" using assms by (intro diff_ok_update)
  from diff_ok_drop_last[OF this, of l] assms show ?thesis by (simp add: over_def)
qed

text \<open>What \<open>move_over\<close> does to the sets and the mapping when the rows differ.\<close>

lemma move_over_sets:
  assumes ok: "diff_ok A B D I" "mapping_ok A B D I L" and B: "length B = Suc l" "row < l"
    and D: "D \<subseteq> D'" "I \<union> {l} \<subseteq> I'" "diff_ok A B D' I'" "row \<in> I'"
    and L': "distinct (map fst L')" "inj_on snd (set L')"
    and src: "\<And>k v. (k, v) \<in> set L' \<Longrightarrow>
      (k, v) \<in> set L \<and> k \<noteq> row \<and> k \<noteq> l \<or> k = row \<and> v \<in> D' \<and> A ! v = B ! l"
  shows "diff_ok A (over row B) D' (I' - {l})" "mapping_ok A (over row B) D' (I' - {l}) L'"
proof -
  show "diff_ok A (over row B) D' (I' - {l})" using D B by (intro replaced_diff) auto
  have I: "I \<subseteq> {..< Suc l}" using ok(1) B(1) by (simp add: diff_ok_def)
  show "mapping_ok A (over row B) D' (I' - {l}) L'"
  proof (rule mapping_okI[OF ok(2) L' _ D(1)])
    fix k v assume kv: "(k, v) \<in> set L'"
    have "k \<in> I \<and> k < l" if "(k, v) \<in> set L" "k \<noteq> l"
    proof -
      have "k \<in> I" using that(1) ok(2) by (force simp: mapping_ok_def)
      with I that(2) show ?thesis by auto
    qed
    with src[OF kv] over_nth[OF B, of k] over_nth[OF B B(2)] D(2,4) B(2)
    show "(k, v) \<in> set L \<and> k \<in> I' - {l} \<and> over row B ! k = B ! k \<or>
        k \<in> I' - {l} \<and> v \<in> D' \<and> A ! v = over row B ! k" by auto
  qed
qed

lemma tracks_rows: "moves t = [] \<Longrightarrow> tracks A B t \<longleftrightarrow>
   crv_inv (deletions t) \<and> crv_inv (insertions t) \<and>
   diff_ok A B (elems (deletions t)) (elems (insertions t)) \<and>
   mapping_ok A B (elems (deletions t)) (elems (insertions t)) (m_move_mapping t)"
  by (simp add: tracks_def links_def links_mapping_ok)

lemma mapping_key_inserted: "mapping_ok A B D I L \<Longrightarrow> map_of L k = Some v \<Longrightarrow> k \<in> I \<and> v \<in> D \<and> A ! v = B ! k"
  by (force simp: mapping_ok_def dest: map_of_SomeD)

lemma mapping_no_key: "mapping_ok A B D I L \<Longrightarrow> k \<notin> I \<Longrightarrow> (k, v) \<notin> set L"
  by (force simp: mapping_ok_def)

lemma mapping_unique: "mapping_ok A B D I L \<Longrightarrow> (k, v) \<in> set L \<Longrightarrow> (k', v) \<in> set L \<Longrightarrow> k = k'"
  unfolding mapping_ok_def by (metis inj_onD prod.inject snd_conv)

lemma mapping_injD: "mapping_ok A B D I L \<Longrightarrow> inj_on snd (set L)"
  by (simp add: mapping_ok_def)

text \<open>The effect of \<open>move_over\<close> as the sets and mapping it computes.\<close>

definition over_mapping :: "nat \<Rightarrow> nat \<Rightarrow> nat option \<Rightarrow> (nat \<times> nat) list \<Rightarrow> (nat \<times> nat) list" where
  "over_mapping row l moved L =
     (case moved of Some old \<Rightarrow> AList.delete l (AList.update row old L) | None \<Rightarrow> AList.delete row L)"

lemma delete_absent: "k \<notin> fst ` set L \<Longrightarrow> AList.delete k L = L"
  by (simp add: AList.delete_idem)

lemma move_over_distinct_fields:
  assumes ne: "row \<noteq> l" and L: "mapping_ok A B D (elems (insertions t)) (m_move_mapping t)"
    and inv: "crv_inv (insertions t)" "elems (insertions t) \<subseteq> {..< Suc l}"
  defines "t' \<equiv> cb_move_over row l True t"
    and "moved \<equiv> (if l \<in> elems (insertions t) then map_of (m_move_mapping t) l else None)"
  defines "inss1 \<equiv> (if l \<in> elems (insertions t) then is_remove (insertions t) l 1 else insertions t)"
    and "dx \<equiv> is_add_shifted (deletions t) (is_unshift (insertions t) l)"
  defines "dels1 \<equiv> (if l \<in> elems (insertions t) then deletions t else fst dx)"
  shows "moves t' = moves t"
    "m_move_mapping t' = (if l \<in> elems (insertions t) then over_mapping row l moved (m_move_mapping t)
       else AList.update row (snd dx) (AList.delete row (m_move_mapping t)))"
    "deletions t' = (if row \<in> elems (insertions t) then dels1
       else fst (is_add_shifted dels1 (is_unshift inss1 row)))"
    "insertions t' = (if row \<in> elems (insertions t) then inss1 else is_add inss1 row)"
proof -
  have row: "row \<notin> elems (insertions t) \<Longrightarrow> AList.delete row (m_move_mapping t) = m_move_mapping t"
    using mapping_no_key[OF L] by (intro delete_absent) auto
  note def = cb_move_over_def Let_def last_range_end_iff[OF inv, simplified] ix.mem[OF inv(1)] ne
  note defs = t'_def moved_def inss1_def dx_def dels1_def over_mapping_def
  show "moves t' = moves t" "m_move_mapping t' = (if l \<in> elems (insertions t)
      then over_mapping row l moved (m_move_mapping t)
      else AList.update row (snd dx) (AList.delete row (m_move_mapping t)))"
    "deletions t' = (if row \<in> elems (insertions t) then dels1
       else fst (is_add_shifted dels1 (is_unshift inss1 row)))"
    "insertions t' = (if row \<in> elems (insertions t) then inss1 else is_add inss1 row)"
    using row unfolding defs by (auto simp: def split: prod.splits option.splits)
qed

lemma below_drop_above: "row < l \<Longrightarrow> unshifted (E - {l}) row = unshifted (insert l E) row"
proof -
  assume "row < l"
  then have "{y \<in> E - {l}. y < row} = {y \<in> insert l E. y < row}" by auto
  then show ?thesis by (simp add: unshifted_def below_def)
qed

lemma move_over_last:
  assumes t: "tracks A B t" "moves t = []" and B: "length B = Suc l" "length B \<le> npos"
  shows "tracks A (butlast B) (cb_move_over l l True t)"
proof -
  let ?t = "cb_move_over l l True t"
  have ok: "diff_ok A B (elems (deletions t)) (elems (insertions t))" "crv_inv (deletions t)"
    "crv_inv (insertions t)" "mapping_ok A B (elems (deletions t)) (elems (insertions t)) (m_move_mapping t)"
    using t by (simp_all add: tracks_rows)
  obtain inss' u where er: "is_erase_or_unshift (insertions t) l = (inss', u)"
    by (cases "is_erase_or_unshift (insertions t) l")
  have f: "insertions ?t = inss'" "moves ?t = []" "m_move_mapping ?t = AList.delete l (m_move_mapping t)"
    and d: "deletions ?t = (if u \<noteq> npos then fst (is_add_shifted (deletions t) u) else deletions t)"
    using er t(2) by (auto simp: cb_move_over_def Let_def)
  have l: "l < length B" using B by simp
  note e = erase_diff[OF ok(1-3) l B(2) er d]
  have kl: "keep B {l} = butlast B" using keep_single[OF l] B by (simp add: butlast_conv_take)
  have "mapping_ok A (butlast B) (elems (deletions ?t)) (elems inss') (AList.delete l (m_move_mapping t))"
  proof (rule mapping_okI[OF ok(4)])
    fix k v assume "(k, v) \<in> set (AList.delete l (m_move_mapping t))"
    then have kv: "(k, v) \<in> set (m_move_mapping t)" "k \<noteq> l" by (auto simp: set_delete)
    then have "k \<in> elems (insertions t)" "k < l"
      using ok(1,4) B(1) by (force simp: mapping_ok_def diff_ok_def)+
    moreover from this have "unshifted {l} k = k" by (simp add: unshifted_single)
    ultimately have "k \<in> elems inss'" unfolding e(3) unshift_image_def using kv(2) by force
    with kv \<open>k < l\<close> B(1) show "(k, v) \<in> set (m_move_mapping t) \<and> k \<in> elems inss' \<and> butlast B ! k = B ! k \<or>
        k \<in> elems inss' \<and> v \<in> elems (deletions ?t) \<and> A ! v = butlast B ! k"
      by (simp add: nth_butlast)
  qed (use ok(4) e(5) in \<open>auto simp: mapping_ok_def alist_sets intro: inj_on_subset\<close>)
  with e f kl show ?thesis by (simp add: tracks_rows)
qed

lemma over_mapping_sets:
  assumes L: "mapping_ok A B D I L" and ne: "row \<noteq> l" and moved: "moved = map_of L l" "l \<in> I"
  defines "L' \<equiv> over_mapping row l moved L"
  shows "distinct (map fst L')" "inj_on snd (set L')"
    "(k, v) \<in> set L' \<Longrightarrow> (k, v) \<in> set L \<and> k \<noteq> row \<and> k \<noteq> l \<or> k = row \<and> v \<in> D \<and> A ! v = B ! l"
proof -
  have d: "distinct (map fst L)" using L by (simp add: mapping_ok_def)
  show "distinct (map fst L')"
    using d by (auto simp: L'_def over_mapping_def alist_sets split: option.splits)
  have sub: "set L' = (case moved of Some old \<Rightarrow> insert (row, old) {kv \<in> set L. fst kv \<noteq> row \<and> fst kv \<noteq> l}
      | None \<Rightarrow> {kv \<in> set L. fst kv \<noteq> row})"
    using d ne by (auto simp: L'_def over_mapping_def alist_sets split: option.splits)
  show "inj_on snd (set L')"
  proof (cases moved)
    case None
    then show ?thesis using sub mapping_injD[OF L] by (auto intro: inj_on_subset)
  next
    case (Some old)
    then have "(l, old) \<in> set L" using moved by (simp add: map_of_SomeD)
    then have "(k, old) \<in> set L \<Longrightarrow> k = l" for k using mapping_unique[OF L] by blast
    with Some sub mapping_injD[OF L] show ?thesis
      by (auto simp: inj_on_insert intro: inj_on_subset)
  qed
  show "(k, v) \<in> set L' \<Longrightarrow> (k, v) \<in> set L \<and> k \<noteq> row \<and> k \<noteq> l \<or> k = row \<and> v \<in> D \<and> A ! v = B ! l"
    using sub mapping_key_inserted[OF L, of l] moved d
    by (auto split: option.splits simp: map_of_eq_None_iff image_iff)
qed

lemma move_over_other:
  assumes t: "tracks A B t" "moves t = []" and B: "length B = Suc l" "row < l"
  shows "tracks A (over row B) (cb_move_over row l True t)"
proof -
  let ?t = "cb_move_over row l True t" and ?D = "elems (deletions t)" and ?I = "elems (insertions t)"
  let ?L = "m_move_mapping t"
  have ok: "diff_ok A B ?D ?I" "crv_inv (deletions t)" "crv_inv (insertions t)" "mapping_ok A B ?D ?I ?L"
    using t by (simp_all add: tracks_rows)
  have sub: "?I \<subseteq> {..< Suc l}" using ok(1) B by (simp add: diff_ok_def)
  have ne: "row \<noteq> l" using B by simp
  note f = move_over_distinct_fields[OF ne ok(4,3) sub]
  define inss1 where "inss1 = (if l \<in> ?I then is_remove (insertions t) l 1 else insertions t)"
  obtain d x where dx: "is_add_shifted (deletions t) (is_unshift (insertions t) l) = (d, x)"
    by (cases "is_add_shifted (deletions t) (is_unshift (insertions t) l)")
  define dels1 where "dels1 = (if l \<in> ?I then deletions t else d)"
  have i1: "crv_inv inss1" "elems inss1 = ?I - {l}"
    using elems_remove1[OF ok(3)] ok(3) by (auto simp: inss1_def)
  have mark: "l \<notin> ?I \<Longrightarrow> crv_inv d \<and> elems d = insert x ?D \<and> x \<notin> ?D \<and> A ! x = B ! l \<and>
      diff_ok A B (elems d) (insert l ?I)"
    using add_shifted_mark[OF ok(1-3) _ _ dx] B by auto
  have d1: "crv_inv dels1" "?D \<subseteq> elems dels1" "diff_ok A B (elems dels1) (insert l ?I)"
    using mark ok by (auto simp: dels1_def insert_absorb)
  have row: "row \<notin> ?I \<Longrightarrow> \<exists>d2 x2. is_add_shifted dels1 (is_unshift inss1 row) = (d2, x2) \<and> crv_inv d2 \<and>
      elems d2 = insert x2 (elems dels1) \<and> diff_ok A B (elems d2) (insert row (insert l ?I))"
  proof -
    assume "row \<notin> ?I"
    obtain d2 x2 where 2: "is_add_shifted dels1 (is_unshift inss1 row) = (d2, x2)"
      by (cases "is_add_shifted dels1 (is_unshift inss1 row)")
    note a = ix.add_shifted[OF d1(1) 2]
    then have "shifted_to (elems dels1) (unshifted (insert l ?I) row) x2"
      using ix.unshift[OF i1(1), of row] i1(2) below_drop_above[OF B(2), of ?I] by simp
    from diff_ok_mark(1)[OF d1(3) _ _ this] a 2 \<open>row \<notin> ?I\<close> B show ?thesis by auto
  qed
  have f3: "deletions ?t = (if row \<in> ?I then dels1 else fst (is_add_shifted dels1 (is_unshift inss1 row)))"
    "insertions ?t = (if row \<in> ?I then inss1 else is_add inss1 row)"
    using f(3,4) dx unfolding dels1_def inss1_def by simp_all
  define I' where "I' = insert row (insert l ?I)"
  have fin: "crv_inv (deletions ?t)" "elems (deletions ?t) \<supseteq> elems dels1"
    "diff_ok A B (elems (deletions ?t)) I'" "crv_inv (insertions ?t)" "elems (insertions ?t) = I' - {l}"
    using f3 d1 row i1 ix.add[OF i1(1), of row] ne
    by (auto simp: I'_def insert_absorb)
  let ?L' = "m_move_mapping ?t"
  have L': "distinct (map fst ?L') \<and> inj_on snd (set ?L') \<and> (\<forall>k v. (k, v) \<in> set ?L' \<longrightarrow>
      (k, v) \<in> set ?L \<and> k \<noteq> row \<and> k \<noteq> l \<or> k = row \<and> v \<in> elems (deletions ?t) \<and> A ! v = B ! l)"
  proof (cases "l \<in> ?I")
    case True
    then have eq: "?L' = over_mapping row l (map_of ?L l) ?L" using f(2) by simp
    show ?thesis unfolding eq using over_mapping_sets[OF ok(4) ne refl True] d1(2) fin(2) by blast
  next
    case False
    have d: "distinct (map fst ?L)" using ok(4) by (simp add: mapping_ok_def)
    have L': "?L' = AList.update row x (AList.delete row ?L)" using f(2) False dx by simp
    then have set: "set ?L' = insert (row, x) {kv \<in> set ?L. fst kv \<noteq> row}" using d by (auto simp: alist_sets)
    have "x \<notin> snd ` set ?L" using mark[OF False] ok(4) by (auto simp: mapping_ok_def)
    then have "inj_on snd (set ?L')"
      using mapping_injD[OF ok(4)] unfolding set by (auto simp: inj_on_insert intro: inj_on_subset)
    moreover have "x \<in> elems (deletions ?t)" using mark[OF False] fin(2) False by (auto simp: dels1_def)
    ultimately show ?thesis
      using d L' set mark[OF False] mapping_no_key[OF ok(4) False] by (auto simp: alist_sets)
  qed
  have "diff_ok A (over row B) (elems (deletions ?t)) (I' - {l})"
    "mapping_ok A (over row B) (elems (deletions ?t)) (I' - {l}) ?L'"
    using move_over_sets[OF ok(1,4) B _ _ fin(3), of ?L'] L' d1(2) fin(2) by (auto simp: I'_def)
  then show ?thesis using fin t(2) f(1) by (simp add: tracks_rows)
qed

lemma cb_move_over_tracks:
  assumes "tracks A B t" "moves t = []" "length B = Suc l" "row \<le> l" "length B \<le> npos"
  shows "tracks A (over row B) (cb_move_over row l True t)"
  using assms move_over_last[OF assms(1-3,5)] move_over_other[OF assms(1-3), of row]
  by (cases "row = l") (auto simp: over_def)


subsection \<open>Swapping two rows\<close>

definition swap_rows :: "nat \<Rightarrow> nat \<Rightarrow> 'a list \<Rightarrow> 'a list" where
  "swap_rows a b B = B[a := B ! b, b := B ! a]"

text \<open>
  While \<open>swap\<close> works, the sets describe the list before the swap and the mapping already the
  list after it.
\<close>

definition swapping :: "'a list \<Rightarrow> 'a list \<Rightarrow> nat \<Rightarrow> nat \<Rightarrow> change_builder \<Rightarrow> bool" where
  "swapping A B a b t \<longleftrightarrow> crv_inv (deletions t) \<and> crv_inv (insertions t) \<and> moves t = [] \<and>
     diff_ok A B (elems (deletions t)) (elems (insertions t)) \<and>
     distinct (map fst (m_move_mapping t)) \<and> inj_on snd (set (m_move_mapping t)) \<and>
     (\<forall>(k, v) \<in> set (m_move_mapping t). v \<in> elems (deletions t) \<and>
        (k \<noteq> a \<and> k \<noteq> b \<and> k \<in> elems (insertions t) \<and> A ! v = B ! k \<or>
         k = a \<and> A ! v = B ! b \<or> k = b \<and> A ! v = B ! a))"

lemma inj_on_snd_update:
  assumes "distinct (map fst L)" "inj_on snd (set L)" "\<And>k'. (k', v) \<in> set L \<Longrightarrow> k' = k"
  shows "inj_on snd (set (AList.update k v L))"
proof -
  have "inj_on snd {kv \<in> set L. fst kv \<noteq> k}" using assms(2) by (rule inj_on_subset) auto
  moreover have "v \<notin> snd ` {kv \<in> set L. fst kv \<noteq> k}" using assms(3) by auto
  ultimately show ?thesis using assms(1) by (auto simp: set_update inj_on_insert)
qed

lemma move_source_swapping:
  assumes sw: "swapping A B a b t" and i: "i < length B" "{i, key} = {a, b}" "a \<noteq> b"
  shows "swapping A B a b (move_source i key t)" "i \<in> elems (insertions (move_source i key t))"
    "elems (insertions t) \<subseteq> elems (insertions (move_source i key t))"
proof -
  have inv: "crv_inv (deletions t)" "crv_inv (insertions t)"
    "diff_ok A B (elems (deletions t)) (elems (insertions t))" using sw by (auto simp: swapping_def)
  have "swapping A B a b (move_source i key t) \<and> i \<in> elems (insertions (move_source i key t)) \<and>
    elems (insertions t) \<subseteq> elems (insertions (move_source i key t))"
  proof (cases "i \<in> elems (insertions t)")
    case True
    then show ?thesis using sw inv by (simp add: move_source_def ix.mem)
  next
    case False
    obtain d x where dx: "is_add_shifted (deletions t) (is_unshift (insertions t) i) = (d, x)"
      by (cases "is_add_shifted (deletions t) (is_unshift (insertions t) i)")
    note m = add_shifted_mark[OF inv(3,1,2) False i(1) dx]
    let ?L = "m_move_mapping t"
    have t': "move_source i key t = t\<lparr>deletions := d, m_move_mapping := AList.update key x ?L,
        insertions := is_add (insertions t) i\<rparr>"
      using False inv(2) dx by (simp add: move_source_def ix.mem)
    have L: "distinct (map fst ?L)" "inj_on snd (set ?L)" "x \<notin> snd ` set ?L"
      using sw m(3) by (auto simp: swapping_def)
    have "inj_on snd (set (AList.update key x ?L))"
      using L by (intro inj_on_snd_update) (auto simp: image_iff)
    moreover have "key = a \<and> i = b \<or> key = b \<and> i = a" using i(2,3) by (auto simp: doubleton_eq_iff)
    ultimately show ?thesis
      using sw m(1,2,4,5) ix.add[OF inv(2), of i] L(1) unfolding t'
      by (auto simp: swapping_def alist_sets)
  qed
  then show "swapping A B a b (move_source i key t)" "i \<in> elems (insertions (move_source i key t))"
    "elems (insertions t) \<subseteq> elems (insertions (move_source i key t))" by auto
qed

lemma swapping_done:
  assumes "swapping A B a b t" "a \<in> elems (insertions t)" "b \<in> elems (insertions t)" "a \<noteq> b"
  shows "tracks A (swap_rows a b B) t"
proof -
  have ab: "a < length B" "b < length B" using assms(1-3) by (auto simp: swapping_def diff_ok_def)
  have "diff_ok A (swap_rows a b B) (elems (deletions t)) (elems (insertions t))"
    unfolding swap_rows_def using assms(1-3) by (intro diff_ok_update) (auto simp: swapping_def)
  moreover have "mapping_ok A (swap_rows a b B) (elems (deletions t)) (elems (insertions t)) (m_move_mapping t)"
    using assms ab by (auto simp: swapping_def mapping_ok_def swap_rows_def nth_list_update)
  ultimately show ?thesis using assms(1) by (simp add: tracks_rows swapping_def)
qed

lemma swapping_update:
  assumes t: "tracks A B t" "moves t = []" and s: "map_of (m_move_mapping t) j = Some old" and ab: "a \<noteq> b"
    "{i, j} = {a, b}" "map_of (m_move_mapping t) i = None"
  shows "swapping A B a b
    (t\<lparr>m_move_mapping := AList.update i old (AList.delete j (m_move_mapping t))\<rparr>)"
proof -
  let ?L = "m_move_mapping t"
  have ok: "mapping_ok A B (elems (deletions t)) (elems (insertions t)) ?L" using t by (simp add: tracks_rows)
  have d: "distinct (map fst ?L)" using ok by (simp add: mapping_ok_def)
  have jo: "(j, old) \<in> set ?L" using s by (rule map_of_SomeD)
  have nk: "(i, v) \<notin> set ?L" for v using ab(3) by (auto simp: map_of_eq_None_iff image_iff)
  have "inj_on snd (set (AList.delete j ?L))"
    using mapping_injD[OF ok] by (rule inj_on_subset) (auto simp: set_delete)
  moreover have "k = i" if "(k, old) \<in> set (AList.delete j ?L)" for k
    using that mapping_unique[OF ok jo, of k] by (auto simp: set_delete)
  ultimately have "inj_on snd (set (AList.update i old (AList.delete j ?L)))"
    using d by (intro inj_on_snd_update distinct_fst_delete)
  moreover have "i = a \<and> j = b \<or> i = b \<and> j = a" using ab(1,2) by (auto simp: doubleton_eq_iff)
  ultimately show ?thesis
    using t jo d nk mapping_key_inserted[OF ok s] ok
    by (auto simp: swapping_def tracks_rows alist_sets mapping_ok_def)
qed

lemma swapping_both:
  assumes t: "tracks A B t" "moves t = []" and ab: "a \<noteq> b"
    and s: "map_of (m_move_mapping t) a = Some o1" "map_of (m_move_mapping t) b = Some o2"
  shows "swapping A B a b
    (t\<lparr>m_move_mapping := AList.update a o2 (AList.update b o1 (m_move_mapping t))\<rparr>)"
proof -
  let ?L = "m_move_mapping t"
  have ok: "mapping_ok A B (elems (deletions t)) (elems (insertions t)) ?L" using t by (simp add: tracks_rows)
  have d: "distinct (map fst ?L)" using ok by (simp add: mapping_ok_def)
  have set: "set (AList.update a o2 (AList.update b o1 ?L)) =
      {(a, o2), (b, o1)} \<union> {kv \<in> set ?L. fst kv \<noteq> a \<and> fst kv \<noteq> b}"
    using d ab by (auto simp: alist_sets)
  have 12: "(a, o1) \<in> set ?L" "(b, o2) \<in> set ?L" using s by (auto dest: map_of_SomeD)
  have "o1 \<noteq> o2" using mapping_unique[OF ok 12(1), of b] 12(2) ab by auto
  moreover have "inj_on snd {kv \<in> set ?L. fst kv \<noteq> a \<and> fst kv \<noteq> b}"
    using mapping_injD[OF ok] by (rule inj_on_subset) auto
  moreover have "o1 \<notin> snd ` {kv \<in> set ?L. fst kv \<noteq> a \<and> fst kv \<noteq> b}"
    "o2 \<notin> snd ` {kv \<in> set ?L. fst kv \<noteq> a \<and> fst kv \<noteq> b}"
    using mapping_unique[OF ok 12(1)] mapping_unique[OF ok 12(2)] by auto
  ultimately have "inj_on snd (insert (a, o2) (insert (b, o1) {kv \<in> set ?L. fst kv \<noteq> a \<and> fst kv \<noteq> b}))"
    by (subst inj_on_insert, subst inj_on_insert) auto
  then have "inj_on snd (set (AList.update a o2 (AList.update b o1 ?L)))" unfolding set by simp
  then show ?thesis
    using t d mapping_key_inserted[OF ok s(1)] mapping_key_inserted[OF ok s(2)] ok
    unfolding swapping_def by (auto simp: tracks_rows set mapping_ok_def distinct_fst_update)
qed

lemma swap_ordered:
  assumes t: "tracks A B t" "moves t = []" and ab: "a < b" "b < length B"
  shows "tracks A (swap_rows a b B) (cb_swap a b True t)"
proof -
  define t0 where "t0 = for_each_col (swap_modified a b) t"
  have t0: "tracks A B t0" "moves t0 = []" "m_move_mapping t0 = m_move_mapping t"
    using t by (auto simp: t0_def tracks_rows)
  have ok: "mapping_ok A B (elems (deletions t0)) (elems (insertions t0)) (m_move_mapping t0)"
    using t0 by (simp add: tracks_rows)
  have ne: "a \<noteq> b" and lt: "a < length B" using ab by simp_all
  have sym: "\<not> b < a" using ab by simp
  show ?thesis
  proof (cases "map_of (m_move_mapping t0) a")
    case n1: None
    show ?thesis
    proof (cases "map_of (m_move_mapping t0) b")
      case None
      have "swapping A B a b t0"
        using t0 n1 None by (auto simp: swapping_def tracks_rows mapping_ok_def map_of_eq_None_iff image_iff)
      note m1 = move_source_swapping[OF this ab(2), of a]
      note m2 = move_source_swapping[OF m1(1) lt, of b]
      have "cb_swap a b True t = move_source a b (move_source b a t0)"
        using n1 None sym by (simp add: cb_swap_def t0_def[symmetric] t0(3))
      with m1 m2 ne show ?thesis by (auto intro!: swapping_done simp: insert_commute)
    next
      case (Some o2)
      note m = move_source_swapping[OF swapping_update[OF t0(1,2) Some ne _ n1] lt, of b]
      have "cb_swap a b True t = update_move o2 a b t0"
        using n1 Some sym by (simp add: cb_swap_def t0_def[symmetric] t0(3))
      with m ne mapping_key_inserted[OF ok Some] show ?thesis
        by (auto intro!: swapping_done simp: update_move_def)
    qed
  next
    case s1: (Some o1)
    show ?thesis
    proof (cases "map_of (m_move_mapping t0) b")
      case None
      note m = move_source_swapping[OF swapping_update[OF t0(1,2) s1 ne _ None] ab(2), of a]
      have "cb_swap a b True t = update_move o1 b a t0"
        using s1 None sym by (simp add: cb_swap_def t0_def[symmetric] t0(3))
      with m ne mapping_key_inserted[OF ok s1] show ?thesis
        by (auto intro!: swapping_done simp: update_move_def insert_commute)
    next
      case (Some o2)
      note m = swapping_both[OF t0(1,2) ne s1 Some]
      have "cb_swap a b True t = t0\<lparr>m_move_mapping :=
          AList.update a o2 (AList.update b o1 (m_move_mapping t0))\<rparr>"
        using s1 Some sym by (simp add: cb_swap_def t0_def[symmetric] t0(3))
      with m ne mapping_key_inserted[OF ok s1] mapping_key_inserted[OF ok Some] show ?thesis
        by (auto intro!: swapping_done)
    qed
  qed
qed

lemma cb_swap_tracks:
  assumes "tracks A B t" "moves t = []" "a \<noteq> b" "a < length B" "b < length B"
  shows "tracks A (swap_rows a b B) (cb_swap a b True t)"
proof (cases "a < b")
  case False
  then have "b < a" using assms(3) by simp
  moreover have "cb_swap a b True t = cb_swap b a True t" using \<open>b < a\<close> by (simp add: cb_swap_def)
  moreover have "swap_rows a b B = swap_rows b a B"
    using assms(3) by (simp add: swap_rows_def list_update_swap)
  ultimately show ?thesis using swap_ordered[OF assms(1,2), of b a] assms(4) by simp
qed (use assms swap_ordered in blast)

end
