(* ===== verification/Change_History.thy ===== *)
theory Change_History
  imports Change_Rows
begin

text \<open>
  Whole runs of row operations: a builder that started empty and recorded appended rows,
  \<open>move_over\<close>, \<open>swap\<close>, modifications and \<open>clear\<close> keeps every row it did not mark at its own index,
  and \<open>parse_complete\<close> then gives a change set with its moves in order.
\<close>

subsection \<open>Rows that stay in place\<close>

definition in_place :: "'a list \<Rightarrow> 'a list \<Rightarrow> nat set \<Rightarrow> nat set \<Rightarrow> bool" where
  "in_place A B D I \<longleftrightarrow> (\<forall>k. k < length A \<and> k \<notin> D \<longleftrightarrow> k < length B \<and> k \<notin> I)"

lemma in_place_unshifted:
  assumes "in_place A B D I" "k < length A" "k < length B"
  shows "unshifted D k = unshifted I k"
proof -
  have "y \<in> D \<longleftrightarrow> y \<in> I" if "y < k" for y
    using assms that unfolding in_place_def by (metis less_trans)
  then have "{y \<in> D. y < k} = {y \<in> I. y < k}" by auto
  then show ?thesis by (simp add: unshifted_def below_def)
qed

lemma in_place_source:
  assumes "in_place A B D I" "i \<notin> I" "i < length B" "shifted_to D (unshifted I i) x"
  shows "x = i"
proof -
  have "i < length A" "i \<notin> D" using assms(1-3) by (auto simp: in_place_def)
  then have "shifted_to D (unshifted I i) i"
    using in_place_unshifted[OF assms(1) _ assms(3)] by (simp add: shifted_to_def)
  then show ?thesis using assms(4) by (rule shifted_to_unique[THEN sym])
qed

lemma in_place_mark:
  "in_place A B D I \<Longrightarrow> in_place A B (insert i D) (insert i I)"
  by (auto simp: in_place_def)

lemma add_shifted_in_place:
  assumes "in_place A B (elems dels) I" "crv_inv dels" "crv_inv inss"
    "unshifted (elems inss) i = unshifted I i" "i \<notin> I" "i < length B"
  shows "elems (fst (is_add_shifted dels (is_unshift inss i))) = insert i (elems dels)"
proof -
  obtain d x where dx: "is_add_shifted dels (is_unshift inss i) = (d, x)"
    by (cases "is_add_shifted dels (is_unshift inss i)")
  note a = ix.add_shifted[OF assms(2) dx]
  with in_place_source[OF assms(1,5,6), of x] assms(3,4) have "x = i" by (simp add: ix.unshift)
  with a dx show ?thesis by simp
qed

subsection \<open>Each operation keeps unmarked rows in place\<close>

abbreviation tracked_in_place :: "'a list \<Rightarrow> 'a list \<Rightarrow> change_builder \<Rightarrow> bool" where
  "tracked_in_place A B t \<equiv> in_place A B (elems (deletions t)) (elems (insertions t))"

lemma append_in_place:
  assumes "tracks A B t" "tracked_in_place A B t" "new \<noteq> []"
  shows "tracked_in_place A (B @ new) (cb_insert (length B) (length new) True t)"
proof -
  let ?t = "cb_insert (length B) (length new) True t"
  have "deletions ?t = deletions t" and
    "elems (insertions ?t) = open_gap (length B) (length new) (elems (insertions t)) \<union>
       {length B ..< length B + length new}"
    using assms(1) ix.insert_at[of "insertions t"] by (auto simp: cb_insert_def Let_def tracks_def)
  moreover have "elems (insertions t) \<subseteq> {..< length B}" using assms(1) by (simp add: tracks_def diff_ok_def)
  ultimately have "k < length (B @ new) \<and> k \<notin> elems (insertions ?t) \<longleftrightarrow>
      k < length B \<and> k \<notin> elems (insertions t)" for k
    by (cases "k < length B") (auto simp: mem_open_gap)
  then show ?thesis using assms(2) \<open>deletions ?t = deletions t\<close> unfolding in_place_def by metis
qed

lemma move_over_in_place:
  assumes t: "tracks A B t" "moves t = []" "tracked_in_place A B t" and B: "length B = Suc l" "row \<le> l"
    "length B \<le> npos"
  shows "tracked_in_place A (over row B) (cb_move_over row l True t)"
proof -
  let ?t = "cb_move_over row l True t" and ?D = "elems (deletions t)" and ?I = "elems (insertions t)"
  have ok: "diff_ok A B ?D ?I" "crv_inv (deletions t)" "crv_inv (insertions t)"
    "mapping_ok A B ?D ?I (m_move_mapping t)" using t by (simp_all add: tracks_rows)
  have sub: "?I \<subseteq> {..< Suc l}" using ok(1) B by (simp add: diff_ok_def)
  have len: "length (over row B) = l" using B by (simp add: over_def)
  show ?thesis
  proof (cases "row = l")
    case True
    obtain inss' u where er: "is_erase_or_unshift (insertions t) l = (inss', u)"
      by (cases "is_erase_or_unshift (insertions t) l")
    have f: "insertions ?t = inss'"
      "deletions ?t = (if u \<noteq> npos then fst (is_add_shifted (deletions t) u) else deletions t)"
      using er True by (auto simp: cb_move_over_def Let_def)
    have l: "l < length B" using B by simp
    note e = ix.erase_or_unshift[OF ok(3) er]
    have u: "u \<noteq> npos \<longleftrightarrow> l \<notin> ?I" using erase_diff(6)[OF ok(1-3) l B(3) er refl] .
    have "elems (deletions ?t) = (if l \<in> ?I then ?D else insert l ?D)"
    proof (cases "l \<in> ?I")
      case False
      with e u have "u = is_unshift (insertions t) l" using ix.unshift[OF ok(3)] by simp
      with add_shifted_in_place[OF t(3) ok(2,3) refl False l] False u f show ?thesis by simp
    qed (use u f in simp)
    moreover have "x \<in> elems inss' \<longleftrightarrow> x \<in> ?I \<and> x < l" for x
      using e sub by (auto simp: mem_close_gap)
    ultimately show ?thesis using t(3) B(1) len f(1) by (auto simp: in_place_def less_Suc_eq)
  next
    case ne: False
    then have row: "row < l" using B by simp
    note f = move_over_distinct_fields[OF ne ok(4,3) sub]
    define inss1 where "inss1 = (if l \<in> ?I then is_remove (insertions t) l 1 else insertions t)"
    define dels1 where "dels1 = (if l \<in> ?I then deletions t
      else fst (is_add_shifted (deletions t) (is_unshift (insertions t) l)))"
    have i1: "crv_inv inss1" "elems inss1 = ?I - {l}"
      using elems_remove1[OF ok(3)] ok(3) by (auto simp: inss1_def)
    have l: "l < length B" using B by simp
    have d1: "crv_inv dels1" "elems dels1 = (if l \<in> ?I then ?D else insert l ?D)"
      using add_shifted_in_place[OF t(3) ok(2,3) refl _ l] ok(2)
        ix.add_shifted[OF ok(2), of "is_unshift (insertions t) l"]
      by (auto simp: dels1_def intro: prod.collapse[symmetric])
    have p1: "in_place A B (elems dels1) (insert l ?I)"
      using t(3) in_place_mark[OF t(3), of l] by (auto simp: d1(2) insert_absorb)
    have d2: "row \<notin> ?I \<Longrightarrow> elems (fst (is_add_shifted dels1 (is_unshift inss1 row))) = insert row (elems dels1)"
      using row B(1) i1 below_drop_above[OF row, of ?I]
      by (intro add_shifted_in_place[OF p1 d1(1) i1(1)]) auto
    have "elems (deletions ?t) = (if row \<in> ?I then elems dels1 else insert row (elems dels1))"
      "elems (insertions ?t) = (if row \<in> ?I then ?I - {l} else insert row (?I - {l}))"
      using f(3,4) d2 i1 ix.add[OF i1(1), of row] unfolding dels1_def[symmetric] inss1_def[symmetric] by auto
    then have "elems (deletions ?t) = (if row \<in> ?I then elems dels1 else insert row (elems dels1))"
      "elems (insertions ?t) = insert row ?I - {l}" using ne by auto
    moreover have "in_place A B (if row \<in> ?I then elems dels1 else insert row (elems dels1)) (insert row (insert l ?I))"
      using in_place_mark[OF p1, of row] p1 by (auto simp: insert_absorb)
    ultimately show ?thesis using len B(1) by (auto simp: in_place_def less_Suc_eq)
  qed
qed

definition marked_in_place :: "'a list \<Rightarrow> 'a list \<Rightarrow> change_builder \<Rightarrow> bool" where
  "marked_in_place A B t \<longleftrightarrow> crv_inv (deletions t) \<and> crv_inv (insertions t) \<and> tracked_in_place A B t"

lemma move_source_in_place:
  assumes t: "marked_in_place A B t" and i: "i < length B"
  shows "marked_in_place A B (move_source i key t)"
proof -
  have inv: "crv_inv (deletions t)" "crv_inv (insertions t)" "tracked_in_place A B t"
    using t by (simp_all add: marked_in_place_def)
  obtain d x where dx: "is_add_shifted (deletions t) (is_unshift (insertions t) i) = (d, x)"
    by (cases "is_add_shifted (deletions t) (is_unshift (insertions t) i)")
  have d: "crv_inv d" using ix.add_shifted[OF inv(1) dx] by simp
  show ?thesis
    using inv add_shifted_in_place[OF inv(3,1,2) refl _ i] in_place_mark[OF inv(3), of i]
      ix.add[OF inv(2), of i] d dx
    by (auto simp: move_source_def ix.mem marked_in_place_def)
qed

lemma swap_in_place:
  assumes t: "tracks A B t" "tracked_in_place A B t" and ab: "a < length B" "b < length B"
  shows "tracked_in_place A (swap_rows a b B) (cb_swap a b True t)"
proof -
  have m: "marked_in_place A B t0" if "deletions t0 = deletions t" "insertions t0 = insertions t" for t0
    using that t by (simp add: marked_in_place_def tracks_def)
  have "marked_in_place A B (cb_swap a b True t)"
    using ab by (auto simp: cb_swap_def update_move_def Let_def m split: option.splits intro!: move_source_in_place)
  then show ?thesis by (simp add: marked_in_place_def in_place_def swap_rows_def)
qed

subsection \<open>Turning the mapping into moves\<close>

definition pc_step :: "nat \<times> nat \<Rightarrow> change_builder \<Rightarrow> change_builder" where
  "pc_step kv t =
     (if fst kv = snd kv
      then t\<lparr>deletions := is_remove (deletions t) (snd kv) 1,
             insertions := is_remove (insertions t) (fst kv) 1\<rparr>
      else t\<lparr>moves := moves t @ [\<lparr>move_from = snd kv, move_to = fst kv\<rparr>]\<rparr>)"

lemma parse_complete_fold:
  "parse_complete t = (let t' = fold pc_step (m_move_mapping t) t in
     t'\<lparr>m_move_mapping := [], moves := sort_key move_from (moves t')\<rparr>)"
  unfolding parse_complete_def pc_step_def[abs_def] ..

lemma pc_step_tracks:
  assumes "tracks A B (t\<lparr>m_move_mapping := kv # rest\<rparr>)" "tracked_in_place A B t"
  shows "tracks A B ((pc_step kv t)\<lparr>m_move_mapping := rest\<rparr>)" "tracked_in_place A B (pc_step kv t)"
proof -
  let ?D = "elems (deletions t)" and ?I = "elems (insertions t)"
  have inv: "crv_inv (deletions t)" "crv_inv (insertions t)" "diff_ok A B ?D ?I"
    and lk: "links_ok A B ?D ?I (links (t\<lparr>m_move_mapping := kv # rest\<rparr>))"
    using assms(1) by (auto simp: tracks_def)
  let ?ls = "map (\<lambda>m. (move_from m, move_to m)) (moves t) @ map prod.swap rest"
  have perm: "mset (links (t\<lparr>m_move_mapping := kv # rest\<rparr>)) = mset (prod.swap kv # ?ls)"
    by (simp add: links_def)
  have ok: "links_ok A B ?D ?I (prod.swap kv # ?ls)" by (rule links_ok_perm[OF perm lk])
  show "tracks A B ((pc_step kv t)\<lparr>m_move_mapping := rest\<rparr>)"
  proof (cases "fst kv = snd kv")
    case True
    let ?k = "fst kv"
    have k: "?k \<in> ?D" "?k \<in> ?I" "A ! ?k = B ! ?k" using ok True by (auto simp: links_ok_def)
    then have b: "?k < length A" "?k < length B" using inv(3) by (auto simp: diff_ok_def)
    have "keep A (?D - {?k}) = keep B (?I - {?k})"
      using k b in_place_unshifted[OF assms(2) b] inv(3) by (intro keep_cancel) (auto simp: diff_ok_def)
    then have "diff_ok A B (?D - {?k}) (?I - {?k})" using inv(3) by (auto simp: diff_ok_def)
    moreover have "links_ok A B (?D - {?k}) (?I - {?k}) ?ls"
      using ok True by (auto simp: links_ok_def image_iff)
    ultimately show ?thesis
      using elems_remove1[OF inv(1), of ?k] elems_remove1[OF inv(2), of ?k] True
      by (simp add: pc_step_def tracks_def links_def)
  next
    case False
    have "mset (prod.swap kv # ?ls) = mset (links ((pc_step kv t)\<lparr>m_move_mapping := rest\<rparr>))"
      using False by (cases kv) (simp add: pc_step_def links_def)
    from links_ok_perm[OF this ok] inv False show ?thesis by (simp add: pc_step_def tracks_def)
  qed
  show "tracked_in_place A B (pc_step kv t)"
  proof (cases "fst kv = snd kv")
    case True
    have "fst kv < length A" "fst kv < length B"
      using ok inv(3) True by (auto simp: links_ok_def diff_ok_def)
    with True elems_remove1[OF inv(1), of "fst kv"] elems_remove1[OF inv(2), of "fst kv"] assms(2)
    show ?thesis by (auto simp: pc_step_def in_place_def)
  qed (use assms(2) in \<open>simp add: pc_step_def\<close>)
qed

lemma fold_pc_step_tracks:
  assumes "tracks A B (t\<lparr>m_move_mapping := L\<rparr>)" "tracked_in_place A B t"
  shows "tracks A B ((fold pc_step L t)\<lparr>m_move_mapping := []\<rparr>)"
  using assms
proof (induction L arbitrary: t)
  case (Cons kv L)
  from pc_step_tracks[OF Cons.prems] Cons.IH[of "pc_step kv t"] show ?case by simp
qed simp

lemma parse_complete_tracks:
  assumes "tracks A B t" "tracked_in_place A B t"
  shows "tracks A B (parse_complete t)" "sorted (map move_from (moves (parse_complete t)))"
    "m_move_mapping (parse_complete t) = []"
proof -
  let ?t = "(fold pc_step (m_move_mapping t) t)\<lparr>m_move_mapping := []\<rparr>"
  have "tracks A B ?t" using fold_pc_step_tracks[of A B "m_move_mapping t" t] assms by simp
  moreover have "mset (links ?t) = mset (links (parse_complete t))"
    by (simp add: parse_complete_fold links_def Let_def)
  ultimately show "tracks A B (parse_complete t)"
    by (auto simp: tracks_def parse_complete_fold Let_def intro: links_ok_perm)
qed (simp_all add: parse_complete_fold Let_def)

subsection \<open>Runs of row operations\<close>

definition empty_builder :: change_builder where
  "empty_builder = make_builder [] [] [] []"

text \<open>
  What the engine does to the rows of a table: it appends them, moves the last one over one that is
  removed, swaps two and clears the table. Rows that stay keep their place this way, on which the
  move mapping relies. Merged rows (\<open>subsume\<close>) and insertion in the middle, which the builder has as well, are left out.
\<close>

inductive row_history :: "'a list \<Rightarrow> 'a list \<Rightarrow> change_builder \<Rightarrow> bool" for A where
  start: "row_history A A empty_builder"
| append: "row_history A B t \<Longrightarrow> new \<noteq> [] \<Longrightarrow>
    row_history A (B @ new) (cb_insert (length B) (length new) True t)"
| over: "row_history A B t \<Longrightarrow> row < length B \<Longrightarrow> length B \<le> npos \<Longrightarrow>
    row_history A (over row B) (cb_move_over row (length B - 1) True t)"
| swapped: "row_history A B t \<Longrightarrow> a < length B \<Longrightarrow> b < length B \<Longrightarrow> a \<noteq> b \<Longrightarrow>
    row_history A (swap_rows a b B) (cb_swap a b True t)"
| cleared: "row_history A B t \<Longrightarrow> length B \<noteq> npos \<Longrightarrow> row_history A [] (cb_clear (length B) t)"
| modified: "row_history A B t \<Longrightarrow> i < length B \<Longrightarrow> row_history A B (cb_modify i col t)"

lemma empty_tracks: "tracks A A empty_builder \<and> tracked_in_place A A empty_builder"
  by (simp add: empty_builder_def make_builder_def tracks_def diff_ok_def links_def links_ok_def in_place_def)

lemma cb_modify_frame [simp]:
  "deletions (cb_modify i col t) = deletions t" "insertions (cb_modify i col t) = insertions t"
  "moves (cb_modify i col t) = moves t" "m_move_mapping (cb_modify i col t) = m_move_mapping t"
  by (simp_all add: cb_modify_def Let_def)

lemma insert_no_moves: "moves t = [] \<Longrightarrow> moves (cb_insert i n True t) = []"
  by (simp add: cb_insert_def Let_def)

lemma move_over_no_moves: "moves t = [] \<Longrightarrow> moves (cb_move_over row l True t) = []"
  by (simp add: cb_move_over_def Let_def case_prod_beta if_distrib[of moves]
      option.case_distrib[of moves])

lemma move_source_moves [simp]: "moves (move_source i key t) = moves t"
  by (simp add: move_source_def case_prod_beta)

lemma swap_no_moves: "moves t = [] \<Longrightarrow> moves (cb_swap a b True t) = []"
  by (auto simp: cb_swap_def update_move_def Let_def split: option.splits)

lemma emptied_in_place:
  assumes "tracks A [] t"
  shows "tracked_in_place A [] t"
proof -
  let ?D = "elems (deletions t)"
  have D: "keep A ?D = []" "?D \<subseteq> {..< length A}"
    using assms by (auto simp: tracks_def diff_ok_def)
  then have "{y \<in> ?D. y < length A} = ?D" by auto
  then have "length A \<le> card ?D" using D(1) length_keep[of A ?D] by (simp add: unshifted_def below_def)
  then have "?D = {..< length A}" using D(2) by (intro card_seteq) auto
  then show ?thesis by (auto simp: in_place_def)
qed

lemma row_history_inv:
  assumes "row_history A B t"
  shows "tracks A B t \<and> moves t = [] \<and> tracked_in_place A B t"
  using assms
proof (induction rule: row_history.induct)
  case start
  show ?case using empty_tracks by (auto simp: empty_builder_def make_builder_def)
next
  case (append B t new)
  have "tracks A (take (length B) B @ new @ drop (length B) B) (cb_insert (length B) (length new) True t)"
    using append by (intro cb_insert_tracks) auto
  with append append_in_place[of A B t new] insert_no_moves[of t] show ?case by simp
next
  case (over B t row)
  then have "length B = Suc (length B - 1)" "row \<le> length B - 1" by auto
  with over cb_move_over_tracks[of A B t "length B - 1" row] move_over_in_place[of A B t "length B - 1" row]
  show ?case by (simp add: move_over_no_moves)
next
  case (swapped B t a b)
  then show ?case by (simp add: cb_swap_tracks swap_in_place swap_no_moves)
next
  case (cleared B t)
  then have "tracks A [] (cb_clear (length B) t)" by (simp add: cb_clear_tracks)
  moreover have "moves (cb_clear (length B) t) = []" by (simp add: cb_clear_def Let_def)
  ultimately show ?case using emptied_in_place by blast
next
  case (modified B t i col)
  then show ?case by (auto simp: tracks_def links_def)
qed

end
