(* ===== verification/Change_Props.thy ===== *)
theory Change_Props
  imports Change_History
begin

text \<open>
  The properties of \<open>CollectionChangeBuilder\<close>: what a run of recorded operations, a merge
  and \<open>finalize\<close> say about the list that changed.
\<close>

subsection \<open>Runs of list operations\<close>

text \<open>The operations with list semantics, applied to a list and recorded in a builder.\<close>

inductive list_history :: "'a list \<Rightarrow> 'a list \<Rightarrow> change_builder \<Rightarrow> bool" for A where
  start: "list_history A A empty_builder"
| inserted: "list_history A B t \<Longrightarrow> i \<le> length B \<Longrightarrow> new \<noteq> [] \<Longrightarrow>
    list_history A (take i B @ new @ drop i B) (cb_insert i (length new) True t)"
| erased: "list_history A B t \<Longrightarrow> i < length B \<Longrightarrow> length B \<le> npos \<Longrightarrow>
    list_history A (take i B @ drop (Suc i) B) (cb_erase i t)"
| moved: "list_history A B t \<Longrightarrow> f < length B \<Longrightarrow> d < length B \<Longrightarrow> length B \<le> npos \<Longrightarrow>
    list_history A (move_elem f d B) (move_row f d t)"
| cleared: "list_history A B t \<Longrightarrow> length B \<noteq> npos \<Longrightarrow> list_history A [] (cb_clear (length B) t)"
| modified: "list_history A B t \<Longrightarrow> i < length B \<Longrightarrow> list_history A B (cb_modify i col t)"

lemma move_row_mapping [simp]: "m_move_mapping (move_row f d t) = m_move_mapping t"
  by (simp add: move_row_def Let_def case_prod_beta)

lemma list_history_inv: "list_history A B t \<Longrightarrow> tracks A B t \<and> m_move_mapping t = []"
proof (induction rule: list_history.induct)
  case start
  show ?case using empty_tracks by (auto simp: empty_builder_def make_builder_def)
next
  case (inserted B t i new)
  then show ?case by (simp add: cb_insert_tracks) (simp add: cb_insert_def Let_def)
next
  case (erased B t i)
  then show ?case by (simp add: cb_erase_tracks cb_erase_fields)
next
  case (moved B t f d)
  then show ?case by (simp add: move_row_tracks)
next
  case (cleared B t)
  then show ?case by (simp add: cb_clear_tracks) (simp add: cb_clear_def)
next
  case (modified B t i col)
  then show ?case by (auto simp: tracks_def links_def)
qed

lemma tracks_link:
  assumes "tracks A B t" "m \<in> set (moves t)"
  shows "move_from m \<in> elems (deletions t)" "move_to m \<in> elems (insertions t)"
    "A ! move_from m = B ! move_to m"
proof -
  have "(move_from m, move_to m) \<in> set (links t)" using assms(2) by (simp add: links_def image_iff) blast
  moreover have "\<forall>l \<in> set (links t). fst l \<in> elems (deletions t) \<and> snd l \<in> elems (insertions t) \<and>
      A ! fst l = B ! snd l"
    using assms(1) by (simp add: tracks_def links_ok_def)
  ultimately show "move_from m \<in> elems (deletions t)" "move_to m \<in> elems (insertions t)"
    "A ! move_from m = B ! move_to m" by force+
qed

lemma tracks_inv: "tracks A B t \<Longrightarrow> crv_inv (deletions t)" "tracks A B t \<Longrightarrow> crv_inv (insertions t)"
  "tracks A B t \<Longrightarrow> elems (deletions t) \<subseteq> {..< length A}"
  "tracks A B t \<Longrightarrow> elems (insertions t) \<subseteq> {..< length B}"
  by (simp_all add: tracks_def diff_ok_def)

lemma tracks_verify:
  assumes "tracks A B t"
  shows "cb_verify t"
  using tracks_link(1,2)[OF assms] tracks_inv(1,2)[OF assms]
  by (simp add: cb_verify_def list_all_iff ix.mem)

lemma tracks_diff: "tracks A B t \<Longrightarrow> keep A (elems (deletions t)) = keep B (elems (insertions t))"
  by (simp add: tracks_def diff_ok_def)

lemma tracks_moves:
  assumes "tracks A B t"
  shows "list_all (\<lambda>m. move_from m < length A \<and> move_to m < length B \<and> A ! move_from m = B ! move_to m) (moves t)"
  unfolding list_all_iff
proof
  fix m assume "m \<in> set (moves t)"
  from tracks_link[OF assms this] tracks_inv(3,4)[OF assms]
  show "move_from m < length A \<and> move_to m < length B \<and> A ! move_from m = B ! move_to m" by blast
qed

text \<open>
  C8. After any run of \<open>insert\<close>, \<open>erase\<close>, \<open>move\<close>, \<open>clear\<close> and \<open>modify\<close>
  from an empty builder, the old list without the deleted positions is the new list without the
  inserted ones, the assertions of \<open>verify()\<close> hold, and every recorded move leads from a
  deleted position to an inserted one with the same element.
\<close>

theorem list_run_recorded:
  assumes "list_history A B t"
  shows "keep A (elems (deletions t)) = keep B (elems (insertions t)) \<and> cb_verify t \<and>
    list_all (\<lambda>m. move_from m < length A \<and> move_to m < length B \<and> A ! move_from m = B ! move_to m) (moves t)"
proof -
  from list_history_inv[OF assms] have "tracks A B t" ..
  then show ?thesis using tracks_diff tracks_verify tracks_moves by (intro conjI)
qed

theorem list_run_recorded_witness:
  "keep [''a'', ''b'', ''c''] (elems (deletions (move_row 0 2 empty_builder))) =
     keep (move_elem 0 2 [''a'', ''b'', ''c'']) (elems (insertions (move_row 0 2 empty_builder))) \<and>
   cb_verify (move_row 0 2 empty_builder)"
proof -
  have "list_history [''a'', ''b'', ''c''] (move_elem 0 2 [''a'', ''b'', ''c'']) (move_row 0 2 empty_builder)"
    by (intro list_history.moved list_history.start) (simp_all add: npos_def)
  from list_run_recorded[OF this] show ?thesis by simp
qed

lemma fits_chunks: "n \<le> max_size * (n div max_size + 1)"
  using mod_less_divisor[of max_size n] mult_div_mod_eq[of max_size n] by (simp add: max_size_def)

lemma merge_fits_no_deletions: "deletions c = [] \<Longrightarrow> merge_fits t c"
  using fits_chunks by (simp only: merge_fits_def is_add_shifted_by_def crv_empty_def if_True simp_thms)

text \<open>
  C1. \<open>merge\<close> composes changes: if the first builder records the change from \<open>A\<close> to
  \<open>B\<close> and the second the change from \<open>B\<close> to \<open>C\<close>, the merged builder records
  the change from \<open>A\<close> to \<open>C\<close>, with all its moves, as long as the merged deletions fit
  into the chunks allotted for them.
\<close>

theorem merge_composes:
  assumes "list_history A B t" "list_history B C c" "merge_fits t c"
  shows "tracks A C (cb_merge t c) \<and> cb_verify (cb_merge t c) \<and>
    keep A (elems (deletions (cb_merge t c))) = keep C (elems (insertions (cb_merge t c)))"
proof -
  have "tracks A C (cb_merge t c)"
    using list_history_inv[OF assms(1)] list_history_inv[OF assms(2)] assms(3) cb_merge_tracks by blast
  then show ?thesis by (simp add: tracks_verify tracks_diff)
qed

theorem merge_composes_witness:
  "tracks [''a'', ''b''] [''b'', ''x'']
     (cb_merge (cb_erase 0 empty_builder) (cb_insert 1 1 True empty_builder))"
proof -
  have "list_history [''a'', ''b''] (take 0 [''a'', ''b''] @ drop (Suc 0) [''a'', ''b'']) (cb_erase 0 empty_builder)"
    by (intro list_history.erased list_history.start) (simp_all add: npos_def)
  moreover have "list_history [''b''] (take 1 [''b''] @ [''x''] @ drop 1 [''b''])
      (cb_insert 1 (length [''x'']) True empty_builder)"
    by (intro list_history.inserted list_history.start) simp_all
  moreover have "merge_fits (cb_erase 0 empty_builder) (cb_insert 1 1 True empty_builder)"
    by (rule merge_fits_no_deletions) (simp add: cb_insert_def empty_builder_def make_builder_def Let_def)
  ultimately show ?thesis
    using merge_composes[of "[''a'', ''b'']" "[''b'']" "cb_erase 0 empty_builder" "[''b'', ''x'']"
      "cb_insert 1 1 True empty_builder"] by simp
qed

text \<open>
  C9. After any run of appended rows, \<open>move_over\<close>, \<open>swap\<close>, \<open>modify\<close> and \<open>clear\<close> (\<open>subsume\<close>, for merged
  rows, and insertion in the middle of a table are not among the operations)
  \<open>parse_complete\<close> leaves a change set that describes the change of the table: equal lists
  outside deletions and insertions, moves between equal rows, ordered by their source.
\<close>

theorem row_run_recorded:
  assumes "row_history A B t"
  shows "tracks A B (parse_complete t) \<and> cb_verify (parse_complete t) \<and>
    sorted (map move_from (moves (parse_complete t))) \<and> m_move_mapping (parse_complete t) = []"
  using row_history_inv[OF assms] parse_complete_tracks[of A B t] tracks_verify by blast

theorem row_run_recorded_witness:
  "tracks [10, 11, 12 :: nat] [12, 11] (parse_complete (cb_move_over 0 2 True empty_builder))"
proof -
  have "row_history [10, 11, 12 :: nat] (over 0 [10, 11, 12])
      (cb_move_over 0 (length [10, 11, 12 :: nat] - 1) True empty_builder)"
    by (intro row_history.over row_history.start) (simp_all add: npos_def)
  from row_run_recorded[OF this] show ?thesis by (simp add: over_def numeral_2_eq_2)
qed

text \<open>
  The marks of modified rows follow the rows: \<open>insert\<close> and \<open>move\<close> leave the set of
  modified rows as it was, and \<open>erase\<close> takes out the erased row only.
\<close>

lemma marks_follow_rows:
  assumes "marks_ok (length B) t"
  shows "(i \<le> length B \<and> new \<noteq> [] \<longrightarrow>
      modified_rows (take i B @ new @ drop i B) (cb_insert i (length new) True t) = modified_rows B t) \<and>
    (f < length B \<and> d < length B \<longrightarrow>
      modified_rows (move_elem f d B) (move_row f d t) = modified_rows B t) \<and>
    (i < length B \<longrightarrow> modified_rows (take i B @ drop (Suc i) B) (cb_erase i t) =
      (\<lambda>j. B ! j) ` (elems (modifications t) - {i}))"
  by (intro conjI impI) (simp_all add: cb_insert_marks(2)[OF assms] move_row_marks(2)[OF assms]
    cb_erase_marks(2)[OF assms])

theorem marks_follow_rows_witness:
  "modified_rows (move_elem 0 1 [7, 8 :: nat]) (move_row 0 1 (cb_modify 0 npos empty_builder)) =
     modified_rows [7, 8] (cb_modify 0 npos empty_builder)"
proof -
  have "marks_ok (length [7, 8 :: nat]) (cb_modify 0 npos empty_builder)"
    using ix.add[of "[]" 0] by (auto simp: marks_ok_def cb_modify_def empty_builder_def make_builder_def Let_def)
  from marks_follow_rows[OF this] show ?thesis by (simp add: empty_builder_def make_builder_def cb_modify_def)
qed

text \<open>
  \<open>finalize\<close> reports the modified rows twice, by their position in the new list and by
  their position in the old one, both without the inserted rows: the two sets of positions stand
  for the same rows, and no position of the old list is deleted.
\<close>

lemma finalize_modifications:
  assumes "tracks A B t" "marks_ok (length B) t"
  shows "let c = finalize t in
    elems (modifications_new c) = elems (modifications t) - elems (insertions t) \<and>
    (\<lambda>i. A ! i) ` elems (modifications c) = (\<lambda>i. B ! i) ` elems (modifications_new c) \<and>
    elems (modifications c) \<subseteq> {..< length A} - elems (deletions t)"
proof -
  let ?D = "elems (deletions t)" and ?I = "elems (insertions t)" and ?M = "elems (modifications t)"
  have inv: "crv_inv (deletions t)" "crv_inv (insertions t)" "crv_inv (modifications t)"
    and d: "keep A ?D = keep B ?I" "?M \<subseteq> {..< length B}"
    using assms by (auto simp: tracks_def diff_ok_def marks_ok_def)
  have new: "elems (modifications_new (finalize t)) = ?M - ?I"
    using remove_set_correct[OF inv(3,2)] by (simp add: finalize_def Let_def)
  have old: "elems (modifications (finalize t)) = shift_image ?D (unshift_image ?I ?M)"
    using erase_at_set_correct[OF inv(3,2)]
      shift_for_insert_at_set_correct[of "is_erase_at_set (modifications t) (insertions t)" "deletions t"] inv(1)
    by (simp add: finalize_def Let_def)
  have un: "unshift_image ?I ?M \<subseteq> {..< length (keep A ?D)}"
    using unshift_image_rows(1)[OF d(2), of ?I] d(1) by simp
  note sh = shift_image_rows[OF finite_elems un]
  have "(\<lambda>i. A ! i) ` shift_image ?D (unshift_image ?I ?M) = (\<lambda>i. B ! i) ` (?M - ?I)"
    using sh(2) unshift_image_rows(2)[OF d(2), of ?I] d(1) by simp
  moreover have "shift_image ?D (unshift_image ?I ?M) \<inter> ?D = {}" by (auto simp: shift_image_def)
  ultimately show ?thesis using sh(1) by (auto simp: new old Let_def)
qed

theorem finalize_modifications_witness:
  "(\<lambda>i. [7, 8 :: nat] ! i) ` elems (modifications (finalize (cb_modify 1 npos empty_builder))) =
   (\<lambda>i. [7, 8] ! i) ` elems (modifications_new (finalize (cb_modify 1 npos empty_builder)))"
proof -
  have "list_history [7, 8 :: nat] [7, 8] (cb_modify 1 npos empty_builder)"
    by (intro list_history.modified list_history.start) simp
  then have "tracks [7, 8 :: nat] [7, 8] (cb_modify 1 npos empty_builder)" using list_history_inv by blast
  moreover have "marks_ok (length [7, 8 :: nat]) (cb_modify 1 npos empty_builder)"
    using ix.add[of "[]" 1] by (auto simp: marks_ok_def cb_modify_def empty_builder_def make_builder_def Let_def)
  ultimately show ?thesis using finalize_modifications[of "[7, 8 :: nat]" "[7, 8]"] by (auto simp: Let_def)
qed

end
