(* ===== verification/Change_Asserts.thy ===== *)
theory Change_Asserts
  imports Change_Props
begin

text \<open>
  The argument assertions of \<open>CollectionChangeBuilder\<close>. They are enabled in the build that is
  shipped; the operations in \<open>Change_Builder\<close> leave them out. Here they are predicates on the
  arguments and the builder, and they hold before each step of the runs of list and of row operations.
\<close>

subsection \<open>The assertions\<close>

definition insert_asserts :: "nat \<Rightarrow> bool" where
  "insert_asserts n \<longleftrightarrow> n \<noteq> 0"

text \<open>The loop of \<open>move\<close> asserts that no second move leads to the row that is moved on.\<close>

fun one_move_to :: "nat \<Rightarrow> bool \<Rightarrow> move list \<Rightarrow> bool" where
  "one_move_to from updated [] = True"
| "one_move_to from updated (m # ms) =
     (if move_to m \<noteq> from then one_move_to from updated ms else \<not> updated \<and> one_move_to from True ms)"

definition move_asserts :: "nat \<Rightarrow> nat \<Rightarrow> change_builder \<Rightarrow> bool" where
  "move_asserts from to t \<longleftrightarrow> from \<noteq> to \<and> one_move_to from False (moves t)"

definition move_over_asserts :: "nat \<Rightarrow> nat \<Rightarrow> change_builder \<Rightarrow> bool" where
  "move_over_asserts row_ndx last_row t \<longleftrightarrow> row_ndx \<le> last_row \<and>
     (crv_empty (insertions t) \<or> last_range_end (insertions t) - 1 \<le> last_row) \<and>
     (crv_empty (modifications t) \<or> last_range_end (modifications t) - 1 \<le> last_row)"

definition swap_asserts :: "nat \<Rightarrow> nat \<Rightarrow> bool" where
  "swap_asserts ndx_1 ndx_2 \<longleftrightarrow> ndx_1 \<noteq> ndx_2"

subsection \<open>Runs of list operations\<close>

lemma one_move_to_distinct:
  "distinct (map move_to ms) \<Longrightarrow> updated \<longrightarrow> from \<notin> move_to ` set ms \<Longrightarrow> one_move_to from updated ms"
  by (induction ms arbitrary: updated) (auto simp: image_iff)

lemma list_run_asserts:
  assumes "list_history A B t" "from \<noteq> to"
  shows "move_asserts from to t"
proof -
  have "tracks A B t" using list_history_inv[OF assms(1)] by simp
  then have "distinct (map move_to (moves t))" by (simp add: tracks_def links_ok_def links_def comp_def)
  then show ?thesis using assms(2) by (simp add: move_asserts_def one_move_to_distinct)
qed

subsection \<open>Runs of row operations\<close>

text \<open>The marks of modified rows stay within the table.\<close>

lemma move_over_marks:
  assumes "marks_ok (Suc l) t" "row \<le> l"
  shows "marks_ok l (cb_move_over row l True t)"
proof -
  let ?f = "\<lambda>col. if row = l then is_remove col row 1
    else if is_contains col l then is_add (is_remove col l 1) row else is_remove col row 1"
  have m: "modifications (cb_move_over row l True t) = ?f (modifications t)"
    by (simp add: cb_move_over_def Let_def case_prod_beta if_distrib[of modifications] option.case_distrib[of modifications])
  have i: "crv_inv (modifications t)" "elems (modifications t) \<subseteq> {..< Suc l}" using assms(1) by (simp_all add: marks_ok_def)
  have r: "crv_inv (is_remove (modifications t) j 1)" "elems (is_remove (modifications t) j 1) = elems (modifications t) - {j}" for j
    using remove_correct[OF i(1), of 1 j] by (auto simp: less_Suc_eq)
  show ?thesis
    using i assms(2) r ix.add[OF r(1), of l row] contains_correct[OF i(1), of l]
    unfolding marks_ok_def m by (auto simp: less_Suc_eq)
qed

lemma source_marks: "modifications (move_source i key t) = modifications t"
  by (simp add: move_source_def Let_def case_prod_beta)

lemma update_marks: "modifications (update_move i a b t) = modifications t"
  by (simp add: update_move_def source_marks)

lemma swap_marks:
  assumes "marks_ok n t" "a < n" "b < n"
  shows "marks_ok n (cb_swap a b True t)"
proof -
  have m: "modifications (cb_swap a b True t) = (if b < a then swap_modified b a (modifications t) else swap_modified a b (modifications t))"
    by (simp add: cb_swap_def Let_def case_prod_beta update_marks source_marks split: option.split)
  have i: "crv_inv (modifications t)" "elems (modifications t) \<subseteq> {..< n}" using assms(1) by (simp_all add: marks_ok_def)
  have r: "crv_inv (is_remove (modifications t) j 1)" "elems (is_remove (modifications t) j 1) = elems (modifications t) - {j}" for j
    using remove_correct[OF i(1), of 1 j] by (auto simp: less_Suc_eq)
  have "crv_inv (swap_modified x y (modifications t)) \<and> elems (swap_modified x y (modifications t)) \<subseteq> {..< n}" if "x < n" "y < n" for x y
    using i r that ix.add[OF r(1)] by (auto simp: swap_modified_def Let_def)
  then show ?thesis using assms(2,3) by (simp add: marks_ok_def m)
qed

lemma row_run_marks:
  assumes "row_history A B t"
  shows "marks_ok (length B) t"
  using assms
proof (induction rule: row_history.induct)
  case start
  show ?case by (simp add: marks_ok_def empty_builder_def make_builder_def crv_inv_Nil elems_Nil)
next
  case (append B t new)
  then show ?case using cb_insert_marks(1)[of B t "length B" new True] by simp
next
  case (over B t row)
  then have l: "Suc (length B - 1) = length B" "row \<le> length B - 1" "length (Change_Rows.over row B) = length B - 1" by (auto simp: over_def)
  then show ?case using move_over_marks[of "length B - 1" t row] over by simp
next
  case (swapped B t a b)
  then show ?case using swap_marks[of "length B" t a b] by (simp add: swap_rows_def)
next
  case (cleared B t)
  then show ?case by (simp add: marks_ok_def cb_clear_def crv_inv_Nil elems_Nil Let_def)
next
  case (modified B t i col)
  then show ?case using ix.add[of "modifications t" i] by (simp add: marks_ok_def cb_modify_def Let_def)
qed

lemma last_marked:
  assumes "crv_inv m" "elems m \<subseteq> {..< Suc l}"
  shows "crv_empty m \<or> last_range_end m - 1 \<le> l"
proof (cases "crv_empty m")
  case False
  then have "elems m \<noteq> {}" using crv_inv_empty_iff[OF assms(1)] by (auto simp: crv_empty_def)
  then have m: "Max (elems m) \<in> elems m" "elems m \<subseteq> {..< Suc (Max (elems m))}" by (auto simp: finite_elems less_Suc_eq_le)
  then have "last_range_end m = Max (elems m) + 1" using last_range_end_iff[OF assms(1) m(2)] by blast
  then show ?thesis using m(1) assms(2) by auto
qed simp

lemma row_run_asserts:
  assumes "row_history A B t" "row < length B"
  shows "move_over_asserts row (length B - 1) t"
proof -
  have l: "Suc (length B - 1) = length B" using assms(2) by simp
  have "tracks A B t" using row_history_inv[OF assms(1)] by simp
  then have i: "crv_inv (insertions t)" "elems (insertions t) \<subseteq> {..< Suc (length B - 1)}" unfolding l by (simp_all add: tracks_def diff_ok_def)
  have m: "crv_inv (modifications t)" "elems (modifications t) \<subseteq> {..< Suc (length B - 1)}"
    using row_run_marks[OF assms(1)] unfolding l by (simp_all add: marks_ok_def)
  show ?thesis using last_marked[OF i] last_marked[OF m] assms(2) by (auto simp: move_over_asserts_def)
qed

end
