(* ===== verification/Change_Calculate.thy ===== *)
theory Change_Calculate
  imports Change_Builder "HOL-Library.Product_Lexorder"
begin

text \<open>
  \<open>CollectionChangeBuilder::calculate\<close> (\<open>impl/collection_change_builder.cpp\<close>, from line
  507): the difference of two lists of row indices, where \<open>npos\<close> in the old list stands for
  a row that is gone. \<open>calculate_moves_unsorted\<close> serves queries in table order and
  \<open>calculate_moves_sorted\<close> all other collections; the latter aligns the two sequences along
  the blocks that \<open>LongestCommonSubsequenceCalculator\<close> finds.

  \<open>std::sort\<close> by the row index alone may order rows of equal index in any way, so the
  sorting function is a parameter \<open>sort_rows\<close>. The other two orders are total on what they
  sort and are \<open>sort_key\<close>.
\<close>

record row_info =
  row_index :: nat
  prev_tv_index :: nat
  tv_index :: nat
  shifted_tv_index :: nat

subsection \<open>Rows in table order\<close>

fun moves_unsorted_loop ::
  "crv \<Rightarrow> nat \<Rightarrow> row_info list \<Rightarrow> crv \<Rightarrow> change_builder \<Rightarrow> crv \<times> change_builder" where
  "moves_unsorted_loop move_candidates expected [] removed t = (removed, t)"
| "moves_unsorted_loop move_candidates expected (row # rows) removed t =
     (if shifted_tv_index row = expected
      then moves_unsorted_loop move_candidates (expected + 1) rows removed t
      else if \<not> is_contains move_candidates (row_index row)
      then moves_unsorted_loop move_candidates (shifted_tv_index row + 1) rows removed t
      else
        let calc_expected = tv_index row - is_count (insertions t) 0 (tv_index row)
              + is_count removed 0 (prev_tv_index row)
        in if shifted_tv_index row = calc_expected
           then moves_unsorted_loop move_candidates (calc_expected + 1) rows removed t
           else moves_unsorted_loop move_candidates expected rows
             (is_add removed (prev_tv_index row))
             (t\<lparr>moves := moves t @ [\<lparr>move_from = prev_tv_index row, move_to = tv_index row\<rparr>],
                insertions := is_add (insertions t) (tv_index row)\<rparr>))"

definition calculate_moves_unsorted ::
  "row_info list \<Rightarrow> crv \<Rightarrow> crv \<Rightarrow> change_builder \<Rightarrow> crv \<times> change_builder" where
  "calculate_moves_unsorted new_rows removed move_candidates t =
     moves_unsorted_loop move_candidates 0 new_rows removed t"

subsection \<open>The longest common subsequence calculator\<close>

record lcs_row =
  lcs_row_index :: nat
  lcs_tv_index :: nat

record lcs_match =
  match_i :: nat
  match_j :: nat
  match_size :: nat
  match_modified :: nat

text \<open>The lambda \<open>length\<close>: pairs hold a position \<open>j\<close> and the block length ending there.\<close>

fun block_length :: "(nat \<times> nat) list \<Rightarrow> nat \<Rightarrow> nat" where
  "block_length [] j = 1"
| "block_length (p # ps) j = (if fst p + 1 = j then snd p + 1 else block_length ps j)"

text \<open>The lambda \<open>for_each_b_match\<close>: the positions it visits, in order.\<close>

fun matches_from :: "nat \<Rightarrow> nat \<Rightarrow> nat \<Rightarrow> lcs_row list \<Rightarrow> nat list" where
  "matches_from ai begin2 end2 [] = []"
| "matches_from ai begin2 end2 (r # rs) =
     (if lcs_row_index r \<noteq> ai then []
      else if lcs_tv_index r < begin2 then matches_from ai begin2 end2 rs
      else if end2 \<le> lcs_tv_index r then []
      else lcs_tv_index r # matches_from ai begin2 end2 rs)"

definition for_each_b_match :: "lcs_row list \<Rightarrow> nat \<Rightarrow> nat \<Rightarrow> nat \<Rightarrow> nat list" where
  "for_each_b_match b ai begin2 end2 =
     (let it = lower_bound (\<lambda>r. lcs_row_index r < ai) b 0 (length b)
      in matches_from ai begin2 end2 (drop it b))"

text \<open>
  The body of the search at \<open>a[i]\<close> and \<open>b[j]\<close>. The difference \<open>best.j - size + 1\<close> is
  taken from the start of the best block, not from its end, and wraps below zero.
\<close>

definition size_t_sub :: "nat \<Rightarrow> nat \<Rightarrow> nat" where
  "size_t_sub x y = (x + 2 ^ 64 - y) mod 2 ^ 64"

definition extend_match ::
  "crv \<Rightarrow> (nat \<times> nat) list \<Rightarrow> nat \<Rightarrow> nat \<Rightarrow> lcs_match \<times> (nat \<times> nat) list \<Rightarrow>
   lcs_match \<times> (nat \<times> nat) list" where
  "extend_match mods prev i j st =
     (let (best, cur) = st;
          size = block_length prev j;
          cur = cur @ [(j, size)];
          best =
            (if match_size best < size
             then \<lparr>match_i = i + 1 - size, match_j = j + 1 - size, match_size = size,
                   match_modified = npos\<rparr>
             else if size = match_size best then
               let best =
                     (if match_modified best = npos
                      then best\<lparr>match_modified :=
                             is_count mods (size_t_sub (match_j best + 1) size) (match_j best + 1)\<rparr>
                      else best);
                   count = is_count mods (j + 1 - size) (j + 1)
               in if count < match_modified best
                  then \<lparr>match_i = i + 1 - size, match_j = j + 1 - size, match_size = size,
                        match_modified = count\<rparr>
                  else best
             else best)
      in (best, cur))"

definition search_row ::
  "crv \<Rightarrow> lcs_row list \<Rightarrow> lcs_row list \<Rightarrow> nat \<Rightarrow> nat \<Rightarrow> nat \<Rightarrow>
   lcs_match \<times> (nat \<times> nat) list \<Rightarrow> lcs_match \<times> (nat \<times> nat) list" where
  "search_row mods a b begin2 end2 i st =
     (let (best, prev) = st
      in fold (extend_match mods prev i) (for_each_b_match b (lcs_row_index (a ! i)) begin2 end2)
           (best, []))"

definition find_longest_match ::
  "crv \<Rightarrow> lcs_row list \<Rightarrow> lcs_row list \<Rightarrow> nat \<Rightarrow> nat \<Rightarrow> nat \<Rightarrow> nat \<Rightarrow> lcs_match" where
  "find_longest_match mods a b begin1 end1 begin2 end2 =
     fst (fold (search_row mods a b begin2 end2) [begin1 ..< end1]
       (\<lparr>match_i = begin1, match_j = begin2, match_size = 0, match_modified = 0\<rparr>, []))"

text \<open>
  The best block lies in the range searched: what the assertions of the code demand, and why
  the recursion of \<open>find_longest_matches\<close> ends.
\<close>

definition block_in :: "nat \<Rightarrow> nat \<Rightarrow> nat \<Rightarrow> nat \<Rightarrow> lcs_match \<Rightarrow> bool" where
  "block_in begin1 end1 begin2 end2 m \<longleftrightarrow>
     begin1 \<le> match_i m \<and> match_i m + match_size m \<le> end1 \<and>
     begin2 \<le> match_j m \<and> match_j m + match_size m \<le> end2"

definition lengths_in :: "nat \<Rightarrow> nat \<Rightarrow> (nat \<times> nat) list \<Rightarrow> bool" where
  "lengths_in rows begin2 ps \<longleftrightarrow> (\<forall>p \<in> set ps. begin2 \<le> fst p \<and> snd p \<le> rows \<and> snd p + begin2 \<le> fst p + 1)"

lemma block_length_in:
  "lengths_in n begin2 ps \<Longrightarrow> begin2 \<le> j \<Longrightarrow>
   0 < block_length ps j \<and> block_length ps j \<le> n + 1 \<and> block_length ps j + begin2 \<le> j + 1"
  by (induction ps) (auto simp: lengths_in_def)

lemma matches_from_range: "j \<in> set (matches_from ai begin2 end2 rs) \<Longrightarrow> begin2 \<le> j \<and> j < end2"
  by (induction rs) (auto split: if_splits)

lemma for_each_b_match_range: "j \<in> set (for_each_b_match b ai begin2 end2) \<Longrightarrow> begin2 \<le> j \<and> j < end2"
  by (auto simp: for_each_b_match_def Let_def dest: matches_from_range)

lemma fold_inv: "P s \<Longrightarrow> (\<And>x s. x \<in> set xs \<Longrightarrow> P s \<Longrightarrow> P (f x s)) \<Longrightarrow> P (fold f xs s)"
  by (induction xs arbitrary: s) auto

lemma extend_match_in:
  assumes "lengths_in (i - begin1) begin2 prev" "begin1 \<le> i" "i < end1" "begin2 \<le> j" "j < end2"
    and "block_in begin1 end1 begin2 end2 (fst st)" "lengths_in (i + 1 - begin1) begin2 (snd st)"
  shows "block_in begin1 end1 begin2 end2 (fst (extend_match mods prev i j st)) \<and>
    lengths_in (i + 1 - begin1) begin2 (snd (extend_match mods prev i j st))"
  using assms block_length_in[OF assms(1,4)]
  by (auto simp: extend_match_def block_in_def lengths_in_def Let_def case_prod_beta)

lemma search_row_in:
  assumes "begin1 \<le> i" "i < end1" "block_in begin1 end1 begin2 end2 (fst st)"
    "lengths_in (i - begin1) begin2 (snd st)"
  shows "block_in begin1 end1 begin2 end2 (fst (search_row mods a b begin2 end2 i st)) \<and>
    lengths_in (i + 1 - begin1) begin2 (snd (search_row mods a b begin2 end2 i st))"
  unfolding search_row_def Let_def case_prod_beta
proof (rule fold_inv)
  fix j st' assume "j \<in> set (for_each_b_match b (lcs_row_index (a ! i)) begin2 end2)"
    and st': "block_in begin1 end1 begin2 end2 (fst st') \<and> lengths_in (i + 1 - begin1) begin2 (snd st')"
  then have "begin2 \<le> j" "j < end2" using for_each_b_match_range by blast+
  with st' assms show "block_in begin1 end1 begin2 end2 (fst (extend_match mods (snd st) i j st')) \<and>
      lengths_in (i + 1 - begin1) begin2 (snd (extend_match mods (snd st) i j st'))"
    by (intro extend_match_in) simp_all
qed (use assms in \<open>simp add: lengths_in_def\<close>)

lemma find_longest_match_in:
  assumes "begin1 \<le> end1" "begin2 \<le> end2"
  shows "block_in begin1 end1 begin2 end2 (find_longest_match mods a b begin1 end1 begin2 end2)"
proof -
  define st where "st i = fold (search_row mods a b begin2 end2) [begin1 ..< i]
    (\<lparr>match_i = begin1, match_j = begin2, match_size = 0, match_modified = 0\<rparr>, [])" for i
  have start: "block_in begin1 end1 begin2 end2 (fst (st begin1)) \<and> lengths_in 0 begin2 (snd (st begin1))"
    using assms by (simp add: st_def block_in_def lengths_in_def)
  have "begin1 \<le> i \<Longrightarrow> i \<le> end1 \<Longrightarrow>
      block_in begin1 end1 begin2 end2 (fst (st i)) \<and> lengths_in (i - begin1) begin2 (snd (st i))" for i
  proof (induction i rule: dec_induct)
    case (step i)
    then have "st (Suc i) = search_row mods a b begin2 end2 i (st i)" by (simp add: st_def)
    with step search_row_in[of begin1 i end1 begin2 end2 "st i"] show ?case by simp
  qed (use start in simp)
  from this[of end1] assms show ?thesis by (simp add: find_longest_match_def st_def)
qed

lemma find_longest_match_i:
  assumes "m = find_longest_match mods a b begin1 end1 begin2 end2" "match_size m \<noteq> 0"
  shows "begin1 \<le> match_i m" "match_i m + match_size m \<le> end1"
proof -
  have "begin1 < end1"
    using assms by (cases "begin1 < end1") (auto simp: find_longest_match_def)
  moreover have "begin2 < end2"
  proof (rule ccontr)
    assume "\<not> begin2 < end2"
    then have "for_each_b_match b ai begin2 end2 = []" for ai
      using for_each_b_match_range[of _ b ai begin2 end2] by (cases "for_each_b_match b ai begin2 end2") force+
    then have "match_size (fst (fold (search_row mods a b begin2 end2) is st)) = match_size (fst st)" for "is" st
      by (induction "is" arbitrary: st) (auto simp: search_row_def case_prod_beta)
    with assms show False by (simp add: find_longest_match_def)
  qed
  ultimately show "begin1 \<le> match_i m" "match_i m + match_size m \<le> end1"
    using find_longest_match_in[of begin1 end1 begin2 end2 mods a b] assms(1)
    by (simp_all add: block_in_def)
qed

function find_longest_matches ::
  "crv \<Rightarrow> lcs_row list \<Rightarrow> lcs_row list \<Rightarrow> nat \<Rightarrow> nat \<Rightarrow> nat \<Rightarrow> nat \<Rightarrow> lcs_match list" where
  "find_longest_matches mods a b begin1 end1 begin2 end2 =
     (let m = find_longest_match mods a b begin1 end1 begin2 end2 in
      if match_size m = 0 then []
      else
        (if begin1 < match_i m \<and> begin2 < match_j m
         then find_longest_matches mods a b begin1 (match_i m) begin2 (match_j m) else []) @
        [m] @
        (if match_i m + match_size m < end2 \<and> match_j m + match_size m < end2
         then find_longest_matches mods a b (match_i m + match_size m) end1
                (match_j m + match_size m) end2 else []))"
  by pat_completeness auto
termination
proof (relation "measure (\<lambda>(mods, a, b, begin1, end1, begin2, end2). end1 - begin1)", goal_cases)
  case (2 mods a b begin1 end1 begin2 end2 m)
  with find_longest_match_i[OF 2(1)] show ?case by (simp, linarith)
next
  case (3 mods a b begin1 end1 begin2 end2 m)
  with find_longest_match_i[OF 3(1)] show ?case by simp
qed simp

declare find_longest_matches.simps [simp del]

text \<open>The constructor: the matches from \<open>start_index\<close> on, closed by an empty one.\<close>

definition lcs_calculator :: "lcs_row list \<Rightarrow> lcs_row list \<Rightarrow> nat \<Rightarrow> crv \<Rightarrow> lcs_match list" where
  "lcs_calculator a b start_index mods =
     find_longest_matches mods a b start_index (length a) start_index (length b) @
     [\<lparr>match_i = length a, match_j = length b, match_size = 0, match_modified = 0\<rparr>]"

subsection \<open>Rows in any order\<close>

text \<open>The loop that deletes and inserts what lies between the matches.\<close>

fun align_matches ::
  "lcs_row list \<Rightarrow> row_info list \<Rightarrow> nat \<Rightarrow> nat \<Rightarrow> lcs_match list \<Rightarrow> change_builder \<Rightarrow> change_builder" where
  "align_matches a rows i j [] t = t"
| "align_matches a rows i j (m # ms) t =
     (let t = t\<lparr>deletions := fold (\<lambda>i s. is_add s (lcs_tv_index (a ! i))) [i ..< match_i m] (deletions t)\<rparr>;
          t = t\<lparr>insertions := fold (\<lambda>j s. is_add s (tv_index (rows ! j))) [j ..< match_j m] (insertions t)\<rparr>
      in align_matches a rows (max i (match_i m) + match_size m) (max j (match_j m) + match_size m) ms t)"

definition calculate_moves_sorted :: "row_info list \<Rightarrow> change_builder \<Rightarrow> change_builder" where
  "calculate_moves_sorted rows t =
     (let a = sort_key (\<lambda>r. (lcs_tv_index r, lcs_row_index r))
            (map (\<lambda>r. \<lparr>lcs_row_index = row_index r, lcs_tv_index = prev_tv_index r\<rparr>) rows);
          first_difference = find_if (\<lambda>i. lcs_row_index (a ! i) \<noteq> row_index (rows ! i)) [0 ..< length a]
      in if first_difference = length a then t
         else
           let b = sort_key (\<lambda>r. (lcs_row_index r, lcs_tv_index r))
                 (map (\<lambda>i. \<lparr>lcs_row_index = row_index (rows ! i), lcs_tv_index = i\<rparr>) [0 ..< length rows]);
               matches = lcs_calculator a b first_difference (modifications t)
           in align_matches a rows first_difference first_difference matches t)"

subsection \<open>The calculation\<close>

fun old_row_infos :: "nat \<Rightarrow> nat \<Rightarrow> nat list \<Rightarrow> crv \<Rightarrow> row_info list \<times> crv" where
  "old_row_infos i deleted [] dels = ([], dels)"
| "old_row_infos i deleted (r # rs) dels =
     (if r = npos then old_row_infos (i + 1) (deleted + 1) rs (is_add dels i)
      else
        let (infos, dels) = old_row_infos (i + 1) deleted rs dels
        in (\<lparr>row_index = r, prev_tv_index = npos, tv_index = i, shifted_tv_index = i - deleted\<rparr> # infos, dels))"

definition new_row_infos :: "nat list \<Rightarrow> row_info list" where
  "new_row_infos next_rows =
     map (\<lambda>i. \<lparr>row_index = next_rows ! i, prev_tv_index = npos, tv_index = i, shifted_tv_index = 0\<rparr>)
       [0 ..< length next_rows]"

text \<open>
  The walk over both lists in the order of their row indices: the new rows with the old
  positions of those found in both, the removed positions and the insertions.
\<close>

fun match_rows :: "row_info list \<Rightarrow> row_info list \<Rightarrow> crv \<Rightarrow> crv \<Rightarrow> row_info list \<times> crv \<times> crv" where
  "match_rows [] new removed inss = (new, removed, fold (\<lambda>r s. is_add s (tv_index r)) new inss)"
| "match_rows (old # olds) [] removed inss =
     ([], fold (\<lambda>r s. is_add s (tv_index r)) (old # olds) removed, inss)"
| "match_rows (old # olds) (new # news) removed inss =
     (if row_index old = row_index new then
        let (rows, removed, inss) = match_rows olds news removed inss
        in (new\<lparr>prev_tv_index := tv_index old, shifted_tv_index := shifted_tv_index old\<rparr> # rows,
            removed, inss)
      else if row_index old < row_index new
      then match_rows olds (new # news) (is_add removed (tv_index old)) inss
      else
        let (rows, removed, inss) = match_rows (old # olds) news removed (is_add inss (tv_index new))
        in (new # rows, removed, inss))"

definition calculate ::
  "(row_info list \<Rightarrow> row_info list) \<Rightarrow> nat list \<Rightarrow> nat list \<Rightarrow> (nat \<Rightarrow> bool) \<Rightarrow> crv option \<Rightarrow> change_builder"
where
  "calculate sort_rows prev_rows next_rows row_did_change move_candidates =
     (let (old_rows, dels) = old_row_infos 0 0 prev_rows [];
          old_rows = sort_rows old_rows;
          new_rows = sort_rows (new_row_infos next_rows);
          (new_rows, removed, inss) = match_rows old_rows new_rows [] [];
          new_rows = filter (\<lambda>r. prev_tv_index r \<noteq> npos) new_rows;
          new_rows = sort_key tv_index new_rows;
          mods = fold (\<lambda>r s. if row_did_change (row_index r) then is_add s (tv_index r) else s) new_rows [];
          ret = make_builder dels inss mods [];
          (removed, ret) =
            (case move_candidates of
               Some candidates \<Rightarrow> calculate_moves_unsorted new_rows removed candidates ret
             | None \<Rightarrow> (removed, calculate_moves_sorted new_rows ret))
      in ret\<lparr>deletions := is_add_set (deletions ret) removed\<rparr>)"

end
