(* ===== verification/Change_Match.thy ===== *)
theory Change_Match
  imports Change_Calculate Change_Track "HOL-Library.Multiset"
begin

text \<open>
  The first half of \<open>calculate\<close>: which rows are outright deleted, which rows appear in both
  lists and what remains on either side, whatever order \<open>std::sort\<close> gives to equal rows.
  A difference of two lists is right when the rows it keeps form increasing pairs of
  positions of equal elements.
\<close>

subsection \<open>Differences from pairs of kept positions\<close>

lemma keep_complement:
  assumes "sorted_wrt (<) xs" "set xs \<subseteq> {..< length A}" "D = {..< length A} - set xs"
  shows "keep A D = map ((!) A) xs"
proof -
  have "filter (\<lambda>i. i \<notin> D) [0 ..< length A] = xs"
  proof (rule sorted_distinct_set_unique)
    show "sorted xs" "distinct xs" using assms(1) by (simp_all add: strict_sorted_iff)
  qed (use assms(2,3) in \<open>auto simp: sorted_wrt_filter\<close>)
  moreover have "zip A [0 ..< length A] = map (\<lambda>i. (A ! i, i)) [0 ..< length A]"
    by (rule nth_equalityI) auto
  ultimately show ?thesis by (simp add: keep_def nths_def filter_map comp_def)
qed

lemma diff_pairs:
  assumes "sorted_wrt (\<lambda>p q. fst p < fst q \<and> snd p < snd q) ps"
    and "\<forall>p \<in> set ps. fst p < length A \<and> snd p < length B \<and> A ! fst p = B ! snd p"
    and "D = {..< length A} - fst ` set ps" "I = {..< length B} - snd ` set ps"
  shows "diff_ok A B D I"
proof -
  have "sorted_wrt (<) (map fst ps)" "sorted_wrt (<) (map snd ps)"
    using assms(1) by (auto simp: sorted_wrt_map elim: sorted_wrt_mono_rel[rotated])
  moreover have "set (map fst ps) \<subseteq> {..< length A}" "set (map snd ps) \<subseteq> {..< length B}"
    using assms(2) by auto
  ultimately have "keep A D = map ((!) A) (map fst ps)" "keep B I = map ((!) B) (map snd ps)"
    by (simp_all only: keep_complement assms(3,4) set_map)
  with assms(2-4) show ?thesis by (auto simp: diff_ok_def)
qed

lemma fold_add:
  assumes "crv_inv s"
  shows "crv_inv (fold (\<lambda>x s. is_add s (f x)) xs s) \<and>
    elems (fold (\<lambda>x s. is_add s (f x)) xs s) = elems s \<union> f ` set xs"
  using assms by (induction xs arbitrary: s) (auto simp: ix.add)

lemma fold_add_if:
  assumes "crv_inv s"
  shows "crv_inv (fold (\<lambda>x s. if P x then is_add s (f x) else s) xs s) \<and>
    elems (fold (\<lambda>x s. if P x then is_add s (f x) else s) xs s) = elems s \<union> f ` {x \<in> set xs. P x}"
  using assms by (induction xs arbitrary: s) (auto simp: ix.add)

subsection \<open>Old rows\<close>

definition gone :: "nat list \<Rightarrow> nat set" where
  "gone rs = {k. k < length rs \<and> rs ! k = npos}"

lemma gone_snoc: "gone (rs @ [r]) = (if r = npos then insert (length rs) (gone rs) else gone rs)"
  by (auto simp: gone_def nth_append less_Suc_eq)

lemma old_row_infos_append:
  "old_row_infos i d (xs @ ys) dels =
     (let (infos, dels) = old_row_infos i d xs dels;
          (infos', dels) = old_row_infos (i + length xs) (d + length (filter (\<lambda>r. r = npos) xs)) ys dels
      in (infos @ infos', dels))"
  by (induction i d xs dels rule: old_row_infos.induct) (auto simp: case_prod_beta Let_def)

lemma card_gone: "card (gone rs) = length (filter (\<lambda>r. r = npos) rs)"
  by (simp add: gone_def length_filter_conv_card conj_commute)

definition old_ok :: "nat list \<Rightarrow> row_info list \<Rightarrow> bool" where
  "old_ok prev_rows olds \<longleftrightarrow>
     distinct (map tv_index olds) \<and> tv_index ` set olds = {..< length prev_rows} - gone prev_rows \<and>
     (\<forall>r \<in> set olds. row_index r = prev_rows ! tv_index r \<and>
       shifted_tv_index r = unshifted (gone prev_rows) (tv_index r))"

lemma unshifted_same_below:
  "(\<And>y. y < x \<Longrightarrow> y \<in> E \<longleftrightarrow> y \<in> F) \<Longrightarrow> unshifted E x = unshifted F x"
  by (auto simp: unshifted_def below_def intro!: arg_cong[of _ _ "\<lambda>n. x - n"] arg_cong[of _ _ card])

lemma old_row_infos_ok:
  "let (olds, dels) = old_row_infos 0 0 prev_rows []
   in old_ok prev_rows olds \<and> crv_inv dels \<and> elems dels = gone prev_rows"
proof (induction prev_rows rule: rev_induct)
  case Nil
  then show ?case by (simp add: old_ok_def gone_def)
next
  case (snoc r rs)
  obtain olds dels where eq: "old_row_infos 0 0 rs [] = (olds, dels)" by fastforce
  with snoc have IH: "old_ok rs olds" "crv_inv dels" "elems dels = gone rs" by simp_all
  have lt: "tv_index x < length rs" if "x \<in> set olds" for x
    using IH(1) that by (auto simp: old_ok_def)
  have un: "unshifted (gone (rs @ [r])) x = unshifted (gone rs) x" if "x \<le> length rs" for x
    using that by (intro unshifted_same_below) (auto simp: gone_snoc)
  have "below (gone rs) (length rs) = card (gone rs)"
    by (auto simp: below_def gone_def intro!: arg_cong[of _ _ card])
  then have sh: "unshifted (gone rs) (length rs) = length rs - length (filter (\<lambda>r. r = npos) rs)"
    by (simp add: unshifted_def card_gone)
  show ?case
  proof (cases "r = npos")
    case True
    have "old_ok (rs @ [r]) olds"
      using IH(1) lt un True
      by (auto simp: old_ok_def gone_snoc nth_append less_imp_le)
    then show ?thesis using eq IH True by (simp add: old_row_infos_append gone_snoc ix.add)
  next
    case False
    let ?x = "\<lparr>row_index = r, prev_tv_index = npos, tv_index = length rs,
      shifted_tv_index = length rs - length (filter (\<lambda>r. r = npos) rs)\<rparr>"
    have "length rs \<notin> gone rs" by (simp add: gone_def)
    then have "old_ok (rs @ [r]) (olds @ [?x])"
      using IH(1) lt un False sh
      by (auto simp: old_ok_def gone_snoc nth_append less_imp_le lessThan_Suc)
    then show ?thesis using eq IH False by (simp add: old_row_infos_append gone_snoc)
  qed
qed

subsection \<open>Rows in both lists\<close>

abbreviation both :: "row_info list \<Rightarrow> row_info list" where
  "both rows \<equiv> filter (\<lambda>r. prev_tv_index r \<noteq> npos) rows"

text \<open>What the walk leaves: every matched row stems from an old and a new row.\<close>

definition stems :: "row_info list \<Rightarrow> row_info list \<Rightarrow> row_info \<Rightarrow> bool" where
  "stems olds news r \<longleftrightarrow> (\<exists>old \<in> set olds. \<exists>new \<in> set news. row_index r = row_index old \<and>
     row_index r = row_index new \<and> prev_tv_index r = tv_index old \<and> tv_index r = tv_index new \<and>
     shifted_tv_index r = shifted_tv_index old)"

definition joined ::
  "row_info list \<Rightarrow> row_info list \<Rightarrow> crv \<Rightarrow> crv \<Rightarrow> row_info list \<times> crv \<times> crv \<Rightarrow> bool" where
  "joined olds news removed inss res \<longleftrightarrow> (case res of (rows, removed', inss') \<Rightarrow>
     map tv_index rows = map tv_index news \<and> distinct (map prev_tv_index (both rows)) \<and>
     list_all (stems olds news) (both rows) \<and> crv_inv removed' \<and> crv_inv inss' \<and>
     elems removed' = elems removed \<union> (tv_index ` set olds - prev_tv_index ` set (both rows)) \<and>
     elems inss' = elems inss \<union> (tv_index ` set news - tv_index ` set (both rows)))"

lemma stems_positions:
  assumes "list_all (stems olds news) rs"
  shows "prev_tv_index ` set rs \<subseteq> tv_index ` set olds" "tv_index ` set rs \<subseteq> tv_index ` set news"
  using assms unfolding list_all_iff stems_def by fastforce+

lemma stems_Cons: "stems olds news r \<Longrightarrow> stems (old # olds) news r" "stems olds news r \<Longrightarrow> stems olds (new # news) r"
  by (auto simp: stems_def)

lemma joined_match:
  assumes "joined olds news removed inss (rs, removed', inss')" "row_index old = row_index new"
    "tv_index old \<noteq> npos" "tv_index old \<notin> tv_index ` set olds" "tv_index new \<notin> tv_index ` set news"
  shows "joined (old # olds) (new # news) removed inss
    (new\<lparr>prev_tv_index := tv_index old, shifted_tv_index := shifted_tv_index old\<rparr> # rs, removed', inss')"
proof -
  let ?new = "new\<lparr>prev_tv_index := tv_index old, shifted_tv_index := shifted_tv_index old\<rparr>"
  have stems: "list_all (stems olds news) (both rs)" using assms(1) by (simp add: joined_def)
  note sub = stems_positions[OF stems]
  have "stems (old # olds) (new # news) ?new" using assms(2) by (simp add: stems_def)
  moreover have "list_all (stems (old # olds) (new # news)) (both rs)"
    using stems by (auto simp: list_all_iff stems_Cons)
  moreover have "insert x X - insert x P = X - P" if "x \<notin> X" for x :: nat and X P using that by auto
  moreover have "tv_index old \<notin> prev_tv_index ` set (both rs)" using sub(1) assms(4) by blast
  ultimately show ?thesis using assms(1,3-5) by (simp add: joined_def del: set_filter)
qed

lemma joined_old:
  assumes "joined olds news (is_add removed (tv_index old)) inss (rs, removed', inss')"
    "tv_index old \<notin> tv_index ` set olds" "crv_inv removed"
  shows "joined (old # olds) news removed inss (rs, removed', inss')"
proof -
  have stems: "list_all (stems olds news) (both rs)" using assms(1) by (simp add: joined_def)
  then have "list_all (stems (old # olds) news) (both rs)" by (auto simp: list_all_iff stems_Cons)
  moreover have "elems (is_add removed (tv_index old)) = insert (tv_index old) (elems removed)"
    using assms(3) by (simp add: ix.add)
  ultimately show ?thesis using assms stems_positions(1)[OF stems] unfolding joined_def by auto
qed

lemma joined_new:
  assumes "joined olds news removed (is_add inss (tv_index new)) (rs, removed', inss')"
    "tv_index new \<notin> tv_index ` set news" "crv_inv inss" "prev_tv_index new = npos"
  shows "joined olds (new # news) removed inss (new # rs, removed', inss')"
proof -
  have stems: "list_all (stems olds news) (both rs)" using assms(1) by (simp add: joined_def)
  then have "list_all (stems olds (new # news)) (both rs)" by (auto simp: list_all_iff stems_Cons)
  moreover have "elems (is_add inss (tv_index new)) = insert (tv_index new) (elems inss)"
    using assms(3) by (simp add: ix.add)
  ultimately show ?thesis using assms stems_positions(2)[OF stems] unfolding joined_def by auto
qed

lemma match_rows_joined:
  assumes "\<forall>r \<in> set olds. tv_index r \<noteq> npos" "\<forall>r \<in> set news. prev_tv_index r = npos"
    and "distinct (map tv_index olds)" "distinct (map tv_index news)" "crv_inv removed" "crv_inv inss"
  shows "joined olds news removed inss (match_rows olds news removed inss)"
  using assms
proof (induction olds news removed inss rule: match_rows.induct)
  case (1 new removed inss)
  have "both new = []" using "1.prems"(2) by (auto simp: filter_empty_conv)
  with "1.prems" fold_add[of inss tv_index new] show ?case by (auto simp: joined_def)
next
  case (2 old olds removed inss)
  with fold_add[of removed tv_index "old # olds"] show ?case by (auto simp: joined_def)
next
  case (3 old olds new news removed inss)
  consider (eq) "row_index old = row_index new" | (lt) "row_index old < row_index new"
    | (gt) "row_index old > row_index new" by linarith
  then show ?case
  proof cases
    case eq
    with 3 show ?thesis by (cases "match_rows olds news removed inss") (simp add: joined_match)
  next
    case lt
    then have "joined olds (new # news) (is_add removed (tv_index old)) inss
        (match_rows olds (new # news) (is_add removed (tv_index old)) inss)"
      using 3 by (simp add: ix.add)
    with lt 3 show ?thesis by (cases "match_rows olds (new # news) (is_add removed (tv_index old)) inss")
      (auto intro!: joined_old)
  next
    case gt
    then have "joined (old # olds) news removed (is_add inss (tv_index new))
        (match_rows (old # olds) news removed (is_add inss (tv_index new)))"
      using 3 by (simp add: ix.add)
    with gt 3 show ?thesis by (cases "match_rows (old # olds) news removed (is_add inss (tv_index new))")
      (auto intro!: joined_new)
  qed
qed

lemma match_rows_row_index:
  "map row_index (fst (match_rows olds news removed inss)) = map row_index news"
  by (induction olds news removed inss rule: match_rows.induct) (auto simp: case_prod_beta Let_def)

text \<open>Among distinct new rows, in the order of their indices, every row that was there is found.\<close>

lemma match_rows_complete:
  assumes "sorted (map row_index olds)" "sorted (map row_index news)" "distinct (map row_index news)"
    and "r \<in> set (fst (match_rows olds news removed inss))" "row_index r \<in> row_index ` set olds"
    and "\<forall>r \<in> set olds. tv_index r \<noteq> npos"
  shows "prev_tv_index r \<noteq> npos"
  using assms
proof (induction olds news removed inss rule: match_rows.induct)
  case (3 old olds new news removed inss)
  consider (eq) "row_index old = row_index new" | (lt) "row_index old < row_index new"
    | (gt) "row_index old > row_index new" by linarith
  then show ?case
  proof cases
    case eq
    show ?thesis
    proof (cases "r \<in> set (fst (match_rows olds news removed inss))")
      case True
      then have "row_index r \<in> set (map row_index news)"
        using match_rows_row_index[of olds news removed inss] by (metis image_eqI list.set_map)
      with "3.prems"(3,5) eq have "row_index r \<in> row_index ` set olds" by auto
      with True 3 eq show ?thesis by simp
    next
      case False
      with "3.prems"(4,6) eq show ?thesis by (auto simp: case_prod_beta Let_def)
    qed
  next
    case lt
    then have mem: "r \<in> set (fst (match_rows olds (new # news) (is_add removed (tv_index old)) inss))"
      using "3.prems"(4) by simp
    then have "row_index r \<in> set (map row_index (new # news))"
      using match_rows_row_index[of olds "new # news"] by (metis image_eqI list.set_map)
    then have "row_index old < row_index r" using lt "3.prems"(2) by fastforce
    with "3.prems"(5) have "row_index r \<in> row_index ` set olds" by auto
    with mem 3 lt show ?thesis by simp
  next
    case gt
    then have "row_index new \<notin> row_index ` set (old # olds)" using "3.prems"(1) by fastforce
    then have "r \<noteq> new" using "3.prems"(5) by auto
    with gt "3.prems"(4) have "r \<in> set (fst (match_rows (old # olds) news removed (is_add inss (tv_index new))))"
      by (simp add: case_prod_beta Let_def)
    with 3 gt show ?thesis by simp
  qed
qed simp_all

subsection \<open>The rows handed to the move calculation\<close>

text \<open>What \<open>std::sort\<close> with the order of row indices promises.\<close>

definition sorts_rows :: "(row_info list \<Rightarrow> row_info list) \<Rightarrow> bool" where
  "sorts_rows s \<longleftrightarrow> (\<forall>rs. mset (s rs) = mset rs \<and> sorted (map row_index (s rs)))"

definition rows_ok :: "nat list \<Rightarrow> nat list \<Rightarrow> row_info list \<Rightarrow> crv \<Rightarrow> crv \<Rightarrow> bool" where
  "rows_ok prev_rows next_rows rows removed inss \<longleftrightarrow>
     sorted_wrt (<) (map tv_index rows) \<and> distinct (map prev_tv_index rows) \<and>
     (\<forall>r \<in> set rows. tv_index r < length next_rows \<and> row_index r = next_rows ! tv_index r \<and>
        prev_tv_index r < length prev_rows \<and> row_index r = prev_rows ! prev_tv_index r \<and>
        prev_tv_index r \<notin> gone prev_rows \<and>
        shifted_tv_index r = unshifted (gone prev_rows) (prev_tv_index r)) \<and>
     crv_inv removed \<and> elems removed = {..< length prev_rows} - gone prev_rows - prev_tv_index ` set rows \<and>
     crv_inv inss \<and> elems inss = {..< length next_rows} - tv_index ` set rows"

definition matched_rows ::
  "(row_info list \<Rightarrow> row_info list) \<Rightarrow> nat list \<Rightarrow> nat list \<Rightarrow> row_info list \<times> crv \<times> crv" where
  "matched_rows sort_rows prev_rows next_rows =
     (let (rows, removed, inss) = match_rows (sort_rows (fst (old_row_infos 0 0 prev_rows [])))
        (sort_rows (new_row_infos next_rows)) [] []
      in (sort_key tv_index (both rows), removed, inss))"

lemma calculate_eq:
  "calculate sort_rows prev_rows next_rows row_did_change move_candidates =
     (let (rows, removed, inss) = matched_rows sort_rows prev_rows next_rows;
          mods = fold (\<lambda>r s. if row_did_change (row_index r) then is_add s (tv_index r) else s) rows [];
          ret = make_builder (snd (old_row_infos 0 0 prev_rows [])) inss mods [];
          (removed, ret) =
            (case move_candidates of
               Some candidates \<Rightarrow> calculate_moves_unsorted rows removed candidates ret
             | None \<Rightarrow> (removed, calculate_moves_sorted rows ret))
      in ret\<lparr>deletions := is_add_set (deletions ret) removed\<rparr>)"
  by (cases move_candidates) (simp_all add: calculate_def matched_rows_def case_prod_beta Let_def)

lemma sorts_rows_perm:
  assumes "sorts_rows s"
  shows "set (s rs) = set rs" "distinct (map tv_index (s rs)) \<longleftrightarrow> distinct (map tv_index rs)"
    "distinct (map row_index (s rs)) \<longleftrightarrow> distinct (map row_index rs)" "sorted (map row_index (s rs))"
proof -
  have *: "mset (s rs) = mset rs" "sorted (map row_index (s rs))" using assms by (simp_all add: sorts_rows_def)
  then show "set (s rs) = set rs" "sorted (map row_index (s rs))" using mset_eq_setD by blast+
  have "mset (map f (s rs)) = mset (map f rs)" for f :: "row_info \<Rightarrow> nat" using * by simp
  then show "distinct (map tv_index (s rs)) \<longleftrightarrow> distinct (map tv_index rs)"
    "distinct (map row_index (s rs)) \<longleftrightarrow> distinct (map row_index rs)"
    by (metis mset_eq_imp_distinct_iff)+
qed

lemma matched_rowsE:
  assumes "sorts_rows s" "length prev_rows \<le> npos"
    and res: "matched_rows s prev_rows next_rows = (rows, removed, inss)"
  obtains olds news rs where
    "old_ok prev_rows olds" "\<forall>r \<in> set olds. tv_index r \<noteq> npos"
    "distinct (map tv_index news)" "tv_index ` set news = {..< length next_rows}"
    "map row_index news = next_rows" "\<forall>r \<in> set news. row_index r = next_rows ! tv_index r"
    "match_rows (s olds) (s news) [] [] = (rs, removed, inss)" "rows = sort_key tv_index (both rs)"
    "joined (s olds) (s news) [] [] (rs, removed, inss)"
proof -
  define olds where "olds = fst (old_row_infos 0 0 prev_rows [])"
  define news where "news = new_row_infos next_rows"
  have old: "old_ok prev_rows olds" using old_row_infos_ok[of prev_rows] by (simp add: olds_def case_prod_beta)
  then have "tv_index ` set olds \<subseteq> {..< npos}" using assms(2) by (auto simp: old_ok_def)
  then have np: "\<forall>r \<in> set olds. tv_index r \<noteq> npos" by auto
  obtain rs where m: "match_rows (s olds) (s news) [] [] = (rs, removed, inss)" "rows = sort_key tv_index (both rs)"
    using res by (auto simp: matched_rows_def olds_def news_def split: prod.splits)
  have news: "distinct (map tv_index news)" "tv_index ` set news = {..< length next_rows}"
    "\<forall>r \<in> set news. prev_tv_index r = npos" "\<forall>r \<in> set news. row_index r = next_rows ! tv_index r"
    "map row_index news = next_rows"
    by (auto simp: news_def new_row_infos_def comp_def image_image map_nth)
  have "joined (s olds) (s news) [] [] (rs, removed, inss)"
    unfolding m(1)[symmetric]
    by (rule match_rows_joined) (use old np news in \<open>simp_all add: sorts_rows_perm[OF assms(1)] old_ok_def\<close>)
  then show ?thesis using that old np news m by blast
qed

lemma matched_rows_ok:
  assumes "sorts_rows s" "length prev_rows \<le> npos"
    and res: "matched_rows s prev_rows next_rows = (rows, removed, inss)"
  shows "rows_ok prev_rows next_rows rows removed inss"
proof -
  obtain olds news rs where old: "old_ok prev_rows olds" "\<forall>r \<in> set olds. tv_index r \<noteq> npos"
    and news: "distinct (map tv_index news)" "tv_index ` set news = {..< length next_rows}"
      "map row_index news = next_rows" "\<forall>r \<in> set news. row_index r = next_rows ! tv_index r"
    and match: "match_rows (s olds) (s news) [] [] = (rs, removed, inss)"
    and m: "rows = sort_key tv_index (both rs)" and joined: "joined (s olds) (s news) [] [] (rs, removed, inss)"
    by (rule matched_rowsE[OF assms])
  have j: "map tv_index rs = map tv_index (s news)" "distinct (map prev_tv_index (both rs))"
    "\<forall>r \<in> set (both rs). stems olds news r" "crv_inv removed" "crv_inv inss"
    "elems removed = tv_index ` set olds - prev_tv_index ` set (both rs)"
    "elems inss = tv_index ` set news - tv_index ` set (both rs)"
    using joined by (simp_all add: joined_def list_all_iff stems_def sorts_rows_perm[OF assms(1)])
  have "distinct (map tv_index rs)" using j(1) news(1) by (simp add: sorts_rows_perm[OF assms(1)])
  then have "distinct (map tv_index rows)" "sorted (map tv_index rows)"
    by (simp_all add: m distinct_map_filter distinct_map inj_on_def)
  then have "sorted_wrt (<) (map tv_index rows)" by (simp add: strict_sorted_iff)
  moreover have "distinct (map prev_tv_index rows)" "set rows = set (both rs)"
    using j(2) by (simp_all add: m distinct_map)
  moreover have "\<forall>r \<in> set (both rs). tv_index r < length next_rows \<and> row_index r = next_rows ! tv_index r \<and>
        prev_tv_index r < length prev_rows \<and> row_index r = prev_rows ! prev_tv_index r \<and>
        prev_tv_index r \<notin> gone prev_rows \<and>
        shifted_tv_index r = unshifted (gone prev_rows) (prev_tv_index r)"
    using j(3) old(1) news(2,4) unfolding old_ok_def stems_def by fastforce
  ultimately show ?thesis using j(4-7) old(1) news(2) by (simp add: rows_ok_def old_ok_def del: set_filter) metis
qed

lemma matched_positions:
  assumes "sorts_rows s" "length prev_rows \<le> npos" "distinct next_rows"
    and res: "matched_rows s prev_rows next_rows = (rows, removed, inss)"
    and i: "i < length next_rows" "next_rows ! i \<in> set prev_rows" "next_rows ! i \<noteq> npos"
  shows "i \<in> tv_index ` set rows"
proof -
  note perm = sorts_rows_perm[OF assms(1)]
  obtain olds news rs where old: "old_ok prev_rows olds" "\<forall>r \<in> set olds. tv_index r \<noteq> npos"
    and "distinct (map tv_index news)"
    and news: "tv_index ` set news = {..< length next_rows}" "map row_index news = next_rows"
      "\<forall>r \<in> set news. row_index r = next_rows ! tv_index r"
    and match: "match_rows (s olds) (s news) [] [] = (rs, removed, inss)"
    and m: "rows = sort_key tv_index (both rs)"
    and joined: "joined (s olds) (s news) [] [] (rs, removed, inss)"
    by (rule matched_rowsE[OF assms(1,2) res])
  have maps: "map tv_index rs = map tv_index (s news)" "map row_index rs = map row_index (s news)"
    using joined match_rows_row_index[of "s olds" "s news" "[]" "[]"] by (simp_all add: joined_def match)
  have "i \<in> tv_index ` set (s news)" using news(1) i(1) by (simp add: perm)
  then obtain new where "new \<in> set (s news)" "tv_index new = i" by auto
  then obtain k where k: "k < length (s news)" "tv_index (s news ! k) = i" "row_index (s news ! k) = next_rows ! i"
    using news(3) perm(1)[of news] by (metis in_set_conv_nth)
  have len: "length rs = length (s news)" using maps(1) map_eq_imp_length_eq by blast
  then have r: "rs ! k \<in> set rs" "tv_index (rs ! k) = i" "row_index (rs ! k) = next_rows ! i"
    using k maps by (auto simp: list_eq_iff_nth_eq)
  obtain p where p: "p < length prev_rows" "prev_rows ! p = next_rows ! i" using i(2) by (auto simp: in_set_conv_nth)
  then have "p \<in> tv_index ` set olds" using i(3) old(1) by (auto simp: old_ok_def gone_def)
  then obtain old where "old \<in> set olds" "tv_index old = p" by auto
  then have "row_index (rs ! k) \<in> row_index ` set (s olds)"
    using old(1) p r(3) unfolding perm(1) old_ok_def by (metis image_eqI)
  then have "prev_tv_index (rs ! k) \<noteq> npos"
    using match_rows_complete[of "s olds" "s news" "rs ! k" "[]" "[]"] perm(1,3,4) assms(3) news(2) old(2) r(1) match
    by simp
  then show ?thesis using r by (force simp: m)
qed

end
