(* ===== verification/Change_Align.thy ===== *)
theory Change_Align
  imports Change_Match
begin

text \<open>
  The diff along common blocks: \<open>find_longest_matches\<close> returns blocks of equal rows, one
  after the other in both sequences, and \<open>calculate_moves_sorted\<close> deletes and inserts exactly
  the rows outside them.
\<close>

subsection \<open>Blocks of equal rows\<close>

definition equal_block :: "nat list \<Rightarrow> nat list \<Rightarrow> nat \<Rightarrow> nat \<Rightarrow> nat \<Rightarrow> bool" where
  "equal_block ra rb i j n \<longleftrightarrow> (\<forall>k < n. ra ! (i + k) = rb ! (j + k))"

text \<open>A block is written by its last positions while the search runs.\<close>

lemma equal_block_snoc:
  "equal_block ra rb i j n \<Longrightarrow> ra ! (i + n) = rb ! (j + n) \<Longrightarrow> equal_block ra rb i j (n + 1)"
  by (auto simp: equal_block_def less_Suc_eq)

definition ends_ok :: "nat list \<Rightarrow> nat list \<Rightarrow> nat \<Rightarrow> (nat \<times> nat) list \<Rightarrow> bool" where
  "ends_ok ra rb i ps \<longleftrightarrow>
     (\<forall>(j, n) \<in> set ps. n \<le> i \<and> n \<le> j + 1 \<and> equal_block ra rb (i - n) (j + 1 - n) n)"

lemma ends_ok_step:
  assumes "ends_ok ra rb i ps" "ra ! i = rb ! j"
  shows "block_length ps j \<le> i + 1 \<and> block_length ps j \<le> j + 1 \<and>
    equal_block ra rb (i + 1 - block_length ps j) (j + 1 - block_length ps j) (block_length ps j)"
  using assms
proof (induction ps)
  case Nil
  then show ?case by (simp add: equal_block_def)
next
  case (Cons p ps)
  show ?case
  proof (cases "fst p + 1 = j")
    case True
    have "snd p \<le> i" "snd p \<le> j" "equal_block ra rb (i - snd p) (j - snd p) (snd p)"
      using Cons.prems(1) True by (auto simp: ends_ok_def)
    with equal_block_snoc[of ra rb "i - snd p" "j - snd p" "snd p"] Cons.prems(2) True
    show ?thesis by simp
  qed (use Cons in \<open>simp add: ends_ok_def\<close>)
qed

definition block_ok :: "nat list \<Rightarrow> nat list \<Rightarrow> lcs_match \<Rightarrow> bool" where
  "block_ok ra rb m \<longleftrightarrow> equal_block ra rb (match_i m) (match_j m) (match_size m)"

lemma extend_match_ok:
  assumes "ends_ok ra rb i prev" "ra ! i = rb ! j"
    "block_ok ra rb (fst st)" "ends_ok ra rb (i + 1) (snd st)"
  shows "block_ok ra rb (fst (extend_match mods prev i j st)) \<and>
    ends_ok ra rb (i + 1) (snd (extend_match mods prev i j st))"
  using assms ends_ok_step[OF assms(1,2)]
  by (auto simp: extend_match_def block_ok_def ends_ok_def Let_def case_prod_beta)

definition index_of :: "nat list \<Rightarrow> lcs_row list \<Rightarrow> bool" where
  "index_of rb b \<longleftrightarrow> (\<forall>r \<in> set b. rb ! lcs_tv_index r = lcs_row_index r)"

lemma matches_from_ok:
  "\<forall>r \<in> set rs. rb ! lcs_tv_index r = lcs_row_index r \<Longrightarrow> j \<in> set (matches_from ai begin2 end2 rs) \<Longrightarrow> rb ! j = ai"
  by (induction rs) (auto split: if_splits)

lemma for_each_b_match_ok:
  "index_of rb b \<Longrightarrow> j \<in> set (for_each_b_match b ai begin2 end2) \<Longrightarrow> rb ! j = ai"
  unfolding for_each_b_match_def index_of_def Let_def
  by (erule matches_from_ok[rotated]) (blast dest: in_set_dropD)

lemma search_row_ok:
  assumes "index_of rb b" "lcs_row_index (a ! i) = ra ! i"
    "block_ok ra rb (fst st)" "ends_ok ra rb i (snd st)"
  shows "block_ok ra rb (fst (search_row mods a b begin2 end2 i st)) \<and>
    ends_ok ra rb (i + 1) (snd (search_row mods a b begin2 end2 i st))"
  unfolding search_row_def Let_def case_prod_beta
proof (rule fold_inv)
  fix j st' assume j: "j \<in> set (for_each_b_match b (lcs_row_index (a ! i)) begin2 end2)"
    and st': "block_ok ra rb (fst st') \<and> ends_ok ra rb (i + 1) (snd st')"
  from for_each_b_match_ok[OF assms(1) j] have "ra ! i = rb ! j" using assms(2) by simp
  with st' assms show "block_ok ra rb (fst (extend_match mods (snd st) i j st')) \<and>
      ends_ok ra rb (i + 1) (snd (extend_match mods (snd st) i j st'))"
    by (intro extend_match_ok) simp_all
qed (use assms in \<open>simp add: ends_ok_def\<close>)

lemma find_longest_match_ok:
  assumes "index_of rb b" "ra = map lcs_row_index a" "end1 \<le> length a"
  shows "block_ok ra rb (find_longest_match mods a b begin1 end1 begin2 end2)"
proof -
  define st where "st i = fold (search_row mods a b begin2 end2) [begin1 ..< i]
    (\<lparr>match_i = begin1, match_j = begin2, match_size = 0, match_modified = 0\<rparr>, [])" for i
  have start: "block_ok ra rb (fst (st begin1)) \<and> ends_ok ra rb begin1 (snd (st begin1))"
    by (simp add: st_def block_ok_def equal_block_def ends_ok_def)
  have "begin1 \<le> i \<Longrightarrow> i \<le> end1 \<Longrightarrow> block_ok ra rb (fst (st i)) \<and> ends_ok ra rb i (snd (st i))" for i
  proof (induction i rule: dec_induct)
    case (step i)
    then have "st (Suc i) = search_row mods a b begin2 end2 i (st i)" by (simp add: st_def)
    with step assms search_row_ok[of rb b a i ra "st i" mods begin2 end2] show ?case by simp
  qed (use start in simp)
  then show ?thesis
    using start by (cases "begin1 \<le> end1") (auto simp: find_longest_match_def st_def)
qed

subsection \<open>Chains of blocks\<close>

fun chain :: "nat list \<Rightarrow> nat list \<Rightarrow> nat \<Rightarrow> nat \<Rightarrow> nat \<Rightarrow> nat \<Rightarrow> lcs_match list \<Rightarrow> bool" where
  "chain ra rb i j e1 e2 [] \<longleftrightarrow> i \<le> e1 \<and> j \<le> e2"
| "chain ra rb i j e1 e2 (m # ms) \<longleftrightarrow> i \<le> match_i m \<and> j \<le> match_j m \<and> block_ok ra rb m \<and>
     chain ra rb (match_i m + match_size m) (match_j m + match_size m) e1 e2 ms"

lemma chain_weaken: "chain ra rb i j e1 e2 ms \<Longrightarrow> i' \<le> i \<Longrightarrow> j' \<le> j \<Longrightarrow> chain ra rb i' j' e1 e2 ms"
  by (cases ms) auto

lemma chain_append:
  "chain ra rb i j e1 e2 ms \<Longrightarrow> chain ra rb e1 e2 f1 f2 ns \<Longrightarrow> chain ra rb i j f1 f2 (ms @ ns)"
  by (induction ms arbitrary: i j) (auto intro: chain_weaken)

lemma find_longest_matches_chain:
  assumes "index_of rb b" "ra = map lcs_row_index a" "end1 \<le> length a" "begin1 \<le> end1" "begin2 \<le> end2"
  shows "chain ra rb begin1 begin2 end1 end2 (find_longest_matches mods a b begin1 end1 begin2 end2)"
  using assms
proof (induction mods a b begin1 end1 begin2 end2 rule: find_longest_matches.induct)
  case (1 mods a b begin1 end1 begin2 end2)
  define m where "m = find_longest_match mods a b begin1 end1 begin2 end2"
  have m: "begin1 \<le> match_i m" "match_i m + match_size m \<le> end1" "begin2 \<le> match_j m"
    "match_j m + match_size m \<le> end2"
    using find_longest_match_in[OF "1.prems"(4,5), of mods a b] by (simp_all add: m_def block_in_def)
  have ok: "block_ok ra rb m" using find_longest_match_ok[OF "1.prems"(1-3)] by (simp add: m_def)
  show ?case
  proof (cases "match_size m = 0")
    case True
    then show ?thesis
      using "1.prems" by (simp add: find_longest_matches.simps[of mods a b begin1 end1] m_def[symmetric])
  next
    case False
    let ?l = "if begin1 < match_i m \<and> begin2 < match_j m
      then find_longest_matches mods a b begin1 (match_i m) begin2 (match_j m) else []"
    let ?r = "if match_i m + match_size m < end2 \<and> match_j m + match_size m < end2
      then find_longest_matches mods a b (match_i m + match_size m) end1 (match_j m + match_size m) end2 else []"
    have "chain ra rb begin1 begin2 (match_i m) (match_j m) ?l"
      using "1.IH"(1)[OF m_def False] "1.prems" m by auto
    moreover have "chain ra rb (match_i m + match_size m) (match_j m + match_size m) end1 end2 ?r"
      using "1.IH"(2)[OF m_def False] "1.prems" m by auto
    then have "chain ra rb (match_i m) (match_j m) end1 end2 ([m] @ ?r)" using ok by simp
    ultimately have "chain ra rb begin1 begin2 end1 end2 (?l @ [m] @ ?r)" by (rule chain_append)
    moreover have "find_longest_matches mods a b begin1 end1 begin2 end2 = ?l @ [m] @ ?r"
      using False by (subst find_longest_matches.simps) (simp add: m_def[symmetric] Let_def)
    ultimately show ?thesis by simp
  qed
qed

text \<open>The pairs of positions that a chain keeps.\<close>

definition block_pairs :: "lcs_match \<Rightarrow> (nat \<times> nat) list" where
  "block_pairs m = map (\<lambda>k. (match_i m + k, match_j m + k)) [0 ..< match_size m]"

definition chain_pairs :: "lcs_match list \<Rightarrow> (nat \<times> nat) list" where
  "chain_pairs ms = concat (map block_pairs ms)"

abbreviation both_less :: "nat \<times> nat \<Rightarrow> nat \<times> nat \<Rightarrow> bool" where
  "both_less p q \<equiv> fst p < fst q \<and> snd p < snd q"

lemma block_pairs_sorted: "sorted_wrt both_less (block_pairs m)"
  by (simp add: block_pairs_def sorted_wrt_map)

lemma block_pairs_range:
  "fst ` set (block_pairs m) = {match_i m ..< match_i m + match_size m}"
  "snd ` set (block_pairs m) = {match_j m ..< match_j m + match_size m}"
proof -
  have "(\<lambda>k. x + k) ` {0 ..< n} = {x ..< x + n}" for x n :: nat by (simp add: add.commute)
  then show "fst ` set (block_pairs m) = {match_i m ..< match_i m + match_size m}"
    "snd ` set (block_pairs m) = {match_j m ..< match_j m + match_size m}"
    by (simp_all add: block_pairs_def image_image)
qed

lemma chain_pairs_Cons: "chain_pairs (m # ms) = block_pairs m @ chain_pairs ms"
  by (simp add: chain_pairs_def)

lemma chain_ends: "chain ra rb i j e1 e2 ms \<Longrightarrow> i \<le> e1 \<and> j \<le> e2"
  by (induction ms arbitrary: i j) force+

definition pair_ok :: "nat list \<Rightarrow> nat list \<Rightarrow> nat \<Rightarrow> nat \<Rightarrow> nat \<Rightarrow> nat \<Rightarrow> nat \<times> nat \<Rightarrow> bool" where
  "pair_ok ra rb i j e1 e2 p \<longleftrightarrow>
     i \<le> fst p \<and> fst p < e1 \<and> j \<le> snd p \<and> snd p < e2 \<and> ra ! fst p = rb ! snd p"

lemma chain_pairs_ok:
  "chain ra rb i j e1 e2 ms \<Longrightarrow> sorted_wrt both_less (chain_pairs ms) \<and>
   list_all (pair_ok ra rb i j e1 e2) (chain_pairs ms)"
proof (induction ms arbitrary: i j)
  case (Cons m ms)
  let ?i = "match_i m + match_size m" and ?j = "match_j m + match_size m"
  have c: "i \<le> match_i m" "j \<le> match_j m" "block_ok ra rb m" "chain ra rb ?i ?j e1 e2 ms"
    using Cons.prems by simp_all
  note IH = Cons.IH[OF c(4)] and le = chain_ends[OF c(4)]
  have "pair_ok ra rb i j ?i ?j p" if "p \<in> set (block_pairs m)" for p
    using that c(1-3) by (auto simp: block_pairs_def block_ok_def equal_block_def pair_ok_def)
  then have b: "list_all (pair_ok ra rb i j ?i ?j) (block_pairs m)" by (simp add: list_all_iff)
  then have "list_all (pair_ok ra rb i j e1 e2) (block_pairs m)"
    using le by (auto simp: list_all_iff pair_ok_def)
  moreover have "list_all (pair_ok ra rb i j e1 e2) (chain_pairs ms)"
    using IH c(1,2) by (auto simp: list_all_iff pair_ok_def)
  moreover have "both_less p q" if "p \<in> set (block_pairs m)" "q \<in> set (chain_pairs ms)" for p q
  proof -
    have "pair_ok ra rb i j ?i ?j p" "pair_ok ra rb ?i ?j e1 e2 q"
      using b IH that by (simp_all add: list_all_iff)
    then show ?thesis by (simp add: pair_ok_def)
  qed
  ultimately show ?case using IH block_pairs_sorted[of m] by (simp add: chain_pairs_Cons sorted_wrt_append)
qed (simp add: chain_pairs_def)

subsection \<open>Aligning along a chain\<close>

lemma gap_split:
  fixes i s n e :: nat
  assumes "i \<le> s" "s + n \<le> e" "P \<subseteq> {s + n ..< e}"
  shows "{i ..< e} - ({s ..< s + n} \<union> P) = {i ..< s} \<union> ({s + n ..< e} - P)"
  using assms by force

lemma align_matches_spec:
  fixes a rows
  defines "ta i \<equiv> lcs_tv_index (a ! i)" and "tb j \<equiv> tv_index (rows ! j)"
  assumes "chain ra rb i j n1 n2 ms" "crv_inv (deletions t)" "crv_inv (insertions t)"
    and "match_i z = n1" "match_j z = n2" "match_size z = 0"
    and "t' = align_matches a rows i j (ms @ [z]) t"
  shows "crv_inv (deletions t') \<and> crv_inv (insertions t') \<and>
    elems (deletions t') = elems (deletions t) \<union> ta ` ({i ..< n1} - fst ` set (chain_pairs ms)) \<and>
    elems (insertions t') = elems (insertions t) \<union> tb ` ({j ..< n2} - snd ` set (chain_pairs ms)) \<and>
    modifications t' = modifications t \<and> moves t' = moves t \<and> m_move_mapping t' = m_move_mapping t"
  using assms(3-)
proof (induction ms arbitrary: i j t)
  case Nil
  then show ?case
    using fold_add[of "deletions t" ta "[i ..< n1]"] fold_add[of "insertions t" tb "[j ..< n2]"]
    by (simp add: chain_pairs_def ta_def tb_def)
next
  case (Cons m ms)
  let ?i = "match_i m + match_size m" and ?j = "match_j m + match_size m"
  have c: "i \<le> match_i m" "j \<le> match_j m" "chain ra rb ?i ?j n1 n2 ms"
    using Cons.prems by simp_all
  define u where "u = t\<lparr>deletions := fold (\<lambda>i s. is_add s (ta i)) [i ..< match_i m] (deletions t),
    insertions := fold (\<lambda>j s. is_add s (tb j)) [j ..< match_j m] (insertions t)\<rparr>"
  have u: "crv_inv (deletions u)" "elems (deletions u) = elems (deletions t) \<union> ta ` {i ..< match_i m}"
    "crv_inv (insertions u)" "elems (insertions u) = elems (insertions t) \<union> tb ` {j ..< match_j m}"
    using fold_add[of "deletions t" ta "[i ..< match_i m]"] fold_add[of "insertions t" tb "[j ..< match_j m]"]
      Cons.prems(2,3) by (simp_all add: u_def)
  have t': "t' = align_matches a rows ?i ?j (ms @ [z]) u"
    using Cons.prems(7) c(1,2) by (simp add: u_def ta_def tb_def max_def Let_def)
  note IH = Cons.IH[OF c(3) u(1,3) Cons.prems(4-6) t']
  have P: "list_all (pair_ok ra rb ?i ?j n1 n2) (chain_pairs ms)" using chain_pairs_ok[OF c(3)] by simp
  have "fst ` set (chain_pairs ms) \<subseteq> {?i ..< n1}" "snd ` set (chain_pairs ms) \<subseteq> {?j ..< n2}"
    using P by (auto simp: list_all_iff pair_ok_def)
  with gap_split[of i "match_i m" "match_size m" n1] gap_split[of j "match_j m" "match_size m" n2] c
    chain_ends[OF c(3)]
  have "{i ..< n1} - fst ` set (chain_pairs (m # ms)) = {i ..< match_i m} \<union> ({?i ..< n1} - fst ` set (chain_pairs ms))"
    "{j ..< n2} - snd ` set (chain_pairs (m # ms)) = {j ..< match_j m} \<union> ({?j ..< n2} - snd ` set (chain_pairs ms))"
    by (simp_all add: chain_pairs_Cons image_Un block_pairs_range)
  with IH u(2,4) show ?case by (simp add: image_Un Un_assoc u_def)
qed

subsection \<open>The difference of rows in any order\<close>

definition old_order :: "row_info list \<Rightarrow> lcs_row list" where
  "old_order rows = sort_key (\<lambda>r. (lcs_tv_index r, lcs_row_index r))
     (map (\<lambda>r. \<lparr>lcs_row_index = row_index r, lcs_tv_index = prev_tv_index r\<rparr>) rows)"

definition row_order :: "row_info list \<Rightarrow> lcs_row list" where
  "row_order rows = sort_key (\<lambda>r. (lcs_row_index r, lcs_tv_index r))
     (map (\<lambda>i. \<lparr>lcs_row_index = row_index (rows ! i), lcs_tv_index = i\<rparr>) [0 ..< length rows])"

lemma length_old_order [simp]: "length (old_order rows) = length rows"
  by (simp add: old_order_def)

lemma row_order_index: "index_of (map row_index rows) (row_order rows)" "length (row_order rows) = length rows"
  by (auto simp: index_of_def row_order_def)

lemma old_order_sorted:
  assumes "distinct (map prev_tv_index rows)"
  shows "sorted_wrt (<) (map lcs_tv_index (old_order rows))"
proof -
  have "sorted (map (\<lambda>r. (lcs_tv_index r, lcs_row_index r)) (old_order rows))" by (simp add: old_order_def)
  then have "sorted (map lcs_tv_index (old_order rows))"
    by (auto simp: sorted_map elim!: sorted_wrt_mono_rel[rotated])
  moreover have "mset (map lcs_tv_index (old_order rows)) = mset (map prev_tv_index rows)"
    by (simp add: old_order_def image_mset.compositionality comp_def)
  then have "distinct (map lcs_tv_index (old_order rows))" using assms mset_eq_imp_distinct_iff by blast
  ultimately show ?thesis by (simp add: strict_sorted_iff)
qed

lemma rows_okD:
  assumes "rows_ok prev_rows next_rows rows removed inss" "r \<in> set rows"
  shows "tv_index r < length next_rows" "next_rows ! tv_index r = row_index r"
    "prev_tv_index r < length prev_rows" "prev_rows ! prev_tv_index r = row_index r"
    "prev_tv_index r \<notin> gone prev_rows"
    "shifted_tv_index r = unshifted (gone prev_rows) (prev_tv_index r)"
  using assms unfolding rows_ok_def by metis+

lemma old_order_rows:
  assumes "rows_ok prev_rows next_rows rows removed inss" "i < length rows"
  shows "lcs_tv_index (old_order rows ! i) < length prev_rows"
    "prev_rows ! lcs_tv_index (old_order rows ! i) = lcs_row_index (old_order rows ! i)"
proof -
  have "old_order rows ! i \<in> set (old_order rows)" using assms(2) by simp
  then obtain r where "r \<in> set rows"
    "old_order rows ! i = \<lparr>lcs_row_index = row_index r, lcs_tv_index = prev_tv_index r\<rparr>"
    by (auto simp: old_order_def)
  then show "lcs_tv_index (old_order rows ! i) < length prev_rows"
    "prev_rows ! lcs_tv_index (old_order rows ! i) = lcs_row_index (old_order rows ! i)"
    using rows_okD[OF assms(1)] by simp_all
qed

lemma old_order_positions: "(\<lambda>i. lcs_tv_index (old_order rows ! i)) ` {..< length rows} = prev_tv_index ` set rows"
proof -
  have "(\<lambda>i. lcs_tv_index (old_order rows ! i)) ` {..< length rows} = lcs_tv_index ` set (old_order rows)"
    by (force simp: in_set_conv_nth image_iff)
  also have "\<dots> = prev_tv_index ` set rows" by (simp add: old_order_def image_image)
  finally show ?thesis .
qed

lemma aligned_diff:
  assumes ok: "rows_ok prev_rows next_rows rows removed inss"
    and "sorted_wrt both_less qs"
    and "list_all (pair_ok (map lcs_row_index (old_order rows)) (map row_index rows) 0 0 (length rows) (length rows)) qs"
    and "D = {..< length prev_rows} - (\<lambda>i. lcs_tv_index (old_order rows ! i)) ` fst ` set qs"
    and "I = {..< length next_rows} - (\<lambda>j. tv_index (rows ! j)) ` snd ` set qs"
  shows "diff_ok prev_rows next_rows D I"
proof (rule diff_pairs)
  let ?f = "\<lambda>q. (lcs_tv_index (old_order rows ! fst q), tv_index (rows ! snd q))"
  have lt: "lcs_tv_index (old_order rows ! i) < lcs_tv_index (old_order rows ! j)" "tv_index (rows ! i) < tv_index (rows ! j)"
    if "i < j" "j < length rows" for i j
    using ok old_order_sorted[of rows] that by (auto simp: rows_ok_def sorted_wrt_iff_nth_less)
  have q: "pair_ok (map lcs_row_index (old_order rows)) (map row_index rows) 0 0 (length rows) (length rows) q"
    if "q \<in> set qs" for q using assms(3) that by (simp add: list_all_iff)
  show "sorted_wrt both_less (map ?f qs)"
    unfolding sorted_wrt_map using assms(2) by (rule sorted_wrt_mono_rel[rotated]) (use lt q in \<open>auto simp: pair_ok_def\<close>)
  show "\<forall>p \<in> set (map ?f qs). fst p < length prev_rows \<and> snd p < length next_rows \<and> prev_rows ! fst p = next_rows ! snd p"
  proof
    fix p assume "p \<in> set (map ?f qs)"
    then obtain c where c: "c \<in> set qs" "p = ?f c" by auto
    then have *: "fst c < length rows" "snd c < length rows"
      "lcs_row_index (old_order rows ! fst c) = row_index (rows ! snd c)"
      using q[of c] by (auto simp: pair_ok_def)
    with rows_okD(1,2)[OF ok nth_mem[OF *(2)]] old_order_rows[OF ok *(1)]
    show "fst p < length prev_rows \<and> snd p < length next_rows \<and> prev_rows ! fst p = next_rows ! snd p"
      by (simp add: c(2))
  qed
qed (use assms(4,5) in \<open>simp_all add: image_image\<close>)

lemma removed_and_gone:
  assumes ok: "rows_ok prev_rows next_rows rows removed inss" and K: "K \<subseteq> {..< length rows}"
  defines "ta i \<equiv> lcs_tv_index (old_order rows ! i)" and "tb j \<equiv> tv_index (rows ! j)"
  shows "gone prev_rows \<union> ta ` ({..< length rows} - K) \<union> elems removed = {..< length prev_rows} - ta ` K"
    "elems inss \<union> tb ` ({..< length rows} - K) = {..< length next_rows} - tb ` K"
proof -
  have sort: "sorted_wrt (<) (map lcs_tv_index (old_order rows))" "sorted_wrt (<) (map tv_index rows)"
    using ok old_order_sorted by (simp_all add: rows_ok_def)
  then have "distinct (map lcs_tv_index (old_order rows))" "distinct (map tv_index rows)"
    by (simp_all add: strict_sorted_iff)
  then have inj: "inj_on ta {..< length rows}" "inj_on tb {..< length rows}"
    by (auto simp: ta_def tb_def inj_on_def distinct_conv_nth)
  have a: "ta ` {..< length rows} = prev_tv_index ` set rows" "tb ` {..< length rows} = tv_index ` set rows"
    by (simp_all add: ta_def tb_def old_order_positions) (force simp: in_set_conv_nth image_iff)
  have sub: "prev_tv_index ` set rows \<subseteq> {..< length prev_rows} - gone prev_rows"
    "tv_index ` set rows \<subseteq> {..< length next_rows}" "gone prev_rows \<subseteq> {..< length prev_rows}"
    using rows_okD[OF ok] by (auto simp: gone_def)
  have "ta ` ({..< length rows} - K) = prev_tv_index ` set rows - ta ` K" "ta ` K \<subseteq> prev_tv_index ` set rows"
    using inj(1) K a(1) by (auto simp: inj_on_image_set_diff)
  moreover have "tb ` ({..< length rows} - K) = tv_index ` set rows - tb ` K" "tb ` K \<subseteq> tv_index ` set rows"
    using inj(2) K a(2) by (auto simp: inj_on_image_set_diff)
  moreover have "elems removed = {..< length prev_rows} - gone prev_rows - prev_tv_index ` set rows"
    "elems inss = {..< length next_rows} - tv_index ` set rows" using ok by (simp_all add: rows_ok_def)
  moreover have "G \<union> (S - T) \<union> (L - G - S) = L - T" if "S \<subseteq> L - G" "G \<subseteq> L" "T \<subseteq> S" for G S T L :: "nat set"
    using that by auto
  moreover have "(L - S) \<union> (S - T) = L - T" if "S \<subseteq> L" "T \<subseteq> S" for S T L :: "nat set" using that by auto
  ultimately show "gone prev_rows \<union> ta ` ({..< length rows} - K) \<union> elems removed = {..< length prev_rows} - ta ` K"
    "elems inss \<union> tb ` ({..< length rows} - K) = {..< length next_rows} - tb ` K"
    using sub by simp_all
qed

lemma calculate_moves_sorted_ok:
  assumes ok: "rows_ok prev_rows next_rows rows removed (insertions t)"
    and t: "crv_inv (deletions t)" "elems (deletions t) = gone prev_rows"
    and res: "t' = calculate_moves_sorted rows t"
  shows "crv_inv (deletions t') \<and> crv_inv (insertions t') \<and> modifications t' = modifications t \<and>
    moves t' = moves t \<and> m_move_mapping t' = m_move_mapping t \<and>
    diff_ok prev_rows next_rows (elems (deletions t') \<union> elems removed) (elems (insertions t'))"
proof -
  let ?n = "length rows" and ?ra = "map lcs_row_index (old_order rows)" and ?rb = "map row_index rows"
  define fd where "fd = find_if (\<lambda>i. lcs_row_index (old_order rows ! i) \<noteq> row_index (rows ! i)) [0 ..< ?n]"
  define pre where "pre = map (\<lambda>k. (k, k)) [0 ..< fd]"
  have fd: "fd \<le> ?n" using find_if_le[of _ "[0 ..< ?n]"] by (simp add: fd_def)
  have same: "lcs_row_index (old_order rows ! k) = row_index (rows ! k)" if "k < fd" for k
    using find_if_before[of k "\<lambda>i. lcs_row_index (old_order rows ! i) \<noteq> row_index (rows ! i)" "[0 ..< ?n]"] that fd
    by (simp add: fd_def)
  have pre: "sorted_wrt both_less pre" "list_all (pair_ok ?ra ?rb 0 0 ?n ?n) pre" "fst ` set pre = {..< fd}" "snd ` set pre = {..< fd}"
    using same fd by (auto simp: pre_def sorted_wrt_map list_all_iff pair_ok_def image_image)
  have inv: "crv_inv (insertions t)" using ok by (simp add: rows_ok_def)
  show ?thesis
  proof (cases "fd = ?n")
    case True
    then have t': "t' = t"
      using res by (simp add: calculate_moves_sorted_def fd_def old_order_def Let_def)
    have "diff_ok prev_rows next_rows (gone prev_rows \<union> elems removed) (elems (insertions t))"
      using removed_and_gone[OF ok, of "{..< ?n}"] True pre
      by (intro aligned_diff[OF ok pre(1,2)]) simp_all
    then show ?thesis using t inv by (simp add: t')
  next
    case False
    define ms where "ms = find_longest_matches (modifications t) (old_order rows) (row_order rows) fd ?n fd ?n"
    define z where "z = \<lparr>match_i = ?n, match_j = ?n, match_size = 0, match_modified = 0\<rparr>"
    have t': "t' = align_matches (old_order rows) rows fd fd (ms @ [z]) t"
      using res False row_order_index(2)[of rows]
      by (simp add: calculate_moves_sorted_def fd_def lcs_calculator_def ms_def z_def Let_def
        flip: old_order_def row_order_def)
    have c: "chain ?ra ?rb fd fd ?n ?n ms"
      unfolding ms_def using fd row_order_index(1) by (intro find_longest_matches_chain) simp_all
    note cp = chain_pairs_ok[OF c]
    let ?qs = "pre @ chain_pairs ms"
    have lo: "fd \<le> fst q \<and> fd \<le> snd q" if "q \<in> set (chain_pairs ms)" for q
      using cp that by (simp add: list_all_iff pair_ok_def)
    have q1: "sorted_wrt both_less ?qs" using pre(1) cp lo
      by (fastforce simp: sorted_wrt_append pre_def)
    have q2: "list_all (pair_ok ?ra ?rb 0 0 ?n ?n) ?qs"
      using pre(2) cp by (auto simp: list_all_iff pair_ok_def)
    let ?P = "fst ` set (chain_pairs ms)" and ?Q = "snd ` set (chain_pairs ms)"
    have s: "?P \<subseteq> {fd ..< ?n}" "?Q \<subseteq> {fd ..< ?n}" using cp by (auto simp: list_all_iff pair_ok_def)
    then have "{fd ..< ?n} - ?P = {..< ?n} - ({..< fd} \<union> ?P)" "{fd ..< ?n} - ?Q = {..< ?n} - ({..< fd} \<union> ?Q)"
      "{..< fd} \<union> ?P \<subseteq> {..< ?n}" "{..< fd} \<union> ?Q \<subseteq> {..< ?n}"
      using fd by auto
    note sets = this
    note al = align_matches_spec[OF c t(1) inv _ _ _ t']
    have al: "crv_inv (deletions t')" "crv_inv (insertions t')" "modifications t' = modifications t" "moves t' = moves t"
      "m_move_mapping t' = m_move_mapping t"
      "elems (deletions t') = gone prev_rows \<union> (\<lambda>i. lcs_tv_index (old_order rows ! i)) ` ({..< ?n} - ({..< fd} \<union> ?P))"
      "elems (insertions t') = elems (insertions t) \<union> (\<lambda>j. tv_index (rows ! j)) ` ({..< ?n} - ({..< fd} \<union> ?Q))"
      using al t(2) by (simp_all add: z_def sets(1,2))
    have "elems (deletions t') \<union> elems removed = {..< length prev_rows} - (\<lambda>i. lcs_tv_index (old_order rows ! i)) ` fst ` set ?qs"
      "elems (insertions t') = {..< length next_rows} - (\<lambda>j. tv_index (rows ! j)) ` snd ` set ?qs"
      using removed_and_gone(1)[OF ok sets(3)] removed_and_gone(2)[OF ok sets(4)] pre(3,4)
      by (simp_all only: al(6,7) set_append image_Un)
    then have "diff_ok prev_rows next_rows (elems (deletions t') \<union> elems removed) (elems (insertions t'))"
      by (rule aligned_diff[OF ok q1 q2])
    with al(1-5) show ?thesis by (intro conjI)
  qed
qed

end
