(* ===== verification/Change_Table_Order.thy ===== *)
theory Change_Table_Order
  imports Change_Align
begin

text \<open>
  \<open>calculate_moves_unsorted\<close>: the rows that it does not report as moved keep their order,
  if no row overtakes a row that is not a move candidate. This is what a table promises whose
  rows only move into the place of a deleted row.
\<close>

definition row_move :: "row_info \<Rightarrow> move" where
  "row_move r = \<lparr>move_from = prev_tv_index r, move_to = tv_index r\<rparr>"

definition not_overtaken :: "crv \<Rightarrow> row_info \<Rightarrow> row_info \<Rightarrow> bool" where
  "not_overtaken candidates r s \<longleftrightarrow>
     is_contains candidates (row_index r) \<or> prev_tv_index r < prev_tv_index s"

definition table_row :: "nat list \<Rightarrow> nat list \<Rightarrow> row_info \<Rightarrow> bool" where
  "table_row prev_rows next_rows r \<longleftrightarrow>
     tv_index r < length next_rows \<and> prev_tv_index r < length prev_rows \<and>
     prev_tv_index r \<notin> gone prev_rows \<and>
     shifted_tv_index r = unshifted (gone prev_rows) (prev_tv_index r)"

text \<open>The state of the loop: the rows kept and moved so far, and those to come.\<close>

definition loop_inv ::
  "nat list \<Rightarrow> nat list \<Rightarrow> row_info list \<Rightarrow> row_info list \<Rightarrow> nat \<Rightarrow> row_info list \<Rightarrow> crv \<Rightarrow> change_builder \<Rightarrow> bool"
where
  "loop_inv prev_rows next_rows kept moved expected rest removed t \<longleftrightarrow>
     crv_inv removed \<and> elems removed = {..< length prev_rows} - gone prev_rows - prev_tv_index ` set (kept @ rest) \<and>
     crv_inv (insertions t) \<and> elems (insertions t) = {..< length next_rows} - tv_index ` set (kept @ rest) \<and>
     moves t = map row_move moved \<and>
     distinct (map prev_tv_index (kept @ moved @ rest)) \<and> distinct (map tv_index (kept @ moved @ rest)) \<and>
     sorted_wrt (<) (map prev_tv_index kept) \<and> sorted_wrt (<) (map tv_index (kept @ rest)) \<and>
     list_all (table_row prev_rows next_rows) (kept @ moved @ rest) \<and>
     list_all (\<lambda>r. shifted_tv_index r < expected) kept \<and> list_all (\<lambda>r. expected \<le> shifted_tv_index r) rest"

lemma unshifted_less_iff:
  "x \<notin> E \<Longrightarrow> y \<notin> E \<Longrightarrow> unshifted E x < unshifted E y \<longleftrightarrow> x < y"
  using unshifted_less[of x y E] unshifted_less[of y x E] by (cases x y rule: linorder_cases) auto

lemma loop_invD:
  assumes "loop_inv prev_rows next_rows kept moved expected rest removed t"
  shows "crv_inv removed" "crv_inv (insertions t)" "moves t = map row_move moved"
    "elems removed = {..< length prev_rows} - gone prev_rows - prev_tv_index ` set (kept @ rest)"
    "elems (insertions t) = {..< length next_rows} - tv_index ` set (kept @ rest)"
    "distinct (map prev_tv_index (kept @ moved @ rest))" "distinct (map tv_index (kept @ moved @ rest))"
    "sorted_wrt (<) (map prev_tv_index kept)" "sorted_wrt (<) (map tv_index (kept @ rest))"
    "\<And>r. r \<in> set (kept @ moved @ rest) \<Longrightarrow> tv_index r < length next_rows"
    "\<And>r. r \<in> set (kept @ moved @ rest) \<Longrightarrow> prev_tv_index r < length prev_rows"
    "\<And>r. r \<in> set (kept @ moved @ rest) \<Longrightarrow> prev_tv_index r \<notin> gone prev_rows"
    "\<And>r. r \<in> set (kept @ moved @ rest) \<Longrightarrow> shifted_tv_index r = unshifted (gone prev_rows) (prev_tv_index r)"
    "\<And>r. r \<in> set kept \<Longrightarrow> shifted_tv_index r < expected"
    "\<And>r. r \<in> set rest \<Longrightarrow> expected \<le> shifted_tv_index r"
    "list_all (table_row prev_rows next_rows) (kept @ moved @ rest)"
    "list_all (\<lambda>r. shifted_tv_index r < expected) kept" "list_all (\<lambda>r. expected \<le> shifted_tv_index r) rest"
  using assms unfolding loop_inv_def list_all_iff table_row_def by metis+

lemma loop_inv_less:
  assumes "loop_inv prev_rows next_rows kept moved expected rest removed t"
    "r \<in> set (kept @ moved @ rest)" "s \<in> set (kept @ moved @ rest)"
  shows "shifted_tv_index r < shifted_tv_index s \<longleftrightarrow> prev_tv_index r < prev_tv_index s"
  using unshifted_less_iff[OF loop_invD(12)[OF assms(1,2)] loop_invD(12)[OF assms(1,3)]]
    loop_invD(13)[OF assms(1,2)] loop_invD(13)[OF assms(1,3)] by simp

lemma loop_rest_ne:
  assumes "loop_inv prev_rows next_rows kept moved expected (row # rest) removed t" "r \<in> set rest"
  shows "prev_tv_index r \<noteq> prev_tv_index row" "prev_tv_index r \<notin> prev_tv_index ` set kept"
proof -
  have "prev_tv_index r \<in> prev_tv_index ` set rest" using assms(2) by simp
  with loop_invD(6)[OF assms(1)] show "prev_tv_index r \<noteq> prev_tv_index row"
    "prev_tv_index r \<notin> prev_tv_index ` set kept" by (force, simp add: disjoint_iff, blast)
qed

text \<open>A row that stays goes to the rows kept when all later rows come after it in the old list.\<close>

lemma loop_keep:
  assumes inv: "loop_inv prev_rows next_rows kept moved expected (row # rest) removed t"
    and later: "\<forall>r \<in> set rest. prev_tv_index row < prev_tv_index r"
  shows "loop_inv prev_rows next_rows (kept @ [row]) moved (shifted_tv_index row + 1) rest removed t"
proof -
  have lt: "prev_tv_index k < prev_tv_index row" "shifted_tv_index k < shifted_tv_index row" if "k \<in> set kept" for k
  proof -
    have "shifted_tv_index k < expected" "expected \<le> shifted_tv_index row"
      using loop_invD(14,15)[OF inv] that by simp_all
    then show "shifted_tv_index k < shifted_tv_index row" by simp
    then show "prev_tv_index k < prev_tv_index row" using loop_inv_less[OF inv, of k row] that by simp
  qed
  have "shifted_tv_index row + 1 \<le> shifted_tv_index r" if "r \<in> set rest" for r
    using loop_inv_less[OF inv, of row r] later that by simp
  moreover have "sorted_wrt (<) (map prev_tv_index (kept @ [row]))"
    using loop_invD(8)[OF inv] lt by (simp add: sorted_wrt_append)
  moreover have "\<forall>r \<in> set (kept @ [row]). shifted_tv_index r < shifted_tv_index row + 1" using lt(2) by (auto intro: less_SucI)
  moreover have "distinct (map prev_tv_index (kept @ row # moved @ rest))" "distinct (map tv_index (kept @ row # moved @ rest))"
    using loop_invD(6,7)[OF inv] by auto
  ultimately show ?thesis
    using loop_invD(1-5,9,16)[OF inv] unfolding loop_inv_def by (simp add: list_all_iff)
qed

lemma loop_move:
  assumes inv: "loop_inv prev_rows next_rows kept moved expected (row # rest) removed t"
  shows "loop_inv prev_rows next_rows kept (moved @ [row]) expected rest (is_add removed (prev_tv_index row))
    (t\<lparr>moves := moves t @ [row_move row], insertions := is_add (insertions t) (tv_index row)\<rparr>)"
proof -
  have "{..< length prev_rows} - gone prev_rows - prev_tv_index ` set (kept @ rest) =
      insert (prev_tv_index row) ({..< length prev_rows} - gone prev_rows - prev_tv_index ` set (kept @ row # rest))"
    "{..< length next_rows} - tv_index ` set (kept @ rest) =
      insert (tv_index row) ({..< length next_rows} - tv_index ` set (kept @ row # rest))"
    using loop_invD(6,7)[OF inv] loop_invD(10-12)[OF inv, of row] by auto
  then have "elems (is_add removed (prev_tv_index row)) =
      {..< length prev_rows} - gone prev_rows - prev_tv_index ` set (kept @ rest)"
    "elems (is_add (insertions t) (tv_index row)) = {..< length next_rows} - tv_index ` set (kept @ rest)"
    by (simp_all only: ix.add[OF loop_invD(1)[OF inv]] ix.add[OF loop_invD(2)[OF inv]] loop_invD(4,5)[OF inv])
  moreover have "crv_inv (is_add removed (prev_tv_index row))" "crv_inv (is_add (insertions t) (tv_index row))"
    using loop_invD(1,2)[OF inv] by (simp_all add: ix.add)
  moreover have "sorted_wrt (<) (map tv_index (kept @ rest))"
    using loop_invD(9)[OF inv] by (simp add: sorted_wrt_append)
  ultimately show ?thesis
    using loop_invD(3,6-8,16-18)[OF inv] unfolding loop_inv_def by simp
qed

text \<open>
  If the row is where the insertions and removals put it, exactly the kept rows were before it
  among the rows that are still there.
\<close>

lemma calc_expected_later:
  assumes inv: "loop_inv prev_rows next_rows kept moved expected (row # rest) removed t"
    and eq: "shifted_tv_index row = tv_index row - is_count (insertions t) 0 (tv_index row)
      + is_count removed 0 (prev_tv_index row)"
  shows "\<forall>r \<in> set rest. prev_tv_index row < prev_tv_index r"
proof -
  let ?p = "prev_tv_index row" and ?G = "gone prev_rows"
  have len: "tv_index row < length next_rows" "?p < length prev_rows" using loop_invD(10,11)[OF inv, of row] by simp_all
  have K: "prev_tv_index ` set kept \<subseteq> {..< ?p}"
  proof
    fix x assume "x \<in> prev_tv_index ` set kept"
    then obtain k where k: "k \<in> set kept" "x = prev_tv_index k" by auto
    then have "shifted_tv_index k < shifted_tv_index row"
      using loop_invD(14)[OF inv, of k] loop_invD(15)[OF inv, of row] by simp
    with loop_inv_less[OF inv, of k row] k show "x \<in> {..< ?p}" by simp
  qed
  have tvK: "tv_index ` set kept \<subseteq> {..< tv_index row}" and tvR: "\<forall>r \<in> set rest. tv_index row < tv_index r"
    using loop_invD(9)[OF inv] by (auto simp: sorted_wrt_append)
  have cK: "card (tv_index ` set kept) = length kept" "card (prev_tv_index ` set kept) = length kept"
    using loop_invD(6,7)[OF inv] distinct_card[of "map tv_index kept"] distinct_card[of "map prev_tv_index kept"]
    by simp_all
  have "{y \<in> elems (insertions t). y < tv_index row} = {..< tv_index row} - tv_index ` set kept"
    unfolding loop_invD(5)[OF inv] using len tvR by auto
  then have ins: "is_count (insertions t) 0 (tv_index row) = tv_index row - length kept"
    using loop_invD(2)[OF inv] tvK cK(1) by (simp add: count_from_zero below_def card_Diff_subset)
  have "length kept \<le> tv_index row" using card_mono[OF _ tvK] cK(1) by simp
  have before: "{..< ?p} - ?G = {y \<in> elems removed. y < ?p} \<union> (prev_tv_index ` set (kept @ row # rest) \<inter> {..< ?p})"
    unfolding loop_invD(4)[OF inv] using len loop_invD(12)[OF inv] by auto
  have "{y \<in> elems removed. y < ?p} \<inter> (prev_tv_index ` set (kept @ row # rest) \<inter> {..< ?p}) = {}"
    unfolding loop_invD(4)[OF inv] by auto
  then have "card ({..< ?p} - ?G) = below (elems removed) ?p + card (prev_tv_index ` set (kept @ row # rest) \<inter> {..< ?p})"
    unfolding before below_def by (subst card_Un_disjoint) auto
  moreover have "card ({..< ?p} - ?G) = shifted_tv_index row"
    using loop_invD(13)[OF inv, of row] card_kept[of ?G ?p] by (simp add: Diff_eq Int_def conj_commute)
  ultimately have "card (prev_tv_index ` set (kept @ row # rest) \<inter> {..< ?p}) = length kept"
    using eq ins \<open>length kept \<le> tv_index row\<close> loop_invD(1)[OF inv] by (simp add: count_from_zero)
  then have "prev_tv_index ` set kept = prev_tv_index ` set (kept @ row # rest) \<inter> {..< ?p}"
    using K cK(2) by (intro card_subset_eq) auto
  moreover have "prev_tv_index r \<noteq> ?p" "prev_tv_index r \<notin> prev_tv_index ` set kept" if "r \<in> set rest" for r
    using loop_rest_ne[OF inv that] by simp_all
  ultimately show ?thesis by (metis IntI UnCI image_eqI lessThan_iff linorder_neqE_nat set_append list.set_intros(2))
qed

lemma moves_unsorted_loop_ok:
  assumes "loop_inv prev_rows next_rows kept moved expected rest removed t"
    and "sorted_wrt (not_overtaken candidates) rest"
    and "moves_unsorted_loop candidates expected rest removed t = (removed', t')"
  shows "\<exists>kept' moved' expected'. loop_inv prev_rows next_rows kept' moved' expected' [] removed' t' \<and>
    set kept' \<union> set moved' = set kept \<union> set moved \<union> set rest \<and>
    deletions t' = deletions t \<and> modifications t' = modifications t \<and> m_move_mapping t' = m_move_mapping t"
  using assms
proof (induction candidates expected rest removed t arbitrary: kept moved rule: moves_unsorted_loop.induct)
  case (1 candidates expected removed t)
  then show ?case by fastforce
next
  case (2 candidates expected row rows removed t)
  note inv = "2.prems"(1)
  have step: "?case" if "loop_inv prev_rows next_rows kept' moved' e rows rem u"
    "moves_unsorted_loop candidates e rows rem u = (removed', t')"
    "set kept' \<union> set moved' = insert row (set kept \<union> set moved)"
    "deletions u = deletions t" "modifications u = modifications t" "m_move_mapping u = m_move_mapping t"
    and IH: "\<And>kept moved. loop_inv prev_rows next_rows kept moved e rows rem u \<Longrightarrow>
      sorted_wrt (not_overtaken candidates) rows \<Longrightarrow> moves_unsorted_loop candidates e rows rem u = (removed', t') \<Longrightarrow>
      \<exists>kept' moved' expected'. loop_inv prev_rows next_rows kept' moved' expected' [] removed' t' \<and>
        set kept' \<union> set moved' = set kept \<union> set moved \<union> set rows \<and>
        deletions t' = deletions u \<and> modifications t' = modifications u \<and> m_move_mapping t' = m_move_mapping u"
    for kept' moved' e rem u
    using IH[OF that(1) _ that(2)] that(3-6) "2.prems"(2) by auto
  let ?calc = "tv_index row - is_count (insertions t) 0 (tv_index row) + is_count removed 0 (prev_tv_index row)"
  have ne: "prev_tv_index r \<noteq> prev_tv_index row" if "r \<in> set rows" for r
    using loop_rest_ne[OF inv that] by simp_all
  consider (expected) "shifted_tv_index row = expected"
    | (fixed) "shifted_tv_index row \<noteq> expected" "\<not> is_contains candidates (row_index row)"
    | (calc) "shifted_tv_index row \<noteq> expected" "is_contains candidates (row_index row)" "shifted_tv_index row = ?calc"
    | (move) "shifted_tv_index row \<noteq> expected" "is_contains candidates (row_index row)" "shifted_tv_index row \<noteq> ?calc"
    by blast
  then show ?case
  proof cases
    case expected
    have "prev_tv_index row < prev_tv_index r" if "r \<in> set rows" for r
      using loop_invD(15)[OF inv, of r] loop_inv_less[OF inv, of r row] ne[OF that] that expected by auto
    then show ?thesis using expected "2.prems"(3) "2.IH"(1)[OF expected]
      by (intro step[OF loop_keep[OF inv]]) simp_all
  next
    case fixed
    then have "\<forall>r \<in> set rows. prev_tv_index row < prev_tv_index r"
      using "2.prems"(2) by (simp add: not_overtaken_def)
    then show ?thesis using fixed "2.prems"(3) "2.IH"(2)[OF fixed]
      by (intro step[OF loop_keep[OF inv]]) simp_all
  next
    case calc
    then show ?thesis using "2.prems"(3) "2.IH"(3)[OF calc(1) _ refl calc(3)]
      by (intro step[OF loop_keep[OF inv calc_expected_later[OF inv calc(3)]]]) simp_all
  next
    case move
    then show ?thesis using "2.prems"(3) "2.IH"(4)[OF move(1) _ refl move(3)]
      by (intro step[OF loop_move[OF inv]]) (simp_all add: row_move_def Let_def)
  qed
qed

end
