(* ===== verification/Change_Calc_Props.thy ===== *)
theory Change_Calc_Props
  imports Change_Table_Order Change_Props
begin

text \<open>
  The properties of \<open>calculate\<close>: the difference of two lists of rows is right, for rows in
  any order and for rows in table order, and marks exactly the changed rows; the search for
  common blocks ends with blocks that fit; and table order goes wrong when rows are swapped.
\<close>

subsection \<open>Both calculations on the matched rows\<close>

lemma table_order_start:
  assumes "rows_ok prev_rows next_rows rows removed (insertions t)" "moves t = []"
  shows "loop_inv prev_rows next_rows [] [] 0 rows removed t"
  using assms rows_okD[OF assms(1)]
  by (auto simp: loop_inv_def rows_ok_def table_row_def list_all_iff strict_sorted_iff)

lemma table_order_end:
  assumes inv: "loop_inv prev_rows next_rows kept moved e [] removed t"
    and same: "\<And>r. r \<in> set kept \<union> set moved \<Longrightarrow> prev_rows ! prev_tv_index r = next_rows ! tv_index r"
    and map: "m_move_mapping t = []"
  shows "diff_ok prev_rows next_rows (gone prev_rows \<union> elems removed) (elems (insertions t))"
    "links_ok prev_rows next_rows (gone prev_rows \<union> elems removed) (elems (insertions t)) (links t)"
proof -
  have gone: "gone prev_rows \<subseteq> {..< length prev_rows}" by (auto simp: gone_def)
  have D: "gone prev_rows \<union> elems removed = {..< length prev_rows} - prev_tv_index ` set kept"
    using gone loop_invD(12)[OF inv] unfolding loop_invD(4)[OF inv] by auto
  show "diff_ok prev_rows next_rows (gone prev_rows \<union> elems removed) (elems (insertions t))"
  proof (rule diff_pairs)
    let ?ps = "map (\<lambda>r. (prev_tv_index r, tv_index r)) kept"
    show "sorted_wrt (\<lambda>p q. fst p < fst q \<and> snd p < snd q) ?ps"
      using loop_invD(8,9)[OF inv] by (simp add: sorted_wrt_map sorted_wrt_iff_nth_less)
    show "\<forall>p \<in> set ?ps. fst p < length prev_rows \<and> snd p < length next_rows \<and> prev_rows ! fst p = next_rows ! snd p"
      using loop_invD(10,11)[OF inv] same by simp
  qed (use D loop_invD(5)[OF inv] in \<open>simp_all add: image_image\<close>)
  have l: "links t = map (\<lambda>r. (prev_tv_index r, tv_index r)) moved"
    using loop_invD(3)[OF inv] map by (simp add: links_def row_move_def)
  have "prev_tv_index r \<notin> prev_tv_index ` set kept" "tv_index r \<notin> tv_index ` set kept" if "r \<in> set moved" for r
    using loop_invD(6,7)[OF inv] that by (auto simp: disjoint_iff)
  then show "links_ok prev_rows next_rows (gone prev_rows \<union> elems removed) (elems (insertions t)) (links t)"
    unfolding links_ok_def l D loop_invD(5)[OF inv]
    using loop_invD(6,7)[OF inv] loop_invD(10,11)[OF inv] same by (simp add: comp_def)
qed

lemma marks_of_rows:
  assumes "rows_ok prev_rows next_rows rows removed inss"
  shows "crv_inv (fold (\<lambda>r s. if P (row_index r) then is_add s (tv_index r) else s) rows [])"
    "elems (fold (\<lambda>r s. if P (row_index r) then is_add s (tv_index r) else s) rows []) =
       {i \<in> tv_index ` set rows. P (next_rows ! i)}"
  using fold_add_if[of "[]" "\<lambda>r. P (row_index r)" tv_index rows] rows_okD(2)[OF assms] by auto

text \<open>The builder that both calculations start from.\<close>

definition calc_start :: "nat list \<Rightarrow> (nat \<Rightarrow> bool) \<Rightarrow> row_info list \<Rightarrow> crv \<Rightarrow> change_builder" where
  "calc_start prev_rows P rows inss = make_builder (snd (old_row_infos 0 0 prev_rows [])) inss
     (fold (\<lambda>r s. if P (row_index r) then is_add s (tv_index r) else s) rows []) []"

lemma calculate_cases:
  assumes "matched_rows s prev_rows next_rows = (rows, removed, inss)"
  shows "calculate s prev_rows next_rows P None =
      (let ret = calculate_moves_sorted rows (calc_start prev_rows P rows inss)
       in ret\<lparr>deletions := is_add_set (deletions ret) removed\<rparr>)"
    "calculate s prev_rows next_rows P (Some c) =
      (let (removed, ret) = calculate_moves_unsorted rows removed c (calc_start prev_rows P rows inss)
       in ret\<lparr>deletions := is_add_set (deletions ret) removed\<rparr>)"
  using assms by (simp_all add: calculate_eq calc_start_def Let_def)

lemma calc_start_ok:
  assumes "rows_ok prev_rows next_rows rows removed inss" and t_def: "t = calc_start prev_rows P rows inss"
  shows "insertions t = inss" "crv_inv (deletions t)" "elems (deletions t) = gone prev_rows"
    "moves t = []" "m_move_mapping t = []" "crv_inv (modifications t)"
    "elems (modifications t) = {i \<in> tv_index ` set rows. P (next_rows ! i)}"
  using old_row_infos_ok[of prev_rows] marks_of_rows[OF assms(1), of P]
  by (simp_all add: t_def calc_start_def make_builder_def case_prod_beta)

text \<open>
  For rows in any order, with or without duplicates, and whatever order \<open>std::sort\<close> gives
  to rows of equal index, \<open>calculate\<close> without move candidates returns a difference that turns
  the old rows into the new ones, marks only positions of the new list, and reports no moves.
\<close>

lemma calculate_any_order:
  assumes "sorts_rows s" "length prev_rows \<le> npos"
  shows "let r = calculate s prev_rows next_rows row_did_change None in
    tracks prev_rows next_rows r \<and> moves r = [] \<and> marks_ok (length next_rows) r"
proof -
  obtain rows removed inss where m: "matched_rows s prev_rows next_rows = (rows, removed, inss)"
    by (cases "matched_rows s prev_rows next_rows") auto
  note ok = matched_rows_ok[OF assms m]
  define t where "t = calc_start prev_rows row_did_change rows inss"
  define t' where "t' = calculate_moves_sorted rows t"
  note t = calc_start_ok[OF ok t_def]
  have "crv_inv removed" using ok by (simp add: rows_ok_def)
  note add = add_set_correct[OF _ this]
  have t': "crv_inv (deletions t')" "crv_inv (insertions t')" "modifications t' = modifications t" "moves t' = []"
    "m_move_mapping t' = []"
    "diff_ok prev_rows next_rows (elems (deletions t') \<union> elems removed) (elems (insertions t'))"
    using calculate_moves_sorted_ok[of prev_rows next_rows rows removed t t'] ok t t'_def by simp_all
  then show ?thesis using t(6,7) rows_okD(1)[OF ok]
    by (auto simp: calculate_cases(1)[OF m] t_def[symmetric] t'_def[symmetric] tracks_def add links_def links_ok_def marks_ok_def Let_def)
qed

lemma sort_key_sorts_rows: "sorts_rows (sort_key row_index)"
  by (simp add: sorts_rows_def)

theorem calculate_any_order_witness:
  "let r = calculate (sort_key row_index) [5, npos, 7, 7] [7, 6, 5] (\<lambda>r. r = 5) None in
     tracks [5, npos, 7, 7] [7, 6, 5] r \<and> moves r = [] \<and> marks_ok (length [7, 6, 5 :: nat]) r"
  using calculate_any_order[OF sort_key_sorts_rows, of "[5, npos, 7, 7]" "[7, 6, 5]" "\<lambda>r. r = 5"]
  by (simp add: npos_def)

text \<open>
  For rows in table order, \<open>calculate\<close> with move candidates returns a difference that
  turns the old rows into the new ones, in which every reported move leads from a deleted to an
  inserted position of the same row, provided that no row overtakes one that is not a candidate.
\<close>

lemma calculate_table_order:
  assumes "sorts_rows s" "length prev_rows \<le> npos" "crv_inv candidates"
    and fixed: "\<And>i j p q. i < j \<Longrightarrow> j < length next_rows \<Longrightarrow> next_rows ! i \<notin> elems candidates \<Longrightarrow>
      p < length prev_rows \<Longrightarrow> q < length prev_rows \<Longrightarrow> prev_rows ! p = next_rows ! i \<Longrightarrow>
      prev_rows ! q = next_rows ! j \<Longrightarrow> p < q"
  shows "let r = calculate s prev_rows next_rows row_did_change (Some candidates) in
    tracks prev_rows next_rows r \<and> cb_verify r \<and> marks_ok (length next_rows) r"
proof -
  obtain rows removed inss where m: "matched_rows s prev_rows next_rows = (rows, removed, inss)"
    by (cases "matched_rows s prev_rows next_rows") auto
  note ok = matched_rows_ok[OF assms(1,2) m]
  define t where "t = calc_start prev_rows row_did_change rows inss"
  note t = calc_start_ok[OF ok t_def]
  obtain removed' t' where l: "moves_unsorted_loop candidates 0 rows removed t = (removed', t')" by fastforce
  have "sorted_wrt (<) (map tv_index rows)" using ok by (simp add: rows_ok_def)
  moreover have "not_overtaken candidates x y" if "x \<in> set rows" "y \<in> set rows" "tv_index x < tv_index y" for x y
    using fixed[OF that(3), of "prev_tv_index x" "prev_tv_index y"] rows_okD[OF ok that(1)] rows_okD[OF ok that(2)]
      ix.mem[OF assms(3), of "row_index x"] by (auto simp: not_overtaken_def)
  ultimately have "sorted_wrt (not_overtaken candidates) rows"
    unfolding sorted_wrt_map by (rule_tac sorted_wrt_mono_rel[rotated])
  then obtain kept moved e where inv: "loop_inv prev_rows next_rows kept moved e [] removed' t'"
    and k: "set kept \<union> set moved = set rows"
    and t': "deletions t' = deletions t" "modifications t' = modifications t" "m_move_mapping t' = m_move_mapping t"
    using moves_unsorted_loop_ok[OF table_order_start _ l, of prev_rows next_rows] ok t(1,4) by auto
  have same: "\<And>r. r \<in> set kept \<union> set moved \<Longrightarrow> prev_rows ! prev_tv_index r = next_rows ! tv_index r"
    using rows_okD(2,4)[OF ok] by (simp add: k)
  have map: "m_move_mapping t' = []" using t' t by simp
  note dl = table_order_end[OF inv same map]
  define r where "r = t'\<lparr>deletions := is_add_set (deletions t') removed'\<rparr>"
  have r: "calculate s prev_rows next_rows row_did_change (Some candidates) = r"
    by (simp add: calculate_cases(2)[OF m] calculate_moves_unsorted_def t_def[symmetric] l r_def)
  have "crv_inv (deletions t')" using t t' by simp
  note add = add_set_correct[OF this loop_invD(1)[OF inv]]
  have "links r = links t'" by (simp add: links_def r_def)
  then have "tracks prev_rows next_rows r"
    using dl loop_invD(2)[OF inv] add t' t by (simp add: tracks_def r_def)
  moreover have "marks_ok (length next_rows) r"
    using t(6,7) t'(2) rows_okD(1)[OF ok] by (auto simp: marks_ok_def r_def)
  ultimately show ?thesis using tracks_verify by (simp add: r Let_def)
qed

theorem calculate_table_order_witness:
  "let r = calculate (sort_key row_index) [npos, 1, 0] [0, 1] (\<lambda>_. False) (Some (is_of_list [0])) in
     tracks [npos, 1, 0] [0, 1] r \<and> cb_verify r"
proof -
  have c: "crv_inv (is_of_list [0])" "elems (is_of_list [0]) = {0}"
    using of_list_correct[of "[0]"] by simp_all
  have "let r = calculate (sort_key row_index) [npos, 1, 0] [0, 1] (\<lambda>_. False) (Some (is_of_list [0])) in
      tracks [npos, 1, 0] [0, 1] r \<and> cb_verify r \<and> marks_ok (length [0, 1 :: nat]) r"
    by (rule calculate_table_order[OF sort_key_sorts_rows])
      (auto simp: c npos_def less_Suc_eq nth_Cons')
  then show ?thesis by (simp add: Let_def)
qed

text \<open>
  When the new rows are distinct, \<open>calculate\<close> marks exactly the rows that were in the old
  list and did change.
\<close>

lemma calculate_marks_changed_rows:
  assumes "sorts_rows s" "length prev_rows \<le> npos" "distinct next_rows"
  shows "elems (modifications (calculate s prev_rows next_rows row_did_change None)) =
    {i. i < length next_rows \<and> next_rows ! i \<in> set prev_rows - {npos} \<and> row_did_change (next_rows ! i)}"
proof -
  obtain rows removed inss where m: "matched_rows s prev_rows next_rows = (rows, removed, inss)"
    by (cases "matched_rows s prev_rows next_rows") auto
  note ok = matched_rows_ok[OF assms(1,2) m]
  define t where "t = calc_start prev_rows row_did_change rows inss"
  note t = calc_start_ok[OF ok t_def]
  have "next_rows ! tv_index r \<in> set prev_rows - {npos}" "tv_index r < length next_rows" if "r \<in> set rows" for r
    using rows_okD[OF ok that] by (simp_all add: gone_def) (metis nth_mem)
  then have "tv_index ` set rows = {i. i < length next_rows \<and> next_rows ! i \<in> set prev_rows - {npos}}"
    using matched_positions[OF assms m] by auto
  moreover have "modifications (calculate_moves_sorted rows t) = modifications t"
    using calculate_moves_sorted_ok[of prev_rows next_rows rows removed t "calculate_moves_sorted rows t"] ok t by simp
  ultimately show ?thesis
    using t(7) by (auto simp: calculate_cases(1)[OF m] t_def[symmetric] Let_def)
qed

theorem calculate_marks_changed_rows_witness:
  "elems (modifications (calculate (sort_key row_index) [5, npos, 7] [7, 6, 5] (\<lambda>r. r \<noteq> 7) None)) = {2}"
proof -
  have "{i. i < length [7, 6, 5 :: nat] \<and> [7, 6, 5] ! i \<in> set [5, npos, 7] - {npos} \<and> [7, 6, 5] ! i \<noteq> (7 :: nat)} = {2}"
    by (auto simp: less_Suc_eq nth_Cons' npos_def)
  then show ?thesis
    using calculate_marks_changed_rows[OF sort_key_sorts_rows, of "[5, npos, 7]" "[7, 6, 5]" "\<lambda>r. r \<noteq> 7"]
    by (simp add: npos_def)
qed

text \<open>
  C35. The block that \<open>find_longest_match\<close> returns satisfies its two assertions, it lies in
  the range searched, and it consists of equal rows; a block that is not empty leaves less to search
  on either side, so the recursion of \<open>find_longest_matches\<close> ends.
\<close>

theorem longest_match_bounds:
  assumes "begin1 \<le> end1" "end1 \<le> length a" "begin2 \<le> end2" "index_of rb b"
  shows "let m = find_longest_match mods a b begin1 end1 begin2 end2 in
    begin1 \<le> match_i m \<and> match_i m + match_size m \<le> end1 \<and>
    begin2 \<le> match_j m \<and> match_j m + match_size m \<le> end2 \<and>
    (\<forall>k < match_size m. lcs_row_index (a ! (match_i m + k)) = rb ! (match_j m + k)) \<and>
    (match_size m \<noteq> 0 \<longrightarrow> match_i m - begin1 < end1 - begin1 \<and>
       end1 - (match_i m + match_size m) < end1 - begin1)"
proof -
  define m where "m = find_longest_match mods a b begin1 end1 begin2 end2"
  have m: "block_in begin1 end1 begin2 end2 m" using find_longest_match_in[OF assms(1,3)] by (simp add: m_def)
  moreover have "block_ok (map lcs_row_index a) rb m"
    using find_longest_match_ok[OF assms(4) refl assms(2)] by (simp add: m_def)
  then have "lcs_row_index (a ! (match_i m + k)) = rb ! (match_j m + k)" if "k < match_size m" for k
    using that m assms(2) by (simp add: block_ok_def equal_block_def block_in_def)
  ultimately show ?thesis unfolding Let_def m_def[symmetric] by (auto simp: block_in_def)
qed

theorem longest_match_bounds_witness:
  "let m = find_longest_match [] [\<lparr>lcs_row_index = 4, lcs_tv_index = 0\<rparr>] [\<lparr>lcs_row_index = 4, lcs_tv_index = 0\<rparr>] 0 1 0 1
   in match_i m + match_size m \<le> 1 \<and> match_j m + match_size m \<le> 1"
  using longest_match_bounds[of 0 1 "[\<lparr>lcs_row_index = 4, lcs_tv_index = 0\<rparr>]" 0 1 "[4]"
    "[\<lparr>lcs_row_index = 4, lcs_tv_index = 0\<rparr>]" "[]"]
  by (simp add: index_of_def Let_def)

subsection \<open>Swapped rows\<close>

lemma swapped_rows_matched:
  "matched_rows (sort_key row_index) [4, 3, 2] [2, 3, 4] =
    ([\<lparr>row_index = 2, prev_tv_index = 2, tv_index = 0, shifted_tv_index = 2\<rparr>,
      \<lparr>row_index = 3, prev_tv_index = 1, tv_index = 1, shifted_tv_index = 1\<rparr>,
      \<lparr>row_index = 4, prev_tv_index = 0, tv_index = 2, shifted_tv_index = 0\<rparr>], [], [])"
  by (simp add: matched_rows_def new_row_infos_def upt_rec npos_def)

text \<open>
  C19. With swapped rows the calculation in table order goes wrong. A query matches rows 0, 1 and 2
  of a table; row 0 is swapped with row 4 and row 1 with row 3, and the rows now at 0 and 1 do not
  match. The old rows are at 4, 3 and 2, the new result is 2, 3, 4, and 0, 1, 3 and 4 are move
  candidates. The difference deletes position 0 and inserts position 2, which yields 3, 2, 4.
\<close>

lemma table_order_swapped_rows:
  "let r = calculate (sort_key row_index) [4, 3, 2] [2, 3, 4] (\<lambda>_. False) (Some (is_of_list [0, 1, 3, 4])) in
     elems (deletions r) = {0} \<and> elems (insertions r) = {2} \<and>
     keep [4, 3, 2] (elems (deletions r)) \<noteq> keep [2, 3, 4 :: nat] (elems (insertions r))"
proof -
  have c: "is_contains (is_of_list [0, Suc 0, 3, 4]) x \<longleftrightarrow> x \<in> {0, 1, 3, 4}" for x
    using of_list_correct[of "[0, Suc 0, 3, 4]"] by (simp add: ix.mem)
  have e: "is_count [] 0 x = 0" for x by (simp add: count_from_zero below_def)
  have "fold (\<lambda>r s. s) rows m = m" for rows :: "row_info list" and m :: crv by (induction rows) simp_all
  then have s: "calc_start [4, 3, 2] (\<lambda>_. False) rows [] = make_builder [] [] [] []" for rows
    by (simp add: calc_start_def npos_def)
  have "elems (deletions (calculate (sort_key row_index) [4, 3, 2] [2, 3, 4] (\<lambda>_. False) (Some (is_of_list [0, 1, 3, 4])))) = {0}"
    "elems (insertions (calculate (sort_key row_index) [4, 3, 2] [2, 3, 4] (\<lambda>_. False) (Some (is_of_list [0, 1, 3, 4])))) = {2}"
    using ix.add[of "[]" 0] ix.add[of "[]" 2] add_set_correct[of "[]" "is_add [] 0"]
    by (simp_all add: calculate_cases(2)[OF swapped_rows_matched] calculate_moves_unsorted_def s c e make_builder_def)
  moreover have "keep [4, 3, 2] {0} \<noteq> keep [2, 3, 4 :: nat] {2}" by (simp add: keep_def nths_Cons)
  ultimately show ?thesis by (simp add: Let_def)
qed

end
