(* ===== verification/Sync_Progress.thy ===== *)
theory Sync_Progress
  imports Main "HOL-Library.AList"
begin

text \<open>
  \<open>SyncProgressNotifier\<close> (\<open>sync/sync_session.cpp\<close>, from line 1008): callbacks that are told
  how many bytes of an upload or a download have been transferred. \<open>m_packages\<close>, an
  \<open>unordered_map\<close>, is an association list whose order stands for the unspecified iteration
  order. A callback is a number; what is invoked is returned as a list of the callback with its two
  arguments, since the code invokes callbacks after it has released its lock.
\<close>

datatype notifier_type = upload | download

record progress =
  uploadable :: nat
  downloadable :: nat
  uploaded :: nat
  downloaded :: nat
  progress_snapshot :: nat

record notifier_package =
  package_notifier :: nat
  captured_transferrable :: "nat option"
  package_snapshot :: nat
  is_streaming :: bool
  is_download :: bool

record progress_notifier =
  m_progress_notifier_token :: nat
  m_local_transaction_version :: nat
  m_current_progress :: "progress option"
  m_packages :: "(nat \<times> notifier_package) list"

type_synonym invocation = "nat \<times> nat \<times> nat"

definition progress_notifier_init :: progress_notifier where
  "progress_notifier_init = \<lparr>m_progress_notifier_token = 1, m_local_transaction_version = 0,
     m_current_progress = None, m_packages = []\<rparr>"

text \<open>
  \<open>create_invocation\<close> returns the package with what it captured, the invocation (none for the
  empty lambda) and the flag \<open>is_expired\<close>, which its callers initialise with false.
\<close>

definition create_invocation ::
  "progress \<Rightarrow> notifier_package \<Rightarrow> notifier_package \<times> invocation list \<times> bool" where
  "create_invocation current p =
     (let transferred = (if is_download p then downloaded current else uploaded current);
          report = (\<lambda>p transferrable.
            (p, [(package_notifier p, transferred, transferrable)],
             \<not> is_streaming p \<and> transferrable \<le> transferred))
      in if is_streaming p
         then report p (if is_download p then downloadable current else uploadable current)
         else case captured_transferrable p of
           Some n \<Rightarrow> report p n
         | None \<Rightarrow>
             if is_download p
             then report (p\<lparr>captured_transferrable := Some (downloadable current)\<rparr>) (downloadable current)
             else if progress_snapshot current < package_snapshot p then (p, [], False)
             else report (p\<lparr>captured_transferrable := Some (uploadable current)\<rparr>) (uploadable current))"

definition emplace :: "'k \<Rightarrow> 'v \<Rightarrow> ('k \<times> 'v) list \<Rightarrow> ('k \<times> 'v) list" where
  "emplace k v m = (if map_of m k = None then m @ [(k, v)] else m)"

definition register_callback ::
  "nat \<Rightarrow> notifier_type \<Rightarrow> bool \<Rightarrow> progress_notifier \<Rightarrow> nat \<times> invocation list \<times> progress_notifier" where
  "register_callback notifier direction streaming s =
     (let token_value = m_progress_notifier_token s;
          s = s\<lparr>m_progress_notifier_token := token_value + 1\<rparr>;
          package = \<lparr>package_notifier = notifier, captured_transferrable = None,
            package_snapshot = m_local_transaction_version s, is_streaming = streaming,
            is_download = (direction = download)\<rparr>
      in case m_current_progress s of
           None \<Rightarrow> (token_value, [], s\<lparr>m_packages := emplace token_value package (m_packages s)\<rparr>)
         | Some current \<Rightarrow>
             let (package, invocation, skip_registration) = create_invocation current package
             in if skip_registration then (0, invocation, s)
                else (token_value, invocation,
                      s\<lparr>m_packages := emplace token_value package (m_packages s)\<rparr>))"

definition unregister_callback :: "nat \<Rightarrow> progress_notifier \<Rightarrow> progress_notifier" where
  "unregister_callback token s = s\<lparr>m_packages := AList.delete token (m_packages s)\<rparr>"

fun update_packages ::
  "progress \<Rightarrow> (nat \<times> notifier_package) list \<Rightarrow> invocation list \<times> (nat \<times> notifier_package) list" where
  "update_packages current [] = ([], [])"
| "update_packages current ((token, p) # ps) =
     (let (p, invocation, should_delete) = create_invocation current p;
          (invocations, ps) = update_packages current ps
      in (invocation @ invocations, if should_delete then ps else (token, p) # ps))"

definition progress_update ::
  "nat \<Rightarrow> nat \<Rightarrow> nat \<Rightarrow> nat \<Rightarrow> nat \<Rightarrow> nat \<Rightarrow> progress_notifier \<Rightarrow> invocation list \<times> progress_notifier" where
  "progress_update down down_total up up_total download_version snapshot_version s =
     (if download_version = 0 then ([], s)
      else
        let current = \<lparr>uploadable = up_total, downloadable = down_total, uploaded = up,
              downloaded = down, progress_snapshot = snapshot_version\<rparr>;
            (invocations, ps) = update_packages current (m_packages s)
        in (invocations, s\<lparr>m_current_progress := Some current, m_packages := ps\<rparr>))"

definition set_local_version :: "nat \<Rightarrow> progress_notifier \<Rightarrow> progress_notifier" where
  "set_local_version snapshot_version s = s\<lparr>m_local_transaction_version := snapshot_version\<rparr>"

subsection \<open>Tokens\<close>

definition tokens_ok :: "progress_notifier \<Rightarrow> bool" where
  "tokens_ok s \<longleftrightarrow> 0 < m_progress_notifier_token s \<and> distinct (map fst (m_packages s)) \<and>
     (\<forall>k \<in> fst ` set (m_packages s). 0 < k \<and> k < m_progress_notifier_token s)"

lemma update_packages_eq:
  "update_packages c ps =
     (concat (map (\<lambda>(k, p). fst (snd (create_invocation c p))) ps),
      map (\<lambda>(k, p). (k, fst (create_invocation c p))) (filter (\<lambda>(k, p). \<not> snd (snd (create_invocation c p))) ps))"
  by (induction ps) (auto simp: case_prod_beta Let_def)

lemma update_packages_keys:
  "map fst (snd (update_packages c ps)) = map fst (filter (\<lambda>(k, p). \<not> snd (snd (create_invocation c p))) ps)"
  by (simp add: update_packages_eq comp_def case_prod_beta)

lemma tokens_init: "tokens_ok progress_notifier_init"
  by (simp add: tokens_ok_def progress_notifier_init_def)

subsection \<open>One package along a run of updates\<close>

text \<open>What a single package is told by a run of updates, and what is left of it.\<close>

fun package_run :: "progress list \<Rightarrow> notifier_package option \<Rightarrow> invocation list \<times> notifier_package option" where
  "package_run [] p = ([], p)"
| "package_run (c # cs) None = package_run cs None"
| "package_run (c # cs) (Some p) =
     (let (p, invocation, expired) = create_invocation c p;
          (invocations, left) = package_run cs (if expired then None else Some p)
      in (invocation @ invocations, left))"

fun take_until :: "('a \<Rightarrow> bool) \<Rightarrow> 'a list \<Rightarrow> 'a list" where
  "take_until P [] = []"
| "take_until P (x # xs) = (if P x then [x] else x # take_until P xs)"

lemma package_run_None [simp]: "package_run cs None = ([], None)"
  by (induction cs) simp_all

text \<open>The byte counts of a direction, and when an upload counts every local transaction.\<close>

definition total_bytes :: "notifier_type \<Rightarrow> progress \<Rightarrow> nat" where
  "total_bytes d c = (if d = download then downloadable c else uploadable c)"

definition sent_bytes :: "notifier_type \<Rightarrow> progress \<Rightarrow> nat" where
  "sent_bytes d c = (if d = download then downloaded c else uploaded c)"

definition counts_all :: "notifier_type \<Rightarrow> nat \<Rightarrow> progress \<Rightarrow> bool" where
  "counts_all d version c \<longleftrightarrow> d = download \<or> version \<le> progress_snapshot c"

abbreviation one_shot :: "nat \<Rightarrow> notifier_type \<Rightarrow> nat \<Rightarrow> nat option \<Rightarrow> notifier_package" where
  "one_shot n d version captured \<equiv> \<lparr>package_notifier = n, captured_transferrable = captured,
     package_snapshot = version, is_streaming = False, is_download = (d = download)\<rparr>"

lemma package_run_captured:
  "package_run cs (Some (one_shot n d version (Some amount))) =
     (map (\<lambda>c. (n, sent_bytes d c, amount)) (take_until (\<lambda>c. amount \<le> sent_bytes d c) cs),
      if \<exists>c \<in> set cs. amount \<le> sent_bytes d c then None else Some (one_shot n d version (Some amount)))"
  by (induction cs) (auto simp: create_invocation_def sent_bytes_def Let_def)

definition reports :: "nat \<Rightarrow> notifier_type \<Rightarrow> progress list \<Rightarrow> invocation list" where
  "reports n d cs = (case cs of [] \<Rightarrow> [] | c # _ \<Rightarrow>
     map (\<lambda>x. (n, sent_bytes d x, total_bytes d c)) (take_until (\<lambda>x. total_bytes d c \<le> sent_bytes d x) cs))"

lemma package_run_one_shot:
  "fst (package_run cs (Some (one_shot n d version None))) =
     reports n d (dropWhile (\<lambda>c. \<not> counts_all d version c) cs)"
proof (induction cs)
  case (Cons c cs)
  show ?case
  proof (cases "counts_all d version c")
    case True
    then show ?thesis
      using package_run_captured[where amount = "total_bytes d c" and cs = cs and n = n and d = d and version = version]
      by (cases d) (auto simp: create_invocation_def counts_all_def total_bytes_def sent_bytes_def reports_def Let_def)
  next
    case False
    then show ?thesis
      using Cons by (cases d) (auto simp: create_invocation_def counts_all_def Let_def case_prod_beta)
  qed
qed (simp add: reports_def)

text \<open>All that was transferrable when the total was captured has been transferred.\<close>

definition completed :: "notifier_type \<Rightarrow> progress list \<Rightarrow> bool" where
  "completed d cs \<longleftrightarrow> (case cs of [] \<Rightarrow> False | c # _ \<Rightarrow> \<exists>x \<in> set cs. total_bytes d c \<le> sent_bytes d x)"

lemma package_run_left:
  "snd (package_run cs (Some (one_shot n d version None))) \<noteq> None \<longleftrightarrow>
     \<not> completed d (dropWhile (\<lambda>c. \<not> counts_all d version c) cs)"
proof (induction cs)
  case (Cons c cs)
  show ?case
  proof (cases "counts_all d version c")
    case True
    then show ?thesis
      using package_run_captured[where amount = "total_bytes d c" and cs = cs and n = n and d = d and version = version]
      by (cases d) (auto simp: create_invocation_def counts_all_def total_bytes_def sent_bytes_def completed_def Let_def)
  next
    case False
    then show ?thesis
      using Cons by (cases d) (auto simp: create_invocation_def counts_all_def Let_def case_prod_beta)
  qed
qed (simp add: completed_def)

subsection \<open>All packages\<close>

lemma update_packages_notifier:
  assumes "n \<notin> package_notifier ` snd ` set ps"
  shows "filter (\<lambda>i. fst i = n) (fst (update_packages c ps)) = []"
    "n \<notin> package_notifier ` snd ` set (snd (update_packages c ps))"
proof -
  have *: "i \<in> set (fst (snd (create_invocation c p))) \<Longrightarrow> fst i = package_notifier p"
    "package_notifier (fst (create_invocation c p)) = package_notifier p" for i p
    by (auto simp: create_invocation_def Let_def split: option.splits if_splits)
  show "filter (\<lambda>i. fst i = n) (fst (update_packages c ps)) = []"
    using assms by (fastforce simp: update_packages_eq filter_empty_conv image_iff dest!: *(1))
  show "n \<notin> package_notifier ` snd ` set (snd (update_packages c ps))"
    using assms by (auto simp: update_packages_eq image_iff *(2))
qed

lemma update_packages_append:
  "update_packages c (ps @ qs) =
     (fst (update_packages c ps) @ fst (update_packages c qs), snd (update_packages c ps) @ snd (update_packages c qs))"
  by (simp add: update_packages_eq)

text \<open>
  A run of updates and what it invokes. An update whose download version is zero is ignored; the
  others are those that a notifier can hear of.
\<close>

fun run_updates :: "(nat \<times> progress) list \<Rightarrow> progress_notifier \<Rightarrow> invocation list \<times> progress_notifier" where
  "run_updates [] s = ([], s)"
| "run_updates ((version, c) # cs) s =
     (let (now, s) = progress_update (downloaded c) (downloadable c) (uploaded c) (uploadable c) version
            (progress_snapshot c) s;
          (later, s) = run_updates cs s
      in (now @ later, s))"

definition heard :: "(nat \<times> progress) list \<Rightarrow> progress list" where
  "heard cs = map snd (filter (\<lambda>c. fst c \<noteq> 0) cs)"

lemma heard_simps [simp]: "heard [] = []" "heard ((0, c) # cs) = heard cs" "v \<noteq> 0 \<Longrightarrow> heard ((v, c) # cs) = c # heard cs"
  by (simp_all add: heard_def)

lemma progress_update_current:
  "progress_update (downloaded c) (downloadable c) (uploaded c) (uploadable c) v (progress_snapshot c) s =
     (if v = 0 then ([], s) else (fst (update_packages c (m_packages s)),
      s\<lparr>m_current_progress := Some c, m_packages := snd (update_packages c (m_packages s))\<rparr>))"
  by (cases c) (simp add: progress_update_def case_prod_beta Let_def)

lemma run_updates_step:
  "run_updates ((v, c) # cs) s = (if v = 0 then run_updates cs s
    else (fst (update_packages c (m_packages s)) @ fst (run_updates cs (s\<lparr>m_current_progress := Some c, m_packages := snd (update_packages c (m_packages s))\<rparr>)),
      snd (run_updates cs (s\<lparr>m_current_progress := Some c, m_packages := snd (update_packages c (m_packages s))\<rparr>))))"
  unfolding run_updates.simps progress_update_current by (simp add: case_prod_beta Let_def)

declare run_updates.simps(2) [simp del]

lemma run_updates_others:
  "n \<notin> package_notifier ` snd ` set (m_packages s) \<Longrightarrow>
   filter (\<lambda>i. fst i = n) (fst (run_updates cs s)) = [] \<and>
   n \<notin> package_notifier ` snd ` set (m_packages (snd (run_updates cs s)))"
proof (induction cs arbitrary: s)
  case (Cons c cs)
  obtain v c' where c: "c = (v, c')" by (cases c)
  have "n \<notin> package_notifier ` snd ` set (m_packages (s\<lparr>m_current_progress := Some c', m_packages := snd (update_packages c' (m_packages s))\<rparr>))"
    using update_packages_notifier(2)[OF Cons.prems, of c'] by simp
  from Cons.IH[OF this] Cons.IH[OF Cons.prems] show ?case
    using update_packages_notifier(1)[OF Cons.prems, of c'] by (simp add: c run_updates_step)
qed simp

text \<open>A package at the end of the list is treated as if it were alone.\<close>

lemma run_updates_last:
  assumes "n \<notin> package_notifier ` snd ` set ps" "m_packages s = ps @ [(k, p)]" "package_notifier p = n"
  shows "filter (\<lambda>i. fst i = n) (fst (run_updates cs s)) = fst (package_run (heard cs) (Some p))"
    "n \<in> package_notifier ` snd ` set (m_packages (snd (run_updates cs s))) \<longleftrightarrow> snd (package_run (heard cs) (Some p)) \<noteq> None"
proof -
  have "filter (\<lambda>i. fst i = n) (fst (run_updates cs s)) = fst (package_run (heard cs) (Some p)) \<and>
    (n \<in> package_notifier ` snd ` set (m_packages (snd (run_updates cs s))) \<longleftrightarrow> snd (package_run (heard cs) (Some p)) \<noteq> None)"
    using assms
  proof (induction cs arbitrary: s ps p)
    case Nil
    then show ?case by simp
  next
    case (Cons vc cs)
    obtain v c where vc: "vc = (v, c)" by (cases vc)
    show ?case
    proof (cases "v = 0")
      case True
      then show ?thesis using Cons.IH[OF Cons.prems] by (simp add: vc run_updates_step)
    next
      case v: False
      obtain p' now e where ci: "create_invocation c p = (p', now, e)" by (cases "create_invocation c p") auto
      have p': "package_notifier p' = n" "\<forall>i \<in> set now. fst i = n"
        using ci Cons.prems(3) by (auto simp: create_invocation_def Let_def split: if_splits option.splits)
      let ?ps = "snd (update_packages c ps)"
      let ?s = "s\<lparr>m_current_progress := Some c, m_packages := ?ps @ (if e then [] else [(k, p')])\<rparr>"
      have up: "update_packages c (m_packages s) = (fst (update_packages c ps) @ now, ?ps @ (if e then [] else [(k, p')]))"
        unfolding Cons.prems(2) update_packages_append by (simp add: ci)
      note ps = update_packages_notifier[OF Cons.prems(1), of c]
      have "filter (\<lambda>i. fst i = n) (fst (run_updates cs ?s)) = fst (package_run (heard cs) (if e then None else Some p')) \<and>
          (n \<in> package_notifier ` snd ` set (m_packages (snd (run_updates cs ?s))) \<longleftrightarrow> snd (package_run (heard cs) (if e then None else Some p')) \<noteq> None)"
        using Cons.IH[OF ps(2), of "?s" p'] run_updates_others[of n ?s cs] ps(2) p'(1) by (cases e) simp_all
      then show ?thesis
        using ps(1) p'(2) ci unfolding vc run_updates_step up by (simp add: v case_prod_beta Let_def filter_id_conv)
    qed
  qed
  then show "filter (\<lambda>i. fst i = n) (fst (run_updates cs s)) = fst (package_run (heard cs) (Some p))"
    "n \<in> package_notifier ` snd ` set (m_packages (snd (run_updates cs s))) \<longleftrightarrow> snd (package_run (heard cs) (Some p)) \<noteq> None"
    by blast+
qed

lemma tokens_fresh:
  "tokens_ok s \<Longrightarrow> map_of (m_packages s) (m_progress_notifier_token s) = None"
  by (force simp: tokens_ok_def map_of_eq_None_iff)

lemma tokens_new: "tokens_ok s \<Longrightarrow> tokens_ok (s\<lparr>m_progress_notifier_token := Suc (m_progress_notifier_token s)\<rparr>)"
  by (auto simp: tokens_ok_def less_Suc_eq)

lemma tokens_emplace:
  assumes "tokens_ok s"
  shows "tokens_ok (s\<lparr>m_progress_notifier_token := Suc (m_progress_notifier_token s),
    m_packages := emplace (m_progress_notifier_token s) p (m_packages s)\<rparr>)"
proof -
  have "m_progress_notifier_token s \<notin> fst ` set (m_packages s)"
    using tokens_fresh[OF assms] by (simp add: map_of_eq_None_iff)
  moreover have "emplace (m_progress_notifier_token s) p (m_packages s) = m_packages s @ [(m_progress_notifier_token s, p)]"
    using tokens_fresh[OF assms] by (simp add: emplace_def)
  ultimately show ?thesis using assms by (auto simp: tokens_ok_def less_Suc_eq)
qed

lemma tokens_kept:
  assumes "tokens_ok s"
  shows "tokens_ok (snd (snd (register_callback n d b s)))" "tokens_ok (unregister_callback k s)"
    "tokens_ok (snd (progress_update x1 x2 x3 x4 x5 x6 s))" "tokens_ok (set_local_version v s)"
proof -
  show "tokens_ok (snd (snd (register_callback n d b s)))"
    using tokens_new[OF assms] tokens_emplace[OF assms]
    by (simp add: register_callback_def case_prod_beta Let_def split: option.split)
  show "tokens_ok (unregister_callback k s)"
    using assms by (auto simp: tokens_ok_def unregister_callback_def AList.delete_eq distinct_map_filter)
  have "tokens_ok (s\<lparr>m_current_progress := p, m_packages := snd (update_packages c (m_packages s))\<rparr>)" for p c
    using assms unfolding tokens_ok_def set_map[symmetric]
    by (simp add: update_packages_keys distinct_map_filter del: set_map) auto
  then show "tokens_ok (snd (progress_update x1 x2 x3 x4 x5 x6 s))"
    using assms by (simp add: progress_update_def case_prod_beta Let_def)
  show "tokens_ok (set_local_version v s)" using assms by (simp add: tokens_ok_def set_local_version_def)
qed

lemma one_shot_first:
  assumes "create_invocation c (one_shot n d version None) = (p, now, e)"
  shows "e \<longleftrightarrow> completed d (dropWhile (\<lambda>c. \<not> counts_all d version c) [c])"
  using assms by (cases d) (auto simp: create_invocation_def completed_def counts_all_def total_bytes_def sent_bytes_def Let_def split: if_splits)

text \<open>
  C39. A notifier that is not streaming, registered under a fresh number, hears of the progress that is
  known at its registration and of every later update with a download version (those without one
  are ignored), except that an upload is told nothing as long as the snapshots lag behind the local
  transactions. What it is told are the bytes transferred out of those transferrable at the first
  progress it is told of, up to and including the first progress at which they are all transferred, and never again: exactly then
  it is no longer among the packages, and the token zero says that this happened at registration.
\<close>

theorem one_shot_progress:
  assumes "tokens_ok s" "n \<notin> package_notifier ` snd ` set (m_packages s)"
    and "register_callback n d False s = (token, now, s')" "run_updates cs s' = (later, s'')"
    and "known = (case m_current_progress s of None \<Rightarrow> [] | Some c \<Rightarrow> [c])"
    and "usable = dropWhile (\<lambda>c. \<not> counts_all d (m_local_transaction_version s) c)"
  shows "filter (\<lambda>i. fst i = n) (now @ later) = reports n d (usable (known @ heard cs)) \<and>
    (n \<in> package_notifier ` snd ` set (m_packages s'') \<longleftrightarrow> \<not> completed d (usable (known @ heard cs))) \<and>
    (token = 0 \<longleftrightarrow> completed d (usable known))"
proof -
  let ?v = "m_local_transaction_version s"
  let ?p = "one_shot n d ?v None"
  let ?s = "\<lambda>p. s\<lparr>m_progress_notifier_token := m_progress_notifier_token s + 1,
      m_packages := m_packages s @ [(m_progress_notifier_token s, p)]\<rparr>"
  note fresh = tokens_fresh[OF assms(1)]
  have pos: "m_progress_notifier_token s \<noteq> 0" using assms(1) by (simp add: tokens_ok_def)
  have run: "filter (\<lambda>i. fst i = n) (fst (run_updates cs (?s p))) = fst (package_run (heard cs) (Some p))"
      "n \<in> package_notifier ` snd ` set (m_packages (snd (run_updates cs (?s p)))) \<longleftrightarrow> snd (package_run (heard cs) (Some p)) \<noteq> None"
    if "package_notifier p = n" for p
    using run_updates_last[OF assms(2) _ that, of "?s p"] by simp_all
  show ?thesis
  proof (cases "m_current_progress s")
    case None
    with assms(3) fresh have "now = []" "s' = ?s ?p" "token = m_progress_notifier_token s"
      by (auto simp: register_callback_def emplace_def Let_def)
    then show ?thesis
      using run[of ?p] assms(4) None pos unfolding assms(5,6) package_run_one_shot package_run_left
      by (simp add: completed_def)
  next
    case (Some c)
    obtain p i e where ci: "create_invocation c ?p = (p, i, e)" by (cases "create_invocation c ?p")
    have "register_callback n d False s = (if e then 0 else m_progress_notifier_token s, i,
        if e then s\<lparr>m_progress_notifier_token := m_progress_notifier_token s + 1\<rparr> else ?s p)"
      using fresh ci Some by (simp add: register_callback_def emplace_def Let_def)
    then have now: "now = i" and t: "token = (if e then 0 else m_progress_notifier_token s)"
      and s': "s' = (if e then s\<lparr>m_progress_notifier_token := m_progress_notifier_token s + 1\<rparr> else ?s p)"
      using assms(3) by (simp_all only: prod.inject)
    note ci = ci[folded now]
    have p: "package_notifier p = n" "\<forall>i \<in> set now. fst i = n"
      using ci by (auto simp: create_invocation_def Let_def split: if_splits option.splits)
    have "filter (\<lambda>i. fst i = n) later = fst (package_run (heard cs) (if e then None else Some p))"
      "n \<in> package_notifier ` snd ` set (m_packages s'') \<longleftrightarrow> snd (package_run (heard cs) (if e then None else Some p)) \<noteq> None"
      using assms(4) s' run[OF p(1)] run_updates_others[of n s' cs] assms(2) by (cases e; auto)+
    then have "filter (\<lambda>i. fst i = n) (now @ later) = fst (package_run (c # heard cs) (Some ?p))"
      "n \<in> package_notifier ` snd ` set (m_packages s'') \<longleftrightarrow> snd (package_run (c # heard cs) (Some ?p)) \<noteq> None"
      using ci p(2) by (simp_all add: case_prod_beta Let_def filter_id_conv)
    moreover have "token = 0 \<longleftrightarrow> completed d (usable known)"
      using one_shot_first[OF ci] t pos Some unfolding assms(5,6) by simp
    ultimately show ?thesis unfolding package_run_one_shot package_run_left assms(5,6) Some by simp
  qed
qed

theorem one_shot_progress_witness:
  "filter (\<lambda>i. fst i = 9) (fst (run_updates
      [(1, \<lparr>uploadable = 5, downloadable = 0, uploaded = 2, downloaded = 0, progress_snapshot = 1\<rparr>),
       (0, \<lparr>uploadable = 7, downloadable = 0, uploaded = 7, downloaded = 0, progress_snapshot = 1\<rparr>),
       (3, \<lparr>uploadable = 8, downloadable = 0, uploaded = 6, downloaded = 0, progress_snapshot = 2\<rparr>)]
      (snd (snd (register_callback 9 upload False progress_notifier_init))))) = [(9, 2, 5), (9, 6, 5)]"
proof -
  let ?cs = "[(1, \<lparr>uploadable = 5, downloadable = 0, uploaded = 2, downloaded = 0, progress_snapshot = 1\<rparr>),
       (0, \<lparr>uploadable = 7, downloadable = 0, uploaded = 7, downloaded = 0, progress_snapshot = 1\<rparr>),
       (3, \<lparr>uploadable = 8, downloadable = 0, uploaded = 6, downloaded = 0, progress_snapshot = 2\<rparr>)]"
  obtain token now s' where r: "register_callback 9 upload False progress_notifier_init = (token, now, s')"
    by (cases "register_callback 9 upload False progress_notifier_init") auto
  obtain later s'' where u: "run_updates ?cs s' = (later, s'')" by fastforce
  have "now = []" using r by (auto simp: register_callback_def progress_notifier_init_def Let_def)
  then show ?thesis
    using one_shot_progress[OF tokens_init _ r u refl refl] u r
    by (simp add: progress_notifier_init_def reports_def counts_all_def total_bytes_def sent_bytes_def)
qed

text \<open>
  The initial assessment that the documentation promises to a notifier registered while progress is
  known does not come for an upload whose snapshot lags behind, and the total is not the one at
  registration: here 5 bytes were uploadable then, and 8 when the notifier was first called.
\<close>

lemma upload_total_captured_late:
  "let current = \<lparr>uploadable = 5, downloadable = 0, uploaded = 0, downloaded = 0, progress_snapshot = 1\<rparr>;
       s = progress_notifier_init\<lparr>m_local_transaction_version := 2, m_current_progress := Some current\<rparr>;
       (token, now, s') = register_callback 9 upload False s
   in now = [] \<and> fst (run_updates [(1, current\<lparr>uploadable := 8, uploaded := 4, progress_snapshot := 2\<rparr>)] s') = [(9, 4, 8)]"
  by (simp add: register_callback_def progress_notifier_init_def create_invocation_def emplace_def Let_def
    run_updates_step)

end
