(* ===== verification/Callback_List.thy ===== *)
theory Callback_List
  imports Prelude
begin

text \<open>
  The list of callbacks that \<open>SyncSession::ConnectionChangeNotifier\<close>
  (\<open>sync/sync_session.cpp\<close>, from line 1101) and \<open>CollectionNotifier\<close>
  (\<open>impl/collection_notifier.cpp\<close>) keep: callbacks may be added and removed while the list is
  being walked, since each callback runs with the lock released. The position and the number of
  callbacks to visit are \<open>size_t\<close> values that start at, and wrap around to, \<open>npos\<close>.

  A callback is a token with a body. What it does to the list while it runs is a list of
  operations, given by a function \<open>beh\<close> of the token.
\<close>

record 'b callback_list =
  m_callbacks :: "(nat \<times> 'b) list"
  m_callback_index :: nat
  m_callback_count :: nat
  m_next_token :: nat

definition size_inc :: "nat \<Rightarrow> nat" where
  "size_inc x = (if x = npos then 0 else x + 1)"

definition size_dec :: "nat \<Rightarrow> nat" where
  "size_dec x = (if x = 0 then npos else x - 1)"

definition callback_list_init :: "'b callback_list" where
  "callback_list_init = \<lparr>m_callbacks = [], m_callback_index = npos, m_callback_count = npos, m_next_token = 0\<rparr>"

definition add_callback :: "'b \<Rightarrow> 'b callback_list \<Rightarrow> nat \<times> 'b callback_list" where
  "add_callback b s =
     (m_next_token s, s\<lparr>m_next_token := m_next_token s + 1, m_callbacks := m_callbacks s @ [(m_next_token s, b)]\<rparr>)"

definition remove_callback :: "nat \<Rightarrow> 'b callback_list \<Rightarrow> 'b callback_list" where
  "remove_callback token s =
     (let idx = find_if (\<lambda>c. fst c = token) (m_callbacks s) in
      if idx = length (m_callbacks s) then s
      else s\<lparr>m_callback_index :=
               (if m_callback_index s \<noteq> npos \<and> idx \<le> m_callback_index s
                then size_dec (m_callback_index s) else m_callback_index s),
             m_callback_count := size_dec (m_callback_count s),
             m_callbacks := take idx (m_callbacks s) @ drop (Suc idx) (m_callbacks s)\<rparr>)"

datatype 'b callback_op = Add 'b | Remove nat

fun run_op :: "'b callback_op \<Rightarrow> 'b callback_list \<Rightarrow> 'b callback_list" where
  "run_op (Add b) s = snd (add_callback b s)"
| "run_op (Remove token) s = remove_callback token s"

text \<open>
  The loop over the callbacks, from the increment of the index on; the tokens visited and the
  final list, or nothing when the fuel does not suffice.
\<close>

fun callback_loop ::
  "(nat \<Rightarrow> 'b callback_op list) \<Rightarrow> nat \<Rightarrow> 'b callback_list \<Rightarrow> (nat list \<times> 'b callback_list) option" where
  "callback_loop beh 0 s = None"
| "callback_loop beh (Suc fuel) s =
     (let s = s\<lparr>m_callback_index := size_inc (m_callback_index s)\<rparr> in
      if m_callback_index s < m_callback_count s then
        let token = fst (m_callbacks s ! m_callback_index s);
            s = fold run_op (beh token) s
        in case callback_loop beh fuel s of
             None \<Rightarrow> None
           | Some (visited, s) \<Rightarrow> Some (token # visited, s)
      else Some ([], s\<lparr>m_callback_index := npos\<rparr>))"

definition invoke_callbacks ::
  "(nat \<Rightarrow> 'b callback_op list) \<Rightarrow> 'b callback_list \<Rightarrow> (nat list \<times> 'b callback_list) option" where
  "invoke_callbacks beh s =
     (let s = s\<lparr>m_callback_count := length (m_callbacks s)\<rparr>
      in callback_loop beh (Suc (length (m_callbacks s))) s)"

subsection \<open>The walk over the tokens\<close>

definition removed_by :: "'b callback_op list \<Rightarrow> nat set" where
  "removed_by ops = {t. Remove t \<in> set ops}"

function visit :: "(nat \<Rightarrow> 'b callback_op list) \<Rightarrow> nat list \<Rightarrow> nat list" where
  "visit beh [] = []"
| "visit beh (t # ts) = t # visit beh (filter (\<lambda>x. x \<notin> removed_by (beh t)) ts)"
  by pat_completeness auto
termination
  by (relation "measure (\<lambda>(beh, ts). length ts)") (auto simp: le_imp_less_Suc)

text \<open>The tokens before the loop's position, those still to visit, and those added since.\<close>

definition at :: "nat list \<Rightarrow> nat list \<Rightarrow> nat list \<Rightarrow> 'b callback_list \<Rightarrow> bool" where
  "at before rest late s \<longleftrightarrow> map fst (m_callbacks s) = before @ rest @ late \<and>
     distinct (before @ rest @ late) \<and> (\<forall>t \<in> set (before @ rest @ late). t < m_next_token s) \<and>
     m_callback_index s = size_dec (length before) \<and> m_callback_count s = length (before @ rest) \<and>
     length (before @ rest) < npos"

lemma at_add:
  "at before rest late s \<Longrightarrow> at before rest (late @ [m_next_token s]) (snd (add_callback b s))"
  by (auto simp: at_def add_callback_def less_Suc_eq)

lemma at_remove_absent:
  assumes "at before rest late s" "t \<notin> set (before @ rest @ late)"
  shows "remove_callback t s = s"
proof -
  have "find_if (\<lambda>c. fst c = t) (m_callbacks s) = length (m_callbacks s)"
    using assms unfolding at_def by (intro find_if_none) (metis image_eqI list.set_map)
  then show ?thesis by (simp add: remove_callback_def)
qed

lemma remove_absent:
  assumes "t \<notin> set (map fst (m_callbacks s))"
  shows "remove_callback t s = s"
proof -
  have "find_if (\<lambda>c. fst c = t) (m_callbacks s) = length (m_callbacks s)"
    using assms by (intro find_if_none) (metis image_eqI list.set_map)
  then show ?thesis by (simp add: remove_callback_def)
qed

lemma remove_split:
  assumes "map fst (m_callbacks s) = xs @ t # ys" "t \<notin> set xs"
  shows "map fst (m_callbacks (remove_callback t s)) = xs @ ys"
    "m_callback_index (remove_callback t s) =
       (if m_callback_index s \<noteq> npos \<and> length xs \<le> m_callback_index s
        then size_dec (m_callback_index s) else m_callback_index s)"
    "m_callback_count (remove_callback t s) = size_dec (m_callback_count s)"
    "m_next_token (remove_callback t s) = m_next_token s"
proof -
  obtain us v vs where s: "m_callbacks s = us @ v # vs" "map fst us = xs" "fst v = t" "map fst vs = ys"
    using assms(1) by (auto simp: map_eq_append_conv map_eq_Cons_conv)
  have "\<forall>c \<in> set us. fst c \<noteq> t" using s(2) assms(2) by (metis image_eqI list.set_map)
  then have "find_if (\<lambda>c. fst c = t) (m_callbacks s) = length us" by (simp add: s(1,3) find_if_append)
  moreover have "length us = length xs" using s(2) by auto
  ultimately show "map fst (m_callbacks (remove_callback t s)) = xs @ ys"
    "m_callback_index (remove_callback t s) =
       (if m_callback_index s \<noteq> npos \<and> length xs \<le> m_callback_index s
        then size_dec (m_callback_index s) else m_callback_index s)"
    "m_callback_count (remove_callback t s) = size_dec (m_callback_count s)"
    "m_next_token (remove_callback t s) = m_next_token s"
    using s by (simp_all add: remove_callback_def Let_def)
qed

lemma filter_neq: "t \<notin> set xs \<Longrightarrow> filter (\<lambda>x. x \<noteq> t) xs = xs"
  by (induction xs) auto

lemma size_inc_dec: "n < npos \<Longrightarrow> size_inc (size_dec n) = n"
  by (cases n) (auto simp: size_inc_def size_dec_def)

lemma size_dec_Suc: "size_dec (Suc n) = n"
  by (simp add: size_dec_def)

lemma at_remove:
  assumes at: "at before rest late s" and t: "t \<notin> set late"
  shows "at (filter (\<lambda>x. x \<noteq> t) before) (filter (\<lambda>x. x \<noteq> t) rest) late (remove_callback t s)"
proof -
  have ts: "map fst (m_callbacks s) = before @ rest @ late" "distinct (before @ rest @ late)"
    "\<forall>t \<in> set (before @ rest @ late). t < m_next_token s" and i: "m_callback_index s = size_dec (length before)"
    and c: "m_callback_count s = length (before @ rest)" and n: "length (before @ rest) < npos"
    using at by (simp_all add: at_def)
  consider "t \<in> set before" | "t \<in> set rest" "t \<notin> set before" | "t \<notin> set (before @ rest @ late)" using t by auto
  then show ?thesis
  proof cases
    case 1
    then obtain xs ys where b: "before = xs @ t # ys" by (meson split_list)
    have r: "map fst (m_callbacks s) = xs @ t # (ys @ rest @ late)" "t \<notin> set xs" using ts b by auto
    have f: "filter (\<lambda>x. x \<noteq> t) before = xs @ ys" "filter (\<lambda>x. x \<noteq> t) rest = rest"
      using ts(2) by (auto simp: b filter_neq)
    show ?thesis
      using ts n unfolding at_def f remove_split[OF r] i c by (auto simp: b size_dec_def)
  next
    case 2
    then obtain xs ys where b: "rest = xs @ t # ys" by (meson split_list)
    have r: "map fst (m_callbacks s) = (before @ xs) @ t # (ys @ late)" "t \<notin> set (before @ xs)" using ts b by auto
    have f: "filter (\<lambda>x. x \<noteq> t) before = before" "filter (\<lambda>x. x \<noteq> t) rest = xs @ ys"
      using ts(2) by (auto simp: b filter_neq)
    show ?thesis
      using ts n unfolding at_def f remove_split[OF r] i c by (auto simp: b size_dec_def)
  next
    case 3
    then have "remove_callback t s = s" by (intro remove_absent) (simp add: ts(1) del: set_map)
    moreover have "filter (\<lambda>x. x \<noteq> t) before = before" "filter (\<lambda>x. x \<noteq> t) rest = rest"
      using 3 by (auto simp: filter_neq)
    ultimately show ?thesis using at by simp
  qed
qed

lemma run_ops_at:
  assumes "at before rest late s" "removed_by ops \<inter> set late = {}" "\<forall>t \<in> removed_by ops. t < m_next_token s"
  shows "\<exists>late'. at (filter (\<lambda>x. x \<notin> removed_by ops) before) (filter (\<lambda>x. x \<notin> removed_by ops) rest)
      (late @ late') (fold run_op ops s) \<and> (\<forall>t \<in> set late'. m_next_token s \<le> t) \<and>
    m_next_token s \<le> m_next_token (fold run_op ops s)"
  using assms
proof (induction ops arbitrary: before rest late s)
  case Nil
  then show ?case by (auto simp: removed_by_def intro!: exI[of _ "[]"])
next
  case (Cons op ops)
  show ?case
  proof (cases op)
    case (Add b)
    have r: "removed_by (op # ops) = removed_by ops" by (auto simp: removed_by_def Add)
    let ?s = "snd (add_callback b s)"
    have nt: "m_next_token ?s = m_next_token s + 1" by (simp add: add_callback_def)
    have "removed_by ops \<inter> set (late @ [m_next_token s]) = {}" using Cons.prems(2,3) by (auto simp: r)
    moreover have "\<forall>t \<in> removed_by ops. t < m_next_token ?s" using Cons.prems(3) by (simp add: r nt less_SucI)
    ultimately obtain late' where
      "at (filter (\<lambda>x. x \<notin> removed_by ops) before) (filter (\<lambda>x. x \<notin> removed_by ops) rest)
        ((late @ [m_next_token s]) @ late') (fold run_op ops ?s)"
      "\<forall>t \<in> set late'. m_next_token s + 1 \<le> t" "m_next_token s + 1 \<le> m_next_token (fold run_op ops ?s)"
      using Cons.IH[OF at_add[OF Cons.prems(1), of b]] by (auto simp: nt)
    then show ?thesis by (intro exI[of _ "m_next_token s # late'"]) (auto simp: r[unfolded Add] Add intro: Suc_leD)
  next
    case (Remove t)
    have r: "removed_by (op # ops) = insert t (removed_by ops)" by (auto simp: removed_by_def Remove)
    have nt: "m_next_token (remove_callback t s) = m_next_token s" by (simp add: remove_callback_def Let_def)
    have "t \<notin> set late" using Cons.prems(2) by (auto simp: r)
    from Cons.IH[OF at_remove[OF Cons.prems(1) this]] Cons.prems(2,3) obtain late' where
      "at (filter (\<lambda>x. x \<notin> removed_by ops) (filter (\<lambda>x. x \<noteq> t) before))
        (filter (\<lambda>x. x \<notin> removed_by ops) (filter (\<lambda>x. x \<noteq> t) rest)) (late @ late') (fold run_op ops (remove_callback t s))"
      "\<forall>t \<in> set late'. m_next_token s \<le> t" "m_next_token s \<le> m_next_token (fold run_op ops (remove_callback t s))"
      by (auto simp: r nt)
    moreover have "filter (\<lambda>x. x \<notin> removed_by ops) (filter (\<lambda>x. x \<noteq> t) xs) = filter (\<lambda>x. x \<notin> insert t (removed_by ops)) xs" for xs
      by (induction xs) auto
    ultimately show ?thesis by (auto simp: r[unfolded Remove] Remove)
  qed
qed

text \<open>
  The index-based loop visits the tokens as the walk does, within the fuel, as long as no callback
  removes one that was added after the loop began.
\<close>

lemma callback_loop_visit:
  assumes "at before rest late s" "\<forall>t. removed_by (beh t) \<subseteq> {..< bound}" "\<forall>t \<in> set late. bound \<le> t"
    "bound \<le> m_next_token s" "length rest < fuel"
  shows "\<exists>s'. callback_loop beh fuel s = Some (visit beh rest, s') \<and> m_callback_index s' = npos"
  using assms
proof (induction fuel arbitrary: before rest late s)
  case (Suc fuel)
  let ?s = "s\<lparr>m_callback_index := size_inc (m_callback_index s)\<rparr>"
  have idx: "size_inc (m_callback_index s) = length before"
    using Suc.prems(1) size_inc_dec[of "length before"] by (simp add: at_def)
  show ?case
  proof (cases rest)
    case Nil
    with Suc.prems(1) idx show ?thesis by (simp add: at_def Let_def)
  next
    case (Cons t ts)
    have s: "at (before @ [t]) ts late ?s"
      using Suc.prems(1) idx by (simp add: at_def Cons size_dec_Suc)
    have "map fst (m_callbacks s) ! length before = t" using Suc.prems(1) by (simp add: at_def Cons nth_append)
    moreover have "length before < length (m_callbacks s)"
      using Suc.prems(1) Cons by (metis at_def add_less_cancel_left length_append length_map length_greater_0_conv
        append_is_Nil_conv list.distinct(1) add.right_neutral)
    ultimately have tok: "fst (m_callbacks s ! length before) = t" by simp
    have "removed_by (beh t) \<inter> set late = {}" using Suc.prems(2,3) by fastforce
    moreover have "\<forall>x \<in> removed_by (beh t). x < m_next_token ?s" using Suc.prems(2,4) by fastforce
    ultimately obtain late' where l: "at (filter (\<lambda>x. x \<notin> removed_by (beh t)) (before @ [t]))
        (filter (\<lambda>x. x \<notin> removed_by (beh t)) ts) (late @ late') (fold run_op (beh t) ?s)"
      "\<forall>x \<in> set late'. m_next_token s \<le> x" "m_next_token s \<le> m_next_token (fold run_op (beh t) ?s)"
      using run_ops_at[OF s, of "beh t"] by auto
    have "length (filter (\<lambda>x. x \<notin> removed_by (beh t)) ts) < fuel"
      using Suc.prems(5) Cons by (simp add: le_less_trans[OF length_filter_le])
    then obtain s' where "callback_loop beh fuel (fold run_op (beh t) ?s) =
        Some (visit beh (filter (\<lambda>x. x \<notin> removed_by (beh t)) ts), s')" "m_callback_index s' = npos"
      using Suc.IH[OF l(1) Suc.prems(2)] l(2,3) Suc.prems(3,4) by fastforce
    moreover have "length before < m_callback_count s" using Suc.prems(1) Cons by (simp add: at_def)
    ultimately show ?thesis by (simp add: idx tok Cons Let_def)
  qed
qed simp

text \<open>Between two invocations: tokens are distinct and were handed out before.\<close>

definition callbacks_ok :: "'b callback_list \<Rightarrow> bool" where
  "callbacks_ok s \<longleftrightarrow> distinct (map fst (m_callbacks s)) \<and> (\<forall>t \<in> set (map fst (m_callbacks s)). t < m_next_token s) \<and>
     m_callback_index s = npos"

lemma callbacks_init: "callbacks_ok callback_list_init"
  by (simp add: callbacks_ok_def callback_list_init_def)

lemma callbacks_add: "callbacks_ok s \<Longrightarrow> callbacks_ok (snd (add_callback b s))"
  by (force simp: callbacks_ok_def add_callback_def less_Suc_eq)

lemma callbacks_remove:
  assumes "callbacks_ok s"
  shows "callbacks_ok (remove_callback t s)"
proof (cases "t \<in> set (map fst (m_callbacks s))")
  case True
  then obtain xs ys where r: "map fst (m_callbacks s) = xs @ t # ys" "t \<notin> set xs" by (meson split_list_first)
  show ?thesis using assms unfolding callbacks_ok_def remove_split[OF r] by (auto simp: r(1))
next
  case False
  from remove_absent[OF this] assms show ?thesis by simp
qed

text \<open>
  C37. Invoking the callbacks ends, within as many rounds as there are callbacks, and calls each
  callback once and in order, except those that an earlier one removes, as long as no callback
  removes one that was added during the same invocation; the index is then back at \<open>npos\<close>.
\<close>

theorem invoke_callbacks_visits:
  assumes "callbacks_ok s" "length (m_callbacks s) < npos" "\<forall>t. removed_by (beh t) \<subseteq> {..< m_next_token s}"
  shows "\<exists>s'. invoke_callbacks beh s = Some (visit beh (map fst (m_callbacks s)), s') \<and> m_callback_index s' = npos"
proof -
  let ?s = "s\<lparr>m_callback_count := length (m_callbacks s)\<rparr>"
  have "at [] (map fst (m_callbacks s)) [] ?s"
    using assms(1,2) by (simp add: at_def callbacks_ok_def size_dec_def)
  from callback_loop_visit[OF this assms(3), of "Suc (length (m_callbacks s))"]
  show ?thesis by (simp add: invoke_callbacks_def del: callback_loop.simps)
qed

theorem invoke_callbacks_visits_witness:
  "\<exists>s'. invoke_callbacks (\<lambda>t. if t = 0 then [Remove 0, Add (9 :: nat)] else [])
     (snd (add_callback 8 (snd (add_callback 7 callback_list_init)))) = Some ([0, 1], s') \<and> m_callback_index s' = npos"
proof -
  let ?beh = "\<lambda>t :: nat. if t = 0 then [Remove 0, Add (9 :: nat)] else []"
  let ?s = "snd (add_callback 8 (snd (add_callback 7 callback_list_init))) :: nat callback_list"
  have s: "map fst (m_callbacks ?s) = [0, 1]" "m_next_token ?s = 2" "length (m_callbacks ?s) < npos"
    by (simp_all add: add_callback_def callback_list_init_def npos_def)
  have "callbacks_ok ?s" by (intro callbacks_add callbacks_init)
  moreover have "\<forall>t. removed_by (?beh t) \<subseteq> {..< m_next_token ?s}" by (auto simp: removed_by_def s(2))
  ultimately show ?thesis
    using invoke_callbacks_visits[of ?s ?beh] s by (simp add: removed_by_def)
qed

text \<open>
  A callback that adds another one and removes it again makes the loop miss the last of the
  callbacks that were there: \<open>remove_callback\<close> lowers the number of callbacks to visit although
  the one removed was not among them.
\<close>

lemma added_then_removed_skips:
  "\<exists>s'. invoke_callbacks (\<lambda>t. if t = 0 then [Add c, Remove 2] else [])
      (snd (add_callback b (snd (add_callback a callback_list_init)))) = Some ([0], s') \<and>
     map fst (m_callbacks s') = [0, 1]"
  by (simp add: invoke_callbacks_def add_callback_def callback_list_init_def remove_callback_def Let_def
    size_inc_def size_dec_def npos_def)

end
