(* ===== verification/Sync_Session.thy ===== *)
theory Sync_Session
  imports Sync_Progress Callback_List "HOL-Library.Multiset"
begin

text \<open>
  \<open>SyncSession\<close> (\<open>sync/sync_session.cpp\<close>): the session of one synchronised Realm, its four
  states and the operations that each of them handles. What a session does to the outside is a log
  of effects: calls on the underlying \<open>sync::Session\<close>, user callbacks, requests to the binding
  and to the \<open>SyncManager\<close>.

  The underlying session is outside the sources and is a number; the handlers it is given are
  the list \<open>pending\<close>, and may run at any later moment, once each, also after the session object
  is destroyed, as its documentation says. Calls through a null \<open>m_session\<close> are logged as
  \<open>Null_session\<close>. A \<open>REALM_ASSERT\<close> that fails aborts the process; it is logged as
  \<open>Assertion_failed\<close>, and no event follows it.

  One operation is one step: the code holds \<open>m_state_mutex\<close> while it changes the state, and what it
  does after releasing the lock (callbacks, requests) is logged in order. Two operations write after
  they released the lock, and are also given as the steps in between which others can run: a client
  resync (\<open>resync_begin\<close>, \<open>resync_end\<close>), and the loop of \<open>update_configuration\<close>
  (\<open>update_pass\<close>, once per pass).
\<close>

subsection \<open>Data\<close>

datatype session_state = WaitingForAccessToken | Active | Dying | Inactive

datatype connection_state = Disconnected | Connecting | Connected

datatype stop_policy = Immediately | LiveIndefinitely | AfterChangesUploaded

datatype client_resync_mode = Recover | DiscardLocal | Manual

datatype protocol_error =
    PE_connection_closed | PE_other_error | PE_unknown_message | PE_bad_syntax | PE_limits_exceeded
  | PE_wrong_protocol_version | PE_bad_session_ident | PE_reuse_of_session_ident
  | PE_bound_in_other_session | PE_bad_message_order | PE_bad_decompression
  | PE_bad_changeset_header_syntax | PE_bad_changeset_size | PE_bad_changesets
  | PE_session_closed | PE_other_session_error | PE_token_expired | PE_bad_authentication
  | PE_illegal_realm_path | PE_no_such_realm | PE_permission_denied | PE_bad_server_file_ident
  | PE_bad_client_file_ident | PE_bad_server_version | PE_bad_client_version
  | PE_diverging_histories | PE_bad_changeset | PE_disabled_session | PE_partial_sync_disabled
  | PE_unsupported_session_feature | PE_bad_origin_file_ident | PE_bad_client_file
  | PE_server_file_deleted | PE_client_file_blacklisted | PE_user_blacklisted
  | PE_transact_before_upload

datatype client_error =
    CE_connection_closed | CE_pong_timeout | CE_bad_changeset | CE_bad_changeset_header_syntax
  | CE_bad_changeset_size | CE_bad_client_file_ident | CE_bad_client_file_ident_salt
  | CE_bad_client_version | CE_bad_compression | CE_bad_error_code | CE_bad_file_ident
  | CE_bad_message_order | CE_bad_origin_file_ident | CE_bad_progress
  | CE_bad_protocol_from_server | CE_bad_request_ident | CE_bad_server_version
  | CE_bad_session_ident | CE_bad_state_message | CE_bad_syntax | CE_bad_timestamp
  | CE_client_too_new_for_server | CE_client_too_old_for_server | CE_connect_timeout
  | CE_limits_exceeded | CE_protocol_mismatch | CE_ssl_server_cert_rejected | CE_unknown_message
  | CE_missing_protocol_feature | CE_bad_serial_transact_status | CE_bad_object_id_substitutions
  | CE_http_tunnel_failed

text \<open>The category and value of an \<open>error_code\<close>; a value outside the enumeration is a number.\<close>

datatype error_code =
    Protocol_error protocol_error | Protocol_value int
  | Client_error client_error | Client_value int
  | Other_category int

record sync_error =
  error_code :: error_code
  message :: string
  is_fatal :: bool
  user_info :: "(string \<times> string) list"
  is_unrecognized_by_client :: bool

definition is_client_reset_requested :: "sync_error \<Rightarrow> bool" where
  "is_client_reset_requested e \<longleftrightarrow>
     error_code e \<in> {Protocol_error PE_bad_server_file_ident, Protocol_error PE_bad_client_file_ident,
       Protocol_error PE_bad_server_version, Protocol_error PE_diverging_histories}"

text \<open>User objects, callbacks and other opaque values of the configuration are numbers.\<close>

record sync_config =
  user :: "nat option"
  reference_realm_url :: string
  stop_policy :: stop_policy
  error_handler :: bool
  transformer :: nat
  realm_encryption_key :: "nat list option"
  client_validate_ssl :: bool
  ssl_trust_certificate_path :: "string option"
  ssl_verify_callback :: nat
  proxy_config :: "nat option"
  is_partial :: bool
  authorization_header_name :: "string option"
  custom_http_headers :: "(string \<times> string) list"
  url_prefix :: "string option"
  recovery_directory :: "string option"
  client_resync_mode :: client_resync_mode

text \<open>
  \<open>sync::Session::Config\<close>, as far as \<open>create_sync_session\<close> writes it, and the client reset
  part of it: the metadata directory and whether local changes are recovered. The fields start with
  the defaults that a new \<open>Config\<close> has, which are parameters here.
\<close>

record session_config =
  changeset_cooker :: nat
  encryption_key :: "nat list option"
  verify_servers_ssl_certificate :: bool
  sc_ssl_trust_certificate_path :: "string option"
  sc_ssl_verify_callback :: nat
  sc_proxy_config :: "nat option"
  multiplex_ident :: string
  sc_authorization_header_name :: string
  sc_custom_http_headers :: "(string \<times> string) list"
  sc_url_prefix :: string
  client_reset_config :: "(string \<times> bool) option"

datatype wait_result = Completed | Operation_aborted

text \<open>A handler given to a session: the end of a dying session, or a completion callback.\<close>

datatype wait_kind = Death nat | Completion notifier_type nat

record wait =
  wait_session :: nat
  wait_kind :: wait_kind

datatype file_action = DeleteRealm | BackUpThenDeleteRealm

datatype effect =
    Make_session nat session_config
  | Bind nat string string
  | Refresh nat string
  | Cancel_reconnect_delay nat
  | Override_server nat string int
  | Transact_notify nat nat
  | Async_wait nat wait_kind
  | Null_session
  | Assertion_failed
  | Advance session_state session_state
  | Unregister string
  | Connection_changed connection_state connection_state
  | Completion_callback nat wait_result
  | Ask_for_token
  | Invalidate_user nat
  | File_action string string "nat option" file_action string
  | Report_error sync_error
  | Progress_invocations "invocation list"

record sync_session =
  m_state :: session_state
  m_connection_state :: connection_state
  m_death_count :: nat
  m_config :: sync_config
  m_force_client_resync :: bool
  m_realm_path :: string
  m_download_completion_callbacks :: "nat list"
  m_upload_completion_callbacks :: "nat list"
  m_client_resync_counter :: nat
  m_server_override :: "(string \<times> int) option"
  m_session :: "nat option"
  m_session_has_been_bound :: bool
  m_deferred_commit_notification :: "nat option"
  m_deferred_close :: bool
  m_server_url :: "string option"
  m_multiplex_identity :: string
  m_external_reference :: bool
  m_progress_notifier :: progress_notifier
  made :: nat
  pending :: "wait list"
  log :: "effect list"

definition emit :: "effect \<Rightarrow> sync_session \<Rightarrow> sync_session" where
  "emit e s = s\<lparr>log := log s @ [e]\<rparr>"

definition emits :: "effect list \<Rightarrow> sync_session \<Rightarrow> sync_session" where
  "emits es s = s\<lparr>log := log s @ es\<rparr>"

text \<open>The process was aborted by an assertion.\<close>

definition aborted :: "sync_session \<Rightarrow> bool" where
  "aborted s \<longleftrightarrow> list_ex (\<lambda>e. e = Assertion_failed) (log s)"

text \<open>A call on the underlying session.\<close>

definition on_session :: "(nat \<Rightarrow> effect) \<Rightarrow> sync_session \<Rightarrow> sync_session" where
  "on_session f s = (case m_session s of Some n \<Rightarrow> emit (f n) s | None \<Rightarrow> emit Null_session s)"

definition async_wait :: "wait_kind \<Rightarrow> sync_session \<Rightarrow> sync_session" where
  "async_wait k s =
     (case m_session s of
        Some n \<Rightarrow> (emit (Async_wait n k) s)\<lparr>pending := pending s @ [\<lparr>wait_session = n, wait_kind = k\<rparr>]\<rparr>
      | None \<Rightarrow> emit Null_session s)"

definition add_completion_callback :: "notifier_type \<Rightarrow> sync_session \<Rightarrow> sync_session" where
  "add_completion_callback direction s = async_wait (Completion direction (m_client_resync_counter s)) s"

subsection \<open>Entering a state\<close>

definition unregister :: "sync_session \<Rightarrow> sync_session" where
  "unregister s = (if m_state s = Inactive then emit (Unregister (m_realm_path s)) s else emit Assertion_failed s)"

definition enter_waiting :: "sync_session \<Rightarrow> sync_session" where
  "enter_waiting s = s\<lparr>m_deferred_close := False\<rparr>"

definition enter_active :: "sync_session \<Rightarrow> sync_session" where
  "enter_active s =
     (let s = (if m_upload_completion_callbacks s \<noteq> [] then add_completion_callback upload s else s)
      in if m_download_completion_callbacks s \<noteq> [] then add_completion_callback download s else s)"

definition enter_inactive :: "sync_session \<Rightarrow> sync_session" where
  "enter_inactive s =
     (let old_state = m_connection_state s;
          download_waits = m_download_completion_callbacks s;
          upload_waits = m_upload_completion_callbacks s;
          s = s\<lparr>m_connection_state := Disconnected, m_download_completion_callbacks := [],
                m_upload_completion_callbacks := [], m_session := None\<rparr>;
          s = unregister s;
          s = (if old_state \<noteq> Disconnected then emit (Connection_changed old_state (m_connection_state s)) s else s)
      in emits (map (\<lambda>c. Completion_callback c Operation_aborted) (download_waits @ upload_waits)) s)"

definition advance_inactive :: "sync_session \<Rightarrow> sync_session" where
  "advance_inactive s =
     (if m_state s = Inactive then emit Assertion_failed s
      else enter_inactive (emit (Advance (m_state s) Inactive) s\<lparr>m_state := Inactive\<rparr>))"

definition enter_dying :: "sync_session \<Rightarrow> sync_session" where
  "enter_dying s =
     (if m_session s = None then advance_inactive s
      else
        let s = s\<lparr>m_death_count := m_death_count s + 1\<rparr>
        in async_wait (Death (m_death_count s)) s)"

definition advance_state :: "session_state \<Rightarrow> sync_session \<Rightarrow> sync_session" where
  "advance_state st s =
     (if m_state s = st then emit Assertion_failed s
      else
        let s = emit (Advance (m_state s) st) s\<lparr>m_state := st\<rparr>
        in case st of
             WaitingForAccessToken \<Rightarrow> enter_waiting s
           | Active \<Rightarrow> enter_active s
           | Dying \<Rightarrow> enter_dying s
           | Inactive \<Rightarrow> enter_inactive s)"

subsection \<open>What each state does\<close>

definition close_inactive :: "sync_session \<Rightarrow> sync_session" where
  "close_inactive s = unregister s"

definition close_waiting :: "sync_session \<Rightarrow> sync_session" where
  "close_waiting s =
     (case stop_policy (m_config s) of
        Immediately \<Rightarrow> advance_state Inactive s
      | _ \<Rightarrow> s\<lparr>m_deferred_close := True\<rparr>)"

definition close_active :: "sync_session \<Rightarrow> sync_session" where
  "close_active s =
     (case stop_policy (m_config s) of
        Immediately \<Rightarrow> advance_state Inactive s
      | LiveIndefinitely \<Rightarrow> s
      | AfterChangesUploaded \<Rightarrow> advance_state Dying s)"

definition close :: "sync_session \<Rightarrow> sync_session" where
  "close s =
     (case m_state s of
        WaitingForAccessToken \<Rightarrow> close_waiting s
      | Active \<Rightarrow> close_active s
      | Dying \<Rightarrow> s
      | Inactive \<Rightarrow> close_inactive s)"

text \<open>The configuration of a new underlying session; \<open>defaults\<close> is a new \<open>Config\<close>.\<close>

definition make_session_config :: "session_config \<Rightarrow> sync_session \<Rightarrow> session_config" where
  "make_session_config defaults s =
     (let c = m_config s;
          sc = defaults\<lparr>changeset_cooker := transformer c, encryption_key := realm_encryption_key c,
            verify_servers_ssl_certificate := client_validate_ssl c,
            sc_ssl_trust_certificate_path := ssl_trust_certificate_path c,
            sc_ssl_verify_callback := ssl_verify_callback c, sc_proxy_config := proxy_config c,
            multiplex_ident := m_multiplex_identity s\<rparr>;
          sc = (case authorization_header_name c of
                  Some n \<Rightarrow> sc\<lparr>sc_authorization_header_name := n\<rparr> | None \<Rightarrow> sc);
          sc = sc\<lparr>sc_custom_http_headers := custom_http_headers c\<rparr>;
          sc = (case url_prefix c of Some p \<Rightarrow> sc\<lparr>sc_url_prefix := p\<rparr> | None \<Rightarrow> sc)
      in if m_force_client_resync s
         then sc\<lparr>client_reset_config := Some (m_realm_path s @ ''.resync'', client_resync_mode c = Recover)\<rparr>
         else sc)"

definition create_sync_session :: "session_config \<Rightarrow> sync_session \<Rightarrow> sync_session" where
  "create_sync_session defaults s =
     (case m_session s of
        Some _ \<Rightarrow> s
      | None \<Rightarrow>
          let n = made s
          in (emit (Make_session n (make_session_config defaults s)) s)
               \<lparr>m_session := Some n, made := n + 1, m_session_has_been_bound := False\<rparr>)"

definition refresh_waiting :: "session_config \<Rightarrow> string \<Rightarrow> string option \<Rightarrow> sync_session \<Rightarrow> sync_session" where
  "refresh_waiting defaults access_token server_url s =
     (let s = create_sync_session defaults s;
          s = (if m_server_url s = None then s\<lparr>m_server_url := server_url\<rparr> else s);
          s = (if m_session_has_been_bound s
               then on_session Cancel_reconnect_delay (on_session (\<lambda>n. Refresh n access_token) s)
               else case m_server_url s of
                 Some url \<Rightarrow> (on_session (\<lambda>n. Bind n url access_token) s)\<lparr>m_session_has_been_bound := True\<rparr>
               | None \<Rightarrow> emit Null_session s);
          s = (case m_server_override s of
                 Some (address, port) \<Rightarrow> on_session (\<lambda>n. Override_server n address port) s
               | None \<Rightarrow> s);
          s = (case m_deferred_commit_notification s of
                 Some v \<Rightarrow> (on_session (\<lambda>n. Transact_notify n v) s)\<lparr>m_deferred_commit_notification := None\<rparr>
               | None \<Rightarrow> s);
          s = advance_state Active s
      in if m_deferred_close s then close s else s)"

definition refresh_active :: "string \<Rightarrow> sync_session \<Rightarrow> sync_session" where
  "refresh_active access_token s =
     on_session Cancel_reconnect_delay (on_session (\<lambda>n. Refresh n access_token) s)"

definition refresh_access_token ::
  "session_config \<Rightarrow> string \<Rightarrow> string option \<Rightarrow> sync_session \<Rightarrow> sync_session" where
  "refresh_access_token defaults access_token server_url s =
     (if m_server_url s = None \<and> server_url = None then s
      else case m_state s of
        WaitingForAccessToken \<Rightarrow> refresh_waiting defaults access_token server_url s
      | Active \<Rightarrow> refresh_active access_token s
      | _ \<Rightarrow> s)"

definition access_token_expired :: "sync_session \<Rightarrow> sync_session" where
  "access_token_expired s =
     (if m_state s = Active then emit Ask_for_token (advance_state WaitingForAccessToken s) else s)"

definition log_out :: "sync_session \<Rightarrow> sync_session" where
  "log_out s = (if m_state s = Inactive then s else advance_state Inactive s)"

text \<open>The states' \<open>revive_if_needed\<close>: whether the binding is to be asked for a token.\<close>

definition revive_state :: "sync_session \<Rightarrow> bool \<times> sync_session" where
  "revive_state s =
     (case m_state s of
        WaitingForAccessToken \<Rightarrow> (False, s\<lparr>m_deferred_close := False\<rparr>)
      | Active \<Rightarrow> (False, s)
      | Dying \<Rightarrow> (False, advance_state Active s)
      | Inactive \<Rightarrow> (True, advance_state WaitingForAccessToken s))"

definition revive_if_needed :: "sync_session \<Rightarrow> sync_session" where
  "revive_if_needed s =
     (let (ask, s) = revive_state s in if ask then emit Ask_for_token s else s)"

definition handle_reconnect :: "sync_session \<Rightarrow> sync_session" where
  "handle_reconnect s =
     (case m_state s of
        WaitingForAccessToken \<Rightarrow> emit Ask_for_token s
      | Active \<Rightarrow> on_session Cancel_reconnect_delay s
      | _ \<Rightarrow> s)"

definition nonsync_transact_notify :: "nat \<Rightarrow> sync_session \<Rightarrow> sync_session" where
  "nonsync_transact_notify version s =
     (let s = s\<lparr>m_progress_notifier := set_local_version version (m_progress_notifier s)\<rparr>
      in case m_state s of
           WaitingForAccessToken \<Rightarrow> s\<lparr>m_deferred_commit_notification := Some version\<rparr>
         | Active \<Rightarrow> on_session (\<lambda>n. Transact_notify n version) s
         | _ \<Rightarrow> s)"

definition override_server :: "string \<Rightarrow> int \<Rightarrow> sync_session \<Rightarrow> sync_session" where
  "override_server address port s =
     (let s = s\<lparr>m_server_override := Some (address, port)\<rparr>
      in if m_state s \<in> {Active, Dying} then on_session (\<lambda>n. Override_server n address port) s else s)"

subsection \<open>Waiting for completion\<close>

definition wait_for_completion :: "notifier_type \<Rightarrow> sync_session \<Rightarrow> sync_session" where
  "wait_for_completion direction s =
     (if m_state s \<in> {Active, Dying} then add_completion_callback direction s else s)"

definition wait_for_upload_completion :: "nat \<Rightarrow> sync_session \<Rightarrow> sync_session" where
  "wait_for_upload_completion callback s =
     (let s = (if m_upload_completion_callbacks s = [] then wait_for_completion upload s else s)
      in s\<lparr>m_upload_completion_callbacks := m_upload_completion_callbacks s @ [callback]\<rparr>)"

definition wait_for_download_completion :: "nat \<Rightarrow> sync_session \<Rightarrow> sync_session" where
  "wait_for_download_completion callback s =
     (let s = (if m_download_completion_callbacks s = [] then wait_for_completion download s else s)
      in s\<lparr>m_download_completion_callbacks := m_download_completion_callbacks s @ [callback]\<rparr>)"

text \<open>The handlers that the underlying session calls: the two lambdas given to it.\<close>

definition death_handler :: "nat \<Rightarrow> sync_session \<Rightarrow> sync_session" where
  "death_handler current_death_count s =
     (if m_state s = Dying \<and> m_death_count s = current_death_count then advance_state Inactive s else s)"

definition completion_handler :: "notifier_type \<Rightarrow> nat \<Rightarrow> wait_result \<Rightarrow> sync_session \<Rightarrow> sync_session" where
  "completion_handler direction resync_counter ec s =
     (if resync_counter \<noteq> m_client_resync_counter s then s
      else if direction = download
      then emits (map (\<lambda>c. Completion_callback c ec) (m_download_completion_callbacks s))
             (s\<lparr>m_download_completion_callbacks := []\<rparr>)
      else emits (map (\<lambda>c. Completion_callback c ec) (m_upload_completion_callbacks s))
             (s\<lparr>m_upload_completion_callbacks := []\<rparr>))"

definition complete_wait :: "nat \<Rightarrow> wait_result \<Rightarrow> sync_session \<Rightarrow> sync_session" where
  "complete_wait i ec s =
     (if i < length (pending s) then
        let w = pending s ! i; s = s\<lparr>pending := take i (pending s) @ drop (Suc i) (pending s)\<rparr>
        in case wait_kind w of
             Death n \<Rightarrow> death_handler n s
           | Completion direction n \<Rightarrow> completion_handler direction n ec s
      else s)"

definition cancel_pending_waits :: "sync_session \<Rightarrow> sync_session" where
  "cancel_pending_waits s =
     emits (map (\<lambda>c. Completion_callback c Operation_aborted)
         (m_download_completion_callbacks s @ m_upload_completion_callbacks s))
       (s\<lparr>m_download_completion_callbacks := [], m_upload_completion_callbacks := []\<rparr>)"

subsection \<open>Errors\<close>

text \<open>
  What lies outside: the defaults of a session configuration, the name of a new recovery file in a
  recovery directory, and the URL that a configuration resolves to.
\<close>

record sync_env =
  default_config :: session_config
  recovery_file_path :: "string option \<Rightarrow> string"
  realm_url :: "sync_config \<Rightarrow> string"

definition set_info :: "string \<Rightarrow> string \<Rightarrow> (string \<times> string) list \<Rightarrow> (string \<times> string) list" where
  "set_info k v m = filter (\<lambda>p. fst p \<noteq> k) m @ [(k, v)]"

definition update_error_and_mark_file ::
  "sync_env \<Rightarrow> bool \<Rightarrow> sync_error \<Rightarrow> sync_session \<Rightarrow> sync_error \<times> sync_session" where
  "update_error_and_mark_file env should_backup e s =
     (let e = e\<lparr>user_info := set_info ''ORIGINAL_FILE_PATH'' (m_realm_path s) (user_info e)\<rparr>;
          recovery_path = (if should_backup then recovery_file_path env (recovery_directory (m_config s)) else []);
          e = (if should_backup
               then e\<lparr>user_info := set_info ''RECOVERY_FILE_PATH'' recovery_path (user_info e)\<rparr> else e);
          action = (if should_backup then BackUpThenDeleteRealm else DeleteRealm)
      in (e, emit (File_action (m_realm_path s) (realm_url env (m_config s)) (user (m_config s)) action recovery_path) s))"

text \<open>
  A client resync. The completion callbacks are moved aside while the session goes inactive, which
  releases the lock; then they are written back over whatever the lists hold by then, without the
  lock, and the session is revived. What is set aside is held in local variables of the handler.
\<close>

type_synonym set_aside = "nat list \<times> nat list"

definition resync_begin :: "sync_session \<Rightarrow> set_aside \<times> sync_session" where
  "resync_begin s =
     (let s = s\<lparr>m_force_client_resync := True, m_client_resync_counter := m_client_resync_counter s + 1\<rparr>;
          download_handlers = m_download_completion_callbacks s;
          upload_handlers = m_upload_completion_callbacks s;
          s = s\<lparr>m_download_completion_callbacks := [], m_upload_completion_callbacks := []\<rparr>
      in ((download_handlers, upload_handlers), advance_state Inactive s))"

definition resync_end :: "set_aside \<Rightarrow> sync_session \<Rightarrow> sync_session" where
  "resync_end aside s =
     revive_if_needed (s\<lparr>m_download_completion_callbacks := fst aside, m_upload_completion_callbacks := snd aside\<rparr>)"

text \<open>The resync when nothing happens in between.\<close>

definition client_resync :: "sync_session \<Rightarrow> sync_session" where
  "client_resync s =
     (let (aside, s) = resync_begin s in if aborted s then s else resync_end aside s)"

text \<open>When an error leads to a client resync.\<close>

definition resync_requested :: "sync_error \<Rightarrow> sync_session \<Rightarrow> bool" where
  "resync_requested e s \<longleftrightarrow>
     m_state s \<noteq> Dying \<and> is_client_reset_requested e \<and> client_resync_mode (m_config s) \<noteq> Manual"

datatype next_state = No_change | Go_inactive | Cancel_waits

text \<open>The switch over the error code: it either returns or goes on to the next state.\<close>

datatype flow = Return sync_session | Continue next_state sync_error sync_session

definition unreported_protocol_errors :: "protocol_error set" where
  "unreported_protocol_errors =
     {PE_connection_closed, PE_other_error, PE_session_closed, PE_other_session_error, PE_disabled_session}"

definition file_errors :: "protocol_error set" where
  "file_errors =
     {PE_bad_client_file, PE_bad_client_file_ident, PE_bad_origin_file_ident, PE_bad_server_file_ident,
      PE_bad_server_version, PE_client_file_blacklisted, PE_diverging_histories, PE_server_file_deleted,
      PE_user_blacklisted}"

definition protocol_error_step ::
  "sync_env \<Rightarrow> next_state \<Rightarrow> protocol_error \<Rightarrow> sync_error \<Rightarrow> sync_session \<Rightarrow> flow" where
  "protocol_error_step env nxt pe e s =
     (if pe \<in> unreported_protocol_errors then Return s
      else if pe = PE_token_expired then Return (access_token_expired s)
      else if pe = PE_bad_authentication then
        let user_to_invalidate = user (m_config s);
            s = cancel_pending_waits s;
            s = (case user_to_invalidate of Some u \<Rightarrow> emit (Invalidate_user u) s | None \<Rightarrow> s)
        in Continue No_change e s
      else if pe = PE_permission_denied then
        let (e, s) = update_error_and_mark_file env False e s in Continue Go_inactive e s
      else if pe \<in> file_errors then
        let (e, s) = update_error_and_mark_file env True e s in Continue Go_inactive e s
      else Continue nxt e s)"

definition error_step :: "sync_env \<Rightarrow> next_state \<Rightarrow> sync_error \<Rightarrow> sync_session \<Rightarrow> flow" where
  "error_step env nxt e s =
     (case error_code e of
        Protocol_error pe \<Rightarrow> protocol_error_step env nxt pe e s
      | Protocol_value _ \<Rightarrow> Continue nxt e s
      | Client_error ce \<Rightarrow>
          if ce \<in> {CE_connection_closed, CE_pong_timeout} then Return s else Continue nxt e s
      | Client_value _ \<Rightarrow> Continue nxt e s
      | Other_category _ \<Rightarrow> Continue nxt (e\<lparr>is_unrecognized_by_client := True\<rparr>) s)"

definition handle_error :: "sync_env \<Rightarrow> sync_error \<Rightarrow> sync_session \<Rightarrow> sync_session" where
  "handle_error env e s =
     (if m_state s = Dying then (if is_fatal e then advance_state Inactive s else s)
      else if resync_requested e s then client_resync s
      else case error_step env (if is_fatal e then Cancel_waits else No_change) e s of
        Return s \<Rightarrow> s
      | Continue nxt e s \<Rightarrow>
          let s = (case nxt of
                     No_change \<Rightarrow> s
                   | Go_inactive \<Rightarrow> advance_state Inactive s
                   | Cancel_waits \<Rightarrow> cancel_pending_waits s)
          in if \<not> aborted s \<and> error_handler (m_config s) then emit (Report_error e) s else s)"

text \<open>The connection state listener.\<close>

definition connection_state_changed ::
  "sync_env \<Rightarrow> connection_state \<Rightarrow> sync_error option \<Rightarrow> sync_session \<Rightarrow> sync_session" where
  "connection_state_changed env st err s =
     (let old_state = m_connection_state s;
          s = emit (Connection_changed old_state st) (s\<lparr>m_connection_state := st\<rparr>)
      in case err of Some e \<Rightarrow> handle_error env e s | None \<Rightarrow> s)"

subsection \<open>Configuration, references, progress\<close>

text \<open>
  One pass of the loop of \<open>update_configuration\<close>: a session that is not inactive is made
  inactive, which releases the lock, and the loop goes round; the configuration of an inactive one is
  replaced, which ends the loop.
\<close>

definition update_pass :: "sync_config \<Rightarrow> sync_session \<Rightarrow> sync_session" where
  "update_pass new_config s =
     (if m_state s \<noteq> Inactive then advance_state Inactive s
      else if m_session s = None \<and> user (m_config s) = user new_config \<and>
        reference_realm_url (m_config s) = reference_realm_url new_config \<and>
        is_partial (m_config s) = is_partial new_config
      then s\<lparr>m_config := new_config\<rparr>
      else emit Assertion_failed s)"

text \<open>When nothing intervenes, the second pass is the last one.\<close>

definition update_configuration :: "sync_config \<Rightarrow> sync_session \<Rightarrow> sync_session" where
  "update_configuration new_config s =
     (let s = (if m_state s \<noteq> Inactive then update_pass new_config (update_pass new_config s)
               else update_pass new_config s)
      in if aborted s then s else revive_if_needed s)"

text \<open>
  \<open>m_external_reference\<close>, a weak pointer, is whether the reference it points to is alive. The
  last owner dropping it is one step, the destructor that then takes the lock another: in between
  another thread may have asked for a new reference.
\<close>

definition external_reference :: "sync_session \<Rightarrow> sync_session" where
  "external_reference s = s\<lparr>m_external_reference := True\<rparr>"

definition existing_external_reference :: "sync_session \<Rightarrow> bool" where
  "existing_external_reference s = m_external_reference s"

definition drop_external_reference :: "sync_session \<Rightarrow> sync_session" where
  "drop_external_reference s = s\<lparr>m_external_reference := False\<rparr>"

definition did_drop_external_reference :: "sync_session \<Rightarrow> sync_session" where
  "did_drop_external_reference s = (if m_external_reference s then s else close s)"

definition set_multiplex_identifier :: "string \<Rightarrow> sync_session \<Rightarrow> sync_session" where
  "set_multiplex_identifier ident s = s\<lparr>m_multiplex_identity := ident\<rparr>"

definition set_url_prefix :: "string \<Rightarrow> sync_session \<Rightarrow> sync_session" where
  "set_url_prefix p s = s\<lparr>m_config := (m_config s)\<lparr>url_prefix := Some p\<rparr>\<rparr>"

definition handle_progress_update ::
  "nat \<Rightarrow> nat \<Rightarrow> nat \<Rightarrow> nat \<Rightarrow> nat \<Rightarrow> nat \<Rightarrow> sync_session \<Rightarrow> sync_session" where
  "handle_progress_update down down_total up up_total download_version snapshot_version s =
     (let (invocations, p) =
        progress_update down down_total up up_total download_version snapshot_version (m_progress_notifier s)
      in emit (Progress_invocations invocations) (s\<lparr>m_progress_notifier := p\<rparr>))"

definition register_progress_notifier ::
  "nat \<Rightarrow> notifier_type \<Rightarrow> bool \<Rightarrow> sync_session \<Rightarrow> nat \<times> sync_session" where
  "register_progress_notifier notifier direction streaming s =
     (let (token, invocations, p) = register_callback notifier direction streaming (m_progress_notifier s)
      in (token, emit (Progress_invocations invocations) (s\<lparr>m_progress_notifier := p\<rparr>)))"

definition unregister_progress_notifier :: "nat \<Rightarrow> sync_session \<Rightarrow> sync_session" where
  "unregister_progress_notifier token s =
     s\<lparr>m_progress_notifier := unregister_callback token (m_progress_notifier s)\<rparr>"

definition new_sync_session :: "string \<Rightarrow> sync_config \<Rightarrow> bool \<Rightarrow> sync_session" where
  "new_sync_session path config force_client_resync =
     \<lparr>m_state = Inactive, m_connection_state = Disconnected, m_death_count = 0, m_config = config,
      m_force_client_resync = force_client_resync, m_realm_path = path,
      m_download_completion_callbacks = [], m_upload_completion_callbacks = [],
      m_client_resync_counter = 0, m_server_override = None, m_session = None,
      m_session_has_been_bound = False, m_deferred_commit_notification = None,
      m_deferred_close = False, m_server_url = None, m_multiplex_identity = [],
      m_external_reference = False, m_progress_notifier = progress_notifier_init,
      made = 0, pending = [], log = []\<rparr>"

subsection \<open>Runs\<close>

datatype event =
    Refresh_access_token string "string option"
  | Revive | Reconnect | Log_out | Close
  | Wait_upload nat | Wait_download nat
  | Notify nat
  | Override string int
  | Connection connection_state "sync_error option"
  | Complete nat wait_result
  | Update_configuration sync_config | Update_pass sync_config
  | Acquire_reference | Drop_reference | Did_drop_reference
  | Set_multiplex string | Set_url_prefix string
  | Progress nat nat nat nat nat nat
  | Register_progress nat notifier_type bool | Unregister_progress nat

fun run_event :: "sync_env \<Rightarrow> event \<Rightarrow> sync_session \<Rightarrow> sync_session" where
  "run_event env (Refresh_access_token token url) s = refresh_access_token (default_config env) token url s"
| "run_event env Revive s = revive_if_needed s"
| "run_event env Reconnect s = handle_reconnect s"
| "run_event env Log_out s = log_out s"
| "run_event env Close s = close s"
| "run_event env (Wait_upload c) s = wait_for_upload_completion c s"
| "run_event env (Wait_download c) s = wait_for_download_completion c s"
| "run_event env (Notify v) s = nonsync_transact_notify v s"
| "run_event env (Override a p) s = override_server a p s"
| "run_event env (Connection st err) s = connection_state_changed env st err s"
| "run_event env (Complete i ec) s = complete_wait i ec s"
| "run_event env (Update_configuration c) s = update_configuration c s"
| "run_event env (Update_pass c) s = update_pass c s"
| "run_event env Acquire_reference s = external_reference s"
| "run_event env Drop_reference s = drop_external_reference s"
| "run_event env Did_drop_reference s = did_drop_external_reference s"
| "run_event env (Set_multiplex i) s = set_multiplex_identifier i s"
| "run_event env (Set_url_prefix p) s = set_url_prefix p s"
| "run_event env (Progress a b c d e f) s = handle_progress_update a b c d e f s"
| "run_event env (Register_progress n d b) s = snd (register_progress_notifier n d b s)"
| "run_event env (Unregister_progress n) s = unregister_progress_notifier n s"

text \<open>The sessions that any sequence of events leads to. A failed assertion ends it.\<close>

inductive reachable :: "sync_env \<Rightarrow> sync_session \<Rightarrow> bool" for env where
  created: "reachable env (new_sync_session path config force_client_resync)"
| event: "reachable env s \<Longrightarrow> \<not> aborted s \<Longrightarrow> reachable env (run_event env e s)"

subsection \<open>Runs with a client resync under way\<close>

text \<open>
  The same with a resync taken apart, so that events of other threads can come between its two steps. One
  resync is under way at a time: the underlying sessions report their errors from one thread. The lock
  is also released after the state was asked to handle the error, so the resync may begin in any state. The field
  \<open>overwritten\<close> is no state of the program; it collects the callbacks that were queued when a resync wrote
  its lists back.
\<close>

record resync_run =
  the_session :: sync_session
  aside :: "set_aside option"
  overwritten :: "nat multiset"

datatype action = Event event | Begin_resync sync_error | End_resync

definition queued :: "sync_session \<Rightarrow> nat multiset" where
  "queued s = mset (m_download_completion_callbacks s) + mset (m_upload_completion_callbacks s)"

fun run_action :: "sync_env \<Rightarrow> action \<Rightarrow> resync_run \<Rightarrow> resync_run" where
  "run_action env (Event e) r = r\<lparr>the_session := run_event env e (the_session r)\<rparr>"
| "run_action env (Begin_resync e) r =
     (if aside r = None \<and> is_client_reset_requested e \<and> client_resync_mode (m_config (the_session r)) \<noteq> Manual
      then let (a, s) = resync_begin (the_session r) in r\<lparr>the_session := s, aside := Some a\<rparr>
      else r)"
| "run_action env End_resync r =
     (case aside r of
        None \<Rightarrow> r
      | Some a \<Rightarrow> r\<lparr>the_session := resync_end a (the_session r), aside := None,
                  overwritten := overwritten r + queued (the_session r)\<rparr>)"

definition new_resync_run :: "string \<Rightarrow> sync_config \<Rightarrow> bool \<Rightarrow> resync_run" where
  "new_resync_run path config b =
     \<lparr>the_session = new_sync_session path config b, aside = None, overwritten = {#}\<rparr>"

text \<open>A run by its actions, to the end or to the first that fails an assertion.\<close>

fun run_actions :: "sync_env \<Rightarrow> action list \<Rightarrow> resync_run \<Rightarrow> resync_run" where
  "run_actions env [] r = r"
| "run_actions env (a # as) r =
     (if aborted (the_session r) then r else run_actions env as (run_action env a r))"

end
