(* ===== verification/Sync_Session_Inv.thy ===== *)
theory Sync_Session_Inv
  imports Sync_Session
begin

text \<open>
  The invariants of \<open>SyncSession\<close>. Calls reach the underlying session only while there is one
  and after it was bound; a state that needs the session has it; whoever waits for completion has a
  handler pending on the session of the moment; a callback is kept or has been called, once.
\<close>

subsection \<open>Fields\<close>

named_theorems session_fields \<open>the fields that the primitive steps leave as they were\<close>

lemma emit_fields [simp]:
  "m_state (emit e s) = m_state s" "m_session (emit e s) = m_session s"
  "m_session_has_been_bound (emit e s) = m_session_has_been_bound s" "made (emit e s) = made s"
  "pending (emit e s) = pending s" "m_death_count (emit e s) = m_death_count s"
  "m_client_resync_counter (emit e s) = m_client_resync_counter s"
  "m_download_completion_callbacks (emit e s) = m_download_completion_callbacks s"
  "m_upload_completion_callbacks (emit e s) = m_upload_completion_callbacks s"
  "m_config (emit e s) = m_config s" "m_server_url (emit e s) = m_server_url s"
  "log (emit e s) = log s @ [e]" "m_deferred_close (emit e s) = m_deferred_close s"
  by (simp_all add: emit_def)

lemma emits_fields [simp]:
  "m_state (emits es s) = m_state s" "m_session (emits es s) = m_session s"
  "m_session_has_been_bound (emits es s) = m_session_has_been_bound s" "made (emits es s) = made s"
  "pending (emits es s) = pending s" "m_death_count (emits es s) = m_death_count s"
  "m_client_resync_counter (emits es s) = m_client_resync_counter s"
  "m_download_completion_callbacks (emits es s) = m_download_completion_callbacks s"
  "m_upload_completion_callbacks (emits es s) = m_upload_completion_callbacks s"
  "m_config (emits es s) = m_config s" "m_server_url (emits es s) = m_server_url s"
  "log (emits es s) = log s @ es" "m_deferred_close (emits es s) = m_deferred_close s"
  by (simp_all add: emits_def)

lemma on_session_fields [simp]:
  "m_state (on_session f s) = m_state s" "m_session (on_session f s) = m_session s"
  "m_session_has_been_bound (on_session f s) = m_session_has_been_bound s" "made (on_session f s) = made s"
  "pending (on_session f s) = pending s" "m_death_count (on_session f s) = m_death_count s"
  "m_client_resync_counter (on_session f s) = m_client_resync_counter s"
  "m_download_completion_callbacks (on_session f s) = m_download_completion_callbacks s"
  "m_upload_completion_callbacks (on_session f s) = m_upload_completion_callbacks s"
  "m_config (on_session f s) = m_config s" "m_server_url (on_session f s) = m_server_url s"
  "m_deferred_close (on_session f s) = m_deferred_close s"
  by (simp_all add: on_session_def split: option.split)

lemma async_wait_fields [simp]:
  "m_state (async_wait k s) = m_state s" "m_session (async_wait k s) = m_session s"
  "m_session_has_been_bound (async_wait k s) = m_session_has_been_bound s" "made (async_wait k s) = made s"
  "m_death_count (async_wait k s) = m_death_count s"
  "m_client_resync_counter (async_wait k s) = m_client_resync_counter s"
  "m_download_completion_callbacks (async_wait k s) = m_download_completion_callbacks s"
  "m_upload_completion_callbacks (async_wait k s) = m_upload_completion_callbacks s"
  "m_config (async_wait k s) = m_config s" "m_server_url (async_wait k s) = m_server_url s"
  "m_deferred_close (async_wait k s) = m_deferred_close s"
  by (simp_all add: async_wait_def split: option.split)

subsection \<open>Calls on the underlying session\<close>

text \<open>The log read from the left, with the sessions bound so far.\<close>

fun calls_ok :: "nat set \<Rightarrow> effect list \<Rightarrow> bool" where
  "calls_ok B [] = True"
| "calls_ok B (Null_session # es) = False"
| "calls_ok B (Bind n u t # es) = (n \<notin> B \<and> calls_ok (insert n B) es)"
| "calls_ok B (Refresh n t # es) = (n \<in> B \<and> calls_ok B es)"
| "calls_ok B (Cancel_reconnect_delay n # es) = (n \<in> B \<and> calls_ok B es)"
| "calls_ok B (Override_server n a p # es) = (n \<in> B \<and> calls_ok B es)"
| "calls_ok B (Transact_notify n v # es) = (n \<in> B \<and> calls_ok B es)"
| "calls_ok B (Async_wait n k # es) = (n \<in> B \<and> calls_ok B es)"
| "calls_ok B (_ # es) = calls_ok B es"

fun bound_in :: "effect list \<Rightarrow> nat set" where
  "bound_in [] = {}"
| "bound_in (Bind n u t # es) = insert n (bound_in es)"
| "bound_in (_ # es) = bound_in es"

lemma bound_in_append [simp]: "bound_in (xs @ ys) = bound_in xs \<union> bound_in ys"
  by (induction xs rule: bound_in.induct) simp_all

fun neutral :: "effect \<Rightarrow> bool" where
  "neutral Null_session = False"
| "neutral (Bind n u t) = False"
| "neutral (Refresh n t) = False"
| "neutral (Cancel_reconnect_delay n) = False"
| "neutral (Override_server n a p) = False"
| "neutral (Transact_notify n v) = False"
| "neutral (Async_wait n k) = False"
| "neutral _ = True"

fun call_on :: "nat \<Rightarrow> effect \<Rightarrow> bool" where
  "call_on m (Refresh n t) = (m = n)"
| "call_on m (Cancel_reconnect_delay n) = (m = n)"
| "call_on m (Override_server n a p) = (m = n)"
| "call_on m (Transact_notify n v) = (m = n)"
| "call_on m (Async_wait n k) = (m = n)"
| "call_on m _ = False"

lemma bound_in_single: "neutral e \<Longrightarrow> bound_in [e] = {}" "call_on n e \<Longrightarrow> bound_in [e] = {}"
  by (cases e; simp)+

lemma calls_ok_append: "calls_ok B (xs @ ys) \<longleftrightarrow> calls_ok B xs \<and> calls_ok (B \<union> bound_in xs) ys"
  by (induction B xs rule: calls_ok.induct) simp_all

lemma calls_ok_single: "neutral e \<Longrightarrow> calls_ok B [e]" "call_on n e \<Longrightarrow> calls_ok B [e] \<longleftrightarrow> n \<in> B"
  by (cases e; auto)+

text \<open>The calls so far were fine, and \<open>m_session_has_been_bound\<close> says what happened to the session.\<close>

definition core :: "sync_session \<Rightarrow> bool" where
  "core s \<longleftrightarrow> calls_ok {} (log s) \<and> bound_in (log s) \<subseteq> {..< made s} \<and>
     (\<forall>n. m_session s = Some n \<longrightarrow> n < made s \<and> (m_session_has_been_bound s \<longleftrightarrow> n \<in> bound_in (log s)))"

definition live :: "sync_session \<Rightarrow> bool" where
  "live s \<longleftrightarrow> m_session s \<noteq> None \<and> m_session_has_been_bound s"

lemma live_fields [simp]:
  "live (emit e s) = live s" "live (emits es s) = live s" "live (on_session f s) = live s"
  "live (async_wait k s) = live s"
  by (simp_all add: live_def)

lemma core_emit: "neutral e \<Longrightarrow> core (emit e s) = core s"
  by (simp add: core_def calls_ok_append calls_ok_single bound_in_single)

lemma neutral_list:
  "list_all neutral es \<Longrightarrow> calls_ok B es \<and> bound_in es = {}"
proof (induction es)
  case (Cons e es)
  then show ?case
    using calls_ok_append[of B "[e]" es] bound_in_append[of "[e]" es] calls_ok_single(1)[of e B] bound_in_single(1)[of e]
    by simp
qed simp

lemma core_emits: "list_all neutral es \<Longrightarrow> core (emits es s) = core s"
  using neutral_list[of es] by (simp add: core_def calls_ok_append)

lemma core_on_session: "core s \<Longrightarrow> live s \<Longrightarrow> (\<And>n. call_on n (f n)) \<Longrightarrow> core (on_session f s)"
proof -
  assume core: "core s" and live: "live s" and call: "\<And>n. call_on n (f n)"
  from live obtain n where n: "m_session s = Some n" by (auto simp: live_def)
  show "core (on_session f s)"
    using core live n calls_ok_single(2)[OF call[of n]] bound_in_single(2)[OF call[of n]]
    by (simp add: core_def live_def on_session_def calls_ok_append)
qed

lemma core_async_wait: "core s \<Longrightarrow> live s \<Longrightarrow> core (async_wait k s)"
  by (auto simp: core_def live_def async_wait_def calls_ok_append)

text \<open>Fields that the calls do not depend on.\<close>

lemma core_fields [simp]:
  "core (s\<lparr>m_state := x0\<rparr>) = core s" "live (s\<lparr>m_state := x0\<rparr>) = live s"
  "core (s\<lparr>m_connection_state := x1\<rparr>) = core s" "live (s\<lparr>m_connection_state := x1\<rparr>) = live s"
  "core (s\<lparr>m_death_count := x2\<rparr>) = core s" "live (s\<lparr>m_death_count := x2\<rparr>) = live s"
  "core (s\<lparr>m_config := x3\<rparr>) = core s" "live (s\<lparr>m_config := x3\<rparr>) = live s"
  "core (s\<lparr>m_force_client_resync := x4\<rparr>) = core s" "live (s\<lparr>m_force_client_resync := x4\<rparr>) = live s"
  "core (s\<lparr>m_download_completion_callbacks := x5\<rparr>) = core s" "live (s\<lparr>m_download_completion_callbacks := x5\<rparr>) = live s"
  "core (s\<lparr>m_upload_completion_callbacks := x6\<rparr>) = core s" "live (s\<lparr>m_upload_completion_callbacks := x6\<rparr>) = live s"
  "core (s\<lparr>m_client_resync_counter := x7\<rparr>) = core s" "live (s\<lparr>m_client_resync_counter := x7\<rparr>) = live s"
  "core (s\<lparr>m_server_override := x8\<rparr>) = core s" "live (s\<lparr>m_server_override := x8\<rparr>) = live s"
  "core (s\<lparr>m_deferred_commit_notification := x9\<rparr>) = core s" "live (s\<lparr>m_deferred_commit_notification := x9\<rparr>) = live s"
  "core (s\<lparr>m_deferred_close := x10\<rparr>) = core s" "live (s\<lparr>m_deferred_close := x10\<rparr>) = live s"
  "core (s\<lparr>m_server_url := x11\<rparr>) = core s" "live (s\<lparr>m_server_url := x11\<rparr>) = live s"
  "core (s\<lparr>m_multiplex_identity := x12\<rparr>) = core s" "live (s\<lparr>m_multiplex_identity := x12\<rparr>) = live s"
  "core (s\<lparr>m_external_reference := x13\<rparr>) = core s" "live (s\<lparr>m_external_reference := x13\<rparr>) = live s"
  "core (s\<lparr>m_progress_notifier := x14\<rparr>) = core s" "live (s\<lparr>m_progress_notifier := x14\<rparr>) = live s"
  "core (s\<lparr>pending := x15\<rparr>) = core s" "live (s\<lparr>pending := x15\<rparr>) = live s"
  by (simp_all add: core_def live_def)

lemma core_drop_session: "core s \<Longrightarrow> core (s\<lparr>m_session := None\<rparr>)"
  by (simp add: core_def)

definition session_inv :: "sync_session \<Rightarrow> bool" where
  "session_inv s \<longleftrightarrow> core s \<and> (m_state s = Inactive \<longrightarrow> m_session s = None) \<and>
     (m_state s = Active \<or> m_state s = Dying \<longrightarrow> live s)"

lemma neutral_completions [simp]: "list_all neutral (map (\<lambda>c. Completion_callback c r) cs)"
  by (simp add: list_all_iff)

lemma inv_enter_inactive: "core s \<Longrightarrow> m_state s = Inactive \<Longrightarrow> session_inv (enter_inactive s)"
  by (simp add: session_inv_def enter_inactive_def unregister_def Let_def core_emits core_emit core_drop_session)

lemma inv_enter_active: "core s \<Longrightarrow> live s \<Longrightarrow> m_state s = Active \<Longrightarrow> session_inv (enter_active s)"
  by (simp add: session_inv_def enter_active_def add_completion_callback_def core_async_wait Let_def)

lemma inv_enter_dying: "core s \<Longrightarrow> live s \<Longrightarrow> m_state s = Dying \<Longrightarrow> session_inv (enter_dying s)"
  by (auto simp: enter_dying_def session_inv_def core_async_wait Let_def live_def[of s])

lemma inv_enter_waiting: "core s \<Longrightarrow> m_state s = WaitingForAccessToken \<Longrightarrow> session_inv (enter_waiting s)"
  by (simp add: session_inv_def enter_waiting_def)

text \<open>Every change of state establishes the invariant.\<close>

lemma inv_advance_state:
  "core s \<Longrightarrow> st = Active \<or> st = Dying \<longrightarrow> live s \<Longrightarrow> m_state s \<noteq> st \<Longrightarrow> session_inv (advance_state st s)"
  by (cases st) (simp_all add: advance_state_def Let_def core_emit inv_enter_waiting inv_enter_active
    inv_enter_dying inv_enter_inactive)

lemma inv_core: "session_inv s \<Longrightarrow> core s" and inv_live: "session_inv s \<Longrightarrow> m_state s = Active \<or> m_state s = Dying \<Longrightarrow> live s"
  by (auto simp: session_inv_def)

lemma inv_fields [simp]:
  "session_inv (s\<lparr>m_connection_state := x0\<rparr>) = session_inv s"
  "session_inv (s\<lparr>m_death_count := x1\<rparr>) = session_inv s"
  "session_inv (s\<lparr>m_config := x2\<rparr>) = session_inv s"
  "session_inv (s\<lparr>m_force_client_resync := x3\<rparr>) = session_inv s"
  "session_inv (s\<lparr>m_download_completion_callbacks := x4\<rparr>) = session_inv s"
  "session_inv (s\<lparr>m_upload_completion_callbacks := x5\<rparr>) = session_inv s"
  "session_inv (s\<lparr>m_client_resync_counter := x6\<rparr>) = session_inv s"
  "session_inv (s\<lparr>m_server_override := x7\<rparr>) = session_inv s"
  "session_inv (s\<lparr>m_deferred_commit_notification := x8\<rparr>) = session_inv s"
  "session_inv (s\<lparr>m_deferred_close := x9\<rparr>) = session_inv s"
  "session_inv (s\<lparr>m_server_url := x10\<rparr>) = session_inv s"
  "session_inv (s\<lparr>m_multiplex_identity := x11\<rparr>) = session_inv s"
  "session_inv (s\<lparr>m_external_reference := x12\<rparr>) = session_inv s"
  "session_inv (s\<lparr>m_progress_notifier := x13\<rparr>) = session_inv s"
  "session_inv (s\<lparr>pending := x14\<rparr>) = session_inv s"
  by (simp_all add: session_inv_def)

lemma inv_emit: "neutral e \<Longrightarrow> session_inv (emit e s) = session_inv s"
  by (simp add: session_inv_def core_emit)

lemma inv_advance:
  "session_inv s \<Longrightarrow> session_inv (advance_state Inactive s)"
  "session_inv s \<Longrightarrow> session_inv (advance_state WaitingForAccessToken s)"
  "session_inv s \<Longrightarrow> m_state s = Dying \<Longrightarrow> session_inv (advance_state Active s)"
  "session_inv s \<Longrightarrow> m_state s = Active \<Longrightarrow> session_inv (advance_state Dying s)"
proof -
  have same: "session_inv s \<Longrightarrow> m_state s = st \<Longrightarrow> session_inv (advance_state st s)" for st
    by (simp add: advance_state_def inv_emit)
  show "session_inv s \<Longrightarrow> session_inv (advance_state Inactive s)"
    by (cases "m_state s = Inactive") (use same in \<open>simp_all add: inv_advance_state inv_core\<close>)
  show "session_inv s \<Longrightarrow> session_inv (advance_state WaitingForAccessToken s)"
    by (cases "m_state s = WaitingForAccessToken") (use same in \<open>simp_all add: inv_advance_state inv_core\<close>)
qed (rule inv_advance_state; simp add: session_inv_def)+

lemma inv_emits: "list_all neutral es \<Longrightarrow> session_inv (emits es s) = session_inv s"
  by (simp add: session_inv_def core_emits)

lemma inv_on_session:
  "session_inv s \<Longrightarrow> live s \<Longrightarrow> (\<And>n. call_on n (f n)) \<Longrightarrow> session_inv (on_session f s)"
  by (simp add: session_inv_def core_on_session)

lemma inv_async_wait: "session_inv s \<Longrightarrow> live s \<Longrightarrow> session_inv (async_wait k s)"
  by (simp add: session_inv_def core_async_wait)

lemma inv_close: "session_inv s \<Longrightarrow> session_inv (close s)"
  by (simp add: close_def close_waiting_def close_active_def close_inactive_def unregister_def inv_emit inv_advance
    split: session_state.split stop_policy.split)

lemma core_create:
  assumes "core s"
  shows "core (create_sync_session d s)" "m_session (create_sync_session d s) \<noteq> None"
proof -
  have "made s \<notin> bound_in (log s)" if "m_session s = None" using assms by (auto simp: core_def)
  then show "core (create_sync_session d s)"
    using assms by (auto simp: core_def create_sync_session_def calls_ok_append Let_def split: option.split)
  show "m_session (create_sync_session d s) \<noteq> None"
    by (simp add: create_sync_session_def Let_def split: option.split)
qed

lemma core_bind:
  assumes "core s" "m_session s = Some n" "\<not> m_session_has_been_bound s"
  shows "core ((on_session (\<lambda>n. Bind n url t) s)\<lparr>m_session_has_been_bound := True\<rparr>)"
  using assms by (auto simp: core_def on_session_def calls_ok_append)

lemma core_if: "(P \<Longrightarrow> core s) \<Longrightarrow> (\<not> P \<Longrightarrow> core t) \<Longrightarrow> core (if P then s else t)" by simp

text \<open>
  A step is quiet when it leaves the state, the waits and the callbacks, and logs neither a change
  of state nor a completion.
\<close>

fun quiet :: "effect \<Rightarrow> bool" where
  "quiet (Advance a b) = False"
| "quiet (Completion_callback c r) = False"
| "quiet _ = True"

definition quietly :: "sync_session \<Rightarrow> sync_session \<Rightarrow> bool" where
  "quietly s t \<longleftrightarrow> m_state t = m_state s \<and> pending t = pending s \<and> m_death_count t = m_death_count s \<and>
     m_upload_completion_callbacks t = m_upload_completion_callbacks s \<and>
     m_download_completion_callbacks t = m_download_completion_callbacks s \<and>
     m_client_resync_counter t = m_client_resync_counter s \<and>
     (\<exists>es. log t = log s @ es \<and> list_all quiet es)"

lemma quietly_refl [simp]: "quietly s s"
  by (simp add: quietly_def)

lemma quietly_trans: "quietly s t \<Longrightarrow> quietly t u \<Longrightarrow> quietly s u"
  by (auto simp: quietly_def)

lemma quietly_emit: "quiet e \<Longrightarrow> quietly s (emit e s)"
  by (simp add: quietly_def)

lemma quietly_on_session: "(\<And>n. quiet (f n)) \<Longrightarrow> quietly s (on_session f s)"
  by (auto simp: on_session_def quietly_emit split: option.split)

lemma quietly_fields [simp]:
  "quietly s (t\<lparr>m_server_url := a\<rparr>) = quietly s t" "quietly s (t\<lparr>m_session_has_been_bound := b\<rparr>) = quietly s t"
  "quietly s (t\<lparr>m_session := c\<rparr>) = quietly s t" "quietly s (t\<lparr>made := d\<rparr>) = quietly s t"
  "quietly s (t\<lparr>m_deferred_commit_notification := f\<rparr>) = quietly s t"
  by (simp_all add: quietly_def)

text \<open>A token that arrives while waiting makes the session active, with a bound session.\<close>

lemma refresh_waiting_activates:
  assumes inv: "core s" and url: "m_server_url s \<noteq> None \<or> server_url \<noteq> None"
  obtains t where "core t" "live t" "quietly s t"
    "refresh_waiting d token server_url s =
       (let s = advance_state Active t in if m_deferred_close s then close s else s)"
proof -
  define s1 where "s1 = create_sync_session d s"
  define s2 where "s2 = (if m_server_url s1 = None then s1\<lparr>m_server_url := server_url\<rparr> else s1)"
  define s3 where "s3 = (if m_session_has_been_bound s2
     then on_session Cancel_reconnect_delay (on_session (\<lambda>n. Refresh n token) s2)
     else case m_server_url s2 of
       Some url \<Rightarrow> (on_session (\<lambda>n. Bind n url token) s2)\<lparr>m_session_has_been_bound := True\<rparr>
     | None \<Rightarrow> emit Null_session s2)"
  define s4 where "s4 = (case m_server_override s3 of
     Some (address, port) \<Rightarrow> on_session (\<lambda>n. Override_server n address port) s3 | None \<Rightarrow> s3)"
  define s5 where "s5 = (case m_deferred_commit_notification s4 of
     Some v \<Rightarrow> (on_session (\<lambda>n. Transact_notify n v) s4)\<lparr>m_deferred_commit_notification := None\<rparr> | None \<Rightarrow> s4)"
  have "core s1" "m_session s1 \<noteq> None" "m_server_url s1 = m_server_url s" "quietly s s1"
    using core_create[OF inv]
    by (simp_all add: s1_def) (simp_all add: create_sync_session_def Let_def quietly_emit split: option.split)
  then have s2: "core s2" "m_session s2 \<noteq> None" "m_server_url s2 \<noteq> None" "quietly s s2"
    using url by (auto simp: s2_def)
  have s3: "core s3" "live s3" "quietly s2 s3"
  proof -
    show "live s3" using s2 by (auto simp: s3_def live_def)
    show "core s3"
    proof (cases "m_session_has_been_bound s2")
      case True
      then have "live s2" using s2 by (simp add: live_def)
      then show ?thesis using True s2 by (simp add: s3_def core_on_session)
    next
      case False
      then show ?thesis using s2 core_bind[of s2] by (auto simp: s3_def)
    qed
    show "quietly s2 s3"
      using quietly_trans[OF quietly_on_session quietly_on_session] s2(3)
      by (auto simp: s3_def quietly_on_session)
  qed
  have s4: "core s4" "live s4" "quietly s3 s4"
    using s3(1,2) by (auto simp: s4_def core_on_session quietly_on_session split: option.split)
  then have "core s5" "live s5" "quietly s4 s5"
    by (auto simp: s5_def core_on_session quietly_on_session split: option.split)
  moreover have "quietly s s5" using s2(4) s3(3) s4(3) calculation(3) quietly_trans by blast
  moreover have "refresh_waiting d token server_url s =
      (let s = advance_state Active s5 in if m_deferred_close s then close s else s)"
    by (simp only: refresh_waiting_def s1_def s2_def s3_def s4_def s5_def Let_def)
  ultimately show ?thesis using that by blast
qed

lemma inv_refresh_waiting:
  assumes "session_inv s" "m_server_url s \<noteq> None \<or> server_url \<noteq> None" "m_state s = WaitingForAccessToken"
  shows "session_inv (refresh_waiting d token server_url s)"
  by (rule refresh_waiting_activates[OF inv_core[OF assms(1)] assms(2), of d token])
    (use assms(3) in \<open>simp add: Let_def inv_close inv_advance_state quietly_def\<close>)

lemma inv_refresh: "session_inv s \<Longrightarrow> session_inv (refresh_access_token d token url s)"
  by (auto simp: refresh_access_token_def refresh_active_def inv_refresh_waiting inv_on_session inv_live
    split: session_state.split)

lemma advance_state_m_state: "st \<noteq> Dying \<Longrightarrow> m_state (advance_state st s) = st"
  by (cases st) (simp_all add: advance_state_def enter_waiting_def enter_active_def add_completion_callback_def
    enter_inactive_def unregister_def Let_def)

lemma inv_revive: "session_inv s \<Longrightarrow> session_inv (revive_if_needed s)"
  by (auto simp: revive_if_needed_def revive_state_def inv_advance inv_emit split: session_state.split)

lemma inv_cancel: "session_inv s \<Longrightarrow> session_inv (cancel_pending_waits s)"
  by (simp add: cancel_pending_waits_def inv_emits)

lemma inv_token_expired: "session_inv s \<Longrightarrow> session_inv (access_token_expired s)"
  by (simp add: access_token_expired_def inv_advance inv_emit)

lemma inv_resync_steps:
  "session_inv s \<Longrightarrow> session_inv (snd (resync_begin s))" "session_inv s \<Longrightarrow> session_inv (resync_end a s)"
  by (simp_all add: resync_begin_def resync_end_def Let_def inv_revive inv_advance)

lemma inv_resync: "session_inv s \<Longrightarrow> session_inv (client_resync s)"
  using inv_resync_steps by (simp add: client_resync_def case_prod_beta Let_def)

lemma inv_update_pass: "session_inv s \<Longrightarrow> session_inv (update_pass c s)"
  by (simp add: update_pass_def inv_advance inv_emit)

lemma inv_file_action:
  "session_inv s \<Longrightarrow> update_error_and_mark_file env b e s = (e', s') \<Longrightarrow> session_inv s'"
  by (auto simp: update_error_and_mark_file_def Let_def inv_emit)

text \<open>A property of the session that the switch over the error code keeps.\<close>

fun flow_all :: "(sync_session \<Rightarrow> bool) \<Rightarrow> flow \<Rightarrow> bool" where
  "flow_all P (Return s) = P s"
| "flow_all P (Continue nxt e s) = P s"

lemma inv_error_step: "session_inv s \<Longrightarrow> flow_all session_inv (error_step env nxt e s)"
  by (auto simp: error_step_def protocol_error_step_def Let_def case_prod_beta inv_token_expired inv_cancel inv_emit
    update_error_and_mark_file_def split: error_code.split option.split)

lemma inv_handle_error: "session_inv s \<Longrightarrow> session_inv (handle_error env e s)"
  using inv_error_step[of s env "if is_fatal e then Cancel_waits else No_change" e]
  by (auto simp: handle_error_def Let_def inv_advance inv_resync inv_emit inv_cancel split: flow.split next_state.split)

lemma inv_complete: "session_inv s \<Longrightarrow> session_inv (complete_wait i ec s)"
  by (simp add: complete_wait_def death_handler_def completion_handler_def Let_def inv_advance inv_emits
    split: wait_kind.split)

lemma inv_wait:
  "session_inv s \<Longrightarrow> session_inv (wait_for_upload_completion c s)"
  "session_inv s \<Longrightarrow> session_inv (wait_for_download_completion c s)"
  by (auto simp: wait_for_upload_completion_def wait_for_download_completion_def wait_for_completion_def
    add_completion_callback_def Let_def inv_async_wait inv_live)

lemma inv_event:
  assumes "session_inv s"
  shows "session_inv (run_event env e s)"
proof (cases e)
  case (Notify v)
  then show ?thesis using assms inv_live[OF assms]
    by (simp add: nonsync_transact_notify_def Let_def inv_on_session split: session_state.split)
next
  case Reconnect
  then show ?thesis using assms inv_live[OF assms]
    by (simp add: handle_reconnect_def inv_on_session inv_emit split: session_state.split)
next
  case (Override a p)
  then show ?thesis using assms inv_live[OF assms] by (auto simp: override_server_def Let_def inv_on_session)
next
  case (Connection st err)
  then show ?thesis using assms
    by (simp add: connection_state_changed_def Let_def inv_handle_error inv_emit split: option.split)
qed (use assms in \<open>simp_all add: update_configuration_def inv_update_pass Let_def inv_refresh inv_revive log_out_def inv_advance inv_close inv_wait inv_complete
  external_reference_def drop_external_reference_def did_drop_external_reference_def set_multiplex_identifier_def
  set_url_prefix_def handle_progress_update_def register_progress_notifier_def unregister_progress_notifier_def
  case_prod_beta inv_emit\<close>)

lemma inv_new: "session_inv (new_sync_session path config b)"
  by (simp add: session_inv_def core_def new_sync_session_def)

lemma reachable_session_inv: "reachable env s \<Longrightarrow> session_inv s"
  by (induction rule: reachable.induct) (rule inv_new, rule inv_event)

end
