(* ===== verification/Sync_Session_Waits.thy ===== *)
theory Sync_Session_Waits
  imports Sync_Session_Inv
begin

text \<open>
  What becomes of callbacks and of states along a run: nobody who waits is forgotten while the
  session can still report, no callback is lost or called twice, and the states change as the
  comment before \<open>SyncSession::State\<close> documents.
\<close>

subsection \<open>Waiting callbacks have a handler\<close>

definition callbacks :: "notifier_type \<Rightarrow> sync_session \<Rightarrow> nat list" where
  "callbacks d s = (if d = download then m_download_completion_callbacks s else m_upload_completion_callbacks s)"

definition has_wait :: "wait_kind \<Rightarrow> sync_session \<Rightarrow> bool" where
  "has_wait k s \<longleftrightarrow> (\<exists>w \<in> set (pending s). m_session s = Some (wait_session w) \<and> wait_kind w = k)"

definition covered :: "sync_session \<Rightarrow> bool" where
  "covered s \<longleftrightarrow> (\<forall>d. callbacks d s \<noteq> [] \<longrightarrow> has_wait (Completion d (m_client_resync_counter s)) s)"

definition waits_ok :: "sync_session \<Rightarrow> bool" where
  "waits_ok s \<longleftrightarrow> (m_state s = Active \<or> m_state s = Dying \<longrightarrow> covered s) \<and>
     (m_state s = Dying \<longrightarrow> has_wait (Death (m_death_count s)) s)"

lemma callbacks_fields [simp]:
  "callbacks d (emit e s) = callbacks d s" "callbacks d (emits es s) = callbacks d s"
  "callbacks d (on_session f s) = callbacks d s" "callbacks d (async_wait k s) = callbacks d s"
  by (simp_all add: callbacks_def)

lemma has_wait_fields [simp]:
  "has_wait k (emit e s) = has_wait k s" "has_wait k (emits es s) = has_wait k s"
  "has_wait k (on_session f s) = has_wait k s"
  by (simp_all add: has_wait_def)

lemma pending_async: "m_session s = Some n \<Longrightarrow>
  pending (async_wait k s) = pending s @ [\<lparr>wait_session = n, wait_kind = k\<rparr>]"
  by (simp add: async_wait_def)

lemma has_wait_async: "m_session s \<noteq> None \<Longrightarrow> has_wait k (async_wait k s)"
  by (auto simp: has_wait_def pending_async)

lemma has_wait_mono: "has_wait k' s \<Longrightarrow> has_wait k' (async_wait k s)"
  by (auto simp: has_wait_def async_wait_def split: option.split)

lemma covered_fields [simp]:
  "covered (emit e s) = covered s" "covered (emits es s) = covered s" "covered (on_session f s) = covered s"
  "covered (s\<lparr>m_state := st\<rparr>) = covered s" "covered (s\<lparr>m_death_count := n\<rparr>) = covered s"
  by (simp_all add: covered_def has_wait_def callbacks_def)

lemma waits_fields [simp]:
  "waits_ok (emit e s) = waits_ok s" "waits_ok (emits es s) = waits_ok s" "waits_ok (on_session f s) = waits_ok s"
  by (simp_all add: waits_ok_def)

lemma waits_idle: "m_state s = Inactive \<or> m_state s = WaitingForAccessToken \<Longrightarrow> waits_ok s"
  by (auto simp: waits_ok_def)

lemma covered_async: "covered s \<Longrightarrow> covered (async_wait k s)"
  by (simp add: covered_def has_wait_mono)

lemma waits_async: "waits_ok s \<Longrightarrow> waits_ok (async_wait k s)"
  by (simp add: waits_ok_def covered_async has_wait_mono)

lemma enter_active_fields [simp]:
  "m_state (enter_active s) = m_state s" "m_session (enter_active s) = m_session s"
  "callbacks d (enter_active s) = callbacks d s"
  "m_client_resync_counter (enter_active s) = m_client_resync_counter s"
  by (simp_all add: enter_active_def add_completion_callback_def Let_def)

lemma covered_enter_active: "m_session s \<noteq> None \<Longrightarrow> covered (enter_active s)"
  unfolding covered_def
proof (intro allI impI)
  fix d assume s: "m_session s \<noteq> None" and d: "callbacks d (enter_active s) \<noteq> []"
  show "has_wait (Completion d (m_client_resync_counter (enter_active s))) (enter_active s)"
    using s d by (cases d) (auto simp: callbacks_def enter_active_def add_completion_callback_def has_wait_async has_wait_mono Let_def)
qed

lemma waits_advance_active:
  "m_session s \<noteq> None \<Longrightarrow> m_state s \<noteq> Active \<Longrightarrow> waits_ok (advance_state Active s)"
  by (simp add: waits_ok_def advance_state_def covered_enter_active Let_def)

lemma waits_advance_idle:
  "waits_ok (advance_state Inactive s)" "waits_ok (advance_state WaitingForAccessToken s)"
  by (rule waits_idle; simp add: advance_state_m_state)+

lemma waits_advance_dying:
  "waits_ok s \<Longrightarrow> m_state s = Active \<Longrightarrow> m_session s \<noteq> None \<Longrightarrow> waits_ok (advance_state Dying s)"
  by (auto simp: waits_ok_def advance_state_def enter_dying_def covered_async has_wait_async Let_def)

lemma waits_other_fields [simp]:
  "waits_ok (s\<lparr>m_connection_state := x0\<rparr>) = waits_ok s"
  "waits_ok (s\<lparr>m_config := x1\<rparr>) = waits_ok s"
  "waits_ok (s\<lparr>m_force_client_resync := x2\<rparr>) = waits_ok s"
  "waits_ok (s\<lparr>m_server_override := x3\<rparr>) = waits_ok s"
  "waits_ok (s\<lparr>m_deferred_commit_notification := x4\<rparr>) = waits_ok s"
  "waits_ok (s\<lparr>m_deferred_close := x5\<rparr>) = waits_ok s"
  "waits_ok (s\<lparr>m_server_url := x6\<rparr>) = waits_ok s"
  "waits_ok (s\<lparr>m_multiplex_identity := x7\<rparr>) = waits_ok s"
  "waits_ok (s\<lparr>m_external_reference := x8\<rparr>) = waits_ok s"
  "waits_ok (s\<lparr>m_progress_notifier := x9\<rparr>) = waits_ok s"
  by (simp_all add: waits_ok_def covered_def has_wait_def callbacks_def)

lemma waits_close: "waits_ok s \<Longrightarrow> session_inv s \<Longrightarrow> waits_ok (close s)"
  by (auto simp: close_def close_waiting_def close_active_def close_inactive_def unregister_def waits_advance_idle
    session_inv_def live_def intro!: waits_advance_dying split: session_state.split stop_policy.split)

lemma waits_refresh_waiting:
  assumes "session_inv s" "m_server_url s \<noteq> None \<or> server_url \<noteq> None" "m_state s = WaitingForAccessToken"
  shows "waits_ok (refresh_waiting d token server_url s)"
proof (rule refresh_waiting_activates[OF inv_core[OF assms(1)] assms(2), of d token])
  fix t assume "core t" "live t" "quietly s t"
    and eq: "refresh_waiting d token server_url s =
      (let s = advance_state Active t in if m_deferred_close s then close s else s)"
  then have "waits_ok (advance_state Active t)" "session_inv (advance_state Active t)"
    using assms(3) by (simp_all add: waits_advance_active live_def inv_advance_state quietly_def)
  then show ?thesis by (simp add: eq Let_def waits_close)
qed

lemma waits_refresh: "waits_ok s \<Longrightarrow> session_inv s \<Longrightarrow> waits_ok (refresh_access_token d token url s)"
  by (auto simp: refresh_access_token_def refresh_active_def waits_refresh_waiting split: session_state.split)

lemma waits_revive: "waits_ok s \<Longrightarrow> session_inv s \<Longrightarrow> waits_ok (revive_if_needed s)"
  by (auto simp: revive_if_needed_def revive_state_def waits_advance_idle session_inv_def live_def
    intro!: waits_advance_active split: session_state.split)

lemma waits_token_expired: "waits_ok s \<Longrightarrow> waits_ok (access_token_expired s)"
  by (simp add: access_token_expired_def waits_advance_idle)

lemma waits_no_callbacks:
  "waits_ok s \<Longrightarrow> waits_ok (s\<lparr>m_download_completion_callbacks := [], m_upload_completion_callbacks := []\<rparr>)"
  by (auto simp: waits_ok_def covered_def has_wait_def callbacks_def)

lemma waits_cancel: "waits_ok s \<Longrightarrow> waits_ok (cancel_pending_waits s)"
  by (simp add: cancel_pending_waits_def waits_no_callbacks)

lemma resync_begin_inactive: "m_state (snd (resync_begin s)) = Inactive"
  by (simp add: resync_begin_def Let_def advance_state_m_state)

lemma resync_end_waiting: "m_state s = Inactive \<Longrightarrow> m_state (resync_end a s) = WaitingForAccessToken"
  by (simp add: resync_end_def revive_if_needed_def revive_state_def advance_state_m_state)

lemma waits_resync: "waits_ok (client_resync s)"
  by (rule waits_idle) (simp add: client_resync_def case_prod_beta Let_def resync_begin_inactive resync_end_waiting)

lemma waits_error_step: "waits_ok s \<Longrightarrow> flow_all waits_ok (error_step env nxt e s)"
  by (auto simp: error_step_def protocol_error_step_def Let_def case_prod_beta waits_token_expired waits_cancel
    update_error_and_mark_file_def split: error_code.split option.split)

lemma waits_handle_error: "waits_ok s \<Longrightarrow> waits_ok (handle_error env e s)"
  using waits_error_step[of s env "if is_fatal e then Cancel_waits else No_change" e]
  by (auto simp: handle_error_def Let_def waits_advance_idle waits_resync waits_cancel split: flow.split next_state.split)

lemma has_wait_callbacks [simp]:
  "has_wait k (s\<lparr>m_download_completion_callbacks := x\<rparr>) = has_wait k s"
  "has_wait k (s\<lparr>m_upload_completion_callbacks := y\<rparr>) = has_wait k s"
  by (simp_all add: has_wait_def)

lemma waits_queue:
  assumes "waits_ok s" "m_state s = Active \<or> m_state s = Dying \<Longrightarrow> has_wait (Completion d (m_client_resync_counter s)) s"
    and "t = s\<lparr>m_download_completion_callbacks := x\<rparr> \<and> d = download \<or> t = s\<lparr>m_upload_completion_callbacks := x\<rparr> \<and> d = upload"
  shows "waits_ok t"
proof -
  have "callbacks d' t = callbacks d' s" if "d' \<noteq> d" for d'
    using assms(3) that by (cases d; cases d') (auto simp: callbacks_def)
  moreover have "has_wait k t = has_wait k s" "m_state t = m_state s" "m_death_count t = m_death_count s"
    "m_client_resync_counter t = m_client_resync_counter s" for k
    using assms(3) by auto
  ultimately show ?thesis using assms(1,2) unfolding waits_ok_def covered_def by metis
qed

lemma waits_wait:
  assumes "waits_ok s" "session_inv s"
  shows "waits_ok (wait_for_upload_completion c s)" "waits_ok (wait_for_download_completion c s)"
proof -
  have *: "waits_ok (wait_for_completion d s)"
    "m_state s = Active \<or> m_state s = Dying \<Longrightarrow>
      has_wait (Completion d (m_client_resync_counter (wait_for_completion d s))) (wait_for_completion d s)"
    "m_state (wait_for_completion d s) = m_state s" for d
    using assms inv_live[OF assms(2)]
    by (auto simp: wait_for_completion_def add_completion_callback_def waits_async has_wait_async live_def)
  have old: "has_wait (Completion d (m_client_resync_counter s)) s"
    if "m_state s = Active \<or> m_state s = Dying" "callbacks d s \<noteq> []" for d
    using assms(1) that by (auto simp: waits_ok_def covered_def)
  show "waits_ok (wait_for_upload_completion c s)"
  proof (cases "m_upload_completion_callbacks s = []")
    case True
    then show ?thesis using *(3)[of upload]
      by (intro waits_queue[OF *(1)[of upload], of upload]) (auto simp: wait_for_upload_completion_def Let_def intro: *(2))
  next
    case False
    then show ?thesis
      by (intro waits_queue[OF assms(1), of upload]) (auto simp: wait_for_upload_completion_def callbacks_def intro: old)
  qed
  show "waits_ok (wait_for_download_completion c s)"
  proof (cases "m_download_completion_callbacks s = []")
    case True
    then show ?thesis using *(3)[of download]
      by (intro waits_queue[OF *(1)[of download], of download]) (auto simp: wait_for_download_completion_def Let_def intro: *(2))
  next
    case False
    then show ?thesis
      by (intro waits_queue[OF assms(1), of download]) (auto simp: wait_for_download_completion_def callbacks_def intro: old)
  qed
qed

text \<open>A handler that has run is no longer pending; the others still are.\<close>

lemma has_wait_remove:
  assumes "has_wait k s" "i < length (pending s)" "wait_kind (pending s ! i) \<noteq> k"
  shows "has_wait k (s\<lparr>pending := take i (pending s) @ drop (Suc i) (pending s)\<rparr>)"
proof -
  obtain w where w: "w \<in> set (pending s)" "m_session s = Some (wait_session w)" "wait_kind w = k"
    using assms(1) by (auto simp: has_wait_def)
  have "set (pending s) = insert (pending s ! i) (set (take i (pending s) @ drop (Suc i) (pending s)))"
    using id_take_nth_drop[OF assms(2)] by (metis insert_is_Un list.simps(15) set_append Un_insert_right)
  with w assms(3) show ?thesis by (auto simp: has_wait_def)
qed

lemma waits_complete:
  assumes ok: "waits_ok s" and i: "i < length (pending s)"
  shows "waits_ok (complete_wait i ec s)"
proof -
  define t where "t = s\<lparr>pending := take i (pending s) @ drop (Suc i) (pending s)\<rparr>"
  have t: "m_state t = m_state s" "m_death_count t = m_death_count s" "callbacks d t = callbacks d s"
    "m_client_resync_counter t = m_client_resync_counter s" for d
    by (simp_all add: t_def callbacks_def)
  have keep: "has_wait k t" if "has_wait k s" "wait_kind (pending s ! i) \<noteq> k" for k
    using has_wait_remove[OF that(1) i that(2)] by (simp add: t_def)
  show ?thesis
  proof (cases "wait_kind (pending s ! i)")
    case (Death n)
    have "waits_ok t" if "\<not> (m_state s = Dying \<and> m_death_count s = n)"
      using ok that keep Death by (auto simp: waits_ok_def covered_def t)
    then show ?thesis using i Death
      by (auto simp: complete_wait_def death_handler_def Let_def waits_advance_idle t_def[symmetric] t)
  next
    case (Completion d n)
    have "waits_ok t" if "n \<noteq> m_client_resync_counter s"
      using ok that keep Completion by (auto simp: waits_ok_def covered_def t)
    moreover have "waits_ok (completion_handler d n ec t)" if "n = m_client_resync_counter s"
    proof -
      have "callbacks d (completion_handler d n ec t) = []"
        using that by (cases d) (simp_all add: completion_handler_def callbacks_def t)
      moreover have "callbacks d' (completion_handler d n ec t) = callbacks d' s" if "d' \<noteq> d" for d'
        using that by (cases d; cases d') (simp_all add: completion_handler_def callbacks_def t_def)
      moreover have "has_wait k (completion_handler d n ec t) = has_wait k t"
        "m_state (completion_handler d n ec t) = m_state s"
        "m_death_count (completion_handler d n ec t) = m_death_count s"
        "m_client_resync_counter (completion_handler d n ec t) = m_client_resync_counter s" for k
        by (simp_all add: completion_handler_def t)
      ultimately show ?thesis
        using ok keep Completion unfolding waits_ok_def covered_def by (metis wait_kind.distinct(1) wait_kind.inject(2))
    qed
    ultimately show ?thesis using i Completion
      by (auto simp: complete_wait_def Let_def t_def[symmetric]) (simp add: completion_handler_def t)
  qed
qed

lemma waits_event:
  assumes "waits_ok s" "session_inv s"
  shows "waits_ok (run_event env e s)"
proof (cases e)
  case (Update_configuration c)
  have idle: "waits_ok (update_pass c u)" "session_inv (update_pass c u)" if "waits_ok u" "session_inv u" for u
    using that by (simp_all add: inv_update_pass) (simp add: update_pass_def waits_advance_idle)
  then show ?thesis using assms
    by (simp add: Update_configuration update_configuration_def waits_revive Let_def)
next
  case (Update_pass c)
  then show ?thesis using assms by (simp add: update_pass_def waits_advance_idle)
next
  case (Complete i ec)
  then show ?thesis using assms waits_complete[of s i ec] by (cases "i < length (pending s)") (simp_all add: complete_wait_def)
next
  case (Notify v)
  then show ?thesis using assms by (simp add: nonsync_transact_notify_def Let_def split: session_state.split)
next
  case Reconnect
  then show ?thesis using assms by (simp add: handle_reconnect_def split: session_state.split)
next
  case (Connection st err)
  then show ?thesis using assms
    by (simp add: connection_state_changed_def Let_def waits_handle_error split: option.split)
qed (use assms in \<open>simp_all add: waits_refresh waits_revive log_out_def waits_advance_idle waits_close waits_wait
  override_server_def external_reference_def drop_external_reference_def did_drop_external_reference_def
  set_multiplex_identifier_def set_url_prefix_def handle_progress_update_def register_progress_notifier_def
  unregister_progress_notifier_def case_prod_beta Let_def\<close>)

lemma reachable_waits: "reachable env s \<Longrightarrow> waits_ok s"
proof (induction rule: reachable.induct)
  case (event s e)
  then show ?case by (simp add: waits_event reachable_session_inv)
qed (simp add: waits_idle new_sync_session_def)

end
