(* ===== verification/Sync_Session_Moves.thy ===== *)
theory Sync_Session_Moves
  imports Sync_Session_Waits
begin

text \<open>
  The changes of state along a run, and the account of completion callbacks: each is queued or has
  been called. Both are read off the log of effects, and both compose.
\<close>

subsection \<open>Documented changes of state\<close>

text \<open>The table in the comment before \<open>SyncSession::State\<close>.\<close>

fun documented :: "session_state \<Rightarrow> session_state \<Rightarrow> bool" where
  "documented Inactive b = (b = WaitingForAccessToken)"
| "documented WaitingForAccessToken b = (b \<in> {Active, Inactive})"
| "documented Active b = (b \<in> {WaitingForAccessToken, Inactive, Dying})"
| "documented Dying b = (b \<in> {Inactive, Active})"

text \<open>The changes of state in a log, one after the other from a first state.\<close>

fun moves :: "session_state \<Rightarrow> effect list \<Rightarrow> session_state option" where
  "moves a [] = Some a"
| "moves a (Advance b c # es) = (if a = b \<and> documented b c then moves c es else None)"
| "moves a (e # es) = moves a es"

lemma moves_append: "moves a (xs @ ys) = Option.bind (moves a xs) (\<lambda>b. moves b ys)"
  by (induction a xs rule: moves.induct) auto

lemma moves_quiet: "list_all quiet es \<Longrightarrow> moves a es = Some a"
  by (induction a es rule: moves.induct) simp_all

lemma moves_completions [simp]: "moves a (map (\<lambda>c. Completion_callback c r) cs) = Some a"
  by (induction cs) simp_all

fun called :: "effect list \<Rightarrow> nat multiset" where
  "called [] = {#}"
| "called (Completion_callback c r # es) = add_mset c (called es)"
| "called (e # es) = called es"

lemma called_append [simp]: "called (xs @ ys) = called xs + called ys"
  by (induction xs rule: called.induct) simp_all

lemma called_quiet: "list_all quiet es \<Longrightarrow> called es = {#}"
  by (induction es rule: called.induct) simp_all

lemma called_completions [simp]: "called (map (\<lambda>c. Completion_callback c r) cs) = mset cs"
  by (induction cs) simp_all

definition tally :: "sync_session \<Rightarrow> nat multiset" where
  "tally s = mset (m_download_completion_callbacks s) + mset (m_upload_completion_callbacks s) + called (log s)"

text \<open>
  From \<open>s\<close> to \<open>t\<close>, the states change as they may and, unless the process was aborted, no
  callback is lost or called twice.
\<close>

definition tracks :: "sync_session \<Rightarrow> sync_session \<Rightarrow> bool" where
  "tracks s t \<longleftrightarrow> (aborted t \<or> tally t = tally s) \<and> (\<exists>es. log t = log s @ es \<and> moves (m_state s) es = Some (m_state t))"

lemma tracks_refl [simp]: "tracks s s"
  by (simp add: tracks_def)

lemma aborted_later: "aborted s \<Longrightarrow> log t = log s @ es \<Longrightarrow> aborted t"
  by (simp add: aborted_def)

lemma tracks_trans: "tracks s t \<Longrightarrow> tracks t u \<Longrightarrow> tracks s u"
  by (auto simp: tracks_def moves_append aborted_later)

lemma tracks_quietly: "quietly s t \<Longrightarrow> tracks s t"
  by (auto simp: quietly_def tracks_def tally_def moves_quiet called_quiet)

lemma tracks_emit: "tracks s t \<Longrightarrow> quiet e \<Longrightarrow> tracks s (emit e t)"
  by (erule tracks_trans) (simp add: tracks_quietly quietly_emit)

lemma tracks_on_session: "tracks s t \<Longrightarrow> (\<And>n. quiet (f n)) \<Longrightarrow> tracks s (on_session f t)"
  by (erule tracks_trans) (simp add: tracks_quietly quietly_on_session)

lemma tracks_async_wait: "tracks s t \<Longrightarrow> tracks s (async_wait k t)"
  by (rule tracks_trans[of s t]) (auto simp: async_wait_def tracks_def tally_def split: option.split)

lemma tracks_fields [simp]:
  "tracks s (t\<lparr>m_connection_state := x0\<rparr>) = tracks s t" "tracks s (t\<lparr>m_death_count := x1\<rparr>) = tracks s t"
  "tracks s (t\<lparr>m_config := x2\<rparr>) = tracks s t" "tracks s (t\<lparr>m_force_client_resync := x3\<rparr>) = tracks s t"
  "tracks s (t\<lparr>m_client_resync_counter := x4\<rparr>) = tracks s t" "tracks s (t\<lparr>m_server_override := x5\<rparr>) = tracks s t"
  "tracks s (t\<lparr>m_session := x6\<rparr>) = tracks s t"
  "tracks s (t\<lparr>m_deferred_commit_notification := x7\<rparr>) = tracks s t"
  "tracks s (t\<lparr>m_deferred_close := x8\<rparr>) = tracks s t" "tracks s (t\<lparr>m_server_url := x9\<rparr>) = tracks s t"
  "tracks s (t\<lparr>m_multiplex_identity := x10\<rparr>) = tracks s t"
  "tracks s (t\<lparr>m_external_reference := x11\<rparr>) = tracks s t"
  "tracks s (t\<lparr>m_progress_notifier := x12\<rparr>) = tracks s t" "tracks s (t\<lparr>pending := x13\<rparr>) = tracks s t"
  by (simp_all add: tracks_def tally_def aborted_def)

text \<open>Callbacks that are taken off the lists and called.\<close>

lemma tracksI:
  "log t = log s @ es \<Longrightarrow> moves (m_state s) es = Some (m_state t) \<Longrightarrow> tally t = tally s \<Longrightarrow> tracks s t"
  by (auto simp: tracks_def)

lemma called_both [simp]:
  "called (map (\<lambda>c. Completion_callback c r) xs @ map (\<lambda>c. Completion_callback c r) ys) = mset xs + mset ys"
  by simp

lemma tracks_call:
  assumes "tracks s t"
  shows "tracks s (emits (map (\<lambda>c. Completion_callback c r) (m_download_completion_callbacks t))
     (t\<lparr>m_download_completion_callbacks := []\<rparr>))"
  and "tracks s (emits (map (\<lambda>c. Completion_callback c r) (m_upload_completion_callbacks t))
     (t\<lparr>m_upload_completion_callbacks := []\<rparr>))"
  by (rule tracks_trans[OF assms], rule tracksI, simp, simp, simp add: tally_def)+

lemma tracks_call_both:
  assumes "tracks s t"
  shows "tracks s (emits (map (\<lambda>c. Completion_callback c r)
       (m_download_completion_callbacks t @ m_upload_completion_callbacks t))
     (t\<lparr>m_download_completion_callbacks := [], m_upload_completion_callbacks := []\<rparr>))"
  by (rule tracks_trans[OF assms], rule tracksI, simp, simp add: moves_append, simp add: tally_def)

subsection \<open>The operations\<close>

lemma tracks_move:
  "tracks s t \<Longrightarrow> documented (m_state t) st \<Longrightarrow> tracks s (emit (Advance (m_state t) st) t\<lparr>m_state := st\<rparr>)"
  by (erule tracks_trans, rule tracksI[where es = "[Advance (m_state t) st]"]) (auto simp: tally_def)

lemma tracks_enter_inactive:
  assumes "tracks s t"
  shows "tracks s (enter_inactive t)"
proof -
  define u where "u = (let s = t\<lparr>m_connection_state := Disconnected, m_session := None\<rparr>; s = unregister s
    in if m_connection_state t \<noteq> Disconnected then emit (Connection_changed (m_connection_state t) (m_connection_state s)) s else s)"
  have u: "tracks s u"
    using assms by (simp add: u_def unregister_def tracks_emit Let_def)
  have "enter_inactive t = emits (map (\<lambda>c. Completion_callback c Operation_aborted)
       (m_download_completion_callbacks u @ m_upload_completion_callbacks u))
     (u\<lparr>m_download_completion_callbacks := [], m_upload_completion_callbacks := []\<rparr>)"
    by (simp add: u_def enter_inactive_def unregister_def emit_def emits_def Let_def)
  then show ?thesis using tracks_call_both[OF u] by simp
qed

lemma tracks_advance:
  assumes "tracks s t" "documented (m_state t) st \<or> m_state t = st"
  shows "tracks s (advance_state st t)"
proof (cases "m_state t = st")
  case True
  then show ?thesis using assms(1) by (simp add: advance_state_def tracks_emit)
next
  case False
  have move: "tracks s (emit (Advance (m_state t) st) t\<lparr>m_state := st\<rparr>)"
    using assms False by (blast intro: tracks_move)
  show ?thesis
  proof (cases st)
    case Dying
    have "tracks s (advance_inactive u)" if "tracks s u" for u
      using tracks_move[OF that, of Inactive] that
      by (cases "m_state u") (simp_all add: advance_inactive_def tracks_enter_inactive tracks_emit)
    then show ?thesis using move Dying False
      by (simp add: advance_state_def enter_dying_def tracks_async_wait Let_def)
  qed (use move False in \<open>simp_all add: advance_state_def enter_waiting_def enter_active_def add_completion_callback_def
      tracks_async_wait tracks_enter_inactive Let_def\<close>)
qed

lemma tracks_to_inactive: "tracks s t \<Longrightarrow> tracks s (advance_state Inactive t)"
  by (erule tracks_advance) (cases "m_state t"; simp)

lemma tracks_close: "tracks s t \<Longrightarrow> tracks s (close t)"
  by (simp add: close_def close_waiting_def close_active_def close_inactive_def unregister_def tracks_emit
    tracks_to_inactive tracks_advance split: session_state.split stop_policy.split)

lemma tracks_revive: "tracks s t \<Longrightarrow> tracks s (revive_if_needed t)"
  by (auto simp: revive_if_needed_def revive_state_def intro!: tracks_emit tracks_advance split: session_state.split)

lemma tracks_refresh:
  assumes "session_inv s"
  shows "tracks s (refresh_access_token d token url s)"
proof -
  have "tracks s (refresh_waiting d token url s)" if url: "m_server_url s \<noteq> None \<or> url \<noteq> None"
    and st: "m_state s = WaitingForAccessToken"
  proof (rule refresh_waiting_activates[OF inv_core[OF assms] url, of d token])
    fix t assume t: "quietly s t" and eq: "refresh_waiting d token url s =
      (let s = advance_state Active t in if m_deferred_close s then close s else s)"
    have "tracks s (advance_state Active t)"
      by (rule tracks_advance[OF tracks_quietly[OF t]]) (use t st in \<open>simp add: quietly_def\<close>)
    then show ?thesis by (simp add: eq Let_def tracks_close)
  qed
  then show ?thesis
    by (auto simp: refresh_access_token_def refresh_active_def tracks_on_session split: session_state.split)
qed

lemma tracks_token_expired: "tracks s t \<Longrightarrow> tracks s (access_token_expired t)"
  by (auto simp: access_token_expired_def intro!: tracks_emit tracks_advance)

lemma tracks_cancel: "tracks s t \<Longrightarrow> tracks s (cancel_pending_waits t)"
  unfolding cancel_pending_waits_def by (rule tracks_call_both)

text \<open>A resync moves the callbacks around the change of state.\<close>

lemma advance_without_callbacks:
  assumes "m_download_completion_callbacks s = []" "m_upload_completion_callbacks s = []"
  shows "called (log (advance_state Inactive s)) = called (log s)"
    "m_download_completion_callbacks (advance_state Inactive s) = []"
    "m_upload_completion_callbacks (advance_state Inactive s) = []"
  using assms by (simp_all add: advance_state_def enter_inactive_def unregister_def Let_def)

lemma tally_queued: "tally s = queued s + called (log s)"
  by (simp add: tally_def queued_def)

definition aside_callbacks :: "set_aside \<Rightarrow> nat multiset" where
  "aside_callbacks a = mset (fst a) + mset (snd a)"

text \<open>The first step of a resync sets the queue aside and calls nobody; the second replaces the queue.\<close>

lemma resync_begin_accounts:
  "fst (resync_begin s) = (m_download_completion_callbacks s, m_upload_completion_callbacks s)"
  "queued (snd (resync_begin s)) = {#}" "called (log (snd (resync_begin s))) = called (log s)"
  "\<exists>es. log (snd (resync_begin s)) = log s @ es \<and> moves (m_state s) es = Some (m_state (snd (resync_begin s)))"
proof -
  define u where "u = s\<lparr>m_force_client_resync := True, m_client_resync_counter := m_client_resync_counter s + 1,
    m_download_completion_callbacks := [], m_upload_completion_callbacks := []\<rparr>"
  have u: "snd (resync_begin s) = advance_state Inactive u" "m_download_completion_callbacks u = []"
    "m_upload_completion_callbacks u = []" "log u = log s" "m_state u = m_state s"
    by (simp_all add: resync_begin_def u_def Let_def)
  show "fst (resync_begin s) = (m_download_completion_callbacks s, m_upload_completion_callbacks s)"
    by (simp add: resync_begin_def Let_def)
  show "queued (snd (resync_begin s)) = {#}" "called (log (snd (resync_begin s))) = called (log s)"
    using advance_without_callbacks[OF u(2,3)] u by (simp_all add: queued_def)
  have "tracks u (advance_state Inactive u)" by (simp add: tracks_to_inactive)
  then show "\<exists>es. log (snd (resync_begin s)) = log s @ es \<and>
      moves (m_state s) es = Some (m_state (snd (resync_begin s)))"
    by (simp add: tracks_def u)
qed

lemma resync_end_accounts:
  "aborted (resync_end a s) \<or> tally (resync_end a s) = aside_callbacks a + called (log s)"
  "\<exists>es. log (resync_end a s) = log s @ es \<and> moves (m_state s) es = Some (m_state (resync_end a s))"
proof -
  let ?v = "s\<lparr>m_download_completion_callbacks := fst a, m_upload_completion_callbacks := snd a\<rparr>"
  have "tracks ?v (resync_end a s)" by (simp add: resync_end_def tracks_revive)
  then show "aborted (resync_end a s) \<or> tally (resync_end a s) = aside_callbacks a + called (log s)"
    "\<exists>es. log (resync_end a s) = log s @ es \<and> moves (m_state s) es = Some (m_state (resync_end a s))"
    by (auto simp: tracks_def tally_def aside_callbacks_def)
qed

lemma tracks_resync: "tracks s t \<Longrightarrow> tracks s (client_resync t)"
proof -
  assume st: "tracks s t"
  obtain a u where b: "resync_begin t = (a, u)" by fastforce
  note acc = resync_begin_accounts[of t, unfolded b fst_conv snd_conv]
  show ?thesis
  proof (cases "aborted u")
    case True
    then show ?thesis using acc(4) tracks_trans[OF st] b by (simp add: client_resync_def tracks_def)
  next
    case False
    obtain es es' where es: "log u = log t @ es" "moves (m_state t) es = Some (m_state u)"
      "log (resync_end a u) = log u @ es'" "moves (m_state u) es' = Some (m_state (resync_end a u))"
      using acc(4) resync_end_accounts(2)[of a u] by blast
    have "aborted (resync_end a u) \<or> tally (resync_end a u) = tally t"
      using acc(1,3) resync_end_accounts(1)[of a u] by (simp add: tally_queued queued_def aside_callbacks_def)
    then have "tracks t (resync_end a u)" using es by (simp add: tracks_def moves_append)
    then show ?thesis using tracks_trans[OF st] b False by (simp add: client_resync_def)
  qed
qed

lemma tracks_error_step: "tracks s t \<Longrightarrow> flow_all (tracks s) (error_step env nxt e t)"
  by (auto simp: error_step_def protocol_error_step_def Let_def case_prod_beta tracks_token_expired tracks_cancel
    tracks_emit update_error_and_mark_file_def split: error_code.split option.split)

lemma tracks_handle_error: "tracks s t \<Longrightarrow> tracks s (handle_error env e t)"
  using tracks_error_step[of s t env "if is_fatal e then Cancel_waits else No_change" e]
  by (auto simp: handle_error_def Let_def tracks_to_inactive tracks_resync tracks_emit tracks_cancel
    split: flow.split next_state.split)

lemma tracks_complete: "tracks s t \<Longrightarrow> tracks s (complete_wait i ec t)"
proof -
  assume st: "tracks s t"
  define u where "u = t\<lparr>pending := take i (pending t) @ drop (Suc i) (pending t)\<rparr>"
  have "tracks s u" using st by (simp add: u_def)
  then have "tracks s (death_handler n u)" "tracks s (completion_handler d n ec u)" for n d
    by (simp_all add: death_handler_def completion_handler_def tracks_to_inactive tracks_call)
  then show ?thesis using st by (simp add: complete_wait_def u_def Let_def split: wait_kind.split)
qed

text \<open>The callbacks that an event registers.\<close>

fun registered :: "event \<Rightarrow> nat multiset" where
  "registered (Wait_upload c) = {#c#}"
| "registered (Wait_download c) = {#c#}"
| "registered _ = {#}"

lemma wait_moves:
  "tally (wait_for_upload_completion c s) = add_mset c (tally s)"
  "\<exists>es. log (wait_for_upload_completion c s) = log s @ es \<and>
     moves (m_state s) es = Some (m_state (wait_for_upload_completion c s))"
  "tally (wait_for_download_completion c s) = add_mset c (tally s)"
  "\<exists>es. log (wait_for_download_completion c s) = log s @ es \<and>
     moves (m_state s) es = Some (m_state (wait_for_download_completion c s))"
proof -
  have *: "tracks s (wait_for_completion d s)" for d
    by (simp add: wait_for_completion_def add_completion_callback_def tracks_async_wait)
  have "tally (async_wait k s) = tally s" for k s
    by (simp add: async_wait_def tally_def split: option.split)
  then have t: "tally (wait_for_completion d s) = tally s" for d
    by (simp add: wait_for_completion_def add_completion_callback_def)
  show "tally (wait_for_upload_completion c s) = add_mset c (tally s)"
    "tally (wait_for_download_completion c s) = add_mset c (tally s)"
    using t[of upload] t[of download]
    by (auto simp: tally_def wait_for_upload_completion_def wait_for_download_completion_def Let_def)
  show "\<exists>es. log (wait_for_upload_completion c s) = log s @ es \<and>
     moves (m_state s) es = Some (m_state (wait_for_upload_completion c s))"
    "\<exists>es. log (wait_for_download_completion c s) = log s @ es \<and>
     moves (m_state s) es = Some (m_state (wait_for_download_completion c s))"
    using *[of upload] *[of download]
    by (auto simp: tracks_def wait_for_upload_completion_def wait_for_download_completion_def Let_def)
qed

lemma tracks_update_pass: "tracks s t \<Longrightarrow> tracks s (update_pass c t)"
  by (simp add: update_pass_def tracks_to_inactive tracks_emit)

lemma event_accounts:
  assumes "session_inv s"
  shows "(aborted (run_event env e s) \<or> tally (run_event env e s) = tally s + registered e) \<and>
    (\<exists>es. log (run_event env e s) = log s @ es \<and> moves (m_state s) es = Some (m_state (run_event env e s)))"
proof (cases "\<exists>c. e = Wait_upload c \<or> e = Wait_download c")
  case True
  then obtain c where "e = Wait_upload c \<or> e = Wait_download c" by blast
  then show ?thesis using wait_moves[of c s] by auto
next
  case False
  have "tracks s (run_event env e s)"
  proof (cases e)
    case (Update_configuration c)
    then show ?thesis by (simp add: update_configuration_def tracks_revive tracks_update_pass Let_def)
  next
    case (Notify v)
    then show ?thesis by (simp add: nonsync_transact_notify_def Let_def tracks_on_session split: session_state.split)
  next
    case Reconnect
    then show ?thesis by (simp add: handle_reconnect_def tracks_on_session tracks_emit split: session_state.split)
  next
    case (Connection st err)
    then show ?thesis
      by (simp add: connection_state_changed_def Let_def tracks_handle_error tracks_emit split: option.split)
  qed (use False assms in \<open>simp_all add: tracks_refresh tracks_revive log_out_def tracks_to_inactive tracks_close
    tracks_complete tracks_update_pass override_server_def tracks_on_session external_reference_def
    drop_external_reference_def did_drop_external_reference_def set_multiplex_identifier_def set_url_prefix_def
    handle_progress_update_def register_progress_notifier_def unregister_progress_notifier_def case_prod_beta
    tracks_emit Let_def\<close>)
  moreover have "registered e = {#}" using False by (cases e) auto
  ultimately show ?thesis by (simp add: tracks_def)
qed

subsection \<open>Runs with a resync under way\<close>

fun registered_by :: "action \<Rightarrow> nat multiset" where
  "registered_by (Event e) = registered e"
| "registered_by _ = {#}"

definition set_aside_in :: "resync_run \<Rightarrow> nat multiset" where
  "set_aside_in r = (case aside r of None \<Rightarrow> {#} | Some a \<Rightarrow> aside_callbacks a)"

text \<open>The callbacks that are queued, set aside, overwritten or called.\<close>

definition accounted :: "resync_run \<Rightarrow> nat multiset" where
  "accounted r = queued (the_session r) + set_aside_in r + overwritten r + called (log (the_session r))"

lemma action_inv: "session_inv (the_session r) \<Longrightarrow> session_inv (the_session (run_action env a r))"
  by (cases a) (simp_all add: inv_event inv_resync_steps case_prod_beta split: option.split)

lemma action_accounts:
  assumes "session_inv (the_session r)" "r' = run_action env a r"
  shows "(aborted (the_session r') \<or> accounted r' = accounted r + registered_by a) \<and>
    (\<exists>es. log (the_session r') = log (the_session r) @ es \<and>
      moves (m_state (the_session r)) es = Some (m_state (the_session r')))"
proof (cases a)
  case (Event e)
  then show ?thesis using event_accounts[OF assms(1), of env e] assms(2)
    by (auto simp: accounted_def set_aside_in_def tally_queued ac_simps)
next
  case (Begin_resync e)
  obtain b u where b: "resync_begin (the_session r) = (b, u)" by fastforce
  show ?thesis using resync_begin_accounts[of "the_session r"] assms(2) Begin_resync b
    by (auto simp: accounted_def set_aside_in_def aside_callbacks_def queued_def)
next
  case End_resync
  show ?thesis
  proof (cases "aside r")
    case (Some b)
    then show ?thesis using resync_end_accounts[of b "the_session r"] assms(2) End_resync
      by (auto simp: accounted_def set_aside_in_def tally_queued ac_simps)
  qed (use assms(2) End_resync in simp)
qed

lemma run_actions_accounts:
  assumes "session_inv (the_session r)"
  shows "\<not> aborted (the_session (run_actions env as r)) \<Longrightarrow>
      accounted (run_actions env as r) = accounted r + (\<Sum>a\<leftarrow>as. registered_by a)"
    "\<exists>es. log (the_session (run_actions env as r)) = log (the_session r) @ es \<and>
      moves (m_state (the_session r)) es = Some (m_state (the_session (run_actions env as r)))"
proof -
  have "(\<not> aborted (the_session (run_actions env as r)) \<longrightarrow>
      accounted (run_actions env as r) = accounted r + (\<Sum>a\<leftarrow>as. registered_by a)) \<and>
    (\<exists>es. log (the_session (run_actions env as r)) = log (the_session r) @ es \<and>
      moves (m_state (the_session r)) es = Some (m_state (the_session (run_actions env as r))))"
    using assms
  proof (induction as arbitrary: r)
    case (Cons a as)
    show ?case
    proof (cases "aborted (the_session r)")
      case False
      note one = action_accounts[OF Cons.prems refl, of env a]
      note later = Cons.IH[OF action_inv[OF Cons.prems], of env a]
      have "\<not> aborted (the_session (run_action env a r))"
        if "\<not> aborted (the_session (run_actions env as (run_action env a r)))"
        using that later aborted_later by blast
      with one later False show ?thesis by (auto simp: moves_append ac_simps)
    qed simp
  qed simp
  then show "\<not> aborted (the_session (run_actions env as r)) \<Longrightarrow>
      accounted (run_actions env as r) = accounted r + (\<Sum>a\<leftarrow>as. registered_by a)"
    "\<exists>es. log (the_session (run_actions env as r)) = log (the_session r) @ es \<and>
      moves (m_state (the_session r)) es = Some (m_state (the_session (run_actions env as r)))" by blast+
qed

end
