(* ===== verification/Sync_Session_Props.thy ===== *)
theory Sync_Session_Props
  imports Sync_Session_Moves
begin

text \<open>
  What a session guarantees, over every sequence of events, and two histories in which callbacks
  get an answer that is not theirs.
\<close>

subsection \<open>The underlying session\<close>

text \<open>
  C12. Whatever happens to a session, in whatever order: no call goes to an absent or to an unbound
  underlying session, none is bound twice, an inactive session has none and an active or dying one
  has one that is bound.
\<close>

theorem session_calls_safe:
  assumes "reachable env s"
  shows "calls_ok {} (log s) \<and> (m_state s = Inactive \<longrightarrow> m_session s = None) \<and>
    (m_state s \<in> {Active, Dying} \<longrightarrow> m_session s \<noteq> None \<and> m_session_has_been_bound s)"
  using reachable_session_inv[OF assms] by (auto simp: session_inv_def core_def live_def)

text \<open>An environment and a configuration to run sessions in.\<close>

definition sample_env :: sync_env where
  "sample_env = \<lparr>default_config = \<lparr>changeset_cooker = 0, encryption_key = None,
       verify_servers_ssl_certificate = True, sc_ssl_trust_certificate_path = None, sc_ssl_verify_callback = 0,
       sc_proxy_config = None, multiplex_ident = [], sc_authorization_header_name = ''Authorization'',
       sc_custom_http_headers = [], sc_url_prefix = ''/realm-sync'', client_reset_config = None\<rparr>,
     recovery_file_path = (\<lambda>d. ''/recovered''), realm_url = reference_realm_url\<rparr>"

definition sample_config :: sync_config where
  "sample_config = \<lparr>user = Some 7, reference_realm_url = ''realm://host/r'', stop_policy = AfterChangesUploaded,
     error_handler = True, transformer = 0, realm_encryption_key = None, client_validate_ssl = True,
     ssl_trust_certificate_path = None, ssl_verify_callback = 0, proxy_config = None, is_partial = False,
     authorization_header_name = None, custom_http_headers = [], url_prefix = None, recovery_directory = None,
     client_resync_mode = Manual\<rparr>"

definition run :: "event list \<Rightarrow> sync_session" where
  "run es = fold (run_event sample_env) es (new_sync_session ''/r.realm'' sample_config False)"

text \<open>A run is reachable when it did not abort, since what is logged stays logged.\<close>

lemma reachable_fold:
  "\<not> aborted (fold (run_event env) es s) \<Longrightarrow> reachable env s \<Longrightarrow> reachable env (fold (run_event env) es s)"
proof (induction es rule: rev_induct)
  case (snoc e es)
  let ?t = "fold (run_event env) es s"
  have "session_inv (fold (run_event env) es s)"
    using reachable_session_inv[OF snoc.prems(2)] by (induction es arbitrary: s) (simp_all add: inv_event)
  then have "\<not> aborted ?t" using snoc.prems(1) event_accounts[of ?t env e] aborted_later by fastforce
  then show ?case using snoc reachable.event by simp
qed simp

lemma reachable_run: "\<not> aborted (run es) \<Longrightarrow> reachable sample_env (run es)"
  unfolding run_def by (rule reachable_fold) (simp_all add: reachable.created)

lemmas run_defs = run_def sample_env_def sample_config_def new_sync_session_def

definition activate :: "event list" where
  "activate = [Revive, Refresh_access_token ''token'' (Some ''realm://host/r'')]"

lemma session_calls_safe_witness:
  "calls_ok {} (log (run (activate @ [Notify 3, Close]))) \<and> m_state (run (activate @ [Notify 3, Close])) = Dying \<and>
    m_session (run (activate @ [Notify 3, Close])) = Some 0"
proof -
  have "\<not> aborted (run (activate @ [Notify 3, Close]))"
    "m_state (run (activate @ [Notify 3, Close])) = Dying" "m_session (run (activate @ [Notify 3, Close])) = Some 0"
    by code_simp+
  then show ?thesis using session_calls_safe[OF reachable_run, of "activate @ [Notify 3, Close]"] by simp
qed


text \<open>
  Late errors. The listener of an underlying session outlives it, and \<open>handle_error\<close> does not look at
  the state before it makes the session inactive: an error that is reported for a file after the
  session went inactive breaks the assertion of \<open>advance_state\<close>.
\<close>

definition file_error :: "event" where
  "file_error = Connection Disconnected (Some \<lparr>error_code = Protocol_error PE_bad_client_file, message = [],
     is_fatal = True, user_info = [], is_unrecognized_by_client = False\<rparr>)"

lemma late_error_aborts:
  "reachable sample_env (run (activate @ [Log_out]))" "aborted (run (activate @ [Log_out, file_error]))"
proof -
  have "\<not> aborted (run (activate @ [Log_out]))" by code_simp
  then show "reachable sample_env (run (activate @ [Log_out]))" by (rule reachable_run)
  show "aborted (run (activate @ [Log_out, file_error]))" by code_simp
qed

lemma inactive_error_aborts:
  assumes "m_state s = Inactive" "error_code e \<in> Protocol_error ` (insert PE_permission_denied file_errors)"
    "\<not> resync_requested e s"
  shows "aborted (handle_error env e s)"
proof -
  from assms(2) obtain pe where pe: "error_code e = Protocol_error pe" "pe \<in> insert PE_permission_denied file_errors"
    by blast
  then have "pe \<noteq> PE_token_expired" "pe \<noteq> PE_bad_authentication" "pe \<notin> unreported_protocol_errors"
    by (auto simp: file_errors_def unreported_protocol_errors_def)
  with pe assms(1,3) show ?thesis
    by (auto simp: handle_error_def error_step_def protocol_error_step_def update_error_and_mark_file_def
      advance_state_def aborted_def emit_def Let_def)
qed

subsection \<open>Completion callbacks\<close>

text \<open>
  Whether callbacks are registered only while no client resync is between its two steps.
\<close>

fun registers_outside :: "sync_env \<Rightarrow> action list \<Rightarrow> resync_run \<Rightarrow> bool" where
  "registers_outside env [] r = True"
| "registers_outside env (a # as) r =
     ((aside r = None \<or> registered_by a = {#}) \<and> registers_outside env as (run_action env a r))"

lemma action_keeps_queue_empty:
  assumes "session_inv (the_session r)" "aside r = None \<or> registered_by a = {#} \<and> queued (the_session r) = {#}"
    and "\<not> aborted (the_session (run_action env a r))"
  shows "overwritten (run_action env a r) = overwritten r \<and>
    (aside (run_action env a r) = None \<or> queued (the_session (run_action env a r)) = {#})"
proof (cases a)
  case (Event e)
  let ?t = "run_event env e (the_session r)"
  have t: "tally ?t = tally (the_session r) + registered e" "\<exists>es. log ?t = log (the_session r) @ es"
    using event_accounts[OF assms(1), of env e] assms(3) Event by auto
  have "queued ?t = {#}" if "registered e = {#}" "queued (the_session r) = {#}"
    using t that by (auto simp: tally_queued)
  then show ?thesis using assms(2) Event by auto
next
  case (Begin_resync e)
  then show ?thesis using assms(2) resync_begin_accounts(2)[of "the_session r"] by (simp add: case_prod_beta)
next
  case End_resync
  then show ?thesis using assms(2) by (auto split: option.split)
qed

lemma overwritten_nothing:
  assumes "session_inv (the_session r)" "aside r = None \<or> queued (the_session r) = {#}"
    and "registers_outside env as r" "\<not> aborted (the_session (run_actions env as r))"
  shows "overwritten (run_actions env as r) = overwritten r"
  using assms
proof (induction as arbitrary: r)
  case (Cons a as)
  show ?case
  proof (cases "aborted (the_session r)")
    case False
    let ?r = "run_action env a r"
    have inv: "session_inv (the_session ?r)" using Cons.prems(1) by (rule action_inv)
    have "\<not> aborted (the_session ?r)"
      using Cons.prems(4) False run_actions_accounts(2)[OF inv, of env as] aborted_later by auto
    then show ?thesis
      using action_keeps_queue_empty[OF Cons.prems(1), of a env] Cons.IH[OF inv] Cons.prems(2,3,4) False by auto
  qed (use Cons.prems in simp)
qed simp

text \<open>
  C13. Over any sequence of events and of steps of client resyncs that breaks no assertion, every
  registered completion callback is accounted for once: it is queued, set aside by the resync under way,
  was called, or was queued when a resync wrote its lists back, which loses it. Nothing is lost when no
  callback is registered while a resync is between its two steps.
\<close>

theorem callbacks_conserved:
  assumes "r = run_actions env as (new_resync_run path config b)" "\<not> aborted (the_session r)"
  shows "mset (m_download_completion_callbacks (the_session r)) + mset (m_upload_completion_callbacks (the_session r)) +
      (case aside r of None \<Rightarrow> {#} | Some (downloads, uploads) \<Rightarrow> mset downloads + mset uploads) +
      called (log (the_session r)) + overwritten r = (\<Sum>a\<leftarrow>as. registered_by a) \<and>
    (registers_outside env as (new_resync_run path config b) \<longrightarrow> overwritten r = {#})"
proof -
  let ?r0 = "new_resync_run path config b"
  have r0: "session_inv (the_session ?r0)" "aside ?r0 = None" "overwritten ?r0 = {#}" "accounted ?r0 = {#}"
    by (simp_all add: new_resync_run_def inv_new accounted_def set_aside_in_def) (simp add: new_sync_session_def queued_def)
  have "accounted r = (\<Sum>a\<leftarrow>as. registered_by a)"
    using run_actions_accounts(1)[OF r0(1), of env as] assms r0(4) by simp
  then show ?thesis
    using overwritten_nothing[OF r0(1), of env as] assms r0(2,3)
    by (auto simp: accounted_def set_aside_in_def aside_callbacks_def queued_def ac_simps split: option.splits)
qed

definition resync_config :: sync_config where
  "resync_config = sample_config\<lparr>client_resync_mode := DiscardLocal\<rparr>"

definition reset_error :: sync_error where
  "reset_error = \<lparr>error_code = Protocol_error PE_diverging_histories, message = [], is_fatal = True,
     user_info = [], is_unrecognized_by_client = False\<rparr>"

definition resync_sample :: "action list \<Rightarrow> resync_run" where
  "resync_sample as = run_actions sample_env as (new_resync_run ''/r.realm'' resync_config False)"

text \<open>A callback registered during the resync is lost.\<close>

definition overwriting :: "action list" where
  "overwriting = map Event (Wait_download 6 # activate) @ [Begin_resync reset_error, Event (Wait_download 8), End_resync]"

lemma callbacks_conserved_witness:
  "queued (the_session (resync_sample overwriting)) + called (log (the_session (resync_sample overwriting))) +
     overwritten (resync_sample overwriting) = {#6, 8#}"
proof -
  have a: "\<not> aborted (the_session (resync_sample overwriting))" "aside (resync_sample overwriting) = None"
    by code_simp+
  show ?thesis
    using callbacks_conserved[OF resync_sample_def a(1)] a(2) by (simp add: queued_def overwriting_def activate_def)
qed

lemma resync_overwrites_callback:
  "let r = resync_sample overwriting in
     \<not> aborted (the_session r) \<and> aside r = None \<and> m_download_completion_callbacks (the_session r) = [6] \<and>
     m_upload_completion_callbacks (the_session r) = [] \<and> called (log (the_session r)) = {#}"
proof -
  have "\<not> aborted (the_session (resync_sample overwriting))" "aside (resync_sample overwriting) = None"
    "m_download_completion_callbacks (the_session (resync_sample overwriting)) = [6]"
    "m_upload_completion_callbacks (the_session (resync_sample overwriting)) = []"
    "called (log (the_session (resync_sample overwriting))) = {#}"
    by code_simp+
  then show ?thesis by (simp add: Let_def)
qed

text \<open>
  A session that another thread revives and binds during the resync is active when the lists are
  written back, and nothing registers a wait for the callbacks any more.
\<close>

definition stranding :: "action list" where
  "stranding = map Event (Wait_download 6 # activate) @ [Begin_resync reset_error] @ map Event activate @ [End_resync]"

lemma resync_strands_callback:
  "let s = the_session (resync_sample stranding) in
     \<not> aborted s \<and> m_state s = Active \<and> m_session s = Some 1 \<and> m_client_resync_counter s = 1 \<and>
     m_download_completion_callbacks s = [6] \<and>
     pending s = [\<lparr>wait_session = 0, wait_kind = Completion download 0\<rparr>]"
proof -
  have "\<not> aborted (the_session (resync_sample stranding))" "m_state (the_session (resync_sample stranding)) = Active"
    "m_session (the_session (resync_sample stranding)) = Some 1"
    "m_client_resync_counter (the_session (resync_sample stranding)) = 1"
    "m_download_completion_callbacks (the_session (resync_sample stranding)) = [6]"
    "pending (the_session (resync_sample stranding)) = [\<lparr>wait_session = 0, wait_kind = Completion download 0\<rparr>]"
    by code_simp+
  then show ?thesis by (simp add: Let_def)
qed

text \<open>
  C14. Nobody waits for nothing: in an active or a dying session, callbacks that are queued have a
  handler pending on the underlying session of the moment, and when it runs it calls all of them
  in order, with its result, and empties the queue.
\<close>

theorem no_stranded_callbacks:
  assumes "reachable env s" "m_state s \<in> {Active, Dying}" "callbacks d s \<noteq> []"
  shows "\<exists>i < length (pending s). m_session s = Some (wait_session (pending s ! i)) \<and>
    callbacks d (complete_wait i ec s) = [] \<and>
    log (complete_wait i ec s) = log s @ map (\<lambda>c. Completion_callback c ec) (callbacks d s)"
proof -
  have "has_wait (Completion d (m_client_resync_counter s)) s"
    using reachable_waits[OF assms(1)] assms(2,3) by (auto simp: waits_ok_def covered_def)
  then obtain i where i: "i < length (pending s)" "m_session s = Some (wait_session (pending s ! i))"
      "wait_kind (pending s ! i) = Completion d (m_client_resync_counter s)"
    by (auto simp: has_wait_def in_set_conv_nth)
  have "callbacks d (complete_wait i ec s) = []"
    "log (complete_wait i ec s) = log s @ map (\<lambda>c. Completion_callback c ec) (callbacks d s)"
    using i by (cases d; simp add: complete_wait_def completion_handler_def callbacks_def Let_def)+
  with i show ?thesis by blast
qed

lemma no_stranded_callbacks_witness:
  "\<exists>i < length (pending (run (Wait_download 5 # activate))).
     callbacks download (complete_wait i Completed (run (Wait_download 5 # activate))) = []"
proof -
  have "\<not> aborted (run (Wait_download 5 # activate))" "m_state (run (Wait_download 5 # activate)) = Active"
    "callbacks download (run (Wait_download 5 # activate)) = [5]"
    by code_simp+
  then show ?thesis
    using no_stranded_callbacks[OF reachable_run, of "Wait_download 5 # activate" download Completed] by auto
qed

text \<open>
  C15. A dying session ends: the handler of its present death is pending, and makes it inactive; a
  handler left from an earlier death changes nothing.
\<close>

theorem dying_session_ends:
  assumes "reachable env s" "m_state s = Dying"
  shows "(\<exists>i < length (pending s). m_session s = Some (wait_session (pending s ! i)) \<and>
      m_state (complete_wait i ec s) = Inactive) \<and>
    (\<forall>i n. i < length (pending s) \<and> wait_kind (pending s ! i) = Death n \<and> n \<noteq> m_death_count s \<longrightarrow>
      complete_wait i ec s = s\<lparr>pending := take i (pending s) @ drop (Suc i) (pending s)\<rparr>)"
proof
  have "has_wait (Death (m_death_count s)) s"
    using reachable_waits[OF assms(1)] assms(2) by (auto simp: waits_ok_def)
  then obtain i where i: "i < length (pending s)" "m_session s = Some (wait_session (pending s ! i))"
      "wait_kind (pending s ! i) = Death (m_death_count s)"
    by (auto simp: has_wait_def in_set_conv_nth)
  then have "m_state (complete_wait i ec s) = Inactive"
    using assms(2) by (simp add: complete_wait_def death_handler_def advance_state_m_state Let_def)
  with i show "\<exists>i < length (pending s). m_session s = Some (wait_session (pending s ! i)) \<and>
      m_state (complete_wait i ec s) = Inactive" by blast
qed (simp add: complete_wait_def death_handler_def Let_def)

lemma dying_session_ends_witness:
  "\<exists>i < length (pending (run (activate @ [Close, Revive, Close]))).
     m_state (complete_wait i Completed (run (activate @ [Close, Revive, Close]))) = Inactive"
proof -
  have "\<not> aborted (run (activate @ [Close, Revive, Close]))" "m_state (run (activate @ [Close, Revive, Close])) = Dying"
    by code_simp+
  then show ?thesis
    using dying_session_ends[OF reachable_run, of "activate @ [Close, Revive, Close]" Completed] by blast
qed

text \<open>
  The handler of a session that is gone answers for a later one. A callback registered before
  a log-out leaves a wait that the destroyed session cancels; when that cancellation arrives
  after the session was revived, the callback registered since then is told that it was aborted,
  although the session it waits on is active and its own wait is still pending.
\<close>

lemma stale_wait_aborts_new_callback:
  "let s = run (activate @ [Wait_download 1, Log_out] @ activate @ [Wait_download 2]);
       t = complete_wait 0 Operation_aborted s
   in reachable sample_env t \<and> m_state t = Active \<and> m_session t = Some 1 \<and>
     pending t = [\<lparr>wait_session = 1, wait_kind = Completion download 0\<rparr>] \<and>
     log t = log s @ [Completion_callback 2 Operation_aborted]"
proof -
  define s where "s = run (activate @ [Wait_download 1, Log_out] @ activate @ [Wait_download 2])"
  have "\<not> aborted s" unfolding s_def by code_simp
  then have "reachable sample_env (run_event sample_env (Complete 0 Operation_aborted) s)"
    unfolding s_def by (intro reachable.event reachable_run)
  then have "reachable sample_env (complete_wait 0 Operation_aborted s)" by simp
  moreover have "m_state (complete_wait 0 Operation_aborted s) = Active"
    "m_session (complete_wait 0 Operation_aborted s) = Some 1"
    "pending (complete_wait 0 Operation_aborted s) = [\<lparr>wait_session = 1, wait_kind = Completion download 0\<rparr>]"
    "log (complete_wait 0 Operation_aborted s) = log s @ [Completion_callback 2 Operation_aborted]"
    unfolding s_def by code_simp+
  ultimately show ?thesis unfolding s_def[symmetric] Let_def by blast
qed

subsection \<open>Errors\<close>

definition silent_errors :: "error_code set" where
  "silent_errors = Protocol_error ` unreported_protocol_errors \<union> Client_error ` {CE_connection_closed, CE_pong_timeout}"

definition marking_errors :: "error_code set" where
  "marking_errors = Protocol_error ` (insert PE_permission_denied file_errors)"

lemma enter_inactive_lists [simp]:
  "callbacks d (enter_inactive s) = []"
  by (simp add: callbacks_def enter_inactive_def unregister_def Let_def)

lemma to_inactive [simp]:
  "m_state (advance_state Inactive s) = Inactive" "m_config (advance_state Inactive s) = m_config s"
  "m_state s \<noteq> Inactive \<Longrightarrow> callbacks d (advance_state Inactive s) = []"
  "m_state s \<noteq> Inactive \<Longrightarrow> aborted (advance_state Inactive s) = aborted s"
  by (simp_all add: advance_state_def) (auto simp: enter_inactive_def unregister_def aborted_def list_ex_iff Let_def)

lemma aborted_fields [simp]:
  "e \<noteq> Assertion_failed \<Longrightarrow> aborted (emit e s) = aborted s" "aborted (s\<lparr>m_session := x\<rparr>) = aborted s"
  "aborted (cancel_pending_waits s) = aborted s"
  "aborted (snd (update_error_and_mark_file env b er s)) = aborted s"
  by (auto simp: aborted_def cancel_pending_waits_def update_error_and_mark_file_def list_ex_iff Let_def)

lemma cancel_fields [simp]:
  "m_state (cancel_pending_waits s) = m_state s" "callbacks d (cancel_pending_waits s) = []"
  "m_config (cancel_pending_waits s) = m_config s"
  by (simp_all add: cancel_pending_waits_def callbacks_def)

lemma mark_fields [simp]:
  "m_state (snd (update_error_and_mark_file env b e s)) = m_state s"
  "m_config (snd (update_error_and_mark_file env b e s)) = m_config s"
  "error_code (fst (update_error_and_mark_file env b e s)) = error_code e"
  "message (fst (update_error_and_mark_file env b e s)) = message e"
  by (simp_all add: update_error_and_mark_file_def Let_def)

text \<open>
  What an error does to a session that is neither dying nor inactive, when no client resync is due and an
  error handler is set: errors that the user is not told of change nothing; an expired token
  leads to a new one being asked for; any other error is the last thing reported, with its code
  and message, and makes the session inactive exactly when it marks the file; the waiting
  callbacks are dropped from the queue exactly when the error is fatal, marks the file or says
  that authentication failed.
\<close>

lemma handle_error_outcome:
  assumes "m_state s \<noteq> Dying" "m_state s \<noteq> Inactive" "\<not> resync_requested e s" "error_handler (m_config s)"
    "\<not> aborted s"
  shows "(error_code e \<in> silent_errors \<longrightarrow> handle_error env e s = s) \<and>
    (error_code e = Protocol_error PE_token_expired \<longrightarrow> handle_error env e s = access_token_expired s) \<and>
    (error_code e \<notin> silent_errors \<union> {Protocol_error PE_token_expired} \<longrightarrow>
      (\<exists>e'. last (log (handle_error env e s)) = Report_error e' \<and> error_code e' = error_code e \<and> message e' = message e) \<and>
      m_state (handle_error env e s) = (if error_code e \<in> marking_errors then Inactive else m_state s) \<and>
      callbacks d (handle_error env e s) =
        (if is_fatal e \<or> error_code e \<in> insert (Protocol_error PE_bad_authentication) marking_errors then []
         else callbacks d s))"
proof (cases "error_code e")
  case (Protocol_error pe)
  have "pe \<noteq> PE_token_expired" "pe \<noteq> PE_bad_authentication" "pe \<notin> unreported_protocol_errors"
    if "pe = PE_permission_denied \<or> pe \<in> file_errors"
    using that by (auto simp: file_errors_def unreported_protocol_errors_def)
  moreover have "PE_token_expired \<notin> unreported_protocol_errors" "PE_bad_authentication \<notin> unreported_protocol_errors"
    by (simp_all add: unreported_protocol_errors_def)
  ultimately show ?thesis
    using assms Protocol_error
    by (cases "pe \<in> unreported_protocol_errors"; cases "pe = PE_token_expired"; cases "pe = PE_bad_authentication";
        cases "pe = PE_permission_denied"; cases "pe \<in> file_errors")
      (auto simp: handle_error_def error_step_def protocol_error_step_def silent_errors_def marking_errors_def
        Let_def case_prod_beta split: option.split)
qed (use assms in \<open>auto simp: handle_error_def error_step_def silent_errors_def marking_errors_def Let_def\<close>)

lemma handle_error_outcome_witness:
  "m_state (handle_error sample_env \<lparr>error_code = Protocol_error PE_server_file_deleted, message = ''gone'',
     is_fatal = True, user_info = [], is_unrecognized_by_client = False\<rparr> (run (Wait_upload 4 # activate))) = Inactive"
proof -
  have "m_state (run (Wait_upload 4 # activate)) = Active" "\<not> aborted (run (Wait_upload 4 # activate))" "error_handler (m_config (run (Wait_upload 4 # activate)))"
    "client_resync_mode (m_config (run (Wait_upload 4 # activate))) = Manual"
    by code_simp+
  then show ?thesis
    using handle_error_outcome[of "run (Wait_upload 4 # activate)" "\<lparr>error_code = Protocol_error PE_server_file_deleted,
      message = ''gone'', is_fatal = True, user_info = [], is_unrecognized_by_client = False\<rparr>" sample_env]
    by (simp add: resync_requested_def silent_errors_def marking_errors_def unreported_protocol_errors_def file_errors_def)
qed

text \<open>
  C6. A client resync of a session that is neither dying nor inactive, with nothing happening in between
  its two steps, keeps whoever waits: the session asks for a token again, with the same
  callbacks queued and none called, without an underlying session; the next one it makes is
  configured for the reset, with recovery exactly in mode \<open>Recover\<close>; and the waits of the old
  session, whose counters are not above the old one, no longer touch the callbacks.
\<close>

theorem resync_keeps_callbacks:
  assumes "m_state s \<notin> {Dying, Inactive}" "\<not> aborted s"
    and "is_client_reset_requested e" "client_resync_mode (m_config s) \<noteq> Manual"
  shows "let t = handle_error env e s in
    m_state t = WaitingForAccessToken \<and> callbacks d t = callbacks d s \<and> called (log t) = called (log s) \<and>
    m_session t = None \<and> \<not> aborted t \<and> last (log t) = Ask_for_token \<and>
    client_reset_config (make_session_config defaults t) =
      Some (m_realm_path s @ ''.resync'', client_resync_mode (m_config s) = Recover) \<and>
    (\<forall>i d' n. i < length (pending t) \<and> wait_kind (pending t ! i) = Completion d' n \<and> n \<le> m_client_resync_counter s \<longrightarrow>
      complete_wait i ec t = t\<lparr>pending := take i (pending t) @ drop (Suc i) (pending t)\<rparr>)"
proof -
  define t where "t = handle_error env e s"
  define u where "u = s\<lparr>m_force_client_resync := True, m_client_resync_counter := m_client_resync_counter s + 1,
    m_download_completion_callbacks := [], m_upload_completion_callbacks := []\<rparr>"
  define w where "w = advance_state Inactive u"
  define v where "v = w\<lparr>m_download_completion_callbacks := m_download_completion_callbacks s,
    m_upload_completion_callbacks := m_upload_completion_callbacks s\<rparr>"
  have b: "resync_begin s = ((m_download_completion_callbacks s, m_upload_completion_callbacks s), w)"
    by (simp add: resync_begin_def u_def w_def Let_def)
  have "\<not> aborted u" "m_state u \<noteq> Inactive" using assms(1,2) by (simp_all add: u_def aborted_def)
  then have w: "\<not> aborted w" by (simp add: w_def)
  then have v: "\<not> aborted v" "m_state v = Inactive" "m_session v = None" "m_force_client_resync v"
    "m_realm_path v = m_realm_path s" "m_config v = m_config s"
    "m_client_resync_counter v = Suc (m_client_resync_counter s)"
    "called (log v) = called (log s)" "callbacks d v = callbacks d s"
    using advance_without_callbacks(1)[of u] assms(1)
    by (simp_all add: v_def aborted_def) (simp_all add: w_def u_def callbacks_def advance_state_def enter_inactive_def
      unregister_def emit_def emits_def Let_def)
  have "t = resync_end (m_download_completion_callbacks s, m_upload_completion_callbacks s) w"
    using assms w b by (simp add: t_def handle_error_def client_resync_def resync_requested_def)
  then have "t = revive_if_needed v" by (simp add: resync_end_def v_def)
  then have "t = emit Ask_for_token (advance_state WaitingForAccessToken v)"
    by (simp add: revive_if_needed_def revive_state_def v(2))
  then have t: "m_state t = WaitingForAccessToken" "m_session t = None" "m_force_client_resync t"
    "m_realm_path t = m_realm_path s" "m_config t = m_config s" "\<not> aborted t" "last (log t) = Ask_for_token"
    "m_client_resync_counter t = Suc (m_client_resync_counter s)"
    "called (log t) = called (log s)" "callbacks d t = callbacks d s"
    using v by (simp_all add: advance_state_def enter_waiting_def callbacks_def aborted_def emit_def) (cases d; simp)
  have "complete_wait i ec t = t\<lparr>pending := take i (pending t) @ drop (Suc i) (pending t)\<rparr>"
    if "i < length (pending t)" "wait_kind (pending t ! i) = Completion d' n" "n \<le> m_client_resync_counter s" for i d' n
    using that by (simp add: complete_wait_def completion_handler_def t(8) Let_def)
  moreover have "client_reset_config (make_session_config defaults t) =
      Some (m_realm_path s @ ''.resync'', client_resync_mode (m_config s) = Recover)"
    by (simp add: make_session_config_def Let_def t)
  ultimately show ?thesis unfolding t_def[symmetric] Let_def using t by blast
qed

lemma resync_keeps_callbacks_witness:
  "callbacks download (handle_error sample_env reset_error
     (run ([Update_configuration resync_config, Wait_download 6] @ activate))) = [6]"
proof -
  let ?s = "run ([Update_configuration resync_config, Wait_download 6] @ activate)"
  have "m_state ?s = Active" "\<not> aborted ?s" "client_resync_mode (m_config ?s) = DiscardLocal"
    "callbacks download ?s = [6]"
    by code_simp+
  then show ?thesis
    using resync_keeps_callbacks[where s = ?s and e = reset_error and d = download and env = sample_env]
    by (simp add: is_client_reset_requested_def reset_error_def Let_def)
qed

end
