(* ===== verification/Deep_Check.thy ===== *)
theory Deep_Check
  imports Change_Builder
begin

text \<open>
  \<open>DeepChangeChecker\<close> and \<open>CollectionNotifier::get_modification_checker\<close>
  (\<open>impl/collection_notifier.cpp\<close>): whether a row of a table changed, or a row that it links to,
  up to a limited depth.

  The tables of a group are outside the sources; \<open>table_graph\<close> is what the code asks them, by
  the index of the table in its group.
\<close>

subsection \<open>The tables that a table links to\<close>

datatype column_type = Type_Link | Type_LinkList | Type_Other

record table_graph =
  get_column_count :: "nat \<Rightarrow> nat"
  get_column_type :: "nat \<Rightarrow> nat \<Rightarrow> column_type"
  get_link_target :: "nat \<Rightarrow> nat \<Rightarrow> nat"
  get_link :: "nat \<Rightarrow> nat \<Rightarrow> nat \<Rightarrow> nat option"
  get_linklist :: "nat \<Rightarrow> nat \<Rightarrow> nat \<Rightarrow> nat list"

record outgoing_link =
  col_ndx :: nat
  is_list :: bool

record related_table =
  table_ndx :: nat
  links :: "outgoing_link list"

text \<open>
  The recursion ends when every table has been met; the model counts its depth. The loop over the
  columns adds each link to the entry at \<open>out_index\<close> before it goes on.
\<close>

fun find_related_tables :: "table_graph \<Rightarrow> nat \<Rightarrow> nat \<Rightarrow> related_table list \<Rightarrow> related_table list option"
  and related_columns ::
    "table_graph \<Rightarrow> nat \<Rightarrow> nat \<Rightarrow> nat \<Rightarrow> nat list \<Rightarrow> related_table list \<Rightarrow> related_table list option" where
  "find_related_tables g 0 table out = None"
| "find_related_tables g (Suc n) table out =
     (if table = npos then Some out
      else if list_ex (\<lambda>tbl. table_ndx tbl = table) out then Some out
      else related_columns g n table (length out) [0 ..< get_column_count g table]
        (out @ [\<lparr>table_ndx = table, links = []\<rparr>]))"
| "related_columns g n table out_index [] out = Some out"
| "related_columns g n table out_index (i # cols) out =
     (let type = get_column_type g table i in
      if type = Type_Link \<or> type = Type_LinkList then
        case find_related_tables g n (get_link_target g table i)
            (out[out_index := (out ! out_index)
               \<lparr>links := links (out ! out_index) @ [\<lparr>col_ndx = i, is_list = (type = Type_LinkList)\<rparr>]\<rparr>]) of
          Some out \<Rightarrow> related_columns g n table out_index cols out
        | None \<Rightarrow> None
      else related_columns g n table out_index cols out)"

subsection \<open>The checker\<close>

record path =
  path_table :: nat
  path_row :: nat
  path_col :: nat
  depth_exceeded :: bool

record checker =
  m_not_modified :: "crv list"
  m_current_path :: "path list"

record change_info =
  info_tables :: "change_builder list"
  schema_changed :: bool

definition max_depth :: nat where
  "max_depth = 4"

definition path_matches :: "nat \<Rightarrow> nat \<Rightarrow> nat \<Rightarrow> path \<Rightarrow> bool" where
  "path_matches table row col p \<longleftrightarrow> path_table p = table \<and> path_row p = row \<and> path_col p = col"

definition exceed_from :: "nat \<Rightarrow> nat \<Rightarrow> path list \<Rightarrow> path list" where
  "exceed_from i j ps = take i ps @ map (\<lambda>p. p\<lparr>depth_exceeded := True\<rparr>) (take (j - i) (drop i ps)) @ drop j ps"

definition already_checking :: "nat \<Rightarrow> nat \<Rightarrow> nat \<Rightarrow> nat \<Rightarrow> checker \<Rightarrow> bool \<times> checker" where
  "already_checking table row depth col s =
     (let match = find_if (path_matches table row col) (take depth (m_current_path s)) in
      if match \<noteq> length (take depth (m_current_path s))
      then (True, s\<lparr>m_current_path := exceed_from match depth (m_current_path s)\<rparr>)
      else (False, s\<lparr>m_current_path := (m_current_path s)[depth :=
        \<lparr>path_table = table, path_row = row, path_col = col, depth_exceeded = False\<rparr>]\<rparr>))"

text \<open>\<open>check\<close> stands for \<open>check_row\<close> one level deeper.\<close>

fun check_list :: "(nat \<Rightarrow> checker \<Rightarrow> bool \<times> checker) \<Rightarrow> nat list \<Rightarrow> checker \<Rightarrow> bool \<times> checker" where
  "check_list check [] s = (False, s)"
| "check_list check (dst # dsts) s =
     (let (changed, s) = check dst s in if changed then (True, s) else check_list check dsts s)"

definition linked_object_changed ::
  "table_graph \<Rightarrow> (nat \<Rightarrow> nat \<Rightarrow> checker \<Rightarrow> bool \<times> checker) \<Rightarrow> nat \<Rightarrow> nat \<Rightarrow> nat \<Rightarrow> outgoing_link \<Rightarrow> checker \<Rightarrow>
     bool \<times> checker" where
  "linked_object_changed g check table row depth link s =
     (let (already, s) = already_checking table row depth (col_ndx link) s;
          target = get_link_target g table (col_ndx link)
      in if already then (False, s)
         else if \<not> is_list link then
           case get_link g table (col_ndx link) row of
             None \<Rightarrow> (False, s)
           | Some dst \<Rightarrow> check target dst s
         else check_list (check target) (get_linklist g table (col_ndx link) row) s)"

fun any_link :: "(outgoing_link \<Rightarrow> checker \<Rightarrow> bool \<times> checker) \<Rightarrow> outgoing_link list \<Rightarrow> checker \<Rightarrow> bool \<times> checker" where
  "any_link changed [] s = (False, s)"
| "any_link changed (link # ls) s =
     (let (ret, s) = changed link s in if ret then (True, s) else any_link changed ls s)"

definition check_outgoing_links ::
  "table_graph \<Rightarrow> related_table list \<Rightarrow> (nat \<Rightarrow> nat \<Rightarrow> checker \<Rightarrow> bool \<times> checker) \<Rightarrow> nat \<Rightarrow> nat \<Rightarrow> nat \<Rightarrow> checker \<Rightarrow>
     bool \<times> checker" where
  "check_outgoing_links g related check table row depth s =
     (case find (\<lambda>tbl. table_ndx tbl = table) related of
        None \<Rightarrow> (False, s)
      | Some it \<Rightarrow> any_link (linked_object_changed g check table row depth) (links it) s)"

definition row_modified :: "change_info \<Rightarrow> nat \<Rightarrow> nat \<Rightarrow> bool" where
  "row_modified info table idx \<longleftrightarrow>
     table < length (info_tables info) \<and> is_contains (modifications (info_tables info ! table)) idx"

text \<open>\<open>left\<close> is the size of the path minus the depth.\<close>

primrec check_row ::
  "nat \<Rightarrow> table_graph \<Rightarrow> change_info \<Rightarrow> related_table list \<Rightarrow> nat \<Rightarrow> nat \<Rightarrow> checker \<Rightarrow> bool \<times> checker" where
  "check_row 0 g info related table idx s =
     (False, s\<lparr>m_current_path := map (\<lambda>p. p\<lparr>depth_exceeded := True\<rparr>) (m_current_path s)\<rparr>)"
| "check_row (Suc left) g info related table idx s =
     (let depth = max_depth - Suc left in
      if 0 < depth \<and> row_modified info table idx then (True, s)
      else
        let s = (if length (m_not_modified s) \<le> table
                 then s\<lparr>m_not_modified := resize (table + 1) (m_not_modified s)\<rparr> else s)
        in if is_contains (m_not_modified s ! table) idx then (False, s)
           else
             let (ret, s) = check_outgoing_links g related (check_row left g info related) table idx depth s
             in if \<not> ret \<and> (depth = 0 \<or> \<not> depth_exceeded (m_current_path s ! (depth - 1)))
                then (ret, s\<lparr>m_not_modified := (m_not_modified s)[table := is_add (m_not_modified s ! table) idx]\<rparr>)
                else (ret, s))"

definition check_object ::
  "table_graph \<Rightarrow> change_info \<Rightarrow> related_table list \<Rightarrow> nat \<Rightarrow> nat \<Rightarrow> checker \<Rightarrow> bool \<times> checker" where
  "check_object g info related root ndx s =
     (if row_modified info root ndx then (True, s)
      else check_row max_depth g info related root ndx s)"

text \<open>A new checker; its path is not initialised.\<close>

definition new_checker :: "path list \<Rightarrow> checker" where
  "new_checker p = \<lparr>m_not_modified = [], m_current_path = p\<rparr>"

subsection \<open>The choice of a checker\<close>

definition table_modified :: "change_info \<Rightarrow> related_table \<Rightarrow> bool" where
  "table_modified info tbl \<longleftrightarrow>
     table_ndx tbl < length (info_tables info) \<and> \<not> crv_empty (modifications (info_tables info ! table_ndx tbl))"

datatype modification_checker =
    Never_modified
  | Contained_in crv
  | Deep "related_table list"

definition get_modification_checker ::
  "table_graph \<Rightarrow> change_info \<Rightarrow> nat \<Rightarrow> nat \<Rightarrow> related_table list \<Rightarrow>
     (modification_checker \<times> related_table list) option" where
  "get_modification_checker g info fuel root related =
     (case (if schema_changed info then find_related_tables g fuel root [] else Some related) of
        None \<Rightarrow> None
      | Some related \<Rightarrow>
          if \<not> list_ex (table_modified info) related then Some (Never_modified, related)
          else if length related = 1
          then Some (Contained_in (modifications (info_tables info ! table_ndx (hd related))), related)
          else Some (Deep related, related))"

definition run_checker ::
  "table_graph \<Rightarrow> change_info \<Rightarrow> nat \<Rightarrow> modification_checker \<Rightarrow> nat \<Rightarrow> checker \<Rightarrow> bool \<times> checker" where
  "run_checker g info root c ndx s =
     (case c of
        Never_modified \<Rightarrow> (False, s)
      | Contained_in mods \<Rightarrow> (is_contains mods ndx, s)
      | Deep related \<Rightarrow> check_object g info related root ndx s)"

end
