(* ===== verification/Deep_Tables.thy ===== *)
theory Deep_Tables
  imports Deep_Check
begin

text \<open>
  \<open>find_related_tables\<close> collects the tables that can be reached, each once and with its links.
\<close>

definition link_columns :: "table_graph \<Rightarrow> nat \<Rightarrow> nat list \<Rightarrow> outgoing_link list" where
  "link_columns g t cols =
     map (\<lambda>i. \<lparr>col_ndx = i, is_list = (get_column_type g t i = Type_LinkList)\<rparr>)
       (filter (\<lambda>i. get_column_type g t i = Type_Link \<or> get_column_type g t i = Type_LinkList) cols)"

definition all_links :: "table_graph \<Rightarrow> nat \<Rightarrow> outgoing_link list" where
  "all_links g t = link_columns g t [0 ..< get_column_count g t]"

definition targets_of :: "table_graph \<Rightarrow> nat \<Rightarrow> outgoing_link list \<Rightarrow> nat set" where
  "targets_of g t ls = (\<lambda>l. get_link_target g t (col_ndx l)) ` set ls"

definition table_links :: "table_graph \<Rightarrow> (nat \<times> nat) set" where
  "table_links g = {(t, u). u \<in> targets_of g t (all_links g t)}"

definition tables :: "related_table list \<Rightarrow> nat set" where
  "tables out = table_ndx ` set out"

lemma tables_append [simp]: "tables (xs @ ys) = tables xs \<union> tables ys"
  by (simp add: tables_def image_Un)

lemma link_columns_Cons: "link_columns g t (i # cols) =
  (if get_column_type g t i = Type_Link \<or> get_column_type g t i = Type_LinkList
   then \<lparr>col_ndx = i, is_list = (get_column_type g t i = Type_LinkList)\<rparr> # link_columns g t cols
   else link_columns g t cols)"
  by (simp add: link_columns_def)

definition grown :: "table_graph \<Rightarrow> nat \<Rightarrow> nat set \<Rightarrow> related_table list \<Rightarrow> related_table list \<Rightarrow> bool" where
  "grown g N T out new \<longleftrightarrow>
     (\<forall>r \<in> set new. links r = all_links g (table_ndx r)) \<and>
     distinct (map table_ndx (out @ new)) \<and> tables new \<subseteq> {..< N} \<and>
     (\<forall>u \<in> tables new. targets_of g u (all_links g u) \<subseteq> tables (out @ new)) \<and>
     tables new \<subseteq> (table_links g)\<^sup>* `` T"

lemma grown_Nil [simp]: "grown g N T out [] \<longleftrightarrow> distinct (map table_ndx out)"
  by (simp add: grown_def tables_def)

lemma grown_append:
  assumes "grown g N T out new" "grown g N T' (out @ new) new'" "T' \<subseteq> T"
  shows "grown g N T out (new @ new')"
proof -
  have "(table_links g)\<^sup>* `` T' \<subseteq> (table_links g)\<^sup>* `` T" using assms(3) by blast
  then show ?thesis using assms(1,2) by (auto simp add: grown_def ball_Un simp del: map_append)
qed

lemma grown_more: "grown g N T' out new \<Longrightarrow> T' \<subseteq> (table_links g)\<^sup>* `` T \<Longrightarrow> grown g N T out new"
proof -
  assume g: "grown g N T' out new" and T: "T' \<subseteq> (table_links g)\<^sup>* `` T"
  then have "(table_links g)\<^sup>* `` T' \<subseteq> (table_links g)\<^sup>* `` T" by (auto intro: rtrancl_trans)
  then show ?thesis using g unfolding grown_def by blast
qed

lemma map_table_update [simp]:
  "map table_ndx (out[k := (out ! k)\<lparr>links := ls\<rparr>]) = map table_ndx out"
  by (cases "k < length out") (simp_all add: map_update list_update_same_conv list_update_beyond)

lemma tables_update [simp]: "tables (out[k := (out ! k)\<lparr>links := ls\<rparr>]) = tables out"
  using map_table_update[of out k ls] unfolding tables_def by (metis list.set_map)

definition in_group :: "table_graph \<Rightarrow> nat \<Rightarrow> bool" where
  "in_group g N \<longleftrightarrow> N \<le> npos \<and> (\<forall>t < N. targets_of g t (all_links g t) \<subseteq> {..< N})"

definition finds :: "table_graph \<Rightarrow> nat \<Rightarrow> nat \<Rightarrow> bool" where
  "finds g N n \<longleftrightarrow> (\<forall>t out. t < N \<longrightarrow> tables out \<subseteq> {..< N} \<longrightarrow> card ({..< N} - tables out) < n \<longrightarrow>
     distinct (map table_ndx out) \<longrightarrow>
     (\<exists>new. find_related_tables g n t out = Some (out @ new) \<and> grown g N {t} out new \<and> t \<in> tables (out @ new)))"

lemma related_columns_finds:
  assumes "finds g N n" "k < length out" "tables out \<subseteq> {..< N}" "card ({..< N} - tables out) < n"
    "distinct (map table_ndx out)" "targets_of g t (link_columns g t cols) \<subseteq> {..< N}"
  shows "\<exists>new. related_columns g n t k cols out =
      Some (out[k := (out ! k)\<lparr>links := links (out ! k) @ link_columns g t cols\<rparr>] @ new) \<and>
    grown g N (targets_of g t (link_columns g t cols)) out new \<and>
    targets_of g t (link_columns g t cols) \<subseteq> tables (out @ new)"
  using assms(2-6)
proof (induction cols arbitrary: out)
  case Nil
  have "out[k := (out ! k)\<lparr>links := links (out ! k)\<rparr>] = out" by (simp add: list_update_same_conv)
  then show ?case using Nil by (simp add: link_columns_def targets_of_def)
next
  case (Cons i cols)
  show ?case
  proof (cases "get_column_type g t i = Type_Link \<or> get_column_type g t i = Type_LinkList")
    case False
    then have "link_columns g t (i # cols) = link_columns g t cols" by (simp add: link_columns_Cons)
    then show ?thesis using Cons.IH[OF Cons.prems(1-4)] Cons.prems(5) False by (simp add: Let_def)
  next
    case True
    define l where "l = \<lparr>col_ndx = i, is_list = (get_column_type g t i = Type_LinkList)\<rparr>"
    define u where "u = get_link_target g t i"
    define out1 where "out1 = out[k := (out ! k)\<lparr>links := links (out ! k) @ [l]\<rparr>]"
    have cols: "link_columns g t (i # cols) = l # link_columns g t cols"
      using True by (simp add: link_columns_Cons l_def)
    have u: "u < N" and rest: "targets_of g t (link_columns g t cols) \<subseteq> {..< N}"
      using Cons.prems(5) by (auto simp: cols targets_of_def u_def l_def)
    have out1: "k < length out1" "tables out1 = tables out" "map table_ndx out1 = map table_ndx out"
      using Cons.prems(1) by (simp_all add: out1_def)
    obtain new where new: "find_related_tables g n u out1 = Some (out1 @ new)" "grown g N {u} out1 new"
        "u \<in> tables (out1 @ new)"
      using assms(1) u Cons.prems out1 unfolding finds_def by metis
    have fewer: "{..< N} - tables (out1 @ new) \<subseteq> {..< N} - tables out" by (auto simp: out1)
    have "card ({..< N} - tables (out1 @ new)) < n"
      using card_mono[OF _ fewer] Cons.prems(3) by simp
    moreover have "tables (out1 @ new) \<subseteq> {..< N}" "distinct (map table_ndx (out1 @ new))" "k < length (out1 @ new)"
      using new(2) Cons.prems(2) out1 by (auto simp: grown_def)
    ultimately obtain new' where new': "related_columns g n t k cols (out1 @ new) =
          Some ((out1 @ new)[k := ((out1 @ new) ! k)\<lparr>links := links ((out1 @ new) ! k) @ link_columns g t cols\<rparr>] @ new')"
        "grown g N (targets_of g t (link_columns g t cols)) (out1 @ new) new'"
        "targets_of g t (link_columns g t cols) \<subseteq> tables (out1 @ new @ new')"
      using Cons.IH[of "out1 @ new", OF _ _ _ _ rest] by auto
    have entry: "(out1 @ new)[k := ((out1 @ new) ! k)\<lparr>links := links ((out1 @ new) ! k) @ link_columns g t cols\<rparr>] =
        out[k := (out ! k)\<lparr>links := links (out ! k) @ link_columns g t (i # cols)\<rparr>] @ new"
      using Cons.prems(1) by (simp add: out1_def cols list_update_append nth_append)
    have same: "grown g N T out1 x \<longleftrightarrow> grown g N T out x" for T x
      by (simp add: grown_def out1)
    have "targets_of g t (link_columns g t (i # cols)) = insert u (targets_of g t (link_columns g t cols))"
      by (simp add: cols targets_of_def l_def u_def)
    moreover have "grown g N (insert u (targets_of g t (link_columns g t cols))) out (new @ new')"
      using grown_append[of g N "insert u (targets_of g t (link_columns g t cols))" out1 new _ new']
        grown_more[OF new(2), of "insert u (targets_of g t (link_columns g t cols))"] new'(2) same by blast
    moreover have "related_columns g n t k (i # cols) out =
        Some (out[k := (out ! k)\<lparr>links := links (out ! k) @ link_columns g t (i # cols)\<rparr>] @ new @ new')"
      using True new(1) new'(1) by (simp add: entry flip: out1_def l_def u_def)
    ultimately show ?thesis using new(3) new'(3) out1(2) by auto
  qed
qed

lemma find_related_tables_finds: "in_group g N \<Longrightarrow> finds g N n"
proof (induction n)
  case 0
  then show ?case by (simp add: finds_def)
next
  case (Suc n)
  show ?case
    unfolding finds_def
  proof (intro allI impI)
    fix t out
    assume t: "t < N" and out: "tables out \<subseteq> {..< N}" "card ({..< N} - tables out) < Suc n" "distinct (map table_ndx out)"
    have npos: "t \<noteq> npos" using t Suc.prems by (auto simp: in_group_def)
    show "\<exists>new. find_related_tables g (Suc n) t out = Some (out @ new) \<and> grown g N {t} out new \<and> t \<in> tables (out @ new)"
    proof (cases "t \<in> tables out")
      case True
      then have "list_ex (\<lambda>tbl. table_ndx tbl = t) out" by (auto simp: tables_def list_ex_iff)
      then have "find_related_tables g (Suc n) t out = Some (out @ [])" using npos by simp
      then show ?thesis using True out(3) by (metis append_Nil2 grown_Nil)
    next
      case False
      define r where "r = \<lparr>table_ndx = t, links = all_links g t\<rparr>"
      define out1 where "out1 = out @ [\<lparr>table_ndx = t, links = []\<rparr>]"
      have eq: "find_related_tables g (Suc n) t out = related_columns g n t (length out) [0 ..< get_column_count g t] out1"
        using False npos by (auto simp: out1_def tables_def list_ex_iff)
      have out1: "tables out1 = insert t (tables out)" "distinct (map table_ndx out1)"
        using out(3) False by (auto simp: out1_def tables_def)
      have "{..< N} - tables out1 \<subset> {..< N} - tables out" using t False by (auto simp: out1)
      then have "card ({..< N} - tables out1) < n" using out(2) using psubset_card_mono[of "{..< N} - tables out" "{..< N} - tables out1"] by simp
      moreover have "targets_of g t (all_links g t) \<subseteq> {..< N}" using Suc.prems t by (simp add: in_group_def)
      ultimately obtain new where new: "related_columns g n t (length out) [0 ..< get_column_count g t] out1 =
            Some (out1[length out := (out1 ! length out)\<lparr>links := links (out1 ! length out) @ all_links g t\<rparr>] @ new)"
          "grown g N (targets_of g t (all_links g t)) out1 new" "targets_of g t (all_links g t) \<subseteq> tables (out1 @ new)"
      proof -
        have "length out < length out1" "tables out1 \<subseteq> {..< N}" using out1(1) out(1) t by (auto simp: out1_def)
        then show ?thesis
          using related_columns_finds[of g N n "length out" out1 t "[0 ..< get_column_count g t]"] Suc out1(2)
            \<open>card ({..< N} - tables out1) < n\<close> \<open>targets_of g t (all_links g t) \<subseteq> {..< N}\<close> that
          unfolding all_links_def by blast
      qed
      have "out1[length out := (out1 ! length out)\<lparr>links := links (out1 ! length out) @ all_links g t\<rparr>] = out @ [r]"
        by (simp add: out1_def r_def)
      then have found: "find_related_tables g (Suc n) t out = Some (out @ (r # new))" using eq new(1) by simp
      have "targets_of g t (all_links g t) \<subseteq> (table_links g)\<^sup>* `` {t}" by (auto simp: table_links_def)
      then have "grown g N {t} out1 new" using grown_more new(2) by blast
      then have "grown g N {t} out (r # new)"
        using t new(3) False unfolding grown_def by (auto simp: out1_def r_def tables_def)
      then show ?thesis using found by (auto simp: r_def tables_def)
    qed
  qed
qed

lemma related_tables_exact:
  assumes "in_group g N" "t < N" "N < n"
  shows "\<exists>out. find_related_tables g n t [] = Some out \<and> distinct (map table_ndx out) \<and>
    tables out = (table_links g)\<^sup>* `` {t} \<and> (\<forall>r \<in> set out. links r = all_links g (table_ndx r))"
proof -
  obtain out where out: "find_related_tables g n t [] = Some out" "grown g N {t} [] out" "t \<in> tables out"
    using find_related_tables_finds[OF assms(1), of n, unfolded finds_def, rule_format, of t "[]"] assms(2,3)
    by (auto simp: tables_def)
  have "u \<in> tables out" if "(t, u) \<in> (table_links g)\<^sup>*" for u
    using that by (induction rule: rtrancl_induct) (use out in \<open>auto simp: grown_def table_links_def\<close>)
  then show ?thesis using out(1,2) by (auto simp: grown_def)
qed

end
