(* ===== verification/Deep_Search.thy ===== *)
theory Deep_Search
  imports Deep_Tables
begin

text \<open>
  The search of \<open>check_row\<close> agrees with its plain reading: a modified row within three links. The
  cache of unmodified rows and the cut at the depth limit and at cycles are accounted for: whatever
  an unsuccessful search leaves out is blamed on an entry of the path that is then marked.
\<close>

subsection \<open>Walks\<close>

type_synonym row = "nat \<times> nat"

fun near :: "(row \<Rightarrow> row set) \<Rightarrow> (row \<Rightarrow> bool) \<Rightarrow> nat \<Rightarrow> row \<Rightarrow> bool" where
  "near L M 0 r = False"
| "near L M (Suc k) r = (\<exists>r' \<in> L r. M r' \<or> near L M k r')"

fun walk :: "(row \<Rightarrow> row set) \<Rightarrow> row list \<Rightarrow> bool" where
  "walk L [] = False"
| "walk L [x] = True"
| "walk L (x # y # zs) = (y \<in> L x \<and> walk L (y # zs))"

lemma near_mono: "near L M k r \<Longrightarrow> k \<le> n \<Longrightarrow> near L M n r"
proof (induction k arbitrary: r n)
  case (Suc k)
  then show ?case by (cases n) auto
qed simp

lemma near_walk: "near L M k r \<longleftrightarrow> (\<exists>ws. ws \<noteq> [] \<and> length ws \<le> k \<and> walk L (r # ws) \<and> M (last ws))"
proof (induction k arbitrary: r)
  case (Suc k)
  show ?case
  proof
    assume "near L M (Suc k) r"
    then obtain r' where r': "r' \<in> L r" "M r' \<or> near L M k r'" by auto
    show "\<exists>ws. ws \<noteq> [] \<and> length ws \<le> Suc k \<and> walk L (r # ws) \<and> M (last ws)"
    proof (cases "M r'")
      case True
      then show ?thesis using r'(1) by (intro exI[of _ "[r']"]) simp
    next
      case False
      then obtain ws where "ws \<noteq> []" "length ws \<le> k" "walk L (r' # ws)" "M (last ws)" using r' Suc by blast
      then show ?thesis using r'(1) by (intro exI[of _ "r' # ws"]) simp
    qed
  next
    assume "\<exists>ws. ws \<noteq> [] \<and> length ws \<le> Suc k \<and> walk L (r # ws) \<and> M (last ws)"
    then obtain r' ws where w: "length ws \<le> k" "r' \<in> L r" "walk L (r' # ws)" "M (last (r' # ws))"
      by (metis list.exhaust walk.simps(3) length_Cons Suc_le_mono)
    then have "M r' \<or> near L M k r'" using Suc by (cases "ws = []") auto
    then show "near L M (Suc k) r" using w(2) by auto
  qed
qed simp

lemma walk_append: "walk L (xs @ y # zs) \<longleftrightarrow> walk L (xs @ [y]) \<and> walk L (y # zs)"
proof (induction xs rule: walk.induct[of _ L])
  case (2 L x)
  then show ?case by (cases zs) auto
qed auto

text \<open>The shortest walk to a modified row meets no row twice.\<close>

lemma near_distinct:
  assumes "near L M k r" "\<not> M r"
  obtains ws where "ws \<noteq> []" "length ws \<le> k" "walk L (r # ws)" "M (last (r # ws))" "distinct (r # ws)"
proof -
  let ?P = "\<lambda>ws. ws \<noteq> [] \<and> length ws \<le> k \<and> walk L (r # ws) \<and> M (last (r # ws))"
  obtain ws where ws: "?P ws" and least: "\<And>vs. ?P vs \<Longrightarrow> length ws \<le> length vs"
  proof -
    obtain ws0 where "?P ws0" using assms(1) unfolding near_walk by (metis last.simps)
    with ex_has_least_nat[of ?P ws0 length] that show ?thesis by blast
  qed
  have "distinct (r # ws)"
  proof (rule ccontr)
    assume "\<not> distinct (r # ws)"
    then obtain xs ys zs y where split: "r # ws = xs @ [y] @ ys @ [y] @ zs" using not_distinct_decomp by blast
    define vs where "vs = tl (xs @ [y] @ zs)"
    have vs: "r # vs = xs @ [y] @ zs" using split by (cases xs) (auto simp: vs_def)
    have "walk L (xs @ y # ys @ y # zs)" using ws split by simp
    then have "walk L (xs @ [y])" "walk L (y # zs)"
      using walk_append[of L xs y "ys @ y # zs"] walk_append[of L "xs @ y # ys" y zs] by auto
    then have "walk L (r # vs)" using walk_append[of L xs y zs] vs by simp
    moreover have "last (r # vs) = last (r # ws)" unfolding vs split by simp
    moreover have "vs \<noteq> []" using calculation ws assms(2) by (metis last.simps)
    moreover have "length vs < length ws"
      using arg_cong[OF split, of length] arg_cong[OF vs, of length] by simp
    ultimately show False using least[of vs] ws by auto
  qed
  then show ?thesis using that ws by blast
qed

subsection \<open>The links that are searched\<close>

definition dests :: "table_graph \<Rightarrow> nat \<Rightarrow> nat \<Rightarrow> outgoing_link \<Rightarrow> nat list" where
  "dests g t row l = (if is_list l then get_linklist g t (col_ndx l) row
     else case get_link g t (col_ndx l) row of None \<Rightarrow> [] | Some d \<Rightarrow> [d])"

definition link_rows :: "table_graph \<Rightarrow> row \<Rightarrow> outgoing_link \<Rightarrow> row set" where
  "link_rows g r l = Pair (get_link_target g (fst r) (col_ndx l)) ` set (dests g (fst r) (snd r) l)"

definition linked :: "table_graph \<Rightarrow> related_table list \<Rightarrow> row \<Rightarrow> row set" where
  "linked g rel r = (case find (\<lambda>tbl. table_ndx tbl = fst r) rel of
     None \<Rightarrow> {} | Some it \<Rightarrow> (\<Union>l \<in> set (links it). link_rows g r l))"

lemma linked_object_changed_list:
  "linked_object_changed g check t row depth l s =
     (let (already, s) = already_checking t row depth (col_ndx l) s
      in if already then (False, s)
         else check_list (check (get_link_target g t (col_ndx l))) (dests g t row l) s)"
proof -
  have "(let (c, s) = check u d s in if c then (True, s) else (False, s)) = check u d s" for u d s
    by (cases "check u d s") auto
  then show ?thesis
    by (auto simp: linked_object_changed_def dests_def Let_def split: option.split prod.split)
qed

subsection \<open>What a search leaves\<close>

definition checker_ok :: "(row \<Rightarrow> row set) \<Rightarrow> (row \<Rightarrow> bool) \<Rightarrow> checker \<Rightarrow> bool" where
  "checker_ok L M s \<longleftrightarrow> length (m_current_path s) = max_depth \<and> (\<forall>c \<in> set (m_not_modified s). crv_inv c) \<and>
     (\<forall>t < length (m_not_modified s). \<forall>i \<in> elems (m_not_modified s ! t). \<not> near L M 3 (t, i))"

definition at_row :: "path \<Rightarrow> row" where
  "at_row p = (path_table p, path_row p)"

definition frame :: "nat \<Rightarrow> checker \<Rightarrow> checker \<Rightarrow> bool" where
  "frame d s s' \<longleftrightarrow> length (m_not_modified s) \<le> length (m_not_modified s') \<and> (\<forall>i < d. at_row (m_current_path s' ! i) = at_row (m_current_path s ! i) \<and>
     (depth_exceeded (m_current_path s ! i) \<longrightarrow> depth_exceeded (m_current_path s' ! i)))"

text \<open>
  The walk \<open>w\<close> was not followed to its end: the entries of the path below \<open>d\<close> are marked, either
  all of them because the walk is too long, or from one on that the walk meets again.
\<close>

definition blamed :: "nat \<Rightarrow> nat \<Rightarrow> checker \<Rightarrow> row list \<Rightarrow> bool" where
  "blamed left d s w \<longleftrightarrow> (\<exists>j < d. (\<forall>i. j \<le> i \<and> i < d \<longrightarrow> depth_exceeded (m_current_path s ! i)) \<and>
     (left < length w \<and> j = 0 \<or> at_row (m_current_path s ! j) \<in> set (butlast w)))"

definition search_path :: "(row \<Rightarrow> row set) \<Rightarrow> (row \<Rightarrow> bool) \<Rightarrow> row list \<Rightarrow> bool" where
  "search_path L M w \<longleftrightarrow> walk L w \<and> distinct w \<and> M (last w) \<and> length w \<le> 4"

lemma frame_refl [simp]: "frame d s s"
  by (simp add: frame_def)

lemma frame_trans: "frame d s t \<Longrightarrow> frame d t u \<Longrightarrow> frame d s u"
  by (auto simp: frame_def)

lemma frame_less: "frame d s t \<Longrightarrow> d' \<le> d \<Longrightarrow> frame d' s t"
  by (simp add: frame_def)

lemma blamed_frame: "blamed left d s w \<Longrightarrow> frame d s t \<Longrightarrow> blamed left d t w"
  unfolding blamed_def frame_def by (metis (no_types, lifting))

definition check_spec :: "(row \<Rightarrow> row set) \<Rightarrow> (row \<Rightarrow> bool) \<Rightarrow> nat \<Rightarrow> (nat \<Rightarrow> nat \<Rightarrow> checker \<Rightarrow> bool \<times> checker) \<Rightarrow> bool" where
  "check_spec L M left f \<longleftrightarrow> (\<forall>t i s ret s'. checker_ok L M s \<longrightarrow> (left = max_depth \<longrightarrow> \<not> M (t, i)) \<longrightarrow> f t i s = (ret, s') \<longrightarrow>
     checker_ok L M s' \<and> frame (max_depth - left) s s' \<and>
     (ret \<longrightarrow> 0 < left \<and> (left < max_depth \<and> M (t, i) \<or> near L M (left - 1) (t, i))) \<and>
     (\<not> ret \<longrightarrow> (\<forall>ws. search_path L M ((t, i) # ws) \<longrightarrow> (left = max_depth \<longrightarrow> ws \<noteq> []) \<longrightarrow>
        blamed left (max_depth - left) s' ((t, i) # ws))))"

lemma check_specD:
  assumes "check_spec L M left f" "checker_ok L M s" "left < max_depth" "f t i s = (ret, s')"
  shows "checker_ok L M s'" "frame (max_depth - left) s s'" "ret \<Longrightarrow> 0 < left \<and> (M (t, i) \<or> near L M (left - 1) (t, i))"
    "\<not> ret \<Longrightarrow> search_path L M ((t, i) # ws) \<Longrightarrow> blamed left (max_depth - left) s' ((t, i) # ws)"
  using assms unfolding check_spec_def by (metis less_irrefl)+

lemma check_list_spec:
  assumes f: "check_spec L M left f" "left < max_depth"
  shows "checker_ok L M s \<Longrightarrow> check_list (f t) dsts s = (ret, s') \<Longrightarrow>
    checker_ok L M s' \<and> frame (max_depth - left) s s' \<and>
    (ret \<longrightarrow> 0 < left \<and> (\<exists>d \<in> set dsts. M (t, d) \<or> near L M (left - 1) (t, d))) \<and>
    (\<not> ret \<longrightarrow> (\<forall>d \<in> set dsts. \<forall>ws. search_path L M ((t, d) # ws) \<longrightarrow>
       blamed left (max_depth - left) s' ((t, d) # ws)))"
proof (induction dsts arbitrary: s)
  case (Cons d dsts)
  obtain r1 s1 where 1: "f t d s = (r1, s1)" by fastforce
  note first = check_specD[OF f(1) Cons.prems(1) f(2) 1]
  show ?case
  proof (cases r1)
    case True
    then show ?thesis using Cons.prems(2) 1 first(1,2,3) by auto
  next
    case False
    then have "check_list (f t) dsts s1 = (ret, s')" using Cons.prems(2) 1 by simp
    note rest = Cons.IH[OF first(1) this]
    have "blamed left (max_depth - left) s' ((t, d) # ws)" if "\<not> ret" "search_path L M ((t, d) # ws)" for ws
      using blamed_frame[OF first(4)[OF False that(2)]] rest by blast
    then show ?thesis using rest frame_trans[OF first(2)] by auto
  qed
qed simp

lemma exceed_from_nth:
  "i \<le> j \<Longrightarrow> j \<le> length ps \<Longrightarrow> k < length ps \<Longrightarrow>
    exceed_from i j ps ! k = (if i \<le> k \<and> k < j then (ps ! k)\<lparr>depth_exceeded := True\<rparr> else ps ! k)"
  by (auto simp: exceed_from_def nth_append min_def)

lemma length_exceed_from [simp]: "i \<le> j \<Longrightarrow> j \<le> length ps \<Longrightarrow> length (exceed_from i j ps) = length ps"
  by (simp add: exceed_from_def)

lemma already_checking_spec:
  assumes ok: "checker_ok L M s" "d < max_depth" and eq: "already_checking t row d col s = (already, s')"
  shows "checker_ok L M s'" "frame d s s'"
    "already \<Longrightarrow> \<exists>j < d. (\<forall>i. j \<le> i \<and> i < d \<longrightarrow> depth_exceeded (m_current_path s' ! i)) \<and>
       at_row (m_current_path s' ! j) = (t, row)"
    "\<not> already \<Longrightarrow> at_row (m_current_path s' ! d) = (t, row)"
proof -
  define ps where "ps = m_current_path s"
  define k where "k = find_if (path_matches t row col) (take d ps)"
  have len: "length ps = max_depth" "length (take d ps) = d" using ok by (simp_all add: checker_ok_def ps_def)
  have k: "k \<le> d" using find_if_le[of "path_matches t row col" "take d ps"] len by (simp add: k_def)
  have eq': "(already, s') = (if k \<noteq> d then (True, s\<lparr>m_current_path := exceed_from k d ps\<rparr>)
      else (False, s\<lparr>m_current_path := ps[d := \<lparr>path_table = t, path_row = row, path_col = col, depth_exceeded = False\<rparr>]\<rparr>))"
    using eq len(2) by (simp only: already_checking_def Let_def k_def ps_def)
  show "checker_ok L M s'" using ok eq' k len by (auto simp: checker_ok_def split: if_splits)
  show "frame d s s'" using eq' k len ok(2)
    by (auto simp: frame_def exceed_from_nth at_row_def split: if_splits simp flip: ps_def)
  show "\<exists>j < d. (\<forall>i. j \<le> i \<and> i < d \<longrightarrow> depth_exceeded (m_current_path s' ! i)) \<and>
       at_row (m_current_path s' ! j) = (t, row)" if already
  proof -
    have "k < d" and s': "s' = s\<lparr>m_current_path := exceed_from k d ps\<rparr>"
      using eq' that k by (auto split: if_splits)
    moreover have "path_matches t row col (take d ps ! k)"
      using find_if_nth[of "path_matches t row col" "take d ps"] \<open>k < d\<close> len by (simp add: k_def)
    ultimately show ?thesis
      using len ok(2) by (intro exI[of _ k]) (auto simp: s' exceed_from_nth at_row_def path_matches_def)
  qed
  show "at_row (m_current_path s' ! d) = (t, row)" if "\<not> already"
    using that eq' len ok(2) by (auto simp: at_row_def split: if_splits)
qed

lemma link_spec:
  assumes f: "check_spec L M left f" and left: "Suc left \<le> max_depth" and ok: "checker_ok L M s"
    and d: "d = max_depth - Suc left"
    and eq: "linked_object_changed g f t row d l s = (ret, s')"
  shows "checker_ok L M s' \<and> frame d s s' \<and>
    (ret \<longrightarrow> 0 < left \<and> (\<exists>r \<in> link_rows g (t, row) l. M r \<or> near L M (left - 1) r)) \<and>
    (\<not> ret \<longrightarrow> (\<forall>r \<in> link_rows g (t, row) l. \<forall>ws. search_path L M ((t, row) # r # ws) \<longrightarrow>
       blamed (Suc left) d s' ((t, row) # r # ws)))"
proof -
  obtain already s1 where 1: "already_checking t row d (col_ndx l) s = (already, s1)" by fastforce
  have d': "d < max_depth" "max_depth - left = Suc d" using left d by auto
  note ac = already_checking_spec[OF ok d'(1) 1]
  show ?thesis
  proof (cases already)
    case True
    then obtain j where j: "j < d" "\<forall>i. j \<le> i \<and> i < d \<longrightarrow> depth_exceeded (m_current_path s1 ! i)"
        "at_row (m_current_path s1 ! j) = (t, row)"
      using ac(3) by blast
    then have "blamed (Suc left) d s1 ((t, row) # r # ws)" for r ws
      unfolding blamed_def by (intro exI[of _ j]) simp
    then show ?thesis using eq True 1 ac by (simp add: linked_object_changed_list)
  next
    case False
    let ?u = "get_link_target g t (col_ndx l)"
    have "check_list (f ?u) (dests g t row l) s1 = (ret, s')"
      using eq False 1 by (simp add: linked_object_changed_list)
    note list = check_list_spec[OF f _ ac(1) this, unfolded d'(2)]
    have fr: "frame (Suc d) s1 s'" using list left by simp
    then have fr': "frame d s s'" using frame_trans[OF ac(2)] frame_less[of "Suc d"] by simp
    have "blamed (Suc left) d s' ((t, row) # r # ws)"
      if "\<not> ret" and r: "r \<in> link_rows g (t, row) l" and w: "search_path L M ((t, row) # r # ws)" for r ws
    proof -
      have "search_path L M (r # ws)" using w by (cases ws) (auto simp: search_path_def)
      then have "blamed left (Suc d) s' (r # ws)" using list left r that(1) by (auto simp: link_rows_def)
      then obtain j where j: "j < Suc d" "\<forall>i. j \<le> i \<and> i < Suc d \<longrightarrow> depth_exceeded (m_current_path s' ! i)"
          "left < length (r # ws) \<and> j = 0 \<or> at_row (m_current_path s' ! j) \<in> set (butlast (r # ws))"
        by (simp only: blamed_def) (elim exE conjE, rule that, assumption+)
      have "at_row (m_current_path s' ! d) = (t, row)" using fr ac(4) False by (simp add: frame_def)
      moreover have "(t, row) \<notin> set (butlast (r # ws))" using w in_set_butlastD by (fastforce simp: search_path_def)
      moreover have "\<not> (left < length (r # ws) \<and> d = 0)" using w d left by (auto simp: search_path_def max_depth_def)
      ultimately have "j < d" using j by (metis less_SucE)
      moreover have "at_row (m_current_path s' ! j) \<in> set (butlast (r # ws)) \<Longrightarrow>
          at_row (m_current_path s' ! j) \<in> set (butlast ((t, row) # r # ws))" by simp
      ultimately show ?thesis using j unfolding blamed_def by (intro exI[of _ j]) (metis Suc_less_eq length_Cons less_Suc_eq)
    qed
    then show ?thesis using list left fr' by (auto simp: link_rows_def)
  qed
qed

lemma any_link_spec:
  assumes f: "check_spec L M left f" and left: "Suc left \<le> max_depth" and d: "d = max_depth - Suc left"
  shows "checker_ok L M s \<Longrightarrow> any_link (linked_object_changed g f t row d) ls s = (ret, s') \<Longrightarrow>
    checker_ok L M s' \<and> frame d s s' \<and>
    (ret \<longrightarrow> 0 < left \<and> (\<exists>l \<in> set ls. \<exists>r \<in> link_rows g (t, row) l. M r \<or> near L M (left - 1) r)) \<and>
    (\<not> ret \<longrightarrow> (\<forall>l \<in> set ls. \<forall>r \<in> link_rows g (t, row) l. \<forall>ws. search_path L M ((t, row) # r # ws) \<longrightarrow>
       blamed (Suc left) d s' ((t, row) # r # ws)))"
proof (induction ls arbitrary: s)
  case (Cons l ls)
  obtain r1 s1 where 1: "linked_object_changed g f t row d l s = (r1, s1)" by fastforce
  note first = link_spec[OF f left Cons.prems(1) d 1]
  show ?case
  proof (cases r1)
    case True
    then show ?thesis using Cons.prems(2) 1 first by auto
  next
    case False
    then have eq: "any_link (linked_object_changed g f t row d) ls s1 = (ret, s')" using Cons.prems(2) 1 by simp
    have "checker_ok L M s1" using first by blast
    note rest = Cons.IH[OF this eq]
    have "blamed (Suc left) d s' ((t, row) # r # ws)"
      if "\<not> ret" "r \<in> link_rows g (t, row) l" "search_path L M ((t, row) # r # ws)" for r ws
      using first rest that False blamed_frame by blast
    then show ?thesis using rest first frame_trans[of d s s1 s'] by auto
  qed
qed simp

definition modified :: "change_info \<Rightarrow> row \<Rightarrow> bool" where
  "modified info r = row_modified info (fst r) (snd r)"

lemma outgoing_spec:
  assumes f: "check_spec (linked g rel) M left f" and left: "Suc left \<le> max_depth" and d: "d = max_depth - Suc left"
    and ok: "checker_ok (linked g rel) M s" and eq: "check_outgoing_links g rel f t row d s = (ret, s')"
  shows "checker_ok (linked g rel) M s' \<and> frame d s s' \<and>
    (ret \<longrightarrow> near (linked g rel) M left (t, row)) \<and>
    (\<not> ret \<longrightarrow> (\<forall>ws. search_path (linked g rel) M ((t, row) # ws) \<longrightarrow> ws \<noteq> [] \<longrightarrow>
       blamed (Suc left) d s' ((t, row) # ws)))"
proof (cases "find (\<lambda>tbl. table_ndx tbl = t) rel")
  case None
  then have "linked g rel (t, row) = {}" by (simp add: linked_def)
  then have "\<not> search_path (linked g rel) M ((t, row) # ws)" if "ws \<noteq> []" for ws
    using that by (cases ws) (simp_all add: search_path_def)
  then show ?thesis using eq ok None by (auto simp: check_outgoing_links_def)
next
  case (Some it)
  have L: "linked g rel (t, row) = (\<Union>l \<in> set (links it). link_rows g (t, row) l)"
    using Some by (simp add: linked_def)
  have "any_link (linked_object_changed g f t row d) (links it) s = (ret, s')"
    using eq Some by (simp add: check_outgoing_links_def)
  note spec = any_link_spec[OF f left d ok this]
  have "near (linked g rel) M left (t, row)" if ret
    using that spec by (cases left) (auto simp: L)
  moreover have "blamed (Suc left) d s' ((t, row) # ws)"
    if "\<not> ret" "search_path (linked g rel) M ((t, row) # ws)" "ws \<noteq> []" for ws
    using that spec by (cases ws) (auto simp: search_path_def L)
  ultimately show ?thesis using spec by blast
qed

lemma ok_resize:
  "checker_ok L M s \<Longrightarrow> length (m_not_modified s) \<le> t \<Longrightarrow>
    checker_ok L M (s\<lparr>m_not_modified := resize (t + 1) (m_not_modified s)\<rparr>)"
  by (auto simp: checker_ok_def resize_def nth_append crv_inv_Nil)

lemma ok_add:
  assumes "checker_ok L M s" "t < length (m_not_modified s)" "\<not> near L M 3 (t, i)"
  shows "checker_ok L M (s\<lparr>m_not_modified := (m_not_modified s)[t := is_add (m_not_modified s ! t) i]\<rparr>)"
proof -
  have "crv_inv (m_not_modified s ! t)" using assms(1,2) by (simp add: checker_ok_def)
  then have a: "crv_inv (is_add (m_not_modified s ! t) i) \<and>
      elems (is_add (m_not_modified s ! t) i) = insert i (elems (m_not_modified s ! t))"
    by (rule ix.add)
  have "crv_inv c" if "c \<in> set ((m_not_modified s)[t := is_add (m_not_modified s ! t) i])" for c
    using that set_update_subset_insert[of "m_not_modified s" t] a assms(1) by (auto simp: checker_ok_def)
  then show ?thesis using assms a by (auto simp: checker_ok_def nth_list_update)
qed

lemma frame_not_modified [simp]:
  "length x = length (m_not_modified t) \<Longrightarrow> frame d s (t\<lparr>m_not_modified := x\<rparr>) = frame d s t"
  by (simp add: frame_def)

lemma blamed_not_modified [simp]: "blamed left d (s\<lparr>m_not_modified := x\<rparr>) w = blamed left d s w"
  by (simp add: blamed_def)

lemma check_row_0: "check_spec L M 0 (check_row 0 g info rel)"
  by (auto simp: check_spec_def checker_ok_def frame_def blamed_def at_row_def max_depth_def) (rule exI[of _ 0], simp)

lemma check_row_Suc:
  assumes f: "check_spec (linked g rel) (modified info) left (check_row left g info rel)" and left: "Suc left \<le> max_depth"
  shows "check_spec (linked g rel) (modified info) (Suc left) (check_row (Suc left) g info rel)"
  unfolding check_spec_def
proof (intro allI impI)
  fix t i s ret s'
  let ?L = "linked g rel" and ?M = "modified info"
  define d where "d = max_depth - Suc left"
  assume ok: "checker_ok ?L ?M s" and root: "Suc left = max_depth \<longrightarrow> \<not> ?M (t, i)"
    and eq: "check_row (Suc left) g info rel t i s = (ret, s')"
  have d0: "d = 0 \<longleftrightarrow> Suc left = max_depth" using left by (auto simp: d_def)
  define s1 where "s1 = (if length (m_not_modified s) \<le> t
    then s\<lparr>m_not_modified := resize (t + 1) (m_not_modified s)\<rparr> else s)"
  have s1: "checker_ok ?L ?M s1" "t < length (m_not_modified s1)" "frame d s s1"
    using ok_resize[OF ok] ok by (auto simp: s1_def resize_def frame_def)
  let ?post = "checker_ok ?L ?M s' \<and> frame d s s' \<and>
     (ret \<longrightarrow> Suc left < max_depth \<and> ?M (t, i) \<or> near ?L ?M left (t, i)) \<and>
     (\<not> ret \<longrightarrow> (\<forall>ws. search_path ?L ?M ((t, i) # ws) \<longrightarrow> (Suc left = max_depth \<longrightarrow> ws \<noteq> []) \<longrightarrow>
        blamed (Suc left) d s' ((t, i) # ws)))"
  have ?post
  proof (cases "0 < d \<and> row_modified info t i")
    case True
    then have "ret" "s' = s" using eq by (simp_all add: d_def)
    then show ?thesis using True ok d0 left by (auto simp: modified_def)
  next
    case False
    then have unmod: "\<not> ?M (t, i)" using root d0 by (auto simp: modified_def)
    have nonempty: "ws \<noteq> []" if "search_path ?L ?M ((t, i) # ws)" for ws
      using that unmod by (auto simp: search_path_def)
    have near3: "near ?L ?M 3 (t, i)" if "search_path ?L ?M ((t, i) # ws)" for ws
      unfolding near_walk using that nonempty[OF that] by (intro exI[of _ ws]) (simp add: search_path_def)
    show ?thesis
    proof (cases "is_contains (m_not_modified s1 ! t) i")
      case True
      then have res: "\<not> ret" "s' = s1" using eq False by (simp_all add: d_def s1_def Let_def split: if_splits)
      have "crv_inv (m_not_modified s1 ! t)" using s1(1,2) by (simp add: checker_ok_def)
      then have "i \<in> elems (m_not_modified s1 ! t)" using True ix.mem by blast
      then have "\<not> near ?L ?M 3 (t, i)" using s1(1,2) by (simp add: checker_ok_def)
      then show ?thesis using res s1 near3 by blast
    next
      case not_cached: False
      obtain r2 s2 where 2: "check_outgoing_links g rel (check_row left g info rel) t i d s1 = (r2, s2)" by fastforce
      note out = outgoing_spec[OF f left d_def s1(1) 2]
      have fr: "frame d s s2" using frame_trans[OF s1(3)] out by blast
      let ?add = "\<not> r2 \<and> (d = 0 \<or> \<not> depth_exceeded (m_current_path s2 ! (d - 1)))"
      have res: "ret = r2" "s' = (if ?add then s2\<lparr>m_not_modified :=
          (m_not_modified s2)[t := is_add (m_not_modified s2 ! t) i]\<rparr> else s2)"
        using eq False not_cached 2 by (auto simp: d_def[symmetric] s1_def[symmetric] Let_def split: if_splits)
      show ?thesis
      proof (cases ?add)
        case False
        then show ?thesis using out fr res nonempty by auto
      next
        case True
        have "\<not> near ?L ?M 3 (t, i)"
        proof
          assume "near ?L ?M 3 (t, i)"
          then obtain ws where "ws \<noteq> []" "length ws \<le> 3" "walk ?L ((t, i) # ws)" "?M (last ((t, i) # ws))"
              "distinct ((t, i) # ws)"
            using near_distinct[where L = ?L and M = ?M and k = 3 and r = "(t, i)"] unmod by blast
          then have "blamed (Suc left) d s2 ((t, i) # ws)" using out True by (simp add: search_path_def)
          then obtain j where "j < d" "\<forall>k. j \<le> k \<and> k < d \<longrightarrow> depth_exceeded (m_current_path s2 ! k)"
            unfolding blamed_def by (elim exE conjE)
          then have "0 < d" "depth_exceeded (m_current_path s2 ! (d - 1))" by auto
          then show False using True by simp
        qed
        moreover have "t < length (m_not_modified s2)"
          using s1(2) out by (auto simp: frame_def)
        ultimately have "checker_ok ?L ?M s'" using ok_add[of ?L ?M s2 t i] out res True by simp
        then show ?thesis using out fr res nonempty True by auto
      qed
    qed
  qed
  then show "checker_ok ?L ?M s' \<and> frame (max_depth - Suc left) s s' \<and>
     (ret \<longrightarrow> 0 < Suc left \<and> (Suc left < max_depth \<and> ?M (t, i) \<or> near ?L ?M (Suc left - 1) (t, i))) \<and>
     (\<not> ret \<longrightarrow> (\<forall>ws. search_path ?L ?M ((t, i) # ws) \<longrightarrow> (Suc left = max_depth \<longrightarrow> ws \<noteq> []) \<longrightarrow>
        blamed (Suc left) (max_depth - Suc left) s' ((t, i) # ws)))"
    by (simp add: d_def)
qed

end
