(* ===== verification/Deep_Check_Props.thy ===== *)
theory Deep_Check_Props
  imports Deep_Search
begin

text \<open>
  What \<open>find_related_tables\<close> and \<open>get_modification_checker\<close> compute, and the self-linking table
  for which the choice of the checker goes wrong.
\<close>

text \<open>
  C36. \<open>find_related_tables\<close> ends, after at most one nested call per table, and finds exactly the
  tables that the first one reaches through links, each once, each with all its link columns.
\<close>

theorem related_tables_found:
  assumes "in_group g N" "t < N" "N < n"
  shows "\<exists>out. find_related_tables g n t [] = Some out \<and> distinct (map table_ndx out) \<and>
    tables out = (table_links g)\<^sup>* `` {t} \<and> (\<forall>r \<in> set out. links r = all_links g (table_ndx r))"
  using assms by (rule related_tables_exact)

text \<open>Persons with dogs and friends, the dogs with an owner.\<close>

definition sample_graph :: table_graph where
  "sample_graph = \<lparr>get_column_count = (\<lambda>t. if t = 0 then 3 else 1),
     get_column_type = (\<lambda>t i. if t = 0 \<and> i = 0 then Type_Other else if t = 0 \<and> i = 1 then Type_LinkList else Type_Link),
     get_link_target = (\<lambda>t i. if t = 0 \<and> i = 1 then 1 else 0),
     get_link = (\<lambda>t i row. if t = 0 then if row < 4 then Some (Suc row) else None else Some 3),
     get_linklist = (\<lambda>t i row. [row])\<rparr>"

lemma sample_links:
  "all_links sample_graph 0 = [\<lparr>col_ndx = 1, is_list = True\<rparr>, \<lparr>col_ndx = 2, is_list = False\<rparr>]"
  "all_links sample_graph (Suc 0) = [\<lparr>col_ndx = 0, is_list = False\<rparr>]"
  by code_simp+

lemma sample_in_group: "in_group sample_graph 2"
  using sample_links by (auto simp: in_group_def npos_def less_2_cases_iff targets_of_def) (simp_all add: sample_graph_def)

lemma related_tables_found_witness:
  "\<exists>out. find_related_tables sample_graph 3 0 [] = Some out \<and> tables out = (table_links sample_graph)\<^sup>* `` {0}"
  using related_tables_found[OF sample_in_group, of 0 3] by auto

subsection \<open>The search\<close>

lemma check_row_spec: "left \<le> max_depth \<Longrightarrow>
  check_spec (linked g rel) (modified info) left (check_row left g info rel)"
proof (induction left)
  case 0
  show ?case by (rule check_row_0)
next
  case (Suc left)
  then show ?case by (simp only: check_row_Suc)
qed

lemma check_object_exact:
  assumes "checker_ok (linked g rel) (modified info) s" "check_object g info rel root i s = (ret, s')"
  shows "checker_ok (linked g rel) (modified info) s' \<and>
    (ret \<longleftrightarrow> modified info (root, i) \<or> near (linked g rel) (modified info) 3 (root, i))"
proof (cases "row_modified info root i")
  case True
  then show ?thesis using assms by (auto simp: check_object_def modified_def)
next
  case False
  then have eq: "check_row max_depth g info rel root i s = (ret, s')" and un: "\<not> modified info (root, i)"
    using assms(2) by (simp_all add: check_object_def modified_def)
  note spec = check_row_spec[of max_depth g rel info, unfolded check_spec_def, rule_format, OF order_refl assms(1) un eq]
  have "near (linked g rel) (modified info) 3 (root, i)" if ret
    using spec that by (auto simp: max_depth_def)
  moreover have "\<not> near (linked g rel) (modified info) 3 (root, i)" if "\<not> ret"
  proof
    assume "near (linked g rel) (modified info) 3 (root, i)"
    then obtain ws where "ws \<noteq> []" "length ws \<le> 3" "walk (linked g rel) ((root, i) # ws)"
        "modified info (last ((root, i) # ws))" "distinct ((root, i) # ws)"
      using near_distinct[where L = "linked g rel" and M = "modified info" and k = 3 and r = "(root, i)"] un by blast
    then have "blamed max_depth (max_depth - max_depth) s' ((root, i) # ws)"
      using spec that by (auto simp: search_path_def)
    then show False by (simp add: blamed_def)
  qed
  ultimately show ?thesis using spec un by blast
qed

definition object_links :: "table_graph \<Rightarrow> row \<Rightarrow> row set" where
  "object_links g r = (\<Union>l \<in> set (all_links g (fst r)). link_rows g r l)"

lemma object_links_table: "r' \<in> object_links g r \<Longrightarrow> (fst r, fst r') \<in> table_links g"
  by (auto simp: object_links_def link_rows_def table_links_def targets_of_def)

lemma near_cong:
  assumes "\<And>r. fst r \<in> C \<Longrightarrow> L r = L' r \<and> (\<forall>r' \<in> L' r. fst r' \<in> C)"
  shows "fst r \<in> C \<Longrightarrow> near L M k r = near L' M k r"
proof (induction k arbitrary: r)
  case (Suc k)
  then show ?case using assms[of r] by auto
qed simp

lemma linked_found:
  assumes "distinct (map table_ndx rel)" "\<forall>r \<in> set rel. links r = all_links g (table_ndx r)" "fst r \<in> tables rel"
  shows "linked g rel r = object_links g r"
proof (cases "find (\<lambda>tbl. table_ndx tbl = fst r) rel")
  case None
  then show ?thesis using assms(3) by (auto simp: find_None_iff tables_def)
next
  case (Some it)
  then have "it \<in> set rel" "table_ndx it = fst r" by (auto simp: find_Some_iff)
  then show ?thesis using Some assms(2) by (simp add: linked_def object_links_def)
qed

text \<open>The answers for several rows, from one checker.\<close>

fun run_checks :: "table_graph \<Rightarrow> change_info \<Rightarrow> nat \<Rightarrow> modification_checker \<Rightarrow> nat list \<Rightarrow> checker \<Rightarrow> bool list" where
  "run_checks g info root c [] s = []"
| "run_checks g info root c (ndx # ndxs) s =
     (let (ret, s) = run_checker g info root c ndx s in ret # run_checks g info root c ndxs s)"

definition changed_within :: "table_graph \<Rightarrow> change_info \<Rightarrow> nat \<Rightarrow> nat \<Rightarrow> nat \<Rightarrow> bool" where
  "changed_within g info k root ndx \<longleftrightarrow>
     modified info (root, ndx) \<or> near (object_links g) (modified info) k (root, ndx)"

lemma deep_checks:
  assumes "\<And>ndx. near (linked g rel) (modified info) 3 (root, ndx) = near (object_links g) (modified info) 3 (root, ndx)"
  shows "checker_ok (linked g rel) (modified info) s \<Longrightarrow>
    run_checks g info root (Deep rel) ndxs s = map (changed_within g info 3 root) ndxs"
proof (induction ndxs arbitrary: s)
  case (Cons ndx ndxs)
  obtain ret s' where 1: "check_object g info rel root ndx s = (ret, s')" by fastforce
  note exact = check_object_exact[OF Cons.prems 1]
  then show ?case using Cons.IH[of s'] 1 assms by (auto simp: run_checker_def changed_within_def)
qed simp

lemma plain_checks:
  "run_checks g info root Never_modified ndxs s = map (\<lambda>_. False) ndxs"
  "run_checks g info root (Contained_in mods) ndxs s = map (is_contains mods) ndxs"
  by (induction ndxs) (simp_all add: run_checker_def)

lemma near_unmodified:
  assumes "\<And>r. fst r \<in> C \<Longrightarrow> (\<forall>r' \<in> L r. fst r' \<in> C) \<and> \<not> M r"
  shows "fst r \<in> C \<Longrightarrow> \<not> near L M k r"
proof (induction k arbitrary: r)
  case (Suc k)
  then show ?case using assms by auto
qed simp

text \<open>
  C4. The checker that \<open>get_modification_checker\<close> chooses, whichever of the three it is, answers
  for every row, in any order and any number of times, whether the row or a row within three links
  of it was modified. The depth limit, the cache of rows found unmodified and the cut at cycles
  never change an answer. Excepted is a root table that has a link to itself and none to another
  table, for which the code is wrong (\<open>self_links_not_followed\<close>). The targets of links are tables
  of the group; related tables that are handed over are those found in it.
\<close>

theorem modification_checker_exact:
  assumes "in_group g N" "root < N" "N < n"
    and "\<forall>c \<in> set (info_tables info). crv_inv (modifications c)"
    and "schema_changed info \<or> find_related_tables g n root [] = Some related"
    and "(root, root) \<in> table_links g \<longrightarrow> (\<exists>u. u \<noteq> root \<and> (root, u) \<in> table_links g)"
    and "length p = max_depth"
  shows "\<exists>c rel. get_modification_checker g info n root related = Some (c, rel) \<and>
    run_checks g info root c ndxs (new_checker p) = map (changed_within g info 3 root) ndxs"
proof -
  obtain rel where rel: "find_related_tables g n root [] = Some rel" "distinct (map table_ndx rel)"
      "tables rel = (table_links g)\<^sup>* `` {root}" "\<forall>r \<in> set rel. links r = all_links g (table_ndx r)"
    using related_tables_exact[OF assms(1-3)] by blast
  have root: "root \<in> tables rel" by (simp add: rel(3))
  have closed: "fst r' \<in> tables rel" if "fst r \<in> tables rel" "r' \<in> object_links g r" for r r'
    using that object_links_table[OF that(2)] by (auto simp: rel(3))
  have "(if schema_changed info then find_related_tables g n root [] else Some related) = Some rel"
    using assms(5) rel(1) by auto
  note unfold = get_modification_checker_def[of g info n root related, unfolded this option.simps]
  show ?thesis
  proof (cases "list_ex (table_modified info) rel")
    case False
    then have "\<not> modified info r" if "fst r \<in> tables rel" for r
    proof -
      have "\<forall>tbl \<in> set rel. \<not> table_modified info tbl" using False by (simp add: list_ex_iff)
      then have "fst r < length (info_tables info) \<longrightarrow> crv_empty (modifications (info_tables info ! fst r))"
        using that by (auto simp: table_modified_def tables_def)
      then have "modifications (info_tables info ! fst r) = []" if "fst r < length (info_tables info)"
        using that by (simp add: crv_empty_def)
      then show ?thesis using ix.mem[OF crv_inv_Nil] by (auto simp: modified_def row_modified_def elems_Nil)
    qed
    then have "\<not> changed_within g info 3 root ndx" for ndx
      using near_unmodified[of "tables rel" "object_links g" "modified info" "(root, ndx)" 3] closed root
      by (auto simp: changed_within_def)
    then show ?thesis using False unfold by (simp add: plain_checks)
  next
    case True
    show ?thesis
    proof (cases "length rel = 1")
      case False
      have "near (linked g rel) (modified info) 3 (root, ndx) = near (object_links g) (modified info) 3 (root, ndx)" for ndx
        using near_cong[of "tables rel" "linked g rel" "object_links g" "(root, ndx)"] linked_found[OF rel(2,4)] closed root
        by simp
      moreover have "checker_ok (linked g rel) (modified info) (new_checker p)"
        using assms(7) by (simp add: checker_ok_def new_checker_def)
      ultimately show ?thesis using True False unfold deep_checks by simp
    next
      case single: True
      then obtain it where it: "rel = [it]" by (auto simp: length_Suc_conv)
      then have self: "table_ndx it = root" "tables rel = {root}" using root by (auto simp: tables_def)
      then have "\<not> (\<exists>u. (root, u) \<in> table_links g)"
        using assms(6) rel(3) by (metis Image_singleton_iff r_into_rtrancl singletonD)
      then have "object_links g (root, ndx) = {}" for ndx using object_links_table[of _ g "(root, ndx)"] by auto
      then have "\<not> near (object_links g) (modified info) 3 (root, ndx)" for ndx by (simp add: numeral_3_eq_3)
      moreover have "root < length (info_tables info)" using True it self by (auto simp: table_modified_def)
      ultimately have "changed_within g info 3 root = is_contains (modifications (info_tables info ! root))"
        by (auto simp: changed_within_def modified_def row_modified_def)
      then show ?thesis using True single unfold it self by (simp add: plain_checks)
    qed
  qed
qed

text \<open>Person 2 was modified; a log with one builder per table.\<close>

definition sample_info :: change_info where
  "sample_info = \<lparr>info_tables = [make_builder [] [] (is_add [] 2) [], make_builder [] [] [] []], schema_changed = True\<rparr>"

lemma sample_not_self: "(0, 0) \<in> table_links sample_graph \<longrightarrow> (\<exists>u. u \<noteq> 0 \<and> (0, u) \<in> table_links sample_graph)"
proof -
  have "get_link_target sample_graph 0 1 = 1" by (simp add: sample_graph_def)
  then have "(0, 1) \<in> table_links sample_graph"
    by (simp add: table_links_def sample_links(1) targets_of_def)
  then show ?thesis by (metis zero_neq_one)
qed

lemma sample_info_inv: "\<forall>c \<in> set (info_tables sample_info). crv_inv (modifications c)"
  using ix.add[OF crv_inv_Nil, of 2] by (simp add: sample_info_def make_builder_def crv_inv_Nil)

definition blank_path :: "path list" where
  "blank_path = replicate 4 \<lparr>path_table = 0, path_row = 0, path_col = 0, depth_exceeded = False\<rparr>"

lemma modification_checker_exact_witness:
  "\<exists>c rel. get_modification_checker sample_graph sample_info 3 0 [] = Some (c, rel) \<and>
    run_checks sample_graph sample_info 0 c [0, 2, 3] (new_checker blank_path) =
      map (changed_within sample_graph sample_info 3 0) [0, 2, 3]"
  by (rule modification_checker_exact[OF sample_in_group _ _ sample_info_inv _ sample_not_self])
    (simp_all add: sample_info_def blank_path_def max_depth_def)

text \<open>Persons with one friend each; the friend of person 0 is person 1, who was modified.\<close>

definition friends_graph :: table_graph where
  "friends_graph = \<lparr>get_column_count = (\<lambda>t. 1), get_column_type = (\<lambda>t i. Type_Link), get_link_target = (\<lambda>t i. 0),
     get_link = (\<lambda>t i row. if row = 0 then Some 1 else None), get_linklist = (\<lambda>t i row. [])\<rparr>"

definition friend_info :: change_info where
  "friend_info = \<lparr>info_tables = [make_builder [] [] (is_add [] 1) []], schema_changed = False\<rparr>"

text \<open>
  C22. In a table whose only links lead to itself, changes behind a link are not seen:
  \<open>get_modification_checker\<close> takes a single related table for one without links. The search
  itself would find them.
\<close>

lemma self_links_not_followed:
  "find_related_tables friends_graph 2 0 [] = Some [\<lparr>table_ndx = 0, links = all_links friends_graph 0\<rparr>] \<and>
   get_modification_checker friends_graph friend_info 2 0 [\<lparr>table_ndx = 0, links = all_links friends_graph 0\<rparr>] =
     Some (Contained_in (is_add [] 1), [\<lparr>table_ndx = 0, links = all_links friends_graph 0\<rparr>]) \<and>
   \<not> is_contains (is_add [] 1) 0 \<and> changed_within friends_graph friend_info 3 0 0 \<and>
   fst (check_object friends_graph friend_info [\<lparr>table_ndx = 0, links = all_links friends_graph 0\<rparr>] 0 0
     (new_checker blank_path))"
proof -
  have links: "all_links friends_graph 0 = [\<lparr>col_ndx = 0, is_list = False\<rparr>]" by code_simp
  have c: "crv_inv (is_add [] 1)" "elems (is_add [] 1) = {1}"
    using ix.add[OF crv_inv_Nil, of 1] by (simp_all add: elems_Nil)
  have ne: "is_add [] 1 \<noteq> []"
  proof
    assume "is_add [] 1 = []"
    then show False using c(2) by (metis elems_Nil empty_not_insert)
  qed
  have mem: "is_contains (is_add [] 1) x \<longleftrightarrow> x = 1" for x using ix.mem[OF c(1)] c(2) by simp
  have mods: "modified friend_info (0, x) \<longleftrightarrow> x = 1" for x
    using mem by (simp add: modified_def row_modified_def friend_info_def make_builder_def)
  have "object_links friends_graph (0, 0) = {(0, 1)}"
    by (simp add: object_links_def links link_rows_def dests_def) (simp add: friends_graph_def)
  then have near: "changed_within friends_graph friend_info 3 0 0"
    by (simp add: changed_within_def mods numeral_3_eq_3)
  have find: "find_related_tables friends_graph 2 0 [] = Some [\<lparr>table_ndx = 0, links = all_links friends_graph 0\<rparr>]"
  proof -
    have "0 \<noteq> npos" by (simp add: npos_def)
    then show ?thesis unfolding links by (simp add: numeral_2_eq_2 friends_graph_def Let_def)
  qed
  have "linked friends_graph [\<lparr>table_ndx = 0, links = all_links friends_graph 0\<rparr>] r = object_links friends_graph r" if "fst r \<in> {0}" for r
    using that linked_found[of "[\<lparr>table_ndx = 0, links = all_links friends_graph 0\<rparr>]" friends_graph r] by (simp add: tables_def)
  moreover have "\<forall>r' \<in> object_links friends_graph r. fst r' \<in> {0}" for r
    by (auto simp: object_links_def link_rows_def) (simp add: friends_graph_def)
  ultimately have "near (linked friends_graph [\<lparr>table_ndx = 0, links = all_links friends_graph 0\<rparr>]) (modified friend_info) 3 (0, 0) =
      near (object_links friends_graph) (modified friend_info) 3 (0, 0)"
    by (intro near_cong[of "{0}"]) simp_all
  moreover have "near (object_links friends_graph) (modified friend_info) 3 (0, 0)"
    using near mods[of 0] unfolding changed_within_def by simp
  ultimately have "near (linked friends_graph [\<lparr>table_ndx = 0, links = all_links friends_graph 0\<rparr>]) (modified friend_info) 3 (0, 0)"
    by simp
  moreover have "checker_ok L M (new_checker blank_path)" for L M
    by (simp add: checker_ok_def new_checker_def blank_path_def max_depth_def)
  ultimately have "fst (check_object friends_graph friend_info [\<lparr>table_ndx = 0, links = all_links friends_graph 0\<rparr>] 0 0 (new_checker blank_path))"
    using check_object_exact[OF _ prod.collapse[symmetric]] by blast
  moreover have "get_modification_checker friends_graph friend_info 2 0 [\<lparr>table_ndx = 0, links = all_links friends_graph 0\<rparr>] =
     Some (Contained_in (is_add [] 1), [\<lparr>table_ndx = 0, links = all_links friends_graph 0\<rparr>])"
    using ne by (simp add: get_modification_checker_def friend_info_def table_modified_def make_builder_def crv_empty_def)
  moreover have "\<not> is_contains (is_add [] 1) 0" using mem by simp
  ultimately show ?thesis using find near by blast
qed

end
