(* ===== verification/Notifier.thy ===== *)
theory Notifier
  imports Callback_List Change_Props
begin

text \<open>
  \<open>CollectionNotifier\<close> and \<open>NotifierPackage\<close> (\<open>impl/collection_notifier.cpp\<close>): the
  changes of a collection are accumulated for each callback on the background worker, packaged on
  the target thread and delivered before and after the Realm advances.

  A moved-from change set is empty. A callback runs without the lock and may add and remove
  callbacks, given by a function \<open>beh\<close> of its token, as in \<open>Callback_List\<close>. What the derived
  notifiers do (\<open>prepare_to_deliver\<close>, \<open>deliver\<close>) is a parameter here.
\<close>

record notified =
  fn :: nat
  accumulated_changes :: change_builder
  changes_to_deliver :: change_set
  initial_delivered :: bool
  skip_next :: bool

definition no_changes :: change_set where
  "no_changes = \<lparr>deletions = [], insertions = [], modifications = [], modifications_new = [], moves = [], columns = []\<rparr>"

record notifier =
  m_sg_version :: nat
  m_has_run :: bool
  m_error :: bool
  m_have_callbacks :: bool
  callbacks_of :: "notified callback_list"

definition new_notifier :: "nat \<Rightarrow> notifier" where
  "new_notifier version =
     \<lparr>m_sg_version = version, m_has_run = False, m_error = False, m_have_callbacks = False,
      callbacks_of = callback_list_init\<rparr>"

definition new_notified :: "nat \<Rightarrow> notified" where
  "new_notified f = \<lparr>fn = f, accumulated_changes = empty_builder, changes_to_deliver = no_changes,
     initial_delivered = False, skip_next = False\<rparr>"

text \<open>The result says whether the notifier worker is woken up.\<close>

definition notifier_add :: "nat \<Rightarrow> notifier \<Rightarrow> nat \<times> bool \<times> notifier" where
  "notifier_add f n =
     (let (token, cs) = add_callback (new_notified f) (callbacks_of n);
          n = n\<lparr>callbacks_of := cs\<rparr>
      in if m_callback_index cs = npos then (token, True, n\<lparr>m_have_callbacks := True\<rparr>)
         else (token, False, n))"

definition notifier_remove :: "nat \<Rightarrow> notifier \<Rightarrow> notifier" where
  "notifier_remove token n =
     (if token \<notin> fst ` set (m_callbacks (callbacks_of n)) then n
      else let cs = remove_callback token (callbacks_of n)
           in n\<lparr>callbacks_of := cs, m_have_callbacks := (m_callbacks cs \<noteq> [])\<rparr>)"

definition change_callbacks :: "(nat \<times> notified \<Rightarrow> nat \<times> notified) \<Rightarrow> notifier \<Rightarrow> notifier" where
  "change_callbacks f n = n\<lparr>callbacks_of := (callbacks_of n)\<lparr>m_callbacks := map f (m_callbacks (callbacks_of n))\<rparr>\<rparr>"

definition suppress_next_notification :: "nat \<Rightarrow> notifier \<Rightarrow> notifier" where
  "suppress_next_notification token n =
     change_callbacks (\<lambda>(t, c). (t, if t = token then c\<lparr>skip_next := True\<rparr> else c)) n"

definition prepare_handover :: "nat \<Rightarrow> notifier \<Rightarrow> notifier" where
  "prepare_handover version n = n\<lparr>m_sg_version := version, m_has_run := True\<rparr>"

definition add_change :: "change_builder \<Rightarrow> notified \<Rightarrow> notified" where
  "add_change change c =
     (if skip_next c then c\<lparr>skip_next := False\<rparr>
      else c\<lparr>accumulated_changes := cb_merge (accumulated_changes c) change\<rparr>)"

definition add_changes :: "change_builder \<Rightarrow> notifier \<Rightarrow> notifier" where
  "add_changes change n = change_callbacks (\<lambda>(t, c). (t, add_change change c)) n"

text \<open>\<open>finalize\<close> moves everything out of the builder but the move mapping and the column flag.\<close>

definition moved_from :: "change_builder \<Rightarrow> change_builder" where
  "moved_from t = t\<lparr>deletions := [], insertions := [], modifications := [], modifications_new := [],
     moves := [], columns := []\<rparr>"

definition package_changes :: "notified \<Rightarrow> notified" where
  "package_changes c = c\<lparr>changes_to_deliver := finalize (accumulated_changes c),
     accumulated_changes := moved_from (accumulated_changes c)\<rparr>"

definition package_for_delivery :: "bool \<Rightarrow> notifier \<Rightarrow> bool \<times> notifier" where
  "package_for_delivery prepared n =
     (if \<not> prepared then (False, n)
      else
        let n = change_callbacks (\<lambda>(t, c). (t, package_changes c)) n;
            cs = callbacks_of n
        in (True, n\<lparr>callbacks_of := cs\<lparr>m_callback_count := length (m_callbacks cs)\<rparr>\<rparr>))"

subsection \<open>Delivery\<close>

datatype call = Before change_set | After change_set | Error nat

datatype notifier_op = Add_callback nat | Remove_callback nat

fun run_notifier_op :: "notifier_op \<Rightarrow> notifier \<Rightarrow> notifier" where
  "run_notifier_op (Add_callback f) n = snd (snd (notifier_add f n))"
| "run_notifier_op (Remove_callback token) n = notifier_remove token n"

text \<open>
  The loop: \<open>f\<close> is what happens to a callback before the lock is released, with the call made
  then, if any, and \<open>after\<close> what happens when the call returns.
\<close>

fun for_each_callback ::
  "(notified \<Rightarrow> notified \<times> call option) \<Rightarrow> (nat \<Rightarrow> notifier \<Rightarrow> notifier) \<Rightarrow> nat \<Rightarrow> notifier \<Rightarrow>
     ((nat \<times> call) list \<times> notifier) option" where
  "for_each_callback f after 0 n = None"
| "for_each_callback f after (Suc fuel) n =
     (let cs = (callbacks_of n)\<lparr>m_callback_index := size_inc (m_callback_index (callbacks_of n))\<rparr>;
          i = m_callback_index cs
      in if i < m_callback_count cs then
           let (token, c) = m_callbacks cs ! i; (c, call) = f c;
               n = n\<lparr>callbacks_of := cs\<lparr>m_callbacks := (m_callbacks cs)[i := (token, c)]\<rparr>\<rparr>;
               n = (if call = None then n else after token n)
           in case for_each_callback f after fuel n of
                None \<Rightarrow> None
              | Some (calls, n) \<Rightarrow> Some ((case call of None \<Rightarrow> [] | Some k \<Rightarrow> [(fn c, k)]) @ calls, n)
         else Some ([], n\<lparr>callbacks_of := cs\<lparr>m_callback_index := npos\<rparr>\<rparr>))"

definition runs :: "(nat \<Rightarrow> notifier_op list) \<Rightarrow> nat \<Rightarrow> notifier \<Rightarrow> notifier" where
  "runs beh token n = fold run_notifier_op (beh token) n"

definition before_advance ::
  "(nat \<Rightarrow> notifier_op list) \<Rightarrow> nat \<Rightarrow> notifier \<Rightarrow> ((nat \<times> call) list \<times> notifier) option" where
  "before_advance beh fuel n =
     for_each_callback (\<lambda>c. if cs_empty (changes_to_deliver c) then (c, None)
        else (c, Some (Before (changes_to_deliver c)))) (runs beh) fuel n"

definition after_advance ::
  "(nat \<Rightarrow> notifier_op list) \<Rightarrow> nat \<Rightarrow> notifier \<Rightarrow> ((nat \<times> call) list \<times> notifier) option" where
  "after_advance beh fuel n =
     for_each_callback (\<lambda>c. if initial_delivered c \<and> cs_empty (changes_to_deliver c) then (c, None)
        else (c\<lparr>initial_delivered := True, changes_to_deliver := no_changes\<rparr>,
              Some (After (changes_to_deliver c)))) (runs beh) fuel n"

definition deliver_error ::
  "nat \<Rightarrow> (nat \<Rightarrow> notifier_op list) \<Rightarrow> nat \<Rightarrow> notifier \<Rightarrow> ((nat \<times> call) list \<times> notifier) option" where
  "deliver_error err beh fuel n =
     (let cs = callbacks_of n; n = n\<lparr>m_error := True, callbacks_of := cs\<lparr>m_callback_count := length (m_callbacks cs)\<rparr>\<rparr>
      in for_each_callback (\<lambda>c. (c, Some (Error err))) (\<lambda>token n. notifier_remove token (runs beh token n)) fuel n)"

subsection \<open>Packages of notifiers\<close>

record package_of_notifiers =
  m_version :: "nat option"
  m_notifiers :: "notifier list"
  has_coordinator :: bool
  package_error :: "nat option"

text \<open>The notifiers that the package waits for, whether it may go on, and what it does then.\<close>

definition ready :: "nat option \<Rightarrow> notifier list \<Rightarrow> bool" where
  "ready target ns = (case target of None \<Rightarrow> True
     | Some v \<Rightarrow> list_all (\<lambda>n. \<not> m_have_callbacks n \<or> m_has_run n \<and> v \<le> m_sg_version n) ns)"

fun package_notifiers :: "(notifier \<Rightarrow> bool) \<Rightarrow> notifier list \<Rightarrow> nat option \<Rightarrow> notifier list \<times> nat option" where
  "package_notifiers prepare [] version = ([], version)"
| "package_notifiers prepare (n # ns) version =
     (let (packaged, n') = (if m_has_run n then package_for_delivery (prepare n) n else (False, n));
          (ns', version) = package_notifiers prepare ns (if packaged then Some (m_sg_version n) else version)
      in (if packaged then n' # ns' else ns', version))"

definition package_and_wait :: "(notifier \<Rightarrow> bool) \<Rightarrow> nat option \<Rightarrow> package_of_notifiers \<Rightarrow> package_of_notifiers" where
  "package_and_wait prepare target p =
     (if \<not> has_coordinator p \<or> package_error p \<noteq> None \<or> m_notifiers p = [] then p
      else
        let (ns, version) = package_notifiers prepare (m_notifiers p) (m_version p);
            p = p\<lparr>m_notifiers := ns, m_version := version\<rparr>;
            p = (case (version, target) of
                   (Some v, Some tv) \<Rightarrow> if v < tv then p\<lparr>m_notifiers := [], m_version := None\<rparr> else p
                 | _ \<Rightarrow> p)
        in p\<lparr>has_coordinator := False\<rparr>)"

subsection \<open>What a callback is told\<close>

text \<open>The changes after a callback was registered, one builder per transaction, as far as they merge.\<close>

fun merged :: "'a list \<Rightarrow> 'a list list \<Rightarrow> change_builder list \<Rightarrow> change_builder \<Rightarrow> bool" where
  "merged B [] [] t = True"
| "merged B (C # Cs) (c # cs) t =
     (tracks B C c \<and> m_move_mapping c = [] \<and> merge_fits t c \<and> merged C Cs cs (cb_merge t c))"
| "merged B _ _ t = False"

lemma merge_mapping:
  assumes t: "tracks A B t" "m_move_mapping t = []" and c: "tracks B C c" "m_move_mapping c = []"
  shows "m_move_mapping (cb_merge t c) = []"
proof (cases "cs_empty c \<or> cs_empty t")
  case True
  then show ?thesis using t(2) c(2) by (auto simp: cb_merge_def)
next
  case ne: False
  obtain t1 c1 where old: "merge_old t c = (t1, c1)" by (cases "merge_old t c")
  obtain t2 c2 where mm: "merge_moves t c = (t2, c2)" by (cases "merge_moves t c")
  note o = merge_old_links[OF t c old]
  have "crv_inv (deletions t1)" "crv_inv (insertions t1)" using o(1,2) t(1) by (simp_all add: tracks_def)
  then have "m_move_mapping t2 = []" using merge_moves_eq(3)[OF old _ _ mm] o(3) by simp
  then show ?thesis
    using ne mm by (auto simp: cb_merge_def Let_def clean_up_stale_moves_def split: prod.splits)
qed

lemma merged_tracks:
  "tracks A B t \<Longrightarrow> m_move_mapping t = [] \<Longrightarrow> merged B Cs cs t \<Longrightarrow>
    tracks A (last (B # Cs)) (fold (\<lambda>c t. cb_merge t c) cs t) \<and> m_move_mapping (fold (\<lambda>c t. cb_merge t c) cs t) = []"
proof (induction B Cs cs t rule: merged.induct)
  case (2 B C Cs c cs t)
  then have "tracks A C (cb_merge t c)" "m_move_mapping (cb_merge t c) = []"
    using cb_merge_tracks[of A B t C c] merge_mapping[of A B t C c] by simp_all
  then show ?case using 2 by auto
qed auto

text \<open>What the other callbacks do has no influence on one of them.\<close>

definition entry :: "nat \<Rightarrow> notifier \<Rightarrow> notified option" where
  "entry token n = map_of (m_callbacks (callbacks_of n)) token"

lemma entry_change:
  "entry token (change_callbacks (\<lambda>(t, c). (t, f t c)) n) = map_option (f token) (entry token n)"
proof -
  have "map_of (map (\<lambda>(t, c). (t, f t c)) cs) token = map_option (f token) (map_of cs token)" for cs
    by (induction cs) auto
  then show ?thesis by (simp add: entry_def change_callbacks_def)
qed

lemma entry_add_changes:
  "entry token n = Some c \<Longrightarrow> entry token (fold add_changes cs n) = Some (fold add_change cs c)"
  by (induction cs arbitrary: n c) (simp_all add: add_changes_def entry_change)

lemma entry_package:
  "entry token (snd (package_for_delivery True n)) = map_option package_changes (entry token n)"
  using entry_change[of token "\<lambda>_. package_changes" n]
  by (simp add: package_for_delivery_def Let_def entry_def)

lemma fold_add_change:
  "\<not> skip_next c \<Longrightarrow> fold add_change cs c = c\<lparr>accumulated_changes := fold (\<lambda>c t. cb_merge t c) cs (accumulated_changes c)\<rparr>"
  by (induction cs arbitrary: c) (simp_all add: add_change_def)

lemma moved_from_tracks: "tracks C C (moved_from t) \<longleftrightarrow> m_move_mapping t = []"
  by (auto simp: moved_from_def tracks_def diff_ok_def links_def links_ok_def crv_inv_Nil elems_Nil)

end
