(* ===== verification/Notifier_Errors.thy ===== *)
theory Notifier_Errors
  imports Notifier
begin

text \<open>
  What happens to the list of a notifier's callbacks while an error is delivered: callbacks add
  and remove callbacks, and each is removed after it was called.
\<close>

subsection \<open>Callbacks that change the list\<close>

text \<open>The operations on a notifier are operations on its list of callbacks.\<close>

fun list_op :: "notifier_op \<Rightarrow> notified callback_op" where
  "list_op (Add_callback f) = Add (new_notified f)"
| "list_op (Remove_callback token) = Remove token"

lemma remove_on_list: "callbacks_of (notifier_remove token n) = remove_callback token (callbacks_of n)"
  using remove_absent[of token "callbacks_of n"] by (simp add: notifier_remove_def Let_def)

lemma op_on_list: "callbacks_of (run_notifier_op op n) = run_op (list_op op) (callbacks_of n)"
  by (cases op) (simp_all add: remove_on_list notifier_add_def case_prod_beta Let_def)

lemma ops_on_list: "callbacks_of (fold run_notifier_op ops n) = fold run_op (map list_op ops) (callbacks_of n)"
  by (induction ops arbitrary: n) (simp_all add: op_on_list)

lemma op_keeps_error: "m_error (run_notifier_op op n) = m_error n"
  by (cases op) (simp_all add: notifier_add_def notifier_remove_def case_prod_beta Let_def)

lemma ops_keep_error: "m_error (fold run_notifier_op ops n) = m_error n"
  by (induction ops arbitrary: n) (simp_all add: op_keeps_error)

text \<open>What operations leave of the entries, if they remove none of those they add.\<close>

fun added_by :: "notifier_op list \<Rightarrow> nat list" where
  "added_by [] = []"
| "added_by (Add_callback f # ops) = f # added_by ops"
| "added_by (Remove_callback token # ops) = added_by ops"

lemma removed_entries:
  assumes "distinct (map fst (m_callbacks s))"
  shows "m_callbacks (remove_callback t s) = filter (\<lambda>e. fst e \<noteq> t) (m_callbacks s)"
proof (cases "t \<in> fst ` set (m_callbacks s)")
  case True
  then obtain us v vs where s: "m_callbacks s = us @ v # vs" "fst v = t" by (metis imageE split_list)
  have "\<forall>e \<in> set us. fst e \<noteq> t" "\<forall>e \<in> set vs. fst e \<noteq> t" using assms s by (auto simp: image_iff)
  moreover from this(1) have "find_if (\<lambda>c. fst c = t) (m_callbacks s) = length us" by (simp add: s find_if_append)
  moreover have "filter (\<lambda>e. fst e \<noteq> t) us = us" "filter (\<lambda>e. fst e \<noteq> t) vs = vs" using calculation(1,2) by (simp_all add: filter_id_conv)
  ultimately show ?thesis using s by (simp add: remove_callback_def Let_def)
next
  case False
  then have "\<forall>e \<in> set (m_callbacks s). fst e \<noteq> t" by (metis image_eqI)
  moreover have "remove_callback t s = s" using False by (intro remove_absent) simp
  ultimately show ?thesis by (simp add: filter_id_conv)
qed

definition new_entries :: "nat \<Rightarrow> nat list \<Rightarrow> (nat \<times> notified) list" where
  "new_entries k fs = map (\<lambda>(t, f). (t, new_notified f)) (enumerate k fs)"

lemma new_entries_simps [simp]: "new_entries k [] = []" "new_entries k (f # fs) = (k, new_notified f) # new_entries (Suc k) fs"
  by (simp_all add: new_entries_def)

lemma new_entries_append: "new_entries k (fs @ gs) = new_entries k fs @ new_entries (k + length fs) gs"
  by (simp add: new_entries_def enumerate_append_eq)

lemma ops_entries:
  assumes "callbacks_ok (s\<lparr>m_callback_index := npos\<rparr>)" "removed_by (map list_op ops) \<subseteq> {..< k}" "k \<le> m_next_token s"
  shows "m_callbacks (fold run_op (map list_op ops) s) =
      filter (\<lambda>e. fst e \<notin> removed_by (map list_op ops)) (m_callbacks s) @ new_entries (m_next_token s) (added_by ops) \<and>
    m_next_token (fold run_op (map list_op ops) s) = m_next_token s + length (added_by ops)"
  using assms
proof (induction ops arbitrary: s)
  case (Cons op ops)
  let ?s = "run_op (list_op op) s"
  have ok: "callbacks_ok (?s\<lparr>m_callback_index := npos\<rparr>)"
  proof (cases op)
    case (Add_callback f)
    have "(snd (add_callback (new_notified f) s))\<lparr>m_callback_index := npos\<rparr> = snd (add_callback (new_notified f) (s\<lparr>m_callback_index := npos\<rparr>))"
      by (simp add: add_callback_def)
    then show ?thesis using callbacks_add[OF Cons.prems(1)] Add_callback by simp
  next
    case (Remove_callback t)
    have "m_callbacks (remove_callback t s) = m_callbacks (remove_callback t (s\<lparr>m_callback_index := npos\<rparr>))"
      "m_next_token (remove_callback t s) = m_next_token (remove_callback t (s\<lparr>m_callback_index := npos\<rparr>))"
      by (simp_all add: remove_callback_def Let_def)
    then show ?thesis using callbacks_remove[OF Cons.prems(1), of t] Remove_callback by (simp add: callbacks_ok_def)
  qed
  show ?case
  proof (cases op)
    case (Add_callback f)
    have "removed_by (map list_op ops) \<subseteq> {..< k}" "m_next_token s \<notin> removed_by (map list_op ops)"
      using Cons.prems(2,3) by (auto simp: removed_by_def Add_callback)
    then show ?thesis
      using Cons.IH[OF ok] Cons.prems(3) by (simp add: Add_callback add_callback_def removed_by_def)
  next
    case (Remove_callback t)
    have "removed_by (map list_op ops) \<subseteq> {..< k}" using Cons.prems(2) by (auto simp: removed_by_def Remove_callback)
    moreover have "m_callbacks ?s = filter (\<lambda>e. fst e \<noteq> t) (m_callbacks s)" "m_next_token ?s = m_next_token s"
      using removed_entries[of s t] Cons.prems(1) Remove_callback by (simp_all add: callbacks_ok_def remove_callback_def Let_def)
    ultimately show ?thesis
      using Cons.IH[OF ok] Cons.prems(3) by (simp add: Remove_callback removed_by_def filter_filter conj_commute)
  qed
qed (simp add: removed_by_def)

subsection \<open>One round of the loop\<close>

text \<open>Whether there are callbacks is known again when the callback that was called is gone.\<close>

definition running :: "nat \<Rightarrow> notifier \<Rightarrow> bool" where
  "running token n \<longleftrightarrow> (let cs = callbacks_of n in
     (m_callback_index cs = 0 \<and> m_callbacks cs \<noteq> [] \<and> fst (hd (m_callbacks cs)) = token) \<or>
     (m_callback_index cs = npos \<and> (m_have_callbacks n \<longleftrightarrow> m_callbacks cs \<noteq> [])))"

lemma running_remove: "running token n \<Longrightarrow> running token (notifier_remove t n)"
proof (cases "m_callbacks (callbacks_of n)")
  case (Cons e es)
  assume r: "running token n"
  have i: "find_if (\<lambda>c. fst c = t) (e # es) = (if fst e = t then 0 else Suc (find_if (\<lambda>c. fst c = t) es))" by simp
  show ?thesis
    using r Cons i by (auto simp: running_def notifier_remove_def remove_callback_def Let_def npos_def size_dec_def)
qed (simp add: running_def notifier_remove_def)

lemma running_op: "running token n \<Longrightarrow> running token (run_notifier_op op n)"
proof (cases op)
  case (Add_callback f)
  assume "running token n"
  then show ?thesis using Add_callback
    by (auto simp: running_def notifier_add_def add_callback_def Let_def npos_def)
qed (simp add: running_remove)

lemma running_ops: "running token n \<Longrightarrow> running token (fold run_notifier_op ops n)"
  by (induction ops arbitrary: n) (simp_all add: running_op)

lemma running_removed:
  assumes "running token n"
  shows "m_have_callbacks (notifier_remove token n) \<longleftrightarrow> m_callbacks (callbacks_of (notifier_remove token n)) \<noteq> []"
proof (cases "token \<in> fst ` set (m_callbacks (callbacks_of n))")
  case True
  then show ?thesis by (simp add: notifier_remove_def Let_def)
next
  case False
  then have "\<not> (m_callbacks (callbacks_of n) \<noteq> [] \<and> fst (hd (m_callbacks (callbacks_of n))) = token)" by auto
  then show ?thesis using assms False by (auto simp: running_def notifier_remove_def Let_def)
qed

abbreviation error_loop ::
  "nat \<Rightarrow> (nat \<Rightarrow> notifier_op list) \<Rightarrow> nat \<Rightarrow> notifier \<Rightarrow> ((nat \<times> call) list \<times> notifier) option" where
  "error_loop err beh \<equiv> for_each_callback (\<lambda>c. (c, Some (Error err))) (\<lambda>token n. notifier_remove token (runs beh token n))"

lemma error_loop_step:
  assumes "m_callbacks (callbacks_of n) = (t, c) # es" "m_callback_index (callbacks_of n) = npos" "0 < m_callback_count (callbacks_of n)"
  shows "error_loop err beh (Suc fuel) n = map_option (\<lambda>(calls, n). ((fn c, Error err) # calls, n))
    (error_loop err beh fuel (notifier_remove t (fold run_notifier_op (beh t) (n\<lparr>callbacks_of := (callbacks_of n)\<lparr>m_callback_index := 0\<rparr>\<rparr>))))"
proof -
  define m where "m = n\<lparr>callbacks_of := (callbacks_of n)\<lparr>m_callback_index := 0\<rparr>\<rparr>"
  have "m = n\<lparr>callbacks_of := (callbacks_of n)\<lparr>m_callback_index := 0, m_callbacks := (t, c) # es\<rparr>\<rparr>"
    using assms(1) by (simp add: m_def)
  then show ?thesis using assms unfolding m_def[symmetric] by (simp add: size_inc_def Let_def runs_def split: option.split)
qed

text \<open>The entries after a round: the called one and those that it removed are gone, those it added are last.\<close>

lemma error_round:
  defines "R \<equiv> \<lambda>beh t. removed_by (map list_op (beh t))"
  assumes at: "at [] (t # map fst es) (map fst le) (callbacks_of n)" and e: "m_callbacks (callbacks_of n) = (t, c) # es @ le"
    and k: "R beh t \<subseteq> {..< k}" "\<forall>x \<in> set (map fst le). k \<le> x" "k \<le> m_next_token (callbacks_of n)"
  defines "n' \<equiv> notifier_remove t (fold run_notifier_op (beh t) (n\<lparr>callbacks_of := (callbacks_of n)\<lparr>m_callback_index := 0\<rparr>\<rparr>))"
  defines "es' \<equiv> filter (\<lambda>e. fst e \<notin> R beh t) es" and "new \<equiv> new_entries (m_next_token (callbacks_of n)) (added_by (beh t))"
  shows "m_callbacks (callbacks_of n') = es' @ le @ new" "at [] (map fst es') (map fst (le @ new)) (callbacks_of n')"
    "m_next_token (callbacks_of n') = m_next_token (callbacks_of n) + length (added_by (beh t))"
    "m_error n' = m_error n" "m_have_callbacks n' \<longleftrightarrow> m_callbacks (callbacks_of n') \<noteq> []"
proof -
  let ?n1 = "n\<lparr>callbacks_of := (callbacks_of n)\<lparr>m_callback_index := 0\<rparr>\<rparr>"
  let ?s1 = "callbacks_of ?n1" and ?ops = "map list_op (beh t)"
  let ?s2 = "fold run_op ?ops ?s1"
  have s2: "callbacks_of (fold run_notifier_op (beh t) ?n1) = ?s2" by (simp add: ops_on_list)
  have n': "callbacks_of n' = remove_callback t ?s2" by (simp only: n'_def remove_on_list s2)
  have d: "t \<notin> set (map fst es)" "t \<notin> set (map fst le)" "distinct (map fst (m_callbacks ?s1))" "\<forall>x \<in> set (map fst (m_callbacks ?s1)). x < m_next_token ?s1"
    using at e by (auto simp: at_def)
  have at1: "at [t] (map fst es) (map fst le) ?s1" using at by (simp add: at_def size_dec_def)
  have ok: "callbacks_ok (?s1\<lparr>m_callback_index := npos\<rparr>)" using d(3,4) by (simp add: callbacks_ok_def)
  have R: "removed_by ?ops \<subseteq> {..< k}" using k(1) by (simp add: R_def)
  have "removed_by ?ops \<inter> set (map fst le) = {}" "\<forall>x \<in> removed_by ?ops. x < m_next_token ?s1"
    using R k(2,3) by fastforce+
  from run_ops_at[OF at1 this] obtain late where
    at2: "at (filter (\<lambda>x. x \<notin> removed_by ?ops) [t]) (filter (\<lambda>x. x \<notin> removed_by ?ops) (map fst es)) (map fst le @ late) ?s2"
    and late: "\<forall>x \<in> set late. m_next_token ?s1 \<le> x" by blast
  have tl: "t \<notin> set (map fst le @ late)" using d(2,4) late e by auto
  have le: "filter (\<lambda>e. fst e \<notin> removed_by ?ops) le = le" using R k(2) by (fastforce simp: filter_id_conv)
  have k1: "k \<le> m_next_token ?s1" using k(3) by simp
  note en = ops_entries[OF ok R k1]
  have ne: "\<forall>x \<in> set new. m_next_token (callbacks_of n) \<le> fst x"
    by (auto simp: new_def new_entries_def in_set_enumerate_eq)
  have tn: "t < m_next_token (callbacks_of n)" using d(4) e by simp
  have other: "filter (\<lambda>e. fst e \<noteq> t) xs = xs" if "t \<notin> fst ` set xs" for xs :: "(nat \<times> notified) list"
    unfolding filter_id_conv using that by (metis image_eqI)
  have "t \<notin> fst ` set es'" "t \<notin> fst ` set le" "t \<notin> fst ` set new" using d(1,2) ne tn by (auto simp: es'_def)
  then have f: "filter (\<lambda>e. fst e \<noteq> t) es' = es'" "filter (\<lambda>e. fst e \<noteq> t) le = le" "filter (\<lambda>e. fst e \<noteq> t) new = new"
    by (simp_all add: other)
  have dist: "distinct (map fst (m_callbacks ?s2))" using at2 by (simp add: at_def)
  have c2: "m_callbacks ?s2 = filter (\<lambda>e. fst e \<notin> removed_by ?ops) ((t, c) # es @ le) @ new"
    using en e by (simp add: new_def)
  have "filter (\<lambda>e. fst e \<noteq> t) (filter (\<lambda>e. fst e \<notin> removed_by ?ops) ((t, c) # es @ le) @ new) = es' @ le @ new"
    by (simp add: f(1)[unfolded es'_def R_def] es'_def R_def le f(2,3) del: filter_filter)
  then show cb: "m_callbacks (callbacks_of n') = es' @ le @ new"
    unfolding n' removed_entries[OF dist] c2 .
  have g: "filter (\<lambda>x. x \<noteq> t) (filter (\<lambda>x. x \<notin> removed_by ?ops) [t]) = []"
    "filter (\<lambda>x. x \<noteq> t) (filter (\<lambda>x. x \<notin> removed_by ?ops) (map fst es)) = map fst es'"
    using d(1) by (simp_all add: es'_def filter_map comp_def R_def filter_filter) (rule arg_cong[of _ _ "map fst"], rule filter_cong, auto)
  have at3: "at [] (map fst es') (map fst le @ late) (callbacks_of n')"
    using at_remove[OF at2 tl] unfolding n' g .
  then have "late = map fst new" using cb by (simp add: at_def)
  with at3 show "at [] (map fst es') (map fst (le @ new)) (callbacks_of n')" by simp
  show "m_next_token (callbacks_of n') = m_next_token (callbacks_of n) + length (added_by (beh t))"
    using en by (simp add: n' remove_callback_def Let_def)
  show "m_error n' = m_error n" by (simp add: n'_def notifier_remove_def Let_def ops_keep_error)
  have "running t ?n1" using e by (simp add: running_def)
  then show "m_have_callbacks n' \<longleftrightarrow> m_callbacks (callbacks_of n') \<noteq> []"
    unfolding n'_def by (intro running_removed running_ops)
qed

subsection \<open>The whole loop\<close>

lemma error_loop_calls:
  defines "V \<equiv> \<lambda>beh. visit (\<lambda>t. map list_op (beh t))"
  assumes "at [] (map fst es) (map fst le) (callbacks_of n)" "m_callbacks (callbacks_of n) = es @ le"
    "\<forall>t. removed_by (map list_op (beh t)) \<subseteq> {..< k}" "\<forall>x \<in> set (map fst le). k \<le> x" "k \<le> m_next_token (callbacks_of n)"
    "\<forall>e \<in> set es. fn (snd e) = F (fst e)" "length es < fuel" "es = [] \<Longrightarrow> m_have_callbacks n \<longleftrightarrow> le \<noteq> []"
  shows "\<exists>n'. error_loop err beh fuel n = Some (map (\<lambda>t. (F t, Error err)) (V beh (map fst es)), n') \<and>
    m_callbacks (callbacks_of n') = le @ new_entries (m_next_token (callbacks_of n)) (concat (map (\<lambda>t. added_by (beh t)) (V beh (map fst es)))) \<and>
    m_callback_index (callbacks_of n') = npos \<and> m_error n' = m_error n \<and>
    (m_have_callbacks n' \<longleftrightarrow> m_callbacks (callbacks_of n') \<noteq> [])"
  using assms(2-)
proof (induction fuel arbitrary: n es le)
  case (Suc fuel)
  have idx: "m_callback_index (callbacks_of n) = npos" "m_callback_count (callbacks_of n) = length es"
    using Suc.prems(1) by (simp_all add: at_def size_dec_def)
  show ?case
  proof (cases es)
    case Nil
    then show ?thesis using idx Suc.prems(2,8) by (simp add: size_inc_def V_def Let_def)
  next
    case (Cons e rest)
    obtain t c where e: "e = (t, c)" by (cases e)
    let ?n = "notifier_remove t (fold run_notifier_op (beh t) (n\<lparr>callbacks_of := (callbacks_of n)\<lparr>m_callback_index := 0\<rparr>\<rparr>))"
    let ?R = "removed_by (map list_op (beh t))"
    let ?rest = "filter (\<lambda>e. fst e \<notin> ?R) rest"
    let ?new = "new_entries (m_next_token (callbacks_of n)) (added_by (beh t))"
    have cb: "m_callbacks (callbacks_of n) = (t, c) # rest @ le" "at [] (t # map fst rest) (map fst le) (callbacks_of n)"
      using Suc.prems(1,2) Cons e by simp_all
    note r = error_round[where beh = beh and t = t, OF cb(2,1) spec[OF Suc.prems(3)] Suc.prems(4,5)]
    have k: "\<forall>x \<in> set (map fst (le @ ?new)). k \<le> x" "k \<le> m_next_token (callbacks_of ?n)"
      using Suc.prems(4,5) r(3) by (auto simp: new_entries_def in_set_enumerate_eq )
    have F: "\<forall>e \<in> set ?rest. fn (snd e) = F (fst e)" "length ?rest < fuel" "fn c = F t"
      using Suc.prems(6,7) Cons e by (auto simp: le_less_trans[OF length_filter_le])
    have h: "?rest = [] \<Longrightarrow> m_have_callbacks ?n \<longleftrightarrow> le @ ?new \<noteq> []" using r(1,5) by simp
    obtain n' where n': "error_loop err beh fuel ?n = Some (map (\<lambda>t. (F t, Error err)) (V beh (map fst ?rest)), n')"
        "m_callbacks (callbacks_of n') = (le @ ?new) @
           new_entries (m_next_token (callbacks_of ?n)) (concat (map (\<lambda>t. added_by (beh t)) (V beh (map fst ?rest))))"
        "m_callback_index (callbacks_of n') = npos" "m_error n' = m_error ?n"
        "m_have_callbacks n' \<longleftrightarrow> m_callbacks (callbacks_of n') \<noteq> []"
      using Suc.IH[OF r(2,1) Suc.prems(3) k F(1,2) h] by blast
    have v: "V beh (map fst es) = t # V beh (map fst ?rest)" by (simp add: V_def Cons e filter_map comp_def)
    have "m_callbacks (callbacks_of n') =
        le @ new_entries (m_next_token (callbacks_of n)) (concat (map (\<lambda>t. added_by (beh t)) (V beh (map fst es))))"
      unfolding n'(2) r(3) v by (simp add: new_entries_append)
    moreover have "error_loop err beh (Suc fuel) n = Some (map (\<lambda>t. (F t, Error err)) (V beh (map fst es)), n')"
      unfolding v using error_loop_step[OF cb(1) idx(1), of err beh fuel] n'(1) F(3) idx(2) Cons by (simp del: for_each_callback.simps)
    ultimately show ?thesis using n'(3-5) r(4) by (simp del: for_each_callback.simps)
  qed
qed simp

end
