(* ===== verification/Notifier_Props.thy ===== *)
theory Notifier_Props
  imports Notifier_Errors
begin

text \<open>
  What reaches the callbacks of a \<open>CollectionNotifier\<close>: the changes of several transactions as
  one, and an error once each.
\<close>

text \<open>
  C25. Accumulating and packaging compose: if a callback's builder records the change from \<open>A\<close> to
  \<open>B\<close>, the callback does not skip its next notification, and the transactions since then lead
  from \<open>B\<close> through the lists \<open>Cs\<close>, each tracked by its change set and each merge fitting its
  chunks, packaging leaves for
  delivery the finalized record of the change from \<open>A\<close> to the last list, and the builder that
  remains starts over at that list; other callbacks, whatever they have accumulated, do not matter.
\<close>

theorem delivered_changes_compose:
  assumes "entry token n = Some c" "\<not> skip_next c"
    and "tracks A B (accumulated_changes c)" "m_move_mapping (accumulated_changes c) = []"
    and "merged B Cs cs (accumulated_changes c)"
  shows "\<exists>c' t. entry token (snd (package_for_delivery True (fold add_changes cs n))) = Some c' \<and>
    changes_to_deliver c' = finalize t \<and> tracks A (last (B # Cs)) t \<and> cb_verify t \<and>
    keep A (elems (deletions (changes_to_deliver c'))) = keep (last (B # Cs)) (elems (insertions (changes_to_deliver c'))) \<and>
    tracks (last (B # Cs)) (last (B # Cs)) (accumulated_changes c') \<and> m_move_mapping (accumulated_changes c') = []"
proof -
  define t where "t = fold (\<lambda>c t. cb_merge t c) cs (accumulated_changes c)"
  have t: "tracks A (last (B # Cs)) t" "m_move_mapping t = []"
    using merged_tracks[OF assms(3-5)] by (simp_all only: t_def simp_thms)
  have "entry token (snd (package_for_delivery True (fold add_changes cs n))) =
      Some (package_changes (c\<lparr>accumulated_changes := t\<rparr>))"
    using assms(1,2) by (simp only: entry_package entry_add_changes fold_add_change option.map t_def not_False_eq_True)
  moreover have "keep A (elems (deletions (finalize t))) = keep (last (B # Cs)) (elems (insertions (finalize t)))"
    using tracks_diff[OF t(1)] by (simp add: finalize_def Let_def)
  moreover have "m_move_mapping (moved_from t) = []" using t(2) by (simp add: moved_from_def)
  ultimately show ?thesis
    using t moved_from_tracks[of "last (B # Cs)" t] tracks_verify[OF t(1)]
    by (intro exI[of _ "package_changes (c\<lparr>accumulated_changes := t\<rparr>)"] exI[of _ t]) (simp add: package_changes_def)
qed

definition one_callback :: notifier where
  "one_callback = snd (snd (notifier_add 7 (new_notifier 1)))"

lemma one_callback_entry: "entry 0 one_callback = Some (new_notified 7)"
  by (simp add: one_callback_def notifier_add_def add_callback_def callback_list_init_def new_notifier_def entry_def Let_def)

lemma one_insertion: "tracks [] [''x''] (cb_insert 0 1 True empty_builder) \<and> m_move_mapping (cb_insert 0 1 True empty_builder) = []"
proof -
  have "list_history [] (take 0 [] @ [''x''] @ drop 0 []) (cb_insert 0 (length [''x'']) True empty_builder)"
    by (intro list_history.inserted list_history.start) simp_all
  from list_history_inv[OF this] show ?thesis by simp
qed

lemma delivered_changes_compose_witness:
  "\<exists>c'. entry 0 (snd (package_for_delivery True (fold add_changes [cb_insert 0 1 True empty_builder] one_callback))) = Some c' \<and>
    keep [] (elems (deletions (changes_to_deliver c'))) = keep [''x''] (elems (insertions (changes_to_deliver c')))"
proof -
  have start: "\<not> skip_next (new_notified 7)" "accumulated_changes (new_notified 7) = empty_builder"
    "tracks ([] :: string list) [] empty_builder" "m_move_mapping empty_builder = []"
    using empty_tracks[of "[] :: string list"] by (simp_all add: new_notified_def empty_builder_def make_builder_def)
  have "merge_fits empty_builder (cb_insert 0 1 True empty_builder)"
    by (rule merge_fits_no_deletions) (simp add: cb_insert_def empty_builder_def make_builder_def Let_def)
  then have "merged [] [[''x'']] [cb_insert 0 1 True empty_builder] empty_builder"
    using one_insertion by simp
  then show ?thesis
    using delivered_changes_compose[OF one_callback_entry, of "[]" "[]" "[[''x'']]" "[cb_insert 0 1 True empty_builder]"] start
    by auto
qed

text \<open>
  C38. Whatever callbacks do to the list while they run, short of removing one that was added
  during the delivery itself: an error is told, in order, to each callback that was there and that no earlier one
  has removed, exactly once; all of these are removed, so that only the callbacks added in the
  meantime are left, in the order in which they were added and without having been told; the notifier
  then knows whether it has callbacks, and the index is back at \<open>npos\<close>.
\<close>

theorem deliver_error_once:
  assumes "callbacks_ok (callbacks_of n)" "m_callbacks (callbacks_of n) = cs" "cs \<noteq> []" "length cs < npos"
    and "\<forall>t. removed_by (map list_op (beh t)) \<subseteq> {..< m_next_token (callbacks_of n)}"
    and "told = visit (\<lambda>t. map list_op (beh t)) (map fst cs)"
  shows "\<exists>n'. deliver_error err beh (Suc (length cs)) n = Some (map (\<lambda>t. (fn (the (map_of cs t)), Error err)) told, n') \<and>
    m_callbacks (callbacks_of n') = new_entries (m_next_token (callbacks_of n)) (concat (map (\<lambda>t. added_by (beh t)) told)) \<and>
    m_callback_index (callbacks_of n') = npos \<and> m_error n' \<and> (m_have_callbacks n' \<longleftrightarrow> m_callbacks (callbacks_of n') \<noteq> [])"
proof -
  let ?n = "n\<lparr>m_error := True, callbacks_of := (callbacks_of n)\<lparr>m_callback_count := length cs\<rparr>\<rparr>"
  have "at [] (map fst cs) (map fst []) (callbacks_of ?n)"
    using assms(1,2,4) by (simp add: at_def callbacks_ok_def size_dec_def)
  moreover have "\<forall>e \<in> set cs. fn (snd e) = fn (the (map_of cs (fst e)))"
    using assms(1,2) by (auto simp: callbacks_ok_def)
  moreover have "deliver_error err beh (Suc (length cs)) n = error_loop err beh (Suc (length cs)) ?n"
    using assms(2) by (simp add: deliver_error_def Let_def del: for_each_callback.simps)
  ultimately show ?thesis
    using error_loop_calls[where es = cs and le = "[]" and n = ?n and F = "\<lambda>t. fn (the (map_of cs t))" and beh = beh
        and k = "m_next_token (callbacks_of n)" and fuel = "Suc (length cs)" and err = err] assms(2,3,5,6)
    by (simp del: for_each_callback.simps)
qed

lemma deliver_error_once_witness:
  "\<exists>n'. deliver_error 5 (\<lambda>t. if t = 0 then [Remove_callback 1, Add_callback 9, Remove_callback 0] else []) 4
      (snd (snd (notifier_add 8 (snd (snd (notifier_add 6 one_callback)))))) = Some ([(7, Error 5), (8, Error 5)], n') \<and>
    m_callbacks (callbacks_of n') = [(3, new_notified 9)] \<and> m_have_callbacks n'"
proof -
  let ?beh = "\<lambda>t :: nat. if t = 0 then [Remove_callback 1, Add_callback 9, Remove_callback 0] else []"
  let ?n = "snd (snd (notifier_add 8 (snd (snd (notifier_add 6 one_callback)))))"
  let ?cs = "[(0, new_notified 7), (1, new_notified 6), (2, new_notified 8)]"
  have n: "m_callbacks (callbacks_of ?n) = ?cs" "m_next_token (callbacks_of ?n) = 3"
    by (simp_all add: one_callback_def notifier_add_def add_callback_def callback_list_init_def new_notifier_def Let_def)
  have "m_callback_index (callbacks_of ?n) = npos"
    by (simp add: one_callback_def notifier_add_def add_callback_def callback_list_init_def new_notifier_def Let_def)
  then have ok: "callbacks_ok (callbacks_of ?n)" using n by (simp add: callbacks_ok_def)
  have r: "\<forall>t. removed_by (map list_op (?beh t)) \<subseteq> {..< m_next_token (callbacks_of ?n)}" by (auto simp: removed_by_def n(2))
  have v: "[0, 2] = visit (\<lambda>t. map list_op (?beh t)) (map fst ?cs)" by (simp add: removed_by_def)
  have l: "length ?cs < npos" by (simp add: npos_def)
  have s: "Suc (length ?cs) = 4" by simp
  from deliver_error_once[OF ok n(1) list.distinct(2) l r v, of 5] show ?thesis
    unfolding n(2) s by (auto simp: new_notified_def)
qed

text \<open>
  A callback that is added after packaging and removed before the delivery is taken off the number
  of callbacks to notify: the one that was there is not told of its change.
\<close>

lemma late_removal_loses_changes:
  "let n = snd (package_for_delivery True (add_changes (cb_insert 0 1 True empty_builder) one_callback));
       n = notifier_remove 1 (snd (snd (notifier_add 8 n)))
   in (\<exists>n'. before_advance (\<lambda>_. []) 1 n = Some ([], n')) \<and> (\<exists>n'. after_advance (\<lambda>_. []) 1 n = Some ([], n'))"
  by (simp add: one_callback_def notifier_add_def add_callback_def callback_list_init_def new_notifier_def Let_def
    add_changes_def change_callbacks_def package_for_delivery_def notifier_remove_def remove_callback_def
    before_advance_def after_advance_def size_inc_def size_dec_def npos_def)

end
