(* ===== verification/Object_Schema.thy ===== *)
theory Object_Schema
  imports Prelude "HOL-Library.Word" "HOL-Library.List_Lexorder"
begin

text \<open>
  \<open>PropertyType\<close>, \<open>Property\<close> (\<open>property.hpp\<close>) and \<open>ObjectSchema\<close>
  (\<open>object_schema.cpp\<close>): the properties of an object type, their lookup by name and their
  validation against the schema that the type belongs to.

  Names are lists of 8-bit characters. A \<open>std::string\<close> is ordered by its characters as
  unsigned values; a \<open>StringData\<close> compares plain \<open>char\<close>s, which are signed on the platforms that
  the library is built for. An error is a constructor with the arguments of its message.
\<close>

subsection \<open>Names\<close>

definition unsigned_char :: "char \<Rightarrow> int" where
  "unsigned_char c = int (of_char c)"

definition signed_char :: "char \<Rightarrow> int" where
  "signed_char c = (if unsigned_char c < 128 then unsigned_char c else unsigned_char c - 256)"

definition string_less :: "string \<Rightarrow> string \<Rightarrow> bool" where
  "string_less a b \<longleftrightarrow> map unsigned_char a < map unsigned_char b"

definition string_data_less :: "string \<Rightarrow> string \<Rightarrow> bool" where
  "string_data_less a b \<longleftrightarrow> map signed_char a < map signed_char b"

subsection \<open>Property types\<close>

type_synonym property_type = "8 word"


definition Flags :: property_type where
  "Flags = 192"

definition PT_Int :: property_type where "PT_Int = 0"
definition PT_Bool :: property_type where "PT_Bool = 1"
definition PT_String :: property_type where "PT_String = 2"
definition PT_Data :: property_type where "PT_Data = 3"
definition PT_Date :: property_type where "PT_Date = 4"
definition PT_Float :: property_type where "PT_Float = 5"
definition PT_Double :: property_type where "PT_Double = 6"
definition PT_Object :: property_type where "PT_Object = 7"
definition PT_LinkingObjects :: property_type where "PT_LinkingObjects = 8"
definition PT_Any :: property_type where "PT_Any = 9"
definition PT_Nullable :: property_type where "PT_Nullable = 64"
definition PT_Array :: property_type where "PT_Array = 128"

unbundle bit_operations_syntax

definition base_type :: "property_type \<Rightarrow> property_type" where
  "base_type t = t AND NOT Flags"

text \<open>\<open>operator==\<close> on property types leaves the flags out.\<close>

definition same_type :: "property_type \<Rightarrow> property_type \<Rightarrow> bool" where
  "same_type a b \<longleftrightarrow> base_type a = base_type b"

definition is_array :: "property_type \<Rightarrow> bool" where
  "is_array t \<longleftrightarrow> t AND PT_Array = PT_Array"

definition is_nullable :: "property_type \<Rightarrow> bool" where
  "is_nullable t \<longleftrightarrow> t AND PT_Nullable = PT_Nullable"

definition string_for_property_type :: "property_type \<Rightarrow> string" where
  "string_for_property_type t =
     (if is_array t then if same_type t PT_LinkingObjects then ''linking objects'' else ''array''
      else if base_type t = PT_String then ''string''
      else if base_type t = PT_Int then ''int''
      else if base_type t = PT_Bool then ''bool''
      else if base_type t = PT_Date then ''date''
      else if base_type t = PT_Data then ''data''
      else if base_type t = PT_Double then ''double''
      else if base_type t = PT_Float then ''float''
      else if base_type t = PT_Object then ''object''
      else if base_type t = PT_Any then ''any''
      else if base_type t = PT_LinkingObjects then ''linking objects''
      else [])"

subsection \<open>Properties\<close>

record property =
  prop_name :: string
  public_name :: string
  prop_type :: property_type
  object_type :: string
  link_origin_property_name :: string
  is_primary :: bool
  is_indexed :: bool
  table_column :: nat

definition requires_index :: "property \<Rightarrow> bool" where
  "requires_index p \<longleftrightarrow> is_primary p \<or> is_indexed p"

definition type_is_indexable :: "property \<Rightarrow> bool" where
  "type_is_indexable p \<longleftrightarrow> same_type (prop_type p) PT_Int \<or> same_type (prop_type p) PT_Bool \<or>
     same_type (prop_type p) PT_Date \<or> same_type (prop_type p) PT_String"

definition type_is_nullable :: "property \<Rightarrow> bool" where
  "type_is_nullable p \<longleftrightarrow> \<not> (is_array (prop_type p) \<and> same_type (prop_type p) PT_Object) \<and>
     \<not> same_type (prop_type p) PT_LinkingObjects"

definition type_string :: "property \<Rightarrow> string" where
  "type_string p =
     (let t = prop_type p in
      if is_array t then
        if same_type t PT_Object then ''array<'' @ object_type p @ ''>''
        else if same_type t PT_LinkingObjects then ''linking objects<'' @ object_type p @ ''>''
        else ''array<'' @ string_for_property_type (base_type t) @ ''>''
      else if base_type t = PT_Object then ''<'' @ object_type p @ ''>''
      else if base_type t = PT_LinkingObjects then ''linking objects<'' @ object_type p @ ''>''
      else string_for_property_type (base_type t))"

text \<open>\<open>operator==\<close> on properties; the public name and the table column do not count.\<close>

definition same_property :: "property \<Rightarrow> property \<Rightarrow> bool" where
  "same_property a b \<longleftrightarrow> prop_type a = prop_type b \<and> is_primary a = is_primary b \<and>
     requires_index a = requires_index b \<and> prop_name a = prop_name b \<and> object_type a = object_type b \<and>
     link_origin_property_name a = link_origin_property_name b"

subsection \<open>Object types\<close>

record object_schema =
  name :: string
  persisted_properties :: "property list"
  computed_properties :: "property list"
  primary_key :: string

definition object_schema_of :: "string \<Rightarrow> property list \<Rightarrow> property list \<Rightarrow> object_schema" where
  "object_schema_of n persisted computed =
     \<lparr>name = n, persisted_properties = persisted, computed_properties = computed,
      primary_key = (case find is_primary persisted of Some p \<Rightarrow> prop_name p | None \<Rightarrow> [])\<rparr>"

definition property_for_name :: "string \<Rightarrow> object_schema \<Rightarrow> property option" where
  "property_for_name n os =
     (case find (\<lambda>p. prop_name p = n) (persisted_properties os) of
        Some p \<Rightarrow> Some p
      | None \<Rightarrow> find (\<lambda>p. prop_name p = n) (computed_properties os))"

definition property_for_public_name :: "string \<Rightarrow> object_schema \<Rightarrow> property option" where
  "property_for_public_name n os =
     (case find (\<lambda>p. public_name p = n \<or> public_name p = [] \<and> prop_name p = n) (persisted_properties os) of
        Some p \<Rightarrow> Some p
      | None \<Rightarrow> find (\<lambda>p. (if public_name p = [] then prop_name p else public_name p) = n) (computed_properties os))"

definition primary_key_property :: "object_schema \<Rightarrow> property option" where
  "primary_key_property os = property_for_name (primary_key os) os"

definition property_is_computed :: "property \<Rightarrow> object_schema \<Rightarrow> bool" where
  "property_is_computed p os \<longleftrightarrow> list_ex (same_property p) (computed_properties os)"

text \<open>The property found by \<open>property_for_name\<close> is changed in place.\<close>

definition update_property :: "string \<Rightarrow> (property \<Rightarrow> property) \<Rightarrow> object_schema \<Rightarrow> object_schema" where
  "update_property n f os =
     (let i = find_if (\<lambda>p. prop_name p = n) (persisted_properties os);
          j = find_if (\<lambda>p. prop_name p = n) (computed_properties os)
      in if i < length (persisted_properties os)
         then os\<lparr>persisted_properties := (persisted_properties os)[i := f (persisted_properties os ! i)]\<rparr>
         else if j < length (computed_properties os)
         then os\<lparr>computed_properties := (computed_properties os)[j := f (computed_properties os ! j)]\<rparr>
         else os)"

definition set_primary_key_property :: "object_schema \<Rightarrow> object_schema" where
  "set_primary_key_property os =
     (if primary_key os \<noteq> [] then update_property (primary_key os) (\<lambda>p. p\<lparr>is_primary := True\<rparr>) os else os)"

end
