(* ===== verification/Schema.thy ===== *)
theory Schema
  imports Object_Schema "HOL-Library.Multiset"
begin

text \<open>
  \<open>Schema\<close> (\<open>schema.cpp\<close>) and the validation of the object types in it
  (\<open>object_schema.cpp\<close>): lookup, validation, comparison of two schemas, transfer of column numbers.

  A schema is the list of its types, ordered by name. \<open>std::sort\<close> and \<open>std::partition\<close> leave the
  order of equal elements open: the model takes a stable order for types of equal name, and a
  parameter for the order of the changes that \<open>compare\<close> collects.
\<close>

type_synonym schema = "object_schema list"

definition schema_of :: "object_schema list \<Rightarrow> schema" where
  "schema_of types = sort_key (\<lambda>t. map unsigned_char (name t)) types"

definition find_type :: "string \<Rightarrow> schema \<Rightarrow> object_schema option" where
  "find_type n s =
     (let i = lower_bound (\<lambda>lft. string_data_less (name lft) n) s 0 (length s)
      in if i < length s \<and> name (s ! i) = n then Some (s ! i) else None)"

subsection \<open>Validation\<close>

datatype schema_error =
    Linking_objects_no_array string string
  | Cannot_be_nullable string string string
  | Must_be_nullable string string
  | Cannot_be_primary_key string string string
  | Two_primary_keys string string string
  | Cannot_be_indexed string string string
  | No_origin_allowed string string string
  | Origin_required string string string
  | No_object_type_allowed string string string
  | Unknown_object_type string string string string
  | Origin_does_not_exist string string string string
  | Origin_is_not_a_link string string string string
  | Origin_links_elsewhere string string string string string
  | Duplicate_alias string string
  | Duplicate_property string string
  | Alias_conflicts string string string
  | Primary_key_does_not_exist string string
  | Duplicate_type string

text \<open>The checks of one property; \<open>primary\<close> is the primary key property met before.\<close>

definition check_flags :: "string \<Rightarrow> property \<Rightarrow> schema_error list" where
  "check_flags object_name p =
     (if same_type (prop_type p) PT_LinkingObjects \<and> \<not> is_array (prop_type p)
      then [Linking_objects_no_array object_name (prop_name p)] else []) @
     (if is_nullable (prop_type p) \<and> \<not> type_is_nullable p
      then [Cannot_be_nullable object_name (prop_name p) (string_for_property_type (prop_type p))]
      else if same_type (prop_type p) PT_Object \<and> \<not> is_nullable (prop_type p) \<and> \<not> is_array (prop_type p)
      then [Must_be_nullable object_name (prop_name p)] else [])"

definition check_primary :: "string \<Rightarrow> property option \<Rightarrow> property \<Rightarrow> schema_error list" where
  "check_primary object_name primary p =
     (if is_primary p
      then (if \<not> same_type (prop_type p) PT_Int \<and> \<not> same_type (prop_type p) PT_String
            then [Cannot_be_primary_key object_name (prop_name p) (string_for_property_type (prop_type p))] else []) @
           (case primary of Some q \<Rightarrow> [Two_primary_keys (prop_name p) (prop_name q) object_name] | None \<Rightarrow> [])
      else [])"

definition check_link :: "schema \<Rightarrow> string \<Rightarrow> property \<Rightarrow> schema_error list" where
  "check_link schema object_name p =
     (let t = prop_type p; linking = same_type t PT_LinkingObjects in
      (if \<not> linking \<and> link_origin_property_name p \<noteq> []
       then [No_origin_allowed object_name (prop_name p) (string_for_property_type t)]
       else if linking \<and> link_origin_property_name p = []
       then [Origin_required object_name (prop_name p) (string_for_property_type t)] else []) @
      (if \<not> same_type t PT_Object \<and> \<not> linking
       then if object_type p \<noteq> [] then [No_object_type_allowed object_name (prop_name p) (type_string p)] else []
       else case find_type (object_type p) schema of
         None \<Rightarrow> [Unknown_object_type object_name (prop_name p) (string_for_property_type t) (object_type p)]
       | Some it \<Rightarrow>
           if \<not> linking then []
           else case property_for_name (link_origin_property_name p) it of
             None \<Rightarrow> [Origin_does_not_exist (object_type p) (link_origin_property_name p) object_name (prop_name p)]
           | Some origin \<Rightarrow>
               if \<not> same_type (prop_type origin) PT_Object
               then [Origin_is_not_a_link (object_type p) (link_origin_property_name p) object_name (prop_name p)]
               else if object_type origin \<noteq> object_name
               then [Origin_links_elsewhere (object_type p) (link_origin_property_name p) object_name (prop_name p)
                       (object_type origin)]
               else []))"

definition validate_property ::
  "schema \<Rightarrow> string \<Rightarrow> property \<Rightarrow> property option \<Rightarrow> property option \<times> schema_error list" where
  "validate_property schema object_name p primary =
     (if is_primary p then Some p else primary,
      check_flags object_name p @ check_primary object_name primary p @
      (if is_indexed p \<and> \<not> type_is_indexable p
       then [Cannot_be_indexed object_name (prop_name p) (string_for_property_type (prop_type p))] else []) @
      check_link schema object_name p)"

fun validate_properties ::
  "schema \<Rightarrow> string \<Rightarrow> property list \<Rightarrow> property option \<Rightarrow> property option \<times> schema_error list" where
  "validate_properties schema object_name [] primary = (primary, [])"
| "validate_properties schema object_name (p # ps) primary =
     (let (primary, es) = validate_property schema object_name p primary;
          (primary, es') = validate_properties schema object_name ps primary
      in (primary, es @ es'))"

text \<open>\<open>std::adjacent_find\<close>, again and again from two places after a find.\<close>

fun duplicates :: "'a list \<Rightarrow> 'a list" where
  "duplicates (x # y # zs) = (if x = y then x # duplicates zs else duplicates (y # zs))"
| "duplicates _ = []"

text \<open>\<open>std::set_intersection\<close> of two ordered lists of names.\<close>

fun intersection :: "string list \<Rightarrow> string list \<Rightarrow> string list" where
  "intersection (x # xs) (y # ys) =
     (if string_data_less x y then intersection xs (y # ys)
      else if string_data_less y x then intersection (x # xs) ys
      else x # intersection xs ys)"
| "intersection _ _ = []"

definition internal_names :: "object_schema \<Rightarrow> string list" where
  "internal_names os = map prop_name (persisted_properties os @ computed_properties os)"

definition public_names :: "object_schema \<Rightarrow> string list" where
  "public_names os = filter (\<lambda>n. n \<noteq> []) (map public_name (persisted_properties os @ computed_properties os))"

definition sort_names :: "string list \<Rightarrow> string list" where
  "sort_names ns = sort_key (map signed_char) ns"

definition validate_object :: "schema \<Rightarrow> object_schema \<Rightarrow> schema_error list" where
  "validate_object schema os =
     (let public = sort_names (public_names os); internal = sort_names (internal_names os);
          (primary, es) = validate_properties schema (name os) (persisted_properties os @ computed_properties os) None
      in map (\<lambda>n. Duplicate_alias n (name os)) (duplicates public) @
         map (\<lambda>n. Duplicate_property n (name os)) (duplicates internal) @
         map (\<lambda>n. Alias_conflicts (name os)
             (case property_for_public_name n os of Some p \<Rightarrow> prop_name p | None \<Rightarrow> []) n)
           (intersection public internal) @
         es @
         (if primary_key os \<noteq> [] \<and> primary = None \<and> primary_key_property os = None
          then [Primary_key_does_not_exist (name os) (primary_key os)] else []))"

fun duplicate_types :: "schema \<Rightarrow> schema_error list" where
  "duplicate_types (x # y # zs) = (if name x = name y then [Duplicate_type (name x)] else []) @ duplicate_types (y # zs)"
| "duplicate_types _ = []"

text \<open>What \<open>validate\<close> throws; it returns when there is nothing.\<close>

definition validate :: "schema \<Rightarrow> schema_error list" where
  "validate s = duplicate_types s @ concat (map (validate_object s) s)"

subsection \<open>Comparison\<close>

datatype schema_change =
    AddTable object_schema
  | RemoveTable object_schema
  | AddInitialProperties object_schema
  | AddProperty object_schema property
  | RemoveProperty object_schema property
  | ChangePropertyType object_schema property property
  | MakePropertyNullable object_schema property
  | MakePropertyRequired object_schema property
  | AddIndex object_schema property
  | RemoveIndex object_schema property
  | ChangePrimaryKey object_schema "property option"

fun is_remove_property :: "schema_change \<Rightarrow> bool" where
  "is_remove_property (RemoveProperty os p) = True"
| "is_remove_property _ = False"

fun removed_column :: "schema_change \<Rightarrow> nat" where
  "removed_column (RemoveProperty os p) = table_column p"
| "removed_column _ = 0"

definition compare_property :: "object_schema \<Rightarrow> object_schema \<Rightarrow> property \<Rightarrow> schema_change list" where
  "compare_property existing target current =
     (case property_for_name (prop_name current) target of
        None \<Rightarrow> [RemoveProperty existing current]
      | Some p \<Rightarrow>
          if property_is_computed p target then [RemoveProperty existing current]
          else if \<not> same_type (prop_type current) (prop_type p) \<or> object_type current \<noteq> object_type p \<or>
              is_array (prop_type current) \<noteq> is_array (prop_type p)
          then [ChangePropertyType existing current p]
          else
            (if is_nullable (prop_type current) \<noteq> is_nullable (prop_type p)
             then if is_nullable (prop_type current) then [MakePropertyRequired existing current]
                  else [MakePropertyNullable existing current]
             else []) @
            (if requires_index p then if \<not> is_indexed current then [AddIndex existing current] else []
             else if requires_index current then [RemoveIndex existing current] else []))"

definition compare_objects ::
  "(schema_change list \<Rightarrow> schema_change list) \<Rightarrow> object_schema \<Rightarrow> object_schema \<Rightarrow> schema_change list \<Rightarrow>
     schema_change list" where
  "compare_objects order existing target changes =
     order (changes @ concat (map (compare_property existing target) (persisted_properties existing)) @
       (if primary_key existing \<noteq> primary_key target
        then [ChangePrimaryKey existing (primary_key_property target)] else []) @
       map (AddProperty existing)
         (filter (\<lambda>p. property_for_name (prop_name p) existing = None) (persisted_properties target)))"

text \<open>The calls that \<open>zip_matching\<close> makes, in order.\<close>

function zip_matching :: "schema \<Rightarrow> schema \<Rightarrow> (object_schema option \<times> object_schema option) list" where
  "zip_matching (x # xs) (y # ys) =
     (if name x = name y then (Some x, Some y) # zip_matching xs ys
      else if string_less (name x) (name y) then (Some x, None) # zip_matching xs (y # ys)
      else (None, Some y) # zip_matching (x # xs) ys)"
| "zip_matching [] ys = map (\<lambda>y. (None, Some y)) ys"
| "zip_matching (x # xs) [] = map (\<lambda>x. (Some x, None)) (x # xs)"
  by pat_completeness auto
termination by (relation "measure (\<lambda>(xs, ys). length xs + length ys)") auto

fun table_changes :: "bool \<Rightarrow> object_schema option \<times> object_schema option \<Rightarrow> schema_change list" where
  "table_changes removals (Some target, None) = [AddTable target]"
| "table_changes removals (None, Some existing) = (if removals then [RemoveTable existing] else [])"
| "table_changes removals _ = []"

fun column_changes ::
  "(schema_change list \<Rightarrow> schema_change list) \<Rightarrow> object_schema option \<times> object_schema option \<Rightarrow> schema_change list \<Rightarrow>
     schema_change list" where
  "column_changes order (Some target, Some existing) changes = compare_objects order existing target changes"
| "column_changes order (Some target, None) changes = changes @ [AddInitialProperties target]"
| "column_changes order (None, _) changes = changes"

definition compare ::
  "(schema_change list \<Rightarrow> schema_change list) \<Rightarrow> schema \<Rightarrow> schema \<Rightarrow> bool \<Rightarrow> schema_change list" where
  "compare order s target include_table_removals =
     fold (column_changes order) (zip_matching target s)
       (concat (map (table_changes include_table_removals) (zip_matching target s)))"

text \<open>What is known of \<open>order\<close>: \<open>std::partition\<close> and then \<open>std::sort\<close> of the removals.\<close>

definition orders_changes :: "(schema_change list \<Rightarrow> schema_change list) \<Rightarrow> bool" where
  "orders_changes order \<longleftrightarrow> (\<forall>cs. mset (order cs) = mset cs \<and>
     (\<exists>others removals. order cs = others @ removals \<and> \<not> list_ex is_remove_property others \<and>
        list_all is_remove_property removals \<and> sorted_wrt (\<lambda>a b. removed_column b \<le> removed_column a) removals))"

definition copy_table_columns :: "object_schema \<Rightarrow> object_schema \<Rightarrow> object_schema" where
  "copy_table_columns other existing =
     fold (\<lambda>p os. update_property (prop_name p) (\<lambda>q. q\<lparr>table_column := table_column p\<rparr>) os)
       (persisted_properties other) existing"

definition copy_table_columns_from :: "schema \<Rightarrow> schema \<Rightarrow> schema" where
  "copy_table_columns_from other s =
     concat (map (\<lambda>pair. case pair of
         (Some existing, Some other) \<Rightarrow> [copy_table_columns other existing]
       | (Some existing, None) \<Rightarrow> [existing]
       | (None, _) \<Rightarrow> []) (zip_matching s other))"

end
