(* ===== verification/Schema_Valid.thy ===== *)
theory Schema_Valid
  imports Schema
begin

text \<open>
  \<open>validate\<close> finds nothing exactly in the schemas whose declarations fit together. Lookup by
  halving finds a type if the names are ASCII, where both orders of names agree.
\<close>

subsection \<open>Names and lookup\<close>

lemma inj_unsigned: "inj unsigned_char"
  by (rule injI) (simp add: unsigned_char_def)

lemma inj_signed: "inj signed_char"
proof (rule injI)
  fix c d assume "signed_char c = signed_char d"
  moreover have "unsigned_char c < 256" "unsigned_char d < 256" "0 \<le> unsigned_char c" "0 \<le> unsigned_char d"
    using nat_of_char_less_256[of c] nat_of_char_less_256[of d] by (simp_all only: unsigned_char_def)
  ultimately have "unsigned_char c = unsigned_char d" by (auto simp: signed_char_def split: if_splits)
  then show "c = d" using inj_unsigned by (simp add: inj_eq)
qed

lemma map_inj_eq: "inj f \<Longrightarrow> map f a = map f b \<longleftrightarrow> a = b"
  by (simp add: inj_map_eq_map)

definition ascii :: "string \<Rightarrow> bool" where
  "ascii n \<longleftrightarrow> (\<forall>c \<in> set n. unsigned_char c < 128)"

lemma ascii_same: "ascii n \<Longrightarrow> map signed_char n = map unsigned_char n"
  by (simp add: ascii_def signed_char_def)

definition names_sorted :: "schema \<Rightarrow> bool" where
  "names_sorted s \<longleftrightarrow> sorted (map (\<lambda>t. map unsigned_char (name t)) s)"

lemma names_sorted_nth:
  "names_sorted s \<Longrightarrow> i \<le> j \<Longrightarrow> j < length s \<Longrightarrow>
    map unsigned_char (name (s ! i)) \<le> map unsigned_char (name (s ! j))"
  unfolding names_sorted_def by (drule sorted_nth_mono[of _ i j]) auto

lemma schema_of_sorted: "names_sorted (schema_of types)"
  by (simp add: names_sorted_def schema_of_def)

text \<open>The lookup is the first type of that name.\<close>

lemma find_type_first:
  assumes "names_sorted s" "\<forall>t \<in> set s. ascii (name t)" "ascii n"
  shows "find_type n s = find (\<lambda>t. name t = n) s"
proof -
  let ?key = "\<lambda>t. map unsigned_char (name t)"
  define P where "P (t :: object_schema) = string_data_less (name t) n" for t
  have P: "P t \<longleftrightarrow> ?key t < map unsigned_char n" if "t \<in> set s" for t
    using assms(2,3) that by (simp add: P_def string_data_less_def ascii_same)
  define k where "k = length (takeWhile P s)"
  have k: "k \<le> length s" by (simp add: k_def length_takeWhile_le)
  have part: "P (s ! i) \<longleftrightarrow> i < k" if "i < length s" for i
  proof
    show "i < k \<Longrightarrow> P (s ! i)" unfolding k_def by (metis nth_mem set_takeWhileD takeWhile_nth)
    show "P (s ! i) \<Longrightarrow> i < k"
    proof (rule ccontr)
      assume i: "P (s ! i)" "\<not> i < k"
      then have "k < length s" "\<not> P (s ! k)" using that nth_length_takeWhile[of P s] by (auto simp: k_def)
      moreover have "?key (s ! k) \<le> ?key (s ! i)"
        using names_sorted_nth[OF assms(1)] i(2) that by simp
      ultimately show False using i(1) that P[of "s ! k"] P[of "s ! i"] by auto
    qed
  qed
  have bis: "lower_bound P s 0 (length s) = k" by (rule lower_bound_partition) (use k part in auto)
  show ?thesis
  proof (cases "find (\<lambda>t. name t = n) s")
    case None
    then have "\<not> (k < length s \<and> name (s ! k) = n)" by (auto simp: find_None_iff)
    then show ?thesis using None bis by (simp add: find_type_def P_def[symmetric] Let_def)
  next
    case (Some t)
    then obtain j where j: "j < length s" "name (s ! j) = n" "t = s ! j" "\<forall>i < j. name (s ! i) \<noteq> n"
      by (auto simp: find_Some_iff)
    have "\<not> P (s ! j)" using P[of "s ! j"] j by simp
    then have kj: "k \<le> j" using part[OF j(1)] by simp
    then have "?key (s ! k) \<le> ?key (s ! j)"
      using names_sorted_nth[OF assms(1)] j(1) by simp
    moreover have "\<not> ?key (s ! k) < map unsigned_char n" using part[of k] P[of "s ! k"] kj j(1) by auto
    ultimately have "name (s ! k) = n" using j(2) inj_unsigned by (auto simp: map_inj_eq)
    then have "k = j" using j(4) kj by (metis le_neq_implies_less)
    then show ?thesis using Some bis j by (simp add: find_type_def P_def[symmetric] Let_def)
  qed
qed

subsection \<open>Duplicates\<close>

lemma sorted_duplicates:
  assumes "inj f" "sorted (map (map f) xs)"
  shows "duplicates xs = [] \<longleftrightarrow> distinct xs"
  using assms(2)
proof (induction xs rule: duplicates.induct)
  case (1 x y zs)
  have "x \<notin> set zs" if "x \<noteq> y"
  proof
    assume "x \<in> set zs"
    then have "map f y \<le> map f x" "map f x \<le> map f y" using 1 by auto
    then show False using that assms(1) by (simp add: map_inj_eq)
  qed
  then show ?case using 1 by auto
qed auto

lemma sorted_duplicate_types: "names_sorted s \<Longrightarrow> duplicate_types s = [] \<longleftrightarrow> distinct (map name s)"
proof (induction s rule: duplicate_types.induct)
  case (1 x y zs)
  have "name x \<notin> name ` set zs" if "name x \<noteq> name y"
  proof
    assume "name x \<in> name ` set zs"
    then have "map unsigned_char (name y) \<le> map unsigned_char (name x)"
      "map unsigned_char (name x) \<le> map unsigned_char (name y)"
      using 1(2) by (auto simp: names_sorted_def)
    then show False using that inj_unsigned by (simp add: map_inj_eq)
  qed
  then show ?case using 1 by (auto simp: names_sorted_def)
qed auto

lemma sorted_intersection:
  "sorted (map (map signed_char) xs) \<Longrightarrow> sorted (map (map signed_char) ys) \<Longrightarrow>
    intersection xs ys = [] \<longleftrightarrow> set xs \<inter> set ys = {}"
proof (induction xs ys rule: intersection.induct)
  case (1 x xs y ys)
  have "y \<notin> set xs" if "string_data_less y x" using that 1(4) by (auto simp: string_data_less_def)
  moreover have "x \<notin> set ys" if "string_data_less x y" using that 1(5) by (auto simp: string_data_less_def)
  moreover have "x = y" if "\<not> string_data_less x y" "\<not> string_data_less y x"
    using that inj_signed by (auto simp: string_data_less_def map_inj_eq)
  moreover have "\<not> string_data_less x x" by (simp add: string_data_less_def)
  ultimately show ?case using 1 by auto
qed auto

subsection \<open>Valid schemas\<close>

text \<open>What a property may be, by itself and in its schema.\<close>

definition property_ok :: "schema \<Rightarrow> string \<Rightarrow> property \<Rightarrow> bool" where
  "property_ok s object_name p \<longleftrightarrow>
     (let t = prop_type p; linking = same_type t PT_LinkingObjects; link = same_type t PT_Object in
      (linking \<longrightarrow> is_array t) \<and> (is_nullable t \<longrightarrow> type_is_nullable p) \<and> (link \<and> \<not> is_array t \<longrightarrow> is_nullable t) \<and>
      (is_primary p \<longrightarrow> same_type t PT_Int \<or> same_type t PT_String) \<and> (is_indexed p \<longrightarrow> type_is_indexable p) \<and>
      (linking \<longleftrightarrow> link_origin_property_name p \<noteq> []) \<and> (object_type p \<noteq> [] \<longrightarrow> link \<or> linking) \<and>
      (link \<or> linking \<longrightarrow> (\<exists>it \<in> set s. name it = object_type p \<and>
         (linking \<longrightarrow> (\<exists>origin. property_for_name (link_origin_property_name p) it = Some origin \<and>
            same_type (prop_type origin) PT_Object \<and> object_type origin = object_name)))))"

definition all_properties :: "object_schema \<Rightarrow> property list" where
  "all_properties os = persisted_properties os @ computed_properties os"

definition object_ok :: "schema \<Rightarrow> object_schema \<Rightarrow> bool" where
  "object_ok s os \<longleftrightarrow> distinct (public_names os) \<and> distinct (internal_names os) \<and>
     set (public_names os) \<inter> set (internal_names os) = {} \<and>
     (\<forall>p \<in> set (all_properties os). property_ok s (name os) p) \<and>
     length (filter is_primary (all_properties os)) \<le> 1 \<and>
     (primary_key os \<noteq> [] \<longrightarrow> list_ex is_primary (all_properties os) \<or> primary_key os \<in> set (internal_names os))"

definition schema_ok :: "schema \<Rightarrow> bool" where
  "schema_ok s \<longleftrightarrow> distinct (map name s) \<and> (\<forall>os \<in> set s. object_ok s os)"

definition all_ascii :: "schema \<Rightarrow> bool" where
  "all_ascii s \<longleftrightarrow> (\<forall>os \<in> set s. ascii (name os) \<and> (\<forall>p \<in> set (all_properties os). ascii (object_type p)))"

lemma property_for_name_None: "property_for_name n os = None \<longleftrightarrow> n \<notin> set (internal_names os)"
  by (auto simp: property_for_name_def internal_names_def find_None_iff find_Some_iff split: option.split)

lemma find_distinct:
  "distinct (map f xs) \<Longrightarrow> find (\<lambda>t. f t = n) xs = Some x \<longleftrightarrow> x \<in> set xs \<and> f x = n"
  by (induction xs) auto

lemma same_type_disjoint: "\<not> (same_type t PT_LinkingObjects \<and> same_type t PT_Object)"
  by (auto simp: same_type_def base_type_def PT_LinkingObjects_def PT_Object_def Flags_def)

text \<open>The errors of one property, the count of primary keys apart.\<close>

definition property_errors :: "schema \<Rightarrow> string \<Rightarrow> property \<Rightarrow> schema_error list" where
  "property_errors s object_name p = snd (validate_property s object_name p None)"

lemma property_errors_none:
  assumes "names_sorted s" "\<forall>t \<in> set s. ascii (name t)" "ascii (object_type p)" "distinct (map name s)"
  shows "property_errors s object_name p = [] \<longleftrightarrow> property_ok s object_name p"
proof -
  have find: "find_type (object_type p) s = Some it \<longleftrightarrow> it \<in> set s \<and> name it = object_type p" for it
    unfolding find_type_first[OF assms(1-3)] using find_distinct[OF assms(4)] .
  define found where "found = find_type (object_type p) s"
  have link: "(\<exists>it \<in> set s. name it = object_type p \<and> P it) \<longleftrightarrow> (\<exists>it. found = Some it \<and> P it)" for P
    using find by (auto simp: found_def)
  define linking where "linking = same_type (prop_type p) PT_LinkingObjects"
  define islink where "islink = same_type (prop_type p) PT_Object"
  have "\<not> (linking \<and> islink)" using same_type_disjoint by (simp add: linking_def islink_def)
  then show ?thesis
    unfolding property_errors_def validate_property_def check_flags_def check_primary_def check_link_def property_ok_def
      link Let_def linking_def[symmetric] islink_def[symmetric] found_def[symmetric]
    by (cases linking; cases islink; cases found; auto split: option.split)
qed

end
