(* ===== verification/Schema_Props.thy ===== *)
theory Schema_Props
  imports Schema_Valid
begin

text \<open>What \<open>validate\<close> and \<open>compare\<close> say about schemas.\<close>

subsection \<open>Validation\<close>

lemma validate_properties_none:
  "snd (validate_properties s on ps primary) = [] \<longleftrightarrow>
     (\<forall>p \<in> set ps. property_errors s on p = []) \<and>
     length (filter is_primary ps) \<le> (if primary = None then 1 else 0)"
  "fst (validate_properties s on ps primary) = None \<longleftrightarrow> primary = None \<and> \<not> list_ex is_primary ps"
proof (induction ps arbitrary: primary)
  case (Cons p ps)
  {
    case 1
    have "snd (validate_property s on p primary) = [] \<longleftrightarrow>
        property_errors s on p = [] \<and> \<not> (is_primary p \<and> primary \<noteq> None)"
      by (cases primary) (auto simp: property_errors_def validate_property_def check_primary_def)
    moreover have "fst (validate_property s on p primary) = (if is_primary p then Some p else primary)"
      by (simp add: validate_property_def)
    ultimately show ?case using Cons.IH(1)[of "fst (validate_property s on p primary)"]
      by (auto simp: case_prod_beta Let_def)
  next
    case 2
    then show ?case using Cons.IH(2) by (auto simp: case_prod_beta Let_def validate_property_def)
  }
qed auto

lemma sort_names_sorted: "sorted (map (map signed_char) (sort_names ns))"
  by (simp add: sort_names_def)

lemma sort_names_same [simp]: "set (sort_names ns) = set ns" "distinct (sort_names ns) = distinct ns"
  by (simp_all add: sort_names_def)

lemma validate_object_none:
  assumes "names_sorted s" "all_ascii s" "distinct (map name s)" "os \<in> set s"
  shows "validate_object s os = [] \<longleftrightarrow> object_ok s os"
proof -
  have names: "\<forall>t \<in> set s. ascii (name t)" using assms(2) by (auto simp: all_ascii_def)
  have "property_errors s (name os) p = [] \<longleftrightarrow> property_ok s (name os) p" if "p \<in> set (all_properties os)" for p
    using property_errors_none[OF assms(1) names _ assms(3)] assms(2,4) that by (auto simp: all_ascii_def)
  moreover note validate_properties_none[of s "name os" "all_properties os" None]
  moreover have "duplicates (sort_names ns) = [] \<longleftrightarrow> distinct ns" for ns
    using sorted_duplicates[OF inj_signed sort_names_sorted] by simp
  moreover have "intersection (sort_names a) (sort_names b) = [] \<longleftrightarrow> set a \<inter> set b = {}" for a b
    using sorted_intersection[OF sort_names_sorted sort_names_sorted, of a b] by simp
  moreover have "primary_key_property os = None \<longleftrightarrow> primary_key os \<notin> set (internal_names os)"
    by (simp add: primary_key_property_def property_for_name_None)
  ultimately show ?thesis
    unfolding validate_object_def object_ok_def all_properties_def[symmetric] Let_def case_prod_beta by auto
qed

text \<open>
  C17. \<open>validate\<close> throws nothing exactly when the schema is well typed: type names and, within a
  type, names and aliases are unique; flags fit the types; links lead to types of the schema and
  linking objects to a link that leads back; there is at most one primary key, its base type is int
  or string, and a primary key that is named exists. The schema is sorted by names, and these and
  the link targets are ASCII: the lookup can miss others (\<open>lookup_misses_type\<close>). The flags of a
  primary key are not looked at, so that an array passes (\<open>array_primary_key_passes\<close>).
\<close>

theorem validate_well_typed:
  assumes "names_sorted s" "all_ascii s"
  shows "validate s = [] \<longleftrightarrow> schema_ok s"
proof (cases "distinct (map name s)")
  case True
  then show ?thesis
    using sorted_duplicate_types[OF assms(1)] validate_object_none[OF assms True]
    by (auto simp: validate_def schema_ok_def)
next
  case False
  then show ?thesis using sorted_duplicate_types[OF assms(1)] by (simp add: validate_def schema_ok_def)
qed

definition plain_property :: "string \<Rightarrow> property_type \<Rightarrow> property" where
  "plain_property n t = \<lparr>prop_name = n, public_name = [], prop_type = t, object_type = [],
     link_origin_property_name = [], is_primary = False, is_indexed = False, table_column = 0\<rparr>"

definition dog_schema :: schema where
  "dog_schema = schema_of
     [object_schema_of ''person'' [(plain_property ''id'' PT_Int)\<lparr>is_primary := True\<rparr>,
        (plain_property ''dog'' 71)\<lparr>object_type := ''dog''\<rparr>] [],
      object_schema_of ''dog'' [(plain_property ''name'' 66)\<lparr>public_name := ''called''\<rparr>]
        [(plain_property ''owners'' 136)\<lparr>object_type := ''person'', link_origin_property_name := ''dog''\<rparr>]]"

lemma dog_schema_ascii: "all_ascii dog_schema"
  by (simp add: all_ascii_def ascii_def dog_schema_def schema_of_def object_schema_of_def all_properties_def
    plain_property_def unsigned_char_def)

lemma validate_well_typed_witness: "schema_ok dog_schema"
proof -
  have "validate dog_schema = []" by code_simp
  then show ?thesis
    using validate_well_typed[of dog_schema] schema_of_sorted dog_schema_ascii by (simp add: dog_schema_def)
qed

text \<open>
  Names outside ASCII: the types are ordered by unsigned characters but looked up by signed ones,
  and a type that is there is not found.
\<close>

lemma lookup_misses_type:
  "let s = schema_of [object_schema_of ''A'' [] [], object_schema_of [CHR 0xC3, CHR 0x89] [] []]
   in find_type ''A'' s = None \<and> (\<exists>t \<in> set s. name t = ''A'')"
proof -
  have "let s = schema_of [object_schema_of ''A'' [] [], object_schema_of [CHR 0xC3, CHR 0x89] [] []]
     in find_type ''A'' s = None \<and> list_ex (\<lambda>t. name t = ''A'') s"
    by code_simp
  then show ?thesis by (simp add: list_ex_iff Let_def)
qed

text \<open>An array of integers passes for an indexed primary key.\<close>

lemma array_primary_key_passes:
  "validate [object_schema_of ''t'' [(plain_property ''ids'' (PT_Int OR PT_Array))\<lparr>is_primary := True, is_indexed := True\<rparr>] []] = []"
  by code_simp

subsection \<open>Comparison\<close>

definition property_agrees :: "property \<Rightarrow> property \<Rightarrow> bool" where
  "property_agrees current p \<longleftrightarrow> same_type (prop_type current) (prop_type p) \<and> object_type current = object_type p \<and>
     is_array (prop_type current) = is_array (prop_type p) \<and> is_nullable (prop_type current) = is_nullable (prop_type p) \<and>
     (if requires_index p then is_indexed current else \<not> requires_index current)"

definition object_agrees :: "object_schema \<Rightarrow> object_schema \<Rightarrow> bool" where
  "object_agrees existing target \<longleftrightarrow> primary_key existing = primary_key target \<and>
     (\<forall>current \<in> set (persisted_properties existing). \<exists>p. property_for_name (prop_name current) target = Some p \<and>
        \<not> property_is_computed p target \<and> property_agrees current p) \<and>
     (\<forall>p \<in> set (persisted_properties target). prop_name p \<in> set (internal_names existing))"

lemma compare_property_none:
  "compare_property existing target current = [] \<longleftrightarrow>
     (\<exists>p. property_for_name (prop_name current) target = Some p \<and> \<not> property_is_computed p target \<and> property_agrees current p)"
  by (auto simp: compare_property_def property_agrees_def split: option.split)

definition object_changes :: "object_schema \<Rightarrow> object_schema \<Rightarrow> schema_change list" where
  "object_changes existing target =
     concat (map (compare_property existing target) (persisted_properties existing)) @
       (if primary_key existing \<noteq> primary_key target
        then [ChangePrimaryKey existing (primary_key_property target)] else []) @
       map (AddProperty existing)
         (filter (\<lambda>p. property_for_name (prop_name p) existing = None) (persisted_properties target))"

lemma compare_objects_eq: "compare_objects order existing target cs = order (cs @ object_changes existing target)"
  by (simp add: compare_objects_def object_changes_def)

lemma object_changes_none: "object_changes existing target = [] \<longleftrightarrow> object_agrees existing target"
  by (auto simp: object_changes_def object_agrees_def compare_property_none filter_empty_conv property_for_name_None)

text \<open>What a pair of types adds to the changes, apart from their order.\<close>

fun pair_changes :: "object_schema option \<times> object_schema option \<Rightarrow> schema_change list" where
  "pair_changes (Some target, Some existing) = object_changes existing target"
| "pair_changes (Some target, None) = [AddInitialProperties target]"
| "pair_changes (None, _) = []"

lemma mset_column_changes:
  "orders_changes order \<Longrightarrow> mset (fold (column_changes order) pairs cs) = mset cs + mset (concat (map pair_changes pairs))"
proof (induction pairs arbitrary: cs)
  case (Cons pair pairs)
  have "mset (column_changes order pair cs) = mset cs + mset (pair_changes pair)"
    using Cons.prems by (cases pair rule: pair_changes.cases) (auto simp: compare_objects_eq orders_changes_def)
  then show ?case using Cons by simp
qed simp

lemma zip_matching_all:
  "concat (map (table_changes True) (zip_matching a b)) = [] \<longleftrightarrow> map name a = map name b"
  "map name a = map name b \<Longrightarrow> zip_matching a b = map (\<lambda>(x, y). (Some x, Some y)) (zip a b)"
proof (induction a b rule: zip_matching.induct)
  case (2 ys)
  { case 1 show ?case by (cases ys) auto }
  { case 2 then show ?case by simp }
qed auto

text \<open>
  C26. The comparison, table removals included, is empty exactly when the two schemas have the same
  types and every persisted property of the one agrees with the other's in type, link target,
  array and optional flag and index; in particular a schema has no changes to itself once its
  primary keys are indexed. The order in which \<open>std::partition\<close> leaves the changes does not
  matter.
\<close>

theorem compare_empty_iff:
  assumes "orders_changes order"
  shows "compare order s target True = [] \<longleftrightarrow>
    map name target = map name s \<and> list_all (\<lambda>(t, e). object_agrees e t) (zip target s)"
proof -
  let ?tables = "concat (map (table_changes True) (zip_matching target s))"
  let ?columns = "concat (map pair_changes (zip_matching target s))"
  have "mset (compare order s target True) = mset ?tables + mset ?columns"
    by (simp only: compare_def mset_column_changes[OF assms])
  then have "compare order s target True = [] \<longleftrightarrow> ?tables = [] \<and> ?columns = []"
    by (simp only: union_eq_empty mset_zero_iff flip: mset_zero_iff[of "compare order s target True"])
  moreover have "?columns = [] \<longleftrightarrow> list_all (\<lambda>(t, e). object_agrees e t) (zip target s)" if "map name target = map name s"
    unfolding zip_matching_all(2)[OF that]
    by (auto simp: list_all_iff object_changes_none)
  ultimately show ?thesis using zip_matching_all(1)[of target s] by auto
qed

text \<open>One of the orders that \<open>std::partition\<close> and \<open>std::sort\<close> may leave.\<close>

definition stable_order :: "schema_change list \<Rightarrow> schema_change list" where
  "stable_order cs = filter (\<lambda>c. \<not> is_remove_property c) cs @ rev (sort_key removed_column (filter is_remove_property cs))"

lemma stable_order_ok: "orders_changes stable_order"
  unfolding orders_changes_def
proof (intro allI conjI)
  fix cs
  show "mset (stable_order cs) = mset cs" 
    using multiset_partition[of "mset cs" is_remove_property] by (simp add: stable_order_def add.commute)
  have "sorted (map removed_column (sort_key removed_column (filter is_remove_property cs)))" by simp
  then have "sorted_wrt (\<lambda>a b. removed_column b \<le> removed_column a) (rev (sort_key removed_column (filter is_remove_property cs)))"
    by (simp add: sorted_wrt_rev sorted_map)
  then show "\<exists>others removals. stable_order cs = others @ removals \<and> \<not> list_ex is_remove_property others \<and>
        list_all is_remove_property removals \<and> sorted_wrt (\<lambda>a b. removed_column b \<le> removed_column a) removals"
    unfolding stable_order_def
    by (intro exI[of _ "filter (\<lambda>c. \<not> is_remove_property c) cs"]
        exI[of _ "rev (sort_key removed_column (filter is_remove_property cs))"]) (simp add: list_ex_iff list_all_iff)
qed

lemma compare_empty_iff_witness:
  "compare stable_order dog_schema dog_schema True = [AddIndex (dog_schema ! 1) (persisted_properties (dog_schema ! 1) ! 0)] \<and>
   \<not> list_all (\<lambda>(t, e). object_agrees e t) (zip dog_schema dog_schema)"
proof -
  have c: "compare stable_order dog_schema dog_schema True = [AddIndex (dog_schema ! 1) (persisted_properties (dog_schema ! 1) ! 0)]"
    by code_simp
  then show ?thesis using compare_empty_iff[OF stable_order_ok, of dog_schema dog_schema] by simp
qed

subsection \<open>Removed columns\<close>

definition delete_column :: "nat \<Rightarrow> 'a list \<Rightarrow> 'a list" where
  "delete_column c cols = take c cols @ drop (Suc c) cols"

lemma nths_same: "(\<And>i. i < length xs \<Longrightarrow> i \<in> A \<longleftrightarrow> i \<in> B) \<Longrightarrow> nths xs A = nths xs B"
  unfolding nths_def by (intro arg_cong[of _ _ "map fst"] filter_cong) (auto dest: set_zip_rightD)

lemma nths_delete_last:
  assumes "\<forall>d \<in> S. d < c"
  shows "nths (delete_column c cols) (- S) = nths cols (- insert c S)"
proof (cases "c < length cols")
  case False
  then have "nths cols (- insert c S) = nths cols (- S)"
    by (intro nths_same) auto
  then show ?thesis using False by (simp add: delete_column_def)
next
  case True
  then have cols: "cols = take c cols @ cols ! c # drop (Suc c) cols" by (rule id_take_nth_drop)
  have len: "length (take c cols) = c" using True by simp
  have after: "{j. j + c \<in> - S} = UNIV" using assms by auto
  have after': "{j. Suc j + c \<in> - insert c S} = UNIV" using assms by auto
  have "nths cols (- insert c S) = nths (take c cols) (- insert c S) @ nths (cols ! c # drop (Suc c) cols) {j. j + c \<in> - insert c S}"
    by (subst cols) (simp only: nths_append len)
  also have "nths (take c cols) (- insert c S) = nths (take c cols) (- S)"
    by (intro nths_same) (auto simp: len)
  also have "nths (cols ! c # drop (Suc c) cols) {j. j + c \<in> - insert c S} = drop (Suc c) cols"
    using after' by (simp add: nths_Cons nths_all)
  finally show ?thesis using after len by (simp add: delete_column_def nths_append nths_all)
qed

lemma delete_columns:
  "sorted_wrt (\<lambda>a b. b < a) ds \<Longrightarrow> fold delete_column ds cols = nths cols (- set ds)"
proof (induction ds arbitrary: cols)
  case (Cons d ds)
  then show ?case using nths_delete_last[of "set ds" d cols] by simp
qed (simp add: nths_all)

definition removes :: "object_schema \<Rightarrow> schema_change \<Rightarrow> bool" where
  "removes e c \<longleftrightarrow> (\<exists>p. c = RemoveProperty e p)"

lemma removes_is: "removes e c \<Longrightarrow> is_remove_property c"
  by (auto simp: removes_def)

abbreviation descending :: "schema_change list \<Rightarrow> bool" where
  "descending cs \<equiv> sorted_wrt (\<lambda>a b. removed_column b \<le> removed_column a) (filter is_remove_property cs)"

lemma descending_order: "orders_changes order \<Longrightarrow> descending (order cs)"
proof -
  assume "orders_changes order"
  then obtain others removals where o: "order cs = others @ removals" "\<not> list_ex is_remove_property others"
      "list_all is_remove_property removals" "sorted_wrt (\<lambda>a b. removed_column b \<le> removed_column a) removals"
    unfolding orders_changes_def by blast
  have "filter is_remove_property (order cs) = removals"
    using o(2,3) by (simp add: o(1) list_ex_iff list_all_iff filter_empty_conv)
  then show ?thesis using o(4) by simp
qed

lemma descending_fold: "orders_changes order \<Longrightarrow> descending cs \<Longrightarrow> descending (fold (column_changes order) pairs cs)"
proof (induction pairs arbitrary: cs)
  case (Cons pair pairs)
  have "descending (column_changes order pair cs)"
    using Cons.prems by (cases pair rule: pair_changes.cases) (simp_all add: compare_objects_eq descending_order)
  then show ?case using Cons by simp
qed simp

lemma descending_compare: "orders_changes order \<Longrightarrow> descending (compare order s target b)"
proof -
  have "filter is_remove_property (table_changes b pair) = []" for pair
    by (cases "(b, pair)" rule: table_changes.cases) auto
  then have "filter is_remove_property (concat (map (table_changes b) pairs)) = []" for pairs
    by (induction pairs) auto
  then show "orders_changes order \<Longrightarrow> ?thesis" unfolding compare_def by (intro descending_fold) simp_all
qed

text \<open>The removals for one type are persisted properties of it, each at most once.\<close>

lemma removals_other:
  assumes "e' \<noteq> e"
  shows "filter (removes e) (object_changes e' target) = []"
proof -
  have one: "filter (removes e) (compare_property e' target p) = []" for p
    using assms by (auto simp: compare_property_def removes_def split: option.split)
  have "filter (removes e) (concat (map (compare_property e' target) ps)) = []" for ps
    by (induction ps) (simp_all add: one)
  moreover have "filter (removes e) (map (AddProperty e') ps) = []" for ps
    by (induction ps) (simp_all add: removes_def)
  ultimately show ?thesis by (simp add: object_changes_def removes_def del: filter_map)
qed

lemma removals_object:
  "mset (filter (removes e) (object_changes e target)) \<subseteq># mset (map (RemoveProperty e) (persisted_properties e))"
proof -
  have one: "mset (filter (removes e) (compare_property e target p)) \<subseteq># {#RemoveProperty e p#}" for p
    by (auto simp: compare_property_def removes_def split: option.split)
  have all: "mset (filter (removes e) (concat (map (compare_property e target) ps))) \<subseteq>#
      mset (map (RemoveProperty e) ps)" for ps
  proof (induction ps)
    case (Cons p ps)
    then show ?case using subset_mset.add_mono[OF one[of p] Cons.IH] by simp
  qed simp
  have "filter (removes e) (object_changes e target) =
      filter (removes e) (concat (map (compare_property e target) (persisted_properties e)))"
    by (simp add: object_changes_def) (auto simp: filter_empty_conv removes_def)
  then show ?thesis using all by presburger
qed

lemma removals_pair:
  "(snd pair = Some e \<Longrightarrow> fst pair = None) \<Longrightarrow> filter (removes e) (pair_changes pair) = []"
  using removals_other[of _ e] by (cases pair rule: pair_changes.cases) (auto, simp add: removes_def)

lemma removals_pairs:
  assumes "distinct (concat (map (\<lambda>(t, x). case x of Some e \<Rightarrow> [name e] | None \<Rightarrow> []) pairs))"
  shows "mset (filter (removes e) (concat (map pair_changes pairs))) \<subseteq># mset (map (RemoveProperty e) (persisted_properties e))"
  using assms
proof (induction pairs)
  case (Cons pair pairs)
  have none: "filter (removes e) (concat (map pair_changes ps)) = []"
    if "name e \<notin> set (concat (map (\<lambda>(t, x). case x of Some e \<Rightarrow> [name e] | None \<Rightarrow> []) ps))" for ps
    using that
  proof (induction ps)
    case (Cons q ps)
    have "filter (removes e) (pair_changes q) = []"
      using Cons.prems by (intro removals_pair) (cases q; auto)
    then show ?case using Cons by auto
  qed simp
  show ?case
  proof (cases "\<exists>t. pair = (Some t, Some e)")
    case True
    then obtain t where pair: "pair = (Some t, Some e)" by blast
    then have "filter (removes e) (concat (map pair_changes pairs)) = []" using Cons.prems none by simp
    then show ?thesis using pair removals_object[of e t] by simp
  next
    case False
    then have "filter (removes e) (pair_changes pair) = []"
      by (intro removals_pair) (cases pair; auto)
    then show ?thesis using Cons by (auto split: option.splits)
  qed
qed simp

lemma zip_matching_existing:
  "concat (map (\<lambda>(t, x). case x of Some e \<Rightarrow> [name e] | None \<Rightarrow> []) (zip_matching a b)) = map name b"
proof (induction a b rule: zip_matching.induct)
  case (2 ys)
  then show ?case by (induction ys) auto
next
  case (3 x xs)
  have "concat (map (\<lambda>(t, x). case x of Some e \<Rightarrow> [name e] | None \<Rightarrow> []) (map (\<lambda>x. (Some x, None)) ys)) = []" for ys :: schema
    by (induction ys) auto
  from this[of "x # xs"] show ?case by (simp only: zip_matching.simps list.map)
qed auto

lemma distinct_submset:
  assumes "mset xs \<subseteq># mset ys" "distinct ys"
  shows "distinct xs"
proof -
  have "count (mset xs) a = (if a \<in> set xs then 1 else 0)" for a
  proof (cases "a \<in> set xs")
    case True
    then have "1 \<le> count (mset xs) a" by (simp add: Suc_le_eq)
    moreover have "count (mset xs) a \<le> count (mset ys) a" using assms(1) by (rule mset_subset_eq_count)
    moreover have "count (mset ys) a \<le> 1" using assms(2) by (simp add: distinct_count_atmost_1)
    ultimately have "count (mset xs) a = 1" by linarith
    then show ?thesis using True by simp
  next
    case False
    then show ?thesis by (simp add: count_eq_zero_iff)
  qed
  then show ?thesis by (simp add: distinct_count_atmost_1)
qed

lemma strictly_descending: "sorted_wrt (\<lambda>a b. b \<le> a) ds \<Longrightarrow> distinct ds \<Longrightarrow> sorted_wrt (\<lambda>a b. b < a) (ds :: nat list)"
  by (induction ds) (auto simp: order_le_less)

definition removed_columns :: "object_schema \<Rightarrow> schema_change list \<Rightarrow> nat list" where
  "removed_columns e cs = map removed_column (filter (removes e) cs)"

text \<open>
  C27. Removing columns one by one, in the order of the comparison, removes the right ones: for a
  type whose persisted properties have different columns, deleting the columns of its
  \<open>RemoveProperty\<close> changes one after the other, each from what the earlier deletions left, leaves
  exactly the columns of the table that are not to be removed, in order.
\<close>

theorem removals_delete_columns:
  assumes "orders_changes order" "distinct (map name s)" "distinct (map table_column (persisted_properties e))"
  shows "fold delete_column (removed_columns e (compare order s target b)) cols =
    nths cols (- set (removed_columns e (compare order s target b)))"
proof (rule delete_columns)
  let ?cs = "compare order s target b"
  have "filter (removes e) (concat (map (table_changes b) pairs)) = []" for pairs
  proof -
    have "filter (removes e) (table_changes b pair) = []" for pair
      by (cases "(b, pair)" rule: table_changes.cases) (auto simp: removes_def)
    then show ?thesis by (induction pairs) auto
  qed
  then have "mset (filter (removes e) ?cs) = mset (filter (removes e) (concat (map pair_changes (zip_matching target s))))"
    unfolding compare_def mset_filter mset_column_changes[OF assms(1)] filter_union_mset by (simp flip: mset_filter)
  then have "mset (filter (removes e) ?cs) \<subseteq># mset (map (RemoveProperty e) (persisted_properties e))"
    using removals_pairs[of "zip_matching target s" e] assms(2) by (simp only: zip_matching_existing)
  then have "image_mset removed_column (mset (filter (removes e) ?cs)) \<subseteq>#
      image_mset removed_column (mset (map (RemoveProperty e) (persisted_properties e)))"
    by (rule image_mset_subseteq_mono)
  moreover have "map removed_column (map (RemoveProperty e) ps) = map table_column ps" for ps
    by (induction ps) simp_all
  ultimately have "mset (removed_columns e ?cs) \<subseteq># mset (map table_column (persisted_properties e))"
    unfolding removed_columns_def by (metis mset_map)
  then have "distinct (removed_columns e ?cs)" using distinct_submset assms(3) by blast
  moreover have "filter (removes e) ?cs = filter (removes e) (filter is_remove_property ?cs)"
    using removes_is by (simp add: filter_filter) (metis (mono_tags, lifting) filter_cong)
  then have "sorted_wrt (\<lambda>a b. removed_column b \<le> removed_column a) (filter (removes e) ?cs)"
    using sorted_wrt_filter[OF descending_compare[OF assms(1), of s target b], of "removes e"] by simp
  then have "sorted_wrt (\<lambda>a b. b \<le> a) (removed_columns e ?cs)" by (simp add: removed_columns_def sorted_wrt_map)
  ultimately show "sorted_wrt (\<lambda>a b. b < a) (removed_columns e ?cs)" by (simp add: strictly_descending)
qed

definition wide_schema :: schema where
  "wide_schema = [object_schema_of ''t'' [(plain_property ''a'' PT_Int)\<lparr>table_column := 0\<rparr>,
     (plain_property ''b'' PT_Int)\<lparr>table_column := 1\<rparr>, (plain_property ''c'' PT_Int)\<lparr>table_column := 2\<rparr>] []]"

lemma removals_delete_columns_witness:
  "fold delete_column (removed_columns (hd wide_schema)
      (compare stable_order wide_schema [object_schema_of ''t'' [plain_property ''b'' PT_Int] []] False))
     [''col a'', ''col b'', ''col c''] =
   nths [''col a'', ''col b'', ''col c''] (- set (removed_columns (hd wide_schema)
      (compare stable_order wide_schema [object_schema_of ''t'' [plain_property ''b'' PT_Int] []] False)))"
  by (rule removals_delete_columns[OF stable_order_ok])
    (simp_all add: wide_schema_def object_schema_of_def plain_property_def)

end
