(* ===== verification/Transact_Log.thy ===== *)
theory Transact_Log
  imports Deep_Check
begin

text \<open>
  The transaction log handlers of \<open>impl/transact_log_handler.cpp\<close>: the validator, and
  \<open>TransactLogObserver\<close>, which reads the instructions of a log and keeps the change
  information (\<open>TransactionChangeInfo\<close>) that notifiers and observers asked for.

  An instruction is a constructor of \<open>instruction\<close> with the arguments that the handlers
  read; the encoding of logs is outside the sources. The change sets of lists belong to their
  notifiers: an address names each, and \<open>builders\<close> holds the change set at an address. A
  pointer into \<open>tables\<close> is the index of the element.
\<close>

subsection \<open>Change information\<close>

record tracked_list =
  list_table :: nat
  list_row :: nat
  list_col :: nat
  list_changes :: nat

record transaction_info = change_info +
  table_modifications_needed :: "bool list"
  table_moves_needed :: "bool list"
  lists :: "tracked_list list"
  column_indices :: "nat list list"
  table_indices :: "nat list"
  track_all :: bool

definition fresh_builder :: change_builder where
  "fresh_builder = make_builder [] [] [] []"

text \<open>\<open>std::vector::resize\<close> with the value that new elements get, and \<open>std::iota\<close>.\<close>

definition resize_with :: "'a \<Rightarrow> nat \<Rightarrow> 'a list \<Rightarrow> 'a list" where
  "resize_with d n xs = take n xs @ replicate (n - length xs) d"

definition needs :: "bool list \<Rightarrow> nat \<Rightarrow> bool" where
  "needs bs i \<longleftrightarrow> i < length bs \<and> bs ! i"

subsection \<open>Instructions\<close>

datatype set_kind = Set | Set_default | Set_unique

datatype instruction =
    Select_table nat "(nat \<times> nat) list"
  | Select_descriptor nat
  | Select_link_list nat nat
  | Link_list_set nat
  | Link_list_insert nat
  | Link_list_erase nat
  | Link_list_nullify nat
  | Link_list_clear nat
  | Link_list_move nat nat
  | Link_list_swap nat nat
  | Insert_empty_rows nat nat
  | Add_row_with_key nat
  | Erase_rows nat nat bool
  | Swap_rows nat nat
  | Move_row nat nat
  | Merge_rows nat nat
  | Clear_table
  | Set_value nat nat set_kind
  | Change_value nat nat
  | Set_unique_value nat nat
  | Insert_column nat
  | Insert_link_column nat
  | Move_column nat nat
  | Insert_group_level_table nat
  | Move_group_level_table nat nat
  | Add_search_index nat
  | Remove_search_index nat
  | Set_link_type nat
  | Optimize_table
  | Erase_group_level_table nat
  | Rename_group_level_table nat
  | Erase_column nat
  | Erase_link_column nat
  | Rename_column nat

datatype log_error = Unsupported_schema_change | Assertion_failed

text \<open>What \<open>TransactLogValidationMixin\<close> refuses: it throws for these and returns for the rest.\<close>

fun unsupported :: "instruction \<Rightarrow> bool" where
  "unsupported (Erase_group_level_table ndx) = True"
| "unsupported (Rename_group_level_table ndx) = True"
| "unsupported (Erase_column ndx) = True"
| "unsupported (Erase_link_column ndx) = True"
| "unsupported (Rename_column ndx) = True"
| "unsupported _ = False"

fun validate_log :: "instruction list \<Rightarrow> log_error + unit" where
  "validate_log [] = Inr ()"
| "validate_log (i # is) = (if unsupported i then Inl Unsupported_schema_change else validate_log is)"

subsection \<open>Positions\<close>

definition rotate_pos :: "'a \<Rightarrow> nat \<Rightarrow> nat \<Rightarrow> 'a list \<Rightarrow> 'a list" where
  "rotate_pos d from to xs =
     (if length xs \<le> from \<and> length xs \<le> to then xs
      else
        let xs = (if length xs \<le> from \<or> length xs \<le> to then resize_with d (max from to + 1) xs else xs)
        in if from < to then rotate_range from (from + 1) (to + 1) xs
           else rotate_range to from (from + 1) xs)"

definition insert_empty_at :: "'a \<Rightarrow> nat \<Rightarrow> 'a list \<Rightarrow> 'a list" where
  "insert_empty_at d pos xs = (if pos < length xs then take pos xs @ d # drop pos xs else xs)"

definition adjust_for_move :: "nat \<Rightarrow> nat \<Rightarrow> nat \<Rightarrow> nat" where
  "adjust_for_move value from to =
     (if value = from then to
      else if from < value \<and> value \<le> to then value - 1
      else if value < from \<and> to \<le> value then value + 1
      else value)"

definition expand_to :: "nat list \<Rightarrow> nat \<Rightarrow> nat list" where
  "expand_to cols i =
     (let old_size = length cols in
      if i < old_size then cols
      else
        let new_size = max (old_size * 2) (i + 1);
            start = (if old_size = 0 then 0 else cols ! (old_size - 1) + 1)
        in cols @ [start ..< start + (new_size - old_size)])"

definition adjust_ge :: "nat list \<Rightarrow> nat \<Rightarrow> nat list" where
  "adjust_ge values i = map (\<lambda>value. if i \<le> value then value + 1 else value) values"

subsection \<open>The observer\<close>

datatype target = Table_changes nat | List_changes nat

record observer =
  info :: transaction_info
  builders :: "nat \<Rightarrow> change_builder"
  m_current_table :: nat
  m_active_list :: "nat option"
  m_active_table :: "target option"
  m_active_descriptor :: "target option"
  m_need_move_info :: bool
  m_is_top_level_table :: bool

definition new_observer :: "transaction_info \<Rightarrow> (nat \<Rightarrow> change_builder) \<Rightarrow> observer" where
  "new_observer ti bs =
     \<lparr>info = ti, builders = bs, m_current_table = 0, m_active_list = None, m_active_table = None,
      m_active_descriptor = None, m_need_move_info = False, m_is_top_level_table = True\<rparr>"

definition find_list :: "tracked_list list \<Rightarrow> nat \<Rightarrow> nat \<Rightarrow> nat \<Rightarrow> nat option" where
  "find_list ls tbl col row =
     map_option list_changes (find (\<lambda>l. list_table l = tbl \<and> list_row l = row \<and> list_col l = col) (rev ls))"

text \<open>The change set that a pointer leads to is changed; a null pointer is left alone.\<close>

fun change_at :: "target option \<Rightarrow> (change_builder \<Rightarrow> change_builder) \<Rightarrow> observer \<Rightarrow> observer" where
  "change_at None f s = s"
| "change_at (Some (Table_changes i)) f s =
     s\<lparr>info := (info s)\<lparr>info_tables := (info_tables (info s))[i := f (info_tables (info s) ! i)]\<rparr>\<rparr>"
| "change_at (Some (List_changes a)) f s = s\<lparr>builders := (builders s)(a := f (builders s a))\<rparr>"

definition change_list :: "(change_builder \<Rightarrow> change_builder) \<Rightarrow> observer \<Rightarrow> observer" where
  "change_list f s = change_at (map_option List_changes (m_active_list s)) f s"

definition change_table :: "(change_builder \<Rightarrow> change_builder) \<Rightarrow> observer \<Rightarrow> observer" where
  "change_table f s = change_at (m_active_table s) f s"

definition mark_dirty :: "nat \<Rightarrow> nat \<Rightarrow> observer \<Rightarrow> observer" where
  "mark_dirty row col s = change_table (cb_modify row col) s"

definition set_lists :: "(tracked_list list \<Rightarrow> tracked_list list) \<Rightarrow> observer \<Rightarrow> observer" where
  "set_lists f s = s\<lparr>info := (info s)\<lparr>lists := f (lists (info s))\<rparr>\<rparr>"

definition lists_of_table :: "(tracked_list \<Rightarrow> tracked_list) \<Rightarrow> nat \<Rightarrow> tracked_list list \<Rightarrow> tracked_list list" where
  "lists_of_table f tbl ls = map (\<lambda>l. if list_table l = tbl then f l else l) ls"

definition select_table :: "nat \<Rightarrow> (nat \<times> nat) list \<Rightarrow> observer \<Rightarrow> observer" where
  "select_table ndx path s =
     (let s = s\<lparr>m_current_table := ndx, m_active_table := None, m_is_top_level_table := True\<rparr>;
          ti = info s
      in if 1 < length path then s\<lparr>m_is_top_level_table := False\<rparr>
         else if \<not> track_all ti \<and> \<not> needs (table_modifications_needed ti) ndx then s
         else
           let ti = (if length (info_tables ti) \<le> ndx
                     then ti\<lparr>info_tables := resize_with fresh_builder (max (length (info_tables ti) * 2) (ndx + 1))
                              (info_tables ti)\<rparr>
                     else ti);
               s = s\<lparr>info := ti, m_need_move_info := track_all ti \<or> needs (table_moves_needed ti) ndx,
                     m_active_table := Some (Table_changes ndx)\<rparr>
           in case path of
                [] \<Rightarrow> s
              | (col, row) # _ \<Rightarrow>
                  let s = (mark_dirty row col s)\<lparr>m_active_table := None, m_is_top_level_table := False\<rparr>
                  in case find_list (lists (info s)) ndx col row of
                       None \<Rightarrow> s
                     | Some a \<Rightarrow> s\<lparr>m_active_table := Some (List_changes a), m_need_move_info := True\<rparr>)"

definition select_descriptor :: "nat \<Rightarrow> observer \<Rightarrow> observer" where
  "select_descriptor levels s = s\<lparr>m_active_descriptor := (if levels = 0 then m_active_table s else None)\<rparr>"

definition select_link_list :: "nat \<Rightarrow> nat \<Rightarrow> observer \<Rightarrow> observer" where
  "select_link_list col row s =
     (let s = mark_dirty row col s
      in s\<lparr>m_active_list := find_list (lists (info s)) (m_current_table s) col row\<rparr>)"

definition insert_empty_rows :: "nat \<Rightarrow> nat \<Rightarrow> observer \<Rightarrow> observer" where
  "insert_empty_rows row count s =
     (let s = change_table (cb_insert row count (m_need_move_info s)) s
      in if \<not> m_is_top_level_table s then s
         else set_lists (lists_of_table (\<lambda>l. if row \<le> list_row l then l\<lparr>list_row := list_row l + count\<rparr> else l)
                (m_current_table s)) s)"

text \<open>The loop of \<open>erase_rows\<close>: an erased element is replaced by the last one.\<close>

function erase_lists :: "nat \<Rightarrow> nat \<Rightarrow> nat \<Rightarrow> nat \<Rightarrow> tracked_list list \<Rightarrow> tracked_list list" where
  "erase_lists tbl row last_row i ls =
     (if length ls \<le> i then ls
      else if list_table (ls ! i) \<noteq> tbl then erase_lists tbl row last_row (i + 1) ls
      else if list_row (ls ! i) = row
      then erase_lists tbl row last_row (i + 1) (butlast (if i + 1 < length ls then ls[i := List.last ls] else ls))
      else if list_row (ls ! i) = last_row
      then erase_lists tbl row last_row (i + 1) (ls[i := (ls ! i)\<lparr>list_row := row\<rparr>])
      else erase_lists tbl row last_row (i + 1) ls)"
  by pat_completeness auto
termination by (relation "measure (\<lambda>(tbl, row, last_row, i, ls). length ls - i)") auto

declare erase_lists.simps [simp del]

definition erase_rows :: "nat \<Rightarrow> nat \<Rightarrow> bool \<Rightarrow> observer \<Rightarrow> observer" where
  "erase_rows row prior_num_rows unordered s =
     (if \<not> unordered then change_table (cb_erase row) s
      else
        let last_row = prior_num_rows - 1;
            s = change_table (cb_move_over row last_row (m_need_move_info s)) s
        in if \<not> m_is_top_level_table s then s
           else set_lists (erase_lists (m_current_table s) row last_row 0) s)"

definition swap_rows_at :: "nat \<Rightarrow> nat \<Rightarrow> observer \<Rightarrow> log_error + observer" where
  "swap_rows_at row1 row2 s =
     (if \<not> row1 < row2 then Inl Assertion_failed
      else if \<not> m_is_top_level_table s then
        Inr (change_table (\<lambda>t. if row1 + 1 \<noteq> row2 then move_row (row2 - 1) row1 (move_row row1 row2 t)
                               else move_row row1 row2 t) s)
      else
        Inr (set_lists (lists_of_table (\<lambda>l. if list_row l = row1 then l\<lparr>list_row := row2\<rparr>
                 else if list_row l = row2 then l\<lparr>list_row := row1\<rparr> else l) (m_current_table s))
               (change_table (cb_swap row1 row2 (m_need_move_info s)) s)))"

definition move_row_at :: "nat \<Rightarrow> nat \<Rightarrow> observer \<Rightarrow> log_error + observer" where
  "move_row_at from to s =
     (if m_active_table s \<noteq> None \<and> m_is_top_level_table s then Inl Assertion_failed
      else Inr (change_table (move_row from to) s))"

definition merge_rows :: "nat \<Rightarrow> nat \<Rightarrow> observer \<Rightarrow> observer" where
  "merge_rows from to s =
     (let s = change_table (cb_subsume from to (m_need_move_info s)) s
      in if \<not> m_is_top_level_table s then s
         else set_lists (lists_of_table (\<lambda>l. if list_row l = from then l\<lparr>list_row := to\<rparr> else l)
                (m_current_table s)) s)"

definition clear_table :: "observer \<Rightarrow> observer" where
  "clear_table s =
     (let s = change_table (cb_clear npos) s
      in if \<not> m_is_top_level_table s then s
         else set_lists (filter (\<lambda>l. list_table l \<noteq> m_current_table s)) s)"

subsection \<open>Schema instructions\<close>

definition set_column_indices :: "(nat list \<Rightarrow> nat list) \<Rightarrow> observer \<Rightarrow> observer" where
  "set_column_indices f s =
     (let tbl = m_current_table s; ti = info s;
          cols = (if length (column_indices ti) \<le> tbl then resize_with [] (tbl + 1) (column_indices ti)
                  else column_indices ti)
      in s\<lparr>info := ti\<lparr>column_indices := cols[tbl := f (cols ! tbl)]\<rparr>\<rparr>)"

definition insert_index :: "nat \<Rightarrow> nat list \<Rightarrow> nat list" where
  "insert_index ndx indices = (insert_empty_at 0 ndx (expand_to indices ndx))[ndx := npos]"

definition move_index :: "nat \<Rightarrow> nat \<Rightarrow> nat list \<Rightarrow> nat list" where
  "move_index from to indices = rotate_pos 0 from to (expand_to indices (max from to + 1))"

definition insert_column_at :: "nat \<Rightarrow> observer \<Rightarrow> observer" where
  "insert_column_at ndx s =
     (let s = s\<lparr>info := (info s)\<lparr>schema_changed := True\<rparr>\<rparr>;
          s = change_at (m_active_descriptor s) (insert_column ndx) s
      in if m_active_descriptor s \<noteq> m_active_table s \<or> \<not> m_is_top_level_table s then s
         else set_column_indices (insert_index ndx)
                (set_lists (lists_of_table (\<lambda>l. if ndx \<le> list_col l then l\<lparr>list_col := list_col l + 1\<rparr> else l)
                   (m_current_table s)) s))"

definition move_column_at :: "nat \<Rightarrow> nat \<Rightarrow> observer \<Rightarrow> log_error + observer" where
  "move_column_at from to s =
     (let s = s\<lparr>info := (info s)\<lparr>schema_changed := True\<rparr>\<rparr>;
          s = change_at (m_active_descriptor s) (move_column from to) s
      in if m_active_descriptor s \<noteq> m_active_table s \<or> \<not> m_is_top_level_table s then Inr s
         else if from = to then Inl Assertion_failed
         else Inr (set_column_indices (move_index from to)
                (set_lists (lists_of_table (\<lambda>l. l\<lparr>list_col := adjust_for_move (list_col l) from to\<rparr>)
                   (m_current_table s)) s)))"

definition prepare_table_indices :: "transaction_info \<Rightarrow> transaction_info" where
  "prepare_table_indices ti =
     (if table_indices ti = [] \<and> table_modifications_needed ti \<noteq> []
      then ti\<lparr>table_indices := [0 ..< length (table_modifications_needed ti)]\<rparr> else ti)"

definition insert_group_level_table :: "nat \<Rightarrow> observer \<Rightarrow> observer" where
  "insert_group_level_table ndx s =
     (let ti = (info s)\<lparr>schema_changed := True,
            lists := map (\<lambda>l. if ndx \<le> list_table l then l\<lparr>list_table := list_table l + 1\<rparr> else l) (lists (info s))\<rparr>;
          ti = prepare_table_indices ti
      in s\<lparr>info := ti\<lparr>table_indices := adjust_ge (table_indices ti) ndx,
             info_tables := insert_empty_at fresh_builder ndx (info_tables ti),
             table_moves_needed := insert_empty_at False ndx (table_moves_needed ti),
             table_modifications_needed := insert_empty_at False ndx (table_modifications_needed ti)\<rparr>\<rparr>)"

definition move_group_level_table :: "nat \<Rightarrow> nat \<Rightarrow> observer \<Rightarrow> log_error + observer" where
  "move_group_level_table from to s =
     (if from = to then Inl Assertion_failed
      else
        let ti = (info s)\<lparr>schema_changed := True,
              lists := map (\<lambda>l. l\<lparr>list_table := adjust_for_move (list_table l) from to\<rparr>) (lists (info s))\<rparr>;
            ti = prepare_table_indices ti
        in Inr (s\<lparr>info := ti\<lparr>table_indices := map (\<lambda>v. adjust_for_move v from to) (table_indices ti),
             info_tables := rotate_pos fresh_builder from to (info_tables ti),
             table_modifications_needed := rotate_pos False from to (table_modifications_needed ti),
             table_moves_needed := rotate_pos False from to (table_moves_needed ti)\<rparr>\<rparr>))"

subsection \<open>Reading a log\<close>

fun handle :: "instruction \<Rightarrow> observer \<Rightarrow> log_error + observer" where
  "handle (Select_table ndx path) s = Inr (select_table ndx path s)"
| "handle (Select_descriptor levels) s = Inr (select_descriptor levels s)"
| "handle (Select_link_list col row) s = Inr (select_link_list col row s)"
| "handle (Link_list_set i) s = Inr (change_list (cb_modify i npos) s)"
| "handle (Link_list_insert i) s = Inr (change_list (cb_insert i 1 True) s)"
| "handle (Link_list_erase i) s = Inr (change_list (cb_erase i) s)"
| "handle (Link_list_nullify i) s = Inr (change_list (cb_erase i) s)"
| "handle (Link_list_clear old_size) s = Inr (change_list (cb_clear old_size) s)"
| "handle (Link_list_move from to) s = Inr (change_list (move_row from to) s)"
| "handle (Link_list_swap i j) s = Inr (change_list (cb_modify j npos) (change_list (cb_modify i npos) s))"
| "handle (Insert_empty_rows row count) s = Inr (insert_empty_rows row count s)"
| "handle (Add_row_with_key row) s = Inr (insert_empty_rows row 1 s)"
| "handle (Erase_rows row prior unordered) s = Inr (erase_rows row prior unordered s)"
| "handle (Swap_rows i j) s = swap_rows_at i j s"
| "handle (Move_row from to) s = move_row_at from to s"
| "handle (Merge_rows from to) s = Inr (merge_rows from to s)"
| "handle Clear_table s = Inr (clear_table s)"
| "handle (Set_value col row kind) s = Inr (if kind = Set then mark_dirty row col s else s)"
| "handle (Change_value col row) s = Inr (mark_dirty row col s)"
| "handle (Set_unique_value col row) s = Inr s"
| "handle (Insert_column ndx) s = Inr (insert_column_at ndx s)"
| "handle (Insert_link_column ndx) s = Inr (insert_column_at ndx s)"
| "handle (Move_column from to) s = move_column_at from to s"
| "handle (Insert_group_level_table ndx) s = Inr (insert_group_level_table ndx s)"
| "handle (Move_group_level_table from to) s = move_group_level_table from to s"
| "handle i s = (if unsupported i then Inl Unsupported_schema_change else Inr s)"

text \<open>\<open>parse_complete\<close> at the end of a log; entries of one list that share a change set clean it
  up more than once.\<close>

definition observer_parse_complete :: "observer \<Rightarrow> observer" where
  "observer_parse_complete s =
     s\<lparr>info := (info s)\<lparr>info_tables := map parse_complete (info_tables (info s))\<rparr>,
       builders := fold (\<lambda>l bs. bs(list_changes l := clean_up_stale_moves (bs (list_changes l))))
         (lists (info s)) (builders s)\<rparr>"

fun handle_all :: "instruction list \<Rightarrow> observer \<Rightarrow> log_error + observer" where
  "handle_all [] s = Inr s"
| "handle_all (i # is) s = (case handle i s of Inl e \<Rightarrow> Inl e | Inr s \<Rightarrow> handle_all is s)"

definition read_log :: "instruction list \<Rightarrow> observer \<Rightarrow> log_error + observer" where
  "read_log is s = map_sum id observer_parse_complete (handle_all is s)"

end
