(* ===== verification/Transact_Lists.thy ===== *)
theory Transact_Lists
  imports Transact_Log Change_Props
begin

text \<open>
  What the log observer has to follow: a database whose tables, rows and columns have
  identities, and what each instruction does to it. The items of a list are the identities of
  its positions; assigning to a position keeps it. New identities are counted up.
\<close>

subsection \<open>The database behind a log\<close>

record table_state =
  table_id :: nat
  row_ids :: "nat list"
  col_ids :: "nat list"

type_synonym list_key = "nat \<times> nat \<times> nat"

record database =
  db_tables :: "table_state list"
  list_items :: "list_key \<Rightarrow> nat list"
  next_id :: nat
  selected_table :: "nat option"
  descriptor_selected :: bool
  selected_list :: "list_key option"

definition table_ok :: "nat \<Rightarrow> table_state \<Rightarrow> bool" where
  "table_ok n t \<longleftrightarrow> distinct (row_ids t) \<and> distinct (col_ids t) \<and>
     list_all (\<lambda>x. x < n) (table_id t # row_ids t @ col_ids t)"

definition well_formed :: "database \<Rightarrow> bool" where
  "well_formed db \<longleftrightarrow> distinct (map table_id (db_tables db)) \<and> list_all (table_ok (next_id db)) (db_tables db)"

definition located :: "table_state list \<Rightarrow> nat \<Rightarrow> nat \<Rightarrow> nat \<Rightarrow> list_key option" where
  "located ts t r c =
     (if t < length ts \<and> r < length (row_ids (ts ! t)) \<and> c < length (col_ids (ts ! t))
      then Some (table_id (ts ! t), row_ids (ts ! t) ! r, col_ids (ts ! t) ! c) else None)"

definition list_exists :: "database \<Rightarrow> list_key \<Rightarrow> bool" where
  "list_exists db k \<longleftrightarrow> list_ex (\<lambda>t. fst k = table_id t \<and> fst (snd k) \<in> set (row_ids t) \<and>
     snd (snd k) \<in> set (col_ids t)) (db_tables db)"

definition guard :: "bool \<Rightarrow> 'a \<Rightarrow> 'a option" where
  "guard b x = (if b then Some x else None)"

definition on_list :: "(nat list \<Rightarrow> nat list option) \<Rightarrow> database \<Rightarrow> database option" where
  "on_list f db =
     (case selected_list db of
        None \<Rightarrow> None
      | Some k \<Rightarrow> map_option (\<lambda>xs. db\<lparr>list_items := (list_items db)(k := xs), next_id := next_id db + 1\<rparr>)
          (f (list_items db k)))"

definition on_rows :: "nat \<Rightarrow> (nat list \<Rightarrow> nat list option) \<Rightarrow> database \<Rightarrow> database option" where
  "on_rows used f db =
     (case selected_table db of
        None \<Rightarrow> None
      | Some t \<Rightarrow> map_option (\<lambda>rows. db\<lparr>db_tables := (db_tables db)[t := (db_tables db ! t)\<lparr>row_ids := rows\<rparr>],
          next_id := next_id db + used, selected_list := None\<rparr>) (f (row_ids (db_tables db ! t))))"

definition on_cols :: "(nat list \<Rightarrow> nat list option) \<Rightarrow> database \<Rightarrow> database option" where
  "on_cols f db =
     (case selected_table db of
        None \<Rightarrow> None
      | Some t \<Rightarrow> if \<not> descriptor_selected db then None else
          map_option (\<lambda>cols. db\<lparr>db_tables := (db_tables db)[t := (db_tables db ! t)\<lparr>col_ids := cols\<rparr>],
            next_id := next_id db + 1, selected_list := None\<rparr>) (f (col_ids (db_tables db ! t))))"

definition on_tables :: "(table_state list \<Rightarrow> table_state list option) \<Rightarrow> database \<Rightarrow> database option" where
  "on_tables f db =
     map_option (\<lambda>ts. db\<lparr>db_tables := ts, next_id := next_id db + 1, selected_table := None,
       descriptor_selected := False, selected_list := None\<rparr>) (f (db_tables db))"

text \<open>
  What an instruction does. Rows of top-level tables are erased by moving the last one over (the
  ordered erasure and the merging of rows do not occur here), and subtables are left out; the
  result is then \<open>None\<close>, as for an instruction that does not fit the database.
\<close>

fun replay :: "instruction \<Rightarrow> database \<Rightarrow> database option" where
  "replay (Select_table t path) db = guard (path = [] \<and> t < length (db_tables db))
     (db\<lparr>selected_table := Some t, descriptor_selected := False, selected_list := None\<rparr>)"
| "replay (Select_descriptor levels) db = guard (levels = 0 \<and> selected_table db \<noteq> None) (db\<lparr>descriptor_selected := True\<rparr>)"
| "replay (Select_link_list col row) db =
     (case selected_table db of None \<Rightarrow> None
      | Some t \<Rightarrow> map_option (\<lambda>k. db\<lparr>selected_list := Some k\<rparr>) (located (db_tables db) t row col))"
| "replay (Link_list_set i) db = on_list (\<lambda>xs. guard (i < length xs) xs) db"
| "replay (Link_list_swap i j) db = on_list (\<lambda>xs. guard (i < length xs \<and> j < length xs) xs) db"
| "replay (Link_list_insert i) db = on_list (\<lambda>xs. guard (i \<le> length xs) (take i xs @ [next_id db] @ drop i xs)) db"
| "replay (Link_list_erase i) db = on_list (\<lambda>xs. guard (i < length xs \<and> length xs \<le> npos) (take i xs @ drop (Suc i) xs)) db"
| "replay (Link_list_nullify i) db = on_list (\<lambda>xs. guard (i < length xs \<and> length xs \<le> npos) (take i xs @ drop (Suc i) xs)) db"
| "replay (Link_list_clear n) db = on_list (\<lambda>xs. guard (n = length xs \<and> n \<noteq> npos) []) db"
| "replay (Link_list_move i j) db =
     on_list (\<lambda>xs. guard (i < length xs \<and> j < length xs \<and> length xs \<le> npos) (move_elem i j xs)) db"
| "replay (Set_value col row kind) db = guard (selected_table db \<noteq> None) db"
| "replay (Change_value col row) db = guard (selected_table db \<noteq> None) db"
| "replay (Set_unique_value col row) db = guard (selected_table db \<noteq> None) db"
| "replay (Insert_empty_rows row n) db =
     on_rows n (\<lambda>rows. guard (row \<le> length rows) (take row rows @ [next_id db ..< next_id db + n] @ drop row rows)) db"
| "replay (Add_row_with_key row) db =
     on_rows 1 (\<lambda>rows. guard (row \<le> length rows) (take row rows @ [next_id db ..< next_id db + 1] @ drop row rows)) db"
| "replay (Erase_rows row prior unordered) db =
     on_rows 0 (\<lambda>rows. guard (unordered \<and> row < length rows \<and> prior = length rows) (over row rows)) db"
| "replay (Swap_rows i j) db = on_rows 0 (\<lambda>rows. guard (i < j \<and> j < length rows) (swap_rows i j rows)) db"
| "replay Clear_table db = on_rows 0 (\<lambda>rows. Some []) db"
| "replay (Insert_column col) db = on_cols (\<lambda>cols. guard (col \<le> length cols) (take col cols @ [next_id db] @ drop col cols)) db"
| "replay (Insert_link_column col) db = on_cols (\<lambda>cols. guard (col \<le> length cols) (take col cols @ [next_id db] @ drop col cols)) db"
| "replay (Move_column i j) db = on_cols (\<lambda>cols. guard (i < length cols \<and> j < length cols \<and> i \<noteq> j) (move_elem i j cols)) db"
| "replay (Insert_group_level_table t) db =
     on_tables (\<lambda>ts. guard (t \<le> length ts) (take t ts @ [\<lparr>table_id = next_id db, row_ids = [], col_ids = []\<rparr>] @ drop t ts)) db"
| "replay (Move_group_level_table i j) db =
     on_tables (\<lambda>ts. guard (i < length ts \<and> j < length ts \<and> i \<noteq> j) (move_elem i j ts)) db"
| "replay (Add_search_index col) db = Some db"
| "replay (Remove_search_index col) db = Some db"
| "replay (Set_link_type col) db = Some db"
| "replay Optimize_table db = Some db"
| "replay _ db = None"

subsection \<open>Positions\<close>

definition moved_by :: "(nat \<Rightarrow> nat) \<Rightarrow> 'a list \<Rightarrow> 'a list \<Rightarrow> nat set \<Rightarrow> bool" where
  "moved_by p xs ys gone \<longleftrightarrow> (\<forall>i < length xs. i \<notin> gone \<longrightarrow> p i < length ys \<and> ys ! p i = xs ! i)"

lemma moved_insert:
  assumes "n \<le> length xs"
  shows "moved_by (\<lambda>i. if n \<le> i then i + length new else i) xs (take n xs @ new @ drop n xs) {}"
  using assms by (auto simp: moved_by_def nth_append min_def)

lemma nth_insertion:
  assumes "j \<le> length C" "m \<le> length C"
  shows "(take j C @ x # drop j C) ! m = (if m < j then C ! m else if m = j then x else C ! (m - 1))"
  using assms by (auto simp: nth_append nth_Cons intro!: arg_cong[where f = "(!) C"] split: nat.splits)

lemma length_insertion: "length (take j C @ x # drop j C) = Suc (length C)"
  by simp

lemma moved_elem:
  assumes "i < length xs" "j < length xs"
  shows "moved_by (\<lambda>v. adjust_for_move v i j) xs (move_elem i j xs) {}"
proof -
  let ?C = "take i xs @ drop (Suc i) xs"
  have C: "length ?C = length xs - 1" "\<And>m. m < length xs - 1 \<Longrightarrow> ?C ! m = xs ! (if m < i then m else Suc m)"
    using assms(1) by (auto simp: nth_append min_def)
  have nth: "move_elem i j xs ! m = (if m < j then ?C ! m else if m = j then xs ! i else ?C ! (m - 1))"
    if "m < length xs" for m
    using nth_insertion[of j ?C m "xs ! i"] that assms C(1) by (simp only: move_elem_def Let_def append_Cons append_Nil)
  have len: "length (move_elem i j xs) = length xs"
    using length_insertion[of j ?C "xs ! i"] C(1) assms(1)
    by (simp only: move_elem_def Let_def append_Cons append_Nil)
  show ?thesis
    unfolding moved_by_def
  proof (intro allI impI)
    fix v assume v: "v < length xs"
    let ?w = "adjust_for_move v i j"
    have w: "?w < length xs" using v assms by (auto simp: adjust_for_move_def)
    moreover have "move_elem i j xs ! ?w = xs ! v"
    proof (cases "v = i")
      case True
      then show ?thesis using nth[OF assms(2)] by (simp add: adjust_for_move_def)
    next
      case False
      have m: "(if ?w < j then ?w else ?w - 1) < length xs - 1" "?w \<noteq> j"
        using v assms False by (auto simp: adjust_for_move_def)
      then have "move_elem i j xs ! ?w = ?C ! (if ?w < j then ?w else ?w - 1)" using nth[OF w] by simp
      also have "\<dots> = xs ! (let m = if ?w < j then ?w else ?w - 1 in if m < i then m else Suc m)"
        unfolding C(2)[OF m(1)] Let_def ..
      also have "(let m = if ?w < j then ?w else ?w - 1 in if m < i then m else Suc m) = v"
        using v assms False by (auto simp: adjust_for_move_def Let_def)
      finally show ?thesis .
    qed
    ultimately show "?w < length (move_elem i j xs) \<and> move_elem i j xs ! ?w = xs ! v" by (simp add: len)
  qed
qed

lemma moved_swap:
  assumes "i < j" "j < length xs"
  shows "moved_by (\<lambda>v. if v = i then j else if v = j then i else v) xs (swap_rows i j xs) {}"
  using assms by (auto simp: moved_by_def swap_rows_def nth_list_update)

lemma moved_over:
  assumes "row < length xs"
  shows "moved_by (\<lambda>v. if v = length xs - 1 then row else v) xs (over row xs) {row}"
  using assms by (cases xs rule: rev_cases) (auto simp: moved_by_def over_def nth_append nth_list_update butlast_list_update)

lemma located_rows:
  assumes "t < length ts" "moved_by p (row_ids (ts ! t)) rows gone" "located ts tbl r c = Some k" "tbl = t \<Longrightarrow> r \<notin> gone"
  shows "located (ts[t := (ts ! t)\<lparr>row_ids := rows\<rparr>]) tbl (if tbl = t then p r else r) c = Some k"
  using assms by (auto simp: located_def moved_by_def split: if_splits)

lemma located_cols:
  assumes "t < length ts" "moved_by p (col_ids (ts ! t)) cols {}" "located ts tbl r c = Some k"
  shows "located (ts[t := (ts ! t)\<lparr>col_ids := cols\<rparr>]) tbl r (if tbl = t then p c else c) = Some k"
  using assms by (auto simp: located_def moved_by_def split: if_splits)

lemma located_tables:
  assumes "moved_by p ts ts' {}" "located ts t r c = Some k"
  shows "located ts' (p t) r c = Some k"
  using assms by (auto simp: located_def moved_by_def split: if_splits)

lemma located_inj:
  assumes "well_formed db" "located (db_tables db) t r c = Some k" "located (db_tables db) t' r' c' = Some k"
  shows "t = t' \<and> r = r' \<and> c = c'"
proof -
  have b: "t < length (db_tables db)" "t' < length (db_tables db)" and "table_id (db_tables db ! t) = table_id (db_tables db ! t')"
    using assms(2,3) by (auto simp: located_def split: if_splits)
  then have t: "t = t'" using assms(1) by (simp add: well_formed_def distinct_conv_nth) metis
  have "distinct (row_ids (db_tables db ! t))" "distinct (col_ids (db_tables db ! t))"
    using assms(1) b by (simp_all add: well_formed_def table_ok_def list_all_length)
  then show ?thesis using assms(2,3) t by (auto simp: located_def nth_eq_iff_index_eq split: if_splits)
qed

subsection \<open>The erased row\<close>

definition renumber :: "nat \<Rightarrow> nat \<Rightarrow> nat \<Rightarrow> tracked_list \<Rightarrow> tracked_list" where
  "renumber tbl row last_row l = (if list_table l = tbl \<and> list_row l = last_row then l\<lparr>list_row := row\<rparr> else l)"

definition at_row :: "nat \<Rightarrow> nat \<Rightarrow> tracked_list \<Rightarrow> bool" where
  "at_row tbl row l \<longleftrightarrow> list_table l = tbl \<and> list_row l = row"

text \<open>
  The case in which the loop of \<open>erase_rows\<close> does right: at most one list of the erased row is
  tracked, and the one tracked last, which takes its place, is not of the last row.
\<close>

definition erase_ok :: "nat \<Rightarrow> nat \<Rightarrow> nat \<Rightarrow> tracked_list list \<Rightarrow> bool" where
  "erase_ok tbl row last_row ls \<longleftrightarrow> length (filter (at_row tbl row) ls) \<le> 1 \<and>
     (filter (at_row tbl row) ls \<noteq> [] \<longrightarrow> \<not> at_row tbl last_row (List.last ls) \<or> row = last_row)"

lemma erase_lists_none:
  assumes "filter (at_row tbl row) (drop i ls) = []"
  shows "erase_lists tbl row last_row i ls = take i ls @ map (renumber tbl row last_row) (drop i ls)"
  using assms
proof (induction tbl row last_row i ls rule: erase_lists.induct)
  case (1 tbl row last_row i ls)
  show ?case
  proof (cases "i < length ls")
    case True
    then have d: "drop i ls = ls ! i # drop (Suc i) ls" by (simp add: Cons_nth_drop_Suc)
    with 1(5) have n: "\<not> at_row tbl row (ls ! i)" and r: "filter (at_row tbl row) (drop (Suc i) ls) = []"
      by (simp_all split: if_splits)
    let ?ls = "ls[i := renumber tbl row last_row (ls ! i)]"
    have "erase_lists tbl row last_row i ls = erase_lists tbl row last_row (i + 1) ?ls"
      using True n by (subst erase_lists.simps) (auto simp: renumber_def at_row_def)
    moreover have "erase_lists tbl row last_row (i + 1) ?ls =
        take (Suc i) ?ls @ map (renumber tbl row last_row) (drop (Suc i) ls)"
    proof (cases "at_row tbl last_row (ls ! i)")
      case a: True
      then have e: "list_table (ls ! i) = tbl" "list_row (ls ! i) = last_row" "list_row (ls ! i) \<noteq> row"
          "?ls = ls[i := (ls ! i)\<lparr>list_row := row\<rparr>]" using n by (simp_all add: at_row_def renumber_def)
      show ?thesis using 1(3) True r by (simp only: e(4) not_le) (use e in simp)
    next
      case False
      then have e: "?ls = ls" and f: "list_table (ls ! i) = tbl \<Longrightarrow> list_row (ls ! i) \<noteq> last_row"
        by (auto simp: renumber_def at_row_def)
      from n have "list_table (ls ! i) = tbl \<Longrightarrow> list_row (ls ! i) \<noteq> row" by (simp add: at_row_def)
      then show ?thesis unfolding e using 1(1,4) True r f by (cases "list_table (ls ! i) = tbl") simp_all
    qed
    moreover have "take (Suc i) ?ls = take i ls @ [renumber tbl row last_row (ls ! i)]"
      using True by (simp add: take_Suc_conv_app_nth)
    ultimately show ?thesis by (simp add: d)
  qed (simp add: erase_lists.simps)
qed

lemma erase_lists_one:
  assumes "filter (at_row tbl row) (drop i ls) = [l]" "\<not> at_row tbl last_row (List.last ls) \<or> row = last_row"
  shows "mset (erase_lists tbl row last_row i ls) =
    mset (take i ls @ map (renumber tbl row last_row) (filter (\<lambda>l. \<not> at_row tbl row l) (drop i ls)))"
  using assms
proof (induction tbl row last_row i ls rule: erase_lists.induct)
  case (1 tbl row last_row i ls)
  from 1(5) have i: "i < length ls" by (cases "i < length ls") simp_all
  then have d: "drop i ls = ls ! i # drop (Suc i) ls" by (simp add: Cons_nth_drop_Suc)
  show ?case
  proof (cases "at_row tbl row (ls ! i)")
    case True
    then have rest: "filter (at_row tbl row) (drop (Suc i) ls) = []" using 1(5) d by simp
    then have keep: "filter (\<lambda>l. \<not> at_row tbl row l) (drop (Suc i) ls) = drop (Suc i) ls"
      by (simp add: filter_empty_conv filter_id_conv)
    have at: "list_table (ls ! i) = tbl" "list_row (ls ! i) = row" using True by (simp_all add: at_row_def)
    show ?thesis
    proof (cases "i + 1 < length ls")
      case more: True
      let ?ls = "butlast (ls[i := List.last ls])"
      obtain xs z where xs: "drop (Suc i) ls = xs @ [z]" using more by (metis Cons_nth_drop_Suc Suc_eq_plus1 rev_exhaust list.discI)
      have ls: "ls = take i ls @ ls ! i # xs @ [z]" using id_take_nth_drop[OF i] xs by simp
      have z: "List.last ls = z" by (subst ls) simp
      have eq: "?ls = take i ls @ z # xs"
        by (subst ls, subst list_update_append) (use i in \<open>simp add: butlast_append z\<close>)
      have no: "\<not> at_row tbl row z" using rest xs by (simp split: if_splits)
      then have ren: "renumber tbl row last_row z = z" using 1(6) z by (auto simp: renumber_def at_row_def)
      have "erase_lists tbl row last_row i ls = erase_lists tbl row last_row (i + 1) ?ls"
        using i at more by (subst erase_lists.simps) simp
      also have "\<dots> = take (i + 1) ?ls @ map (renumber tbl row last_row) (drop (i + 1) ?ls)"
        by (rule erase_lists_none) (use i rest xs in \<open>simp add: eq split: if_splits\<close>)
      also have "\<dots> = take i ls @ z # map (renumber tbl row last_row) xs" using i by (simp add: eq)
      finally have "mset (erase_lists tbl row last_row i ls) = mset (take i ls @ map (renumber tbl row last_row) (xs @ [z]))"
        by (simp add: ren)
      moreover have "filter (\<lambda>l. \<not> at_row tbl row l) (drop i ls) = xs @ [z]"
        unfolding d xs[symmetric] using True keep by simp
      ultimately show ?thesis by simp
    next
      case False
      then have e: "drop (Suc i) ls = []" and L: "length ls = Suc i" using i by simp_all
      have "erase_lists tbl row last_row i ls = erase_lists tbl row last_row (i + 1) (butlast ls)"
        using i at False by (subst erase_lists.simps) simp
      also have "\<dots> = butlast ls" using L by (subst erase_lists.simps) simp
      also have "\<dots> = take i ls" using L by (simp add: butlast_conv_take)
      finally show ?thesis using True by (simp add: d e)
    qed
  next
    case False
    then have f: "filter (at_row tbl row) (drop (Suc i) ls) = [l]" using 1(5) d by simp
    let ?r = "renumber tbl row last_row"
    let ?ls = "ls[i := ?r (ls ! i)]"
    have step: "erase_lists tbl row last_row i ls = erase_lists tbl row last_row (i + 1) ?ls"
      using i False by (subst erase_lists.simps) (auto simp: renumber_def at_row_def)
    have more: "drop (Suc i) ls \<noteq> []" using f by auto
    then have lst: "List.last ?ls = List.last ls" using i by (subst last_list_update) auto
    have tk: "take (Suc i) ?ls = take i ls @ [?r (ls ! i)]" using i by (simp add: take_Suc_conv_app_nth)
    have "mset (erase_lists tbl row last_row (i + 1) ?ls) =
        mset (take (i + 1) ?ls @ map ?r (filter (\<lambda>l. \<not> at_row tbl row l) (drop (i + 1) ?ls)))"
    proof (cases "at_row tbl last_row (ls ! i)")
      case a: True
      then have e: "list_table (ls ! i) = tbl" "list_row (ls ! i) = last_row" "list_row (ls ! i) \<noteq> row"
          "?ls = ls[i := (ls ! i)\<lparr>list_row := row\<rparr>]" using False by (simp_all add: at_row_def renumber_def)
      show ?thesis using 1(3) i f 1(6) lst by (simp only: e(4) not_le) (use e in simp)
    next
      case b: False
      then have e: "?ls = ls" and r: "list_table (ls ! i) = tbl \<Longrightarrow> list_row (ls ! i) \<noteq> last_row"
        by (auto simp: renumber_def at_row_def)
      from False have "list_table (ls ! i) = tbl \<Longrightarrow> list_row (ls ! i) \<noteq> row" by (simp add: at_row_def)
      then show ?thesis unfolding e using 1(1,4) i f 1(6) r by (cases "list_table (ls ! i) = tbl") simp_all
    qed
    then show ?thesis using False by (simp add: step d tk)
  qed
qed

text \<open>Renumbering and dropping, up to the order of the entries.\<close>

lemma erase_lists_ok:
  assumes "erase_ok tbl row last_row ls"
  shows "mset (erase_lists tbl row last_row 0 ls) =
    mset (map (renumber tbl row last_row) (filter (\<lambda>l. \<not> at_row tbl row l) ls))"
proof (cases "filter (at_row tbl row) ls")
  case Nil
  then have "filter (\<lambda>l. \<not> at_row tbl row l) ls = ls" by (simp add: filter_empty_conv filter_id_conv)
  then show ?thesis using erase_lists_none[of tbl row 0 ls last_row] Nil by simp
next
  case (Cons l ls')
  then have "filter (at_row tbl row) ls = [l]" "\<not> at_row tbl last_row (List.last ls) \<or> row = last_row"
    using assms by (simp_all add: erase_ok_def)
  then show ?thesis using erase_lists_one[of tbl row 0 ls l last_row] by simp
qed

end
