(* ===== verification/Transact_Follow.thy ===== *)
theory Transact_Follow
  imports Transact_Lists
begin

text \<open>
  The log observer follows the database: every tracked list keeps its place, and its change set
  records what happened to it.
\<close>

subsection \<open>The invariant\<close>

definition lists_ok :: "(nat \<Rightarrow> list_key) \<Rightarrow> nat set \<Rightarrow> database \<Rightarrow> tracked_list list \<Rightarrow> bool" where
  "lists_ok K A db ls \<longleftrightarrow> distinct (map list_changes ls) \<and>
     (\<forall>l \<in> set ls. list_changes l \<in> A \<and>
        located (db_tables db) (list_table l) (list_row l) (list_col l) = Some (K (list_changes l))) \<and>
     (\<forall>a \<in> A. list_exists db (K a) \<longrightarrow> a \<in> list_changes ` set ls)"

definition recorded :: "(nat \<Rightarrow> list_key) \<Rightarrow> database \<Rightarrow> database \<Rightarrow> (nat \<Rightarrow> change_builder) \<Rightarrow> tracked_list list \<Rightarrow> bool" where
  "recorded K db\<^sub>0 db bs ls \<longleftrightarrow>
     (\<forall>a \<in> list_changes ` set ls. list_history (list_items db\<^sub>0 (K a)) (list_items db (K a)) (bs a))"

fun list_cursor_ok :: "(nat \<Rightarrow> list_key) \<Rightarrow> nat set \<Rightarrow> nat option \<Rightarrow> list_key option \<Rightarrow> bool" where
  "list_cursor_ok K as active None = True"
| "list_cursor_ok K as None (Some k) = (k \<notin> K ` as)"
| "list_cursor_ok K as (Some a) (Some k) = (a \<in> as \<and> K a = k)"

definition cursor_ok :: "(nat \<Rightarrow> list_key) \<Rightarrow> database \<Rightarrow> observer \<Rightarrow> bool" where
  "cursor_ok K db s \<longleftrightarrow>
     (\<forall>a. m_active_table s \<noteq> Some (List_changes a)) \<and> (\<forall>a. m_active_descriptor s \<noteq> Some (List_changes a)) \<and>
     (case selected_table db of
        None \<Rightarrow> \<not> descriptor_selected db \<and> selected_list db = None
      | Some t \<Rightarrow> t < length (db_tables db) \<and> m_current_table s = t \<and> m_is_top_level_table s \<and>
          (descriptor_selected db \<longrightarrow> m_active_descriptor s = m_active_table s)) \<and>
     list_cursor_ok K (list_changes ` set (lists (info s))) (m_active_list s) (selected_list db)"

definition keys_old :: "(nat \<Rightarrow> list_key) \<Rightarrow> nat set \<Rightarrow> database \<Rightarrow> bool" where
  "keys_old K A db \<longleftrightarrow> (\<forall>a \<in> A. case K a of (t, r, c) \<Rightarrow> t < next_id db \<and> r < next_id db \<and> c < next_id db)"

definition follows :: "(nat \<Rightarrow> list_key) \<Rightarrow> nat set \<Rightarrow> database \<Rightarrow> database \<Rightarrow> observer \<Rightarrow> bool" where
  "follows K A db\<^sub>0 db s \<longleftrightarrow> well_formed db \<and> inj_on K A \<and> keys_old K A db \<and> cursor_ok K db s \<and>
     lists_ok K A db (lists (info s)) \<and> recorded K db\<^sub>0 db (builders s) (lists (info s))"

subsection \<open>Changes of the lists\<close>

lemma lists_ok_mset:
  assumes "mset ls = mset ls'"
  shows "lists_ok K A db ls = lists_ok K A db ls'" "recorded K db\<^sub>0 db bs ls = recorded K db\<^sub>0 db bs ls'"
proof -
  have "set ls = set ls'" using assms by (rule mset_eq_setD)
  moreover have "distinct (map list_changes ls) = distinct (map list_changes ls')"
    using assms by (metis mset_map mset_eq_imp_distinct_iff)
  ultimately show "lists_ok K A db ls = lists_ok K A db ls'" "recorded K db\<^sub>0 db bs ls = recorded K db\<^sub>0 db bs ls'"
    by (simp_all add: lists_ok_def recorded_def)
qed

lemma lists_ok_map:
  assumes "lists_ok K A db ls" "\<And>l. list_changes (f l) = list_changes l"
    "\<And>l k. l \<in> set ls \<Longrightarrow> P l \<Longrightarrow> located (db_tables db) (list_table l) (list_row l) (list_col l) = Some k \<Longrightarrow>
      located (db_tables db') (list_table (f l)) (list_row (f l)) (list_col (f l)) = Some k"
    "\<And>a. a \<in> A \<Longrightarrow> list_exists db' (K a) \<Longrightarrow> list_exists db (K a)"
    "\<And>l. l \<in> set ls \<Longrightarrow> list_exists db' (K (list_changes l)) \<Longrightarrow> P l"
  shows "lists_ok K A db' (map f (filter P ls))"
  unfolding lists_ok_def
proof (intro conjI ballI impI)
  have "map list_changes (map f (filter P ls)) = map list_changes (filter P ls)" by (simp add: assms(2))
  moreover have "distinct (map list_changes (filter P ls))" using assms(1) by (simp add: lists_ok_def distinct_map_filter)
  ultimately show "distinct (map list_changes (map f (filter P ls)))" by (simp only:)
next
  fix l assume "l \<in> set (map f (filter P ls))"
  then obtain l' where l: "l = f l'" "l' \<in> set ls" "P l'" by auto
  with assms(1) have "list_changes l' \<in> A"
    "located (db_tables db) (list_table l') (list_row l') (list_col l') = Some (K (list_changes l'))"
    by (simp_all add: lists_ok_def)
  with l show "list_changes l \<in> A"
    "located (db_tables db') (list_table l) (list_row l) (list_col l) = Some (K (list_changes l))"
    using assms(2,3) by simp_all
next
  fix a assume a: "a \<in> A" "list_exists db' (K a)"
  with assms(1,4) obtain l where l: "l \<in> set ls" "list_changes l = a" by (auto simp: lists_ok_def)
  then have "P l" using assms(5) a(2) by simp
  with l show "a \<in> list_changes ` set (map f (filter P ls))" using assms(2) by (auto simp: image_iff intro!: bexI[of _ l])
qed

lemma recorded_map:
  assumes "recorded K db\<^sub>0 db bs ls" "\<And>l. list_changes (f l) = list_changes l" "list_items db' = list_items db"
  shows "recorded K db\<^sub>0 db' bs (map f (filter P ls))"
  using assms by (auto simp: recorded_def)

text \<open>Changes of top-level tables leave the rest of the observer alone.\<close>

lemma change_at_frame [simp]:
  "m_current_table (change_at p f s) = m_current_table s" "m_active_list (change_at p f s) = m_active_list s"
  "m_active_table (change_at p f s) = m_active_table s" "m_active_descriptor (change_at p f s) = m_active_descriptor s"
  "m_is_top_level_table (change_at p f s) = m_is_top_level_table s" "lists (info (change_at p f s)) = lists (info s)"
  by (cases "(p, f, s)" rule: change_at.cases; simp)+

lemma set_lists_frame [simp]:
  "m_current_table (set_lists f s) = m_current_table s" "m_active_list (set_lists f s) = m_active_list s"
  "m_active_table (set_lists f s) = m_active_table s" "m_active_descriptor (set_lists f s) = m_active_descriptor s"
  "m_is_top_level_table (set_lists f s) = m_is_top_level_table s" "lists (info (set_lists f s)) = f (lists (info s))"
  "builders (set_lists f s) = builders s"
  by (simp_all add: set_lists_def)

lemma set_column_indices_frame [simp]:
  "m_current_table (set_column_indices f s) = m_current_table s" "m_active_list (set_column_indices f s) = m_active_list s"
  "m_active_table (set_column_indices f s) = m_active_table s"
  "m_active_descriptor (set_column_indices f s) = m_active_descriptor s"
  "m_is_top_level_table (set_column_indices f s) = m_is_top_level_table s"
  "lists (info (set_column_indices f s)) = lists (info s)" "builders (set_column_indices f s) = builders s"
  by (simp_all add: set_column_indices_def Let_def)

lemma change_at_builders: "(\<forall>a. p \<noteq> Some (List_changes a)) \<Longrightarrow> builders (change_at p f s) = builders s"
  by (cases "(p, f, s)" rule: change_at.cases) auto

lemma lists_of_table_map: "lists_of_table f t ls = map (\<lambda>l. if list_table l = t then f l else l) (filter (\<lambda>l. True) ls)"
  by (simp add: lists_of_table_def)

subsection \<open>Rows, columns and tables\<close>

text \<open>A change of the rows of the selected table, and the change of the tracked rows that fits it.\<close>

lemma well_formed_table: "well_formed db \<Longrightarrow> t < length (db_tables db) \<Longrightarrow> table_ok (next_id db) (db_tables db ! t)"
  by (simp add: well_formed_def list_all_length)

lemma table_ok_iff: "table_ok n t \<longleftrightarrow> distinct (row_ids t) \<and> distinct (col_ids t) \<and> table_id t < n \<and>
    (\<forall>x \<in> set (row_ids t). x < n) \<and> (\<forall>x \<in> set (col_ids t). x < n)"
  by (auto simp: table_ok_def list_all_iff)

lemma table_ok_mono: "table_ok n t \<Longrightarrow> n \<le> m \<Longrightarrow> table_ok m t"
  unfolding table_ok_iff using order_less_le_trans by blast

lemma update_id: "t < length ts \<Longrightarrow> f x = f (ts ! t) \<Longrightarrow> map f (ts[t := x]) = map f ts"
  by (metis list_update_id map_update)

lemma well_formed_update:
  assumes "well_formed db" "t < length (db_tables db)" "table_id x = table_id (db_tables db ! t)"
    "table_ok (next_id db') x" "next_id db \<le> next_id db'" "db_tables db' = (db_tables db)[t := x]"
  shows "well_formed db'"
proof -
  have "map table_id (db_tables db') = map table_id (db_tables db)" using assms(2,3,6) by (simp add: update_id)
  moreover have "table_ok (next_id db') y" if "y \<in> set (db_tables db')" for y
    using that assms(1,4,5) set_update_subset_insert[of "db_tables db" t x]
    by (auto simp: assms(6) well_formed_def list_all_iff intro: table_ok_mono)
  ultimately show ?thesis using assms(1) by (simp add: well_formed_def list_all_iff)
qed

text \<open>A list of the updated table has new identities, or was there before.\<close>

lemma list_exists_update:
  assumes "t < length (db_tables db)" "table_id x = table_id (db_tables db ! t)"
    "db_tables db' = (db_tables db)[t := x]" "list_exists db' (i, r, c)" "r < n" "c < n"
    "set (row_ids x) \<subseteq> set (row_ids (db_tables db ! t)) \<union> {n..}"
    "set (col_ids x) \<subseteq> set (col_ids (db_tables db ! t)) \<union> {n..}"
  shows "list_exists db (i, r, c)"
proof -
  obtain y where y: "y \<in> set (db_tables db')" "i = table_id y" "r \<in> set (row_ids y)" "c \<in> set (col_ids y)"
    using assms(4) by (auto simp: list_exists_def list_ex_iff)
  then consider "y = x" | "y \<in> set (db_tables db)" using set_update_subset_insert[of "db_tables db" t x] assms(3) by auto
  then show ?thesis
  proof cases
    case 1
    then show ?thesis using y assms(1,2,5-8) by (auto simp: list_exists_def list_ex_iff intro!: bexI[of _ "db_tables db ! t"])
  next
    case 2
    then show ?thesis using y by (auto simp: list_exists_def list_ex_iff)
  qed
qed

lemma keys_old_mono: "keys_old K A db \<Longrightarrow> next_id db \<le> next_id db' \<Longrightarrow> keys_old K A db'"
  by (auto simp: keys_old_def split: prod.splits)

lemma cursor_ok_update:
  assumes "cursor_ok K db s" "length (db_tables db') = length (db_tables db)" "selected_table db' = selected_table db"
    "descriptor_selected db' = descriptor_selected db" "selected_list db' = None"
    "m_current_table s' = m_current_table s" "m_active_table s' = m_active_table s"
    "m_active_descriptor s' = m_active_descriptor s" "m_is_top_level_table s' = m_is_top_level_table s"
  shows "cursor_ok K db' s'"
  using assms by (auto simp: cursor_ok_def split: option.splits)

lemma cursor_ok_same:
  assumes "cursor_ok K db s" "selected_table db' = selected_table db" "descriptor_selected db' = descriptor_selected db"
    "selected_list db' = selected_list db" "length (db_tables db') = length (db_tables db)"
    "m_current_table s' = m_current_table s" "m_active_table s' = m_active_table s"
    "m_active_descriptor s' = m_active_descriptor s" "m_is_top_level_table s' = m_is_top_level_table s"
    "m_active_list s' = m_active_list s" "lists (info s') = lists (info s)"
  shows "cursor_ok K db' s'"
  using assms(1) unfolding cursor_ok_def assms(2-11) .

text \<open>A change of the selected table, and the change of the entries that fits it.\<close>

lemma follows_update:
  assumes "follows K A db\<^sub>0 db s" "t < length (db_tables db)"
    "db' = db\<lparr>db_tables := (db_tables db)[t := x], next_id := next_id db + n, selected_list := None\<rparr>"
    "table_id x = table_id (db_tables db ! t)" "table_ok (next_id db + n) x"
    "set (row_ids x) \<subseteq> set (row_ids (db_tables db ! t)) \<union> {next_id db..}"
    "set (col_ids x) \<subseteq> set (col_ids (db_tables db ! t)) \<union> {next_id db..}"
    "\<And>l. list_changes (f l) = list_changes l"
    "\<And>l k. l \<in> set (lists (info s)) \<Longrightarrow> P l \<Longrightarrow>
      located (db_tables db) (list_table l) (list_row l) (list_col l) = Some k \<Longrightarrow>
      located ((db_tables db)[t := x]) (list_table (f l)) (list_row (f l)) (list_col (f l)) = Some k"
    "\<And>l. l \<in> set (lists (info s)) \<Longrightarrow> list_exists db' (K (list_changes l)) \<Longrightarrow> P l"
    "mset (lists (info s')) = mset (map f (filter P (lists (info s))))"
    "builders s' = builders s" "m_current_table s' = m_current_table s" "m_active_table s' = m_active_table s"
    "m_active_descriptor s' = m_active_descriptor s" "m_is_top_level_table s' = m_is_top_level_table s"
  shows "follows K A db\<^sub>0 db' s'"
proof -
  have wf: "well_formed db" and inj: "inj_on K A" and old: "keys_old K A db" and cur: "cursor_ok K db s"
    and ok: "lists_ok K A db (lists (info s))" and rec: "recorded K db\<^sub>0 db (builders s) (lists (info s))"
    using assms(1) by (simp_all add: follows_def)
  have ts: "db_tables db' = (db_tables db)[t := x]" and n: "next_id db' = next_id db + n"
    and cs: "selected_table db' = selected_table db" "descriptor_selected db' = descriptor_selected db"
      "selected_list db' = None" "list_items db' = list_items db" by (simp_all add: assms(3))
  from assms(5) have "table_ok (next_id db') x" by (simp add: n)
  from well_formed_update[OF wf assms(2,4) this _ ts] have "well_formed db'" by (simp add: n)
  moreover have "keys_old K A db'" using old by (rule keys_old_mono) (simp add: n)
  moreover have "cursor_ok K db' s'"
    using cursor_ok_update[OF cur _ cs(1-3) assms(13-16)] by (simp add: ts)
  moreover have "lists_ok K A db' (map f (filter P (lists (info s))))"
  proof (rule lists_ok_map[OF ok])
    fix a assume a: "a \<in> A" and e: "list_exists db' (K a)"
    obtain i r c where k: "K a = (i, r, c)" by (cases "K a")
    then have "r < next_id db" "c < next_id db" using old a by (auto simp: keys_old_def)
    with e show "list_exists db (K a)" unfolding k by (intro list_exists_update[OF assms(2,4) ts _ _ _ assms(6,7)])
  qed (simp_all add: assms(8-10) ts)
  then have "lists_ok K A db' (lists (info s'))" using lists_ok_mset(1)[OF assms(11)] by simp
  moreover have "recorded K db\<^sub>0 db' (builders s') (lists (info s'))"
    using recorded_map[OF rec assms(8) cs(4)] lists_ok_mset(2)[OF assms(11)] assms(12) by simp
  ultimately show ?thesis using inj by (simp add: follows_def)
qed

lemma follows_fields:
  assumes "follows K A db\<^sub>0 db s"
  shows "well_formed db" "\<forall>a. m_active_table s \<noteq> Some (List_changes a)" "\<forall>a. m_active_descriptor s \<noteq> Some (List_changes a)"
    "selected_table db = Some t \<Longrightarrow> t < length (db_tables db) \<and> m_current_table s = t \<and> m_is_top_level_table s"
    "descriptor_selected db \<Longrightarrow> m_active_descriptor s = m_active_table s"
  using assms by (auto simp: follows_def cursor_ok_def split: option.splits)

text \<open>A list of the table is not in it any more when its row is gone.\<close>

lemma gone_list:
  assumes "follows K A db\<^sub>0 db s" "t < length (db_tables db)" "l \<in> set (lists (info s))" "list_table l = t"
    "row_ids (db_tables db ! t) ! list_row l \<notin> set (row_ids x)" "table_id x = table_id (db_tables db ! t)"
    "db_tables db' = (db_tables db)[t := x]"
  shows "\<not> list_exists db' (K (list_changes l))"
proof
  let ?T = "db_tables db ! t"
  assume "list_exists db' (K (list_changes l))"
  moreover have "K (list_changes l) = (table_id ?T, row_ids ?T ! list_row l, col_ids ?T ! list_col l)"
    using assms(1,3,4) by (auto simp: follows_def lists_ok_def located_def split: if_splits)
  ultimately obtain y where y: "y \<in> set (db_tables db')" "table_id y = table_id ?T"
      "row_ids ?T ! list_row l \<in> set (row_ids y)"
    by (auto simp: list_exists_def list_ex_iff)
  then obtain j where j: "j < length (db_tables db)" "y = db_tables db' ! j" by (auto simp: in_set_conv_nth assms(7))
  then have "j = t" using y(2) follows_fields(1)[OF assms(1)] assms(2,6)
    by (auto simp: assms(7) nth_list_update well_formed_def distinct_conv_nth split: if_splits)
  then show False using y(3) j assms(2,5) by (simp add: assms(7))
qed

lemma follows_rows:
  assumes "follows K A db\<^sub>0 db s" "on_rows n g db = Some db'" "selected_table db = Some t"
    "g (row_ids (db_tables db ! t)) = Some rows" "distinct rows"
    "set rows \<subseteq> set (row_ids (db_tables db ! t)) \<union> {next_id db ..< next_id db + n}"
    "moved_by p (row_ids (db_tables db ! t)) rows gone"
    "\<forall>r \<in> gone. r < length (row_ids (db_tables db ! t)) \<longrightarrow> row_ids (db_tables db ! t) ! r \<notin> set rows"
    "mset (lists (info s')) = mset (map (\<lambda>l. if list_table l = t then l\<lparr>list_row := p (list_row l)\<rparr> else l)
      (filter (\<lambda>l. \<not> (list_table l = t \<and> list_row l \<in> gone)) (lists (info s))))"
    "builders s' = builders s" "m_current_table s' = m_current_table s" "m_active_table s' = m_active_table s"
    "m_active_descriptor s' = m_active_descriptor s" "m_is_top_level_table s' = m_is_top_level_table s"
  shows "follows K A db\<^sub>0 db' s'"
proof -
  let ?T = "db_tables db ! t"
  have t: "t < length (db_tables db)" using follows_fields(4)[OF assms(1,3)] by simp
  have db': "db' = db\<lparr>db_tables := (db_tables db)[t := ?T\<lparr>row_ids := rows\<rparr>], next_id := next_id db + n, selected_list := None\<rparr>"
    using assms(2-4) by (simp add: on_rows_def)
  have T: "table_ok (next_id db) ?T" using well_formed_table[OF follows_fields(1)[OF assms(1)] t] .
  have "x < next_id db + n" if "x \<in> set rows" for x
  proof -
    have "x \<in> set (row_ids ?T) \<or> x < next_id db + n" using that assms(6) by auto
    then show ?thesis using T by (auto simp: table_ok_iff)
  qed
  then have x: "table_ok (next_id db + n) (?T\<lparr>row_ids := rows\<rparr>)"
    using assms(5) table_ok_mono[OF T, of "next_id db + n"] by (simp add: table_ok_iff)
  have sub: "set rows \<subseteq> set (row_ids ?T) \<union> {next_id db..}" using assms(6) by auto
  show ?thesis
  proof (rule follows_update[OF assms(1) t db' _ x _ _ _ _ _ assms(9-14)])
    fix l k assume k: "located (db_tables db) (list_table l) (list_row l) (list_col l) = Some k"
      and g: "\<not> (list_table l = t \<and> list_row l \<in> gone)"
    then show "located ((db_tables db)[t := ?T\<lparr>row_ids := rows\<rparr>])
        (list_table (if list_table l = t then l\<lparr>list_row := p (list_row l)\<rparr> else l))
        (list_row (if list_table l = t then l\<lparr>list_row := p (list_row l)\<rparr> else l))
        (list_col (if list_table l = t then l\<lparr>list_row := p (list_row l)\<rparr> else l)) = Some k"
      using located_rows[OF t assms(7) k] g by (cases "list_table l = t") simp_all
  next
    fix l assume l: "l \<in> set (lists (info s))" and e: "list_exists db' (K (list_changes l))"
    show "\<not> (list_table l = t \<and> list_row l \<in> gone)"
    proof
      assume g: "list_table l = t \<and> list_row l \<in> gone"
      have "list_row l < length (row_ids ?T)" using assms(1) l g
        by (auto simp: follows_def lists_ok_def located_def split: if_splits)
      then show False
        using gone_list[OF assms(1) t l, of "?T\<lparr>row_ids := rows\<rparr>" db'] g e assms(8) by (simp add: db')
    qed
  qed (use sub in simp_all)
qed

lemma follows_cols:
  assumes "follows K A db\<^sub>0 db s" "on_cols g db = Some db'" "selected_table db = Some t"
    "g (col_ids (db_tables db ! t)) = Some cols" "distinct cols"
    "set cols \<subseteq> set (col_ids (db_tables db ! t)) \<union> {next_id db}"
    "moved_by p (col_ids (db_tables db ! t)) cols {}"
    "lists (info s') = map (\<lambda>l. if list_table l = t then l\<lparr>list_col := p (list_col l)\<rparr> else l) (lists (info s))"
    "builders s' = builders s" "m_current_table s' = m_current_table s" "m_active_table s' = m_active_table s"
    "m_active_descriptor s' = m_active_descriptor s" "m_is_top_level_table s' = m_is_top_level_table s"
  shows "follows K A db\<^sub>0 db' s'"
proof -
  let ?T = "db_tables db ! t"
  have t: "t < length (db_tables db)" using follows_fields(4)[OF assms(1,3)] by simp
  have db': "db' = db\<lparr>db_tables := (db_tables db)[t := ?T\<lparr>col_ids := cols\<rparr>], next_id := next_id db + 1, selected_list := None\<rparr>"
    using assms(2-4) by (simp add: on_cols_def split: if_splits)
  have T: "table_ok (next_id db) ?T" using well_formed_table[OF follows_fields(1)[OF assms(1)] t] .
  have "x < next_id db + 1" if "x \<in> set cols" for x
  proof -
    have "x \<in> set (col_ids ?T) \<or> x < next_id db + 1" using that assms(6) by auto
    then show ?thesis using T by (auto simp: table_ok_iff)
  qed
  then have x: "table_ok (next_id db + 1) (?T\<lparr>col_ids := cols\<rparr>)"
    using assms(5) table_ok_mono[OF T, of "next_id db + 1"] by (simp add: table_ok_iff)
  have sub: "set cols \<subseteq> set (col_ids ?T) \<union> {next_id db..}" using assms(6) by auto
  have ls: "mset (lists (info s')) = mset (map (\<lambda>l. if list_table l = t then l\<lparr>list_col := p (list_col l)\<rparr> else l)
      (filter (\<lambda>l. True) (lists (info s))))" by (simp add: assms(8))
  show ?thesis
  proof (rule follows_update[OF assms(1) t db' _ x _ _ _ _ _ ls assms(9-13)])
    fix l k assume k: "located (db_tables db) (list_table l) (list_row l) (list_col l) = Some k"
    show "located ((db_tables db)[t := ?T\<lparr>col_ids := cols\<rparr>])
        (list_table (if list_table l = t then l\<lparr>list_col := p (list_col l)\<rparr> else l))
        (list_row (if list_table l = t then l\<lparr>list_col := p (list_col l)\<rparr> else l))
        (list_col (if list_table l = t then l\<lparr>list_col := p (list_col l)\<rparr> else l)) = Some k"
      using located_cols[OF t assms(7) k] by (cases "list_table l = t") simp_all
  qed (use sub in simp_all)
qed

text \<open>Changes of the tables of the database.\<close>

lemma follows_tables:
  assumes "follows K A db\<^sub>0 db s" "on_tables g db = Some db'" "g (db_tables db) = Some ts"
    "distinct (map table_id ts)" "list_all (table_ok (next_id db + 1)) ts" "moved_by p (db_tables db) ts {}"
    "\<And>x. x \<in> set ts \<Longrightarrow> x \<in> set (db_tables db) \<or> row_ids x = []"
    "lists (info s') = map (\<lambda>l. l\<lparr>list_table := p (list_table l)\<rparr>) (lists (info s))"
    "builders s' = builders s" "m_active_table s' = m_active_table s" "m_active_descriptor s' = m_active_descriptor s"
  shows "follows K A db\<^sub>0 db' s'"
proof -
  have db': "db' = db\<lparr>db_tables := ts, next_id := next_id db + 1, selected_table := None, descriptor_selected := False,
      selected_list := None\<rparr>" using assms(2,3) by (simp add: on_tables_def)
  have ls: "lists (info s') = map (\<lambda>l. l\<lparr>list_table := p (list_table l)\<rparr>) (filter (\<lambda>l. True) (lists (info s)))"
    by (simp add: assms(8))
  have "lists_ok K A db' (lists (info s'))"
    unfolding ls
  proof (rule lists_ok_map[of K A db])
    show "lists_ok K A db (lists (info s))" using assms(1) by (simp add: follows_def)
  next
    fix l k assume "located (db_tables db) (list_table l) (list_row l) (list_col l) = Some k"
    from located_tables[OF assms(6) this]
    show "located (db_tables db') (list_table (l\<lparr>list_table := p (list_table l)\<rparr>))
        (list_row (l\<lparr>list_table := p (list_table l)\<rparr>)) (list_col (l\<lparr>list_table := p (list_table l)\<rparr>)) = Some k"
      by (simp add: db')
  next
    fix a assume "list_exists db' (K a)"
    then obtain x where "x \<in> set ts" "fst (K a) = table_id x" "fst (snd (K a)) \<in> set (row_ids x)" "snd (snd (K a)) \<in> set (col_ids x)"
      by (auto simp: list_exists_def list_ex_iff db')
    moreover have "x \<in> set (db_tables db)" using assms(7)[OF calculation(1)] calculation(3) by auto
    ultimately show "list_exists db (K a)" by (auto simp: list_exists_def list_ex_iff)
  qed simp_all
  moreover have "recorded K db\<^sub>0 db' (builders s') (lists (info s'))"
    unfolding ls assms(9)
  proof (rule recorded_map[of K db\<^sub>0 db])
    show "recorded K db\<^sub>0 db (builders s) (lists (info s))" using assms(1) by (simp add: follows_def)
  qed (simp_all add: db')
  moreover have "well_formed db'" using assms(4,5) by (simp add: well_formed_def db')
  moreover have "keys_old K A db'"
    by (rule keys_old_mono[of K A db]) (use assms(1) in \<open>simp_all add: follows_def db'\<close>)
  moreover have "cursor_ok K db' s'" using follows_fields(2,3)[OF assms(1)] assms(10,11) by (simp add: cursor_ok_def db')
  ultimately show ?thesis using assms(1) by (simp add: follows_def)
qed

text \<open>Changes of the selected list.\<close>

lemma follows_list:
  assumes "follows K A db\<^sub>0 db s" "on_list g db = Some db'"
    "\<And>xs ys (B :: nat list) t. g xs = Some ys \<Longrightarrow> list_history B xs t \<Longrightarrow> list_history B ys (h t)"
  shows "follows K A db\<^sub>0 db' (change_list h s)"
proof -
  obtain k where k: "selected_list db = Some k" using assms(2) by (auto simp: on_list_def split: option.splits)
  then obtain ys where ys: "g (list_items db k) = Some ys"
    and db': "db' = db\<lparr>list_items := (list_items db)(k := ys), next_id := next_id db + 1\<rparr>"
    using assms(2) by (auto simp: on_list_def)
  have cur: "cursor_ok K db s" and ok: "lists_ok K A db (lists (info s))"
    and rec: "recorded K db\<^sub>0 db (builders s) (lists (info s))" and inj: "inj_on K A"
    using assms(1) by (simp_all add: follows_def)
  let ?s = "change_list h s" and ?as = "list_changes ` set (lists (info s))"
  have ls: "lists (info ?s) = lists (info s)" by (simp add: change_list_def)
  have "list_history (list_items db\<^sub>0 (K b)) (list_items db' (K b)) (builders ?s b)" if b: "b \<in> ?as" for b
  proof -
    have hb: "list_history (list_items db\<^sub>0 (K b)) (list_items db (K b)) (builders s b)" using rec b unfolding recorded_def by (rule bspec)
    have A: "?as \<subseteq> A" using ok by (auto simp: lists_ok_def)
    show ?thesis
    proof (cases "m_active_list s")
      case None
      then have "K b \<noteq> k" using cur k b by (auto simp: cursor_ok_def)
      then show ?thesis using hb None by (simp add: db' change_list_def)
    next
      case (Some a)
      then have a: "a \<in> ?as" "K a = k" using cur k by (auto simp: cursor_ok_def)
      show ?thesis
      proof (cases "b = a")
        case True
        then show ?thesis using hb assms(3)[OF ys] Some a(2) by (simp add: db' change_list_def)
      next
        case False
        then have "K b \<noteq> k" using inj a b A by (metis inj_onD subsetD)
        then show ?thesis using hb False Some by (simp add: db' change_list_def)
      qed
    qed
  qed
  then have "recorded K db\<^sub>0 db' (builders ?s) (lists (info ?s))" by (simp add: recorded_def ls)
  moreover have "lists_ok K A db' (lists (info ?s))" using ok by (simp add: lists_ok_def ls db' list_exists_def)
  moreover have "cursor_ok K db' ?s" 
    using cur by (rule cursor_ok_same) (simp_all add: db' change_list_def)
  moreover have "keys_old K A db'"
    by (rule keys_old_mono[of K A db]) (use assms(1) in \<open>simp_all add: follows_def db'\<close>)
  moreover have "well_formed db'" using follows_fields(1)[OF assms(1)]
    by (auto simp: well_formed_def db' list_all_iff intro: table_ok_mono)
  ultimately show ?thesis using inj by (simp add: follows_def)
qed

subsection \<open>Selections\<close>

lemma follows_same:
  assumes "follows K A db\<^sub>0 db s" "db_tables db' = db_tables db" "next_id db' = next_id db"
    "list_items db' = list_items db" "cursor_ok K db' s'" "lists (info s') = lists (info s)" "builders s' = builders s"
  shows "follows K A db\<^sub>0 db' s'"
  using assms by (simp add: follows_def well_formed_def keys_old_def lists_ok_def list_exists_def recorded_def)

lemma mark_dirty_frame [simp]:
  "m_current_table (mark_dirty r c s) = m_current_table s" "m_active_list (mark_dirty r c s) = m_active_list s"
  "m_active_table (mark_dirty r c s) = m_active_table s" "m_active_descriptor (mark_dirty r c s) = m_active_descriptor s"
  "m_is_top_level_table (mark_dirty r c s) = m_is_top_level_table s" "lists (info (mark_dirty r c s)) = lists (info s)"
  by (simp_all add: mark_dirty_def change_table_def)

lemma mark_dirty_builders: "\<forall>a. m_active_table s \<noteq> Some (List_changes a) \<Longrightarrow> builders (mark_dirty r c s) = builders s"
  by (simp add: mark_dirty_def change_table_def change_at_builders)

lemma follows_cursor: "follows K A db\<^sub>0 db s \<Longrightarrow> cursor_ok K db s"
  by (simp add: follows_def)

lemma follows_mark_dirty:
  assumes "follows K A db\<^sub>0 db s"
  shows "follows K A db\<^sub>0 db (mark_dirty r c s)"
proof (rule follows_same[OF assms])
  show "cursor_ok K db (mark_dirty r c s)" using follows_cursor[OF assms] by (rule cursor_ok_same) simp_all
qed (simp_all add: mark_dirty_builders[OF follows_fields(2)[OF assms]])

text \<open>The entry found for a list is the one that tracks it.\<close>

lemma find_list_ok:
  assumes "follows K A db\<^sub>0 db s" "located (db_tables db) t row col = Some k"
  shows "list_cursor_ok K (list_changes ` set (lists (info s))) (find_list (lists (info s)) t col row) (Some k)"
proof -
  let ?p = "\<lambda>l. list_table l = t \<and> list_row l = row \<and> list_col l = col"
  have at: "?p l \<longleftrightarrow> K (list_changes l) = k" if "l \<in> set (lists (info s))" for l
  proof -
    have l: "located (db_tables db) (list_table l) (list_row l) (list_col l) = Some (K (list_changes l))"
      using assms(1) that by (simp add: follows_def lists_ok_def)
    show ?thesis
    proof
      assume "?p l"
      then show "K (list_changes l) = k" using l assms(2) by simp
    next
      assume "K (list_changes l) = k"
      then show "?p l" using located_inj[OF follows_fields(1)[OF assms(1)] assms(2)] l by metis
    qed
  qed
  show ?thesis
  proof (cases "find ?p (rev (lists (info s)))")
    case None
    then have "\<forall>l \<in> set (lists (info s)). K (list_changes l) \<noteq> k" using at by (auto simp: find_None_iff)
    then show ?thesis using None by (auto simp: find_list_def)
  next
    case (Some l)
    then have "l \<in> set (lists (info s))" "?p l" by (auto simp: find_Some_iff) (metis in_set_conv_nth length_rev set_rev)
    then show ?thesis using Some at by (auto simp: find_list_def)
  qed
qed

end
