(* ===== verification/Transact_Props.thy ===== *)
theory Transact_Props
  imports Transact_Follow
begin

text \<open>
  The properties of the log observer: it follows every legitimate log, apart from the erasures
  whose loop skips an entry.
\<close>

subsection \<open>One instruction\<close>

fun erases_well :: "instruction \<Rightarrow> observer \<Rightarrow> bool" where
  "erases_well (Erase_rows row prior unordered) s = erase_ok (m_current_table s) row (prior - 1) (lists (info s))"
| "erases_well i s = True"

lemma guard_Some [simp]: "guard b x = Some y \<longleftrightarrow> b \<and> y = x"
  by (auto simp: guard_def)

lemma on_rows_Some: "on_rows n g db = Some db' \<Longrightarrow> \<exists>t rows. selected_table db = Some t \<and> g (row_ids (db_tables db ! t)) = Some rows"
  by (auto simp: on_rows_def split: option.splits)

lemma on_cols_Some: "on_cols g db = Some db' \<Longrightarrow>
    \<exists>t cols. selected_table db = Some t \<and> descriptor_selected db \<and> g (col_ids (db_tables db ! t)) = Some cols"
  by (auto simp: on_cols_def split: option.splits if_splits)

lemma on_tables_Some: "on_tables g db = Some db' \<Longrightarrow> \<exists>ts. g (db_tables db) = Some ts"
  by (auto simp: on_tables_def)

lemma selected_rows:
  assumes "follows K A db\<^sub>0 db s" "selected_table db = Some t"
  shows "distinct (row_ids (db_tables db ! t))" "\<forall>x \<in> set (row_ids (db_tables db ! t)). x < next_id db"
    "distinct (col_ids (db_tables db ! t))" "\<forall>x \<in> set (col_ids (db_tables db ! t)). x < next_id db"
  using well_formed_table[OF follows_fields(1)[OF assms(1)]] follows_fields(4)[OF assms] by (auto simp: table_ok_iff)

lemma select_table_top: "select_table t [] s = s\<lparr>info := info (select_table t [] s), m_current_table := t,
    m_active_table := m_active_table (select_table t [] s), m_need_move_info := m_need_move_info (select_table t [] s),
    m_is_top_level_table := True\<rparr>"
  "lists (info (select_table t [] s)) = lists (info s)" "m_active_table (select_table t [] s) \<in> {None, Some (Table_changes t)}"
  by (auto simp: select_table_def Let_def)

lemma step_select_table:
  assumes "follows K A db\<^sub>0 db s" "t < length (db_tables db)"
  shows "follows K A db\<^sub>0 (db\<lparr>selected_table := Some t, descriptor_selected := False, selected_list := None\<rparr>) (select_table t [] s)"
proof (rule follows_same[OF assms(1)])
  note f = select_table_top[of t s]
  show "cursor_ok K (db\<lparr>selected_table := Some t, descriptor_selected := False, selected_list := None\<rparr>) (select_table t [] s)"
    using f(3) assms(2) follows_fields(3)[OF assms(1)] by (subst f(1)) (auto simp: cursor_ok_def)
  show "builders (select_table t [] s) = builders s" by (subst f(1)) simp
qed (simp_all add: select_table_top(2))

lemma step_select_descriptor:
  assumes "follows K A db\<^sub>0 db s" "selected_table db = Some t"
  shows "follows K A db\<^sub>0 (db\<lparr>descriptor_selected := True\<rparr>) (select_descriptor 0 s)"
proof (rule follows_same[OF assms(1)])
  show "cursor_ok K (db\<lparr>descriptor_selected := True\<rparr>) (select_descriptor 0 s)"
    using follows_cursor[OF assms(1)] assms(2) unfolding cursor_ok_def select_descriptor_def by simp
qed (simp_all add: select_descriptor_def)

lemma step_select_list:
  assumes "follows K A db\<^sub>0 db s" "selected_table db = Some t" "located (db_tables db) t row col = Some k"
  shows "follows K A db\<^sub>0 (db\<lparr>selected_list := Some k\<rparr>) (select_link_list col row s)"
proof (rule follows_same[OF follows_mark_dirty[OF assms(1), of row col]])
  let ?s = "mark_dirty row col s"
  have f: "follows K A db\<^sub>0 db ?s" using follows_mark_dirty[OF assms(1)] .
  have t: "m_current_table ?s = t" using follows_fields(4)[OF f assms(2)] by blast
  show "cursor_ok K (db\<lparr>selected_list := Some k\<rparr>) (select_link_list col row s)"
    using follows_cursor[OF f] find_list_ok[OF f assms(3)] assms(2) t
    unfolding cursor_ok_def select_link_list_def Let_def by (simp del: mark_dirty_frame)
qed (simp_all add: select_link_list_def Let_def)

text \<open>The instructions that change rows.\<close>

lemma row_if: "(if c then l\<lparr>list_row := x\<rparr> else l) = l\<lparr>list_row := if c then x else list_row l\<rparr>"
  by simp

lemma col_if: "(if c then l\<lparr>list_col := x\<rparr> else l) = l\<lparr>list_col := if c then x else list_col l\<rparr>"
  by simp

lemma table_if: "(if c then l\<lparr>list_table := x\<rparr> else l) = l\<lparr>list_table := if c then x else list_table l\<rparr>"
  by simp

lemma step_insert_rows:
  assumes "follows K A db\<^sub>0 db s"
    "on_rows n (\<lambda>rows. guard (row \<le> length rows) (take row rows @ [next_id db ..< next_id db + n] @ drop row rows)) db = Some db'"
  shows "follows K A db\<^sub>0 db' (insert_empty_rows row n s)"
proof -
  obtain t where t: "selected_table db = Some t" "row \<le> length (row_ids (db_tables db ! t))"
    using on_rows_Some[OF assms(2)] by auto
  let ?rows = "row_ids (db_tables db ! t)"
  note f = follows_fields(2)[OF assms(1)] follows_fields(4)[OF assms(1) t(1)]
  note r = selected_rows(1,2)[OF assms(1) t(1)]
  show ?thesis
  proof (rule follows_rows[OF assms t(1)])
    show "guard (row \<le> length ?rows) (take row ?rows @ [next_id db ..< next_id db + n] @ drop row ?rows) =
      Some (take row ?rows @ [next_id db ..< next_id db + n] @ drop row ?rows)" using t(2) by simp
    have "mset (take row ?rows @ [next_id db ..< next_id db + n] @ drop row ?rows) =
        mset ((take row ?rows @ drop row ?rows) @ [next_id db ..< next_id db + n])"
      by (simp only: mset_append ac_simps)
    moreover have "distinct ((take row ?rows @ drop row ?rows) @ [next_id db ..< next_id db + n])"
      using r by fastforce
    ultimately show "distinct (take row ?rows @ [next_id db ..< next_id db + n] @ drop row ?rows)"
      by (metis mset_eq_imp_distinct_iff)
    show "moved_by (\<lambda>i. if row \<le> i then i + n else i) ?rows (take row ?rows @ [next_id db ..< next_id db + n] @ drop row ?rows) {}"
      using moved_insert[OF t(2), of "[next_id db ..< next_id db + n]"]
      by (simp only: length_upt diff_add_inverse)
    show "mset (lists (info (insert_empty_rows row n s))) =
      mset (map (\<lambda>l. if list_table l = t then l\<lparr>list_row := if row \<le> list_row l then list_row l + n else list_row l\<rparr> else l)
        (filter (\<lambda>l. \<not> (list_table l = t \<and> list_row l \<in> {})) (lists (info s))))"
      using f by (simp add: insert_empty_rows_def change_table_def lists_of_table_def row_if)
  qed (use f in \<open>auto simp: insert_empty_rows_def change_table_def change_at_builders dest: in_set_takeD in_set_dropD\<close>)
qed

lemma step_erase_row:
  assumes "follows K A db\<^sub>0 db s"
    "on_rows 0 (\<lambda>rows. guard (unordered \<and> row < length rows \<and> prior = length rows) (over row rows)) db = Some db'"
    "erase_ok (m_current_table s) row (prior - 1) (lists (info s))"
  shows "follows K A db\<^sub>0 db' (erase_rows row prior unordered s)"
proof -
  obtain t where t: "selected_table db = Some t" "row < length (row_ids (db_tables db ! t))"
    "prior = length (row_ids (db_tables db ! t))" unordered
    using on_rows_Some[OF assms(2)] by auto
  let ?rows = "row_ids (db_tables db ! t)"
  note f = follows_fields(2)[OF assms(1)] follows_fields(4)[OF assms(1) t(1)]
  note r = selected_rows(1,2)[OF assms(1) t(1)]
  let ?s = "erase_rows row prior unordered s"
  have s: "lists (info ?s) = erase_lists t row (prior - 1) 0 (lists (info s))"
    using f t(4) by (simp add: erase_rows_def change_table_def Let_def)
  obtain xs z where xs: "?rows = xs @ [z]" using t(2) by (cases ?rows rule: rev_cases) auto
  have over: "over row ?rows = (if row = length xs then xs else xs[row := z])"
    using t(2) by (auto simp: over_def xs list_update_append)
  show ?thesis
  proof (rule follows_rows[OF assms(1,2) t(1)])
    show "guard (unordered \<and> row < length ?rows \<and> prior = length ?rows) (over row ?rows) = Some (over row ?rows)"
      using t(2-4) by simp
    show "distinct (over row ?rows)" unfolding over using r(1) by (auto simp: xs intro: distinct_list_update)
    show "set (over row ?rows) \<subseteq> set ?rows \<union> {next_id db ..< next_id db + 0}"
      unfolding over using set_update_subset_insert[of xs row z] by (auto simp: xs)
    show "moved_by (\<lambda>v. if v = length ?rows - 1 then row else v) ?rows (over row ?rows) {row}"
      using moved_over[OF t(2)] .
    show "\<forall>r \<in> {row}. r < length ?rows \<longrightarrow> ?rows ! r \<notin> set (over row ?rows)"
    proof (cases "row = length xs")
      case True
      then show ?thesis unfolding over using r(1) by (simp add: xs)
    next
      case False
      then have "row < length xs" using t(2) by (simp add: xs)
      moreover have "distinct xs" "z \<notin> set xs" using r(1) by (simp_all add: xs)
      ultimately have "xs ! row \<notin> set (xs[row := z])"
        by (auto simp: in_set_conv_nth nth_list_update nth_eq_iff_index_eq split: if_splits)
      then show ?thesis unfolding over using False t(2) by (simp add: xs nth_append)
    qed
    have "filter (\<lambda>l. \<not> (list_table l = t \<and> list_row l \<in> {row})) (lists (info s)) =
        filter (\<lambda>l. \<not> at_row t row l) (lists (info s))" by (simp add: at_row_def)
    moreover have "(\<lambda>l. if list_table l = t then l\<lparr>list_row := if list_row l = length ?rows - 1 then row else list_row l\<rparr> else l) =
        renumber t row (prior - 1)" by (auto simp: renumber_def t(3) fun_eq_iff)
    ultimately show "mset (lists (info ?s)) =
      mset (map (\<lambda>l. if list_table l = t then l\<lparr>list_row := if list_row l = length ?rows - 1 then row else list_row l\<rparr> else l)
        (filter (\<lambda>l. \<not> (list_table l = t \<and> list_row l \<in> {row})) (lists (info s))))"
      using erase_lists_ok[of t row "prior - 1" "lists (info s)"] assms(3) f by (simp only: s)
  qed (use f in \<open>auto simp: erase_rows_def change_table_def change_at_builders Let_def\<close>)
qed

lemma step_swap_rows:
  assumes "follows K A db\<^sub>0 db s"
    "on_rows 0 (\<lambda>rows. guard (i < j \<and> j < length rows) (swap_rows i j rows)) db = Some db'"
  shows "\<exists>s'. swap_rows_at i j s = Inr s' \<and> follows K A db\<^sub>0 db' s'"
proof -
  obtain t where t: "selected_table db = Some t" "i < j" "j < length (row_ids (db_tables db ! t))"
    using on_rows_Some[OF assms(2)] by auto
  let ?rows = "row_ids (db_tables db ! t)"
  note f = follows_fields(2)[OF assms(1)] follows_fields(4)[OF assms(1) t(1)]
  obtain s' where s': "swap_rows_at i j s = Inr s'" using t f by (simp add: swap_rows_at_def)
  have ls: "lists (info s') = map (\<lambda>l. if list_table l = t
      then l\<lparr>list_row := if list_row l = i then j else if list_row l = j then i else list_row l\<rparr> else l) (lists (info s))"
    using s' t f by (auto simp: swap_rows_at_def change_table_def lists_of_table_def)
  have mset: "mset (swap_rows i j ?rows) = mset ?rows" using t by (simp add: swap_rows_def mset_swap)
  have "follows K A db\<^sub>0 db' s'"
  proof (rule follows_rows[OF assms t(1)])
    show "guard (i < j \<and> j < length ?rows) (swap_rows i j ?rows) = Some (swap_rows i j ?rows)" using t by simp
    show "distinct (swap_rows i j ?rows)"
      using mset_eq_imp_distinct_iff[OF mset] selected_rows(1)[OF assms(1) t(1)] by simp
    show "set (swap_rows i j ?rows) \<subseteq> set ?rows \<union> {next_id db ..< next_id db + 0}"
      using mset_eq_setD[OF mset] by simp
    show "moved_by (\<lambda>v. if v = i then j else if v = j then i else v) ?rows (swap_rows i j ?rows) {}"
      by (rule moved_swap[OF t(2,3)])
    show "mset (lists (info s')) =
      mset (map (\<lambda>l. if list_table l = t then l\<lparr>list_row := if list_row l = i then j else if list_row l = j then i else list_row l\<rparr> else l)
        (filter (\<lambda>l. \<not> (list_table l = t \<and> list_row l \<in> {})) (lists (info s))))"
      by (simp add: ls)
  qed (use s' t f in \<open>auto simp: swap_rows_at_def change_table_def change_at_builders split: if_splits\<close>)
  with s' show ?thesis by blast
qed

lemma step_clear_table:
  assumes "follows K A db\<^sub>0 db s" "on_rows 0 (\<lambda>rows. Some []) db = Some db'"
  shows "follows K A db\<^sub>0 db' (clear_table s)"
proof -
  obtain t where t: "selected_table db = Some t" using on_rows_Some[OF assms(2)] by auto
  note f = follows_fields(2)[OF assms(1)] follows_fields(4)[OF assms(1) t(1)]
  show ?thesis
  proof (rule follows_rows[OF assms t, of "[]" id UNIV])
    show "mset (lists (info (clear_table s))) = mset (map (\<lambda>l. if list_table l = t then l\<lparr>list_row := id (list_row l)\<rparr> else l)
        (filter (\<lambda>l. \<not> (list_table l = t \<and> list_row l \<in> UNIV)) (lists (info s))))"
    proof (rule arg_cong[of _ _ mset])
      have c: "lists (info (clear_table s)) = filter (\<lambda>l. list_table l \<noteq> t) (lists (info s))"
        using f by (simp add: clear_table_def change_table_def Let_def)
      have "map (\<lambda>l. if list_table l = t then l\<lparr>list_row := id (list_row l)\<rparr> else l) (filter (\<lambda>l. list_table l \<noteq> t) ls) =
          filter (\<lambda>l. list_table l \<noteq> t) ls" for ls :: "tracked_list list"
        by (rule map_idI) simp
      then show "lists (info (clear_table s)) = map (\<lambda>l. if list_table l = t then l\<lparr>list_row := id (list_row l)\<rparr> else l)
          (filter (\<lambda>l. \<not> (list_table l = t \<and> list_row l \<in> UNIV)) (lists (info s)))"
        by (simp only: c UNIV_I simp_thms)
    qed
  qed (use f in \<open>auto simp: clear_table_def change_table_def change_at_builders Let_def moved_by_def\<close>)
qed

text \<open>The instructions that change columns.\<close>

lemma step_insert_column:
  assumes "follows K A db\<^sub>0 db s"
    "on_cols (\<lambda>cols. guard (col \<le> length cols) (take col cols @ [next_id db] @ drop col cols)) db = Some db'"
  shows "follows K A db\<^sub>0 db' (insert_column_at col s)"
proof -
  obtain t where t: "selected_table db = Some t" "descriptor_selected db" "col \<le> length (col_ids (db_tables db ! t))"
    using on_cols_Some[OF assms(2)] by auto
  let ?cols = "col_ids (db_tables db ! t)"
  note f = follows_fields(2,3)[OF assms(1)] follows_fields(4)[OF assms(1) t(1)] follows_fields(5)[OF assms(1) t(2)]
  note r = selected_rows(3,4)[OF assms(1) t(1)]
  show ?thesis
  proof (rule follows_cols[OF assms t(1)])
    show "guard (col \<le> length ?cols) (take col ?cols @ [next_id db] @ drop col ?cols) =
      Some (take col ?cols @ [next_id db] @ drop col ?cols)" using t(3) by simp
    have "mset (take col ?cols @ [next_id db] @ drop col ?cols) = mset ((take col ?cols @ drop col ?cols) @ [next_id db])"
      by (simp only: mset_append ac_simps)
    moreover have "distinct ((take col ?cols @ drop col ?cols) @ [next_id db])" using r by fastforce
    ultimately show "distinct (take col ?cols @ [next_id db] @ drop col ?cols)" by (metis mset_eq_imp_distinct_iff)
    show "moved_by (\<lambda>i. if col \<le> i then i + 1 else i) ?cols (take col ?cols @ [next_id db] @ drop col ?cols) {}"
      using t(3) by (auto simp: moved_by_def nth_append min_def)
    show "lists (info (insert_column_at col s)) =
        map (\<lambda>l. if list_table l = t then l\<lparr>list_col := if col \<le> list_col l then list_col l + 1 else list_col l\<rparr> else l)
          (lists (info s))"
      using f by (simp add: insert_column_at_def Let_def lists_of_table_def col_if)
  qed (use f in \<open>auto simp: insert_column_at_def change_at_builders Let_def dest: in_set_takeD in_set_dropD\<close>)
qed

lemma mset_move_elem: "i < length xs \<Longrightarrow> mset (move_elem i j xs) = mset xs"
proof -
  assume i: "i < length xs"
  have "mset (take j C @ [x] @ drop j C) = mset C + {#x#}" for C :: "'a list" and x
    using mset_append[of "take j C" "drop j C"] by (simp add: ac_simps)
  then have "mset (move_elem i j xs) = mset (take i xs @ drop (Suc i) xs) + {#xs ! i#}"
    unfolding move_elem_def Let_def .
  also have "\<dots> = mset (take i xs @ [xs ! i] @ drop (Suc i) xs)" by (simp add: ac_simps)
  also have "take i xs @ [xs ! i] @ drop (Suc i) xs = xs" using id_take_nth_drop[OF i] by simp
  finally show ?thesis .
qed

lemma step_move_column:
  assumes "follows K A db\<^sub>0 db s"
    "on_cols (\<lambda>cols. guard (i < length cols \<and> j < length cols \<and> i \<noteq> j) (move_elem i j cols)) db = Some db'"
  shows "\<exists>s'. move_column_at i j s = Inr s' \<and> follows K A db\<^sub>0 db' s'"
proof -
  obtain t where t: "selected_table db = Some t" "descriptor_selected db" "i < length (col_ids (db_tables db ! t))"
    "j < length (col_ids (db_tables db ! t))" "i \<noteq> j"
    using on_cols_Some[OF assms(2)] by auto
  let ?cols = "col_ids (db_tables db ! t)"
  note f = follows_fields(2,3)[OF assms(1)] follows_fields(4)[OF assms(1) t(1)] follows_fields(5)[OF assms(1) t(2)]
  obtain s' where s': "move_column_at i j s = Inr s'" using t f by (simp add: move_column_at_def Let_def)
  note m = mset_move_elem[OF t(3), of j]
  have "follows K A db\<^sub>0 db' s'"
  proof (rule follows_cols[OF assms t(1)])
    show "guard (i < length ?cols \<and> j < length ?cols \<and> i \<noteq> j) (move_elem i j ?cols) = Some (move_elem i j ?cols)" using t by simp
    show "distinct (move_elem i j ?cols)" using mset_eq_imp_distinct_iff[OF m] selected_rows(3)[OF assms(1) t(1)] by simp
    show "set (move_elem i j ?cols) \<subseteq> set ?cols \<union> {next_id db}" using mset_eq_setD[OF m] by auto
    show "moved_by (\<lambda>v. adjust_for_move v i j) ?cols (move_elem i j ?cols) {}"
      by (rule moved_elem[OF t(3,4)])
  qed (use s' t f in \<open>auto simp: move_column_at_def change_at_builders Let_def lists_of_table_def split: if_splits\<close>)
  with s' show ?thesis by blast
qed

text \<open>The instructions that change the tables.\<close>

lemma step_insert_table:
  assumes "follows K A db\<^sub>0 db s"
    "on_tables (\<lambda>ts. guard (t \<le> length ts) (take t ts @ [\<lparr>table_id = next_id db, row_ids = [], col_ids = []\<rparr>] @ drop t ts)) db = Some db'"
  shows "follows K A db\<^sub>0 db' (insert_group_level_table t s)"
proof -
  let ?ts = "db_tables db" and ?new = "\<lparr>table_id = next_id db, row_ids = [], col_ids = []\<rparr>"
  have t: "t \<le> length ?ts" using on_tables_Some[OF assms(2)] by auto
  have wf: "distinct (map table_id ?ts)" "list_all (table_ok (next_id db)) ?ts"
    using follows_fields(1)[OF assms(1)] by (simp_all add: well_formed_def)
  have "mset (take t ?ts @ [?new] @ drop t ?ts) = mset ((take t ?ts @ drop t ?ts) @ [?new])"
    by (simp only: mset_append ac_simps)
  then have m: "mset (take t ?ts @ [?new] @ drop t ?ts) = mset (?new # ?ts)" by simp
  show ?thesis
  proof (rule follows_tables[OF assms])
    show "guard (t \<le> length ?ts) (take t ?ts @ [?new] @ drop t ?ts) = Some (take t ?ts @ [?new] @ drop t ?ts)" using t by simp
    have "mset (map table_id (take t ?ts @ [?new] @ drop t ?ts)) = mset (map table_id (?new # ?ts))"
      by (metis m mset_map)
    moreover have "distinct (map table_id (?new # ?ts))" using wf by (auto simp: list_all_iff table_ok_iff)
    ultimately show "distinct (map table_id (take t ?ts @ [?new] @ drop t ?ts))" by (metis mset_eq_imp_distinct_iff)
    show "list_all (table_ok (next_id db + 1)) (take t ?ts @ [?new] @ drop t ?ts)"
      unfolding list_all_iff mset_eq_setD[OF m] using wf(2)
      by (auto simp: list_all_iff table_ok_def[of _ ?new] intro: table_ok_mono)
    show "moved_by (\<lambda>i. if t \<le> i then i + 1 else i) ?ts (take t ?ts @ [?new] @ drop t ?ts) {}"
      using t by (auto simp: moved_by_def nth_append min_def)
    show "x \<in> set ?ts \<or> row_ids x = []" if "x \<in> set (take t ?ts @ [?new] @ drop t ?ts)" for x
      using that unfolding mset_eq_setD[OF m] by auto
  qed (auto simp: insert_group_level_table_def prepare_table_indices_def Let_def)
qed

lemma step_move_table:
  assumes "follows K A db\<^sub>0 db s"
    "on_tables (\<lambda>ts. guard (i < length ts \<and> j < length ts \<and> i \<noteq> j) (move_elem i j ts)) db = Some db'"
  shows "\<exists>s'. move_group_level_table i j s = Inr s' \<and> follows K A db\<^sub>0 db' s'"
proof -
  let ?ts = "db_tables db"
  have t: "i < length ?ts" "j < length ?ts" "i \<noteq> j" using on_tables_Some[OF assms(2)] by auto
  have wf: "distinct (map table_id ?ts)" "list_all (table_ok (next_id db)) ?ts"
    using follows_fields(1)[OF assms(1)] by (simp_all add: well_formed_def)
  note m = mset_move_elem[OF t(1), of j]
  obtain s' where s': "move_group_level_table i j s = Inr s'" using t by (simp add: move_group_level_table_def Let_def)
  have "follows K A db\<^sub>0 db' s'"
  proof (rule follows_tables[OF assms])
    show "guard (i < length ?ts \<and> j < length ?ts \<and> i \<noteq> j) (move_elem i j ?ts) = Some (move_elem i j ?ts)" using t by simp
    have "mset (map table_id (move_elem i j ?ts)) = mset (map table_id ?ts)" by (metis m mset_map)
    then show "distinct (map table_id (move_elem i j ?ts))" using wf(1) by (metis mset_eq_imp_distinct_iff)
    show "list_all (table_ok (next_id db + 1)) (move_elem i j ?ts)"
      using wf(2) mset_eq_setD[OF m] by (auto simp: list_all_iff intro: table_ok_mono)
    show "moved_by (\<lambda>v. adjust_for_move v i j) ?ts (move_elem i j ?ts) {}" by (rule moved_elem[OF t(1,2)])
    show "x \<in> set ?ts \<or> row_ids x = []" if "x \<in> set (move_elem i j ?ts)" for x
      using that mset_eq_setD[OF m] by simp
  qed (use s' t in \<open>auto simp: move_group_level_table_def prepare_table_indices_def Let_def\<close>)
  with s' show ?thesis by blast
qed

text \<open>The instructions that change the selected list.\<close>

lemma step_list:
  assumes "follows K A db\<^sub>0 db s"
  shows "on_list (\<lambda>xs. guard (i < length xs) xs) db = Some db' \<Longrightarrow> follows K A db\<^sub>0 db' (change_list (cb_modify i npos) s)"
    "on_list (\<lambda>xs. guard (i \<le> length xs) (take i xs @ [x] @ drop i xs)) db = Some db' \<Longrightarrow>
      follows K A db\<^sub>0 db' (change_list (cb_insert i 1 True) s)"
    "on_list (\<lambda>xs. guard (i < length xs \<and> length xs \<le> npos) (take i xs @ drop (Suc i) xs)) db = Some db' \<Longrightarrow>
      follows K A db\<^sub>0 db' (change_list (cb_erase i) s)"
    "on_list (\<lambda>xs. guard (n = length xs \<and> n \<noteq> npos) []) db = Some db' \<Longrightarrow>
      follows K A db\<^sub>0 db' (change_list (cb_clear n) s)"
    "on_list (\<lambda>xs. guard (i < length xs \<and> j < length xs \<and> length xs \<le> npos) (move_elem i j xs)) db = Some db' \<Longrightarrow>
      follows K A db\<^sub>0 db' (change_list (move_row i j) s)"
    "on_list (\<lambda>xs. guard (i < length xs \<and> j < length xs) xs) db = Some db' \<Longrightarrow>
      follows K A db\<^sub>0 db' (change_list (\<lambda>t. cb_modify j npos (cb_modify i npos t)) s)"
proof -
  assume "on_list (\<lambda>xs. guard (i \<le> length xs) (take i xs @ [x] @ drop i xs)) db = Some db'"
  then show "follows K A db\<^sub>0 db' (change_list (cb_insert i 1 True) s)"
  proof (rule follows_list[OF assms])
    fix xs ys B :: "nat list" and t
    assume "guard (i \<le> length xs) (take i xs @ [x] @ drop i xs) = Some ys" "list_history B xs t"
    then show "list_history B ys (cb_insert i 1 True t)" using list_history.inserted[of B xs t i "[x]"] by simp
  qed
qed (erule follows_list[OF assms]; auto intro: list_history.intros)+

lemma change_list_twice: "change_list g (change_list f s) = change_list (\<lambda>t. g (f t)) s"
  by (cases "m_active_list s") (simp_all add: change_list_def)

lemma step_follows:
  assumes "follows K A db\<^sub>0 db s" "replay i db = Some db'" "erases_well i s"
  shows "\<exists>s'. handle i s = Inr s' \<and> follows K A db\<^sub>0 db' s'"
proof (cases i)
  case (Select_table t path)
  then show ?thesis using assms(1,2) step_select_table by auto
next
  case (Select_descriptor levels)
  then show ?thesis using assms(1,2) step_select_descriptor by auto
next
  case (Select_link_list col row)
  then show ?thesis using assms(1,2) step_select_list by (auto split: option.splits)
next
  case (Link_list_swap a b)
  then show ?thesis using assms(1,2) step_list(6) by (simp only: replay.simps handle.simps change_list_twice) blast
next
  case (Swap_rows a b)
  then show ?thesis using assms(1,2) step_swap_rows by simp
next
  case (Move_column a b)
  then show ?thesis using assms(1,2) step_move_column by simp
next
  case (Move_group_level_table a b)
  then show ?thesis using assms(1,2) step_move_table by simp
next
  case (Insert_empty_rows row n)
  then show ?thesis using assms(1,2) step_insert_rows by simp
next
  case (Add_row_with_key row)
  then show ?thesis using assms(1,2) step_insert_rows[of K A db\<^sub>0 db s 1 row] by (simp only: replay.simps handle.simps) blast
next
  case (Erase_rows row prior unordered)
  then show ?thesis using assms step_erase_row by simp
next
  case (Insert_column col)
  then show ?thesis using assms(1,2) step_insert_column by simp
next
  case (Insert_link_column col)
  then show ?thesis using assms(1,2) step_insert_column by simp
next
  case (Insert_group_level_table t)
  then show ?thesis using assms(1,2) step_insert_table by simp
next
  case Clear_table
  then show ?thesis using assms(1,2) step_clear_table by simp
qed (use assms(1,2) step_list[OF assms(1)] follows_mark_dirty[OF assms(1)] in \<open>auto split: if_splits\<close>)

subsection \<open>A whole log\<close>

fun replay_all :: "instruction list \<Rightarrow> database \<Rightarrow> database option" where
  "replay_all [] db = Some db"
| "replay_all (i # is) db = (case replay i db of None \<Rightarrow> None | Some db \<Rightarrow> replay_all is db)"

fun all_erase_well :: "instruction list \<Rightarrow> observer \<Rightarrow> bool" where
  "all_erase_well [] s = True"
| "all_erase_well (i # is) s =
     (erases_well i s \<and> (case handle i s of Inl e \<Rightarrow> True | Inr s \<Rightarrow> all_erase_well is s))"

lemma log_follows:
  assumes "follows K A db\<^sub>0 db s" "replay_all is db = Some db'" "all_erase_well is s"
  shows "\<exists>s'. handle_all is s = Inr s' \<and> follows K A db\<^sub>0 db' s'"
  using assms
proof (induction "is" arbitrary: db s)
  case (Cons i is')
  then obtain db1 where r: "replay i db = Some db1" "replay_all is' db1 = Some db'" by (auto split: option.splits)
  with step_follows[OF Cons.prems(1) r(1)] Cons.prems(3) obtain s1
    where "handle i s = Inr s1" "follows K A db\<^sub>0 db1 s1" "all_erase_well is' s1" by auto
  with Cons.IH[OF _ r(2)] show ?case by auto
qed simp

lemma clean_up_tracks:
  assumes "tracks A B t" "m_move_mapping t = []"
  shows "tracks A B (clean_up_stale_moves t)"
proof -
  obtain ms dels inss where d: "drop_stale (moves t) (deletions t) (insertions t) = (ms, dels, inss)"
    by (cases "drop_stale (moves t) (deletions t) (insertions t)")
  have t: "crv_inv (deletions t)" "crv_inv (insertions t)" "diff_ok A B (elems (deletions t)) (elems (insertions t))"
    "links_ok A B (elems (deletions t)) (elems (insertions t)) (map lk (moves t))"
    using assms by (simp_all add: tracks_def links_def lk_def[abs_def])
  from drop_stale_correct[OF t d] show ?thesis
    using d assms(2) by (simp add: clean_up_stale_moves_def tracks_def links_def lk_def[abs_def])
qed

lemma clean_up_all:
  assumes "distinct (map list_changes ls)"
  shows "fold (\<lambda>l bs. bs(list_changes l := clean_up_stale_moves (bs (list_changes l)))) ls bs a =
    (if a \<in> list_changes ` set ls then clean_up_stale_moves (bs a) else bs a)"
  using assms by (induction ls arbitrary: bs) (auto simp: image_iff)

text \<open>A database and the lists that are to be tracked in it, by their addresses.\<close>

definition observes :: "(nat \<Rightarrow> list_key) \<Rightarrow> database \<Rightarrow> transaction_info \<Rightarrow> bool" where
  "observes K db ti \<longleftrightarrow> well_formed db \<and> selected_table db = None \<and> \<not> descriptor_selected db \<and> selected_list db = None \<and>
     distinct (map list_changes (lists ti)) \<and> distinct (map (\<lambda>l. K (list_changes l)) (lists ti)) \<and>
     list_all (\<lambda>l. located (db_tables db) (list_table l) (list_row l) (list_col l) = Some (K (list_changes l))) (lists ti)"

lemma located_exists:
  assumes "located (db_tables db) t r c = Some k"
  shows "list_exists db k"
  using assms by (auto simp: located_def list_exists_def list_ex_iff split: if_splits intro!: bexI[of _ "db_tables db ! t"])

lemma observes_follows:
  assumes "observes K db ti"
  shows "follows K (list_changes ` set (lists ti)) db db (new_observer ti (\<lambda>_. fresh_builder))"
proof -
  let ?A = "list_changes ` set (lists ti)"
  note o = assms[unfolded observes_def]
  have "inj_on K ?A"
    using o by (auto simp: distinct_map inj_on_def)
  moreover have "keys_old K ?A db"
    unfolding keys_old_def
  proof
    fix a assume "a \<in> ?A"
    then obtain l where "l \<in> set (lists ti)" "a = list_changes l" by auto
    then have "located (db_tables db) (list_table l) (list_row l) (list_col l) = Some (K a)"
      using o by (auto simp: list_all_iff)
    from located_exists[OF this] obtain t where "t \<in> set (db_tables db)"
      "fst (K a) = table_id t" "fst (snd (K a)) \<in> set (row_ids t)" "snd (snd (K a)) \<in> set (col_ids t)"
      by (auto simp: list_exists_def list_ex_iff)
    then show "case K a of (t, r, c) \<Rightarrow> t < next_id db \<and> r < next_id db \<and> c < next_id db"
      using o by (auto simp: well_formed_def list_all_iff table_ok_iff split: prod.splits)
  qed
  moreover have "list_history xs xs fresh_builder" for xs :: "nat list"
    using list_history.start[of xs] by (simp add: fresh_builder_def empty_builder_def)
  ultimately show ?thesis
    using o by (simp add: follows_def new_observer_def cursor_ok_def lists_ok_def recorded_def list_all_iff)
qed

text \<open>
  C5. Reading the log of a transaction tracks every list through it. For a log that replays on the
  database, without subtables and with rows erased by moving the last one over, the
  observer succeeds; each tracked list that still exists is still tracked, the position of each
  entry is the position of its list in the new database (whatever tables, columns and rows were
  inserted, moved, swapped or erased), and its change set records how that list went from the old
  items to the new ones (an assignment or swap inside a list keeps its items in place). The erasures of the log are ones that the loop of
  \<open>erase_rows\<close> handles: at most one tracked list is of the erased row, and the one tracked last
  is not of the row that takes its place. Otherwise the loop goes wrong
  (\<open>erased_row_keeps_entry\<close>, \<open>moved_row_not_renumbered\<close>).
\<close>

theorem tracked_lists_recorded:
  assumes "observes K db ti" "replay_all is db = Some db'" "all_erase_well is (new_observer ti (\<lambda>_. fresh_builder))"
  shows "\<exists>s. read_log is (new_observer ti (\<lambda>_. fresh_builder)) = Inr s \<and>
    (\<forall>l \<in> set (lists ti). list_exists db' (K (list_changes l)) \<longrightarrow> list_changes l \<in> list_changes ` set (lists (info s))) \<and>
    (\<forall>l \<in> set (lists (info s)).
      located (db_tables db') (list_table l) (list_row l) (list_col l) = Some (K (list_changes l)) \<and>
      tracks (list_items db (K (list_changes l))) (list_items db' (K (list_changes l))) (builders s (list_changes l)))"
proof -
  let ?A = "list_changes ` set (lists ti)"
  from log_follows[OF observes_follows[OF assms(1)] assms(2,3)] obtain s
    where s: "handle_all is (new_observer ti (\<lambda>_. fresh_builder)) = Inr s" and f: "follows K ?A db db' s" by blast
  let ?s = "observer_parse_complete s"
  have ls: "lists (info ?s) = lists (info s)" by (simp add: observer_parse_complete_def)
  have ok: "lists_ok K ?A db' (lists (info s))" and rec: "recorded K db db' (builders s) (lists (info s))"
    using f by (simp_all add: follows_def)
  have "tracks (list_items db (K a)) (list_items db' (K a)) (builders ?s a)" if "a \<in> list_changes ` set (lists (info s))" for a
  proof -
    have "list_history (list_items db (K a)) (list_items db' (K a)) (builders s a)"
      using rec that unfolding recorded_def by (rule bspec)
    from clean_up_tracks[OF conjunct1 conjunct2, OF list_history_inv[OF this] list_history_inv[OF this]] that
      clean_up_all[of "lists (info s)" "builders s" a] ok
    show ?thesis by (simp add: observer_parse_complete_def lists_ok_def)
  qed
  then show ?thesis using s ok by (intro exI[of _ ?s]) (auto simp: read_log_def ls lists_ok_def)
qed

text \<open>Two tables; the log inserts a table and a column, swaps rows and changes a tracked list.\<close>

definition small_database :: database where
  "small_database =
     \<lparr>db_tables = [\<lparr>table_id = 1, row_ids = [10, 11], col_ids = [20]\<rparr>, \<lparr>table_id = 2, row_ids = [12, 13], col_ids = [21, 22]\<rparr>],
      list_items = (\<lambda>k. if k = (2, 13, 22) then [7, 8, 9] else []), next_id = 30, selected_table = None,
      descriptor_selected = False, selected_list = None\<rparr>"

definition tracking :: "tracked_list list \<Rightarrow> bool list \<Rightarrow> transaction_info" where
  "tracking ls needed = \<lparr>info_tables = [], schema_changed = False, table_modifications_needed = needed,
     table_moves_needed = [], lists = ls, column_indices = [], table_indices = [], track_all = False\<rparr>"

definition small_log :: "instruction list" where
  "small_log = [Insert_group_level_table 0, Select_table 2 [], Select_descriptor 0, Insert_column 1, Swap_rows 0 1,
     Select_link_list 2 0, Link_list_move 0 2, Link_list_erase 0]"

definition key_22 :: "nat \<Rightarrow> list_key" where
  "key_22 a = (2, 13, 22)"

fun erases_none :: "instruction \<Rightarrow> bool" where
  "erases_none (Erase_rows row prior unordered) = False"
| "erases_none i = True"

lemma no_erasure: "list_all erases_none is \<Longrightarrow> all_erase_well is s"
proof (induction "is" arbitrary: s)
  case (Cons i is')
  then have "erases_well i x" for x by (cases i) simp_all
  with Cons show ?case by (auto split: sum.splits)
qed simp

lemma tracked_lists_recorded_witness:
  "\<exists>db' s. replay_all small_log small_database = Some db' \<and>
    read_log small_log (new_observer (tracking [\<lparr>list_table = 1, list_row = 1, list_col = 1, list_changes = 5\<rparr>] [])
      (\<lambda>_. fresh_builder)) = Inr s \<and> 5 \<in> list_changes ` set (lists (info s)) \<and>
    tracks [7, 8, 9 :: nat] [9, 7] (builders s 5)"
proof -
  let ?ti = "tracking [\<lparr>list_table = 1, list_row = 1, list_col = 1, list_changes = 5\<rparr>] []"
  have o: "observes key_22 small_database ?ti" by code_simp
  obtain db' where r: "replay_all small_log small_database = Some db'"
    and db': "list_exists db' (2, 13, 22)" "list_items db' (2, 13, 22) = [9, 7]"
    by (simp add: small_log_def small_database_def npos_def guard_def on_list_def on_rows_def on_cols_def on_tables_def
        located_def list_exists_def swap_rows_def move_elem_def)
  have w: "all_erase_well small_log (new_observer ?ti (\<lambda>_. fresh_builder))"
    by (rule no_erasure) (simp add: small_log_def)
  from tracked_lists_recorded[OF o r w] obtain s where s: "read_log small_log (new_observer ?ti (\<lambda>_. fresh_builder)) = Inr s"
    "5 \<in> list_changes ` set (lists (info s))"
    "\<forall>l \<in> set (lists (info s)). tracks (list_items small_database (2, 13, 22)) (list_items db' (2, 13, 22)) (builders s (list_changes l))"
    using db'(1) by (auto simp: tracking_def key_22_def)
  then have "tracks [7, 8, 9 :: nat] [9, 7] (builders s 5)" using db'(2) by (fastforce simp: small_database_def)
  with r s(1,2) show ?thesis by blast
qed

subsection \<open>Where the observer goes wrong\<close>

text \<open>The positions of the entries after a log, by their addresses.\<close>

definition tracked_places :: "log_error + observer \<Rightarrow> (nat \<times> nat \<times> nat \<times> nat) list" where
  "tracked_places r = (case r of Inl e \<Rightarrow> []
     | Inr s \<Rightarrow> map (\<lambda>l. (list_changes l, list_table l, list_row l, list_col l)) (lists (info s)))"

text \<open>
  Two lists of one row are tracked. When the row is erased, only one entry goes: the other stays
  at the row number, which is now that of another row.
\<close>

lemma erased_row_keeps_entry:
  "tracked_places (handle_all [Select_table 0 [], Erase_rows 0 5 True] (new_observer
     (tracking [\<lparr>list_table = 0, list_row = 0, list_col = 1, list_changes = 1\<rparr>,
        \<lparr>list_table = 0, list_row = 0, list_col = 2, list_changes = 2\<rparr>] []) (\<lambda>_. fresh_builder))) = [(2, 0, 0, 2)]"
  by (simp add: tracked_places_def tracking_def new_observer_def select_table_def needs_def erase_rows_def change_table_def
      set_lists_def erase_lists.simps Let_def)

text \<open>
  The entry that takes the place of an erased one is skipped by the renumbering: the list of the
  last row, which moves to row 0, is still looked for at row 4.
\<close>

lemma moved_row_not_renumbered:
  "tracked_places (handle_all [Select_table 0 [], Erase_rows 0 5 True] (new_observer
     (tracking [\<lparr>list_table = 0, list_row = 0, list_col = 1, list_changes = 1\<rparr>,
        \<lparr>list_table = 0, list_row = 4, list_col = 1, list_changes = 2\<rparr>] []) (\<lambda>_. fresh_builder))) = [(2, 0, 4, 1)]"
  by (simp add: tracked_places_def tracking_def new_observer_def select_table_def needs_def erase_rows_def change_table_def
      set_lists_def erase_lists.simps Let_def)

text \<open>
  In a table whose modifications are not needed, a selected subtable passes for the table: items
  inserted into the list of one row shift the entries of the rows behind it.
\<close>

lemma subtable_rows_shift_entries:
  "tracked_places (handle_all [Select_table 0 [(3, 7)], Insert_empty_rows 0 1] (new_observer
     (tracking [\<lparr>list_table = 0, list_row = 0, list_col = 1, list_changes = 1\<rparr>] []) (\<lambda>_. fresh_builder))) = [(1, 0, 1, 1)]"
  by (simp add: tracked_places_def tracking_def new_observer_def select_table_def needs_def insert_empty_rows_def
      change_table_def set_lists_def lists_of_table_def Let_def)

text \<open>
  In such a table a column that is added to a subtable passes for a column of the table: the
  null descriptor equals the null table.
\<close>

lemma subtable_column_shifts_entries:
  "tracked_places (handle_all [Select_table 0 [], Select_descriptor 1, Insert_column 0] (new_observer
     (tracking [\<lparr>list_table = 0, list_row = 0, list_col = 1, list_changes = 1\<rparr>] []) (\<lambda>_. fresh_builder))) = [(1, 0, 0, 2)]"
  by (simp add: tracked_places_def tracking_def new_observer_def select_table_def needs_def select_descriptor_def
      insert_column_at_def set_column_indices_def set_lists_def lists_of_table_def Let_def)

end
