(* ===== verification/Transact_Columns.thy ===== *)
theory Transact_Columns
  imports Transact_Props
begin

text \<open>
  The column numbers that \<open>TransactLogObserver\<close> keeps of a table whose columns are inserted or
  moved: from a column of the new table they lead to the column it was before.
\<close>

subsection \<open>Reading the numbers\<close>

text \<open>How \<open>KVOAdapter::before\<close> finds the initial number of a column.\<close>

definition initial_column :: "nat list \<Rightarrow> nat \<Rightarrow> nat" where
  "initial_column indices i =
     (if indices = [] then i
      else if length indices \<le> i then i - length indices + List.last indices + 1
      else indices ! i)"

definition initial_column_index :: "nat list list \<Rightarrow> nat \<Rightarrow> nat \<Rightarrow> nat" where
  "initial_column_index cis table i =
     (if length cis \<le> table then i else initial_column (cis ! table) i)"

lemma expand_to_length: "i < length (expand_to cols i)"
  by (auto simp: expand_to_def Let_def)

lemma initial_column_expand: "initial_column (expand_to cols i) = initial_column cols"
proof
  fix j
  show "initial_column (expand_to cols i) j = initial_column cols j"
  proof (cases "i < length cols")
    case True
    then show ?thesis by (simp add: expand_to_def)
  next
    case False
    let ?n = "length cols"
    define s k where "s = (if ?n = 0 then 0 else cols ! (?n - 1) + 1)" and "k = max (?n * 2) (i + 1) - ?n"
    have k: "0 < k" using False by (simp add: k_def)
    have e: "expand_to cols i = cols @ [s ..< s + k]" using False by (simp add: expand_to_def Let_def s_def k_def)
    have l: "List.last (cols @ [s ..< s + k]) = s + k - 1" using k by simp
    show ?thesis
    proof (cases "j < ?n")
      case True
      then show ?thesis unfolding e by (auto simp: initial_column_def nth_append)
    next
      case j: False
      have "initial_column (cols @ [s ..< s + k]) j = s + (j - ?n)"
        unfolding initial_column_def l using j k by (auto simp: nth_append)
      also have "\<dots> = initial_column cols j"
        using j by (auto simp: initial_column_def s_def last_conv_nth)
      finally show ?thesis unfolding e .
    qed
  qed
qed

lemma initial_column_insert:
  "initial_column (insert_index n cols) j = (if j < n then initial_column cols j else if j = n then npos
     else initial_column cols (j - 1))"
proof -
  define xs where "xs = expand_to cols n"
  have n: "n < length xs" by (simp add: xs_def expand_to_length)
  have e: "insert_index n cols = take n xs @ npos # drop n xs"
    using n by (simp add: insert_index_def insert_empty_at_def list_update_append flip: xs_def)
  have l: "List.last (take n xs @ npos # drop n xs) = List.last xs" "xs \<noteq> []" using n by auto
  have "initial_column (take n xs @ npos # drop n xs) j =
      (if j < n then initial_column xs j else if j = n then npos else initial_column xs (j - 1))"
    unfolding initial_column_def l using l(2) n nth_insertion[of n xs j npos] by (auto simp: not_le)
  then show ?thesis unfolding e by (simp add: xs_def initial_column_expand)
qed

lemma rotate_move:
  assumes "from < length xs" "to < length xs" "from \<noteq> to"
  shows "rotate_pos d from to xs = move_elem from to xs"
proof (cases "from < to")
  case True
  have "move_elem from to xs = take from xs @ take (to - from) (drop (Suc from) xs) @ [xs ! from] @ drop (Suc to) xs"
    using True assms by (simp add: move_elem_def Let_def min_def)
  moreover have "take 1 (drop from xs) = [xs ! from]" using assms(1) by (simp add: take_Suc_conv_app_nth take_Suc Cons_nth_drop_Suc[symmetric])
  ultimately show ?thesis using True assms by (simp add: rotate_pos_def rotate_range_def)
next
  case False
  have "move_elem from to xs = take to xs @ [xs ! from] @ drop to (take from xs) @ drop (Suc from) xs"
    using False assms by (simp add: move_elem_def Let_def min_def)
  moreover have "take 1 (drop from xs) = [xs ! from]" using assms(1) by (simp add: take_Suc Cons_nth_drop_Suc[symmetric])
  moreover have "drop to (take from xs) = take (from - to) (drop to xs)" by (simp add: drop_take)
  ultimately show ?thesis using False assms by (simp add: rotate_pos_def rotate_range_def)
qed

lemma last_move_elem:
  assumes "i + 1 < length xs" "j + 1 < length xs"
  shows "List.last (move_elem i j xs) = List.last xs" "length (move_elem i j xs) = length xs"
proof -
  have "drop j (take i xs @ drop (Suc i) xs) \<noteq> []" using assms by auto
  then have "List.last (move_elem i j xs) = List.last (take i xs @ drop (Suc i) xs)"
    by (simp add: move_elem_def Let_def del: drop_append)
  also have "\<dots> = List.last xs" using assms(1) by simp
  finally show "List.last (move_elem i j xs) = List.last xs" .
  show "length (move_elem i j xs) = length xs" using mset_move_elem[of i xs j] assms by (metis add_lessD1 size_mset)
qed

lemma initial_column_move:
  assumes "i \<noteq> j"
  shows "initial_column (move_index i j cols) (adjust_for_move v i j) = initial_column cols v"
proof -
  define xs where "xs = expand_to cols (max i j + 1)"
  have n: "i + 1 < length xs" "j + 1 < length xs" using expand_to_length[of "max i j + 1" cols] by (simp_all add: xs_def)
  then have e: "move_index i j cols = move_elem i j xs" using assms rotate_move[of i xs j]
    unfolding move_index_def xs_def[symmetric] by simp
  note l = last_move_elem[OF n]
  have "move_elem i j xs \<noteq> []" "xs \<noteq> []" using l(2) n by auto
  moreover have "move_elem i j xs ! adjust_for_move v i j = xs ! v" "adjust_for_move v i j < length xs" if "v < length xs"
    using moved_elem[of i xs j] n that by (auto simp: moved_by_def l(2))
  moreover have "adjust_for_move v i j = v" if "length xs \<le> v" using n that by (auto simp: adjust_for_move_def)
  ultimately have "initial_column (move_elem i j xs) (adjust_for_move v i j) = initial_column xs v"
    by (cases "v < length xs") (simp_all add: initial_column_def l)
  then show ?thesis by (simp add: e xs_def initial_column_expand)
qed

subsection \<open>Through a log\<close>

definition column_was :: "database \<Rightarrow> nat \<Rightarrow> nat \<Rightarrow> nat \<Rightarrow> bool" where
  "column_was db\<^sub>0 t x c \<longleftrightarrow>
     (if x < next_id db\<^sub>0 then c < length (col_ids (db_tables db\<^sub>0 ! t)) \<and> col_ids (db_tables db\<^sub>0 ! t) ! c = x else c = npos)"

definition columns_follow :: "database \<Rightarrow> nat list list \<Rightarrow> nat list list \<Rightarrow> bool" where
  "columns_follow db\<^sub>0 css cis \<longleftrightarrow>
     (\<forall>t < length css. \<forall>i < length (css ! t). column_was db\<^sub>0 t (css ! t ! i) (initial_column_index cis t i))"

fun changes_tables :: "instruction \<Rightarrow> bool" where
  "changes_tables (Insert_group_level_table t) = True"
| "changes_tables (Move_group_level_table i j) = True"
| "changes_tables i = False"

fun changes_columns :: "instruction \<Rightarrow> bool" where
  "changes_columns (Insert_column c) = True"
| "changes_columns (Insert_link_column c) = True"
| "changes_columns (Move_column i j) = True"
| "changes_columns i = False"

lemma change_at_indices [simp]: "column_indices (info (change_at p f s)) = column_indices (info s)"
  by (cases "(p, f, s)" rule: change_at.cases) simp_all

lemma set_lists_indices [simp]: "column_indices (info (set_lists f s)) = column_indices (info s)"
  by (simp add: set_lists_def)

lemma select_table_indices [simp]: "column_indices (info (select_table t path s)) = column_indices (info s)"
  by (auto simp: select_table_def Let_def mark_dirty_def change_table_def split: list.splits option.splits)

lemma handle_indices:
  assumes "handle i s = Inr s'" "\<not> changes_columns i" "\<not> changes_tables i"
  shows "column_indices (info s') = column_indices (info s)"
  using assms
  by (cases i) (auto simp: select_descriptor_def select_link_list_def mark_dirty_def change_table_def change_list_def
      insert_empty_rows_def erase_rows_def swap_rows_at_def move_row_at_def merge_rows_def clear_table_def Let_def
      split: if_splits)

lemma replay_columns:
  assumes "replay i db = Some db'" "\<not> changes_columns i" "\<not> changes_tables i" "\<And>t. selected_table db = Some t \<Longrightarrow> t < length (db_tables db)"
  shows "map col_ids (db_tables db') = map col_ids (db_tables db)" "next_id db \<le> next_id db'"
  using assms
  by (cases i; auto simp: on_list_def on_rows_def update_id split: option.splits)+

lemma indices_set:
  "initial_column_index (column_indices (info (set_column_indices f s))) t i =
    (if t = m_current_table s
     then initial_column (f (if t < length (column_indices (info s)) then column_indices (info s) ! t else [])) i
     else initial_column_index (column_indices (info s)) t i)"
  by (auto simp: set_column_indices_def Let_def initial_column_index_def resize_with_def nth_append initial_column_def)

lemma initial_column_index_at: "initial_column_index cis t i = initial_column (if t < length cis then cis ! t else []) i"
  by (simp add: initial_column_index_def initial_column_def)

lemma follow_insert:
  assumes "columns_follow db\<^sub>0 css cis" "t < length css" "c \<le> length (css ! t)" "next_id db\<^sub>0 \<le> x"
    "\<And>u i. initial_column_index cis' u i =
      (if u = t then initial_column (insert_index c (if t < length cis then cis ! t else [])) i else initial_column_index cis u i)"
  shows "columns_follow db\<^sub>0 (css[t := take c (css ! t) @ [x] @ drop c (css ! t)]) cis'"
  unfolding columns_follow_def
proof (intro allI impI)
  fix u i
  assume "u < length (css[t := take c (css ! t) @ [x] @ drop c (css ! t)])"
    and i: "i < length (css[t := take c (css ! t) @ [x] @ drop c (css ! t)] ! u)"
  then have u: "u < length css" by simp
  show "column_was db\<^sub>0 u (css[t := take c (css ! t) @ [x] @ drop c (css ! t)] ! u ! i) (initial_column_index cis' u i)"
  proof (cases "u = t")
    case True
    then have "i \<le> length (css ! t)" using i assms(2,3) by simp
    then show ?thesis
      using assms True nth_insertion[of c "css ! t" i x]
      by (auto simp: columns_follow_def initial_column_insert column_was_def initial_column_index_at[symmetric])
  next
    case False
    then show ?thesis using assms i u by (simp add: columns_follow_def)
  qed
qed

lemma follow_move:
  assumes "columns_follow db\<^sub>0 css cis" "t < length css" "a < length (css ! t)" "b < length (css ! t)" "a \<noteq> b"
    "\<And>u i. initial_column_index cis' u i =
      (if u = t then initial_column (move_index a b (if t < length cis then cis ! t else [])) i else initial_column_index cis u i)"
  shows "columns_follow db\<^sub>0 (css[t := move_elem a b (css ! t)]) cis'"
  unfolding columns_follow_def
proof (intro allI impI)
  fix u i
  assume "u < length (css[t := move_elem a b (css ! t)])" and i: "i < length (css[t := move_elem a b (css ! t)] ! u)"
  then have u: "u < length css" by simp
  show "column_was db\<^sub>0 u (css[t := move_elem a b (css ! t)] ! u ! i) (initial_column_index cis' u i)"
  proof (cases "u = t")
    case True
    have len: "length (move_elem a b (css ! t)) = length (css ! t)" using mset_move_elem[OF assms(3), of b] by (metis size_mset)
    have i': "i < length (css ! t)" using i True assms(2) len by simp
    obtain v where v: "v < length (css ! t)" "adjust_for_move v a b = i"
    proof
      show "adjust_for_move (adjust_for_move i b a) a b = i" using assms(5) by (auto simp: adjust_for_move_def)
      show "adjust_for_move i b a < length (css ! t)" using i' assms(3,4) by (auto simp: adjust_for_move_def)
    qed
    have "move_elem a b (css ! t) ! i = css ! t ! v"
      using moved_elem[OF assms(3,4)] v by (auto simp: moved_by_def)
    moreover have "initial_column_index cis' t i = initial_column_index cis t v"
      using initial_column_move[OF assms(5), of _ v] assms(6)[of t i] v(2) by (simp add: initial_column_index_at[of cis])
    ultimately show ?thesis using assms(1,2) True v(1) by (simp add: columns_follow_def)
  next
    case False
    then show ?thesis using assms i u by (simp add: columns_follow_def)
  qed
qed

lemma step_columns:
  assumes "follows K A db\<^sub>1 db s" "columns_follow db\<^sub>0 (map col_ids (db_tables db)) (column_indices (info s))"
    "next_id db\<^sub>0 \<le> next_id db" "replay i db = Some db'" "handle i s = Inr s'" "\<not> changes_tables i"
  shows "columns_follow db\<^sub>0 (map col_ids (db_tables db')) (column_indices (info s')) \<and> next_id db\<^sub>0 \<le> next_id db'"
proof (cases "changes_columns i")
  case False
  then show ?thesis
    using assms replay_columns[OF assms(4) False assms(6)] follows_fields(4)[OF assms(1)] handle_indices[OF assms(5) False assms(6)]
    by fastforce
next
  case True
  then consider c where "i = Insert_column c \<or> i = Insert_link_column c" | a b where "i = Move_column a b"
    by (cases i) auto
  then show ?thesis
  proof cases
    case 1
    then have r: "on_cols (\<lambda>cols. guard (c \<le> length cols) (take c cols @ [next_id db] @ drop c cols)) db = Some db'"
      and s': "s' = insert_column_at c s" using assms(4,5) by auto
    obtain t where t: "selected_table db = Some t" "descriptor_selected db" "c \<le> length (col_ids (db_tables db ! t))"
      using on_cols_Some[OF r] by auto
    note f = follows_fields(4)[OF assms(1) t(1)] follows_fields(5)[OF assms(1) t(2)]
    have db': "map col_ids (db_tables db') = (map col_ids (db_tables db))[t := take c (map col_ids (db_tables db) ! t) @
        [next_id db] @ drop c (map col_ids (db_tables db) ! t)]" "next_id db' = next_id db + 1"
      using r t f by (auto simp: on_cols_def map_update)
    have "initial_column_index (column_indices (info s')) u j = (if u = t
        then initial_column (insert_index c (if t < length (column_indices (info s)) then column_indices (info s) ! t else [])) j
        else initial_column_index (column_indices (info s)) u j)" for u j
      using f by (simp add: s' insert_column_at_def Let_def indices_set)
    from follow_insert[OF assms(2) _ _ assms(3) this] show ?thesis using t(3) f assms(3) by (simp add: db')
  next
    case 2
    then have r: "on_cols (\<lambda>cols. guard (a < length cols \<and> b < length cols \<and> a \<noteq> b) (move_elem a b cols)) db = Some db'"
      and s': "move_column_at a b s = Inr s'" using assms(4,5) by auto
    obtain t where t: "selected_table db = Some t" "descriptor_selected db" "a < length (col_ids (db_tables db ! t))"
      "b < length (col_ids (db_tables db ! t))" "a \<noteq> b"
      using on_cols_Some[OF r] by auto
    note f = follows_fields(4)[OF assms(1) t(1)] follows_fields(5)[OF assms(1) t(2)]
    have db': "map col_ids (db_tables db') = (map col_ids (db_tables db))[t := move_elem a b (map col_ids (db_tables db) ! t)]"
      "next_id db' = next_id db + 1"
      using r t f by (auto simp: on_cols_def map_update)
    have "initial_column_index (column_indices (info s')) u j = (if u = t
        then initial_column (move_index a b (if t < length (column_indices (info s)) then column_indices (info s) ! t else [])) j
        else initial_column_index (column_indices (info s)) u j)" for u j
      using f s' t(5) by (auto simp: move_column_at_def Let_def indices_set split: if_splits)
    from follow_move[OF assms(2) _ _ _ t(5) this] show ?thesis using t(3,4) f assms(3) by (simp add: db')
  qed
qed

lemma log_columns:
  assumes "follows K A db\<^sub>1 db s" "columns_follow db\<^sub>0 (map col_ids (db_tables db)) (column_indices (info s))"
    "next_id db\<^sub>0 \<le> next_id db" "replay_all is db = Some db'" "all_erase_well is s" "\<not> list_ex changes_tables is"
  shows "\<exists>s'. handle_all is s = Inr s' \<and> columns_follow db\<^sub>0 (map col_ids (db_tables db')) (column_indices (info s'))"
  using assms
proof (induction "is" arbitrary: db s)
  case (Cons i is')
  then obtain db2 where r: "replay i db = Some db2" "replay_all is' db2 = Some db'" by (auto split: option.splits)
  with step_follows[OF Cons.prems(1) r(1)] Cons.prems(5) obtain s2
    where s2: "handle i s = Inr s2" "follows K A db\<^sub>1 db2 s2" "all_erase_well is' s2" by auto
  with step_columns[OF Cons.prems(1-3) r(1) s2(1)] Cons.prems(6) Cons.IH[OF s2(2) _ _ r(2)] show ?case by auto
qed simp

text \<open>
  C28. After a log that inserts and moves columns in any order, among all other instructions but
  those on whole tables, the numbers that the observer keeps lead from each column of the new
  table to the column it was at the beginning, and for a column that was inserted to \<open>npos\<close>.
\<close>

theorem initial_columns_found:
  assumes "observes K db ti" "column_indices ti = []" "replay_all is db = Some db'"
    "all_erase_well is (new_observer ti (\<lambda>_. fresh_builder))" "\<not> list_ex changes_tables is"
  shows "\<exists>s. read_log is (new_observer ti (\<lambda>_. fresh_builder)) = Inr s \<and>
    (\<forall>t < length (db_tables db'). \<forall>i < length (col_ids (db_tables db' ! t)).
      let x = col_ids (db_tables db' ! t) ! i; c = initial_column_index (column_indices (info s)) t i
      in if x < next_id db then c < length (col_ids (db_tables db ! t)) \<and> col_ids (db_tables db ! t) ! c = x else c = npos)"
proof -
  let ?s = "new_observer ti (\<lambda>_. fresh_builder)"
  have "x < next_id db" if "t < length (db_tables db)" "x \<in> set (col_ids (db_tables db ! t))" for t x
    using well_formed_table[of db t] assms(1) that by (auto simp: observes_def table_ok_iff)
  then have "columns_follow db (map col_ids (db_tables db)) (column_indices (info ?s))"
    by (simp add: columns_follow_def column_was_def new_observer_def assms(2) initial_column_index_def)
  from log_columns[OF observes_follows[OF assms(1)] this _ assms(3-5)] obtain s
    where s: "handle_all is ?s = Inr s" "columns_follow db (map col_ids (db_tables db')) (column_indices (info s))" by auto
  have "column_indices (info (observer_parse_complete s)) = column_indices (info s)" by (simp add: observer_parse_complete_def)
  then show ?thesis using s by (intro exI[of _ "observer_parse_complete s"]) (simp add: read_log_def columns_follow_def column_was_def)
qed

lemma initial_columns_found_witness:
  "\<exists>s. read_log [Select_table 1 [], Select_descriptor 0, Insert_column 0, Move_column 0 2]
      (new_observer (tracking [] []) (\<lambda>_. fresh_builder)) = Inr s \<and>
    map (initial_column_index (column_indices (info s)) 1) [0, 1, 2] = [0, 1, npos]"
proof -
  let ?is = "[Select_table 1 [], Select_descriptor 0, Insert_column 0, Move_column 0 2]"
  have o: "observes key_22 small_database (tracking [] [])" by code_simp
  obtain db' where r: "replay_all ?is small_database = Some db'" and c: "length (db_tables db') = 2"
    "col_ids (db_tables db' ! 1) = [21, 22, 30]"
    by (simp add: small_database_def guard_def on_cols_def move_elem_def)
  have w: "all_erase_well ?is (new_observer (tracking [] []) (\<lambda>_. fresh_builder))" by (rule no_erasure) simp
  have i: "column_indices (tracking [] []) = []" by (simp add: tracking_def)
  from initial_columns_found[OF o i r w] obtain s
    where s: "read_log ?is (new_observer (tracking [] []) (\<lambda>_. fresh_builder)) = Inr s"
      and a: "\<forall>t < length (db_tables db'). \<forall>i < length (col_ids (db_tables db' ! t)).
        let x = col_ids (db_tables db' ! t) ! i; c = initial_column_index (column_indices (info s)) t i
        in if x < next_id small_database then c < length (col_ids (db_tables small_database ! t)) \<and>
          col_ids (db_tables small_database ! t) ! c = x else c = npos" by auto
  have n: "next_id small_database = 30" "col_ids (db_tables small_database ! Suc 0) = [21, 22]" by (simp_all add: small_database_def)
  have b: "let x = col_ids (db_tables db' ! 1) ! i; c = initial_column_index (column_indices (info s)) 1 i
      in if x < 30 then c < 2 \<and> [21, 22] ! c = x else c = npos" if "i < 3" for i
    using a[rule_format, of 1 i] c that by (simp add: n Let_def numeral_2_eq_2 cong: if_cong)
  have "c = 0" if "c < 2" "[21, 22 :: nat] ! c = 21" for c using that by (auto simp: less_Suc_eq numeral_2_eq_2)
  moreover have "c = 1" if "c < 2" "[21, 22 :: nat] ! c = 22" for c using that by (auto simp: less_Suc_eq numeral_2_eq_2)
  ultimately show ?thesis using s b[of 0] b[of 1] b[of 2] c(2) by (simp add: Let_def)
qed

text \<open>The numbers stay at the index of the table: after a table is inserted before it they belong to another.\<close>

lemma column_numbers_stay_behind:
  "map_sum id (\<lambda>s. column_indices (info s)) (handle_all
     [Select_table 0 [], Select_descriptor 0, Insert_column 0, Insert_group_level_table 0]
     (new_observer (tracking [] []) (\<lambda>_. fresh_builder))) = Inr [[npos, 0]]"
  by (simp add: tracking_def new_observer_def select_table_def needs_def select_descriptor_def insert_column_at_def
      set_column_indices_def set_lists_def lists_of_table_def insert_group_level_table_def prepare_table_indices_def
      resize_with_def insert_index_def expand_to_def insert_empty_at_def Let_def)

end
