(* ===== verification/Kvo_Adapter.thy ===== *)
theory Kvo_Adapter
  imports Transact_Columns
begin

text \<open>
  \<open>KVOAdapter\<close> (\<open>impl/transact_log_handler.cpp\<close>): what a log means for the rows that a
  binding observes, told as key-value observing can express it.

  The columns of the tables come from the group, which is a parameter (\<open>group_lists\<close>). The
  change set of an observed list is at the address that is its index in \<open>m_lists\<close>. The calls of
  the binding context are outside the model; \<open>before\<close> computes what \<open>will_change\<close> is told.
\<close>

subsection \<open>Observed rows and lists\<close>

datatype change_kind = No_change | Set_change | Insert_change | Remove_change | Set_all

record column_info =
  initial_index :: nat
  kind :: change_kind
  indices :: crv

record observer_state =
  obs_table :: nat
  obs_row :: nat
  obs_info :: nat
  obs_changes :: "column_info list"

record observed_list =
  observed_by :: nat
  observed_col :: nat
  initial_size :: nat

record kvo_adapter =
  kvo_observers :: "observer_state list"
  kvo_lists :: "observed_list list"
  kvo_invalidated :: "nat list"

datatype column_type = Link_list | Subtable | Other_column

record group_lists =
  column_types :: "nat \<Rightarrow> column_type list"
  subtable_size :: "nat \<Rightarrow> nat \<Rightarrow> nat \<Rightarrow> nat"

definition new_column_info :: column_info where
  "new_column_info = \<lparr>initial_index = npos, kind = No_change, indices = []\<rparr>"

fun observed_columns :: "group_lists \<Rightarrow> nat \<Rightarrow> observer_state \<Rightarrow> nat \<Rightarrow> column_type list \<Rightarrow> observed_list list" where
  "observed_columns g n ob i [] = []"
| "observed_columns g n ob i (Link_list # ts) =
     \<lparr>observed_by = n, observed_col = i, initial_size = npos\<rparr> # observed_columns g n ob (i + 1) ts"
| "observed_columns g n ob i (Subtable # ts) =
     \<lparr>observed_by = n, observed_col = i, initial_size = subtable_size g (obs_table ob) i (obs_row ob)\<rparr> #
       observed_columns g n ob (i + 1) ts"
| "observed_columns g n ob i (Other_column # ts) = observed_columns g n ob (i + 1) ts"

definition set_needed :: "nat list \<Rightarrow> bool list \<Rightarrow> bool list" where
  "set_needed tables bs =
     (let bs = (if length bs \<le> Max (set tables) then resize_with False (Max (set tables) + 1) bs else bs)
      in fold (\<lambda>t bs. bs[t := True]) tables bs)"

definition no_info :: transaction_info where
  "no_info = \<lparr>info_tables = [], schema_changed = False, table_modifications_needed = [], table_moves_needed = [],
     lists = [], column_indices = [], table_indices = [], track_all = False\<rparr>"

definition new_kvo_adapter :: "group_lists \<Rightarrow> observer_state list \<Rightarrow> kvo_adapter \<times> transaction_info" where
  "new_kvo_adapter g obs =
     (if obs = [] then (\<lparr>kvo_observers = [], kvo_lists = [], kvo_invalidated = []\<rparr>, no_info)
      else
        let tables = remdups (sort (map obs_table obs));
            ls = concat (map (\<lambda>(n, ob). observed_columns g n ob 0 (column_types g (obs_table ob))) (enumerate 0 obs))
        in (\<lparr>kvo_observers = obs, kvo_lists = ls, kvo_invalidated = []\<rparr>,
            no_info\<lparr>table_modifications_needed := set_needed tables [], table_moves_needed := set_needed tables [],
              lists := map (\<lambda>(a, l). \<lparr>list_table = obs_table (obs ! observed_by l), list_row = obs_row (obs ! observed_by l),
                list_col = observed_col l, list_changes = a\<rparr>) (enumerate 0 ls)\<rparr>))"

subsection \<open>Rows\<close>

definition new_table_ndx :: "nat list \<Rightarrow> nat \<Rightarrow> nat" where
  "new_table_ndx tis ndx = (if ndx < length tis then tis ! ndx else ndx)"

text \<open>Where a row of the old table is in the new one; \<open>None\<close> for a deleted row.\<close>

definition new_row_index :: "change_builder \<Rightarrow> nat \<Rightarrow> nat option" where
  "new_row_index t idx =
     (let i = lower_bound (\<lambda>m. move_from m < idx) (moves t) 0 (length (moves t)) in
      if i < length (moves t) \<and> move_from (moves t ! i) = idx then Some (move_to (moves t ! i))
      else if is_contains (deletions t) idx then None
      else Some (is_shift (insertions t) (is_unshift (deletions t) idx)))"

definition row_changes :: "nat list list \<Rightarrow> nat \<Rightarrow> change_builder \<Rightarrow> nat \<Rightarrow> column_info list \<Rightarrow> column_info list" where
  "row_changes cis table t idx changes =
     map (\<lambda>(i, c).
         let change = (if i < length changes then changes ! i else new_column_info)\<lparr>initial_index := initial_column_index cis table i\<rparr>
         in if initial_index change \<noteq> npos \<and> is_contains c idx then change\<lparr>kind := Set_change\<rparr> else change)
       (enumerate 0 (columns t))"

definition observe_row :: "transaction_info \<Rightarrow> observer_state \<Rightarrow> nat option \<times> observer_state" where
  "observe_row ti ob =
     (let table = new_table_ndx (table_indices ti) (obs_table ob) in
      if length (info_tables ti) \<le> table then (None, ob)
      else case new_row_index (info_tables ti ! table) (obs_row ob) of
          None \<Rightarrow> (Some (obs_info ob), ob)
        | Some idx \<Rightarrow>
            (None, if is_contains (modifications (info_tables ti ! table)) idx
                   then ob\<lparr>obs_changes := row_changes (column_indices ti) table (info_tables ti ! table) idx (obs_changes ob)\<rparr>
                   else ob))"

subsection \<open>Lists\<close>

text \<open>The lambda \<open>in_range\<close>, with the ranges that are left for the iterator.\<close>

definition in_range :: "range list \<Rightarrow> nat \<Rightarrow> bool \<times> range list" where
  "in_range rs i =
     (let rs = (case rs of [] \<Rightarrow> [] | r # rs' \<Rightarrow> if snd r \<le> i then rs' else rs)
      in (case rs of [] \<Rightarrow> False | r # _ \<Rightarrow> fst r \<le> i \<and> i < snd r, rs))"

fun moved_indices :: "nat list \<Rightarrow> range list \<Rightarrow> range list \<Rightarrow> int \<Rightarrow> crv \<Rightarrow> crv" where
  "moved_indices [] dels inss shift out = out"
| "moved_indices (i # is) dels inss shift out =
     (let (deleted, dels) = in_range dels i;
          (inserted, inss) = (if deleted then (False, inss) else in_range inss (add_diff i shift));
          shift = (if deleted then shift - 1 else if inserted then shift + 1 else shift);
          out = (if shift \<noteq> 0 then is_add out i else out)
      in moved_indices is dels inss shift out)"

definition list_change :: "change_builder \<Rightarrow> nat \<Rightarrow> crv \<Rightarrow> change_kind \<times> crv" where
  "list_change t old_size old =
     (let t = t\<lparr>modifications := is_remove_set (modifications t) (insertions t)\<rparr> in
      if moves t \<noteq> [] \<and> is_count (insertions t) 0 npos = length (moves t) \<and> is_count (deletions t) 0 npos = length (moves t)
      then
        let first = min (fst (deref (insertions t) (crv_begin (insertions t)))) (fst (deref (deletions t) (crv_begin (deletions t))));
            stop = max (last_range_end (insertions t)) (last_range_end (deletions t))
        in (Set_change, moved_indices [first ..< stop] (flat (deletions t)) (flat (insertions t)) 0
              (is_add_set (modifications t) (deletions t)))
      else if of_bool (crv_empty (insertions t)) + of_bool (crv_empty (modifications t)) +
          of_bool (crv_empty (deletions t)) < (2 :: nat)
      then (Set_all, old)
      else if \<not> crv_empty (insertions t) then (Insert_change, insertions t)
      else if \<not> crv_empty (modifications t) then (Set_change, modifications t)
      else (Remove_change,
            if old_size < last_range_end (deletions t) then is_set old old_size else deletions t))"

definition observe_list :: "(nat \<Rightarrow> change_builder) \<Rightarrow> nat \<Rightarrow> observed_list \<Rightarrow> kvo_adapter \<Rightarrow> log_error + kvo_adapter" where
  "observe_list bs a l k =
     (let ob = kvo_observers k ! observed_by l; cs = obs_changes ob; col = observed_col l;
          put = (\<lambda>f. k\<lparr>kvo_observers := (kvo_observers k)[observed_by l := ob\<lparr>obs_changes := cs[col := f (cs ! col)]\<rparr>]\<rparr>)
      in if cs_empty (bs a) then
           Inr (if col < length cs then put (\<lambda>c. c\<lparr>kind := No_change\<rparr>) else k)
         else if cs = [] then Inr k
         else if \<not> col < length cs then Inl Assertion_failed
         else Inr (put (\<lambda>c. case list_change (bs a) (initial_size l) (indices c) of
                (kd, is) \<Rightarrow> c\<lparr>kind := kd, indices := is\<rparr>)))"

fun observe_lists :: "(nat \<Rightarrow> change_builder) \<Rightarrow> (nat \<times> observed_list) list \<Rightarrow> kvo_adapter \<Rightarrow> log_error + kvo_adapter" where
  "observe_lists bs [] k = Inr k"
| "observe_lists bs ((a, l) # ls) k =
     (case observe_list bs a l k of Inl e \<Rightarrow> Inl e | Inr k \<Rightarrow> observe_lists bs ls k)"

text \<open>What is handed to \<open>will_change\<close>.\<close>

definition before :: "observer \<Rightarrow> kvo_adapter \<Rightarrow> log_error + kvo_adapter" where
  "before s k =
     (if info_tables (info s) = [] then Inr k
      else
        let rs = map (observe_row (info s)) (kvo_observers k);
            k = k\<lparr>kvo_observers := map snd rs,
                   kvo_invalidated := kvo_invalidated k @ concat (map (\<lambda>r. case fst r of None \<Rightarrow> [] | Some i \<Rightarrow> [i]) rs)\<rparr>
        in observe_lists (builders s) (enumerate 0 (kvo_lists k)) k)"

end
