(* ===== verification/Kvo_Props.thy ===== *)
theory Kvo_Props
  imports Kvo_Adapter
begin

text \<open>
  What the changes that \<open>KVOAdapter\<close> reports say about the observed rows and lists.
\<close>

subsection \<open>Rows\<close>

lemma sorted_lower_bound:
  assumes "sorted (map move_from ms)"
  shows "lower_bound (\<lambda>m. move_from m < idx) ms 0 (length ms) = length (takeWhile (\<lambda>m. move_from m < idx) ms)"
proof (rule lower_bound_partition)
  let ?P = "\<lambda>m. move_from m < idx" and ?k = "length (takeWhile (\<lambda>m. move_from m < idx) ms)"
  show "0 \<le> ?k" "?k \<le> 0 + length ms" by (simp_all add: length_takeWhile_le)
  fix i assume i: "i < 0 + length ms"
  show "?P (ms ! i) \<longleftrightarrow> i < ?k"
  proof
    show "i < ?k \<Longrightarrow> ?P (ms ! i)" by (metis nth_mem set_takeWhileD takeWhile_nth)
    show "?P (ms ! i) \<Longrightarrow> i < ?k"
    proof (rule ccontr)
      assume a: "?P (ms ! i)" "\<not> i < ?k"
      then have "\<not> ?P (ms ! ?k)" using i nth_length_takeWhile[of ?P ms] by simp
      moreover have "move_from (ms ! ?k) \<le> move_from (ms ! i)"
        using sorted_nth_mono[OF assms, of ?k i] a(2) i by simp
      ultimately show False using a(1) by simp
    qed
  qed
qed

text \<open>The row found for an observed row is the same row.\<close>

lemma new_row_index_same:
  assumes "tracks A B t" "sorted (map move_from (moves t))" "r < length A" "new_row_index t r = Some i"
  shows "i < length B \<and> B ! i = A ! r"
proof -
  let ?k = "lower_bound (\<lambda>m. move_from m < r) (moves t) 0 (length (moves t))"
  show ?thesis
  proof (cases "?k < length (moves t) \<and> move_from (moves t ! ?k) = r")
    case True
    then have m: "moves t ! ?k \<in> set (moves t)" and i: "i = move_to (moves t ! ?k)"
      using assms(4) by (auto simp: new_row_index_def Let_def)
    from bspec[OF tracks_moves[OF assms(1), unfolded list_all_iff] m] show ?thesis using True i by metis
  next
    case False
    have inv: "crv_inv (deletions t)" "crv_inv (insertions t)" using assms(1) by (simp_all add: tracks_def)
    from False assms(4) have n: "r \<notin> elems (deletions t)" "i = is_shift (insertions t) (is_unshift (deletions t) r)"
      using inv(1) by (auto simp: new_row_index_def Let_def contains_correct split: if_splits)
    have s: "shifted_to (elems (insertions t)) (unshifted (elems (deletions t)) r) i"
      using ix.shift[OF inv(2)] ix.unshift[OF inv(1)] n(2) by simp
    then have "i \<notin> elems (insertions t)" "unshifted (elems (insertions t)) i = unshifted (elems (deletions t)) r"
      by (auto simp: shifted_to_def)
    then show ?thesis
      using kept_nth_eq[of A "elems (deletions t)" B "elems (insertions t)" r i] tracks_diff[OF assms(1)] n(1) assms(3) by simp
  qed
qed

subsection \<open>Lists\<close>

lemma last_range_end_le:
  assumes "crv_inv m" "elems m \<subseteq> {..< n}" "\<not> crv_empty m"
  shows "last_range_end m \<le> n"
proof -
  have "elems m \<noteq> {}" using assms(1,3) crv_inv_empty_iff[OF assms(1)] by (auto simp: crv_empty_def)
  then have m: "Max (elems m) \<in> elems m" by (simp add: finite_elems)
  then have "elems m \<subseteq> {..< Suc (Max (elems m))}" by (auto simp: finite_elems less_Suc_eq_le)
  then have "last_range_end m = Max (elems m) + 1" using last_range_end_iff[OF assms(1)] m by blast
  then show ?thesis using m assms(2) by auto
qed

text \<open>The indices collected for moves: those it starts with, and some of the ones it walks over.\<close>

lemma moved_indices_between:
  assumes "crv_inv out"
  shows "crv_inv (moved_indices is dels inss shift out) \<and> elems out \<subseteq> elems (moved_indices is dels inss shift out) \<and>
    elems (moved_indices is dels inss shift out) \<subseteq> elems out \<union> set is"
  using assms
proof (induction "is" dels inss shift out rule: moved_indices.induct)
  case (2 i js dels inss shift out)
  obtain deleted dels' where d: "in_range dels i = (deleted, dels')" by fastforce
  obtain inserted inss' where n: "(if deleted then (False, inss) else in_range inss (add_diff i shift)) = (inserted, inss')" by fastforce
  define shift' where "shift' = (if deleted then shift - 1 else if inserted then shift + 1 else shift)"
  define out' where "out' = (if shift' \<noteq> 0 then is_add out i else out)"
  have o: "crv_inv out'" "elems out \<subseteq> elems out'" "elems out' \<subseteq> insert i (elems out)"
    using ix.add[OF 2(2), of i] 2(2) by (auto simp: out'_def)
  have m: "moved_indices (i # js) dels inss shift out = moved_indices js dels' inss' shift' out'"
    using d n by (simp add: Let_def shift'_def out'_def)
  from 2(1)[OF d[symmetric] refl n[symmetric] refl shift'_def out'_def o(1)] o(2,3) show ?case unfolding m by auto
qed simp

lemma nths_filter: "mset (nths A D) = image_mset ((!) A) (filter_mset (\<lambda>i. i \<in> D) (mset [0 ..< length A]))"
proof -
  have "zip A [0 ..< length A] = map (\<lambda>i. (A ! i, i)) [0 ..< length A]" by (rule nth_equalityI) simp_all
  then have "nths A D = map ((!) A) (filter (\<lambda>i. i \<in> D) [0 ..< length A])" by (simp add: nths_def filter_map comp_def)
  then show ?thesis by (simp only: mset_map mset_filter)
qed

lemma nths_elements:
  assumes "D \<subseteq> {..< length A}"
  shows "mset (nths A D) = image_mset ((!) A) (mset_set D)"
proof -
  have "mset (filter (\<lambda>i. i \<in> D) [0 ..< length A]) = mset_set (set (filter (\<lambda>i. i \<in> D) [0 ..< length A]))"
    by (subst mset_set_set) simp_all
  moreover have "set (filter (\<lambda>i. i \<in> D) [0 ..< length A]) = D" using assms by auto
  ultimately show ?thesis unfolding nths_filter by (simp only: mset_filter)
qed

lemma keep_rest_elements: "mset A = mset (keep A D) + mset (nths A D)"
proof -
  have "mset A = image_mset ((!) A) (mset [0 ..< length A])" by (simp only: map_nth flip: mset_map)
  also have "mset [0 ..< length A] = filter_mset (\<lambda>i. i \<in> D) (mset [0 ..< length A]) + filter_mset (\<lambda>i. \<not> i \<in> D) (mset [0 ..< length A])"
    by (rule multiset_partition)
  finally show ?thesis unfolding keep_def nths_filter by (simp add: add.commute)
qed

text \<open>When every row that left came back by a move, the list is a permutation of the old one.\<close>

lemma moved_sources:
  assumes "tracks A B t" "card (elems (deletions t)) = length (moves t)" "card (elems (insertions t)) = length (moves t)"
  shows "mset_set (elems (deletions t)) = mset (map move_from (moves t))" "mset_set (elems (insertions t)) = mset (map move_to (moves t))"
proof -
  have l: "distinct (map move_from (moves t))" "distinct (map move_to (moves t))"
    using assms(1) by (simp_all add: tracks_def links_ok_def links_def comp_def)
  have "set (map move_from (moves t)) \<subseteq> elems (deletions t)" "set (map move_to (moves t)) \<subseteq> elems (insertions t)"
    using tracks_link(1,2)[OF assms(1)] by auto
  moreover have "card (set (map move_from (moves t))) = length (moves t)" "card (set (map move_to (moves t))) = length (moves t)"
    using distinct_card[OF l(1)] distinct_card[OF l(2)] by simp_all
  ultimately have "set (map move_from (moves t)) = elems (deletions t)" "set (map move_to (moves t)) = elems (insertions t)"
    using assms(2,3) by (simp_all add: card_subset_eq finite_elems del: set_map)
  then show "mset_set (elems (deletions t)) = mset (map move_from (moves t))" "mset_set (elems (insertions t)) = mset (map move_to (moves t))"
    using mset_set_set[OF l(1)] mset_set_set[OF l(2)] by metis+
qed

lemma moves_permute:
  assumes "tracks A B t" "card (elems (deletions t)) = length (moves t)" "card (elems (insertions t)) = length (moves t)"
  shows "mset B = mset A"
proof -
  have eq: "map (\<lambda>m. A ! move_from m) (moves t) = map (\<lambda>m. B ! move_to m) (moves t)"
    using tracks_link(3)[OF assms(1)] by simp
  have "mset (nths A (elems (deletions t))) = mset (map (\<lambda>m. A ! move_from m) (moves t))"
    unfolding nths_elements[OF tracks_inv(3)[OF assms(1)]] moved_sources(1)[OF assms]
    by (simp add: image_mset.compositionality comp_def)
  moreover have "mset (nths B (elems (insertions t))) = mset (map (\<lambda>m. B ! move_to m) (moves t))"
    unfolding nths_elements[OF tracks_inv(4)[OF assms(1)]] moved_sources(2)[OF assms]
    by (simp add: image_mset.compositionality comp_def)
  ultimately show ?thesis
    using keep_rest_elements[of A "elems (deletions t)"] keep_rest_elements[of B "elems (insertions t)"] tracks_diff[OF assms(1)] eq
    by simp
qed

text \<open>Outside the span of the moved rows every position keeps its element.\<close>

lemma outside_moves_same:
  assumes "tracks A B t" "card (elems (deletions t)) = card (elems (insertions t))" "length B = length A" "i < length A"
    "(\<forall>j \<in> elems (deletions t) \<union> elems (insertions t). i < j) \<or> (\<forall>j \<in> elems (deletions t) \<union> elems (insertions t). j < i)"
  shows "A ! i = B ! i"
proof -
  let ?D = "elems (deletions t)" and ?I = "elems (insertions t)"
  have n: "i \<notin> ?D" "i \<notin> ?I" using assms(5) by auto
  have "below ?D i = below ?I i"
    using assms(5)
  proof
    assume "\<forall>j \<in> ?D \<union> ?I. i < j"
    then have "\<forall>y \<in> ?D \<union> ?I. \<not> y < i" by (simp add: linorder_not_less less_imp_le)
    then have "{y \<in> ?D. y < i} = {}" "{y \<in> ?I. y < i} = {}" by auto
    then show ?thesis unfolding below_def by metis
  next
    assume "\<forall>j \<in> ?D \<union> ?I. j < i"
    then have "{y \<in> ?D. y < i} = ?D" "{y \<in> ?I. y < i} = ?I" by auto
    then show ?thesis unfolding below_def using assms(2) by simp
  qed
  then show ?thesis
    using kept_nth_eq[of A ?D B ?I i i] tracks_diff[OF assms(1)] n assms(3,4) by (simp add: unshifted_def)
qed

text \<open>The list was only reordered: every row that left was put back by a move.\<close>

definition reordered :: "change_builder \<Rightarrow> bool" where
  "reordered t \<longleftrightarrow> moves t \<noteq> [] \<and> card (elems (deletions t)) = length (moves t) \<and> card (elems (insertions t)) = length (moves t)"

lemma reordered_counts:
  assumes "tracks A B t" "length A \<le> npos" "length B \<le> npos"
  shows "reordered t \<longleftrightarrow> moves t \<noteq> [] \<and> is_count (insertions t) 0 npos = length (moves t) \<and> is_count (deletions t) 0 npos = length (moves t)"
proof -
  have "{y \<in> elems (deletions t). y < npos} = elems (deletions t)" "{y \<in> elems (insertions t). y < npos} = elems (insertions t)"
    using tracks_inv(3,4)[OF assms(1)] assms(2,3) by fastforce+
  then show ?thesis
    using count_from_zero[OF tracks_inv(1)[OF assms(1)], of npos] count_from_zero[OF tracks_inv(2)[OF assms(1)], of npos]
    by (auto simp: reordered_def below_def)
qed

text \<open>The walk over the moved rows starts and ends with an index of the two sets.\<close>

lemma first_index:
  assumes "crv_inv m" "elems m \<noteq> {}"
  shows "fst (deref m (crv_begin m)) \<in> elems m"
proof -
  obtain r rs where f: "flat m = r # rs" using assms(2) by (cases "flat m") (auto simp: elems_def elems_of_def)
  then have "deref m (crv_begin m) = r" using cursor_begin[of m] assms(1) by (simp add: crv_inv_def)
  moreover have "fst r < snd r" using assms(1) f by (simp add: crv_inv_def ranges_ok_def)
  ultimately show ?thesis using f by (auto simp: elems_def elems_of_def)
qed

lemma last_index:
  assumes "crv_inv m" "elems m \<noteq> {}"
  shows "last_range_end m = Max (elems m) + 1"
proof -
  have "Max (elems m) \<in> elems m" "elems m \<subseteq> {..< Suc (Max (elems m))}"
    using assms(2) by (auto simp: finite_elems less_Suc_eq_le)
  then show ?thesis using last_range_end_iff[OF assms(1)] by blast
qed

lemma walk_within:
  assumes "crv_inv d" "crv_inv i" "elems d \<noteq> {}" "elems i \<noteq> {}"
  shows "set [min (fst (deref i (crv_begin i))) (fst (deref d (crv_begin d))) ..< max (last_range_end i) (last_range_end d)]
    \<subseteq> {Min (elems d \<union> elems i) .. Max (elems d \<union> elems i)}"
proof -
  have "Min (elems d \<union> elems i) \<le> min (fst (deref i (crv_begin i))) (fst (deref d (crv_begin d)))"
    using first_index[OF assms(1,3)] first_index[OF assms(2,4)] by (intro min.boundedI Min_le) (auto simp: finite_elems)
  moreover have "max (last_range_end i) (last_range_end d) = Max (elems d \<union> elems i) + 1"
    using last_index[OF assms(1,3)] last_index[OF assms(2,4)] assms(3,4) by (simp add: Max_Un finite_elems max.commute)
  ultimately show ?thesis by auto
qed

lemma list_change_moves:
  assumes "moves t \<noteq> []" "is_count (insertions t) 0 npos = length (moves t)" "is_count (deletions t) 0 npos = length (moves t)"
  shows "list_change t n old = (Set_change, moved_indices
    [min (fst (deref (insertions t) (crv_begin (insertions t)))) (fst (deref (deletions t) (crv_begin (deletions t))))
      ..< max (last_range_end (insertions t)) (last_range_end (deletions t))]
    (flat (deletions t)) (flat (insertions t)) 0 (is_add_set (is_remove_set (modifications t) (insertions t)) (deletions t)))"
  using assms by (simp add: list_change_def Let_def)

lemma list_change_reordered:
  assumes "tracks A B t" "crv_inv (modifications t)" "length A \<le> npos" "length B \<le> npos" "reordered t"
  obtains js where "list_change t old_size old = (Set_change, js)"
    "elems (modifications t) - elems (insertions t) \<union> elems (deletions t) \<subseteq> elems js"
    "elems js \<subseteq> elems (modifications t) - elems (insertions t) \<union> {Min (elems (deletions t) \<union> elems (insertions t)) .. Max (elems (deletions t) \<union> elems (insertions t))}"
proof -
  note inv = tracks_inv(1,2)[OF assms(1)]
  let ?ms = "is_add_set (is_remove_set (modifications t) (insertions t)) (deletions t)"
  let ?w = "[min (fst (deref (insertions t) (crv_begin (insertions t)))) (fst (deref (deletions t) (crv_begin (deletions t))))
      ..< max (last_range_end (insertions t)) (last_range_end (deletions t))]"
  let ?is = "moved_indices ?w (flat (deletions t)) (flat (insertions t)) 0 ?ms"
  have ms: "crv_inv ?ms" "elems ?ms = elems (modifications t) - elems (insertions t) \<union> elems (deletions t)"
    using remove_set_correct[OF assms(2) inv(2)] add_set_correct[OF _ inv(1)] by simp_all
  have ne: "elems (deletions t) \<noteq> {}" "elems (insertions t) \<noteq> {}"
    using assms(5) unfolding reordered_def by auto
  have span: "elems (deletions t) \<subseteq> {Min (elems (deletions t) \<union> elems (insertions t)) .. Max (elems (deletions t) \<union> elems (insertions t))}"
    by (auto simp: finite_elems)
  have "list_change t old_size old = (Set_change, ?is)"
    using assms(5) unfolding reordered_counts[OF assms(1,3,4)] by (intro list_change_moves) simp_all
  moreover have "elems ?ms \<subseteq> elems ?is" "elems ?is \<subseteq> elems ?ms \<union> set ?w" using moved_indices_between[OF ms(1)] by blast+
  ultimately show thesis using that walk_within[OF inv ne] span unfolding ms(2) by blast
qed

text \<open>
  C29. What key-value observing is told of a list is exactly what the change set says, and leads
  from the old list to the new one. If the list was only reordered, it is \<open>Set\<close>: the new list is
  a permutation of the old one, the indices are at least the assigned ones and those of the rows
  that were moved, at most those and the ones between the moved rows, and outside of these every
  element stays in its place. Otherwise only insertions are an \<open>Insert\<close> of exactly the inserted indices, only
  deletions a \<open>Remove\<close> of exactly the deleted ones, only assignments a \<open>Set\<close> of exactly those in
  an otherwise unchanged list; only more than one kind of change is \<open>SetAll\<close>.
\<close>

theorem kvo_list_change_right:
  assumes "tracks A B t" "crv_inv (modifications t)" "modifications_new t = []" "\<not> cs_empty t"
    "old_size = npos \<or> old_size = length A" "length A \<le> npos" "length B \<le> npos"
  shows "let D = elems (deletions t); I = elems (insertions t); M = elems (modifications t) - I;
      (kd, is) = list_change t old_size old in
    if reordered t then kd = Set_change \<and> mset B = mset A \<and>
      M \<union> D \<subseteq> elems is \<and> elems is \<subseteq> M \<union> {Min (D \<union> I) .. Max (D \<union> I)} \<and>
      (\<forall>i < length A. i \<in> {Min (D \<union> I) .. Max (D \<union> I)} \<or> A ! i = B ! i)
    else if I \<noteq> {} \<and> M = {} \<and> D = {} then kd = Insert_change \<and> elems is = I \<and> keep B I = A
    else if I = {} \<and> M = {} \<and> D \<noteq> {} then kd = Remove_change \<and> elems is = D \<and> keep A D = B
    else if I = {} \<and> M \<noteq> {} \<and> D = {} then kd = Set_change \<and> elems is = M \<and> A = B
    else kd = Set_all \<and> is = old"
proof (cases "reordered t")
  case True
  let ?D = "elems (deletions t)" and ?I = "elems (insertions t)"
  obtain js where j: "list_change t old_size old = (Set_change, js)" "elems (modifications t) - ?I \<union> ?D \<subseteq> elems js"
      "elems js \<subseteq> elems (modifications t) - ?I \<union> {Min (?D \<union> ?I) .. Max (?D \<union> ?I)}"
    using list_change_reordered[OF assms(1,2,6,7) True] by metis
  have c: "card ?D = length (moves t)" "card ?I = length (moves t)" using True by (simp_all add: reordered_def)
  note p = moves_permute[OF assms(1) c]
  have "A ! i = B ! i" if "i < length A" "i \<notin> {Min (?D \<union> ?I) .. Max (?D \<union> ?I)}" for i
  proof (rule outside_moves_same[OF assms(1) _ mset_eq_length[OF p] that(1)])
    have "Min (?D \<union> ?I) \<le> j \<and> j \<le> Max (?D \<union> ?I)" if "j \<in> ?D \<union> ?I" for j using that by (simp add: finite_elems)
    then show "(\<forall>j \<in> ?D \<union> ?I. i < j) \<or> (\<forall>j \<in> ?D \<union> ?I. j < i)" using that(2) by (meson atLeastAtMost_iff not_le order.strict_trans1 order.strict_trans2)
  qed (simp add: c)
  then show ?thesis using True j p by (auto simp: Let_def)
next
  case False
  have inv: "crv_inv (deletions t)" "crv_inv (insertions t)" and sub: "elems (deletions t) \<subseteq> {..< length A}"
    using tracks_inv[OF assms(1)] by simp_all
  note d = tracks_diff[OF assms(1)]
  let ?mods = "is_remove_set (modifications t) (insertions t)"
  have mods: "crv_inv ?mods" "elems ?mods = elems (modifications t) - elems (insertions t)"
    using remove_set_correct[OF assms(2) inv(2)] by simp_all
  have empty: "elems m = {} \<longleftrightarrow> crv_empty m" if "crv_inv m" for m using crv_inv_empty_iff[OF that] by (simp add: crv_empty_def)
  have moves: "moves t = []" if "crv_empty (insertions t) \<or> crv_empty (deletions t)"
    using tracks_link(1,2)[OF assms(1)] that empty[OF inv(1)] empty[OF inv(2)] by (cases "moves t") auto
  have size: "\<not> old_size < last_range_end (deletions t)" if "\<not> crv_empty (deletions t)"
    using last_range_end_le[OF inv(1) sub that] assms(5,6) by auto
  have ne: "\<not> (crv_empty (insertions t) \<and> crv_empty ?mods \<and> crv_empty (deletions t))"
    using assms(3,4) moves mods empty[OF mods(1)] empty[OF inv(2)] empty[OF assms(2)] by (auto simp: cs_empty_def crv_empty_def)
  note f = False[unfolded reordered_counts[OF assms(1,6,7)]]
  show ?thesis
    using d ne moves size False f empty[OF inv(1)] empty[OF inv(2)] empty[OF mods(1), unfolded mods(2)] mods(2)
    by (auto simp: list_change_def Let_def split: if_splits)
qed

lemma kvo_list_change_right_witness:
  "list_change (cb_insert 1 1 True empty_builder) npos [] = (Insert_change, insertions (cb_insert 1 1 True empty_builder)) \<and>
    keep [''a'', ''x'', ''b''] (elems (insertions (cb_insert 1 1 True empty_builder))) = [''a'', ''b'']"
proof -
  let ?t = "cb_insert 1 1 True empty_builder"
  have "list_history [''a'', ''b''] (take 1 [''a'', ''b''] @ [''x''] @ drop 1 [''a'', ''b'']) (cb_insert 1 (length [''x'']) True empty_builder)"
    by (intro list_history.inserted list_history.start) simp_all
  then have t: "tracks [''a'', ''b''] [''a'', ''x'', ''b''] ?t" using list_history_inv by fastforce
  have f: "deletions ?t = []" "moves ?t = []" "modifications_new ?t = []" "modifications ?t = is_shift_for_insert_at [] 1 1"
      "insertions ?t = is_insert_at [] 1 1"
    by (simp_all add: cb_insert_def empty_builder_def make_builder_def Let_def for_each_col_def)
  have i: "crv_inv (insertions ?t)" "elems (insertions ?t) = {1 ..< 1 + 1}"
    using ix.insert_at[of "[]" 1 1] f(5) by (auto simp: mem_open_gap)
  then have n: "insertions ?t \<noteq> []" using crv_inv_empty_iff[OF i(1)] by simp
  have m: "crv_inv (modifications ?t)" "elems (modifications ?t) = {}"
    using ix.make_room[of "[]" 1 1] f(4) by (auto simp: mem_open_gap)
  then have "modifications ?t = []" using crv_inv_empty_iff by blast
  moreover have "is_remove_set [] m = []" for m :: crv
    using remove_set_correct[of "[]" "[]"] by (cases "flat m") (auto simp: is_remove_set_def crv_begin_def crv_empty_def do_remove_def
        is_find_from_def crv_end_def Let_def)
  ultimately have l: "list_change ?t npos [] = (Insert_change, insertions ?t)"
    using f n by (simp add: list_change_def crv_empty_def)
  have e: "\<not> cs_empty ?t" using n by (simp add: cs_empty_def crv_empty_def)
  have p: "length [''a'', ''b''] \<le> npos" "length [''a'', ''x'', ''b''] \<le> npos" by (simp_all add: npos_def)
  have x: "\<not> reordered ?t" "elems (deletions ?t) = {}" using f by (simp_all add: reordered_def elems_def elems_of_def flat_def)
  from kvo_list_change_right[OF t m(1) f(3) e disjI1[OF refl] p, of "[]"] l show ?thesis unfolding l by (simp add: x i m Let_def del: One_nat_def)
qed

text \<open>
  With moves the reported indices can be too few: the items a, b, c, d become b, d, a, c by two
  moves to the front, and position 2, where a took the place of c, is not reported.
\<close>

definition two_moves :: change_builder where
  "two_moves = make_builder [] [] [] [\<lparr>move_from = 1, move_to = 0\<rparr>, \<lparr>move_from = 3, move_to = 1\<rparr>]"

lemma two_moves_sets:
  "deletions two_moves = [\<lparr>data = [(1, 2), (3, 4)], chunk_begin = 1, chunk_end = 4, chunk_count = 2\<rparr>]"
  "insertions two_moves = [\<lparr>data = [(0, 2)], chunk_begin = 0, chunk_end = 2, chunk_count = 2\<rparr>]"
  by code_simp+

lemma two_moves_start:
  "is_add_set (is_remove_set [] [\<lparr>data = [(0, 2)], chunk_begin = 0, chunk_end = 2, chunk_count = 2\<rparr>])
     [\<lparr>data = [(1, 2), (3, 4)], chunk_begin = 1, chunk_end = 4, chunk_count = 2\<rparr>] =
   [\<lparr>data = [(1, 2), (3, 4)], chunk_begin = 1, chunk_end = 4, chunk_count = 2\<rparr>]"
  by code_simp

lemma two_moves_range:
  "[min (fst (deref (insertions two_moves) (crv_begin (insertions two_moves))))
        (fst (deref (deletions two_moves) (crv_begin (deletions two_moves))))
      ..< max (last_range_end (insertions two_moves)) (last_range_end (deletions two_moves))] = [0, 1, 2, 3]"
  "flat (deletions two_moves) = [(1, 2), (3, 4)]" "flat (insertions two_moves) = [(0, 2)]"
  unfolding two_moves_sets by code_simp+

lemma two_moves_indices:
  "flat (moved_indices [0, 1, 2, 3] [(1, 2), (3, 4)] [(0, 2)] 0
     [\<lparr>data = [(1, 2), (3, 4)], chunk_begin = 1, chunk_end = 4, chunk_count = 2\<rparr>]) = [(0, 2), (3, 4)]"
  by code_simp

lemma moved_set_misses_index:
  "tracks ''abcd'' ''bdac'' two_moves \<and> fst (list_change two_moves npos []) = Set_change \<and>
    elems (snd (list_change two_moves npos [])) = {0, 1, 3}"
proof -
  have f: "deletions two_moves = is_add (is_add [] 1) 3" "insertions two_moves = is_add (is_add [] 0) 1"
    "map (\<lambda>m. (move_from m, move_to m)) (moves two_moves) = [(1, 0), (3, 1)]"
    "modifications two_moves = []" "m_move_mapping two_moves = []" "length (moves two_moves) = 2"
    by (simp_all add: make_builder_def two_moves_def)
  have inv: "crv_inv (deletions two_moves)" "crv_inv (insertions two_moves)" "elems (deletions two_moves) = {1, 3}"
      "elems (insertions two_moves) = {0, 1}"
    unfolding f using ix.add[of "[]" 1] ix.add[of "is_add [] 1" 3] ix.add[of "[]" 0] ix.add[of "is_add [] 0" 1] by auto
  have k: "keep ''abcd'' {1, 3} = ''ac''" "keep ''bdac'' {0, 1} = ''ac''"
    by (simp_all add: keep_def nths_Cons)
  have t: "tracks ''abcd'' ''bdac'' two_moves"
    unfolding tracks_def diff_ok_def links_ok_def links_def inv(3,4) k f(3,5) using inv by (auto simp: less_Suc_eq)
  have "{y \<in> {1, 3 :: nat}. y < npos} = {1, 3}" "{y \<in> {0, 1 :: nat}. y < npos} = {0, 1}" by (auto simp: npos_def)
  then have "is_count (deletions two_moves) 0 npos = length (moves two_moves)"
      "is_count (insertions two_moves) 0 npos = length (moves two_moves)"
    unfolding count_from_zero[OF inv(1)] count_from_zero[OF inv(2)] below_def inv(3,4) f(6) by simp_all
  moreover have "moves two_moves \<noteq> []" using f(6) by auto
  ultimately have l: "list_change two_moves npos [] = (Set_change, moved_indices
    [min (fst (deref (insertions two_moves) (crv_begin (insertions two_moves)))) (fst (deref (deletions two_moves) (crv_begin (deletions two_moves))))
      ..< max (last_range_end (insertions two_moves)) (last_range_end (deletions two_moves))]
    (flat (deletions two_moves)) (flat (insertions two_moves)) 0
    (is_add_set (is_remove_set (modifications two_moves) (insertions two_moves)) (deletions two_moves)))"
    by (intro list_change_moves)
  have "flat (snd (list_change two_moves npos [])) = [(0, 2), (3, 4)]"
    unfolding l snd_conv two_moves_range f(4) unfolding two_moves_sets two_moves_start by (rule two_moves_indices)
  then have "elems (snd (list_change two_moves npos [])) = {0, 1, 3}" by (auto simp: elems_def elems_of_def)
  with t show ?thesis by (simp add: l)
qed

end
