(* ===== verification/Incremental_Change.thy ===== *)
theory Incremental_Change
  imports Transact_Columns Notifier
begin

text \<open>
  \<open>IncrementalChangeInfo\<close> (\<open>impl/realm_coordinator.cpp\<close>): several notifiers that start at
  different versions are brought to one version in a single pass over the log. Each version gets
  its own change information, and at the end they are merged so that each notifier sees all
  changes since its own version.

  What the log holds between two versions is a parameter (\<open>log_between\<close>); the shared group is
  reduced to its version.
\<close>

subsection \<open>Advancing\<close>

type_synonym log_between = "nat \<Rightarrow> nat \<Rightarrow> instruction list"

record incremental =
  group_version :: nat
  m_info :: "transaction_info list"
  list_builders :: "nat \<Rightarrow> change_builder"

definition empty_info :: transaction_info where
  "empty_info = \<lparr>info_tables = [], schema_changed = False, table_modifications_needed = [], table_moves_needed = [],
     lists = [], column_indices = [], table_indices = [], track_all = False\<rparr>"

definition new_incremental :: "nat \<Rightarrow> bool \<Rightarrow> (nat \<Rightarrow> change_builder) \<Rightarrow> incremental" where
  "new_incremental v any_notifiers bs =
     \<lparr>group_version = v, m_info = (if any_notifiers then [empty_info] else []), list_builders = bs\<rparr>"

text \<open>\<open>transaction::advance\<close> with change information.\<close>

definition advance :: "log_between \<Rightarrow> nat \<Rightarrow> nat \<Rightarrow> transaction_info \<Rightarrow> (nat \<Rightarrow> change_builder) \<Rightarrow>
    log_error + transaction_info \<times> (nat \<Rightarrow> change_builder)" where
  "advance log from to ti bs =
     (if \<not> track_all ti \<and> table_modifications_needed ti = [] \<and> lists ti = [] then Inr (ti, bs)
      else map_sum id (\<lambda>s. (info s, builders s)) (read_log (log from to) (new_observer ti bs)))"

definition advance_incremental :: "log_between \<Rightarrow> nat \<Rightarrow> incremental \<Rightarrow> log_error + bool \<times> incremental" where
  "advance_incremental log version c =
     (if version = group_version c then Inr (False, c)
      else case advance log (group_version c) version (last (m_info c)) (list_builders c) of
          Inl e \<Rightarrow> Inl e
        | Inr (ti, bs) \<Rightarrow>
            Inr (True, \<lparr>group_version = version,
              m_info = butlast (m_info c) @ [ti\<lparr>lists := []\<rparr>,
                empty_info\<lparr>table_modifications_needed := table_modifications_needed ti,
                  table_moves_needed := table_moves_needed ti, lists := lists ti\<rparr>],
              list_builders = bs\<rparr>))"

subsection \<open>Merging\<close>

definition merge_tables :: "change_builder list \<Rightarrow> change_builder list \<Rightarrow> change_builder list" where
  "merge_tables prev cur =
     (if cur = [] then prev
      else if prev = [] then cur
      else map2 cb_merge prev cur @ drop (length cur) prev @ drop (length prev) cur)"

text \<open>The loop over the infos, from the last one to the first.\<close>

fun combine_infos :: "transaction_info list \<Rightarrow> transaction_info list" where
  "combine_infos (prev # cur # rest) =
     (let done = combine_infos (cur # rest)
      in prev\<lparr>info_tables := merge_tables (info_tables prev) (info_tables (hd done))\<rparr> # done)"
| "combine_infos infos = infos"

definition same_list :: "tracked_list \<Rightarrow> tracked_list \<Rightarrow> bool" where
  "same_list a b \<longleftrightarrow> list_table a = list_table b \<and> list_col a = list_col b \<and> list_row a = list_row b"

text \<open>The inner loop: \<open>j\<close> counts down from \<open>i\<close>.\<close>

primrec copy_back :: "tracked_list list \<Rightarrow> nat \<Rightarrow> nat \<Rightarrow> (nat \<Rightarrow> change_builder) \<Rightarrow> (nat \<Rightarrow> change_builder)" where
  "copy_back ls i 0 bs = bs"
| "copy_back ls i (Suc j) bs =
     copy_back ls i j
       (if same_list (ls ! i) (ls ! j)
        then bs(list_changes (ls ! j) := cb_merge (bs (list_changes (ls ! j))) (bs (list_changes (ls ! i)))) else bs)"

definition copy_list_changes :: "tracked_list list \<Rightarrow> (nat \<Rightarrow> change_builder) \<Rightarrow> (nat \<Rightarrow> change_builder)" where
  "copy_list_changes ls bs = fold (\<lambda>i. copy_back ls i i) [1 ..< length ls] bs"

definition advance_to_final :: "log_between \<Rightarrow> nat \<Rightarrow> incremental \<Rightarrow> log_error + incremental" where
  "advance_to_final log version c =
     (if m_info c = [] then map_sum id (\<lambda>_. c\<lparr>group_version := version\<rparr>) (validate_log (log (group_version c) version))
      else case advance log (group_version c) version (last (m_info c)) (list_builders c) of
          Inl e \<Rightarrow> Inl e
        | Inr (ti, bs) \<Rightarrow>
            Inr \<lparr>group_version = version, m_info = combine_infos (butlast (m_info c) @ [ti]),
                 list_builders = copy_list_changes (lists ti) bs\<rparr>)"

text \<open>\<open>CollectionNotifier::add_required_change_info\<close>, with the related tables of the notifier.\<close>

definition add_required_tables :: "nat list \<Rightarrow> transaction_info \<Rightarrow> transaction_info" where
  "add_required_tables related ti =
     (if related = [] then ti
      else
        let needed = table_modifications_needed ti; m = Max (set related);
            needed = (if length needed \<le> m then resize_with False (m + 1) needed else needed)
        in ti\<lparr>table_modifications_needed := fold (\<lambda>t bs. bs[t := True]) related needed\<rparr>)"

subsection \<open>The tables of all versions\<close>

text \<open>What an info holds for a table, and that the merge steps for it fit.\<close>

definition table_change :: "transaction_info \<Rightarrow> nat \<Rightarrow> change_builder" where
  "table_change ti t = (if t < length (info_tables ti) then info_tables ti ! t else fresh_builder)"

fun table_merges_fit :: "nat \<Rightarrow> transaction_info list \<Rightarrow> bool" where
  "table_merges_fit t (prev # cur # rest) =
     (table_merges_fit t (cur # rest) \<and>
      merge_fits (table_change prev t) (table_change (hd (combine_infos (cur # rest))) t))"
| "table_merges_fit t infos = True"

lemma fresh_tracks: "tracks A B fresh_builder \<longleftrightarrow> A = B"
proof
  assume "tracks A B fresh_builder"
  then show "A = B" using tracks_diff[of A B fresh_builder] by (simp add: fresh_builder_def make_builder_def elems_def flat_def elems_of_def)
next
  assume "A = B"
  then show "tracks A B fresh_builder"
    using empty_tracks[of A] by (simp add: fresh_builder_def empty_builder_def)
qed

lemma merge_tables_nth:
  "length (merge_tables ps cs) = max (length ps) (length cs)"
  "t < max (length ps) (length cs) \<Longrightarrow> merge_tables ps cs ! t =
     (if t < length ps \<and> t < length cs then cb_merge (ps ! t) (cs ! t) else if t < length ps then ps ! t else cs ! t)"
proof -
  let ?m = "min (length ps) (length cs)"
  show "length (merge_tables ps cs) = max (length ps) (length cs)"
    by (auto simp: merge_tables_def min_def max_def)
  assume t: "t < max (length ps) (length cs)"
  have "(map2 cb_merge ps cs @ drop (length cs) ps @ drop (length ps) cs) ! t =
      (if t < ?m then cb_merge (ps ! t) (cs ! t) else (drop (length cs) ps @ drop (length ps) cs) ! (t - ?m))"
    by (simp add: nth_append)
  moreover have "(drop (length cs) ps @ drop (length ps) cs) ! (t - ?m) = (if t < length ps then ps ! t else cs ! t)" if "\<not> t < ?m"
  proof (cases "length ps \<le> length cs")
    case True
    then show ?thesis using that by (simp add: min_def)
  next
    case False
    then show ?thesis using that t by (simp add: min_def)
  qed
  ultimately show "merge_tables ps cs ! t =
     (if t < length ps \<and> t < length cs then cb_merge (ps ! t) (cs ! t) else if t < length ps then ps ! t else cs ! t)"
    by (cases "cs = []"; cases "ps = []") (auto simp: merge_tables_def)
qed

lemma merge_tables_change:
  "table_change (prev\<lparr>info_tables := merge_tables (info_tables prev) (info_tables cur)\<rparr>) t =
     (if t < length (info_tables prev) \<and> t < length (info_tables cur) then cb_merge (table_change prev t) (table_change cur t)
      else if t < length (info_tables prev) then table_change prev t else table_change cur t)"
  by (cases "t < length (info_tables prev)"; cases "t < length (info_tables cur)")
    (simp_all add: table_change_def merge_tables_nth less_max_iff_disj)

text \<open>
  C23. After \<open>advance_to_final\<close> each version's change information describes the whole change of
  a table from that version to the final one: if each info tracked the table from its version
  to the next, without open entries in its move mapping, and all merges fit their chunks, then
  each merged info tracks it to the end.
\<close>

theorem combined_tables_track:
  assumes "length Rs = length infos" "k < length infos" "table_merges_fit t infos"
    "\<forall>i < length infos. tracks (Rs ! i) ((Rs @ [F]) ! Suc i) (table_change (infos ! i) t) \<and>
      m_move_mapping (table_change (infos ! i) t) = []"
  shows "tracks (Rs ! k) F (table_change (combine_infos infos ! k) t)"
proof -
  have "length (combine_infos infos) = length infos \<and> (\<forall>k < length infos. tracks (Rs ! k) F (table_change (combine_infos infos ! k) t) \<and>
      m_move_mapping (table_change (combine_infos infos ! k) t) = [])"
    using assms(1,3,4)
  proof (induction infos arbitrary: Rs rule: combine_infos.induct)
    case (1 prev cur rest)
    obtain R Q Qs where Rs: "Rs = R # Q # Qs" using "1.prems"(1) by (cases Rs; cases "tl Rs") auto
    let ?d = "combine_infos (cur # rest)"
    have "\<forall>i < length (cur # rest). tracks ((Q # Qs) ! i) (((Q # Qs) @ [F]) ! Suc i) (table_change ((cur # rest) ! i) t) \<and>
        m_move_mapping (table_change ((cur # rest) ! i) t) = []"
      using "1.prems"(3) unfolding Rs by (metis Suc_less_eq append_Cons length_Cons nth_Cons_Suc)
    from "1.IH"[OF _ _ this] "1.prems"(1,2) have IH: "length ?d = length (cur # rest)"
      "\<forall>k < length (cur # rest). tracks ((Q # Qs) ! k) F (table_change (?d ! k) t) \<and> m_move_mapping (table_change (?d ! k) t) = []"
      by (simp_all add: Rs)
    have d: "?d = hd ?d # tl ?d" using IH(1) by (cases ?d) auto
    then have h: "tracks Q F (table_change (hd ?d) t)" "m_move_mapping (table_change (hd ?d) t) = []"
      using IH(2) by (metis length_greater_0_conv list.discI nth_Cons_0)+
    have p: "tracks R Q (table_change prev t)" "m_move_mapping (table_change prev t) = []"
      using "1.prems"(3)[rule_format, of 0] by (simp_all add: Rs)
    let ?new = "prev\<lparr>info_tables := merge_tables (info_tables prev) (info_tables (hd ?d))\<rparr>"
    have "tracks R F (table_change ?new t) \<and> m_move_mapping (table_change ?new t) = []"
    proof (cases "t < length (info_tables prev)")
      case True
      show ?thesis
      proof (cases "t < length (info_tables (hd ?d))")
        case both: True
        have "merge_fits (table_change prev t) (table_change (hd ?d) t)" using "1.prems"(2) by simp
        with True both cb_merge_tracks[OF p h] merge_mapping[OF p h] show ?thesis by (simp only: merge_tables_change) simp
      next
        case False
        then have "Q = F" using h(1) by (simp add: table_change_def fresh_tracks)
        then show ?thesis using True False p by (simp only: merge_tables_change) simp
      qed
    next
      case False
      then have "R = Q" using p(1) by (simp add: table_change_def fresh_tracks)
      then show ?thesis using False h by (simp only: merge_tables_change) simp
    qed
    moreover have "combine_infos (prev # cur # rest) = ?new # ?d" by (simp add: Let_def)
    ultimately show ?case using IH by (auto simp: Rs nth_Cons split: nat.splits)
  qed (auto simp: length_Suc_conv)
  then show ?thesis using assms(2) by blast
qed

lemma combined_tables_track_witness:
  "let infos = [empty_info\<lparr>info_tables := [cb_erase 0 empty_builder]\<rparr>, empty_info\<lparr>info_tables := [cb_insert 1 1 True empty_builder]\<rparr>] in
    tracks [''a'', ''b''] [''b'', ''x''] (table_change (combine_infos infos ! 0) 0)"
proof -
  let ?e = "cb_erase 0 empty_builder" and ?i = "cb_insert 1 1 True empty_builder"
  let ?infos = "[empty_info\<lparr>info_tables := [?e]\<rparr>, empty_info\<lparr>info_tables := [?i]\<rparr>]"
  have "list_history [''a'', ''b''] (take 0 [''a'', ''b''] @ drop (Suc 0) [''a'', ''b'']) ?e"
    by (intro list_history.erased list_history.start) (simp_all add: npos_def)
  from list_history_inv[OF this] have e: "tracks [''a'', ''b''] [''b''] ?e" "m_move_mapping ?e = []" by simp_all
  have "list_history [''b''] (take 1 [''b''] @ [''x''] @ drop 1 [''b'']) (cb_insert 1 (length [''x'']) True empty_builder)"
    by (intro list_history.inserted list_history.start) simp_all
  from list_history_inv[OF this] have i: "tracks [''b''] [''b'', ''x''] ?i" "m_move_mapping ?i = []" by simp_all
  have c: "table_change (?infos ! 0) 0 = ?e" "table_change (?infos ! Suc 0) 0 = ?i" by (simp_all add: table_change_def)
  have "merge_fits ?e ?i"
    by (rule merge_fits_no_deletions) (simp add: cb_insert_def empty_builder_def make_builder_def Let_def for_each_col_def)
  then have f: "table_merges_fit 0 ?infos" by (simp add: table_change_def)
  have "\<forall>k < length ?infos. tracks ([[''a'', ''b''], [''b'']] ! k) (([[''a'', ''b''], [''b'']] @ [[''b'', ''x'']]) ! Suc k)
      (table_change (?infos ! k) 0) \<and> m_move_mapping (table_change (?infos ! k) 0) = []"
    using e i c by (simp add: less_Suc_eq del: One_nat_def)
  from combined_tables_track[OF _ _ f this, of 0] show ?thesis by (simp add: Let_def)
qed

subsection \<open>The lists of all versions\<close>

definition next_from :: "tracked_list list \<Rightarrow> nat \<Rightarrow> nat \<Rightarrow> nat option" where
  "next_from ls p m = find (\<lambda>q. same_list (ls ! p) (ls ! q)) [m ..< length ls]"

fun copies_fit :: "tracked_list list \<Rightarrow> nat list \<Rightarrow> (nat \<Rightarrow> change_builder) \<Rightarrow> bool" where
  "copies_fit ls [] bs = True"
| "copies_fit ls (i # is) bs =
     (list_all (\<lambda>p. same_list (ls ! i) (ls ! p) \<longrightarrow> merge_fits (bs (list_changes (ls ! p))) (bs (list_changes (ls ! i)))) [0 ..< i] \<and>
      copies_fit ls is (copy_back ls i i bs))"

lemma copy_back_at:
  assumes "distinct (map list_changes ls)" "i < length ls" "j \<le> i" "p < length ls"
  shows "copy_back ls i j bs (list_changes (ls ! p)) =
    (if p < j \<and> same_list (ls ! i) (ls ! p) then cb_merge (bs (list_changes (ls ! p))) (bs (list_changes (ls ! i)))
     else bs (list_changes (ls ! p)))"
  using assms(3)
proof (induction j arbitrary: bs)
  case (Suc j)
  have eq: "list_changes (ls ! a) = list_changes (ls ! b) \<longleftrightarrow> a = b" if "a < length ls" "b < length ls" for a b
    using assms(1) that nth_eq_iff_index_eq[of "map list_changes ls" a b] by simp
  then show ?case using Suc eq[OF assms(4), of j] eq[OF assms(2), of j] assms(2) by (auto simp: less_Suc_eq)
qed simp

lemma same_list_trans: "same_list a b \<Longrightarrow> same_list a c = same_list b c"
  by (auto simp: same_list_def)

lemma same_list_sym: "same_list a b = same_list b a"
  by (auto simp: same_list_def)

lemma next_from_step:
  "m < length ls \<Longrightarrow> next_from ls p m = (if same_list (ls ! p) (ls ! m) then Some m else next_from ls p (Suc m))"
  by (simp add: next_from_def upt_conv_Cons)

lemma next_from_same: "same_list (ls ! p) (ls ! q) \<Longrightarrow> next_from ls p m = next_from ls q m"
  using same_list_trans[of "ls ! p" "ls ! q"] by (simp add: next_from_def)

text \<open>
  C24. When several notifiers observe one list from different versions, each has an entry of its
  own, and the last entry gets the changes. If the entries of each list are in the order of their
  versions, each with the changes up to the version of the next, and all merges fit their chunks,
  then after the copying every entry has the changes from the version it was added at to the final
  one. (An erasure can break the order: \<open>erasure_swaps_versions\<close>.)
\<close>

theorem copied_lists_track:
  assumes "distinct (map list_changes ls)" "copies_fit ls [1 ..< length ls] bs"
    "\<forall>p < length ls. tracks (S p) (case next_from ls p (Suc p) of Some q \<Rightarrow> S q | None \<Rightarrow> F p) (bs (list_changes (ls ! p))) \<and>
      m_move_mapping (bs (list_changes (ls ! p))) = []"
    "\<forall>p < length ls. \<forall>q < length ls. same_list (ls ! p) (ls ! q) \<longrightarrow> F p = F q"
    "p < length ls"
  shows "tracks (S p) (F p) (copy_list_changes ls bs (list_changes (ls ! p)))"
proof -
  let ?to = "\<lambda>p m. case next_from ls p m of Some q \<Rightarrow> S q | None \<Rightarrow> F p"
  have "tracks (S p) (?to p (length ls)) (fold (\<lambda>i. copy_back ls i i) [n ..< length ls] bs (list_changes (ls ! p)))"
    if "n \<le> length ls" "p < length ls" "copies_fit ls [n ..< length ls] bs"
      "\<forall>p < length ls. tracks (S p) (?to p (max n (Suc p))) (bs (list_changes (ls ! p))) \<and> m_move_mapping (bs (list_changes (ls ! p))) = []"
    for n bs p
    using that
  proof (induction "length ls - n" arbitrary: n bs)
    case 0
    then show ?case using max_absorb1[of "Suc p" n] by simp
  next
    case (Suc d)
    then have n: "n < length ls" by simp
    let ?b = "copy_back ls n n bs"
    have u: "[n ..< length ls] = n # [Suc n ..< length ls]" using n by (rule upt_conv_Cons)
    have "tracks (S p) (?to p (max (Suc n) (Suc p))) (?b (list_changes (ls ! p))) \<and> m_move_mapping (?b (list_changes (ls ! p))) = []"
      if p: "p < length ls" for p
    proof (cases "p < n")
      case True
      have b: "tracks (S p) (?to p n) (bs (list_changes (ls ! p)))" "m_move_mapping (bs (list_changes (ls ! p))) = []"
        using Suc.prems(4)[rule_format, OF p] True by (simp_all add: max_absorb1)
      show ?thesis
      proof (cases "same_list (ls ! p) (ls ! n)")
        case same: True
        then have "tracks (S p) (S n) (bs (list_changes (ls ! p)))" using b(1) next_from_step[OF n, of p] by simp
        moreover have bn: "tracks (S n) (?to n (Suc n)) (bs (list_changes (ls ! n)))" "m_move_mapping (bs (list_changes (ls ! n))) = []"
          using Suc.prems(4)[rule_format, OF n] by simp_all
        moreover have "merge_fits (bs (list_changes (ls ! p))) (bs (list_changes (ls ! n)))"
          using Suc.prems(3) True same by (simp add: u list_all_iff same_list_sym)
        ultimately have "tracks (S p) (?to n (Suc n)) (cb_merge (bs (list_changes (ls ! p))) (bs (list_changes (ls ! n))))"
          "m_move_mapping (cb_merge (bs (list_changes (ls ! p))) (bs (list_changes (ls ! n)))) = []"
          using cb_merge_tracks merge_mapping b(2) by blast+
        moreover have "?to n (Suc n) = ?to p (Suc n)" using next_from_same[OF same, of "Suc n"] assms(4) p n same by (simp split: option.split)
        ultimately show ?thesis
          using copy_back_at[OF assms(1) n, of n p bs] p True same by (simp add: max_absorb1 same_list_sym)
      next
        case False
        then show ?thesis
          using b copy_back_at[OF assms(1) n, of n p bs] p True next_from_step[OF n, of p]
          by (simp add: max_absorb1 same_list_sym[of "ls ! n"])
      qed
    next
      case False
      then show ?thesis
        using Suc.prems(4)[rule_format, OF p] copy_back_at[OF assms(1) n, of n p bs] p by (simp add: max_absorb2)
    qed
    moreover have "copies_fit ls [Suc n ..< length ls] ?b" using Suc.prems(3) by (simp add: u)
    ultimately show ?case using Suc.hyps(1)[of "Suc n" ?b] Suc.hyps(2) Suc.prems(2) n by (simp add: u)
  qed
  from this[of 1 p bs] assms(2,3,5) show ?thesis by (simp add: copy_list_changes_def next_from_def max_absorb2)
qed

definition two_versions :: "tracked_list list" where
  "two_versions = [\<lparr>list_table = 0, list_row = 3, list_col = 1, list_changes = 1\<rparr>,
     \<lparr>list_table = 0, list_row = 3, list_col = 1, list_changes = 2\<rparr>]"

lemma copied_lists_track_witness:
  "tracks [''a'', ''b''] [''b'', ''x'']
     (copy_list_changes two_versions (\<lambda>a. if a = 1 then cb_erase 0 empty_builder else cb_insert 1 1 True empty_builder) 1)"
proof -
  let ?e = "cb_erase 0 empty_builder" and ?i = "cb_insert 1 1 True empty_builder"
  let ?bs = "\<lambda>a. if a = 1 then ?e else ?i"
  define S where "S p = (if p = 0 then [''a'', ''b''] else [''b''])" for p :: nat
  define F where "F p = [''b'', ''x'']" for p :: nat
  have "list_history [''a'', ''b''] (take 0 [''a'', ''b''] @ drop (Suc 0) [''a'', ''b'']) ?e"
    by (intro list_history.erased list_history.start) (simp_all add: npos_def)
  from list_history_inv[OF this] have e: "tracks [''a'', ''b''] [''b''] ?e" "m_move_mapping ?e = []" by simp_all
  have "list_history [''b''] (take 1 [''b''] @ [''x''] @ drop 1 [''b'']) (cb_insert 1 (length [''x'']) True empty_builder)"
    by (intro list_history.inserted list_history.start) simp_all
  from list_history_inv[OF this] have i: "tracks [''b''] [''b'', ''x''] ?i" "m_move_mapping ?i = []" by simp_all
  have ls: "length two_versions = 2" "list_changes (two_versions ! 0) = 1" "list_changes (two_versions ! 1) = 2"
    "distinct (map list_changes two_versions)" by (simp_all add: two_versions_def)
  have n: "next_from two_versions 0 (Suc 0) = Some 1" "next_from two_versions 1 (Suc 1) = None"
    by (simp_all add: two_versions_def next_from_def same_list_def)
  have "merge_fits ?e ?i"
    by (rule merge_fits_no_deletions) (simp add: cb_insert_def empty_builder_def make_builder_def Let_def for_each_col_def)
  then have f: "copies_fit two_versions [1 ..< length two_versions] ?bs" by (simp add: two_versions_def)
  have t: "tracks (S p) (case next_from two_versions p (Suc p) of Some q \<Rightarrow> S q | None \<Rightarrow> F p) (?bs (list_changes (two_versions ! p))) \<and>
      m_move_mapping (?bs (list_changes (two_versions ! p))) = []" if "p < length two_versions" for p
  proof -
    from that ls(1) consider "p = 0" | "p = 1" by (auto simp: less_Suc_eq numeral_2_eq_2)
    then show ?thesis
    proof cases
      case 1
      then show ?thesis unfolding 1 n ls(2) using e by (simp add: S_def)
    next
      case 2
      then show ?thesis unfolding 2 n ls(3) using i by (simp add: S_def F_def)
    qed
  qed
  have "tracks (S 0) (F 0) (copy_list_changes two_versions ?bs (list_changes (two_versions ! 0)))"
    by (rule copied_lists_track[OF ls(4) f]) (use t ls in \<open>simp_all add: F_def\<close>)
  then show ?thesis unfolding ls(2) by (simp add: S_def F_def)
qed

text \<open>
  The copying relies on the order of the entries, which \<open>erase_rows\<close> does not keep: after the
  erasure of an observed row the last entry, of the newest version, comes first, and further
  changes go to the entry of the older version.
\<close>

lemma erasure_swaps_versions:
  "map_sum id (\<lambda>s. find_list (lists (info s)) 0 1 3) (handle_all [Select_table 0 [], Erase_rows 0 5 True]
     (new_observer (tracking (\<lparr>list_table = 0, list_row = 0, list_col = 1, list_changes = 0\<rparr> # two_versions) [])
        (\<lambda>_. fresh_builder))) = Inr (Some 1)"
  by (simp add: tracking_def two_versions_def new_observer_def select_table_def needs_def erase_rows_def change_table_def
      set_lists_def erase_lists.simps Let_def find_list_def)

end
