(* ===== verification/Schema_Update.thy ===== *)
theory Schema_Update
  imports Schema
begin

text \<open>
  What changes of a schema each way of opening a file allows: the checks of
  \<open>object_store.cpp\<close> on the list of changes that \<open>Schema::compare\<close> returns, and their use in
  \<open>shared_realm.cpp\<close> when a schema is set or updated, or when the file was changed by another
  process. Schema versions are 64 bits wide; the largest stands for a file without a version.
\<close>

subsection \<open>Explanations\<close>

datatype difference =
    Class_added string
  | Class_removed string
  | Property_added string string
  | Property_removed string string
  | Property_changed string string string string
  | Property_made_optional string string
  | Property_made_required string string
  | Primary_key_changed string string string
  | Primary_key_added string
  | Primary_key_removed string
  | Property_made_indexed string string
  | Property_made_unindexed string string

fun explain :: "schema_change \<Rightarrow> difference list" where
  "explain (AddTable os) = [Class_added (name os)]"
| "explain (RemoveTable os) = []"
| "explain (AddInitialProperties os) = []"
| "explain (AddProperty os p) = [Property_added (name os) (prop_name p)]"
| "explain (RemoveProperty os p) = [Property_removed (name os) (prop_name p)]"
| "explain (ChangePropertyType os old_p new_p) =
     [Property_changed (name os) (prop_name new_p) (type_string old_p) (type_string new_p)]"
| "explain (MakePropertyNullable os p) = [Property_made_optional (name os) (prop_name p)]"
| "explain (MakePropertyRequired os p) = [Property_made_required (name os) (prop_name p)]"
| "explain (ChangePrimaryKey os (Some p)) =
     (if primary_key os \<noteq> [] then [Primary_key_changed (name os) (primary_key os) (prop_name p)]
      else [Primary_key_added (name os)])"
| "explain (ChangePrimaryKey os None) = [Primary_key_removed (name os)]"
| "explain (AddIndex os p) = [Property_made_indexed (name os) (prop_name p)]"
| "explain (RemoveIndex os p) = [Property_made_unindexed (name os) (prop_name p)]"

subsection \<open>Checks\<close>

datatype update_error =
    Schema_mismatch "difference list"
  | Invalid_schema_change "difference list"
  | Invalid_external_schema_change "difference list"
  | Invalid_schema_version "64 word" "64 word"
  | Reached_unreachable

definition verify_no_errors ::
  "(difference list \<Rightarrow> update_error) \<Rightarrow> (schema_change \<Rightarrow> difference list) \<Rightarrow> schema_change list \<Rightarrow>
     update_error + unit" where
  "verify_no_errors error verifier changes =
     (let errors = concat (map verifier changes) in if errors \<noteq> [] then Inl (error errors) else Inr ())"

fun change_needs_migration :: "schema_change \<Rightarrow> bool" where
  "change_needs_migration (AddIndex os p) = False"
| "change_needs_migration (AddInitialProperties os) = False"
| "change_needs_migration (AddProperty os p) = True"
| "change_needs_migration (AddTable os) = False"
| "change_needs_migration (RemoveTable os) = False"
| "change_needs_migration (ChangePrimaryKey os p) = True"
| "change_needs_migration (ChangePropertyType os old_p new_p) = True"
| "change_needs_migration (MakePropertyNullable os p) = True"
| "change_needs_migration (MakePropertyRequired os p) = True"
| "change_needs_migration (RemoveIndex os p) = False"
| "change_needs_migration (RemoveProperty os p) = True"

definition needs_migration :: "schema_change list \<Rightarrow> bool" where
  "needs_migration changes \<longleftrightarrow> list_ex change_needs_migration changes"

definition verify_no_changes_required :: "schema_change list \<Rightarrow> update_error + unit" where
  "verify_no_changes_required changes = verify_no_errors Schema_mismatch explain changes"

fun explain_migration :: "schema_change \<Rightarrow> difference list" where
  "explain_migration (AddTable os) = []"
| "explain_migration (AddInitialProperties os) = []"
| "explain_migration (AddIndex os p) = []"
| "explain_migration (RemoveIndex os p) = []"
| "explain_migration c = explain c"

definition verify_no_migration_required :: "schema_change list \<Rightarrow> update_error + unit" where
  "verify_no_migration_required changes = verify_no_errors Schema_mismatch explain_migration changes"

fun explain_not_additive :: "schema_change \<Rightarrow> difference list" where
  "explain_not_additive (AddTable os) = []"
| "explain_not_additive (AddInitialProperties os) = []"
| "explain_not_additive (AddProperty os p) = []"
| "explain_not_additive (RemoveProperty os p) = []"
| "explain_not_additive (AddIndex os p) = []"
| "explain_not_additive (RemoveIndex os p) = []"
| "explain_not_additive c = explain c"

fun is_index_change :: "schema_change \<Rightarrow> bool" where
  "is_index_change (AddIndex os p) = True"
| "is_index_change (RemoveIndex os p) = True"
| "is_index_change _ = False"

fun is_addition :: "schema_change \<Rightarrow> bool" where
  "is_addition (AddTable os) = True"
| "is_addition (AddInitialProperties os) = True"
| "is_addition (AddProperty os p) = True"
| "is_addition _ = False"

definition verify_valid_additive_changes :: "schema_change list \<Rightarrow> bool \<Rightarrow> update_error + bool" where
  "verify_valid_additive_changes changes update_indexes =
     (case verify_no_errors Invalid_schema_change explain_not_additive changes of
        Inl e \<Rightarrow> Inl e
      | Inr _ \<Rightarrow> Inr (list_ex is_addition changes \<or> list_ex is_index_change changes \<and> update_indexes))"

fun explain_external :: "schema_change \<Rightarrow> difference list" where
  "explain_external (AddTable os) = []"
| "explain_external (AddInitialProperties os) = []"
| "explain_external (AddProperty os p) = []"
| "explain_external (AddIndex os p) = []"
| "explain_external (RemoveIndex os p) = []"
| "explain_external (RemoveTable os) = [Class_removed (name os)]"
| "explain_external c = explain c"

definition verify_valid_external_changes :: "schema_change list \<Rightarrow> update_error + unit" where
  "verify_valid_external_changes changes = verify_no_errors Invalid_external_schema_change explain_external changes"

fun explain_readonly :: "schema_change \<Rightarrow> difference list" where
  "explain_readonly (AddTable os) = []"
| "explain_readonly (AddInitialProperties os) = []"
| "explain_readonly (RemoveProperty os p) = []"
| "explain_readonly (AddIndex os p) = []"
| "explain_readonly (RemoveIndex os p) = []"
| "explain_readonly c = explain c"

definition verify_compatible_for_immutable_and_readonly :: "schema_change list \<Rightarrow> update_error + unit" where
  "verify_compatible_for_immutable_and_readonly changes =
     verify_no_errors Invalid_schema_change explain_readonly changes"

subsection \<open>Setting and updating the schema of a Realm\<close>

datatype schema_mode = Automatic | Immutable | ReadOnlyAlternative | ResetFile | Additive | Manual

definition NotVersioned :: "64 word" where
  "NotVersioned = - 1"

text \<open>
  The answer of \<open>schema_change_needs_write_transaction\<close>; \<open>Reset_and_write\<close> is the answer
  \<open>true\<close> after a call of \<open>reset_file\<close>.
\<close>

datatype write_decision = No_write | Write | Reset_and_write

definition schema_change_needs_write_transaction ::
  "schema_mode \<Rightarrow> 64 word \<Rightarrow> schema_change list \<Rightarrow> 64 word \<Rightarrow> update_error + write_decision" where
  "schema_change_needs_write_transaction mode schema_version changes version =
     (let compatible = (case verify_compatible_for_immutable_and_readonly changes of
            Inl e \<Rightarrow> Inl e | Inr _ \<Rightarrow> Inr No_write) in
      if version = schema_version \<and> changes = [] then Inr No_write
      else case mode of
        Automatic \<Rightarrow>
          if version < schema_version \<and> schema_version \<noteq> NotVersioned
          then Inl (Invalid_schema_version schema_version version)
          else Inr Write
      | Immutable \<Rightarrow>
          if version \<noteq> schema_version then Inl (Invalid_schema_version schema_version version) else compatible
      | ReadOnlyAlternative \<Rightarrow> compatible
      | ResetFile \<Rightarrow>
          if schema_version = NotVersioned then Inr Write
          else if schema_version = version \<and> \<not> needs_migration changes then Inr Write
          else Inr Reset_and_write
      | Additive \<Rightarrow>
          (case verify_valid_additive_changes changes (schema_version < version) of
             Inl e \<Rightarrow> Inl e
           | Inr b \<Rightarrow> Inr (if b then Write else if version \<noteq> schema_version then Write else No_write))
      | Manual \<Rightarrow>
          if version < schema_version \<and> schema_version \<noteq> NotVersioned
          then Inl (Invalid_schema_version schema_version version)
          else if version = schema_version
          then (case verify_no_changes_required changes of Inl e \<Rightarrow> Inl e | Inr _ \<Rightarrow> Inl Reached_unreachable)
          else Inr Write)"

text \<open>The check of \<open>set_schema_subset\<close>, whose default for \<open>update_indexes\<close> is false.\<close>

definition check_schema_subset :: "schema_mode \<Rightarrow> schema_change list \<Rightarrow> update_error + unit" where
  "check_schema_subset mode changes =
     (case mode of
        Automatic \<Rightarrow> verify_no_migration_required changes
      | ResetFile \<Rightarrow> verify_no_migration_required changes
      | Immutable \<Rightarrow> verify_compatible_for_immutable_and_readonly changes
      | ReadOnlyAlternative \<Rightarrow> verify_compatible_for_immutable_and_readonly changes
      | Additive \<Rightarrow> map_sum id (\<lambda>_. ()) (verify_valid_additive_changes changes False)
      | Manual \<Rightarrow> verify_no_changes_required changes)"

definition set_schema_subset ::
  "(schema_change list \<Rightarrow> schema_change list) \<Rightarrow> schema_mode \<Rightarrow> schema \<Rightarrow> schema \<Rightarrow> update_error + schema" where
  "set_schema_subset order mode m_schema s =
     (case check_schema_subset mode (compare order m_schema s False) of
        Inl e \<Rightarrow> Inl e
      | Inr _ \<Rightarrow> Inr (copy_table_columns_from m_schema s))"

definition same_object :: "object_schema \<Rightarrow> object_schema \<Rightarrow> bool" where
  "same_object a b \<longleftrightarrow> name a = name b \<and> primary_key a = primary_key b \<and>
     list_all2 same_property (persisted_properties a) (persisted_properties b) \<and>
     list_all2 same_property (computed_properties a) (computed_properties b)"

definition same_schema :: "schema \<Rightarrow> schema \<Rightarrow> bool" where
  "same_schema a b \<longleftrightarrow> list_all2 same_object a b"

text \<open>The part of \<open>read_schema_from_group_if_needed\<close> that brings the schema of a Realm up to date.\<close>

definition adopt_group_schema ::
  "(schema_change list \<Rightarrow> schema_change list) \<Rightarrow> bool \<Rightarrow> schema \<Rightarrow> schema \<Rightarrow> update_error + schema" where
  "adopt_group_schema order dynamic_schema m_schema s =
     (if dynamic_schema
      then Inr (if same_schema m_schema s then copy_table_columns_from s m_schema else s)
      else case verify_valid_external_changes (compare order m_schema s False) of
          Inl e \<Rightarrow> Inl e
        | Inr _ \<Rightarrow> Inr (copy_table_columns_from s m_schema))"

end
