(* ===== verification/Schema_Update_Props.thy ===== *)
theory Schema_Update_Props
  imports Schema_Update Schema_Props
begin

text \<open>
  The checks on the changes of a schema, stated on the two schemas: which differences each mode
  lets pass. A type of the file and a type of the wanted schema belong together when their names
  are equal; the comparison finds these pairs in the two sorted lists.
\<close>

subsection \<open>Pairs of types\<close>

definition distinct_types :: "schema \<Rightarrow> bool" where
  "distinct_types s \<longleftrightarrow> names_sorted s \<and> distinct (map name s)"

definition name_key :: "object_schema \<Rightarrow> int list" where
  "name_key t = map unsigned_char (name t)"

lemma name_key_eq: "name_key a = name_key b \<longleftrightarrow> name a = name b"
  by (simp add: name_key_def map_inj_eq inj_unsigned)

lemma distinct_types_Cons:
  "distinct_types (x # xs) \<longleftrightarrow> distinct_types xs \<and> (\<forall>y \<in> set xs. name_key x < name_key y)"
proof -
  have "(name_key x \<le> name_key y \<and> name x \<noteq> name y) = (name_key x < name_key y)" for y
    by (simp add: order.strict_iff_order name_key_eq)
  then have "(\<forall>y \<in> set xs. name_key x \<le> name_key y) \<and> name x \<notin> name ` set xs \<longleftrightarrow>
      (\<forall>y \<in> set xs. name_key x < name_key y)"
    by blast
  then show ?thesis
    unfolding distinct_types_def names_sorted_def name_key_def [symmetric] by auto
qed

lemma zip_matching_pairs:
  "distinct_types a \<Longrightarrow> distinct_types b \<Longrightarrow>
   (Some x, Some y) \<in> set (zip_matching a b) \<longleftrightarrow> x \<in> set a \<and> y \<in> set b \<and> name x = name y"
proof (induction a b rule: zip_matching.induct)
  case (1 p xs q ys)
  have tails: "distinct_types xs" "distinct_types ys" using "1.prems" by (simp_all add: distinct_types_Cons)
  have above: "name_key p < name_key z" if "z \<in> set xs" for z
    using "1.prems"(1) that by (simp add: distinct_types_Cons)
  have above': "name_key q < name_key z" if "z \<in> set ys" for z
    using "1.prems"(2) that by (simp add: distinct_types_Cons)
  consider "name p = name q" | "name_key p < name_key q" | "name_key q < name_key p"
    using name_key_eq by (metis linorder_less_linear)
  then show ?case
  proof cases
    case 1
    then have "name z \<noteq> name q" if "z \<in> set xs" for z
      using above [OF that] by (simp flip: name_key_eq)
    moreover have "name z \<noteq> name q" if "z \<in> set ys" for z
      using above' [OF that] 1 by (simp flip: name_key_eq)
    ultimately show ?thesis
      using "1.IH"(1) [OF 1 tails] 1 by auto
  next
    case 2
    then have neq: "name p \<noteq> name q" and less: "string_less (name p) (name q)"
      by (auto simp: string_less_def name_key_def)
    have "name p \<noteq> name z" if "z \<in> set ys" for z
      using 2 above' [OF that] by (simp flip: name_key_eq)
    then show ?thesis
      using "1.IH"(2) [OF neq less tails(1) "1.prems"(2)] neq less by auto
  next
    case 3
    then have neq: "name p \<noteq> name q" and less: "\<not> string_less (name p) (name q)"
      by (auto simp: string_less_def name_key_def)
    have "name z \<noteq> name q" if "z \<in> set xs" for z
      using 3 above [OF that] by (simp flip: name_key_eq)
    then show ?thesis
      using "1.IH"(3) [OF neq less "1.prems"(1) tails(2)] neq less by auto
  qed
qed auto

lemma list_all_mset: "mset xs = mset ys \<Longrightarrow> list_all P xs \<longleftrightarrow> list_all P ys"
  by (drule mset_eq_setD) (simp add: list_all_iff)

lemma list_all_compare:
  assumes "orders_changes order"
  shows "list_all P (compare order s target b) \<longleftrightarrow>
    (\<forall>pair \<in> set (zip_matching target s). list_all P (table_changes b pair) \<and> list_all P (pair_changes pair))"
proof -
  have "mset (compare order s target b) =
      mset (concat (map (table_changes b) (zip_matching target s)) @ concat (map pair_changes (zip_matching target s)))"
    by (simp add: compare_def mset_column_changes [OF assms])
  then show ?thesis
    by (subst list_all_mset, assumption) (auto simp: list_all_iff)
qed

lemma list_all_compare_shared:
  assumes "orders_changes order" "distinct_types s" "distinct_types target"
    "\<And>os. P (AddTable os)" "\<And>os. P (RemoveTable os)" "\<And>os. P (AddInitialProperties os)"
  shows "list_all P (compare order s target b) \<longleftrightarrow>
    (\<forall>e \<in> set s. \<forall>t \<in> set target. name t = name e \<longrightarrow> list_all P (object_changes e t))"
proof -
  have tables: "list_all P (table_changes b pair)" for pair
    using assms(4-6) by (cases "(b, pair)" rule: table_changes.cases) auto
  have columns: "list_all P (pair_changes pair) \<longleftrightarrow>
      (\<forall>t e. pair = (Some t, Some e) \<longrightarrow> list_all P (object_changes e t))" for pair
    using assms(4-6) by (cases pair rule: pair_changes.cases) auto
  show ?thesis
    unfolding list_all_compare [OF assms(1)] using tables columns zip_matching_pairs [OF assms(3,2)] by fastforce
qed

subsection \<open>What the checks accept\<close>

lemma verify_no_errors_Inr: "verify_no_errors error v cs = Inr u \<longleftrightarrow> list_all (\<lambda>c. v c = []) cs"
  by (auto simp: verify_no_errors_def Let_def list_all_iff)

text \<open>A stored column serves a property that keeps its type, link target and optional flag.\<close>

definition column_serves :: "property \<Rightarrow> property \<Rightarrow> bool" where
  "column_serves current p \<longleftrightarrow> same_type (prop_type current) (prop_type p) \<and> object_type current = object_type p \<and>
     is_array (prop_type current) = is_array (prop_type p) \<and> is_nullable (prop_type current) = is_nullable (prop_type p)"

text \<open>The stored property of the wanted type with the name of \<open>current\<close>.\<close>

definition stored_counterpart :: "object_schema \<Rightarrow> property \<Rightarrow> property option" where
  "stored_counterpart t current =
     (case property_for_name (prop_name current) t of
        None \<Rightarrow> None | Some p \<Rightarrow> if property_is_computed p t then None else Some p)"

lemma property_changes_all:
  "list_all P (compare_property e t current) \<longleftrightarrow>
     (case stored_counterpart t current of
        None \<Rightarrow> P (RemoveProperty e current)
      | Some p \<Rightarrow> list_all P (compare_property e t current))"
  by (auto simp: stored_counterpart_def compare_property_def split: option.split)

definition keeps_columns :: "object_schema \<Rightarrow> object_schema \<Rightarrow> bool" where
  "keeps_columns e t \<longleftrightarrow> (\<forall>current \<in> set (persisted_properties e).
     case stored_counterpart t current of None \<Rightarrow> True | Some p \<Rightarrow> column_serves current p)"

definition all_columns_wanted :: "object_schema \<Rightarrow> object_schema \<Rightarrow> bool" where
  "all_columns_wanted e t \<longleftrightarrow> (\<forall>current \<in> set (persisted_properties e). stored_counterpart t current \<noteq> None)"

definition no_columns_missing :: "object_schema \<Rightarrow> object_schema \<Rightarrow> bool" where
  "no_columns_missing e t \<longleftrightarrow> (\<forall>p \<in> set (persisted_properties t). prop_name p \<in> set (internal_names e))"

lemma list_all_object_changes_split:
  "list_all P (object_changes e t) \<longleftrightarrow>
     (\<forall>current \<in> set (persisted_properties e). list_all P (compare_property e t current)) \<and>
     (primary_key e \<noteq> primary_key t \<longrightarrow> P (ChangePrimaryKey e (primary_key_property t))) \<and>
     (\<forall>p \<in> set (persisted_properties t). prop_name p \<notin> set (internal_names e) \<longrightarrow> P (AddProperty e p))"
  by (simp add: object_changes_def list_all_iff property_for_name_None) blast

lemma list_all_object_changes:
  assumes "\<And>e p. P (AddIndex e p)" "\<And>e p. P (RemoveIndex e p)"
    "\<And>e p q. \<not> P (ChangePropertyType e p q)" "\<And>e p. \<not> P (MakePropertyNullable e p)"
    "\<And>e p. \<not> P (MakePropertyRequired e p)" "\<And>e p. \<not> P (ChangePrimaryKey e p)"
    "\<And>e p. P (RemoveProperty e p) = removals" "\<And>e p. P (AddProperty e p) = additions"
  shows "list_all P (object_changes e t) \<longleftrightarrow> primary_key e = primary_key t \<and> keeps_columns e t \<and>
    (removals \<or> all_columns_wanted e t) \<and> (additions \<or> no_columns_missing e t)"
proof -
  have "list_all P (compare_property e t current) \<longleftrightarrow>
      (case stored_counterpart t current of None \<Rightarrow> removals | Some p \<Rightarrow> column_serves current p)" for current
    using assms by (auto simp: compare_property_def stored_counterpart_def column_serves_def split: option.split)
  then show ?thesis
    using assms(6-8)
    by (auto simp: list_all_object_changes_split keeps_columns_def all_columns_wanted_def no_columns_missing_def
        split: option.splits)
qed

lemma explain_empty: "explain c = [] \<longleftrightarrow> (\<exists>os. c = RemoveTable os \<or> c = AddInitialProperties os)"
  by (cases c rule: explain.cases) auto

text \<open>
  C19. Whether a migration is needed, on the schemas: exactly if some type of the file that the wanted
  schema has as well differs in its primary key, has a column that no stored property wants or that does
  not serve the property of its name, or lacks one. New types and indexes never need a migration.
\<close>

theorem needs_migration_iff:
  assumes "orders_changes order" "distinct_types s" "distinct_types target"
  shows "needs_migration (compare order s target b) \<longleftrightarrow>
    (\<exists>e \<in> set s. \<exists>t \<in> set target. name t = name e \<and>
       \<not> (primary_key e = primary_key t \<and> keeps_columns e t \<and> all_columns_wanted e t \<and> no_columns_missing e t))"
proof -
  have "\<not> needs_migration cs \<longleftrightarrow> list_all (\<lambda>c. \<not> change_needs_migration c) cs" for cs
    by (auto simp: needs_migration_def list_all_iff list_ex_iff)
  moreover have "list_all (\<lambda>c. \<not> change_needs_migration c) (compare order s target b) \<longleftrightarrow>
      (\<forall>e \<in> set s. \<forall>t \<in> set target. name t = name e \<longrightarrow> primary_key e = primary_key t \<and> keeps_columns e t \<and>
        (False \<or> all_columns_wanted e t) \<and> (False \<or> no_columns_missing e t))"
    by (subst list_all_compare_shared [OF assms]; (subst list_all_object_changes)?) auto
  ultimately show ?thesis by blast
qed


text \<open>
  C20. In the additive mode an update is rejected exactly if a type in both schemas changes its primary
  key or has a column that does not serve the property of its name; whatever the versions are, and
  whether or not columns are new or no longer wanted.
\<close>

theorem additive_update_iff:
  assumes "orders_changes order" "distinct_types s" "distinct_types target"
  shows "isl (schema_change_needs_write_transaction Additive schema_version (compare order s target False) version) \<longleftrightarrow>
    (\<exists>e \<in> set s. \<exists>t \<in> set target. name t = name e \<and> \<not> (primary_key e = primary_key t \<and> keeps_columns e t))"
proof -
  let ?cs = "compare order s target False"
  have "list_all (\<lambda>c. explain_not_additive c = []) ?cs \<longleftrightarrow>
      (\<forall>e \<in> set s. \<forall>t \<in> set target. name t = name e \<longrightarrow> primary_key e = primary_key t \<and> keeps_columns e t \<and>
        (True \<or> all_columns_wanted e t) \<and> (True \<or> no_columns_missing e t))"
    by (subst list_all_compare_shared [OF assms]; (subst list_all_object_changes)?) (auto simp: explain_empty)
  moreover have "isl (schema_change_needs_write_transaction Additive schema_version ?cs version) \<longleftrightarrow>
      \<not> list_all (\<lambda>c. explain_not_additive c = []) ?cs"
    unfolding schema_change_needs_write_transaction_def verify_valid_additive_changes_def verify_no_errors_def
    by (auto simp: Let_def list_all_iff)
  ultimately show ?thesis by blast
qed

lemma readonly_subset_iff:
  assumes "orders_changes order" "distinct_types s" "distinct_types target"
  shows "isl (set_schema_subset order ReadOnlyAlternative s target) \<longleftrightarrow>
    (\<exists>e \<in> set s. \<exists>t \<in> set target. name t = name e \<and>
       \<not> (primary_key e = primary_key t \<and> keeps_columns e t \<and> no_columns_missing e t))"
proof -
  let ?cs = "compare order s target False"
  have "list_all (\<lambda>c. explain_readonly c = []) ?cs \<longleftrightarrow>
      (\<forall>e \<in> set s. \<forall>t \<in> set target. name t = name e \<longrightarrow> primary_key e = primary_key t \<and> keeps_columns e t \<and>
        (True \<or> all_columns_wanted e t) \<and> (False \<or> no_columns_missing e t))"
    by (subst list_all_compare_shared [OF assms]; (subst list_all_object_changes)?) (auto simp: explain_empty)
  moreover have "isl (set_schema_subset order ReadOnlyAlternative s target) \<longleftrightarrow>
      \<not> list_all (\<lambda>c. explain_readonly c = []) ?cs"
    unfolding set_schema_subset_def check_schema_subset_def verify_compatible_for_immutable_and_readonly_def
      verify_no_errors_def
    by (auto simp: Let_def list_all_iff)
  ultimately show ?thesis by blast
qed

lemma object_changes_unexplained:
  assumes "list_all (\<lambda>c. explain c = []) (object_changes e t)"
  shows "object_changes e t = []"
proof -
  have property: "compare_property e t p = []" if "list_all (\<lambda>c. explain c = []) (compare_property e t p)" for p
    using that unfolding compare_property_def by (cases "property_for_name (prop_name p) t") (simp_all split: if_splits)
  have key: "explain (ChangePrimaryKey e p) \<noteq> []" for p
    by (simp add: explain_empty)
  show ?thesis
    using assms property key
    by (simp add: list_all_object_changes_split) (simp add: object_changes_def filter_empty_conv property_for_name_None)
qed

text \<open>
  C40. The statement marked unreachable after the check of the manual mode is not reached: for changes
  that come from a comparison, the check reports at least one whenever there is a change at all.
\<close>

theorem manual_mismatch_always_found:
  assumes "orders_changes order"
  shows "schema_change_needs_write_transaction mode schema_version (compare order s target False) version \<noteq>
    Inl Reached_unreachable"
proof -
  let ?cs = "compare order s target False"
  have "?cs = []" if quiet: "list_all (\<lambda>c. explain c = []) ?cs"
  proof -
    have "table_changes False pair = [] \<and> pair_changes pair = []" if pair: "pair \<in> set (zip_matching target s)" for pair
    proof -
      have all: "list_all (\<lambda>c. explain c = []) (table_changes False pair)" "list_all (\<lambda>c. explain c = []) (pair_changes pair)"
        using quiet pair by (simp_all add: list_all_compare [OF assms])
      show ?thesis
      proof (cases pair rule: pair_changes.cases)
        case (1 t e)
        then show ?thesis using all(2) object_changes_unexplained by simp
      next
        case (3 existing)
        then show ?thesis by (cases existing) simp_all
      qed (use all in simp_all)
    qed
    then have "list_all (\<lambda>c. False) ?cs"
      by (simp add: list_all_compare [OF assms])
    then show ?thesis by (cases ?cs) auto
  qed
  then show ?thesis
    unfolding schema_change_needs_write_transaction_def verify_no_changes_required_def verify_no_errors_def
      verify_compatible_for_immutable_and_readonly_def verify_valid_additive_changes_def
    by (auto simp: Let_def list_all_iff split: schema_mode.split)
qed


subsection \<open>Examples\<close>

definition older_schema :: schema where
  "older_schema = schema_of [object_schema_of ''dog'' [plain_property ''name'' PT_String] []]"

lemma example_types: "distinct_types older_schema" "distinct_types dog_schema"
proof -
  have "distinct (map name older_schema)" "distinct (map name dog_schema)" by code_simp+
  then show "distinct_types older_schema" "distinct_types dog_schema"
    by (simp_all add: distinct_types_def schema_of_sorted older_schema_def dog_schema_def)
qed

lemma needs_migration_iff_witness:
  "\<exists>e \<in> set older_schema. \<exists>t \<in> set dog_schema. name t = name e \<and>
     \<not> (primary_key e = primary_key t \<and> keeps_columns e t \<and> all_columns_wanted e t \<and> no_columns_missing e t)"
proof -
  have "needs_migration (compare stable_order older_schema dog_schema False)" by code_simp
  then show ?thesis by (simp only: needs_migration_iff [OF stable_order_ok example_types])
qed

lemma additive_update_iff_witness:
  "\<exists>e \<in> set older_schema. \<exists>t \<in> set dog_schema. name t = name e \<and> \<not> (primary_key e = primary_key t \<and> keeps_columns e t)"
proof -
  have "isl (schema_change_needs_write_transaction Additive 1 (compare stable_order older_schema dog_schema False) 2)"
    by code_simp
  then show ?thesis by (simp only: additive_update_iff [OF stable_order_ok example_types])
qed

lemma readonly_subset_iff_witness:
  "\<exists>e \<in> set older_schema. \<exists>t \<in> set dog_schema. name t = name e \<and>
     \<not> (primary_key e = primary_key t \<and> keeps_columns e t \<and> no_columns_missing e t)"
proof -
  have "isl (set_schema_subset stable_order ReadOnlyAlternative older_schema dog_schema)" by code_simp
  then show ?thesis by (simp only: readonly_subset_iff [OF stable_order_ok example_types])
qed

lemma manual_mismatch_always_found_witness:
  "schema_change_needs_write_transaction Manual 1 (compare stable_order older_schema dog_schema False) 1 \<noteq>
    Inl Reached_unreachable"
  by (rule manual_mismatch_always_found [OF stable_order_ok])

subsection \<open>Divergences\<close>

text \<open>
  Another process may have removed a type; the check for it is there, but the comparison is made
  without the removals of tables.
\<close>

lemma external_removal_unnoticed:
  "adopt_group_schema stable_order False older_schema [] = Inr older_schema"
  "verify_valid_external_changes (compare stable_order older_schema [] True) =
     Inl (Invalid_external_schema_change [Class_removed ''dog''])"
  by code_simp+

text \<open>An immutable file may have properties that the schema does not have.\<close>

lemma immutable_allows_extra_properties:
  "schema_change_needs_write_transaction Immutable 1
     (compare stable_order wide_schema [object_schema_of ''t'' [plain_property ''b'' PT_Int] []] False) 1 = Inr No_write"
  by code_simp

end
