(* ===== verification/Sync_File.thy ===== *)
theory Sync_File
  imports Main
begin

text \<open>
  Percent encoding of names, composition of paths, and \<open>SyncFileManager\<close>
  (\<open>sync/impl/sync_file.cpp\<close>, \<open>sync_file.hpp\<close>): where the files of a user's Realms are
  kept, and how they are removed, renamed and copied.

  The operations on files (\<open>realm::util::File\<close> and the directory functions of the core
  library) are a parameter: a record of operations on a file system of any type. An operation
  returns an error or a result and the file system it leaves; an error is an exception of the
  code, a failed assertion, or a read before the start of an empty string, whose result is not
  defined.
\<close>

subsection \<open>Percent encoding\<close>

datatype file_error =
    Access_error | Not_found | Other_error
  | Not_a_hex_digit | Encoding_cut_short | Reserved_character | Reserved_name
  | Assertion_failed | Undefined_read

definition value_of_hex_digit :: "char \<Rightarrow> file_error + nat" where
  "value_of_hex_digit c =
     (let n = of_char c :: nat in
      if 48 \<le> n \<and> n \<le> 57 then Inr (n - 48)
      else if 65 \<le> n \<and> n \<le> 70 then Inr (10 + n - 65)
      else if 97 \<le> n \<and> n \<le> 102 then Inr (10 + n - 97)
      else Inl Not_a_hex_digit)"

definition filename_is_reserved :: "string \<Rightarrow> bool" where
  "filename_is_reserved filename \<longleftrightarrow> filename = ''.'' \<or> filename = ''..''"

definition character_is_unreserved :: "char \<Rightarrow> bool" where
  "character_is_unreserved c \<longleftrightarrow>
     (let n = of_char c :: nat in 65 \<le> n \<and> n \<le> 90 \<or> 97 \<le> n \<and> n \<le> 122 \<or> 48 \<le> n \<and> n \<le> 57) \<or>
     c \<in> {CHR ''-'', CHR ''_'', CHR ''.''}"

definition decoded_char_for :: "string \<Rightarrow> nat \<Rightarrow> file_error + char" where
  "decoded_char_for percent_encoding index =
     (if index + 2 \<ge> length percent_encoding then Inl Encoding_cut_short
      else if percent_encoding ! index \<noteq> CHR ''%'' then Inl Assertion_failed
      else case value_of_hex_digit (percent_encoding ! (index + 1)) of
          Inl e \<Rightarrow> Inl e
        | Inr high \<Rightarrow>
            (case value_of_hex_digit (percent_encoding ! (index + 2)) of
               Inl e \<Rightarrow> Inl e
             | Inr low \<Rightarrow> Inr (char_of (16 * high + low))))"

text \<open>The conversion \<open>%2X\<close> of \<open>sprintf\<close>: upper case digits, padded on the left with a blank.\<close>

definition hex_digit :: "nat \<Rightarrow> char" where
  "hex_digit n = (if n < 10 then char_of (48 + n) else char_of (55 + n))"

definition format_2X :: "nat \<Rightarrow> string" where
  "format_2X n = (if n < 16 then [CHR '' '', hex_digit n] else [hex_digit (n div 16), hex_digit (n mod 16)])"

definition encode_char :: "char \<Rightarrow> string" where
  "encode_char c = (if character_is_unreserved c then [c] else CHR ''%'' # format_2X (of_char c))"

definition make_percent_encoded_string :: "string \<Rightarrow> string" where
  "make_percent_encoded_string raw = concat (map encode_char raw)"

function raw_string_from :: "string \<Rightarrow> nat \<Rightarrow> string \<Rightarrow> file_error + string" where
  "raw_string_from s index buffer =
     (if index < length s then
        if s ! index = CHR ''%'' then
          (case decoded_char_for s index of
             Inl e \<Rightarrow> Inl e
           | Inr c \<Rightarrow> raw_string_from s (index + 3) (buffer @ [c]))
        else if \<not> character_is_unreserved (s ! index) then Inl Reserved_character
        else raw_string_from s (index + 1) (buffer @ [s ! index])
      else Inr buffer)"
  by pat_completeness auto
termination by (relation "measure (\<lambda>(s, index, buffer). length s - index)") auto

declare raw_string_from.simps [simp del]

definition make_raw_string :: "string \<Rightarrow> file_error + string" where
  "make_raw_string s = raw_string_from s 0 []"

subsection \<open>Paths\<close>

datatype file_path_type = File | Directory

definition first_char :: "string \<Rightarrow> char" where
  "first_char s = (if s = [] then CHR 0x00 else hd s)"

text \<open>\<open>None\<close> stands for a read before the start of an empty string.\<close>

definition file_path_by_appending_component :: "string \<Rightarrow> string \<Rightarrow> file_path_type \<Rightarrow> string option" where
  "file_path_by_appending_component path component path_type =
     (if path = [] \<or> path_type = Directory \<and> component = [] then None
      else let terminal = (if path_type = Directory \<and> List.last component \<noteq> CHR ''/'' then ''/'' else []) in
        Some (if List.last path = CHR ''/'' \<and> first_char component = CHR ''/'' then path @ tl component @ terminal
              else if List.last path = CHR ''/'' \<or> first_char component = CHR ''/'' then path @ component @ terminal
              else path @ ''/'' @ component @ terminal))"

definition file_path_by_appending_extension :: "string \<Rightarrow> string \<Rightarrow> string option" where
  "file_path_by_appending_extension path extension =
     (if path = [] then None
      else Some (if List.last path = CHR ''.'' \<and> first_char extension = CHR ''.'' then path @ tl extension
                 else if List.last path = CHR ''.'' \<or> first_char extension = CHR ''.'' then path @ extension
                 else path @ ''.'' @ extension))"

subsection \<open>Operations on files\<close>

type_synonym ('a, 'fs) file_io = "'fs \<Rightarrow> (file_error + 'a) \<times> 'fs"

record 'fs file_ops =
  try_make_dir :: "string \<Rightarrow> (unit, 'fs) file_io"
  try_remove_dir_recursive :: "string \<Rightarrow> (unit, 'fs) file_io"
  try_remove :: "string \<Rightarrow> (bool, 'fs) file_io"
  move_file :: "string \<Rightarrow> string \<Rightarrow> (unit, 'fs) file_io"
  file_exists :: "string \<Rightarrow> (bool, 'fs) file_io"
  copy_file :: "string \<Rightarrow> string \<Rightarrow> (unit, 'fs) file_io"

definition give :: "'a \<Rightarrow> ('a, 'fs) file_io" where
  "give a fs = (Inr a, fs)"

definition fail :: "file_error \<Rightarrow> ('a, 'fs) file_io" where
  "fail e fs = (Inl e, fs)"

definition and_then :: "('a, 'fs) file_io \<Rightarrow> ('a \<Rightarrow> ('b, 'fs) file_io) \<Rightarrow> ('b, 'fs) file_io" where
  "and_then m f fs = (case m fs of (Inl e, fs') \<Rightarrow> (Inl e, fs') | (Inr a, fs') \<Rightarrow> f a fs')"

text \<open>A handler of the exceptions in \<open>caught\<close>, which makes \<open>a\<close> the result.\<close>

definition catch_errors :: "file_error list \<Rightarrow> 'a \<Rightarrow> ('a, 'fs) file_io \<Rightarrow> ('a, 'fs) file_io" where
  "catch_errors caught a m fs =
     (case m fs of (Inl e, fs') \<Rightarrow> (if e \<in> set caught then Inr a else Inl e, fs') | (Inr b, fs') \<Rightarrow> (Inr b, fs'))"

definition defined :: "'a option \<Rightarrow> ('a, 'fs) file_io" where
  "defined v = (case v of None \<Rightarrow> fail Undefined_read | Some a \<Rightarrow> give a)"

definition assert_that :: "bool \<Rightarrow> (unit, 'fs) file_io" where
  "assert_that b = (if b then give () else fail Assertion_failed)"

subsection \<open>\<open>SyncFileManager\<close>\<close>

definition c_sync_directory :: string where
  "c_sync_directory = ''realm-object-server''"

definition c_utility_directory :: string where
  "c_utility_directory = ''io.realm.object-server-utility''"

definition c_recovery_directory :: string where
  "c_recovery_directory = ''io.realm.object-server-recovered-realms''"

definition c_metadata_directory :: string where
  "c_metadata_directory = ''metadata''"

definition c_metadata_realm :: string where
  "c_metadata_realm = ''sync_metadata.realm''"

definition make_directory_in :: "'fs file_ops \<Rightarrow> string \<Rightarrow> string \<Rightarrow> (string, 'fs) file_io" where
  "make_directory_in ops dir component =
     and_then (defined (file_path_by_appending_component dir component Directory)) (\<lambda>p.
     and_then (try_make_dir ops p) (\<lambda>_. give p))"

definition get_base_sync_directory :: "'fs file_ops \<Rightarrow> string \<Rightarrow> (string, 'fs) file_io" where
  "get_base_sync_directory ops base = make_directory_in ops base c_sync_directory"

definition get_special_directory :: "'fs file_ops \<Rightarrow> string \<Rightarrow> string \<Rightarrow> (string, 'fs) file_io" where
  "get_special_directory ops base directory_name =
     and_then (get_base_sync_directory ops base) (\<lambda>dir. make_directory_in ops dir directory_name)"

definition recovery_directory_path :: "'fs file_ops \<Rightarrow> string \<Rightarrow> string option \<Rightarrow> (string, 'fs) file_io" where
  "recovery_directory_path ops base directory =
     get_special_directory ops base (case directory of None \<Rightarrow> c_recovery_directory | Some d \<Rightarrow> d)"

definition user_directory :: "'fs file_ops \<Rightarrow> string \<Rightarrow> string \<Rightarrow> (string, 'fs) file_io" where
  "user_directory ops base local_identity =
     and_then (assert_that (local_identity \<noteq> [])) (\<lambda>_.
       let escaped = make_percent_encoded_string local_identity in
       if filename_is_reserved escaped then fail Reserved_name
       else and_then (get_base_sync_directory ops base) (\<lambda>dir. make_directory_in ops dir escaped))"

definition remove_user_directory :: "'fs file_ops \<Rightarrow> string \<Rightarrow> string \<Rightarrow> (unit, 'fs) file_io" where
  "remove_user_directory ops base local_identity =
     and_then (assert_that (local_identity \<noteq> [])) (\<lambda>_.
       let escaped = make_percent_encoded_string local_identity in
       if filename_is_reserved escaped then fail Reserved_name
       else and_then (get_base_sync_directory ops base) (\<lambda>dir.
            and_then (defined (file_path_by_appending_component dir escaped Directory)) (\<lambda>user_path.
            try_remove_dir_recursive ops user_path)))"

definition try_rename_user_directory :: "'fs file_ops \<Rightarrow> string \<Rightarrow> string \<Rightarrow> string \<Rightarrow> (bool, 'fs) file_io" where
  "try_rename_user_directory ops base old_name new_name =
     (let old_escaped = make_percent_encoded_string old_name; new_escaped = make_percent_encoded_string new_name in
      and_then (get_base_sync_directory ops base) (\<lambda>dir.
      if filename_is_reserved old_escaped \<or> filename_is_reserved new_escaped then fail Reserved_name
      else and_then (defined (file_path_by_appending_component dir old_escaped Directory)) (\<lambda>old_path.
           and_then (defined (file_path_by_appending_component dir new_escaped Directory)) (\<lambda>new_path.
           catch_errors [Not_found] False (and_then (move_file ops old_path new_path) (\<lambda>_. give True))))))"

definition remove_realm_at :: "'fs file_ops \<Rightarrow> string \<Rightarrow> (bool, 'fs) file_io" where
  "remove_realm_at ops absolute_path =
     and_then (assert_that (absolute_path \<noteq> [])) (\<lambda>_.
     and_then (try_remove ops absolute_path) (\<lambda>_.
     and_then (defined (file_path_by_appending_extension absolute_path ''lock'')) (\<lambda>lock_path.
     and_then (try_remove ops lock_path) (\<lambda>success.
     and_then (defined (file_path_by_appending_extension absolute_path ''management'')) (\<lambda>management_path.
     catch_errors [Access_error] False
       (and_then (try_remove_dir_recursive ops management_path) (\<lambda>_. give success)))))))"

definition copy_realm_file :: "'fs file_ops \<Rightarrow> string \<Rightarrow> string \<Rightarrow> (bool, 'fs) file_io" where
  "copy_realm_file ops old_path new_path =
     and_then (assert_that (old_path \<noteq> [])) (\<lambda>_.
     catch_errors [Not_found, Access_error] False
       (and_then (file_exists ops new_path) (\<lambda>exists.
        if exists then give False else and_then (copy_file ops old_path new_path) (\<lambda>_. give True))))"

definition path_of :: "'fs file_ops \<Rightarrow> string \<Rightarrow> string \<Rightarrow> string \<Rightarrow> (string, 'fs) file_io" where
  "path_of ops base local_identity raw_realm_path =
     and_then (assert_that (local_identity \<noteq> [])) (\<lambda>_.
     and_then (assert_that (raw_realm_path \<noteq> [])) (\<lambda>_.
     if filename_is_reserved local_identity \<or> filename_is_reserved raw_realm_path then fail Reserved_name
     else let escaped = make_percent_encoded_string raw_realm_path in
       and_then (user_directory ops base local_identity) (\<lambda>dir.
       defined (file_path_by_appending_component dir escaped File))))"

definition remove_realm :: "'fs file_ops \<Rightarrow> string \<Rightarrow> string \<Rightarrow> string \<Rightarrow> (bool, 'fs) file_io" where
  "remove_realm ops base local_identity raw_realm_path =
     and_then (assert_that (local_identity \<noteq> [])) (\<lambda>_.
     and_then (assert_that (raw_realm_path \<noteq> [])) (\<lambda>_.
     if filename_is_reserved local_identity \<or> filename_is_reserved raw_realm_path then fail Reserved_name
     else let escaped = make_percent_encoded_string raw_realm_path in
       and_then (user_directory ops base local_identity) (\<lambda>dir.
       and_then (defined (file_path_by_appending_component dir escaped File)) (remove_realm_at ops))))"

definition metadata_directory :: "'fs file_ops \<Rightarrow> string \<Rightarrow> (string, 'fs) file_io" where
  "metadata_directory ops base =
     and_then (get_special_directory ops base c_utility_directory) (\<lambda>dir.
     defined (file_path_by_appending_component dir c_metadata_directory Directory))"

definition metadata_path :: "'fs file_ops \<Rightarrow> string \<Rightarrow> (string, 'fs) file_io" where
  "metadata_path ops base =
     and_then (metadata_directory ops base) (\<lambda>dir_path.
     and_then (try_make_dir ops dir_path) (\<lambda>_.
     defined (file_path_by_appending_component dir_path c_metadata_realm File)))"

definition remove_metadata_realm :: "'fs file_ops \<Rightarrow> string \<Rightarrow> (bool, 'fs) file_io" where
  "remove_metadata_realm ops base =
     and_then (metadata_directory ops base) (\<lambda>dir_path.
     catch_errors [Access_error] False
       (and_then (try_remove_dir_recursive ops dir_path) (\<lambda>_. give True)))"

end
