(* ===== verification/Sync_File_Props.thy ===== *)
theory Sync_File_Props
  imports Sync_File
begin

text \<open>
  What percent encoding and the paths of \<open>SyncFileManager\<close> promise: decoding inverts
  encoding on names without control characters, the encoding of a name is a single path
  component, and two Realms never share a file.
\<close>

subsection \<open>Characters\<close>

lemma of_char_hex_digit: "n < 16 \<Longrightarrow> (of_char (hex_digit n) :: nat) = (if n < 10 then 48 + n else 55 + n)"
  by (simp add: hex_digit_def)

lemma value_of_hex_digit_hex: "n < 16 \<Longrightarrow> value_of_hex_digit (hex_digit n) = Inr n"
  by (auto simp: value_of_hex_digit_def of_char_hex_digit Let_def)

lemma hex_digit_inj: "m < 16 \<Longrightarrow> n < 16 \<Longrightarrow> hex_digit m = hex_digit n \<longleftrightarrow> m = n"
  by (metis value_of_hex_digit_hex sum.inject(2))

lemma of_char_less: "(of_char c :: nat) < 256"
  using nat_of_char_less_256 by simp

lemma high_digit_less: "of_char c div (16 :: nat) < 16"
  using of_char_less [of c] less_mult_imp_div_less [of "of_char c :: nat" 16 16] by simp

lemma encode_char_cases:
  obtains "character_is_unreserved c" "encode_char c = [c]"
  | "\<not> character_is_unreserved c" "encode_char c = [CHR ''%'', CHR '' '', hex_digit (of_char c)]" "of_char c < (16 :: nat)"
  | "\<not> character_is_unreserved c" "16 \<le> (of_char c :: nat)"
    "encode_char c = [CHR ''%'', hex_digit (of_char c div 16), hex_digit (of_char c mod 16)]"
  by (cases "of_char c < (16 :: nat)"; cases "character_is_unreserved c") (auto simp: encode_char_def format_2X_def)

lemma unreserved_not_percent: "character_is_unreserved c \<Longrightarrow> c \<noteq> CHR ''%''"
  by (auto simp: character_is_unreserved_def Let_def)

lemma encode_char_not_empty: "encode_char c \<noteq> []"
  by (rule encode_char_cases [of c]) auto

subsection \<open>Decoding\<close>

lemma raw_string_from_percent:
  assumes "drop index s = CHR ''%'' # a # b # rest"
  shows "raw_string_from s index buffer =
    (case value_of_hex_digit a of Inl e \<Rightarrow> Inl e
     | Inr high \<Rightarrow> (case value_of_hex_digit b of Inl e \<Rightarrow> Inl e
       | Inr low \<Rightarrow> raw_string_from s (index + 3) (buffer @ [char_of (16 * high + low)])))"
proof -
  have len: "length s = index + (3 + length rest)"
    using arg_cong [OF assms, of length] by simp
  have nth: "s ! index = CHR ''%''" "s ! (index + 1) = a" "s ! (index + 2) = b"
    using arg_cong [OF assms, of "\<lambda>xs. xs ! 0"] arg_cong [OF assms, of "\<lambda>xs. xs ! 1"]
      arg_cong [OF assms, of "\<lambda>xs. xs ! 2"] len by simp_all
  show ?thesis
    unfolding raw_string_from.simps [of s index buffer] decoded_char_for_def
    using len nth by (simp split: sum.split)
qed

lemma raw_string_from_plain:
  assumes "drop index s = c # rest" "character_is_unreserved c"
  shows "raw_string_from s index buffer = raw_string_from s (index + 1) (buffer @ [c])"
proof -
  have "index < length s" "s ! index = c"
    using arg_cong [OF assms(1), of length] arg_cong [OF assms(1), of "\<lambda>xs. xs ! 0"]
    by (simp_all)
  then show ?thesis
    unfolding raw_string_from.simps [of s index buffer]
    using assms(2) unreserved_not_percent by auto
qed

lemma blank_not_hex: "value_of_hex_digit (CHR '' '') = Inl Not_a_hex_digit"
  by (simp add: value_of_hex_digit_def)

lemma raw_string_from_encoded:
  "drop index s = make_percent_encoded_string t \<Longrightarrow>
   raw_string_from s index buffer =
     (if \<forall>c\<in>set t. 16 \<le> (of_char c :: nat) then Inr (buffer @ t) else Inl Not_a_hex_digit)"
proof (induction t arbitrary: index buffer)
  case Nil
  then have "length s \<le> index" by (simp add: make_percent_encoded_string_def)
  then show ?case by (simp add: raw_string_from.simps)
next
  case (Cons c t)
  have enc: "drop index s = encode_char c @ make_percent_encoded_string t"
    using Cons.prems by (simp add: make_percent_encoded_string_def)
  then have rest: "drop (index + length (encode_char c)) s = make_percent_encoded_string t"
    by (metis drop_drop add.commute append_eq_conv_conj)
  note next_step = Cons.IH [OF rest]
  show ?case
  proof (rule encode_char_cases [of c])
    assume c: "character_is_unreserved c" "encode_char c = [c]"
    then have "16 \<le> (of_char c :: nat)" by (auto simp: character_is_unreserved_def Let_def)
    then show ?thesis
      using raw_string_from_plain [of index s c "make_percent_encoded_string t"] next_step enc c by simp
  next
    assume c: "encode_char c = [CHR ''%'', CHR '' '', hex_digit (of_char c)]" "of_char c < (16 :: nat)"
    then show ?thesis
      using raw_string_from_percent [of index s _ _ "make_percent_encoded_string t"] enc
      by (simp add: blank_not_hex)
  next
    assume c: "16 \<le> (of_char c :: nat)"
      "encode_char c = [CHR ''%'', hex_digit (of_char c div 16), hex_digit (of_char c mod 16)]"
    have digits: "value_of_hex_digit (hex_digit (of_char c div 16)) = Inr (of_char c div 16)"
      "value_of_hex_digit (hex_digit (of_char c mod 16)) = Inr (of_char c mod 16)"
      by (simp_all add: value_of_hex_digit_hex high_digit_less)
    have "drop index s = CHR ''%'' # hex_digit (of_char c div 16) # hex_digit (of_char c mod 16) #
        make_percent_encoded_string t"
      using enc c(2) by simp
    from raw_string_from_percent [OF this, of buffer]
    have "raw_string_from s index buffer = raw_string_from s (index + 3) (buffer @ [c])"
      unfolding digits by (simp add: mult_div_mod_eq del: One_nat_def)
    then show ?thesis using next_step [of "buffer @ [c]"] c by (simp add: numeral_3_eq_3)
  qed
qed

text \<open>
  C22. Decoding inverts encoding exactly for the names without a control character. A byte below 16
  is encoded with a blank in place of its first digit, and decoding such a name fails.
\<close>

theorem decode_inverts_encode:
  "make_raw_string (make_percent_encoded_string s) =
     (if list_all (\<lambda>c. 16 \<le> (of_char c :: nat)) s then Inr s else Inl Not_a_hex_digit)"
  unfolding make_raw_string_def by (simp add: raw_string_from_encoded [where t = s] list_all_iff)

subsection \<open>Injectivity\<close>

lemma length_format_2X: "length (format_2X n) = 2"
  by (simp add: format_2X_def)

lemma hex_digit_not_blank: "n < 16 \<Longrightarrow> hex_digit n \<noteq> CHR '' ''"
  by (metis blank_not_hex sum.distinct(1) value_of_hex_digit_hex)

lemma format_2X_inj:
  assumes "format_2X m = format_2X n" "m < 256" "n < 256"
  shows "m = n"
proof -
  have digits: "m div 16 < 16" "n div 16 < 16" "m mod 16 < 16" "n mod 16 < 16"
    using assms(2,3) by (simp_all add: less_mult_imp_div_less)
  show ?thesis
  proof (cases "m < 16"; cases "n < 16")
    assume "\<not> m < 16" "\<not> n < 16"
    then have "m div 16 = n div 16" "m mod 16 = n mod 16"
      using assms(1) digits by (simp_all add: format_2X_def hex_digit_inj)
    then show ?thesis by (metis div_mult_mod_eq)
  qed (use assms(1) digits hex_digit_not_blank in \<open>auto simp: format_2X_def hex_digit_inj\<close>)
qed

lemma encode_char_prefix:
  assumes "encode_char c @ xs = encode_char d @ ys"
  shows "c = d"
proof (cases "character_is_unreserved c"; cases "character_is_unreserved d")
  assume "\<not> character_is_unreserved c" "\<not> character_is_unreserved d"
  then have "format_2X (of_char c) = format_2X (of_char d)"
    using assms by (simp add: encode_char_def append_eq_append_conv length_format_2X)
  then have "(of_char c :: nat) = of_char d"
    using format_2X_inj of_char_less by metis
  then show ?thesis by simp
qed (use assms unreserved_not_percent in \<open>auto simp: encode_char_def\<close>)

lemma encode_inj: "make_percent_encoded_string s = make_percent_encoded_string t \<longleftrightarrow> s = t"
proof
  show "make_percent_encoded_string s = make_percent_encoded_string t \<Longrightarrow> s = t"
  proof (induction s arbitrary: t)
    case Nil
    then show ?case
      by (cases t) (auto simp: make_percent_encoded_string_def encode_char_not_empty)
  next
    case (Cons c s)
    then obtain d t' where t: "t = d # t'"
      by (cases t) (auto simp: make_percent_encoded_string_def encode_char_not_empty)
    with Cons.prems have eq: "encode_char c @ make_percent_encoded_string s = encode_char d @ make_percent_encoded_string t'"
      by (simp add: make_percent_encoded_string_def)
    then have "c = d" by (rule encode_char_prefix)
    with eq have "make_percent_encoded_string s = make_percent_encoded_string t'" by simp
    with \<open>c = d\<close> Cons.IH t show ?case by simp
  qed
qed simp

subsection \<open>Paths of Realms\<close>

lemma encoded_no_slash: "CHR ''/'' \<notin> set (make_percent_encoded_string s)"
proof -
  have "hex_digit n \<noteq> CHR ''/''" if "n < 16" for n
    using of_char_hex_digit [OF that] that by (auto split: if_splits)
  note digit = this [symmetric]
  have "CHR ''/'' \<notin> set (encode_char c)" for c
    by (rule encode_char_cases [of c])
      (use digit high_digit_less [of c] in \<open>auto simp: character_is_unreserved_def Let_def\<close>)
  then show ?thesis by (auto simp: make_percent_encoded_string_def)
qed

lemma encoded_empty: "make_percent_encoded_string s = [] \<longleftrightarrow> s = []"
  by (cases s) (simp_all add: make_percent_encoded_string_def encode_char_not_empty)

lemma encoded_reserved: "filename_is_reserved (make_percent_encoded_string s) \<longleftrightarrow> filename_is_reserved s"
proof -
  have dots: "make_percent_encoded_string ''.'' = ''.''" "make_percent_encoded_string ''..'' = ''..''"
    by (simp_all add: make_percent_encoded_string_def encode_char_def character_is_unreserved_def)
  show ?thesis
    unfolding filename_is_reserved_def using encode_inj dots by metis
qed

text \<open>The directory that holds the files of all users.\<close>

definition sync_directory :: "string \<Rightarrow> string" where
  "sync_directory base = base @ (if List.last base = CHR ''/'' then [] else ''/'') @ c_sync_directory @ ''/''"

lemma append_component:
  assumes "path \<noteq> []" "component \<noteq> []" "CHR ''/'' \<notin> set component"
  shows "file_path_by_appending_component path component t =
    Some (path @ (if List.last path = CHR ''/'' then [] else ''/'') @ component @ (if t = Directory then ''/'' else []))"
proof -
  have "List.last component \<noteq> CHR ''/''" "hd component \<noteq> CHR ''/''"
    using assms(2,3) by (metis last_in_set, metis list.set_sel(1))
  then show ?thesis
    using assms by (simp add: file_path_by_appending_component_def first_char_def Let_def)
qed

lemma and_then_Inr: "fst (and_then m f fs) = Inr b \<longleftrightarrow> (\<exists>a. fst (m fs) = Inr a \<and> fst (f a (snd (m fs))) = Inr b)"
  by (auto simp: and_then_def split: prod.split sum.split)

lemma assert_that_Inr: "fst (assert_that b fs) = Inr u \<longleftrightarrow> b"
  by (simp add: assert_that_def give_def fail_def)

lemma give_Inr: "fst (give a fs) = Inr b \<longleftrightarrow> b = a"
  by (auto simp: give_def)

lemma fail_Inr: "fst (fail e fs) \<noteq> Inr b"
  by (simp add: fail_def)

lemma defined_Inr: "fst (defined v fs) = Inr a \<longleftrightarrow> v = Some a"
  by (cases v) (auto simp: defined_def give_def fail_def)

lemmas io_Inr = and_then_Inr assert_that_Inr give_Inr fail_Inr defined_Inr

lemma base_directory:
  assumes "fst (get_base_sync_directory ops base fs) = Inr dir"
  shows "dir = sync_directory base" "base \<noteq> []"
proof -
  have some: "file_path_by_appending_component base c_sync_directory Directory = Some dir"
    using assms by (auto simp: get_base_sync_directory_def make_directory_in_def io_Inr)
  then show "base \<noteq> []" by (auto simp: file_path_by_appending_component_def)
  then show "dir = sync_directory base"
    using some append_component [of base c_sync_directory Directory]
    by (simp add: sync_directory_def c_sync_directory_def)
qed

lemma sync_directory_slash [simp]: "sync_directory base \<noteq> []" "List.last (sync_directory base) = CHR ''/''"
  by (simp_all add: sync_directory_def)

lemma user_directory_path:
  assumes "fst (user_directory ops base u fs) = Inr dir"
  shows "dir = sync_directory base @ make_percent_encoded_string u @ ''/'' \<and> u \<noteq> [] \<and> \<not> filename_is_reserved u"
proof -
  obtain d fs1 where base: "fst (get_base_sync_directory ops base fs1) = Inr d" and u: "u \<noteq> []" "\<not> filename_is_reserved u"
    and dir: "file_path_by_appending_component d (make_percent_encoded_string u) Directory = Some dir"
    using assms by (auto simp: user_directory_def make_directory_in_def io_Inr Let_def encoded_reserved split: if_splits)
  then show ?thesis
    using base_directory [OF base] append_component [of d "make_percent_encoded_string u" Directory] encoded_no_slash
    by (simp add: encoded_empty)
qed

lemma realm_path_eq:
  assumes "fst (path_of ops base u r fs) = Inr p"
  shows "p = sync_directory base @ make_percent_encoded_string u @ ''/'' @ make_percent_encoded_string r"
    and "u \<noteq> []" "r \<noteq> []" "\<not> filename_is_reserved u" "\<not> filename_is_reserved r"
proof -
  obtain d fs1 where dir: "fst (user_directory ops base u fs1) = Inr d"
    and r: "r \<noteq> []" "\<not> filename_is_reserved r"
    and p: "file_path_by_appending_component d (make_percent_encoded_string r) File = Some p"
    using assms by (auto simp: path_of_def io_Inr Let_def split: if_splits)
  show "p = sync_directory base @ make_percent_encoded_string u @ ''/'' @ make_percent_encoded_string r"
    using user_directory_path [OF dir] append_component [of d "make_percent_encoded_string r" File] p r encoded_no_slash
    by (simp add: encoded_empty)
  show "u \<noteq> []" "\<not> filename_is_reserved u" using user_directory_path [OF dir] by simp_all
  show "r \<noteq> []" "\<not> filename_is_reserved r" by fact+
qed

text \<open>A name that a file system takes for one entry of a directory.\<close>

definition single_entry :: "string \<Rightarrow> bool" where
  "single_entry x \<longleftrightarrow> x \<noteq> [] \<and> \<not> filename_is_reserved x \<and> CHR ''/'' \<notin> set x"

lemma single_entry_encoded: "u \<noteq> [] \<Longrightarrow> \<not> filename_is_reserved u \<Longrightarrow> single_entry (make_percent_encoded_string u)"
  by (simp add: single_entry_def encoded_empty encoded_reserved encoded_no_slash)

lemma realm_path_two_below_base:
  assumes "fst (path_of ops base u r fs) = Inr p"
  shows "\<exists>user realm. p = sync_directory base @ user @ ''/'' @ realm \<and> single_entry user \<and> single_entry realm"
  using realm_path_eq [OF assms] single_entry_encoded by blast

lemma split_at_slash:
  assumes "x @ ''/'' @ y = x' @ ''/'' @ y'" "CHR ''/'' \<notin> set x" "CHR ''/'' \<notin> set x'"
  shows "x = x' \<and> y = y'"
proof -
  have take_it: "takeWhile (\<lambda>c. c \<noteq> CHR ''/'') (z @ ''/'' @ w) = z" if "CHR ''/'' \<notin> set z" for z w
    using that by (induction z) auto
  have "x = x'"
    using arg_cong [OF assms(1), of "takeWhile (\<lambda>c. c \<noteq> CHR ''/'')"]
    unfolding take_it [OF assms(2)] take_it [OF assms(3)] .
  then show ?thesis using assms(1) by simp
qed

text \<open>
  C21. Two Realms have the same file only if they are the same Realm of the same user, whatever
  characters the identity of the user and the path of the Realm have, slashes included.
\<close>

theorem realm_paths_distinct:
  assumes "fst (path_of ops base u r fs) = Inr p" "fst (path_of ops base u' r' fs') = Inr p'"
  shows "p = p' \<longleftrightarrow> u = u' \<and> r = r'"
proof
  assume "p = p'"
  then have "make_percent_encoded_string u @ ''/'' @ make_percent_encoded_string r =
      make_percent_encoded_string u' @ ''/'' @ make_percent_encoded_string r'"
    using realm_path_eq(1) [OF assms(1)] realm_path_eq(1) [OF assms(2)] by simp
  then show "u = u' \<and> r = r'"
    using split_at_slash encoded_no_slash encode_inj by metis
qed (use realm_path_eq(1) [OF assms(1)] realm_path_eq(1) [OF assms(2)] in simp)

subsection \<open>A file system of names\<close>

definition below :: "string \<Rightarrow> string \<Rightarrow> bool" where
  "below dir p \<longleftrightarrow> take (length dir) p = dir"

definition listed_files :: "string list file_ops" where
  "listed_files = \<lparr>
     try_make_dir = (\<lambda>p fs. (Inr (), List.insert p fs)),
     try_remove_dir_recursive = (\<lambda>p fs. (Inr (), filter (\<lambda>q. \<not> below p q) fs)),
     try_remove = (\<lambda>p fs. (Inr (p \<in> set fs), removeAll p fs)),
     move_file = (\<lambda>p q fs. if p \<in> set fs then (Inr (), List.insert q (removeAll p fs)) else (Inl Not_found, fs)),
     file_exists = (\<lambda>p fs. (Inr (p \<in> set fs), fs)),
     copy_file = (\<lambda>p q fs. if p \<in> set fs then (Inr (), List.insert q fs) else (Inl Not_found, fs))\<rparr>"

lemma path_example: "fst (path_of listed_files ''/r'' ''a/b'' ''c'' []) = Inr ''/r/realm-object-server/a%2Fb/c''"
  by code_simp

lemma path_example_2: "fst (path_of listed_files ''/r'' ''a'' ''b/c'' []) = Inr ''/r/realm-object-server/a/b%2Fc''"
  by code_simp

lemma realm_path_two_below_base_witness:
  "\<exists>user realm. ''/r/realm-object-server/a%2Fb/c'' = sync_directory ''/r'' @ user @ ''/'' @ realm \<and>
     single_entry user \<and> single_entry realm"
  by (rule realm_path_two_below_base [OF path_example])

lemma realm_paths_distinct_witness:
  "''/r/realm-object-server/a%2Fb/c'' = ''/r/realm-object-server/a/b%2Fc'' \<longleftrightarrow> ''a/b'' = ''a'' \<and> ''c'' = ''b/c''"
  by (rule realm_paths_distinct [OF path_example path_example_2])

subsection \<open>Divergences\<close>

lemma remove_realm_reports_lock_file:
  "remove_realm_at listed_files ''/r'' [''/r''] = (Inr False, [])"
  "remove_realm_at listed_files ''/r'' [''/r.lock''] = (Inr True, [])"
  by (simp_all add: remove_realm_at_def listed_files_def and_then_def assert_that_def defined_def give_def fail_def
      catch_errors_def file_path_by_appending_extension_def first_char_def below_def)

lemma user_may_own_metadata:
  assumes "fst (path_of ops base c_utility_directory c_metadata_directory fs) = Inr p"
    "fst (metadata_directory ops base fs') = Inr d"
  shows "d = p @ ''/''"
proof -
  obtain b s fs1 where base: "fst (get_base_sync_directory ops base fs1) = Inr b"
    and s: "file_path_by_appending_component b c_utility_directory Directory = Some s"
    and d: "file_path_by_appending_component s c_metadata_directory Directory = Some d"
    using assms(2) by (auto simp: metadata_directory_def get_special_directory_def make_directory_in_def io_Inr)
  have enc: "make_percent_encoded_string c_utility_directory = c_utility_directory"
    "make_percent_encoded_string c_metadata_directory = c_metadata_directory"
    by (simp_all add: c_utility_directory_def c_metadata_directory_def make_percent_encoded_string_def
        encode_char_def character_is_unreserved_def)
  have names: "c_utility_directory \<noteq> []" "c_metadata_directory \<noteq> []"
    by (simp_all add: c_utility_directory_def c_metadata_directory_def)
  show ?thesis
    using realm_path_eq(1) [OF assms(1)] base_directory [OF base] s d names
      append_component [of b c_utility_directory Directory] append_component [of s c_metadata_directory Directory]
      encoded_no_slash [of c_utility_directory] encoded_no_slash [of c_metadata_directory]
    by (simp add: enc)
qed

end
