(* ===== verification/Object_Store.thy ===== *)
theory Object_Store
  imports Schema_Update "HOL-Library.Word"
begin

text \<open>
  \<open>object_store.cpp\<close>: how a schema is read from the tables of a group and how the changes of a
  schema are applied to them, and the part of \<open>object_schema.cpp\<close> that reads one type.

  The group is a value of any type. What the code calls on it is a record of operations, a
  parameter of all definitions: the names of the tables, their columns, the calls that add, remove
  and rename columns and search indexes, the rows of the table \<open>pk\<close> and the version in the table
  \<open>metadata\<close>. Values of rows occur only where the code depends on them, in the copy of a column and in
  the test for duplicates. No column has the type \<open>type_OldDateTime\<close> of old files, which the code treats
  as unreachable. A failed assertion or a call on a table that is not there is an error.

  The engine refuses some calls, as its headers say: names of more than 63 bytes for a table or a
  column, a primary key that is neither an integer nor a string, taking the index from the primary
  key of a table, removing a table that a column of another table links to. These are errors as well. Which
  columns are primary keys to the engine is the parameter \<open>index_locked\<close>.
\<close>

subsection \<open>Columns\<close>

datatype data_type =
    type_Int | type_Bool | type_String | type_Binary | type_Timestamp | type_Float | type_Double | type_Mixed
  | type_Link string
  | type_LinkList string
  | type_Table "(string \<times> data_type \<times> bool) list"

record column =
  col_name :: string
  col_type :: data_type
  col_nullable :: bool
  col_indexed :: bool

record 'g group_ops =
  table_names :: "'g \<Rightarrow> string list"
  columns_of :: "'g \<Rightarrow> string \<Rightarrow> column list"
  insert_column_op :: "string \<Rightarrow> nat \<Rightarrow> column \<Rightarrow> 'g \<Rightarrow> 'g"
  remove_column_op :: "string \<Rightarrow> nat \<Rightarrow> 'g \<Rightarrow> 'g"
  rename_column_op :: "string \<Rightarrow> nat \<Rightarrow> string \<Rightarrow> 'g \<Rightarrow> 'g"
  search_index_op :: "string \<Rightarrow> nat \<Rightarrow> bool \<Rightarrow> 'g \<Rightarrow> 'g"
  copy_column_op :: "string \<Rightarrow> nat \<Rightarrow> nat \<Rightarrow> 'g \<Rightarrow> 'g"
  sync_create_table :: "string \<Rightarrow> 'g \<Rightarrow> 'g"
  sync_create_table_with_primary_key :: "string \<Rightarrow> data_type \<Rightarrow> string \<Rightarrow> bool \<Rightarrow> 'g \<Rightarrow> 'g"
  remove_table_op :: "string \<Rightarrow> 'g \<Rightarrow> 'g"
  has_object_ids :: "'g \<Rightarrow> bool"
  pk_rows :: "'g \<Rightarrow> (string \<times> string) list option"
  set_pk_rows :: "(string \<times> string) list \<Rightarrow> 'g \<Rightarrow> 'g"
  stored_version :: "'g \<Rightarrow> 64 word option"
  store_version :: "64 word \<Rightarrow> 'g \<Rightarrow> 'g"
  distinct_values :: "'g \<Rightarrow> string \<Rightarrow> nat \<Rightarrow> bool"
  table_is_empty :: "'g \<Rightarrow> string \<Rightarrow> bool"
  index_locked :: "'g \<Rightarrow> string \<Rightarrow> nat \<Rightarrow> bool"
  default_permissions :: "schema_change list \<Rightarrow> string \<Rightarrow> 'g \<Rightarrow> 'g"

definition object_id_column_name :: string where
  "object_id_column_name = ''!OID''"

definition ArrayColumnName :: string where
  "ArrayColumnName = ''!ARRAY_VALUE''"

definition c_object_table_prefix :: string where
  "c_object_table_prefix = ''class_''"

definition max_column_name_length :: nat where
  "max_column_name_length = 63"

definition max_table_name_length :: nat where
  "max_table_name_length = 63"

subsection \<open>Errors\<close>

datatype engine_error =
    Table_name_too_long | Column_name_too_long | Illegal_key_type | Index_of_primary_key | Cross_table_link_target

datatype store_error =
    Failed_assertion
  | Engine_error engine_error
  | Duplicate_primary_key string string
  | Schema_differs "difference list"
  | Renamed_property_missing string string
  | Rename_without_table string
  | Rename_of_removed_type string
  | Rename_source_exists string string string
  | Rename_source_missing string string
  | Rename_changes_type string string string string string
  | Rename_makes_required string string string

definition bind_result :: "'e + 'a \<Rightarrow> ('a \<Rightarrow> 'e + 'b) \<Rightarrow> 'e + 'b" where
  "bind_result r f = (case r of Inl e \<Rightarrow> Inl e | Inr a \<Rightarrow> f a)"

text \<open>A loop whose body may throw.\<close>

primrec run_all :: "('a \<Rightarrow> 'g \<Rightarrow> 'e + 'g) \<Rightarrow> 'a list \<Rightarrow> 'g \<Rightarrow> 'e + 'g" where
  "run_all f [] g = Inr g"
| "run_all f (x # xs) g = bind_result (f x g) (run_all f xs)"

subsection \<open>Names of tables\<close>

definition object_type_for_table_name :: "string \<Rightarrow> string" where
  "object_type_for_table_name n =
     (if take (length c_object_table_prefix) n = c_object_table_prefix then drop (length c_object_table_prefix) n
      else [])"

definition table_name_for_object_type :: "string \<Rightarrow> string" where
  "table_name_for_object_type type_name = c_object_table_prefix @ type_name"

definition table_exists :: "'g group_ops \<Rightarrow> 'g \<Rightarrow> string \<Rightarrow> bool" where
  "table_exists ops g type_name \<longleftrightarrow> table_name_for_object_type type_name \<in> set (table_names ops g)"

text \<open>The index of a column by name, or \<open>npos\<close>.\<close>

definition column_index :: "column list \<Rightarrow> string \<Rightarrow> nat" where
  "column_index cs n = (let i = find_if (\<lambda>c. col_name c = n) cs in if i < length cs then i else npos)"

subsection \<open>Reading a schema\<close>

unbundle bit_operations_syntax

fun from_core_type :: "data_type \<Rightarrow> bool \<Rightarrow> property_type option" where
  "from_core_type type_Int nullable = Some (PT_Int OR (if nullable then PT_Nullable else 0))"
| "from_core_type type_Float nullable = Some (PT_Float OR (if nullable then PT_Nullable else 0))"
| "from_core_type type_Double nullable = Some (PT_Double OR (if nullable then PT_Nullable else 0))"
| "from_core_type type_Bool nullable = Some (PT_Bool OR (if nullable then PT_Nullable else 0))"
| "from_core_type type_String nullable = Some (PT_String OR (if nullable then PT_Nullable else 0))"
| "from_core_type type_Binary nullable = Some (PT_Data OR (if nullable then PT_Nullable else 0))"
| "from_core_type type_Timestamp nullable = Some (PT_Date OR (if nullable then PT_Nullable else 0))"
| "from_core_type type_Mixed nullable = Some (PT_Any OR (if nullable then PT_Nullable else 0))"
| "from_core_type (type_Link t) nullable = Some (PT_Object OR PT_Nullable)"
| "from_core_type (type_LinkList t) nullable = Some (PT_Object OR PT_Array)"
| "from_core_type (type_Table []) nullable = None"
| "from_core_type (type_Table ((n, t, b) # cs)) nullable = map_option (\<lambda>p. p OR PT_Array) (from_core_type t b)"

fun link_target :: "data_type \<Rightarrow> string" where
  "link_target (type_Link t) = t"
| "link_target (type_LinkList t) = t"
| "link_target _ = []"

fun is_value_table :: "data_type \<Rightarrow> bool" where
  "is_value_table (type_Table cs) = (length cs = 1 \<and> fst (hd cs) = ArrayColumnName)"
| "is_value_table _ = True"

definition property_for_column_index :: "column list \<Rightarrow> nat \<Rightarrow> property option" where
  "property_for_column_index cs i =
     (let c = cs ! i in
      if col_name c = object_id_column_name then None
      else if \<not> is_value_table (col_type c) then None
      else case from_core_type (col_type c) (col_nullable c) of
          None \<Rightarrow> None
        | Some t \<Rightarrow> Some \<lparr>prop_name = col_name c, public_name = [], prop_type = t,
            object_type = (if same_type t PT_Object then object_type_for_table_name (link_target (col_type c)) else []),
            link_origin_property_name = [], is_primary = False, is_indexed = col_indexed c, table_column = i\<rparr>)"

definition get_primary_key_for_object :: "'g group_ops \<Rightarrow> 'g \<Rightarrow> string \<Rightarrow> string" where
  "get_primary_key_for_object ops g type_name =
     (case pk_rows ops g of
        None \<Rightarrow> []
      | Some rows \<Rightarrow> (case find (\<lambda>r. fst r = type_name) rows of None \<Rightarrow> [] | Some r \<Rightarrow> snd r))"

text \<open>The constructor of \<open>ObjectSchema\<close> for a table of a group.\<close>

definition properties_of_columns :: "column list \<Rightarrow> property list" where
  "properties_of_columns cs =
     concat (map (\<lambda>i. case property_for_column_index cs i of None \<Rightarrow> [] | Some p \<Rightarrow> [p]) [0 ..< length cs])"

definition object_from_table :: "'g group_ops \<Rightarrow> 'g \<Rightarrow> string \<Rightarrow> string \<Rightarrow> object_schema" where
  "object_from_table ops g type_name table_name =
     set_primary_key_property
       \<lparr>name = type_name, persisted_properties = properties_of_columns (columns_of ops g table_name),
        computed_properties = [], primary_key = get_primary_key_for_object ops g type_name\<rparr>"

definition schema_from_group :: "'g group_ops \<Rightarrow> 'g \<Rightarrow> schema" where
  "schema_from_group ops g =
     schema_of (concat (map (\<lambda>table_name. let type_name = object_type_for_table_name table_name in
       if type_name = [] then [] else [object_from_table ops g type_name table_name]) (table_names ops g)))"

definition set_schema_columns :: "'g group_ops \<Rightarrow> 'g \<Rightarrow> schema \<Rightarrow> schema" where
  "set_schema_columns ops g s =
     map (\<lambda>os. if table_exists ops g (name os)
        then os\<lparr>persisted_properties :=
          map (\<lambda>p. p\<lparr>table_column :=
              column_index (columns_of ops g (table_name_for_object_type (name os))) (prop_name p)\<rparr>)
            (persisted_properties os)\<rparr>
        else os) s"

subsection \<open>Columns of a property\<close>

definition to_core_type :: "property_type \<Rightarrow> store_error + data_type" where
  "to_core_type t =
     (if same_type t PT_Object \<or> same_type t PT_Any then Inl Failed_assertion
      else if base_type t = PT_Int then Inr type_Int
      else if base_type t = PT_Bool then Inr type_Bool
      else if base_type t = PT_Float then Inr type_Float
      else if base_type t = PT_Double then Inr type_Double
      else if base_type t = PT_String then Inr type_String
      else if base_type t = PT_Date then Inr type_Timestamp
      else if base_type t = PT_Data then Inr type_Binary
      else Inl Failed_assertion)"

text \<open>The column that \<open>insert_column\<close> makes; a link needs the table that it points to.\<close>

definition column_for :: "'g group_ops \<Rightarrow> 'g \<Rightarrow> property \<Rightarrow> store_error + column" where
  "column_for ops g p =
     (let t = prop_type p in
      if same_type t PT_LinkingObjects then Inl Failed_assertion
      else if same_type t PT_Object then
        (let target = table_name_for_object_type (object_type p) in
         if target \<notin> set (table_names ops g) then Inl Failed_assertion
         else Inr \<lparr>col_name = prop_name p, col_type = (if is_array t then type_LinkList target else type_Link target),
                col_nullable = False, col_indexed = False\<rparr>)
      else if is_array t then
        bind_result (to_core_type (t AND NOT Flags)) (\<lambda>ct.
          Inr \<lparr>col_name = prop_name p, col_type = type_Table [(ArrayColumnName, ct, is_nullable t)],
               col_nullable = False, col_indexed = False\<rparr>)
      else bind_result (to_core_type t) (\<lambda>ct.
          Inr \<lparr>col_name = prop_name p, col_type = ct, col_nullable = is_nullable t,
               col_indexed = requires_index p\<rparr>))"

definition columns_of_type :: "'g group_ops \<Rightarrow> 'g \<Rightarrow> string \<Rightarrow> column list" where
  "columns_of_type ops g type_name = columns_of ops g (table_name_for_object_type type_name)"

text \<open>The engine takes no index behind the end and no long name.\<close>

definition insert_column :: "'g group_ops \<Rightarrow> string \<Rightarrow> property \<Rightarrow> nat \<Rightarrow> 'g \<Rightarrow> store_error + 'g" where
  "insert_column ops type_name p i g =
     bind_result (column_for ops g p) (\<lambda>c.
       if max_column_name_length < length (col_name c) then Inl (Engine_error Column_name_too_long)
       else if i \<le> length (columns_of_type ops g type_name)
       then Inr (insert_column_op ops (table_name_for_object_type type_name) i c g) else Inl Failed_assertion)"

definition add_column :: "'g group_ops \<Rightarrow> string \<Rightarrow> property \<Rightarrow> 'g \<Rightarrow> store_error + 'g" where
  "add_column ops type_name p g = insert_column ops type_name p (length (columns_of_type ops g type_name)) g"

definition remove_column :: "'g group_ops \<Rightarrow> string \<Rightarrow> nat \<Rightarrow> 'g \<Rightarrow> store_error + 'g" where
  "remove_column ops type_name i g =
     (if i < length (columns_of_type ops g type_name)
      then Inr (remove_column_op ops (table_name_for_object_type type_name) i g) else Inl Failed_assertion)"

definition replace_column :: "'g group_ops \<Rightarrow> string \<Rightarrow> property \<Rightarrow> property \<Rightarrow> 'g \<Rightarrow> store_error + 'g" where
  "replace_column ops type_name old_property new_property g =
     bind_result (insert_column ops type_name new_property (table_column old_property) g)
       (remove_column ops type_name (table_column old_property + 1))"

text \<open>Only the types of the switch are copied; the others are left at their default.\<close>

definition copy_property_values :: "'g group_ops \<Rightarrow> string \<Rightarrow> property \<Rightarrow> 'g \<Rightarrow> 'g" where
  "copy_property_values ops type_name p g =
     (if base_type (prop_type p) \<in> {PT_Int, PT_Bool, PT_Float, PT_Double, PT_String, PT_Data, PT_Date}
      then copy_column_op ops (table_name_for_object_type type_name) (table_column p + 1) (table_column p) g else g)"

definition make_property_optional :: "'g group_ops \<Rightarrow> string \<Rightarrow> property \<Rightarrow> 'g \<Rightarrow> store_error + 'g" where
  "make_property_optional ops type_name property0 g =
     (let p = property0\<lparr>prop_type := prop_type property0 OR PT_Nullable\<rparr> in
      bind_result (insert_column ops type_name p (table_column p) g) (\<lambda>g'.
        remove_column ops type_name (table_column p + 1) (copy_property_values ops type_name p g')))"

definition make_property_required :: "'g group_ops \<Rightarrow> string \<Rightarrow> property \<Rightarrow> 'g \<Rightarrow> store_error + 'g" where
  "make_property_required ops type_name property0 g =
     (let p = property0\<lparr>prop_type := prop_type property0 AND NOT PT_Nullable\<rparr> in
      bind_result (insert_column ops type_name p (table_column p) g)
        (remove_column ops type_name (table_column p + 1)))"

definition change_search_index :: "'g group_ops \<Rightarrow> string \<Rightarrow> nat \<Rightarrow> bool \<Rightarrow> 'g \<Rightarrow> store_error + 'g" where
  "change_search_index ops type_name i b g =
     (if \<not> b \<and> index_locked ops g (table_name_for_object_type type_name) i then Inl (Engine_error Index_of_primary_key)
      else if i < length (columns_of_type ops g type_name)
      then Inr (search_index_op ops (table_name_for_object_type type_name) i b g) else Inl Failed_assertion)"

subsection \<open>Primary keys and versions\<close>

text \<open>The rows of \<open>pk\<close>: the class and its property. A removed row is overwritten by the last.\<close>

definition move_last_row_over :: "nat \<Rightarrow> 'a list \<Rightarrow> 'a list" where
  "move_last_row_over i rows = butlast (rows[i := List.last rows])"

definition set_primary_key_rows :: "string \<Rightarrow> string \<Rightarrow> (string \<times> string) list \<Rightarrow> (string \<times> string) list" where
  "set_primary_key_rows type_name key rows =
     (let row = find_if (\<lambda>r. fst r = type_name) rows; found = row < length rows in
      if \<not> found \<and> key \<noteq> [] then rows @ [(type_name, key)]
      else if key = [] then (if found then move_last_row_over row rows else rows)
      else rows[row := (fst (rows ! row), key)])"

definition set_primary_key_for_object :: "'g group_ops \<Rightarrow> string \<Rightarrow> string \<Rightarrow> 'g \<Rightarrow> store_error + 'g" where
  "set_primary_key_for_object ops type_name key g =
     (case pk_rows ops g of
        None \<Rightarrow> Inl Failed_assertion
      | Some rows \<Rightarrow>
          if has_object_ids ops g then
            (if (case find (\<lambda>r. fst r = type_name) rows of None \<Rightarrow> key = [] | Some r \<Rightarrow> key \<noteq> [] \<and> snd r = key)
             then Inr g else Inl Failed_assertion)
          else Inr (set_pk_rows ops (set_primary_key_rows type_name key rows) g))"

definition create_metadata_tables :: "'g group_ops \<Rightarrow> 'g \<Rightarrow> 'g" where
  "create_metadata_tables ops g =
     (let g1 = (if stored_version ops g = None then store_version ops NotVersioned g else g) in
      if pk_rows ops g1 = None then set_pk_rows ops [] g1 else g1)"

definition get_schema_version :: "'g group_ops \<Rightarrow> 'g \<Rightarrow> 64 word" where
  "get_schema_version ops g = (case stored_version ops g of None \<Rightarrow> NotVersioned | Some v \<Rightarrow> v)"

definition set_schema_version :: "'g group_ops \<Rightarrow> 64 word \<Rightarrow> 'g \<Rightarrow> 'g" where
  "set_schema_version ops version g = store_version ops version (create_metadata_tables ops g)"

text \<open>Whether the property has different values in all objects of the type.\<close>

definition validate_primary_column_uniqueness :: "'g group_ops \<Rightarrow> string \<Rightarrow> string \<Rightarrow> 'g \<Rightarrow> store_error + 'g" where
  "validate_primary_column_uniqueness ops type_name key g =
     (if \<not> table_exists ops g type_name then Inl Failed_assertion
      else if distinct_values ops g (table_name_for_object_type type_name) (column_index (columns_of_type ops g type_name) key)
      then Inr g else Inl (Duplicate_primary_key type_name key))"

definition validate_all_primary_columns :: "'g group_ops \<Rightarrow> 'g \<Rightarrow> store_error + 'g" where
  "validate_all_primary_columns ops g =
     (case pk_rows ops g of
        None \<Rightarrow> Inl Failed_assertion
      | Some rows \<Rightarrow> run_all (\<lambda>r. validate_primary_column_uniqueness ops (fst r) (snd r)) rows g)"

subsection \<open>Applying changes\<close>

definition create_table :: "'g group_ops \<Rightarrow> object_schema \<Rightarrow> 'g \<Rightarrow> store_error + 'g" where
  "create_table ops os g =
     (let table_name = table_name_for_object_type (name os) in
      case primary_key_property os of
        None \<Rightarrow>
          if max_table_name_length < length table_name then Inl (Engine_error Table_name_too_long)
          else Inr (sync_create_table ops table_name g)
      | Some p \<Rightarrow> bind_result (to_core_type (prop_type p)) (\<lambda>ct.
          if max_table_name_length < length table_name then Inl (Engine_error Table_name_too_long)
          else if max_column_name_length < length (prop_name p) then Inl (Engine_error Column_name_too_long)
          else if ct \<notin> {type_Int, type_String} then Inl (Engine_error Illegal_key_type)
          else Inr (sync_create_table_with_primary_key ops table_name ct (prop_name p) (is_nullable (prop_type p)) g)))"

definition add_initial_columns :: "'g group_ops \<Rightarrow> object_schema \<Rightarrow> 'g \<Rightarrow> store_error + 'g" where
  "add_initial_columns ops os g =
     (if \<not> table_exists ops g (name os) then Inl Failed_assertion
      else run_all (\<lambda>p. if is_primary p then Inr else add_column ops (name os) p) (persisted_properties os) g)"

definition on_table :: "'g group_ops \<Rightarrow> object_schema \<Rightarrow> ('g \<Rightarrow> store_error + 'g) \<Rightarrow> 'g \<Rightarrow> store_error + 'g" where
  "on_table ops os f g = (if table_exists ops g (name os) then f g else Inl Failed_assertion)"

definition key_name :: "property option \<Rightarrow> string" where
  "key_name p = (case p of None \<Rightarrow> [] | Some q \<Rightarrow> prop_name q)"

fun apply_non_migration_change :: "'g group_ops \<Rightarrow> schema_change \<Rightarrow> 'g \<Rightarrow> store_error + 'g" where
  "apply_non_migration_change ops (AddTable os) g = create_table ops os g"
| "apply_non_migration_change ops (AddInitialProperties os) g = add_initial_columns ops os g"
| "apply_non_migration_change ops (AddIndex os p) g =
     on_table ops os (change_search_index ops (name os) (table_column p) True) g"
| "apply_non_migration_change ops (RemoveIndex os p) g =
     on_table ops os (change_search_index ops (name os) (table_column p) False) g"
| "apply_non_migration_change ops c g = Inr g"

text \<open>The changes that cannot be applied are collected, and thrown when all others have been applied.\<close>

definition apply_non_migration_changes :: "'g group_ops \<Rightarrow> schema_change list \<Rightarrow> 'g \<Rightarrow> store_error + 'g" where
  "apply_non_migration_changes ops changes g =
     bind_result (run_all (apply_non_migration_change ops) changes g) (\<lambda>g'.
       let errors = concat (map explain_migration changes) in
       if errors \<noteq> [] then Inl (Schema_differs errors) else Inr g')"

fun create_initial_change :: "'g group_ops \<Rightarrow> schema_change \<Rightarrow> 'g \<Rightarrow> store_error + 'g" where
  "create_initial_change ops (AddTable os) g = create_table ops os g"
| "create_initial_change ops (RemoveTable os) g = Inr g"
| "create_initial_change ops (AddInitialProperties os) g = add_initial_columns ops os g"
| "create_initial_change ops (AddProperty os p) g = on_table ops os (add_column ops (name os) p) g"
| "create_initial_change ops (RemoveProperty os p) g = on_table ops os (remove_column ops (name os) (table_column p)) g"
| "create_initial_change ops (MakePropertyNullable os p) g = on_table ops os (make_property_optional ops (name os) p) g"
| "create_initial_change ops (MakePropertyRequired os p) g = on_table ops os (make_property_required ops (name os) p) g"
| "create_initial_change ops (ChangePrimaryKey os p) g = set_primary_key_for_object ops (name os) (key_name p) g"
| "create_initial_change ops (AddIndex os p) g =
     on_table ops os (change_search_index ops (name os) (table_column p) True) g"
| "create_initial_change ops (RemoveIndex os p) g =
     on_table ops os (change_search_index ops (name os) (table_column p) False) g"
| "create_initial_change ops (ChangePropertyType os old_p new_p) g = on_table ops os (replace_column ops (name os) old_p new_p) g"

definition create_initial_tables :: "'g group_ops \<Rightarrow> schema_change list \<Rightarrow> 'g \<Rightarrow> store_error + 'g" where
  "create_initial_tables ops changes g = run_all (create_initial_change ops) changes g"

fun apply_additive_change :: "'g group_ops \<Rightarrow> bool \<Rightarrow> schema_change \<Rightarrow> 'g \<Rightarrow> store_error + 'g" where
  "apply_additive_change ops update_indexes (AddTable os) g = create_table ops os g"
| "apply_additive_change ops update_indexes (AddInitialProperties os) g = add_initial_columns ops os g"
| "apply_additive_change ops update_indexes (AddProperty os p) g = on_table ops os (add_column ops (name os) p) g"
| "apply_additive_change ops update_indexes (AddIndex os p) g =
     (if update_indexes then on_table ops os (change_search_index ops (name os) (table_column p) True) g else Inr g)"
| "apply_additive_change ops update_indexes (RemoveIndex os p) g =
     (if update_indexes then on_table ops os (change_search_index ops (name os) (table_column p) False) g else Inr g)"
| "apply_additive_change ops update_indexes c g = Inr g"

definition apply_additive_changes :: "'g group_ops \<Rightarrow> schema_change list \<Rightarrow> bool \<Rightarrow> 'g \<Rightarrow> store_error + 'g" where
  "apply_additive_changes ops changes update_indexes g = run_all (apply_additive_change ops update_indexes) changes g"

fun apply_pre_migration_change :: "'g group_ops \<Rightarrow> schema_change \<Rightarrow> 'g \<Rightarrow> store_error + 'g" where
  "apply_pre_migration_change ops (RemoveProperty os p) g = Inr g"
| "apply_pre_migration_change ops c g = create_initial_change ops c g"

definition apply_pre_migration_changes :: "'g group_ops \<Rightarrow> schema_change list \<Rightarrow> 'g \<Rightarrow> store_error + 'g" where
  "apply_pre_migration_changes ops changes g = run_all (apply_pre_migration_change ops) changes g"

fun apply_post_migration_change ::
  "'g group_ops \<Rightarrow> schema \<Rightarrow> bool \<Rightarrow> schema_change \<Rightarrow> 'g \<Rightarrow> store_error + 'g" where
  "apply_post_migration_change ops initial_schema reread (RemoveProperty os p) g =
     (case (if initial_schema = [] then Some os else find_type (name os) initial_schema) of
        None \<Rightarrow> Inl Failed_assertion
      | Some initial \<Rightarrow>
          if initial_schema \<noteq> [] \<and> property_for_name (prop_name p) initial = None
          then Inl (Renamed_property_missing (name os) (prop_name p))
          else on_table ops os (remove_column ops (name os) (table_column p)) g)"
| "apply_post_migration_change ops initial_schema reread (ChangePrimaryKey os (Some p)) g =
     validate_primary_column_uniqueness ops (name os) (prop_name p) g"
| "apply_post_migration_change ops initial_schema reread (AddTable os) g = create_table ops os g"
| "apply_post_migration_change ops initial_schema reread (AddInitialProperties os) g =
     (if reread then add_initial_columns ops os g else Inr g)"
| "apply_post_migration_change ops initial_schema reread (AddIndex os p) g =
     on_table ops os (change_search_index ops (name os) (table_column p) True) g"
| "apply_post_migration_change ops initial_schema reread (RemoveIndex os p) g =
     on_table ops os (change_search_index ops (name os) (table_column p) False) g"
| "apply_post_migration_change ops initial_schema reread c g = Inr g"

definition apply_post_migration_changes ::
  "'g group_ops \<Rightarrow> schema_change list \<Rightarrow> schema \<Rightarrow> bool \<Rightarrow> 'g \<Rightarrow> store_error + 'g" where
  "apply_post_migration_changes ops changes initial_schema reread g =
     run_all (apply_post_migration_change ops initial_schema reread) changes g"

subsection \<open>All changes of a schema\<close>

text \<open>
  The result is the group and the target schema with the numbers of its columns. The check at the
  end of the manual mode compares without removals of tables, as the code does.
\<close>

definition apply_schema_changes ::
  "'g group_ops \<Rightarrow> (schema_change list \<Rightarrow> schema_change list) \<Rightarrow> 64 word \<Rightarrow> schema \<Rightarrow> 64 word \<Rightarrow> schema_mode \<Rightarrow>
     schema_change list \<Rightarrow> string option \<Rightarrow> ('g \<Rightarrow> store_error + 'g) option \<Rightarrow> 'g \<Rightarrow> store_error + 'g \<times> schema" where
  "apply_schema_changes ops order schema_version target target_version mode changes sync_user_id migration g0 =
     (let g = create_metadata_tables ops g0;
          finish = (\<lambda>g'. Inr (g', set_schema_columns ops g' target));
          versioned = (\<lambda>g'. finish (set_schema_version ops target_version g')) in
      if mode = Additive then
        bind_result (apply_additive_changes ops changes True g) (\<lambda>g1.
          let newer = schema_version < target_version \<or> schema_version = NotVersioned;
              g2 = (if newer then set_schema_version ops target_version g1 else g1);
              g3 = (case sync_user_id of None \<Rightarrow> g2 | Some user \<Rightarrow> default_permissions ops changes user g2)
          in finish g3)
      else if schema_version = NotVersioned then bind_result (create_initial_tables ops changes g) versioned
      else if mode = Manual then
        bind_result (case migration of None \<Rightarrow> Inr g | Some f \<Rightarrow> f g) (\<lambda>g1.
          case verify_no_changes_required (compare order (schema_from_group ops g1) (set_schema_columns ops g target) False) of
            Inl (Schema_mismatch ds) \<Rightarrow> Inl (Schema_differs ds)
          | Inl _ \<Rightarrow> Inl Failed_assertion
          | Inr _ \<Rightarrow> bind_result (validate_all_primary_columns ops g1) versioned)
      else if schema_version = target_version then bind_result (apply_non_migration_changes ops changes g) finish
      else
        let old_schema = schema_from_group ops g in
        bind_result (apply_pre_migration_changes ops changes g) (\<lambda>g1.
          bind_result
            (case migration of
               None \<Rightarrow> apply_post_migration_changes ops changes [] False g1
             | Some f \<Rightarrow>
                 bind_result (f g1) (\<lambda>g2.
                   bind_result (apply_post_migration_changes ops
                       (compare order (schema_from_group ops g2) (set_schema_columns ops g1 target) False) old_schema True g2)
                     (validate_all_primary_columns ops)))
            versioned))"

subsection \<open>Removing and renaming\<close>

definition is_link_target :: "'g group_ops \<Rightarrow> 'g \<Rightarrow> string \<Rightarrow> bool" where
  "is_link_target ops g table_name \<longleftrightarrow>
     list_ex (\<lambda>t. t \<noteq> table_name \<and> list_ex (\<lambda>c. link_target (col_type c) = table_name) (columns_of ops g t)) (table_names ops g)"

definition delete_data_for_object :: "'g group_ops \<Rightarrow> string \<Rightarrow> 'g \<Rightarrow> store_error + 'g" where
  "delete_data_for_object ops type_name g =
     (if table_exists ops g type_name
      then if is_link_target ops g (table_name_for_object_type type_name) then Inl (Engine_error Cross_table_link_target)
      else set_primary_key_for_object ops type_name [] (remove_table_op ops (table_name_for_object_type type_name) g)
      else Inr g)"

definition group_is_empty :: "'g group_ops \<Rightarrow> 'g \<Rightarrow> bool" where
  "group_is_empty ops g =
     list_all (\<lambda>n. let type_name = object_type_for_table_name n in
        type_name = [] \<or> take 2 type_name = ''__'' \<or> table_is_empty ops g n) (table_names ops g)"

definition renumber_after_removal :: "nat \<Rightarrow> nat \<Rightarrow> property \<Rightarrow> property" where
  "renumber_after_removal removed old_column p =
     (if table_column p = removed then p\<lparr>table_column := old_column\<rparr>
      else if removed < table_column p then p\<lparr>table_column := table_column p - 1\<rparr> else p)"

definition rename_property ::
  "'g group_ops \<Rightarrow> schema \<Rightarrow> string \<Rightarrow> string \<Rightarrow> string \<Rightarrow> 'g \<Rightarrow> store_error + 'g \<times> schema" where
  "rename_property ops target type_name old_name new_name g =
     (let table = table_name_for_object_type type_name in
      if \<not> table_exists ops g type_name then Inl (Rename_without_table type_name)
      else case find_type type_name target of
        None \<Rightarrow> Inl (Rename_of_removed_type type_name)
      | Some target_object \<Rightarrow>
          if property_for_name old_name target_object \<noteq> None then Inl (Rename_source_exists type_name old_name new_name)
          else let stored = object_from_table ops g type_name table in
            case property_for_name old_name stored of
              None \<Rightarrow> Inl (Rename_source_missing type_name old_name)
            | Some old_p \<Rightarrow>
                (case property_for_name new_name stored of
                   None \<Rightarrow> Inr (rename_column_op ops table (table_column old_p) new_name g, target)
                 | Some new_p \<Rightarrow>
                     if \<not> same_type (prop_type old_p) (prop_type new_p) \<or> object_type old_p \<noteq> object_type new_p
                     then Inl (Rename_changes_type type_name old_name new_name (type_string old_p) (type_string new_p))
                     else if is_nullable (prop_type old_p) \<and> \<not> is_nullable (prop_type new_p)
                     then Inl (Rename_makes_required type_name old_name new_name)
                     else
                       let removed = table_column new_p;
                           g1 = rename_column_op ops table (table_column old_p) new_name g;
                           target' = map (\<lambda>os. if name os = type_name
                             then os\<lparr>persisted_properties :=
                                 map (renumber_after_removal removed (table_column old_p)) (persisted_properties os)\<rparr>
                             else os) target in
                       bind_result (remove_column ops type_name removed g1) (\<lambda>g2.
                         if is_nullable (prop_type new_p) \<and> \<not> is_nullable (prop_type old_p)
                         then bind_result (make_property_optional ops type_name (new_p\<lparr>table_column := table_column old_p\<rparr>) g2)
                                (\<lambda>g3. Inr (g3, target'))
                         else Inr (g2, target'))))"

end
