(* ===== verification/Object_Store_Group.thy ===== *)
theory Object_Store_Group
  imports Object_Store
begin

text \<open>
  What \<open>object_store.cpp\<close> relies on of the operations on a group, as a locale, and a group that
  is a list of named tables, each a list of columns, which has these properties.
\<close>

subsection \<open>The interface\<close>

text \<open>The types of single values.\<close>

definition plain_type :: "data_type \<Rightarrow> bool" where
  "plain_type t \<longleftrightarrow> t \<in> {type_Int, type_Bool, type_String, type_Binary, type_Timestamp, type_Float, type_Double}"

definition delete_nth :: "nat \<Rightarrow> 'a list \<Rightarrow> 'a list" where
  "delete_nth i xs = take i xs @ drop (Suc i) xs"

definition insert_nth :: "nat \<Rightarrow> 'a \<Rightarrow> 'a list \<Rightarrow> 'a list" where
  "insert_nth i x xs = take i xs @ x # drop i xs"

definition set_indexed :: "nat \<Rightarrow> bool \<Rightarrow> column list \<Rightarrow> column list" where
  "set_indexed i b cs = cs[i := (cs ! i)\<lparr>col_indexed := b\<rparr>]"

text \<open>Two groups with the same tables, the same keys, a version or none, and the same kind of history.\<close>

definition same_frame :: "'g group_ops \<Rightarrow> 'g \<Rightarrow> 'g \<Rightarrow> bool" where
  "same_frame ops g g' \<longleftrightarrow> table_names ops g' = table_names ops g \<and> pk_rows ops g' = pk_rows ops g \<and>
     (stored_version ops g' = None) = (stored_version ops g = None) \<and> has_object_ids ops g' = has_object_ids ops g"

text \<open>
  A call that adds a table: the tables that are there stay as they are. Whether the new table has
  columns of its own is left open.
\<close>

definition adds_table :: "'g group_ops \<Rightarrow> string \<Rightarrow> 'g \<Rightarrow> 'g \<Rightarrow> bool" where
  "adds_table ops t g g' \<longleftrightarrow> set (table_names ops g') = insert t (set (table_names ops g)) \<and>
     (distinct (table_names ops g) \<longrightarrow> distinct (table_names ops g')) \<and>
     (\<forall>u \<in> set (table_names ops g). columns_of ops g' u = columns_of ops g u) \<and>
     pk_rows ops g' \<noteq> None \<and> (stored_version ops g' = None) = (stored_version ops g = None) \<and> has_object_ids ops g' = has_object_ids ops g"

text \<open>
  The laws say what a call does that keeps to the documentation of the engine: a name fits, an index is
  in range, a key is an integer or a string, values are copied between columns of the same type of
  single values. Nothing is said of other calls.
\<close>

locale group_store =
  fixes ops :: "'g group_ops"
  assumes insert_column_law: "\<And>g t i c. t \<in> set (table_names ops g) \<Longrightarrow> i \<le> length (columns_of ops g t) \<Longrightarrow>
      length (col_name c) \<le> max_column_name_length \<Longrightarrow>
      same_frame ops g (insert_column_op ops t i c g) \<and>
      columns_of ops (insert_column_op ops t i c g) = (columns_of ops g)(t := insert_nth i c (columns_of ops g t))"
    and remove_column_law: "\<And>g t i. t \<in> set (table_names ops g) \<Longrightarrow> i < length (columns_of ops g t) \<Longrightarrow>
      same_frame ops g (remove_column_op ops t i g) \<and>
      columns_of ops (remove_column_op ops t i g) = (columns_of ops g)(t := delete_nth i (columns_of ops g t))"
    and rename_column_law: "\<And>g t i n. t \<in> set (table_names ops g) \<Longrightarrow> i < length (columns_of ops g t) \<Longrightarrow>
      length n \<le> max_column_name_length \<Longrightarrow>
      same_frame ops g (rename_column_op ops t i n g) \<and>
      columns_of ops (rename_column_op ops t i n g) =
        (columns_of ops g)(t := (columns_of ops g t)[i := (columns_of ops g t ! i)\<lparr>col_name := n\<rparr>])"
    and search_index_law: "\<And>g t i b. t \<in> set (table_names ops g) \<Longrightarrow> i < length (columns_of ops g t) \<Longrightarrow>
      b \<or> \<not> index_locked ops g t i \<Longrightarrow>
      same_frame ops g (search_index_op ops t i b g) \<and>
      columns_of ops (search_index_op ops t i b g) = (columns_of ops g)(t := set_indexed i b (columns_of ops g t))"
    and copy_column_law: "\<And>g t i j. t \<in> set (table_names ops g) \<Longrightarrow> i < length (columns_of ops g t) \<Longrightarrow>
      j < length (columns_of ops g t) \<Longrightarrow> col_type (columns_of ops g t ! i) = col_type (columns_of ops g t ! j) \<Longrightarrow>
      plain_type (col_type (columns_of ops g t ! j)) \<Longrightarrow> same_frame ops g (copy_column_op ops t i j g) \<and>
      columns_of ops (copy_column_op ops t i j g) = columns_of ops g"
    and create_table_law: "\<And>g t. pk_rows ops g \<noteq> None \<Longrightarrow> length t \<le> max_table_name_length \<Longrightarrow>
      adds_table ops t g (sync_create_table ops t g)"
    and create_table_with_primary_key_law: "\<And>g t ct n b. pk_rows ops g \<noteq> None \<Longrightarrow>
      length t \<le> max_table_name_length \<Longrightarrow> length n \<le> max_column_name_length \<Longrightarrow> ct \<in> {type_Int, type_String} \<Longrightarrow>
      adds_table ops t g (sync_create_table_with_primary_key ops t ct n b g)"
    and set_pk_rows_law: "\<And>g rows. pk_rows ops g \<noteq> None \<Longrightarrow> table_names ops (set_pk_rows ops rows g) = table_names ops g \<and>
      columns_of ops (set_pk_rows ops rows g) = columns_of ops g \<and> pk_rows ops (set_pk_rows ops rows g) = Some rows \<and>
      stored_version ops (set_pk_rows ops rows g) = stored_version ops g \<and>
      has_object_ids ops (set_pk_rows ops rows g) = has_object_ids ops g"
    and store_version_law: "\<And>g v. stored_version ops g \<noteq> None \<Longrightarrow> same_frame ops g (store_version ops v g) \<and>
      columns_of ops (store_version ops v g) = columns_of ops g \<and> stored_version ops (store_version ops v g) = Some v"

text \<open>
  A group in which no column is a primary key to the engine: keys are rows of the table \<open>pk\<close>, which is
  a table like others to it, and every index can be removed.
\<close>

locale keyless_store = group_store +
  assumes unlocked: "\<not> index_locked ops g t i"

subsection \<open>A group of lists\<close>

record listed_group =
  listed_tables :: "(string \<times> column list) list"
  listed_keys :: "(string \<times> string) list option"
  listed_version :: "64 word option"

definition update_table :: "string \<Rightarrow> (column list \<Rightarrow> column list) \<Rightarrow> listed_group \<Rightarrow> listed_group" where
  "update_table t f g = g\<lparr>listed_tables := map (\<lambda>(u, cs). (u, if u = t then f cs else cs)) (listed_tables g)\<rparr>"

definition add_listed_table :: "string \<Rightarrow> column list \<Rightarrow> listed_group \<Rightarrow> listed_group" where
  "add_listed_table t cs g =
     (if t \<in> set (map fst (listed_tables g)) then g else g\<lparr>listed_tables := listed_tables g @ [(t, cs)]\<rparr>)"

definition listed_ops :: "listed_group group_ops" where
  "listed_ops = \<lparr>
     table_names = (\<lambda>g. map fst (listed_tables g)),
     columns_of = (\<lambda>g t. case map_of (listed_tables g) t of None \<Rightarrow> [] | Some cs \<Rightarrow> cs),
     insert_column_op = (\<lambda>t i c. update_table t (insert_nth i c)),
     remove_column_op = (\<lambda>t i. update_table t (delete_nth i)),
     rename_column_op = (\<lambda>t i n. update_table t (\<lambda>cs. cs[i := (cs ! i)\<lparr>col_name := n\<rparr>])),
     search_index_op = (\<lambda>t i b. update_table t (set_indexed i b)),
     copy_column_op = (\<lambda>t i j g. g),
     sync_create_table = (\<lambda>t. add_listed_table t []),
     sync_create_table_with_primary_key =
       (\<lambda>t ct n b. add_listed_table t [\<lparr>col_name = n, col_type = ct, col_nullable = b, col_indexed = True\<rparr>]),
     remove_table_op = (\<lambda>t g. g\<lparr>listed_tables := filter (\<lambda>(u, cs). u \<noteq> t) (listed_tables g)\<rparr>),
     has_object_ids = (\<lambda>g. False),
     pk_rows = listed_keys,
     set_pk_rows = (\<lambda>rows g. g\<lparr>listed_keys := Some rows\<rparr>),
     stored_version = listed_version,
     store_version = (\<lambda>v g. g\<lparr>listed_version := Some v\<rparr>),
     distinct_values = (\<lambda>g t i. True),
     table_is_empty = (\<lambda>g t. True),
     index_locked = (\<lambda>g t i. False),
     default_permissions = (\<lambda>changes user g. g)\<rparr>"

lemma update_table_names: "map fst (listed_tables (update_table t f g)) = map fst (listed_tables g)"
  by (auto simp: update_table_def)

lemma map_of_update: "map_of (map (\<lambda>(u, cs). (u, if u = t then f cs else cs)) xs) =
    (case map_of xs t of None \<Rightarrow> map_of xs | Some cs \<Rightarrow> (map_of xs)(t \<mapsto> f cs))"
  by (induction xs) (auto split: option.splits)

lemma columns_of_update:
  assumes "t \<in> set (table_names listed_ops g)"
  shows "columns_of listed_ops (update_table t f g) = (columns_of listed_ops g)(t := f (columns_of listed_ops g t))"
proof -
  obtain cs where "map_of (listed_tables g) t = Some cs"
    using assms by (auto simp: listed_ops_def map_of_eq_None_iff dest!: weak_map_of_SomeI)
  then show ?thesis by (auto simp: listed_ops_def update_table_def map_of_update)
qed

lemma same_frame_update: "same_frame listed_ops g (update_table t f g)"
  by (auto simp: same_frame_def listed_ops_def update_table_def)

lemma listed_update:
  assumes "t \<in> set (table_names listed_ops g)" "g' = update_table t f g"
  shows "same_frame listed_ops g g' \<and>
    columns_of listed_ops g' = (columns_of listed_ops g)(t := f (columns_of listed_ops g t))"
  using assms same_frame_update columns_of_update by blast

lemma adds_listed_table:
  assumes "pk_rows listed_ops g \<noteq> None" "g' = add_listed_table t cs g"
  shows "adds_table listed_ops t g g'"
  using assms(1) unfolding assms(2)
  by (auto simp: adds_table_def add_listed_table_def listed_ops_def map_add_def split: option.split)

lemma listed_ops_updates:
  "insert_column_op listed_ops t i c g = update_table t (insert_nth i c) g"
  "remove_column_op listed_ops t i g = update_table t (delete_nth i) g"
  "rename_column_op listed_ops t i n g = update_table t (\<lambda>cs. cs[i := (cs ! i)\<lparr>col_name := n\<rparr>]) g"
  "search_index_op listed_ops t i b g = update_table t (set_indexed i b) g"
  "copy_column_op listed_ops t i j g = g"
  "sync_create_table listed_ops t g = add_listed_table t [] g"
  "sync_create_table_with_primary_key listed_ops t ct n b g =
     add_listed_table t [\<lparr>col_name = n, col_type = ct, col_nullable = b, col_indexed = True\<rparr>] g"
  by (simp_all add: listed_ops_def)

interpretation listed: keyless_store listed_ops
proof (unfold_locales, goal_cases)
  case (1 t g i c) then show ?case using listed_update [OF _ listed_ops_updates(1)] by blast
next
  case (2 t g i) then show ?case using listed_update [OF _ listed_ops_updates(2)] by blast
next
  case (3 t g i n) then show ?case using listed_update [OF _ listed_ops_updates(3)] by blast
next
  case (4 t g i b) then show ?case using listed_update [OF _ listed_ops_updates(4)] by blast
next
  case (5 g t i j) then show ?case by (simp add: listed_ops_updates same_frame_def)
next
  case (6 g t) then show ?case using adds_listed_table [OF _ listed_ops_updates(6)] by blast
next
  case (7 g t ct n b) then show ?case using adds_listed_table [OF _ listed_ops_updates(7)] by blast
qed (simp_all add: listed_ops_def same_frame_def)

end
