(* ===== verification/Object_Store_Columns.thy ===== *)
theory Object_Store_Columns
  imports Object_Store_Group Schema_Update_Props
begin

text \<open>
  What the changes of one type do to the list of its columns, apart from the group: every change
  that is not a removal replaces one column or appends one, so that changes of different columns
  may come in any order.
\<close>

subsection \<open>Types that a column can have\<close>

unbundle bit_operations_syntax

definition value_types :: "property_type list" where
  "value_types = concat (map (\<lambda>b. [b, b OR PT_Nullable, b OR PT_Array, b OR PT_Nullable OR PT_Array])
     [PT_Int, PT_Bool, PT_String, PT_Data, PT_Date, PT_Float, PT_Double])"

lemma flag_and: "(a :: 'a :: len word) AND 2 ^ n = (if bit a n then 2 ^ n else 0)"
  by (rule bit_word_eqI) (auto simp: bit_simps)

lemma flag_eq:
  assumes "(a :: 8 word) AND 2 ^ n = 2 ^ n \<longleftrightarrow> b AND 2 ^ n = 2 ^ n" "(2 :: 8 word) ^ n \<noteq> 0"
  shows "a AND 2 ^ n = b AND 2 ^ n"
  using assms by (auto simp: flag_and split: if_splits)

lemma property_type_split: "a = base_type a OR (a AND PT_Nullable) OR (a AND PT_Array)"
proof -
  have "NOT Flags OR PT_Nullable OR PT_Array = (- 1 :: 8 word)" by code_simp
  then show ?thesis
    unfolding base_type_def by (metis and.right_neutral bit.conj_disj_distrib)
qed

lemma property_type_ext:
  assumes "same_type a b" "is_array a = is_array b" "is_nullable a = is_nullable b"
  shows "a = b"
proof -
  have "a AND PT_Array = b AND PT_Array"
    using flag_eq [of a 7 b] assms(2) by (simp add: is_array_def PT_Array_def)
  moreover have "a AND PT_Nullable = b AND PT_Nullable"
    using flag_eq [of a 6 b] assms(3) by (simp add: is_nullable_def PT_Nullable_def)
  ultimately show ?thesis
    using property_type_split [of a] property_type_split [of b] assms(1) by (simp add: same_type_def)
qed

lemma masked_or: "((a :: 8 word) OR b) AND c = (a AND c) OR (b AND c)"
  by (rule bit.conj_disj_distrib2)

lemma flags_of_optional:
  "same_type (t OR PT_Nullable) t" "is_array (t OR PT_Nullable) = is_array t" "is_nullable (t OR PT_Nullable)"
proof -
  have masks: "PT_Nullable AND NOT Flags = 0" "PT_Nullable AND PT_Array = 0" by code_simp+
  then show "same_type (t OR PT_Nullable) t" "is_array (t OR PT_Nullable) = is_array t"
    by (simp_all add: same_type_def base_type_def is_array_def masked_or)
  show "is_nullable (t OR PT_Nullable)" by (simp add: is_nullable_def or.commute masked_or)
qed

lemma flags_of_required:
  "same_type (t AND NOT PT_Nullable) t" "is_array (t AND NOT PT_Nullable) = is_array t" "\<not> is_nullable (t AND NOT PT_Nullable)"
proof -
  have masks: "NOT PT_Nullable AND NOT Flags = NOT Flags" "NOT PT_Nullable AND PT_Array = PT_Array"
    "NOT PT_Nullable AND PT_Nullable = 0" "PT_Nullable \<noteq> 0" by code_simp+
  then show "same_type (t AND NOT PT_Nullable) t" "is_array (t AND NOT PT_Nullable) = is_array t"
    "\<not> is_nullable (t AND NOT PT_Nullable)"
    by (simp_all add: same_type_def base_type_def is_array_def is_nullable_def and.assoc)
qed

lemma optional_is: "same_type t u \<Longrightarrow> is_array t = is_array u \<Longrightarrow> is_nullable u \<Longrightarrow> t OR PT_Nullable = u"
  by (rule property_type_ext) (use flags_of_optional in \<open>auto simp: same_type_def\<close>)

lemma required_is: "same_type t u \<Longrightarrow> is_array t = is_array u \<Longrightarrow> \<not> is_nullable u \<Longrightarrow> t AND NOT PT_Nullable = u"
  by (rule property_type_ext) (use flags_of_required in \<open>auto simp: same_type_def\<close>)

subsection \<open>Columns and the properties they are read as\<close>

text \<open>A property whose type a column can have, with an index only where the column can have one.\<close>

definition storable :: "property \<Rightarrow> bool" where
  "storable p \<longleftrightarrow> prop_name p \<noteq> object_id_column_name \<and>
     (prop_type p \<in> {PT_Object OR PT_Nullable, PT_Object OR PT_Array} \<and> \<not> requires_index p \<or>
      prop_type p \<in> set value_types \<and> object_type p = [] \<and> (is_array (prop_type p) \<longrightarrow> \<not> requires_index p))"

text \<open>The column that \<open>insert_column\<close> makes when it succeeds.\<close>

definition column_of :: "property \<Rightarrow> column" where
  "column_of p =
     (let t = prop_type p; target = table_name_for_object_type (object_type p);
          core = (case to_core_type (t AND NOT Flags) of Inl e \<Rightarrow> type_Mixed | Inr ct \<Rightarrow> ct) in
      if same_type t PT_Object
      then \<lparr>col_name = prop_name p, col_type = (if is_array t then type_LinkList target else type_Link target),
             col_nullable = False, col_indexed = False\<rparr>
      else if is_array t
      then \<lparr>col_name = prop_name p, col_type = type_Table [(ArrayColumnName, core, is_nullable t)],
             col_nullable = False, col_indexed = False\<rparr>
      else \<lparr>col_name = prop_name p, col_type = core, col_nullable = is_nullable t, col_indexed = requires_index p\<rparr>)"

lemma column_of_name [simp]: "col_name (column_of p) = prop_name p"
  by (simp add: column_of_def Let_def)

definition name_fits :: "property \<Rightarrow> bool" where
  "name_fits p \<longleftrightarrow> length (prop_name p) \<le> max_column_name_length"

definition column_property :: "column \<Rightarrow> property option" where
  "column_property c = property_for_column_index [c] 0"

text \<open>The column is read as the property, and it has an index exactly if the property wants one.\<close>

definition column_reads :: "column \<Rightarrow> property \<Rightarrow> bool" where
  "column_reads c p \<longleftrightarrow> (case column_property c of None \<Rightarrow> False
     | Some q \<Rightarrow> prop_name q = prop_name p \<and> prop_type q = prop_type p \<and> object_type q = object_type p \<and>
         is_indexed q = requires_index p)"

definition links_to_table :: "'g group_ops \<Rightarrow> 'g \<Rightarrow> property \<Rightarrow> bool" where
  "links_to_table ops g p \<longleftrightarrow> (same_type (prop_type p) PT_Object \<longrightarrow> table_exists ops g (object_type p))"

lemma storable_core:
  "list_all (\<lambda>t. case to_core_type (t AND NOT Flags) of Inl e \<Rightarrow> False
     | Inr ct \<Rightarrow> to_core_type t = Inr ct \<and> \<not> same_type t PT_LinkingObjects \<and> \<not> same_type t PT_Object \<and> is_value_table ct \<and>
         from_core_type ct (is_nullable t) = Some (t AND NOT PT_Array)) value_types"
  by code_simp

lemma value_array: "list_all (\<lambda>t. is_array t \<longrightarrow> (t AND NOT PT_Array) OR PT_Array = t) value_types"
  "list_all (\<lambda>t. \<not> is_array t \<longrightarrow> t AND NOT PT_Array = t) value_types"
  by code_simp+

lemma object_types:
  "same_type (PT_Object OR PT_Nullable) PT_Object" "same_type (PT_Object OR PT_Array) PT_Object"
  "\<not> same_type (PT_Object OR PT_Nullable) PT_LinkingObjects" "\<not> same_type (PT_Object OR PT_Array) PT_LinkingObjects"
  "\<not> is_array (PT_Object OR PT_Nullable)" "is_array (PT_Object OR PT_Array)"
  by code_simp+

lemma object_type_of_table: "object_type_for_table_name (table_name_for_object_type n) = n"
  by (simp add: object_type_for_table_name_def table_name_for_object_type_def)

lemma storable_cases:
  assumes "storable p"
  obtains "prop_type p = PT_Object OR PT_Nullable" "\<not> requires_index p"
  | "prop_type p = PT_Object OR PT_Array" "\<not> requires_index p"
  | ct where "prop_type p \<in> set value_types" "object_type p = []" "\<not> same_type (prop_type p) PT_Object"
    "\<not> same_type (prop_type p) PT_LinkingObjects" "is_value_table ct"
    "to_core_type (prop_type p AND NOT Flags) = Inr ct" "to_core_type (prop_type p) = Inr ct"
    "from_core_type ct (is_nullable (prop_type p)) = Some (prop_type p AND NOT PT_Array)"
    "is_array (prop_type p) \<Longrightarrow> \<not> requires_index p"
proof -
  have "\<exists>ct. \<not> same_type t PT_Object \<and> \<not> same_type t PT_LinkingObjects \<and> is_value_table ct \<and>
      to_core_type (t AND NOT Flags) = Inr ct \<and> to_core_type t = Inr ct \<and>
      from_core_type ct (is_nullable t) = Some (t AND NOT PT_Array)" if "t \<in> set value_types" for t
    using storable_core [unfolded list_all_iff, rule_format, OF that]
    by (cases "to_core_type (t AND NOT Flags)") auto
  then show ?thesis
    using assms that unfolding storable_def by blast
qed

lemma column_for_storable:
  assumes "storable p" "links_to_table ops g p"
  shows "column_for ops g p = Inr (column_of p)"
  by (rule storable_cases [OF assms(1)])
    (use assms(2) in \<open>auto simp: column_for_def column_of_def links_to_table_def table_exists_def object_types
      bind_result_def Let_def\<close>)

lemma column_of_reads:
  assumes "storable p"
  shows "column_reads (column_of p) p"
proof -
  have name: "prop_name p \<noteq> object_id_column_name" using assms by (simp add: storable_def)
  show ?thesis
  proof (rule storable_cases [OF assms])
    fix ct
    assume p: "prop_type p \<in> set value_types" "object_type p = []" "\<not> same_type (prop_type p) PT_Object"
      "is_value_table ct" "to_core_type (prop_type p AND NOT Flags) = Inr ct"
      "from_core_type ct (is_nullable (prop_type p)) = Some (prop_type p AND NOT PT_Array)"
      "is_array (prop_type p) \<Longrightarrow> \<not> requires_index p"
    have "is_array (prop_type p) \<Longrightarrow> (prop_type p AND NOT PT_Array) OR PT_Array = prop_type p"
      "\<not> is_array (prop_type p) \<Longrightarrow> prop_type p AND NOT PT_Array = prop_type p"
      using value_array p(1) by (auto simp: list_all_iff)
    then show ?thesis
      using p name by (cases "is_array (prop_type p)")
        (simp_all add: column_reads_def column_property_def property_for_column_index_def column_of_def Let_def)
  qed (use name in \<open>simp_all add: column_reads_def column_property_def property_for_column_index_def column_of_def
      object_types object_type_of_table\<close>)
qed


subsection \<open>Changes of the list of columns\<close>

fun touched_column :: "schema_change \<Rightarrow> nat option" where
  "touched_column (MakePropertyNullable os p) = Some (table_column p)"
| "touched_column (MakePropertyRequired os p) = Some (table_column p)"
| "touched_column (ChangePropertyType os p q) = Some (table_column p)"
| "touched_column (AddIndex os p) = Some (table_column p)"
| "touched_column (RemoveIndex os p) = Some (table_column p)"
| "touched_column (RemoveProperty os p) = Some (table_column p)"
| "touched_column _ = None"

definition optional_property :: "property \<Rightarrow> property" where
  "optional_property p = p\<lparr>prop_type := prop_type p OR PT_Nullable\<rparr>"

definition required_property :: "property \<Rightarrow> property" where
  "required_property p = p\<lparr>prop_type := prop_type p AND NOT PT_Nullable\<rparr>"

fun new_column :: "schema_change \<Rightarrow> column \<Rightarrow> column" where
  "new_column (MakePropertyNullable os p) c = column_of (optional_property p)"
| "new_column (MakePropertyRequired os p) c = column_of (required_property p)"
| "new_column (ChangePropertyType os p q) c = column_of q"
| "new_column (AddIndex os p) c = c\<lparr>col_indexed := True\<rparr>"
| "new_column (RemoveIndex os p) c = c\<lparr>col_indexed := False\<rparr>"
| "new_column _ c = c"

fun added_column :: "schema_change \<Rightarrow> column list" where
  "added_column (AddProperty os p) = [column_of p]"
| "added_column _ = []"

definition change_columns :: "schema_change \<Rightarrow> column list \<Rightarrow> column list" where
  "change_columns c cs =
     (if is_remove_property c then delete_nth (removed_column c) cs
      else (case touched_column c of None \<Rightarrow> cs | Some i \<Rightarrow> cs[i := new_column c (cs ! i)]) @ added_column c)"

definition touches_below :: "nat \<Rightarrow> schema_change \<Rightarrow> bool" where
  "touches_below n c \<longleftrightarrow> (case touched_column c of None \<Rightarrow> True | Some i \<Rightarrow> i < n)"

lemma change_columns_append:
  assumes "\<not> is_remove_property c" "touches_below (length ds) c"
  shows "change_columns c (ds @ as) =
    (case touched_column c of None \<Rightarrow> ds | Some i \<Rightarrow> ds[i := new_column c (ds ! i)]) @ as @ added_column c"
  using assms by (auto simp: change_columns_def touches_below_def list_update_append nth_append split: option.split)

text \<open>A column that becomes optional is of the type that its values are copied to.\<close>

definition copies_values :: "schema_change \<Rightarrow> column list \<Rightarrow> bool" where
  "copies_values c cs \<longleftrightarrow> (case c of
       MakePropertyNullable os p \<Rightarrow> col_type (cs ! table_column p) = col_type (column_of (optional_property p)) \<and>
         plain_type (col_type (cs ! table_column p))
     | _ \<Rightarrow> True)"

text \<open>Without removals, every old column is changed by the changes that touch it, and by nothing else.\<close>

lemma fold_change_columns:
  assumes "\<forall>c \<in> set cs. \<not> is_remove_property c" "\<forall>c \<in> set cs. touches_below n c" "length ds = n"
  shows "\<exists>ds'. fold change_columns cs (ds @ as) = ds' @ as @ concat (map added_column cs) \<and> length ds' = n \<and>
    (\<forall>i < n. ds' ! i = fold new_column (filter (\<lambda>c. touched_column c = Some i) cs) (ds ! i))"
  using assms
proof (induction cs arbitrary: ds as)
  case Nil
  then show ?case by (intro exI [of _ ds]) simp
next
  case (Cons c cs)
  define ds1 where "ds1 = (case touched_column c of None \<Rightarrow> ds | Some i \<Rightarrow> ds[i := new_column c (ds ! i)])"
  have step: "change_columns c (ds @ as) = ds1 @ (as @ added_column c)"
    using Cons.prems by (simp add: change_columns_append ds1_def)
  have "length ds1 = n" using Cons.prems(3) by (simp add: ds1_def split: option.split)
  then obtain ds' where ds': "fold change_columns cs (ds1 @ (as @ added_column c)) =
      ds' @ (as @ added_column c) @ concat (map added_column cs)" "length ds' = n"
    "\<forall>i < n. ds' ! i = fold new_column (filter (\<lambda>c. touched_column c = Some i) cs) (ds1 ! i)"
    using Cons.IH [of ds1 "as @ added_column c"] Cons.prems(1,2) by auto
  have "ds1 ! i = (if touched_column c = Some i then new_column c (ds ! i) else ds ! i)" if "i < n" for i
    using that Cons.prems(3) by (auto simp: ds1_def split: option.split)
  then show ?case
    using ds' by (intro exI [of _ ds']) (auto simp: step)
qed

text \<open>The columns that the rest of a run removes are there and in descending order.\<close>

lemma delete_nth_is: "delete_nth = delete_column"
  by (intro ext) (simp add: delete_nth_def delete_column_def)

lemma fold_removals:
  assumes "\<forall>c \<in> set cs. is_remove_property c" "sorted_wrt (\<lambda>a b. b < a) (map removed_column cs)"
  shows "fold change_columns cs xs = nths xs (- set (map removed_column cs))"
proof -
  have "fold change_columns cs xs = fold delete_nth (map removed_column cs) xs"
    using assms(1) by (induction cs arbitrary: xs) (simp_all add: change_columns_def)
  then show ?thesis using delete_columns [OF assms(2)] by (simp add: delete_nth_is)
qed

end
