(* ===== verification/Object_Store_Update.thy ===== *)
theory Object_Store_Update
  imports Object_Store_Columns
begin

text \<open>
  The columns of a type that is in the file and in the wanted schema, after all changes of its
  comparison: exactly the wanted properties can be read, each with its type and its index.
\<close>

subsection \<open>Properties of a type and its columns\<close>

definition stored_in :: "object_schema \<Rightarrow> column list \<Rightarrow> bool" where
  "stored_in e cs \<longleftrightarrow> computed_properties e = [] \<and>
     map (\<lambda>p. p\<lparr>is_primary := False\<rparr>) (persisted_properties e) = properties_of_columns cs"

lemma property_for_column: "property_for_column_index cs i = map_option (\<lambda>p. p\<lparr>table_column := i\<rparr>) (column_property (cs ! i))"
  by (auto simp: property_for_column_index_def column_property_def Let_def split: option.split)

lemma properties_of_columns_set:
  "q \<in> set (properties_of_columns cs) \<longleftrightarrow>
     table_column q < length cs \<and> property_for_column_index cs (table_column q) = Some q"
proof -
  have "q \<in> set (properties_of_columns cs) \<longleftrightarrow> (\<exists>i < length cs. property_for_column_index cs i = Some q)"
    by (auto simp: properties_of_columns_def split: option.splits) force
  moreover have "property_for_column_index cs i = Some q \<Longrightarrow> table_column q = i" for i
    by (auto simp: property_for_column)
  ultimately show ?thesis by blast
qed

lemma properties_of_columns_distinct: "distinct (map table_column (properties_of_columns cs))"
proof -
  have columns: "set (map table_column (case property_for_column_index cs i of None \<Rightarrow> [] | Some p \<Rightarrow> [p])) \<subseteq> {i}" for i
    by (auto simp: property_for_column split: option.split)
  have "distinct (map table_column (concat (map (\<lambda>i. case property_for_column_index cs i of None \<Rightarrow> [] | Some p \<Rightarrow> [p]) is)))"
    if "distinct is" for "is"
    using that
  proof (induction "is")
    case (Cons i "is")
    have "i \<notin> set (map table_column (concat (map (\<lambda>i. case property_for_column_index cs i of None \<Rightarrow> [] | Some p \<Rightarrow> [p]) is)))"
      using Cons.prems by (auto simp: property_for_column split: option.splits)
    then show ?case
      using Cons by (auto simp: property_for_column split: option.split)
  qed simp
  then show ?thesis by (simp add: properties_of_columns_def)
qed

lemma stored_in_distinct:
  assumes "stored_in e cs"
  shows "distinct (map table_column (persisted_properties e))"
proof -
  have "map table_column (persisted_properties e) = map table_column (properties_of_columns cs)"
    using arg_cong [OF conjunct2 [OF assms [unfolded stored_in_def]], of "map table_column"] by (simp add: comp_def)
  then show ?thesis using properties_of_columns_distinct by metis
qed

text \<open>A column is read as a property, without regard to its index.\<close>

definition column_looks :: "column \<Rightarrow> property \<Rightarrow> bool" where
  "column_looks c p \<longleftrightarrow> (case column_property c of None \<Rightarrow> False
     | Some q \<Rightarrow> prop_name q = prop_name p \<and> prop_type q = prop_type p \<and> object_type q = object_type p)"

lemma column_property_indexed: "column_property c = Some q \<Longrightarrow> is_indexed q = col_indexed c"
  by (auto simp: column_property_def property_for_column_index_def Let_def split: if_splits option.splits)

lemma column_property_set_index:
  "column_property (c\<lparr>col_indexed := b\<rparr>) = map_option (\<lambda>q. q\<lparr>is_indexed := b\<rparr>) (column_property c)"
  by (auto simp: column_property_def property_for_column_index_def Let_def split: option.split)

lemma column_reads_looks: "column_reads c p \<longleftrightarrow> column_looks c p \<and> col_indexed c = requires_index p"
  by (auto simp: column_reads_def column_looks_def column_property_indexed split: option.split)

lemma column_looks_set_index [simp]: "column_looks (c\<lparr>col_indexed := b\<rparr>) p \<longleftrightarrow> column_looks c p"
  by (auto simp: column_looks_def column_property_set_index split: option.split)

lemma stored_property:
  assumes "stored_in e cs" "current \<in> set (persisted_properties e)"
  shows "table_column current < length cs \<and> column_looks (cs ! table_column current) current \<and>
    col_indexed (cs ! table_column current) = is_indexed current"
proof -
  have "current\<lparr>is_primary := False\<rparr> \<in> set (properties_of_columns cs)"
    using assms unfolding stored_in_def by (metis image_eqI list.set_map)
  then have *: "table_column current < length cs"
    "property_for_column_index cs (table_column current) = Some (current\<lparr>is_primary := False\<rparr>)"
    unfolding properties_of_columns_set by simp_all
  then obtain q where q: "column_property (cs ! table_column current) = Some q"
    "current\<lparr>is_primary := False\<rparr> = q\<lparr>table_column := table_column current\<rparr>"
    by (auto simp: property_for_column)
  have "prop_name q = prop_name current" "prop_type q = prop_type current" "object_type q = object_type current"
    "is_indexed q = is_indexed current"
    using arg_cong [OF q(2), of prop_name] arg_cong [OF q(2), of prop_type] arg_cong [OF q(2), of object_type]
      arg_cong [OF q(2), of is_indexed] by simp_all
  then show ?thesis using *(1) q(1) column_property_indexed [OF q(1)] by (simp add: column_looks_def)
qed

lemma stored_column:
  assumes "stored_in e cs" "i < length cs" "column_property (cs ! i) \<noteq> None"
  shows "\<exists>current \<in> set (persisted_properties e). table_column current = i"
proof -
  obtain q where "property_for_column_index cs i = Some q" "table_column q = i"
    using assms(3) by (auto simp: property_for_column)
  then have "q \<in> set (properties_of_columns cs)" "table_column q = i"
    using assms(2) by (simp_all add: properties_of_columns_set)
  then have "i \<in> set (map table_column (map (\<lambda>p. p\<lparr>is_primary := False\<rparr>) (persisted_properties e)))"
    using assms(1) by (auto simp: stored_in_def)
  then show ?thesis by auto
qed

subsection \<open>Changes of one column\<close>

lemma compare_property_touches:
  "c \<in> set (compare_property e t current) \<Longrightarrow> touched_column c = Some (table_column current)"
  by (auto simp: compare_property_def split: option.splits if_splits)

lemma changes_of_column:
  assumes "distinct (map table_column ps)"
  shows "filter (\<lambda>c. touched_column c = Some i) (concat (map (compare_property e t) ps)) =
    (case find (\<lambda>p. table_column p = i) ps of None \<Rightarrow> [] | Some p \<Rightarrow> compare_property e t p)"
  using assms
proof (induction ps)
  case (Cons p ps)
  have "filter (\<lambda>c. touched_column c = Some i) (compare_property e t p) =
      (if table_column p = i then compare_property e t p else [])"
    using compare_property_touches by (fastforce simp: filter_id_conv filter_empty_conv)
  moreover have "find (\<lambda>p. table_column p = i) ps = None" if "table_column p = i"
    unfolding find_None_iff using Cons.prems that by (metis distinct.simps(2) image_eqI list.set_map list.simps(9))
  ultimately show ?case using Cons by auto
qed simp

lemma object_changes_of_column:
  assumes "distinct (map table_column (persisted_properties e))"
  shows "filter (\<lambda>c. touched_column c = Some i) (object_changes e t) =
    (case find (\<lambda>p. table_column p = i) (persisted_properties e) of None \<Rightarrow> [] | Some p \<Rightarrow> compare_property e t p)"
  unfolding object_changes_def
  by (simp add: changes_of_column [OF assms])


text \<open>Two properties with the same name, type and link target have the same column but for its index.\<close>

lemma column_of_same:
  assumes "prop_name q = prop_name p" "prop_type q = prop_type p" "object_type q = object_type p"
  shows "column_of q = (column_of p)\<lparr>col_indexed :=
    \<not> same_type (prop_type p) PT_Object \<and> \<not> is_array (prop_type p) \<and> requires_index q\<rparr>"
  using assms by (simp add: column_of_def Let_def)

lemma storable_index: "storable p \<Longrightarrow> requires_index p \<Longrightarrow> \<not> same_type (prop_type p) PT_Object \<and> \<not> is_array (prop_type p)"
  by (erule storable_cases) auto

text \<open>What the changes of a stored property come to, in each order in which they may be made.\<close>

definition index_changes :: "object_schema \<Rightarrow> property \<Rightarrow> property \<Rightarrow> schema_change list" where
  "index_changes e current p =
     (if requires_index p then if \<not> is_indexed current then [AddIndex e current] else []
      else if requires_index current then [RemoveIndex e current] else [])"

definition optional_changes :: "object_schema \<Rightarrow> property \<Rightarrow> property \<Rightarrow> schema_change list" where
  "optional_changes e current p =
     (if is_nullable (prop_type current) \<noteq> is_nullable (prop_type p)
      then if is_nullable (prop_type current) then [MakePropertyRequired e current] else [MakePropertyNullable e current]
      else [])"

definition same_kind :: "property \<Rightarrow> property \<Rightarrow> bool" where
  "same_kind current p \<longleftrightarrow> same_type (prop_type current) (prop_type p) \<and> object_type current = object_type p \<and>
     is_array (prop_type current) = is_array (prop_type p)"

lemma compare_stored:
  assumes "stored_counterpart t current = Some p"
  shows "compare_property e t current =
    (if same_kind current p then optional_changes e current p @ index_changes e current p
     else [ChangePropertyType e current p])"
  using assms
  by (auto simp: stored_counterpart_def compare_property_def same_kind_def index_changes_def optional_changes_def
      split: option.splits if_splits)

lemma optional_change_looks:
  assumes "same_kind current p" "prop_name current = prop_name p" "storable p" "c \<in> set (optional_changes e current p)"
  shows "column_looks (new_column c x) p \<and>
    col_indexed (new_column c x) = (\<not> same_type (prop_type p) PT_Object \<and> \<not> is_array (prop_type p) \<and> requires_index current)"
proof -
  define q where "q = (if is_nullable (prop_type p) then optional_property current else required_property current)"
  have "c = (if is_nullable (prop_type p) then MakePropertyNullable e current else MakePropertyRequired e current)"
    using assms(4) by (auto simp: optional_changes_def split: if_splits)
  then have "new_column c x = column_of q" by (simp add: q_def)
  moreover have "prop_type q = prop_type p"
    using assms(1) optional_is [of "prop_type current" "prop_type p"] required_is [of "prop_type current" "prop_type p"]
    by (simp add: q_def optional_property_def required_property_def same_kind_def)
  moreover have "prop_name q = prop_name p" "object_type q = object_type p" "requires_index q = requires_index current"
    using assms(1,2) by (simp_all add: q_def optional_property_def required_property_def same_kind_def requires_index_def)
  ultimately have q: "new_column c x = column_of q" "prop_name q = prop_name p" "prop_type q = prop_type p"
    "object_type q = object_type p" "requires_index q = requires_index current"
    by blast+
  from q have "column_of q = (column_of p)\<lparr>col_indexed :=
    \<not> same_type (prop_type p) PT_Object \<and> \<not> is_array (prop_type p) \<and> requires_index current\<rparr>"
    using column_of_same [OF q(2-4)] q(5) by simp
  then show ?thesis
    using q(1) column_of_reads [OF assms(3)] by (simp add: column_reads_looks)
qed

lemma two_orders: "mset K = mset (as @ bs) \<Longrightarrow> length as \<le> 1 \<Longrightarrow> length bs \<le> 1 \<Longrightarrow> K = as @ bs \<or> K = bs @ as"
proof -
  assume K: "mset K = mset (as @ bs)" and len: "length as \<le> 1" "length bs \<le> 1"
  from len consider "as = []" "bs = []" | a where "as = [a]" "bs = []" | b where "as = []" "bs = [b]" | a b where "as = [a]" "bs = [b]"
    by (cases as; cases bs) auto
  then show ?thesis
  proof cases
    case (4 a b)
    then have "mset K = {#a, b#}" using K by simp
    then have "length K = 2" by (metis size_mset size_add_mset size_empty numeral_2_eq_2)
    then obtain x y where "K = [x, y]" by (auto simp: length_Suc_conv numeral_2_eq_2)
    with K 4 show ?thesis by (auto simp: add_eq_conv_diff)
  qed (use K in auto)
qed

lemma column_after_changes:
  assumes "stored_counterpart t current = Some p" "storable p" "prop_name current = prop_name p"
    "mset K = mset (compare_property e t current)" "column_looks x current" "col_indexed x = is_indexed current"
  shows "column_reads (fold new_column (K @ filter is_index_change K) x) p"
proof (cases "same_kind current p")
  case False
  then have "K = [ChangePropertyType e current p]" using assms(4) by (simp add: compare_stored [OF assms(1)])
  then show ?thesis using column_of_reads [OF assms(2)] by simp
next
  case True
  let ?O = "optional_changes e current p" and ?I = "index_changes e current p"
  have K: "K = ?O @ ?I \<or> K = ?I @ ?O"
    using assms(4) by (intro two_orders) (simp_all add: compare_stored [OF assms(1)] True optional_changes_def index_changes_def)
  have filters: "filter is_index_change ?O = []" "filter is_index_change ?I = ?I"
    by (simp_all add: optional_changes_def index_changes_def)
  have index: "column_reads (fold new_column ?I y) p"
    if "column_looks y p" "?I = [] \<Longrightarrow> col_indexed y = requires_index p" for y
    using that by (auto simp: column_reads_looks index_changes_def)
  have looks: "column_looks (fold new_column (?O @ ?I) x) p \<and> column_looks (fold new_column (?I @ ?O) x) p"
  proof (cases ?O)
    case Nil
    then have "prop_type current = prop_type p"
      using True by (intro property_type_ext) (auto simp: same_kind_def optional_changes_def split: if_splits)
    then have "column_looks x p"
      using assms(3,5) True by (auto simp: column_looks_def same_kind_def split: option.splits)
    then show ?thesis using Nil by (simp add: index_changes_def)
  next
    case (Cons c cs)
    then have "?O = [c]" by (auto simp: optional_changes_def split: if_splits)
    then show ?thesis
      using optional_change_looks [OF True assms(3,2), of c e] by (auto simp: index_changes_def)
  qed
  have kept: "col_indexed (fold new_column (?O @ ?I) x) = requires_index p \<and>
      col_indexed (fold new_column (?I @ ?O) x) = requires_index p" if none: "?I = []"
  proof (cases ?O)
    case Nil
    then show ?thesis using none assms(6)
      by (auto simp: index_changes_def requires_index_def split: if_splits)
  next
    case (Cons c cs)
    then have "?O = [c]" by (auto simp: optional_changes_def split: if_splits)
    then show ?thesis
      using optional_change_looks [OF True assms(3,2), of c e] none storable_index [OF assms(2)]
      by (auto simp: index_changes_def requires_index_def [of current] split: if_splits)
  qed
  have "fold new_column (K @ filter is_index_change K) x = fold new_column ?I (fold new_column K x)"
    using K filters by auto
  moreover have "column_looks (fold new_column K x) p" using K looks by blast
  moreover have "col_indexed (fold new_column K x) = requires_index p" if "?I = []" using K kept [OF that] by blast
  ultimately show ?thesis using index by simp
qed


subsection \<open>All columns of a type\<close>

definition target_ok :: "object_schema \<Rightarrow> bool" where
  "target_ok t \<longleftrightarrow> list_all storable (persisted_properties t) \<and> distinct (internal_names t)"

text \<open>The visible columns are the stored properties of the type, no more and no less.\<close>

definition columns_match :: "object_schema \<Rightarrow> column list \<Rightarrow> bool" where
  "columns_match t cs \<longleftrightarrow>
     (\<forall>c \<in> set cs. column_property c \<noteq> None \<longrightarrow> (\<exists>p \<in> set (persisted_properties t). column_reads c p)) \<and>
     (\<forall>p \<in> set (persisted_properties t). \<exists>c \<in> set cs. column_reads c p)"

lemma stored_counterpart_Some:
  assumes "stored_counterpart t current = Some p"
  shows "p \<in> set (persisted_properties t) \<and> prop_name p = prop_name current"
proof -
  have found: "property_for_name (prop_name current) t = Some p" "\<not> property_is_computed p t"
    using assms by (auto simp: stored_counterpart_def split: option.splits if_splits)
  have "p \<notin> set (computed_properties t)"
    using found(2) by (auto simp: property_is_computed_def list_ex_iff same_property_def)
  then show ?thesis
    using found(1) by (auto simp: property_for_name_def find_Some_iff split: option.splits)
qed

lemma stored_counterpart_of:
  assumes "target_ok t" "p \<in> set (persisted_properties t)" "prop_name current = prop_name p"
  shows "stored_counterpart t current = Some p"
proof -
  have distinct: "distinct (map prop_name (persisted_properties t))"
    "\<forall>q \<in> set (computed_properties t). prop_name q \<noteq> prop_name p"
    using assms(1,2) by (auto simp: target_ok_def internal_names_def)
  then have "find (\<lambda>q. prop_name q = prop_name p) (persisted_properties t) = Some p"
    using assms(2) by (simp add: find_distinct)
  moreover have "\<not> property_is_computed p t"
    using distinct(2) by (auto simp: property_is_computed_def list_ex_iff same_property_def)
  ultimately show ?thesis by (simp add: stored_counterpart_def property_for_name_def assms(3))
qed

lemma compare_property_removal:
  "RemoveProperty e' q \<in> set (compare_property e t current) \<longleftrightarrow>
     stored_counterpart t current = None \<and> e' = e \<and> q = current"
  by (auto simp: compare_property_def stored_counterpart_def split: option.splits)

lemma removals_of_object:
  "c \<in> set (object_changes e t) \<Longrightarrow> is_remove_property c \<Longrightarrow>
     \<exists>current \<in> set (persisted_properties e). c = RemoveProperty e current \<and> stored_counterpart t current = None"
  by (cases c) (auto simp: object_changes_def compare_property_removal)

lemma object_changes_touch:
  "c \<in> set (object_changes e t) \<Longrightarrow> stored_in e cs \<Longrightarrow> touches_below (length cs) c"
  using stored_property [of e cs] compare_property_touches
  by (auto simp: object_changes_def touches_below_def)

lemma index_changes_only: "is_index_change c \<Longrightarrow> \<not> is_remove_property c \<and> added_column c = []"
  by (cases c) auto

text \<open>
  The changes of one type, the removals last: what the comparison of the type gives, in an order that
  is fixed only for the removals.
\<close>

definition update_plan ::
  "object_schema \<Rightarrow> object_schema \<Rightarrow> column list \<Rightarrow> schema_change list \<Rightarrow> schema_change list \<Rightarrow> bool" where
  "update_plan e t cs others removals \<longleftrightarrow> stored_in e cs \<and> target_ok t \<and>
     mset (others @ removals) = mset (object_changes e t) \<and>
     (\<forall>c \<in> set others. \<not> is_remove_property c) \<and> (\<forall>c \<in> set removals. is_remove_property c) \<and>
     sorted_wrt (\<lambda>a b. b < a) (map removed_column removals)"

lemma plan_set: "update_plan e t cs others removals \<Longrightarrow> set others \<union> set removals = set (object_changes e t)"
  unfolding update_plan_def by (metis mset_eq_setD set_append)

lemma plan_touches: "update_plan e t cs others removals \<Longrightarrow> c \<in> set others \<Longrightarrow> touches_below (length cs) c"
  using object_changes_touch plan_set unfolding update_plan_def by blast

lemma plan_removes:
  assumes "update_plan e t cs others removals"
  shows "i \<in> set (map removed_column removals) \<longleftrightarrow>
    (\<exists>current \<in> set (persisted_properties e). table_column current = i \<and> stored_counterpart t current = None)"
proof
  assume "i \<in> set (map removed_column removals)"
  then obtain c where c: "c \<in> set removals" "removed_column c = i" by auto
  then have "c \<in> set (object_changes e t)" "is_remove_property c"
    using plan_set [OF assms] assms by (auto simp: update_plan_def)
  then obtain current where "current \<in> set (persisted_properties e)" "c = RemoveProperty e current"
    "stored_counterpart t current = None"
    using removals_of_object by blast
  then show "\<exists>current \<in> set (persisted_properties e). table_column current = i \<and> stored_counterpart t current = None"
    using c(2) by auto
next
  assume "\<exists>current \<in> set (persisted_properties e). table_column current = i \<and> stored_counterpart t current = None"
  then obtain current where current: "current \<in> set (persisted_properties e)" "table_column current = i"
    "stored_counterpart t current = None" by blast
  then have "RemoveProperty e current \<in> set (object_changes e t)"
    using compare_property_removal [of e current e t current] by (auto simp: object_changes_def)
  then have "RemoveProperty e current \<in> set removals"
    using plan_set [OF assms] assms unfolding update_plan_def by (metis UnE is_remove_property.simps(1))
  then show "i \<in> set (map removed_column removals)" using current(2) by force
qed

lemma find_column:
  assumes "distinct (map table_column ps)" "current \<in> set ps"
  shows "find (\<lambda>p. table_column p = table_column current) ps = Some current"
  using assms by (simp add: find_distinct)

lemma plan_of_column:
  assumes plan: "update_plan e t cs others removals"
    and current: "current \<in> set (persisted_properties e)" "stored_counterpart t current = Some p"
  shows "table_column current \<notin> set (map removed_column removals)"
    and "mset (filter (\<lambda>c. touched_column c = Some (table_column current)) others) = mset (compare_property e t current)"
proof -
  let ?f = "filter (\<lambda>c. touched_column c = Some (table_column current))"
  have distinct: "distinct (map table_column (persisted_properties e))"
    using plan stored_in_distinct by (auto simp: update_plan_def)
  have only: "q = current" if "q \<in> set (persisted_properties e)" "table_column q = table_column current" for q
    using find_column [OF distinct that(1)] find_column [OF distinct current(1)] that(2)
    by (metis option.inject)
  show absent: "table_column current \<notin> set (map removed_column removals)"
    unfolding plan_removes [OF plan] using only current(2) by (metis option.distinct(1))
  have "touched_column c = Some (removed_column c)" if "is_remove_property c" for c
    using that by (cases c) auto
  moreover have "\<forall>c \<in> set removals. is_remove_property c" using plan by (simp add: update_plan_def)
  ultimately have "?f removals = []"
    using absent by (metis (mono_tags, lifting) filter_empty_conv image_eqI list.set_map option.inject)
  moreover have "mset (?f (others @ removals)) = mset (compare_property e t current)"
  proof -
    have "mset (?f (others @ removals)) = mset (?f (object_changes e t))"
      using plan unfolding update_plan_def by (metis mset_filter)
    then show ?thesis
      by (simp add: object_changes_of_column [OF distinct] find_column [OF distinct current(1)] del: filter_append)
  qed
  ultimately show "mset (?f others) = mset (compare_property e t current)" by simp
qed

lemma plan_of_hidden_column:
  assumes plan: "update_plan e t cs others removals"
    and hidden: "i < length cs" "column_property (cs ! i) = None"
  shows "filter (\<lambda>c. touched_column c = Some i) others = []"
proof -
  have "find (\<lambda>p. table_column p = i) (persisted_properties e) = None"
    using stored_property [of e cs] hidden(2) plan
    by (fastforce simp: find_None_iff update_plan_def column_looks_def)
  then have "filter (\<lambda>c. touched_column c = Some i) (object_changes e t) = []"
    using object_changes_of_column [OF stored_in_distinct, of e cs i t] plan
    by (simp add: update_plan_def)
  then show ?thesis using plan_set [OF plan] by (auto simp: filter_empty_conv)
qed

lemma plan_additions:
  assumes "update_plan e t cs others removals"
  shows "c \<in> set (concat (map added_column others)) \<longleftrightarrow>
    (\<exists>p \<in> set (persisted_properties t). c = column_of p \<and> prop_name p \<notin> set (internal_names e))"
proof -
  have "AddProperty e' p \<notin> set (compare_property e t q)" for e' p q
    by (auto simp: compare_property_def split: option.split)
  then have changes: "AddProperty e' p \<in> set (object_changes e t) \<longleftrightarrow>
      e' = e \<and> p \<in> set (persisted_properties t) \<and> prop_name p \<notin> set (internal_names e)" for e' p
    by (auto simp: object_changes_def property_for_name_None)
  have "AddProperty e' p \<in> set others \<longleftrightarrow> AddProperty e' p \<in> set (object_changes e t)" for e' p
    using plan_set [OF assms] assms unfolding update_plan_def
    by (metis UnCI UnE is_remove_property.simps(5))
  moreover have "c \<in> set (added_column x) \<longleftrightarrow> (\<exists>e' p. x = AddProperty e' p \<and> c = column_of p)" for x
    by (cases x) auto
  ultimately show ?thesis using changes by auto
qed


lemma set_nths_append:
  assumes "\<forall>i \<in> R. i < length ds"
  shows "set (nths (ds @ as) (- R)) = {ds ! i | i. i < length ds \<and> i \<notin> R} \<union> set as"
proof -
  have "{j. j + length ds \<in> - R} = UNIV" using assms by fastforce
  then have "nths (ds @ as) (- R) = nths ds (- R) @ as" by (simp add: nths_append nths_all)
  then show ?thesis by (auto simp: set_nths)
qed

text \<open>
  The run over all columns: the changes, the index changes once more, then the removals.
\<close>

lemma columns_after_update:
  assumes plan: "update_plan e t cs others removals"
  shows "columns_match t (fold change_columns ((others @ filter is_index_change others) @ removals) cs)"
proof -
  let ?M = "others @ filter is_index_change others"
  let ?n = "length cs" and ?R = "set (map removed_column removals)"
  let ?added = "concat (map added_column others)"
  have plain: "\<forall>c \<in> set ?M. \<not> is_remove_property c" "\<forall>c \<in> set ?M. touches_below ?n c"
    using plan plan_touches [OF plan] by (auto simp: update_plan_def)
  have "concat (map added_column (filter is_index_change others)) = []"
    by (simp add: index_changes_only)
  then have added: "concat (map added_column ?M) = ?added" by simp
  obtain ds where ds: "fold change_columns ?M cs = ds @ ?added" "length ds = ?n"
    "\<forall>i < ?n. ds ! i = fold new_column (filter (\<lambda>c. touched_column c = Some i) ?M) (cs ! i)"
    using fold_change_columns [OF plain, of cs "[]"] added by auto
  have final: "fold change_columns (?M @ removals) cs = nths (ds @ ?added) (- ?R)"
    using plan fold_removals [of removals] ds(1) by (simp add: update_plan_def)
  have visible: "column_reads (ds ! table_column current) p"
    if current: "current \<in> set (persisted_properties e)" "stored_counterpart t current = Some p" for current p
  proof -
    have stored: "table_column current < ?n" "column_looks (cs ! table_column current) current"
      "col_indexed (cs ! table_column current) = is_indexed current"
      using stored_property [OF _ current(1), of cs] plan by (simp_all add: update_plan_def)
    have "storable p" "prop_name current = prop_name p"
      using stored_counterpart_Some [OF current(2)] plan by (auto simp: update_plan_def target_ok_def list_all_iff)
    then have "column_reads (fold new_column (filter (\<lambda>c. touched_column c = Some (table_column current)) others @
        filter is_index_change (filter (\<lambda>c. touched_column c = Some (table_column current)) others)) (cs ! table_column current)) p"
      by (rule column_after_changes [OF current(2) _ _ plan_of_column(2) [OF plan current] stored(2,3)])
    then show ?thesis using ds(3) stored(1) by (simp add: filter_filter conj_commute)
  qed
  have R: "i < ?n" if "i \<in> ?R" for i
    using that [unfolded plan_removes [OF plan]] stored_property [of e cs] plan unfolding update_plan_def by blast
  have rows: "set (fold change_columns (?M @ removals) cs) = {ds ! i | i. i < ?n \<and> i \<notin> ?R} \<union> set ?added"
    unfolding final using set_nths_append [of ?R ds ?added] R ds(2) by auto
  show ?thesis
    unfolding columns_match_def rows
  proof (intro conjI ballI impI)
    fix c
    assume "c \<in> {ds ! i | i. i < ?n \<and> i \<notin> ?R} \<union> set ?added" and seen: "column_property c \<noteq> None"
    then consider i where "i < ?n" "i \<notin> ?R" "c = ds ! i" | "c \<in> set ?added" by blast
    then show "\<exists>p \<in> set (persisted_properties t). column_reads c p"
    proof cases
      case (1 i)
      show ?thesis
      proof (cases "column_property (cs ! i)")
        case None
        then have "c = cs ! i"
          using 1 ds(3) plan_of_hidden_column [OF plan 1(1)] by (simp add: filter_filter conj_commute filter_False filter_empty_conv)
        then show ?thesis using None seen by simp
      next
        case (Some q)
        then obtain current where current: "current \<in> set (persisted_properties e)" "table_column current = i"
          using stored_column [of e cs i] plan 1(1) by (auto simp: update_plan_def)
        then obtain p where "stored_counterpart t current = Some p"
          using 1(2) plan_removes [OF plan, of i] by fastforce
        then show ?thesis
          using visible [OF current(1)] current(2) 1(3) stored_counterpart_Some by blast
      qed
    next
      case 2
      then obtain p where "p \<in> set (persisted_properties t)" "c = column_of p"
        using plan_additions [OF plan] by blast
      then show ?thesis
        using column_of_reads plan by (auto simp: update_plan_def target_ok_def list_all_iff)
    qed
  next
    fix p
    assume p: "p \<in> set (persisted_properties t)"
    have e: "computed_properties e = []" and t: "target_ok t" using plan by (simp_all add: update_plan_def stored_in_def)
    show "\<exists>c \<in> {ds ! i | i. i < ?n \<and> i \<notin> ?R} \<union> set ?added. column_reads c p"
    proof (cases "prop_name p \<in> set (internal_names e)")
      case True
      then obtain current where current: "current \<in> set (persisted_properties e)" "prop_name current = prop_name p"
        using e by (auto simp: internal_names_def)
      then have counterpart: "stored_counterpart t current = Some p" using stored_counterpart_of [OF t p] by blast
      have "table_column current < ?n" using stored_property [OF _ current(1), of cs] plan by (simp add: update_plan_def)
      then show ?thesis
        using visible [OF current(1) counterpart] plan_of_column(1) [OF plan current(1) counterpart] by blast
    next
      case False
      then have "column_of p \<in> set ?added" using plan_additions [OF plan] p by blast
      then show ?thesis
        using column_of_reads [of p] t p by (auto simp: target_ok_def list_all_iff)
    qed
  qed
qed

end
