(* ===== verification/Object_Store_Compare.thy ===== *)
theory Object_Store_Compare
  imports Object_Store_Update
begin

text \<open>
  The order of the changes that a comparison returns: new tables first, and among the changes of
  one type the removals last. \<open>std::partition\<close> may reorder everything else behind the first removal.
\<close>

fun changed_object :: "schema_change \<Rightarrow> object_schema" where
  "changed_object (AddTable os) = os"
| "changed_object (RemoveTable os) = os"
| "changed_object (AddInitialProperties os) = os"
| "changed_object (AddProperty os p) = os"
| "changed_object (RemoveProperty os p) = os"
| "changed_object (ChangePropertyType os p q) = os"
| "changed_object (MakePropertyNullable os p) = os"
| "changed_object (MakePropertyRequired os p) = os"
| "changed_object (AddIndex os p) = os"
| "changed_object (RemoveIndex os p) = os"
| "changed_object (ChangePrimaryKey os p) = os"

definition changed_type :: "schema_change \<Rightarrow> string" where
  "changed_type c = name (changed_object c)"

definition changes_of :: "string \<Rightarrow> schema_change list \<Rightarrow> schema_change list" where
  "changes_of n cs = filter (\<lambda>c. changed_type c = n) cs"

text \<open>
  What the implementations of \<open>std::partition\<close> do: the elements in front of the first one to be
  moved stay where they are.
\<close>

definition keeps_front :: "(schema_change list \<Rightarrow> schema_change list) \<Rightarrow> bool" where
  "keeps_front order \<longleftrightarrow> (\<forall>as bs. (\<forall>c \<in> set as. \<not> is_remove_property c) \<longrightarrow> (\<exists>cs. order (as @ bs) = as @ cs))"

fun is_add_table :: "schema_change \<Rightarrow> bool" where
  "is_add_table (AddTable os) = True"
| "is_add_table _ = False"

lemma add_table_not_removal: "is_add_table c \<Longrightarrow> \<not> is_remove_property c"
  by (cases c) auto

lemma compare_property_type: "c \<in> set (compare_property e t p) \<Longrightarrow> changed_object c = e \<and> \<not> is_add_table c"
  unfolding compare_property_def by (cases "property_for_name (prop_name p) t") (auto split: if_splits)

lemma object_changes_type: "c \<in> set (object_changes e t) \<Longrightarrow> changed_object c = e \<and> \<not> is_add_table c"
  unfolding object_changes_def using compare_property_type by (auto split: if_splits)

lemma table_changes_add: "c \<in> set (table_changes False pair) \<Longrightarrow> is_add_table c"
  by (cases "(False, pair)" rule: table_changes.cases) auto

lemma column_changes_keep_tables:
  assumes "orders_changes order" "keeps_front order" "\<forall>c \<in> set as. is_add_table c" "\<forall>c \<in> set bs. \<not> is_add_table c"
  shows "\<exists>bs'. fold (column_changes order) pairs (as @ bs) = as @ bs' \<and> (\<forall>c \<in> set bs'. \<not> is_add_table c)"
  using assms(4)
proof (induction pairs arbitrary: bs)
  case (Cons pair pairs)
  have "\<exists>bs'. column_changes order pair (as @ bs) = as @ bs' \<and> (\<forall>c \<in> set bs'. \<not> is_add_table c)"
  proof (cases pair rule: pair_changes.cases)
    case (1 t e)
    have "\<forall>c \<in> set as. \<not> is_remove_property c" using assms(3) add_table_not_removal by blast
    then obtain cs where cs: "order (as @ (bs @ object_changes e t)) = as @ cs"
      using assms(2) unfolding keeps_front_def by blast
    have "mset (as @ cs) = mset (as @ (bs @ object_changes e t))"
      using assms(1) cs by (metis orders_changes_def)
    then have "set cs = set (bs @ object_changes e t)"
      by (metis add_left_cancel mset_append mset_eq_setD)
    then have "\<forall>c \<in> set cs. \<not> is_add_table c" using Cons.prems object_changes_type by auto
    then show ?thesis using 1 cs by (simp add: compare_objects_eq)
  qed (use Cons.prems in simp_all)
  then show ?case using Cons.IH by fastforce
qed simp

lemma compare_tables_first:
  assumes "orders_changes order" "keeps_front order"
  shows "\<exists>as bs. compare order s target False = as @ bs \<and> (\<forall>c \<in> set as. is_add_table c) \<and> (\<forall>c \<in> set bs. \<not> is_add_table c)"
proof -
  have "\<forall>c \<in> set (concat (map (table_changes False) pairs)). is_add_table c" for pairs
    using table_changes_add by auto
  then show ?thesis
    using column_changes_keep_tables [OF assms, of "concat (map (table_changes False) (zip_matching target s))" "[]"]
    by (fastforce simp: compare_def)
qed

text \<open>The changes of one type, the removals last.\<close>

definition removals_last :: "schema_change list \<Rightarrow> bool" where
  "removals_last cs \<longleftrightarrow> sorted_wrt (\<lambda>a b. is_remove_property a \<longrightarrow> is_remove_property b) cs"

lemma removals_last_split:
  "removals_last cs \<Longrightarrow> cs = filter (\<lambda>c. \<not> is_remove_property c) cs @ filter is_remove_property cs"
proof (induction cs)
  case (Cons c cs)
  show ?case
  proof (cases "is_remove_property c")
    case True
    then have "filter (\<lambda>c. \<not> is_remove_property c) cs = []" "filter is_remove_property cs = cs"
      using Cons.prems by (auto simp: removals_last_def filter_empty_conv filter_id_conv)
    then show ?thesis using True by simp
  next
    case False
    then show ?thesis using Cons by (simp add: removals_last_def)
  qed
qed simp

lemma removals_last_uniform:
  "\<forall>c \<in> set cs. is_remove_property c = b \<Longrightarrow> removals_last cs"
  unfolding removals_last_def by (induction cs) auto

lemma removals_last_append:
  "removals_last (as @ bs) \<longleftrightarrow> removals_last as \<and> removals_last bs \<and>
     (\<forall>a \<in> set as. \<forall>b \<in> set bs. is_remove_property a \<longrightarrow> is_remove_property b)"
  by (simp add: removals_last_def sorted_wrt_append)

lemma removals_last_order: "orders_changes order \<Longrightarrow> removals_last (order cs)"
proof -
  assume "orders_changes order"
  then obtain others removals where "order cs = others @ removals" "\<not> list_ex is_remove_property others"
    "list_all is_remove_property removals"
    unfolding orders_changes_def by blast
  then show ?thesis
    using removals_last_uniform [of others False] removals_last_uniform [of removals True]
    by (simp add: removals_last_append list_ex_iff list_all_iff)
qed

lemma removals_last_of: "removals_last cs \<Longrightarrow> removals_last (changes_of n cs)"
  by (simp add: removals_last_def changes_of_def sorted_wrt_filter)

lemma distinct_concat_apart:
  "distinct (concat (map f xs)) \<Longrightarrow> x \<in> set xs \<Longrightarrow> y \<in> set xs \<Longrightarrow> x \<noteq> y \<Longrightarrow> set (f x) \<inter> set (f y) = {}"
  by (induction xs) auto

lemma zip_matching_targets:
  "concat (map (\<lambda>(t, x). case t of Some t \<Rightarrow> [name t] | None \<Rightarrow> []) (zip_matching a b)) = map name a"
proof (induction a b rule: zip_matching.induct)
  case (2 ys)
  show ?case by (simp add: comp_def)
next
  case (3 x xs)
  have "concat (map (\<lambda>(t, x). case t of Some t \<Rightarrow> [name t] | None \<Rightarrow> []) (map (\<lambda>x. (Some x, None)) ys)) = map name ys" for ys :: schema
    by (induction ys) auto
  from this [of "x # xs"] show ?case by (simp only: zip_matching.simps)
qed auto

lemma zip_matching_new:
  assumes "distinct_types a" "distinct_types b" "(Some t, None) \<in> set (zip_matching a b)"
  shows "t \<in> set a \<and> name t \<notin> set (map name b)"
proof -
  let ?f = "\<lambda>(t, x :: object_schema option). case t of Some t \<Rightarrow> [name t] | None \<Rightarrow> []"
  have t: "t \<in> set a" using assms(3)
    by (induction a b rule: zip_matching.induct) (auto split: if_splits)
  moreover have "name t \<noteq> name e" if e: "e \<in> set b" for e
  proof
    assume "name t = name e"
    then have "(Some t, Some e) \<in> set (zip_matching a b)"
      using zip_matching_pairs [OF assms(1,2)] t e by blast
    moreover have "distinct (concat (map ?f (zip_matching a b)))"
      using assms(1) by (simp only: zip_matching_targets distinct_types_def)
    ultimately show False
      using distinct_concat_apart [of ?f "zip_matching a b" "(Some t, None)" "(Some t, Some e)"] assms(3) by simp
  qed
  ultimately show ?thesis by auto
qed

lemma removals_last_compare:
  assumes "orders_changes order" "n \<in> set (map name s)" "distinct_types s" "distinct_types target"
  shows "removals_last (changes_of n (compare order s target False))"
proof -
  have step: "removals_last (changes_of n (column_changes order pair cs))"
    if "pair \<in> set (zip_matching target s)" "removals_last (changes_of n cs)" for pair cs
  proof (cases pair rule: pair_changes.cases)
    case (1 t e)
    then show ?thesis
      by (simp add: compare_objects_eq removals_last_of removals_last_order assms(1))
  next
    case (2 t)
    then have "name t \<noteq> n" using zip_matching_new [OF assms(4,3), of t] that(1) assms(2) by auto
    then show ?thesis using 2 that(2) by (simp add: changes_of_def changed_type_def)
  qed (use that(2) in simp)
  have "removals_last (changes_of n (fold (column_changes order) pairs cs))"
    if "set pairs \<subseteq> set (zip_matching target s)" "removals_last (changes_of n cs)" for pairs cs
    using that by (induction pairs arbitrary: cs) (simp_all add: step)
  moreover have "removals_last (changes_of n (concat (map (table_changes False) pairs)))" for pairs
    using table_changes_add add_table_not_removal
    by (intro removals_last_uniform [of _ False]) (auto simp: changes_of_def)
  ultimately show ?thesis by (simp add: compare_def)
qed

lemma concat_single:
  "distinct (concat (map f ps)) \<Longrightarrow> p \<in> set ps \<Longrightarrow> f p \<noteq> [] \<Longrightarrow> \<forall>q \<in> set ps. q \<noteq> p \<longrightarrow> g q = [] \<Longrightarrow>
   concat (map g ps) = g p"
proof (induction ps)
  case (Cons q ps)
  show ?case
  proof (cases "q = p")
    case True
    obtain x where "x \<in> set (f p)" using Cons.prems(3) by (cases "f p") auto
    then have "p \<notin> set ps" using Cons.prems(1) True by auto
    then have "concat (map g ps) = []" using Cons.prems(4) by auto
    then show ?thesis using True by simp
  qed (use Cons in auto)
qed simp

text \<open>Which changes are made to a type of the file.\<close>

lemma changes_of_mset:
  assumes "orders_changes order" "distinct_types s" "distinct_types target" "e \<in> set s"
  shows "mset (changes_of (name e) (compare order s target False)) =
    (case find (\<lambda>t. name t = name e) target of None \<Rightarrow> {#} | Some t \<Rightarrow> mset (object_changes e t))"
proof -
  let ?pairs = "zip_matching target s"
  have one: "changes_of (name e) (table_changes False pair @ pair_changes pair) =
      (case pair of (Some t, Some e') \<Rightarrow> if e' = e then object_changes e t else [] | _ \<Rightarrow> [])" if "pair \<in> set ?pairs" for pair
  proof (cases pair rule: pair_changes.cases)
    case (1 t e')
    then have "e' \<in> set s" using that zip_matching_pairs [OF assms(3,2)] by auto
    then have "name e' = name e \<longleftrightarrow> e' = e"
      using assms(2,4) by (auto simp: distinct_types_def distinct_map inj_on_def)
    then show ?thesis
      using 1 object_changes_type by (fastforce simp: changes_of_def changed_type_def filter_id_conv filter_empty_conv)
  next
    case (2 t)
    then show ?thesis
      using zip_matching_new [OF assms(3,2), of t] that assms(4) by (auto simp: changes_of_def changed_type_def)
  next
    case (3 x)
    then show ?thesis by (cases x) (simp_all add: changes_of_def)
  qed
  let ?g = "\<lambda>pair. changes_of (name e) (table_changes False pair @ pair_changes pair)"
  have "mset (changes_of (name e) (compare order s target False)) =
      mset (changes_of (name e) (concat (map (table_changes False) ?pairs))) +
      mset (changes_of (name e) (concat (map pair_changes ?pairs)))"
    by (simp add: changes_of_def compare_def mset_column_changes [OF assms(1)])
  also have "\<dots> = mset (concat (map ?g ps))" if "ps = ?pairs" for ps
    unfolding that [symmetric] by (induction ps) (simp_all add: changes_of_def)
  finally have all: "mset (changes_of (name e) (compare order s target False)) = mset (concat (map ?g ?pairs))"
    by blast
  show ?thesis
  proof (cases "find (\<lambda>t. name t = name e) target")
    case None
    then have "?g pair = []" if "pair \<in> set ?pairs" for pair
      using one [OF that] that zip_matching_pairs [OF assms(3,2)]
      by (cases pair) (auto simp: find_None_iff split: option.splits)
    then have "concat (map ?g ?pairs) = []" by simp
    then show ?thesis using None all by simp
  next
    case (Some t)
    have t: "t \<in> set target" "name t = name e"
      using Some assms(3) find_distinct [of name target "name e" t] by (auto simp: distinct_types_def)
    then have pair: "(Some t, Some e) \<in> set ?pairs" using zip_matching_pairs [OF assms(3,2)] assms(4) by simp
    have "?g q = []" if q: "q \<in> set ?pairs" "q \<noteq> (Some t, Some e)" for q
    proof -
      have "t' = t" if "q = (Some t', Some e)" for t'
        using q(1) that zip_matching_pairs [OF assms(3,2)] t assms(3)
        by (auto simp: distinct_types_def distinct_map inj_on_def)
      then have "q \<noteq> (Some t', Some e)" for t' using q(2) by blast
      then show ?thesis unfolding one [OF q(1)] by (cases q) (auto split: option.split)
    qed
    moreover have "distinct (concat (map (\<lambda>(t, x). case x of Some e \<Rightarrow> [name e] | None \<Rightarrow> []) ?pairs))"
      using assms(2) by (simp only: zip_matching_existing distinct_types_def)
    ultimately have "concat (map ?g ?pairs) = ?g (Some t, Some e)"
      using pair by (intro concat_single) auto
    then show ?thesis using all Some one [OF pair] by simp
  qed
qed

text \<open>The changes of a type, split into the removals and the others, are a plan for its columns.\<close>

lemma compare_plan:
  assumes "orders_changes order" "distinct_types s" "distinct_types target" "e \<in> set s" "t \<in> set target"
    "name t = name e" "stored_in e cs" "target_ok t"
  shows "update_plan e t cs
    (filter (\<lambda>c. \<not> is_remove_property c) (changes_of (name e) (compare order s target False)))
    (filter is_remove_property (changes_of (name e) (compare order s target False)))"
proof -
  let ?cs = "compare order s target False" let ?es = "changes_of (name e) ?cs"
  have "find (\<lambda>t. name t = name e) target = Some t"
    using assms(3,5,6) by (simp add: find_distinct distinct_types_def)
  then have mset: "mset ?es = mset (object_changes e t)"
    using changes_of_mset [OF assms(1-4)] by simp
  have last: "?es = filter (\<lambda>c. \<not> is_remove_property c) ?es @ filter is_remove_property ?es"
    using removals_last_split [OF removals_last_compare [OF assms(1) _ assms(2,3)]] assms(4) by simp
  have removals: "filter is_remove_property ?es = filter (\<lambda>c. changed_type c = name e) (filter is_remove_property ?cs)"
    by (simp add: changes_of_def conj_commute)
  have "sorted_wrt (\<lambda>a b. b \<le> a) (map removed_column (filter is_remove_property ?es))"
    unfolding removals using sorted_wrt_filter [OF descending_compare [OF assms(1), of s target False]]
    by (simp add: sorted_wrt_map)
  moreover have "distinct (map removed_column (filter is_remove_property ?es))"
  proof -
    have "filter is_remove_property (object_changes e t) = filter (removes e) (object_changes e t)"
    proof (intro filter_cong refl)
      fix c assume "c \<in> set (object_changes e t)"
      from object_changes_type [OF this] show "is_remove_property c = removes e c"
        by (cases c) (auto simp: removes_def)
    qed
    then have "mset (filter is_remove_property ?es) \<subseteq># mset (map (RemoveProperty e) (persisted_properties e))"
      using removals_object [of e t] mset by (metis mset_filter)
    then have "image_mset removed_column (mset (filter is_remove_property ?es)) \<subseteq>#
        image_mset removed_column (mset (map (RemoveProperty e) (persisted_properties e)))"
      by (rule image_mset_subseteq_mono)
    moreover have "map removed_column (map (RemoveProperty e) ps) = map table_column ps" for ps
      by (induction ps) simp_all
    ultimately have "mset (map removed_column (filter is_remove_property ?es)) \<subseteq># mset (map table_column (persisted_properties e))"
      by (metis mset_map)
    then show ?thesis using distinct_submset stored_in_distinct [OF assms(7)] by blast
  qed
  ultimately have "sorted_wrt (\<lambda>a b. b < a) (map removed_column (filter is_remove_property ?es))"
    by (rule strictly_descending)
  then show ?thesis
    using assms(7,8) mset last by (auto simp: update_plan_def)
qed

end
