(* ===== verification/Object_Store_Steps.thy ===== *)
theory Object_Store_Steps
  imports Object_Store_Compare
begin

text \<open>
  One change applied to a group: under the laws of \<open>group_store\<close> it succeeds where it can, and it
  changes the columns of its own type as \<open>change_columns\<close> says and those of no other type.
\<close>

subsection \<open>Results and loops\<close>

text \<open>The result satisfies \<open>P\<close>, or the run ended with a duplicate value of a primary key.\<close>

definition outcome :: "store_error + 'g \<Rightarrow> ('g \<Rightarrow> bool) \<Rightarrow> bool" where
  "outcome r P \<longleftrightarrow> (case r of Inl e \<Rightarrow> (\<exists>n p. e = Duplicate_primary_key n p) | Inr g \<Rightarrow> P g)"

lemma outcome_Inr [simp]: "outcome (Inr g) P = P g"
  by (simp add: outcome_def)

lemma outcome_mono: "outcome r P \<Longrightarrow> (\<And>g. P g \<Longrightarrow> Q g) \<Longrightarrow> outcome r Q"
  by (auto simp: outcome_def split: sum.splits)

lemma outcome_bind: "outcome r P \<Longrightarrow> (\<And>g. P g \<Longrightarrow> outcome (f g) Q) \<Longrightarrow> outcome (bind_result r f) Q"
  by (cases r) (auto simp: outcome_def bind_result_def)

text \<open>The invariant of a loop speaks of the elements that are still to come.\<close>

lemma outcome_run:
  assumes "\<And>x xs g. I (x # xs) g \<Longrightarrow> outcome (f x g) (I xs)"
  shows "I xs g \<Longrightarrow> outcome (run_all f xs g) (I [])"
proof (induction xs arbitrary: g)
  case (Cons x xs)
  show ?case by (simp, rule outcome_bind [OF assms [OF Cons.prems] Cons.IH])
qed simp

lemma run_all_append: "run_all f (xs @ ys) g = bind_result (run_all f xs g) (run_all f ys)"
  by (induction xs arbitrary: g) (auto simp: bind_result_def split: sum.split)

subsection \<open>Columns by type\<close>

lemma table_name_inj [simp]: "table_name_for_object_type a = table_name_for_object_type b \<longleftrightarrow> a = b"
  by (simp add: table_name_for_object_type_def)

definition columns_become :: "'g group_ops \<Rightarrow> string \<Rightarrow> (column list \<Rightarrow> column list) \<Rightarrow> 'g \<Rightarrow> 'g \<Rightarrow> bool" where
  "columns_become ops n f g g' \<longleftrightarrow> same_frame ops g g' \<and>
     columns_of_type ops g' = (columns_of_type ops g)(n := f (columns_of_type ops g n))"

lemma columns_becomeI:
  assumes "same_frame ops g g' \<and> columns_of ops g' =
      (columns_of ops g)(table_name_for_object_type n := f (columns_of ops g (table_name_for_object_type n)))"
  shows "columns_become ops n f g g'"
  using assms by (auto simp: columns_become_def columns_of_type_def fun_eq_iff)

lemma columns_become_trans:
  "columns_become ops n f g g1 \<Longrightarrow> columns_become ops n h g1 g2 \<Longrightarrow> columns_become ops n (\<lambda>cs. h (f cs)) g g2"
  by (auto simp: columns_become_def same_frame_def)

lemma columns_become_exists: "columns_become ops n f g g' \<Longrightarrow> table_exists ops g' = table_exists ops g"
  by (simp add: columns_become_def same_frame_def table_exists_def fun_eq_iff)

lemma columns_become_cong:
  "columns_become ops n f g g' \<Longrightarrow> f (columns_of_type ops g n) = h (columns_of_type ops g n) \<Longrightarrow> columns_become ops n h g g'"
  by (simp add: columns_become_def)

lemma replace_nth: "i < length cs \<Longrightarrow> delete_nth (Suc i) (insert_nth i c cs) = cs[i := c]"
  by (simp add: delete_nth_def insert_nth_def upd_conv_take_nth_drop min_def)

subsection \<open>Properties that a column can be made for\<close>

definition storable_type :: "property \<Rightarrow> bool" where
  "storable_type p \<longleftrightarrow> prop_type p \<in> {PT_Object OR PT_Nullable, PT_Object OR PT_Array} \<or> prop_type p \<in> set value_types"

lemma storable_typed: "storable p \<Longrightarrow> storable_type p"
  by (auto simp: storable_def storable_type_def)

lemma column_for_typed:
  assumes "storable_type p" "links_to_table ops g p"
  shows "column_for ops g p = Inr (column_of p)"
proof -
  define q where "q = p\<lparr>prop_name := [], is_primary := False, is_indexed := False,
    object_type := (if prop_type p \<in> set value_types then [] else object_type p)\<rparr>"
  have "storable q"
    using assms(1) by (auto simp: q_def storable_type_def storable_def requires_index_def object_id_column_name_def)
  then show ?thesis
    by (rule storable_cases) (use assms(2) in \<open>auto simp: q_def column_for_def column_of_def links_to_table_def
      table_exists_def object_types bind_result_def Let_def\<close>)
qed

fun made_property :: "schema_change \<Rightarrow> property option" where
  "made_property (AddProperty os p) = Some p"
| "made_property (MakePropertyNullable os p) = Some (optional_property p)"
| "made_property (MakePropertyRequired os p) = Some (required_property p)"
| "made_property (ChangePropertyType os p q) = Some q"
| "made_property _ = None"

definition makes_column :: "'g group_ops \<Rightarrow> 'g \<Rightarrow> schema_change \<Rightarrow> bool" where
  "makes_column ops g c \<longleftrightarrow>
     (case made_property c of None \<Rightarrow> True | Some p \<Rightarrow> storable_type p \<and> links_to_table ops g p \<and> name_fits p)"

lemma change_columns_steps:
  "change_columns (RemoveProperty os p) = delete_nth (table_column p)"
  "change_columns (ChangePropertyType os p q) = (\<lambda>cs. cs[table_column p := column_of q])"
  "change_columns (MakePropertyNullable os p) = (\<lambda>cs. cs[table_column p := column_of (optional_property p)])"
  "change_columns (MakePropertyRequired os p) = (\<lambda>cs. cs[table_column p := column_of (required_property p)])"
  "change_columns (AddIndex os p) = set_indexed (table_column p) True"
  "change_columns (RemoveIndex os p) = set_indexed (table_column p) False"
  by (intro ext; simp add: change_columns_def set_indexed_def)+

subsection \<open>Steps\<close>

context group_store
begin

lemma insert_column_runs:
  assumes "table_exists ops g n" "column_for ops g p = Inr c" "i \<le> length (columns_of_type ops g n)"
    "length (col_name c) \<le> max_column_name_length"
  shows "\<exists>g'. insert_column ops n p i g = Inr g' \<and> columns_become ops n (insert_nth i c) g g'"
proof (intro exI conjI)
  show "insert_column ops n p i g = Inr (insert_column_op ops (table_name_for_object_type n) i c g)"
    using assms by (simp add: insert_column_def bind_result_def)
  show "columns_become ops n (insert_nth i c) g (insert_column_op ops (table_name_for_object_type n) i c g)"
    by (intro columns_becomeI insert_column_law) (use assms in \<open>simp_all add: table_exists_def columns_of_type_def\<close>)
qed

lemma remove_column_runs:
  assumes "table_exists ops g n" "i < length (columns_of_type ops g n)"
  shows "\<exists>g'. remove_column ops n i g = Inr g' \<and> columns_become ops n (delete_nth i) g g'"
proof (intro exI conjI)
  show "remove_column ops n i g = Inr (remove_column_op ops (table_name_for_object_type n) i g)"
    using assms by (simp add: remove_column_def)
  show "columns_become ops n (delete_nth i) g (remove_column_op ops (table_name_for_object_type n) i g)"
    by (intro columns_becomeI remove_column_law) (use assms in \<open>simp_all add: table_exists_def columns_of_type_def\<close>)
qed

lemma change_search_index_runs:
  assumes "table_exists ops g n" "i < length (columns_of_type ops g n)"
    and unlocked: "b \<or> \<not> index_locked ops g (table_name_for_object_type n) i"
  shows "\<exists>g'. change_search_index ops n i b g = Inr g' \<and> columns_become ops n (set_indexed i b) g g'"
proof (intro exI conjI)
  show "change_search_index ops n i b g = Inr (search_index_op ops (table_name_for_object_type n) i b g)"
    using assms by (simp add: change_search_index_def)
  show "columns_become ops n (set_indexed i b) g (search_index_op ops (table_name_for_object_type n) i b g)"
    by (intro columns_becomeI search_index_law) (use assms in \<open>simp_all add: table_exists_def columns_of_type_def\<close>)
qed

lemma copy_property_values_same:
  assumes "table_exists ops g n" "Suc (table_column p) < length (columns_of_type ops g n)"
    "col_type (columns_of_type ops g n ! Suc (table_column p)) = col_type (columns_of_type ops g n ! table_column p)"
    "plain_type (col_type (columns_of_type ops g n ! table_column p))"
  shows "columns_become ops n (\<lambda>cs. cs) g (copy_property_values ops n p g)"
proof -
  let ?t = "table_name_for_object_type n" and ?i = "table_column p"
  have "columns_become ops n (\<lambda>cs. cs) g (copy_column_op ops ?t (Suc ?i) ?i g)"
    using copy_column_law [of ?t g "Suc ?i" ?i] assms
    by (simp add: columns_become_def columns_of_type_def table_exists_def fun_eq_iff)
  moreover have "columns_become ops n (\<lambda>cs. cs) g g" by (simp add: columns_become_def same_frame_def)
  ultimately show ?thesis by (simp add: copy_property_values_def)
qed

text \<open>A column is inserted in front of the old one, which is then removed.\<close>

lemma insert_then_remove:
  assumes "table_exists ops g n" "column_for ops g p = Inr c" "i < length (columns_of_type ops g n)"
    "length (col_name c) \<le> max_column_name_length"
    and between: "\<And>g1. columns_become ops n (insert_nth i c) g g1 \<Longrightarrow> columns_become ops n (\<lambda>cs. cs) g1 (between g1)"
  shows "\<exists>g'. bind_result (insert_column ops n p i g) (\<lambda>g1. remove_column ops n (i + 1) (between g1)) = Inr g' \<and>
    columns_become ops n (\<lambda>cs. cs[i := c]) g g'"
proof -
  obtain g1 where g1: "insert_column ops n p i g = Inr g1" "columns_become ops n (insert_nth i c) g g1"
    using insert_column_runs [OF assms(1,2) _ assms(4)] assms(3) by (meson less_imp_le)
  have g2: "columns_become ops n (insert_nth i c) g (between g1)"
    using columns_become_trans [OF g1(2) between [OF g1(2)]] by simp
  then have "table_exists ops (between g1) n" "i + 1 < length (columns_of_type ops (between g1) n)"
    using assms(1,3) columns_become_exists [OF g2] by (auto simp: columns_become_def insert_nth_def)
  then obtain g' where g': "remove_column ops n (i + 1) (between g1) = Inr g'"
    "columns_become ops n (delete_nth (i + 1)) (between g1) g'"
    using remove_column_runs by blast
  have "columns_become ops n (\<lambda>cs. cs[i := c]) g g'"
    using columns_become_cong [OF columns_become_trans [OF g2 g'(2)]] replace_nth [OF assms(3)] by simp
  then show ?thesis using g1(1) g'(1) by (simp add: bind_result_def)
qed

text \<open>The copy of the values meets the old column behind the new one.\<close>

lemma make_optional_runs:
  assumes "table_exists ops g n" "column_for ops g (optional_property p) = Inr (column_of (optional_property p))"
    "table_column p < length (columns_of_type ops g n)" "name_fits p"
    "col_type (columns_of_type ops g n ! table_column p) = col_type (column_of (optional_property p))"
    "plain_type (col_type (columns_of_type ops g n ! table_column p))"
  shows "\<exists>g'. make_property_optional ops n p g = Inr g' \<and>
    columns_become ops n (\<lambda>cs. cs[table_column p := column_of (optional_property p)]) g g'"
proof -
  have "columns_become ops n (\<lambda>cs. cs) g1 (copy_property_values ops n (optional_property p) g1)"
    if g1: "columns_become ops n (insert_nth (table_column p) (column_of (optional_property p))) g g1" for g1
    by (rule copy_property_values_same)
      (use g1 assms columns_become_exists [OF g1] in \<open>auto simp: columns_become_def insert_nth_def nth_append optional_property_def\<close>)
  then have "\<exists>g'. bind_result (insert_column ops n (optional_property p) (table_column p) g)
      (\<lambda>g1. remove_column ops n (table_column p + 1) (copy_property_values ops n (optional_property p) g1)) = Inr g' \<and>
    columns_become ops n (\<lambda>cs. cs[table_column p := column_of (optional_property p)]) g g'"
    using assms(4) by (intro insert_then_remove [OF assms(1,2,3)]) (simp_all add: name_fits_def optional_property_def)
  then show ?thesis by (simp add: make_property_optional_def optional_property_def Let_def)
qed

end

context keyless_store
begin

lemma create_initial_change_runs:
  assumes "touched_column c \<noteq> None \<or> added_column c \<noteq> []" "table_exists ops g (changed_type c)"
    "touches_below (length (columns_of_type ops g (changed_type c))) c" "makes_column ops g c"
    "copies_values c (columns_of_type ops g (changed_type c))"
  shows "\<exists>g'. create_initial_change ops c g = Inr g' \<and> columns_become ops (changed_type c) (change_columns c) g g'"
proof -
  have made: "column_for ops g p = Inr (column_of p)" if "made_property c = Some p" for p
    using assms(4) that by (intro column_for_typed) (simp_all add: makes_column_def)
  have fits: "length (col_name (column_of p)) \<le> max_column_name_length" if "made_property c = Some p" for p
    using assms(4) that by (simp add: makes_column_def name_fits_def)
  have same: "columns_become ops n (\<lambda>cs. cs) g g" for n g
    by (simp add: columns_become_def same_frame_def)
  show ?thesis
  proof (cases c)
    case (AddProperty os p)
    then obtain g' where "insert_column ops (name os) p (length (columns_of_type ops g (name os))) g = Inr g'"
      "columns_become ops (name os) (insert_nth (length (columns_of_type ops g (name os))) (column_of p)) g g'"
      using insert_column_runs [OF _ made _ fits] assms(2) by (fastforce simp: changed_type_def)
    then show ?thesis using AddProperty assms(2)
      by (auto simp: on_table_def add_column_def changed_type_def change_columns_def insert_nth_def elim: columns_become_cong)
  next
    case (RemoveProperty os p)
    then show ?thesis using remove_column_runs [of g "name os" "table_column p"] assms(2,3)
      by (auto simp: on_table_def changed_type_def touches_below_def change_columns_steps)
  next
    case (ChangePropertyType os p q)
    then show ?thesis
      using insert_then_remove [OF _ made _ fits, of "name os" q "table_column p" "\<lambda>g. g"] assms(2,3) same
      by (auto simp: on_table_def changed_type_def touches_below_def replace_column_def change_columns_steps)
  next
    case (MakePropertyNullable os p)
    then show ?thesis
      using make_optional_runs [of g "name os" p] made [of "optional_property p"] assms(2-5)
      by (auto simp: on_table_def changed_type_def touches_below_def change_columns_steps makes_column_def name_fits_def
          optional_property_def copies_values_def)
  next
    case (MakePropertyRequired os p)
    then show ?thesis
      using insert_then_remove [OF _ made _ fits, of "name os" "required_property p" "table_column p" "\<lambda>g. g"] assms(2,3) same
      by (auto simp: on_table_def changed_type_def touches_below_def make_property_required_def required_property_def
          Let_def change_columns_steps)
  next
    case (AddIndex os p)
    then show ?thesis using change_search_index_runs [of g "name os" "table_column p" True] assms(2,3) unlocked
      by (auto simp: on_table_def changed_type_def touches_below_def change_columns_steps)
  next
    case (RemoveIndex os p)
    then show ?thesis using change_search_index_runs [of g "name os" "table_column p" False] assms(2,3) unlocked
      by (auto simp: on_table_def changed_type_def touches_below_def change_columns_steps)
  qed (use assms(1) in auto)
qed

end

end
