(* ===== verification/Object_Store_Migration.thy ===== *)
theory Object_Store_Migration
  imports Object_Store_Steps
begin

text \<open>
  A migration without a migration function: the changes before it, with the removals left out, and
  the changes after it. Both runs are followed type by type, and the columns of every type of the
  file that the wanted schema has as well come out as the wanted properties.
\<close>

subsection \<open>What a run needs\<close>

definition group_ready :: "'g group_ops \<Rightarrow> 'g \<Rightarrow> bool" where
  "group_ready ops g \<longleftrightarrow> pk_rows ops g \<noteq> None \<and> stored_version ops g \<noteq> None \<and> \<not> has_object_ids ops g"

definition links_in :: "string set \<Rightarrow> property \<Rightarrow> bool" where
  "links_in W p \<longleftrightarrow> (same_type (prop_type p) PT_Object \<longrightarrow> object_type p \<in> W)"

text \<open>The name of the table fits, and a primary key has a type and a name that the engine takes.\<close>

definition key_types :: "property_type list" where
  "key_types = [PT_Int, PT_Int OR PT_Nullable, PT_String, PT_String OR PT_Nullable]"

definition key_ok :: "object_schema \<Rightarrow> bool" where
  "key_ok t \<longleftrightarrow> length (table_name_for_object_type (name t)) \<le> max_table_name_length \<and>
     (case primary_key_property t of None \<Rightarrow> True | Some p \<Rightarrow> prop_type p \<in> set key_types \<and> name_fits p)"

lemma key_type_core:
  "list_all (\<lambda>t. to_core_type t = Inr type_Int \<or> to_core_type t = Inr type_String) key_types"
  by code_simp

definition change_fits :: "string set \<Rightarrow> string set \<Rightarrow> schema_change \<Rightarrow> bool" where
  "change_fits S W c \<longleftrightarrow> (case c of
       AddTable os \<Rightarrow> name os \<notin> S \<and> key_ok os
     | AddInitialProperties os \<Rightarrow> name os \<in> W - S \<and> (\<forall>p \<in> set (persisted_properties os). storable_type p \<and> links_in W p \<and> name_fits p)
     | RemoveTable os \<Rightarrow> True
     | _ \<Rightarrow> changed_type c \<in> S \<and>
         (case made_property c of None \<Rightarrow> True | Some p \<Rightarrow> storable_type p \<and> links_in W p \<and> name_fits p))"

text \<open>A step that changes the columns of one type of \<open>S\<close> at most.\<close>

definition steps_to :: "'g group_ops \<Rightarrow> string set \<Rightarrow> string \<Rightarrow> (column list \<Rightarrow> column list) \<Rightarrow> 'g \<Rightarrow> 'g \<Rightarrow> bool" where
  "steps_to ops S n f g g' \<longleftrightarrow> group_ready ops g' \<and> (\<forall>m. table_exists ops g m \<longrightarrow> table_exists ops g' m) \<and>
     (\<forall>m \<in> S. columns_of_type ops g' m = (if m = n then f (columns_of_type ops g m) else columns_of_type ops g m))"

lemma columns_become_steps: "group_ready ops g \<Longrightarrow> columns_become ops n f g g' \<Longrightarrow> steps_to ops S n f g g'"
  using columns_become_exists [of ops n f g g']
  by (auto simp: steps_to_def columns_become_def same_frame_def group_ready_def)

lemma steps_to_refl: "group_ready ops g \<Longrightarrow> (\<And>cs. f cs = cs) \<Longrightarrow> steps_to ops S n f g g"
  by (simp add: steps_to_def)

context keyless_store
begin

lemma create_table_steps:
  assumes "group_ready ops g" "key_ok os" "\<forall>m \<in> S. table_exists ops g m"
  shows "\<exists>g'. create_table ops os g = Inr g' \<and> steps_to ops S n (\<lambda>cs. cs) g g' \<and> table_exists ops g' (name os)"
proof -
  have steps: "steps_to ops S n (\<lambda>cs. cs) g g' \<and> table_exists ops g' (name os)"
    if "adds_table ops (table_name_for_object_type (name os)) g g'" for g'
    using that assms(1,3) by (auto simp: steps_to_def adds_table_def group_ready_def table_exists_def columns_of_type_def)
  have pk: "pk_rows ops g \<noteq> None" using assms(1) by (simp add: group_ready_def)
  show ?thesis
  proof (cases "primary_key_property os")
    case None
    then show ?thesis using steps create_table_law [OF pk] assms(2) by (simp add: create_table_def key_ok_def)
  next
    case (Some p)
    then have key: "prop_type p \<in> set key_types" "length (prop_name p) \<le> max_column_name_length"
      "length (table_name_for_object_type (name os)) \<le> max_table_name_length"
      using assms(2) by (simp_all add: key_ok_def name_fits_def)
    then obtain ct where "to_core_type (prop_type p) = Inr ct" "ct \<in> {type_Int, type_String}"
      using key_type_core by (auto simp: list_all_iff)
    then show ?thesis
      using Some steps create_table_with_primary_key_law [OF pk key(3,2)] key(2,3)
      by (auto simp: create_table_def bind_result_def)
  qed
qed

lemma add_initial_columns_steps:
  assumes "group_ready ops g" "table_exists ops g (name os)" "name os \<notin> S" "\<forall>w \<in> W. table_exists ops g w"
    "\<forall>p \<in> set (persisted_properties os). storable_type p \<and> links_in W p \<and> name_fits p"
  shows "\<exists>g'. add_initial_columns ops os g = Inr g' \<and> steps_to ops S n (\<lambda>cs. cs) g g'"
proof -
  let ?f = "\<lambda>p. if is_primary p then Inr else add_column ops (name os) p"
  have "\<exists>g'. run_all ?f ps g = Inr g' \<and> steps_to ops S n (\<lambda>cs. cs) g g'"
    if "set ps \<subseteq> set (persisted_properties os)" "group_ready ops g" "table_exists ops g (name os)" "\<forall>w \<in> W. table_exists ops g w"
    for ps g
    using that
  proof (induction ps arbitrary: g)
    case (Cons p ps)
    have "\<exists>g1. ?f p g = Inr g1 \<and> steps_to ops S (name os) (\<lambda>cs. cs) g g1"
    proof (cases "is_primary p")
      case True
      then show ?thesis using Cons.prems by (simp add: steps_to_def)
    next
      case False
      have "links_to_table ops g p" "storable_type p" and fits: "length (col_name (column_of p)) \<le> max_column_name_length"
        using Cons.prems(1,4) assms(5) by (auto simp: links_in_def links_to_table_def name_fits_def)
      then have "column_for ops g p = Inr (column_of p)" by (intro column_for_typed)
      then obtain g1 where g1: "add_column ops (name os) p g = Inr g1"
        "columns_become ops (name os) (insert_nth (length (columns_of_type ops g (name os))) (column_of p)) g g1"
        using insert_column_runs [OF _ _ _ fits] Cons.prems(3) by (fastforce simp: add_column_def)
      from columns_become_steps [OF Cons.prems(2) g1(2)] have "steps_to ops S (name os) (\<lambda>cs. cs) g g1"
        using assms(3) by (auto simp: steps_to_def)
      then show ?thesis using g1(1) False by auto
    qed
    then obtain g1 where g1: "?f p g = Inr g1" "steps_to ops S (name os) (\<lambda>cs. cs) g g1" by blast
    then have "group_ready ops g1" "table_exists ops g1 (name os)" "\<forall>w \<in> W. table_exists ops g1 w"
      using Cons.prems by (auto simp: steps_to_def)
    then obtain g' where "run_all ?f ps g1 = Inr g'" "steps_to ops S n (\<lambda>cs. cs) g1 g'"
      using Cons.IH [of g1] Cons.prems(1) by auto
    then show ?case using g1 by (auto simp: bind_result_def steps_to_def)
  qed (simp add: steps_to_def)
  from this [of "persisted_properties os" g] show ?thesis
    using assms by (simp add: add_initial_columns_def)
qed

lemma set_primary_key_steps:
  assumes "group_ready ops g"
  shows "\<exists>g'. set_primary_key_for_object ops m key g = Inr g' \<and> steps_to ops S n (\<lambda>cs. cs) g g'"
proof -
  obtain rows where "pk_rows ops g = Some rows" using assms by (auto simp: group_ready_def)
  then show ?thesis
    using assms set_pk_rows_law [of g "set_primary_key_rows m key rows"]
    by (auto simp: set_primary_key_for_object_def group_ready_def steps_to_def table_exists_def columns_of_type_def)
qed

text \<open>Every change that fits can be made while the tables are initialised or before a migration.\<close>

lemma create_initial_change_steps:
  assumes "group_ready ops g" "\<forall>m \<in> S. table_exists ops g m" "\<not> is_add_table c \<Longrightarrow> \<forall>w \<in> W. table_exists ops g w"
    "change_fits S W c" "touches_below (length (columns_of_type ops g (changed_type c))) c"
    "copies_values c (columns_of_type ops g (changed_type c))"
  shows "\<exists>g'. create_initial_change ops c g = Inr g' \<and> steps_to ops S (changed_type c) (change_columns c) g g' \<and>
    (is_add_table c \<longrightarrow> table_exists ops g' (changed_type c))"
proof (cases "touched_column c \<noteq> None \<or> added_column c \<noteq> []")
  case True
  then have "changed_type c \<in> S" "makes_column ops g c" "\<not> is_add_table c"
    using assms(2-4) by (cases c; auto simp: change_fits_def makes_column_def links_in_def links_to_table_def changed_type_def)+
  then obtain g' where "create_initial_change ops c g = Inr g'"
    "columns_become ops (changed_type c) (change_columns c) g g'"
    using create_initial_change_runs [OF True _ assms(5) _ assms(6)] assms(2) by auto
  then show ?thesis
    using columns_become_steps [OF assms(1)] \<open>\<not> is_add_table c\<close> by auto
next
  case False
  then have same: "change_columns c = (\<lambda>cs. cs)"
    by (intro ext) (cases c; simp add: change_columns_def)
  show ?thesis
  proof (cases c)
    case (AddTable os)
    then show ?thesis
      using create_table_steps [OF assms(1) _ assms(2), of os "name os"] assms(4) same
      by (auto simp: change_fits_def changed_type_def)
  next
    case (AddInitialProperties os)
    then show ?thesis
      using add_initial_columns_steps [OF assms(1), of os S W "name os"] assms(3,4) same
      by (auto simp: change_fits_def changed_type_def)
  next
    case (ChangePrimaryKey os p)
    then show ?thesis
      using set_primary_key_steps [OF assms(1), of "name os" "key_name p" S "name os"] same
      by (auto simp: changed_type_def)
  qed (use False assms(1) same in \<open>simp_all add: steps_to_def changed_type_def\<close>)
qed

end

end
