(* ===== verification/Object_Store_Runs.thy ===== *)
theory Object_Store_Runs
  imports Object_Store_Migration
begin

text \<open>
  The two runs of a migration over the list of changes. The invariant says of every type what the
  changes of it that are still to come will make of its columns.
\<close>

subsection \<open>Columns that are there when they are touched\<close>

primrec run_ok :: "schema_change list \<Rightarrow> column list \<Rightarrow> bool" where
  "run_ok [] cs = True"
| "run_ok (c # xs) cs = (touches_below (length cs) c \<and> copies_values c cs \<and> run_ok xs (change_columns c cs))"

lemma run_ok_append: "run_ok (xs @ ys) cs \<longleftrightarrow> run_ok xs cs \<and> run_ok ys (fold change_columns xs cs)"
  by (induction xs arbitrary: cs) simp_all

lemma touches_below_mono: "touches_below n c \<Longrightarrow> n \<le> m \<Longrightarrow> touches_below m c"
  by (auto simp: touches_below_def split: option.splits)

lemma length_change_columns: "\<not> is_remove_property c \<Longrightarrow> length cs \<le> length (change_columns c cs)"
  by (simp add: change_columns_def split: option.split)

lemma length_fold_change_columns: "\<forall>c \<in> set xs. \<not> is_remove_property c \<Longrightarrow> length cs \<le> length (fold change_columns xs cs)"
  by (induction xs arbitrary: cs) (auto intro: order.trans [OF length_change_columns])

lemma run_ok_changes:
  "\<forall>c \<in> set xs. \<not> is_remove_property c \<and> touches_below n c \<Longrightarrow> n \<le> length cs \<Longrightarrow>
   (\<And>as c bs. xs = as @ c # bs \<Longrightarrow> copies_values c (fold change_columns as cs)) \<Longrightarrow> run_ok xs cs"
proof (induction xs arbitrary: cs)
  case (Cons c xs)
  have "n \<le> length (change_columns c cs)"
    using Cons.prems(1,2) length_change_columns [of c cs] by simp
  moreover have "copies_values d (fold change_columns as (change_columns c cs))" if "xs = as @ d # bs" for as d bs
    using Cons.prems(3) [of "c # as" d bs] that by simp
  moreover have "copies_values c cs" using Cons.prems(3) [of "[]" c xs] by simp
  ultimately show ?case using Cons.IH [of "change_columns c cs"] Cons.prems(1,2) touches_below_mono by auto
qed simp

lemma run_ok_removals:
  "\<forall>c \<in> set xs. is_remove_property c \<and> removed_column c < length cs \<Longrightarrow>
   sorted_wrt (\<lambda>a b. b < a) (map removed_column xs) \<Longrightarrow> run_ok xs cs"
proof (induction xs arbitrary: cs)
  case (Cons c xs)
  have "length (change_columns c cs) = length cs - 1"
    using Cons.prems(1) by (auto simp: change_columns_def delete_nth_def)
  then have "run_ok xs (change_columns c cs)"
    using Cons.prems by (intro Cons.IH) (auto simp: less_diff_conv intro: le_less_trans [OF Suc_leI])
  moreover have "touched_column c = Some (removed_column c)" "copies_values c cs"
    using Cons.prems(1) by (cases c; simp add: copies_values_def)+
  ultimately show ?case using Cons.prems(1) by (simp add: touches_below_def)
qed simp

subsection \<open>The run before the migration\<close>

definition before_changes :: "string \<Rightarrow> schema_change list \<Rightarrow> schema_change list" where
  "before_changes n cs = filter (\<lambda>c. \<not> is_remove_property c) (changes_of n cs)"

definition after_changes :: "string \<Rightarrow> schema_change list \<Rightarrow> schema_change list" where
  "after_changes n cs = filter (\<lambda>c. is_index_change c \<or> is_remove_property c) (changes_of n cs)"

text \<open>New tables come first; a type that is wanted has its table, or it will get it.\<close>

definition tables_come :: "'g group_ops \<Rightarrow> string set \<Rightarrow> schema_change list \<Rightarrow> 'g \<Rightarrow> bool" where
  "tables_come ops W rest g \<longleftrightarrow> (\<exists>as bs. rest = as @ bs \<and> (\<forall>c \<in> set as. is_add_table c) \<and> (\<forall>c \<in> set bs. \<not> is_add_table c) \<and>
     (\<forall>w \<in> W. table_exists ops g w \<or> w \<in> changed_type ` set as))"

definition run_invariant ::
  "'g group_ops \<Rightarrow> string set \<Rightarrow> string set \<Rightarrow> (string \<Rightarrow> schema_change list \<Rightarrow> schema_change list) \<Rightarrow>
     (string \<Rightarrow> column list) \<Rightarrow> schema_change list \<Rightarrow> 'g \<Rightarrow> bool" where
  "run_invariant ops S W select final rest g \<longleftrightarrow> group_ready ops g \<and> (\<forall>n \<in> S. table_exists ops g n) \<and> tables_come ops W rest g \<and>
     (\<forall>c \<in> set rest. change_fits S W c) \<and>
     (\<forall>n \<in> S. run_ok (select n rest) (columns_of_type ops g n) \<and>
        fold change_columns (select n rest) (columns_of_type ops g n) = final n)"

lemma tables_come_other:
  assumes "tables_come ops W (c # rest) g" "\<not> is_add_table c"
  shows "\<forall>w \<in> W. table_exists ops g w" "\<forall>c \<in> set rest. \<not> is_add_table c"
proof -
  obtain as bs where split: "c # rest = as @ bs" "\<forall>c \<in> set as. is_add_table c" "\<forall>c \<in> set bs. \<not> is_add_table c"
    "\<forall>w \<in> W. table_exists ops g w \<or> w \<in> changed_type ` set as"
    using assms(1) unfolding tables_come_def by blast
  have "as = []" using split(1,2) assms(2) by (cases as) auto
  then show "\<forall>w \<in> W. table_exists ops g w" "\<forall>c \<in> set rest. \<not> is_add_table c"
    using split by auto
qed

lemma tables_come_step:
  assumes "tables_come ops W (c # rest) g" "\<forall>m. table_exists ops g m \<longrightarrow> table_exists ops g' m"
    "is_add_table c \<longrightarrow> table_exists ops g' (changed_type c)"
  shows "tables_come ops W rest g'"
proof (cases "is_add_table c")
  case False
  then have "\<forall>w \<in> W. table_exists ops g' w" "\<forall>c \<in> set rest. \<not> is_add_table c"
    using tables_come_other [OF assms(1)] assms(2) by auto
  then show ?thesis unfolding tables_come_def by (intro exI [of _ "[]"] exI [of _ rest]) simp
next
  case True
  obtain as bs where split: "c # rest = as @ bs" "\<forall>c \<in> set as. is_add_table c" "\<forall>c \<in> set bs. \<not> is_add_table c"
    "\<forall>w \<in> W. table_exists ops g w \<or> w \<in> changed_type ` set as"
    using assms(1) unfolding tables_come_def by blast
  then obtain as' where "as = c # as'" using True by (cases as) auto
  then show ?thesis
    unfolding tables_come_def using split assms(2,3) True by (intro exI [of _ as'] exI [of _ bs]) auto
qed

text \<open>A step that changes the columns of the type of the change keeps the invariant.\<close>

lemma run_invariant_step:
  assumes "run_invariant ops S W select final (c # rest) g" "steps_to ops S (changed_type c) (change_columns c) g g'"
    "is_add_table c \<longrightarrow> table_exists ops g' (changed_type c)"
    "\<And>n. n \<in> S \<Longrightarrow> select n (c # rest) = (if changed_type c = n then c # select n rest else select n rest)"
  shows "run_invariant ops S W select final rest g'"
proof -
  have "tables_come ops W rest g'"
    using tables_come_step [of ops W c rest g g'] assms(1-3) by (auto simp: run_invariant_def steps_to_def)
  then show ?thesis
    using assms unfolding run_invariant_def steps_to_def by (auto split: if_splits)
qed

lemma run_invariant_skip:
  assumes "run_invariant ops S W select final (c # rest) g" "\<not> is_add_table c"
    "\<And>n. select n (c # rest) = select n rest"
  shows "run_invariant ops S W select final rest g"
  using assms tables_come_step [of ops W c rest g g] unfolding run_invariant_def by auto

context keyless_store
begin

lemma before_step:
  assumes "run_invariant ops S W before_changes final (c # rest) g"
  shows "outcome (apply_pre_migration_change ops c g) (run_invariant ops S W before_changes final rest)"
proof (cases "is_remove_property c")
  case True
  then have "apply_pre_migration_change ops c g = Inr g" "\<not> is_add_table c" by (cases c; simp)+
  moreover have "before_changes n (c # rest) = before_changes n rest" for n
    using True by (simp add: before_changes_def changes_of_def)
  ultimately show ?thesis using run_invariant_skip [OF assms] by simp
next
  case False
  then have same: "apply_pre_migration_change ops c g = create_initial_change ops c g" by (cases c) simp_all
  have select: "before_changes n (c # rest) = (if changed_type c = n then c # before_changes n rest else before_changes n rest)" for n
    using False by (simp add: before_changes_def changes_of_def)
  have g: "group_ready ops g" "\<forall>m \<in> S. table_exists ops g m" "change_fits S W c" "tables_come ops W (c # rest) g"
    using assms by (simp_all add: run_invariant_def)
  have below: "touches_below (length (columns_of_type ops g (changed_type c))) c \<and>
      copies_values c (columns_of_type ops g (changed_type c))"
  proof (cases "touched_column c")
    case (Some i)
    then have "changed_type c \<in> S" using g(3) by (cases c) (auto simp: change_fits_def)
    then have "run_ok (before_changes (changed_type c) (c # rest)) (columns_of_type ops g (changed_type c))"
      using assms by (simp add: run_invariant_def)
    then show ?thesis by (simp add: select)
  next
    case None
    then show ?thesis by (cases c) (simp_all add: touches_below_def copies_values_def)
  qed
  obtain g' where "create_initial_change ops c g = Inr g'" "steps_to ops S (changed_type c) (change_columns c) g g'"
    "is_add_table c \<longrightarrow> table_exists ops g' (changed_type c)"
    using create_initial_change_steps [OF g(1,2) _ g(3) conjunct1 [OF below] conjunct2 [OF below]] tables_come_other(1) [OF g(4)] by blast
  then show ?thesis using run_invariant_step [OF assms _ _ select] same by simp
qed

subsection \<open>The run after the migration\<close>

lemma after_step:
  assumes "run_invariant ops S W after_changes final (c # rest) g"
  shows "outcome (apply_post_migration_change ops [] False c g) (run_invariant ops S W after_changes final rest)"
proof -
  have g: "group_ready ops g" "\<forall>m \<in> S. table_exists ops g m" "change_fits S W c" "tables_come ops W (c # rest) g"
    using assms by (simp_all add: run_invariant_def)
  show ?thesis
  proof (cases "is_index_change c \<or> is_remove_property c \<or> is_add_table c")
    case False
    then have "after_changes n (c # rest) = after_changes n rest" for n
      by (simp add: after_changes_def changes_of_def)
    then have skip: "run_invariant ops S W after_changes final rest g"
      using False run_invariant_skip [OF assms] by blast
    show ?thesis
    proof (cases "\<exists>os p. c = ChangePrimaryKey os (Some p)")
      case True
      then obtain os p where c: "c = ChangePrimaryKey os (Some p)" by blast
      then have "table_exists ops g (name os)" using g(2,3) by (simp add: change_fits_def changed_type_def)
      then show ?thesis using c skip by (simp add: validate_primary_column_uniqueness_def outcome_def)
    next
      case none: False
      then have "apply_post_migration_change ops [] False c g = Inr g"
        using False by (cases "(ops, [] :: schema, False, c, g)" rule: apply_post_migration_change.cases) auto
      then show ?thesis using skip by simp
    qed
  next
    case True
    then have same: "apply_post_migration_change ops [] False c g = create_initial_change ops c g"
      by (cases c) simp_all
    have select: "after_changes n (c # rest) = (if changed_type c = n then c # after_changes n rest else after_changes n rest)"
      if "n \<in> S" for n
      using True g(3) that
      by (cases c) (auto simp: after_changes_def changes_of_def change_fits_def changed_type_def)
    have below: "touches_below (length (columns_of_type ops g (changed_type c))) c \<and>
        copies_values c (columns_of_type ops g (changed_type c))"
    proof (cases "touched_column c")
      case (Some i)
      then have S: "changed_type c \<in> S" using g(3) by (cases c) (auto simp: change_fits_def)
      then have "run_ok (after_changes (changed_type c) (c # rest)) (columns_of_type ops g (changed_type c))"
        using assms by (simp add: run_invariant_def)
      then show ?thesis by (simp add: select [OF S])
    next
      case None
      then show ?thesis by (cases c) (simp_all add: touches_below_def copies_values_def)
    qed
    obtain g' where "create_initial_change ops c g = Inr g'" "steps_to ops S (changed_type c) (change_columns c) g g'"
      "is_add_table c \<longrightarrow> table_exists ops g' (changed_type c)"
      using create_initial_change_steps [OF g(1,2) _ g(3) conjunct1 [OF below] conjunct2 [OF below]] tables_come_other(1) [OF g(4)] by blast
    then show ?thesis using run_invariant_step [OF assms _ _ select] same by simp
  qed
qed

lemma before_run:
  "run_invariant ops S W before_changes final cs g \<Longrightarrow>
   outcome (apply_pre_migration_changes ops cs g) (run_invariant ops S W before_changes final [])"
  unfolding apply_pre_migration_changes_def by (rule outcome_run [OF before_step])

lemma after_run:
  "run_invariant ops S W after_changes final cs g \<Longrightarrow>
   outcome (apply_post_migration_changes ops cs [] False g) (run_invariant ops S W after_changes final [])"
  unfolding apply_post_migration_changes_def by (rule outcome_run [OF after_step])

end

end
