(* ===== verification/Object_Store_Order.thy ===== *)
theory Object_Store_Order
  imports Object_Store_Compare
begin

text \<open>
  The order that the comparison leaves its changes in with the usual implementation of
  \<open>std::partition\<close>: the first element to be moved is swapped with the last one to stay, and so on
  inwards.
\<close>

function std_partition :: "('a \<Rightarrow> bool) \<Rightarrow> 'a list \<Rightarrow> 'a list" where
  "std_partition P [] = []"
| "std_partition P (x # xs) =
     (if P x then x # std_partition P xs
      else case dropWhile (\<lambda>y. \<not> P y) (rev xs) of
          [] \<Rightarrow> x # xs
        | z # ys \<Rightarrow> z # std_partition P (rev ys) @ x # rev (takeWhile (\<lambda>y. \<not> P y) (rev xs)))"
  by pat_completeness auto
termination
proof (relation "measure (\<lambda>(P, xs). length xs)")
  fix P :: "'a \<Rightarrow> bool" and x z :: 'a and xs ys
  assume "dropWhile (\<lambda>y. \<not> P y) (rev xs) = z # ys"
  then have "length (z # ys) \<le> length xs"
    by (metis length_dropWhile_le length_rev)
  then show "((P, rev ys), (P, x # xs)) \<in> measure (\<lambda>(P, xs). length xs)" by simp
qed simp_all

definition std_order :: "schema_change list \<Rightarrow> schema_change list" where
  "std_order cs =
     (let ys = std_partition (\<lambda>c. \<not> is_remove_property c) cs in
      takeWhile (\<lambda>c. \<not> is_remove_property c) ys @ rev (sort_key removed_column (dropWhile (\<lambda>c. \<not> is_remove_property c) ys)))"

lemma rev_split:
  assumes "dropWhile (\<lambda>y. \<not> P y) (rev xs) = z # ys"
  shows "xs = rev ys @ z # rev (takeWhile (\<lambda>y. \<not> P y) (rev xs)) \<and> P z"
proof -
  have "rev xs = takeWhile (\<lambda>y. \<not> P y) (rev xs) @ z # ys" by (metis assms takeWhile_dropWhile_id)
  then have "xs = rev (takeWhile (\<lambda>y. \<not> P y) (rev xs) @ z # ys)" by (metis rev_rev_ident)
  moreover have "P z" using hd_dropWhile [of "\<lambda>y. \<not> P y" "rev xs"] assms by simp
  ultimately show ?thesis by simp
qed

lemma mset_std_partition: "mset (std_partition P xs) = mset xs"
proof (induction P xs rule: std_partition.induct)
  case (2 P x xs)
  show ?case
  proof (cases "\<not> P x")
    case True
    show ?thesis
    proof (cases "dropWhile (\<lambda>y. \<not> P y) (rev xs)")
      case (Cons z ys)
      have "mset xs = mset (rev ys @ z # rev (takeWhile (\<lambda>y. \<not> P y) (rev xs)))"
        using rev_split [OF Cons] by metis
      then show ?thesis using 2 True Cons by simp
    next
      case Nil
      then show ?thesis by (simp only: std_partition.simps True simp_thms if_False list.case)
    qed
  qed (use 2 in simp)
qed simp

lemma std_partition_parts:
  "\<exists>as bs. std_partition P xs = as @ bs \<and> (\<forall>a \<in> set as. P a) \<and> (\<forall>b \<in> set bs. \<not> P b)"
proof (induction P xs rule: std_partition.induct)
  case (2 P x xs)
  show ?case
  proof (cases "P x")
    case True
    then obtain as bs where "std_partition P xs = as @ bs" "\<forall>a \<in> set as. P a" "\<forall>b \<in> set bs. \<not> P b"
      using 2(1) by blast
    then show ?thesis using True by (intro exI [of _ "x # as"] exI [of _ bs]) simp
  next
    case False
    show ?thesis
    proof (cases "dropWhile (\<lambda>y. \<not> P y) (rev xs)")
      case Nil
      then have "std_partition P (x # xs) = [] @ (x # xs)"
        by (simp only: std_partition.simps False if_False list.case append_Nil)
      moreover have "\<forall>y \<in> set xs. \<not> P y" using Nil by simp
      ultimately show ?thesis using False by (metis empty_iff empty_set set_ConsD)
    next
      case (Cons z ys)
      then obtain as bs where *: "std_partition P (rev ys) = as @ bs" "\<forall>a \<in> set as. P a" "\<forall>b \<in> set bs. \<not> P b"
        using 2(2) False by blast
      have "P z" using rev_split [OF Cons] by blast
      then show ?thesis
        using False Cons * set_takeWhileD [of _ "\<lambda>y. \<not> P y" "rev xs"]
        by (intro exI [of _ "z # as"] exI [of _ "bs @ x # rev (takeWhile (\<lambda>y. \<not> P y) (rev xs))"]) auto
    qed
  qed
qed (intro exI [of _ "[]"], simp)

lemma std_order_parts:
  "\<exists>as bs. std_partition (\<lambda>c. \<not> is_remove_property c) cs = as @ bs \<and> std_order cs = as @ rev (sort_key removed_column bs) \<and>
     (\<forall>a \<in> set as. \<not> is_remove_property a) \<and> (\<forall>b \<in> set bs. is_remove_property b)"
proof -
  obtain as bs where parts: "std_partition (\<lambda>c. \<not> is_remove_property c) cs = as @ bs"
    "\<forall>a \<in> set as. \<not> is_remove_property a" "\<forall>b \<in> set bs. is_remove_property b"
    using std_partition_parts [of "\<lambda>c. \<not> is_remove_property c" cs] by auto
  then have "takeWhile (\<lambda>c. \<not> is_remove_property c) (as @ bs) = as" "dropWhile (\<lambda>c. \<not> is_remove_property c) (as @ bs) = bs"
    by (cases bs; simp add: takeWhile_append dropWhile_append takeWhile_eq_all_conv)+
  then show ?thesis using parts by (auto simp: std_order_def Let_def)
qed

lemma std_order_ok: "orders_changes std_order"
  unfolding orders_changes_def
proof
  fix cs
  obtain as bs where parts: "std_partition (\<lambda>c. \<not> is_remove_property c) cs = as @ bs"
    "std_order cs = as @ rev (sort_key removed_column bs)" "\<forall>a \<in> set as. \<not> is_remove_property a" "\<forall>b \<in> set bs. is_remove_property b"
    using std_order_parts by blast
  have "mset (std_order cs) = mset cs"
    using mset_std_partition [of "\<lambda>c. \<not> is_remove_property c" cs] parts(1,2) by simp
  moreover have "sorted (map removed_column (sort_key removed_column bs))" by simp
  then have "sorted_wrt (\<lambda>a b. removed_column b \<le> removed_column a) (rev (sort_key removed_column bs))"
    by (simp add: sorted_wrt_rev sorted_map)
  then have "std_order cs = as @ rev (sort_key removed_column bs) \<and> \<not> list_ex is_remove_property as \<and>
      list_all is_remove_property (rev (sort_key removed_column bs)) \<and>
      sorted_wrt (\<lambda>a b. removed_column b \<le> removed_column a) (rev (sort_key removed_column bs))"
    using parts(2-4) by (auto simp: list_ex_iff list_all_iff)
  ultimately show "mset (std_order cs) = mset cs \<and> (\<exists>others removals. std_order cs = others @ removals \<and>
      \<not> list_ex is_remove_property others \<and> list_all is_remove_property removals \<and>
      sorted_wrt (\<lambda>a b. removed_column b \<le> removed_column a) removals)"
    by blast
qed

lemma std_partition_front: "\<forall>a \<in> set as. P a \<Longrightarrow> std_partition P (as @ bs) = as @ std_partition P bs"
  by (induction as) auto

lemma std_order_front: "keeps_front std_order"
  unfolding keeps_front_def
proof (intro allI impI)
  fix as bs assume "\<forall>c \<in> set as. \<not> is_remove_property c"
  then show "\<exists>cs. std_order (as @ bs) = as @ cs"
    by (auto simp: std_order_def Let_def std_partition_front takeWhile_append2 dropWhile_append2)
qed

end
