(* ===== verification/Object_Store_Examples.thy ===== *)
theory Object_Store_Examples
  imports Object_Store_Group Object_Store_Order
begin

text \<open>
  A file with one type, and a schema that renames nothing but makes a property optional and indexed,
  drops one, adds one and adds a type that it links to.
\<close>

definition plain_column :: "string \<Rightarrow> data_type \<Rightarrow> column" where
  "plain_column n t = \<lparr>col_name = n, col_type = t, col_nullable = False, col_indexed = False\<rparr>"

definition example_property :: "string \<Rightarrow> property_type \<Rightarrow> bool \<Rightarrow> property" where
  "example_property n t b = \<lparr>prop_name = n, public_name = [], prop_type = t, object_type = [],
     link_origin_property_name = [], is_primary = False, is_indexed = b, table_column = 0\<rparr>"

definition stored_people :: listed_group where
  "stored_people = \<lparr>listed_tables = [(''pk'', []), (''class_person'', [plain_column ''age'' type_Int, plain_column ''name'' type_String])],
     listed_keys = Some [], listed_version = Some 1\<rparr>"

definition wanted_people :: schema where
  "wanted_people = schema_of
     [object_schema_of ''person'' [example_property ''name'' 66 True,
        (example_property ''dog'' 71 False)\<lparr>object_type := ''dog''\<rparr>] [],
      object_schema_of ''dog'' [example_property ''weights'' 134 False] []]"

text \<open>
  The order of the changes matters while the tables of a file without a version are initialised: here
  the removal of \<open>age\<close> makes \<open>std::partition\<close> put the new index in front of the new column, and
  the index is lost. (In a migration the indexes are set once more afterwards.)
\<close>

definition wanted_names :: schema where
  "wanted_names = [object_schema_of ''person'' [example_property ''name'' 66 True] []]"

lemma initialisation_loses_index:
  "map_sum id (\<lambda>g. columns_of_type listed_ops g ''person'')
     (create_initial_tables listed_ops (compare std_order (schema_from_group listed_ops stored_people) wanted_names False) stored_people) =
   Inr [\<lparr>col_name = ''name'', col_type = type_String, col_nullable = True, col_indexed = False\<rparr>]"
  by code_simp

end
