(* ===== verification/Object_Store_Props.thy ===== *)
theory Object_Store_Props
  imports Object_Store_Runs Object_Store_Order Object_Store_Examples
begin

text \<open>
  \<open>apply_schema_changes\<close> on a file with an older schema: the schema that is read from the group before
  and the columns that are there afterwards.
\<close>

subsection \<open>The schema of a group\<close>

lemma read_not_primary: "property_for_column_index cs i = Some p \<Longrightarrow> \<not> is_primary p"
  by (auto simp: property_for_column_index_def Let_def split: if_splits option.splits)

lemma properties_not_primary: "map (\<lambda>p. p\<lparr>is_primary := False\<rparr>) (properties_of_columns cs) = properties_of_columns cs"
proof (rule map_idI)
  fix p assume "p \<in> set (properties_of_columns cs)"
  then have "property_for_column_index cs (table_column p) = Some p" by (simp add: properties_of_columns_set)
  then have "\<not> is_primary p" by (rule read_not_primary)
  then show "p\<lparr>is_primary := False\<rparr> = p" by simp
qed

lemma set_primary_key_stored:
  "map (\<lambda>p. p\<lparr>is_primary := False\<rparr>) (persisted_properties (set_primary_key_property os)) =
   map (\<lambda>p. p\<lparr>is_primary := False\<rparr>) (persisted_properties os)"
  "name (set_primary_key_property os) = name os"
  "computed_properties os = [] \<Longrightarrow> computed_properties (set_primary_key_property os) = []"
  by (auto simp: set_primary_key_property_def update_property_def Let_def map_update list_update_same_conv
      intro!: nth_equalityI)

lemma object_from_table_stored: "stored_in (object_from_table ops g n t) (columns_of ops g t)" "name (object_from_table ops g n t) = n"
  by (simp_all add: stored_in_def object_from_table_def set_primary_key_stored properties_not_primary)

lemma table_name_of_type: "object_type_for_table_name t \<noteq> [] \<Longrightarrow> table_name_for_object_type (object_type_for_table_name t) = t"
  by (auto simp: object_type_for_table_name_def table_name_for_object_type_def split: if_splits) (metis append_take_drop_id)

lemma schema_from_group_member:
  assumes "e \<in> set (schema_from_group ops g)"
  shows "table_exists ops g (name e) \<and> stored_in e (columns_of_type ops g (name e))"
proof -
  obtain t where t: "t \<in> set (table_names ops g)" "object_type_for_table_name t \<noteq> []"
    "e = object_from_table ops g (object_type_for_table_name t) t"
    using assms by (auto simp: schema_from_group_def schema_of_def Let_def split: if_splits)
  then have "table_name_for_object_type (name e) = t"
    using table_name_of_type by (simp add: object_from_table_stored(2))
  then show ?thesis
    using t object_from_table_stored(1) by (simp add: table_exists_def columns_of_type_def)
qed

lemma schema_from_group_distinct:
  assumes "distinct (table_names ops g)"
  shows "distinct_types (schema_from_group ops g)"
proof -
  let ?f = "\<lambda>t. let n = object_type_for_table_name t in if n = [] then [] else [object_from_table ops g n t]"
  have "distinct (map name (concat (map ?f ts)))" if "distinct ts" for ts
    using that
  proof (induction ts)
    case (Cons t ts)
    have "name x = object_type_for_table_name u \<and> u \<in> set ts" if "x \<in> set (?f u)" "u \<in> set ts" for x u
      using that by (auto simp: Let_def object_from_table_stored(2) split: if_splits)
    moreover have "object_type_for_table_name u \<noteq> object_type_for_table_name t"
      if "object_type_for_table_name t \<noteq> []" "u \<in> set ts" for u
      using Cons.prems that table_name_of_type by (metis distinct.simps(2))
    ultimately have "object_type_for_table_name t \<notin> set (map name (concat (map ?f ts)))"
      if "object_type_for_table_name t \<noteq> []"
      using that by fastforce
    then show ?case using Cons by (simp add: Let_def object_from_table_stored(2))
  qed simp
  then have "distinct (map name (schema_from_group ops g))"
    using assms unfolding schema_from_group_def schema_of_def
    by (metis (no_types, lifting) distinct_map distinct_sort set_sort)
  then show ?thesis
    by (simp add: distinct_types_def schema_from_group_def schema_of_sorted)
qed

subsection \<open>The changes of a migration fit\<close>

text \<open>A schema that can be stored: names, types, keys and links.\<close>

definition wanted_ok :: "schema \<Rightarrow> bool" where
  "wanted_ok target \<longleftrightarrow> distinct_types target \<and> list_all (\<lambda>t. target_ok t \<and> key_ok t \<and>
     list_all (\<lambda>p. links_in (name ` set target) p \<and> name_fits p) (persisted_properties t)) target"

text \<open>
  Changes that make the elements of a list optional. Their values are copied with the accessors for single
  values, of which the engine does not say what they do to a list.
\<close>

fun makes_list_optional :: "schema_change \<Rightarrow> bool" where
  "makes_list_optional (MakePropertyNullable os p) = is_array (prop_type p)"
| "makes_list_optional _ = False"

lemma copies_lists_as_values:
  "copy_property_values ops n (p\<lparr>prop_type := PT_Int OR PT_Array OR PT_Nullable\<rparr>) g =
     copy_column_op ops (table_name_for_object_type n) (table_column p + 1) (table_column p) g"
proof -
  have "base_type (PT_Int OR PT_Array OR PT_Nullable) = PT_Int" by code_simp
  then show ?thesis by (simp add: copy_property_values_def)
qed

lemma compare_elements:
  assumes "orders_changes order" "distinct_types s" "distinct_types target" "c \<in> set (compare order s target False)"
  shows "(\<exists>t \<in> set target. name t \<notin> name ` set s \<and> (c = AddTable t \<or> c = AddInitialProperties t)) \<or>
    (\<exists>e \<in> set s. \<exists>t \<in> set target. name t = name e \<and> c \<in> set (object_changes e t))"
    (is "?P c")
proof -
  have "list_all ?P (table_changes False pair) \<and> list_all ?P (pair_changes pair)" if pair: "pair \<in> set (zip_matching target s)" for pair
  proof (cases pair rule: pair_changes.cases)
    case (1 t e)
    then have "e \<in> set s" "t \<in> set target" "name t = name e"
      using pair zip_matching_pairs [OF assms(3,2)] by auto
    then show ?thesis using 1 by (auto simp: list_all_iff)
  next
    case (2 t)
    then have "t \<in> set target" "name t \<notin> name ` set s"
      using pair zip_matching_new [OF assms(3,2)] by auto
    then show ?thesis using 2 by (auto simp: list_all_iff)
  next
    case (3 x)
    then show ?thesis by (cases x) simp_all
  qed
  then have "list_all ?P (compare order s target False)"
    unfolding list_all_compare [OF assms(1)] by blast
  then show ?thesis using assms(4) by (simp only: list_all_iff)
qed

lemma object_changes_made:
  assumes "c \<in> set (object_changes e t)" "made_property c = Some q"
  shows "\<exists>p \<in> set (persisted_properties t). prop_name q = prop_name p \<and> prop_type q = prop_type p \<and> object_type q = object_type p"
proof -
  consider current where "current \<in> set (persisted_properties e)" "c \<in> set (compare_property e t current)"
    | p where "p \<in> set (persisted_properties t)" "c = AddProperty e p" | p where "c = ChangePrimaryKey e p"
    using assms(1) by (auto simp: object_changes_def split: if_splits)
  then show ?thesis
  proof cases
    case (1 current)
    show ?thesis
    proof (cases "stored_counterpart t current")
      case None
      then have "c = RemoveProperty e current"
        using 1(2) by (auto simp: compare_property_def stored_counterpart_def split: option.splits if_splits)
      then show ?thesis using assms(2) by simp
    next
      case (Some p)
      have p: "p \<in> set (persisted_properties t)" "prop_name p = prop_name current"
        using stored_counterpart_Some [OF Some] by blast+
      consider "c = ChangePropertyType e current p"
        | "same_kind current p" "c \<in> set (optional_changes e current p)" | "c \<in> set (index_changes e current p)"
        using 1(2) by (auto simp: compare_stored [OF Some] split: if_splits)
      then show ?thesis
      proof cases
        case 2
        then have "prop_name q = prop_name p \<and> prop_type q = prop_type p \<and> object_type q = object_type p"
          using assms(2) p(2) optional_is [of "prop_type current" "prop_type p"] required_is [of "prop_type current" "prop_type p"]
          by (auto simp: optional_changes_def same_kind_def optional_property_def required_property_def split: if_splits)
        then show ?thesis using p by blast
      next
        case 1
        then have "q = p" using assms(2) by simp
        then show ?thesis using p(1) by blast
      qed (use assms(2) p in \<open>auto simp: index_changes_def split: if_splits\<close>)
    qed
  qed (use assms(2) in auto)
qed

lemma object_changes_not_initial: "c \<in> set (object_changes e t) \<Longrightarrow> c \<noteq> AddInitialProperties os"
proof -
  have "AddInitialProperties os \<notin> set (compare_property e t p)" for p
    unfolding compare_property_def by (cases "property_for_name (prop_name p) t") auto
  then show "c \<in> set (object_changes e t) \<Longrightarrow> c \<noteq> AddInitialProperties os"
    unfolding object_changes_def by auto
qed

lemma migration_change_fits:
  assumes "orders_changes order" "distinct_types s" "wanted_ok target" "c \<in> set (compare order s target False)"
  shows "change_fits (name ` set s) (name ` set target) c"
proof -
  have storable: "storable_type p \<and> links_in (name ` set target) p \<and> name_fits p" if "t \<in> set target" "p \<in> set (persisted_properties t)" for t p
    using assms(3) that storable_typed by (auto simp: wanted_ok_def target_ok_def list_all_iff)
  have "distinct_types target" using assms(3) by (simp add: wanted_ok_def)
  from compare_elements [OF assms(1,2) this assms(4)] consider
      t where "t \<in> set target" "name t \<notin> name ` set s" "c = AddTable t \<or> c = AddInitialProperties t"
    | e t where "e \<in> set s" "t \<in> set target" "name t = name e" "c \<in> set (object_changes e t)" by blast
  then show ?thesis
  proof cases
    case 1
    then show ?thesis using assms(3) storable by (auto simp: change_fits_def wanted_ok_def list_all_iff)
  next
    case (2 e t)
    have S: "changed_type c \<in> name ` set s" using object_changes_type [OF 2(4)] 2(1) by (simp add: changed_type_def)
    have "storable_type q \<and> links_in (name ` set target) q \<and> name_fits q" if made: "made_property c = Some q" for q
      using object_changes_made [OF 2(4) made] storable [OF 2(2)] unfolding storable_type_def links_in_def name_fits_def by metis
    moreover have "\<not> is_add_table c" using object_changes_type [OF 2(4)] by simp
    ultimately show ?thesis
    proof (cases c)
      case (AddInitialProperties os)
      then show ?thesis using object_changes_not_initial [OF 2(4)] by blast
    qed (use S in \<open>simp_all add: change_fits_def\<close>)
  qed
qed


subsection \<open>The migration\<close>

lemma filter_either:
  "filter (\<lambda>c. P c \<or> Q c) (filter (\<lambda>c. \<not> Q c) xs) = filter P (filter (\<lambda>c. \<not> Q c) xs)"
  "filter (\<lambda>c. P c \<or> Q c) (filter Q xs) = filter Q xs"
  by (induction xs) auto

lemma changes_of_split:
  assumes "orders_changes order" "distinct_types s" "distinct_types target" "e \<in> set s"
  defines "cs \<equiv> compare order s target False"
  shows "after_changes (name e) cs =
    filter is_index_change (before_changes (name e) cs) @ filter is_remove_property (changes_of (name e) cs)"
proof -
  let ?es = "changes_of (name e) cs"
  have "?es = filter (\<lambda>c. \<not> is_remove_property c) ?es @ filter is_remove_property ?es"
    using removals_last_split [OF removals_last_compare [OF assms(1) _ assms(2,3)]] assms(4) by (simp add: cs_def)
  then have "after_changes (name e) cs = filter (\<lambda>c. is_index_change c \<or> is_remove_property c)
      (filter (\<lambda>c. \<not> is_remove_property c) ?es @ filter is_remove_property ?es)"
    by (simp only: after_changes_def)
  also have "\<dots> = filter is_index_change (filter (\<lambda>c. \<not> is_remove_property c) ?es) @ filter is_remove_property ?es"
    by (simp only: filter_append filter_either)
  finally show ?thesis by (simp only: before_changes_def)
qed

text \<open>The type of a column of single values.\<close>

lemma plain_from_core:
  assumes "from_core_type ct b = Some ty" "\<not> is_array ty" "\<not> same_type ty PT_Object" "\<not> same_type ty PT_Any"
  shows "plain_type ct \<and> to_core_type ((ty OR PT_Nullable) AND NOT Flags) = Inr ct \<and>
    \<not> same_type (ty OR PT_Nullable) PT_Object \<and> \<not> is_array (ty OR PT_Nullable)"
proof -
  let ?ok = "\<lambda>ct b. case from_core_type ct b of None \<Rightarrow> False | Some ty \<Rightarrow>
    to_core_type ((ty OR PT_Nullable) AND NOT Flags) = Inr ct \<and> \<not> same_type (ty OR PT_Nullable) PT_Object \<and>
    \<not> is_array (ty OR PT_Nullable)"
  have "list_all (\<lambda>ct. ?ok ct True \<and> ?ok ct False)
      [type_Int, type_Bool, type_String, type_Binary, type_Timestamp, type_Float, type_Double]" by code_simp
  then have plain: "?ok ct b" if "plain_type ct" using that by (cases b) (auto simp: plain_type_def list_all_iff)
  have "same_type (PT_Any OR PT_Nullable) PT_Any" "same_type PT_Any PT_Any" "PT_Array AND PT_Array = PT_Array"
    by code_simp+
  then have "plain_type ct"
    using assms object_types by (cases "(ct, b)" rule: from_core_type.cases)
      (auto simp: plain_type_def is_array_def masked_or or.commute [of _ PT_Array] split: if_splits)
  then show ?thesis using plain assms(1) by simp
qed

lemma plain_column:
  assumes "column_looks c p" "\<not> is_array (prop_type p)" "\<not> same_type (prop_type p) PT_Object" "\<not> same_type (prop_type p) PT_Any"
  shows "col_type c = col_type (column_of (optional_property p)) \<and> plain_type (col_type c)"
proof -
  have "from_core_type (col_type c) (col_nullable c) = Some (prop_type p)"
    using assms(1) by (auto simp: column_looks_def column_property_def property_for_column_index_def Let_def
        split: if_splits option.splits)
  from plain_from_core [OF this assms(2-4)] show ?thesis
    by (simp add: column_of_def optional_property_def Let_def)
qed

lemma is_array_or [simp]: "is_array (ty OR PT_Array)"
  by (simp add: is_array_def word_ao_absorbs)

lemma link_core_nullable:
  assumes "from_core_type ct b = Some ty" "same_type ty PT_Object" "\<not> is_array ty"
  shows "is_nullable ty"
proof -
  let ?no = "\<lambda>ct b. case from_core_type ct b of None \<Rightarrow> True | Some ty \<Rightarrow> \<not> same_type ty PT_Object"
  have "list_all (\<lambda>ct. ?no ct True \<and> ?no ct False)
      [type_Int, type_Bool, type_String, type_Binary, type_Timestamp, type_Float, type_Double, type_Mixed]"
    by code_simp
  then have plain: "\<not> ?no ct b \<Longrightarrow>
      ct \<notin> {type_Int, type_Bool, type_String, type_Binary, type_Timestamp, type_Float, type_Double, type_Mixed}"
    by (cases b) (auto simp: list_all_iff)
  have "is_nullable (PT_Object OR PT_Nullable)" by code_simp
  moreover have "\<not> ?no ct b" using assms(1,2) by simp
  ultimately show ?thesis
    using plain assms(1,3) object_types by (cases "(ct, b)" rule: from_core_type.cases) auto
qed

lemma single_link_nullable:
  assumes "column_looks c p" "same_type (prop_type p) PT_Object" "\<not> is_array (prop_type p)"
  shows "is_nullable (prop_type p)"
proof -
  have "from_core_type (col_type c) (col_nullable c) = Some (prop_type p)"
    using assms(1) by (auto simp: column_looks_def column_property_def property_for_column_index_def Let_def
        split: if_splits option.splits)
  then show ?thesis using link_core_nullable assms(2,3) by blast
qed

lemma becomes_optional:
  assumes "c \<in> set (compare_property e t current)" "c = MakePropertyNullable e' q"
  shows "\<exists>p. stored_counterpart t current = Some p \<and> same_kind current p \<and> q = current \<and>
    is_nullable (prop_type p) \<and> \<not> is_nullable (prop_type current)"
proof (cases "stored_counterpart t current")
  case None
  then have "c = RemoveProperty e current"
    using assms(1) by (auto simp: compare_property_def stored_counterpart_def split: option.splits if_splits)
  then show ?thesis using assms(2) by simp
next
  case (Some p)
  then show ?thesis using assms
    by (auto simp: compare_stored index_changes_def optional_changes_def split: if_splits)
qed

lemma index_changes_column: "\<forall>c \<in> set xs. is_index_change c \<Longrightarrow> col_type (fold new_column xs x) = col_type x"
proof (induction xs arbitrary: x)
  case (Cons c xs)
  then have "col_type (new_column c x) = col_type x" by (cases c) auto
  then show ?case using Cons by simp
qed simp

lemma plan_copies:
  assumes plan: "update_plan e t cs others removals" and split: "others = as @ c # bs" and single: "\<not> makes_list_optional c"
  shows "copies_values c (fold change_columns as cs)"
proof (cases "\<exists>q. c = MakePropertyNullable e q")
  case True
  then obtain q where c: "c = MakePropertyNullable e q" by blast
  have "c \<in> set (object_changes e t)" using plan_set [OF plan] split by auto
  then obtain current where current: "current \<in> set (persisted_properties e)" "c \<in> set (compare_property e t current)"
    using c by (auto simp: object_changes_def split: if_splits)
  obtain p where p: "stored_counterpart t current = Some p" "same_kind current p" "q = current"
      "is_nullable (prop_type p)" "\<not> is_nullable (prop_type current)"
    using becomes_optional [OF current(2) c] by blast
  let ?i = "table_column current"
  have stored: "?i < length cs" "column_looks (cs ! ?i) current"
    using stored_property [OF _ current(1), of cs] plan by (simp_all add: update_plan_def)
  have single: "\<not> is_array (prop_type current)" using single c p(3) by simp
  have "storable p" using stored_counterpart_Some [OF p(1)] plan by (auto simp: update_plan_def target_ok_def list_all_iff)
  have "\<not> same_type (prop_type current) PT_Object" using single_link_nullable [OF stored(2) _ single] p(5) by blast
  moreover have "\<not> same_type (prop_type current) PT_Any"
  proof -
    have "list_all (\<lambda>ty. \<not> same_type ty PT_Any) ([PT_Object OR PT_Nullable, PT_Object OR PT_Array] @ value_types)" by code_simp
    then have "\<not> same_type (prop_type p) PT_Any" using \<open>storable p\<close> by (auto simp: storable_def list_all_iff)
    then show ?thesis using p(2) by (simp add: same_kind_def same_type_def)
  qed
  ultimately have type: "col_type (cs ! ?i) = col_type (column_of (optional_property current)) \<and> plain_type (col_type (cs ! ?i))"
    by (rule plain_column [OF stored(2) single])
  let ?f = "filter (\<lambda>c. touched_column c = Some ?i)"
  have "mset (?f others) = mset (optional_changes e current p @ index_changes e current p)"
    using plan_of_column(2) [OF plan current(1) p(1)] p(2) by (simp add: compare_stored [OF p(1)])
  moreover have "optional_changes e current p = [c]" using p c by (simp add: optional_changes_def)
  moreover have "?f others = ?f as @ c # ?f bs" using split c p(3) by simp
  ultimately have "mset (?f as @ ?f bs) = mset (index_changes e current p)" by simp
  then have "set (?f as) \<subseteq> set (index_changes e current p)" by (metis mset_eq_setD set_append sup_ge1)
  then have index: "\<forall>d \<in> set (?f as). is_index_change d" by (auto simp: index_changes_def split: if_splits)
  have "\<forall>d \<in> set as. \<not> is_remove_property d" "\<forall>d \<in> set as. touches_below (length cs) d"
    using plan plan_touches [OF plan] split by (auto simp: update_plan_def)
  from fold_change_columns [OF this refl, of "[]"]
  have "fold change_columns as cs ! ?i = fold new_column (?f as) (cs ! ?i)"
    using stored(1) by (auto simp: nth_append)
  then have "col_type (fold change_columns as cs ! ?i) = col_type (cs ! ?i)"
    by (simp add: index_changes_column [OF index])
  then show ?thesis using conjunct1 [OF type] conjunct2 [OF type] c p(3) by (simp add: copies_values_def)
next
  case False
  moreover have "changed_object c = e"
    using plan_set [OF plan] split object_changes_type by (metis Un_iff in_set_conv_decomp)
  ultimately show ?thesis by (cases c) (simp_all add: copies_values_def)
qed

lemma plan_runs:
  assumes plan: "update_plan e t cs others removals" and plain: "\<forall>c \<in> set others. \<not> makes_list_optional c"
  shows "run_ok others cs" "run_ok (filter is_index_change others @ removals) (fold change_columns others cs)"
proof -
  let ?idx = "filter is_index_change others" and ?c1 = "fold change_columns others cs"
  have others: "\<forall>c \<in> set others. \<not> is_remove_property c \<and> touches_below (length cs) c"
    using plan plan_touches [OF plan] by (auto simp: update_plan_def)
  moreover have "copies_values c (fold change_columns as cs)" if "others = as @ c # bs" for as c bs
    using plan_copies [OF plan that] plain that by simp
  ultimately show "run_ok others cs" by (intro run_ok_changes) auto
  have len: "length cs \<le> length ?c1" "length ?c1 \<le> length (fold change_columns ?idx ?c1)"
    using others by (auto intro!: length_fold_change_columns)
  have "removed_column c < length cs" if "c \<in> set removals" for c
  proof -
    have "removed_column c \<in> set (map removed_column removals)" using that by simp
    then obtain current where current: "current \<in> set (persisted_properties e)" "table_column current = removed_column c"
      unfolding plan_removes [OF plan] by blast
    then show ?thesis
      using plan stored_property [OF _ current(1), of cs] by (simp add: update_plan_def)
  qed
  then have "run_ok removals (fold change_columns ?idx ?c1)"
    using plan len by (intro run_ok_removals) (fastforce simp: update_plan_def)+
  moreover have "run_ok ?idx ?c1"
  proof (rule run_ok_changes [OF _ len(1)])
    fix as c bs assume "?idx = as @ c # bs"
    then have "c \<in> set ?idx" by simp
    then have "is_index_change c" by simp
    then show "copies_values c (fold change_columns as ?c1)" by (cases c) (simp_all add: copies_values_def)
  qed (use others in auto)
  ultimately show "run_ok (?idx @ removals) ?c1" by (simp add: run_ok_append)
qed

text \<open>The columns of a type of the file, before and after.\<close>

definition type_migrated :: "schema \<Rightarrow> string \<Rightarrow> column list \<Rightarrow> column list \<Rightarrow> bool" where
  "type_migrated target n cs cs' \<longleftrightarrow>
     (case find (\<lambda>t. name t = n) target of None \<Rightarrow> cs' = cs | Some t \<Rightarrow> columns_match t cs')"

definition migrated :: "'g group_ops \<Rightarrow> 'g \<Rightarrow> schema \<Rightarrow> 'g \<Rightarrow> bool" where
  "migrated ops g target g' \<longleftrightarrow> (\<forall>e \<in> set (schema_from_group ops g).
     type_migrated target (name e) (columns_of_type ops g (name e)) (columns_of_type ops g' (name e)))"

definition before_final :: "'g group_ops \<Rightarrow> schema_change list \<Rightarrow> 'g \<Rightarrow> string \<Rightarrow> column list" where
  "before_final ops cs g n = fold change_columns (before_changes n cs) (columns_of_type ops g n)"

definition after_final :: "'g group_ops \<Rightarrow> schema_change list \<Rightarrow> 'g \<Rightarrow> string \<Rightarrow> column list" where
  "after_final ops cs g n = fold change_columns (after_changes n cs) (before_final ops cs g n)"

lemma type_runs:
  assumes "orders_changes order" "distinct (table_names ops g)" "wanted_ok target" "e \<in> set (schema_from_group ops g)"
  defines "cs \<equiv> compare order (schema_from_group ops g) target False"
  assumes single: "\<not> list_ex makes_list_optional cs"
  shows "run_ok (before_changes (name e) cs) (columns_of_type ops g (name e)) \<and>
    run_ok (after_changes (name e) cs) (before_final ops cs g (name e)) \<and>
    type_migrated target (name e) (columns_of_type ops g (name e)) (after_final ops cs g (name e))"
proof -
  let ?s = "schema_from_group ops g"
  have types: "distinct_types ?s" "distinct_types target"
    using schema_from_group_distinct [OF assms(2)] assms(3) by (simp_all add: wanted_ok_def)
  note mset = changes_of_mset [OF assms(1) types assms(4)]
  show ?thesis
  proof (cases "find (\<lambda>t. name t = name e) target")
    case None
    then have "changes_of (name e) cs = []" using mset by (simp add: cs_def)
    then show ?thesis using None
      by (simp add: before_changes_def after_changes_def before_final_def after_final_def type_migrated_def)
  next
    case (Some t)
    then have t: "t \<in> set target" "name t = name e"
      using types(2) find_distinct [of name target "name e" t] by (auto simp: distinct_types_def)
    have "target_ok t" using assms(3) t(1) by (simp add: wanted_ok_def list_all_iff)
    then have plan: "update_plan e t (columns_of_type ops g (name e)) (before_changes (name e) cs)
        (filter is_remove_property (changes_of (name e) cs))"
      unfolding before_changes_def cs_def
      using compare_plan [OF assms(1) types assms(4) t] schema_from_group_member [OF assms(4)] by simp
    have after: "after_changes (name e) cs =
        filter is_index_change (before_changes (name e) cs) @ filter is_remove_property (changes_of (name e) cs)"
      unfolding cs_def by (rule changes_of_split [OF assms(1) types assms(4)])
    have "\<forall>c \<in> set (before_changes (name e) cs). \<not> makes_list_optional c"
      using single by (auto simp: before_changes_def changes_of_def list_ex_iff)
    then show ?thesis
      using plan_runs [OF plan] columns_after_update [OF plan] Some
      by (simp add: after before_final_def after_final_def type_migrated_def)
  qed
qed

lemma tables_come_start:
  assumes "orders_changes order" "keeps_front order" "distinct_types s" "distinct_types target"
    "\<forall>e \<in> set s. table_exists ops g (name e)"
  shows "tables_come ops (name ` set target) (compare order s target False) g"
proof -
  obtain as bs where split: "compare order s target False = as @ bs" "\<forall>c \<in> set as. is_add_table c"
    "\<forall>c \<in> set bs. \<not> is_add_table c"
    using compare_tables_first [OF assms(1,2)] by blast
  have "table_exists ops g (name t) \<or> name t \<in> changed_type ` set as" if t: "t \<in> set target" for t
  proof (cases "name t \<in> name ` set s")
    case True
    then show ?thesis using assms(5) by auto
  next
    case False
    have "AddTable t \<in> set (compare order s target False)"
    proof -
      have "\<exists>y. (Some t, y) \<in> set (zip_matching target s)" using t
        by (induction target s rule: zip_matching.induct) auto
      then obtain y where y: "(Some t, y) \<in> set (zip_matching target s)" by blast
      then have "y = None" using zip_matching_pairs [OF assms(4,3)] False by (cases y) auto
      then have "\<not> list_all (\<lambda>c. c \<noteq> AddTable t) (compare order s target False)"
        using y unfolding list_all_compare [OF assms(1)] by force
      then show ?thesis by (auto simp: list_all_iff)
    qed
    then have "AddTable t \<in> set as" using split by auto
    then show ?thesis by (force simp: changed_type_def)
  qed
  then show ?thesis unfolding tables_come_def using split by blast
qed


context keyless_store
begin

lemma migration_runs:
  assumes "orders_changes order" "keeps_front order" "distinct (table_names ops g)" "group_ready ops g" "wanted_ok target"
  defines "cs \<equiv> compare order (schema_from_group ops g) target False"
  assumes single: "\<not> list_ex makes_list_optional cs"
  shows "outcome (bind_result (apply_pre_migration_changes ops cs g) (apply_post_migration_changes ops cs [] False))
    (\<lambda>g'. migrated ops g target g' \<and> group_ready ops g')"
proof -
  let ?s = "schema_from_group ops g" let ?S = "name ` set ?s" and ?W = "name ` set target"
  have types: "distinct_types ?s" "distinct_types target"
    using schema_from_group_distinct [OF assms(3)] assms(5) by (simp_all add: wanted_ok_def)
  have exist: "\<forall>n \<in> ?S. table_exists ops g n" using schema_from_group_member [of _ ops g] by blast
  have fits: "\<forall>c \<in> set cs. change_fits ?S ?W c"
    using migration_change_fits [OF assms(1) types(1) assms(5)] by (simp add: cs_def)
  have come: "tables_come ops ?W cs h" if "\<forall>n \<in> ?S. table_exists ops h n" for h
    unfolding cs_def by (rule tables_come_start [OF assms(1,2) types]) (use that in blast)
  note runs = type_runs [OF assms(1,3,5), folded cs_def, OF _ single]
  have "run_invariant ops ?S ?W before_changes (before_final ops cs g) cs g"
    unfolding run_invariant_def using assms(4) exist fits come [OF exist] runs by (auto simp: before_final_def)
  from before_run [OF this] show ?thesis
  proof (rule outcome_bind)
    fix g1
    assume g1: "run_invariant ops ?S ?W before_changes (before_final ops cs g) [] g1"
    then have exist1: "\<forall>n \<in> ?S. table_exists ops g1 n" and group_ready: "group_ready ops g1"
      and columns: "\<forall>n \<in> ?S. columns_of_type ops g1 n = before_final ops cs g n"
      by (simp_all add: run_invariant_def before_changes_def changes_of_def)
    have "run_invariant ops ?S ?W after_changes (after_final ops cs g) cs g1"
      unfolding run_invariant_def using group_ready exist1 fits come [OF exist1] columns runs by (auto simp: after_final_def)
    from after_run [OF this]
    show "outcome (apply_post_migration_changes ops cs [] False g1) (\<lambda>g'. migrated ops g target g' \<and> group_ready ops g')"
    proof (rule outcome_mono)
      fix g2
      assume g2: "run_invariant ops ?S ?W after_changes (after_final ops cs g) [] g2"
      then have "\<forall>n \<in> ?S. columns_of_type ops g2 n = after_final ops cs g n"
        by (simp add: run_invariant_def after_changes_def changes_of_def)
      then have "columns_of_type ops g2 (name e) = after_final ops cs g (name e)" if "e \<in> set ?s" for e
        using that by blast
      then show "migrated ops g target g2 \<and> group_ready ops g2"
        using g2 runs by (simp add: migrated_def run_invariant_def)
    qed
  qed
qed

lemma set_version_ready: "group_ready ops g \<Longrightarrow> set_schema_version ops v g = store_version ops v g"
  by (auto simp: set_schema_version_def create_metadata_tables_def group_ready_def Let_def)

lemma store_version_migrated:
  assumes "migrated ops g target g'" "group_ready ops g'"
  shows "migrated ops g target (store_version ops v g') \<and> get_schema_version ops (store_version ops v g') = v"
proof -
  have "columns_of_type ops (store_version ops v g') n = columns_of_type ops g' n" for n
    using store_version_law [of g' v] assms(2) by (simp add: group_ready_def columns_of_type_def)
  moreover have "get_schema_version ops (store_version ops v g') = v"
    using store_version_law [of g' v] assms(2) by (simp add: group_ready_def get_schema_version_def)
  ultimately show ?thesis using assms(1) by (simp add: migrated_def)
qed

lemma apply_schema_changes_migrates:
  assumes "orders_changes order" "keeps_front order" "distinct (table_names ops g)" "group_ready ops g"
    "wanted_ok target" "mode \<noteq> Additive" "mode \<noteq> Manual" "schema_version \<noteq> NotVersioned" "schema_version \<noteq> target_version"
    "\<not> list_ex makes_list_optional (compare order (schema_from_group ops g) target False)"
  shows "outcome (apply_schema_changes ops order schema_version target target_version mode
      (compare order (schema_from_group ops g) target False) None None g)
    (\<lambda>(g', target'). migrated ops g target g' \<and> get_schema_version ops g' = target_version \<and>
       target' = set_schema_columns ops g' target)"
proof -
  let ?cs = "compare order (schema_from_group ops g) target False"
  have tables: "create_metadata_tables ops g = g"
    using assms(4) by (auto simp: create_metadata_tables_def group_ready_def Let_def)
  have run: "apply_schema_changes ops order schema_version target target_version mode ?cs None None g =
      bind_result (bind_result (apply_pre_migration_changes ops ?cs g) (apply_post_migration_changes ops ?cs [] False))
        (\<lambda>g'. Inr (set_schema_version ops target_version g', set_schema_columns ops (set_schema_version ops target_version g') target))"
    using assms(6-9) by (simp add: apply_schema_changes_def tables Let_def bind_result_def split: sum.split)
  have finish: "outcome (Inr (set_schema_version ops target_version g', set_schema_columns ops (set_schema_version ops target_version g') target))
      (\<lambda>(g', target'). migrated ops g target g' \<and> get_schema_version ops g' = target_version \<and>
         target' = set_schema_columns ops g' target)" if "migrated ops g target g' \<and> group_ready ops g'" for g'
    using store_version_migrated [of g target g' target_version] that by (simp add: set_version_ready)
  show ?thesis unfolding run by (rule outcome_bind [OF migration_runs [OF assms(1-5,10)] finish])
qed

end




end
