(* ===== verification/Object_Store_Rename.thy ===== *)
theory Object_Store_Rename
  imports Object_Store_Props
begin

text \<open>
  Renaming a property during a migration: the column of the old name takes the place of the one
  that was added for the new name.
\<close>

subsection \<open>The order of the columns matters\<close>

definition text_column :: "string \<Rightarrow> bool \<Rightarrow> column" where
  "text_column n nullable = \<lparr>col_name = n, col_type = type_String, col_nullable = nullable, col_indexed = False\<rparr>"

definition text_property :: "string \<Rightarrow> bool \<Rightarrow> nat \<Rightarrow> property" where
  "text_property n nullable i = \<lparr>prop_name = n, public_name = [], prop_type = (if nullable then 66 else 2), object_type = [],
     link_origin_property_name = [], is_primary = False, is_indexed = False, table_column = i\<rparr>"

definition one_table :: "column list \<Rightarrow> listed_group" where
  "one_table cs = \<lparr>listed_tables = [(''class_t'', cs)], listed_keys = Some [], listed_version = Some 1\<rparr>"

text \<open>
  The new name may belong to a column that stands before the old one. The column behind both is then
  taken for the renamed one: its number is given to the new name, and it is replaced and lost.
\<close>

lemma rename_forward_loses_column:
  "rename_property listed_ops [object_schema_of ''t'' [text_property ''new'' True 0, text_property ''other'' False 2] []]
     ''t'' ''old'' ''new'' (one_table [text_column ''new'' True, text_column ''old'' False, text_column ''other'' False]) =
   Inr (one_table [text_column ''new'' False, text_column ''new'' True],
     [object_schema_of ''t'' [text_property ''new'' True 1, text_property ''other'' False 1] []])"
  by code_simp

text \<open>A list of values may be renamed to a single value: only the base type is compared.\<close>

lemma rename_ignores_list:
  "map_sum id (\<lambda>(g, s). columns_of_type listed_ops g ''t'')
     (rename_property listed_ops [object_schema_of ''t'' [text_property ''new'' False 1] []] ''t'' ''old'' ''new''
       (one_table [(text_column ''old'' False)\<lparr>col_type := type_Table [(ArrayColumnName, type_String, False)]\<rparr>,
          text_column ''new'' False])) =
   Inr [(text_column ''new'' False)\<lparr>col_type := type_Table [(ArrayColumnName, type_String, False)]\<rparr>]"
  by code_simp

subsection \<open>A new column behind the old one\<close>

text \<open>The numbers of the stored properties of a type are those of the columns with their names.\<close>

definition numbered :: "column list \<Rightarrow> object_schema \<Rightarrow> bool" where
  "numbered cs os \<longleftrightarrow> (\<forall>p \<in> set (persisted_properties os).
     table_column p < length cs \<and> col_name (cs ! table_column p) = prop_name p)"

lemma column_looks_name: "column_looks c p \<Longrightarrow> col_name c = prop_name p \<and> prop_name p \<noteq> object_id_column_name"
  by (auto simp: column_looks_def column_property_def property_for_column_index_def Let_def split: if_splits option.splits)

lemma column_looks_renamed:
  assumes "column_looks c p" "prop_name q \<noteq> object_id_column_name" "prop_type q = prop_type p" "object_type q = object_type p"
  shows "column_looks (c\<lparr>col_name := prop_name q\<rparr>) q"
  using assms
  by (auto simp: column_looks_def column_property_def property_for_column_index_def Let_def split: if_splits option.splits)

lemma column_of_looks:
  assumes "prop_type p \<in> set value_types" "object_type p = []" "prop_name p \<noteq> object_id_column_name"
  shows "column_looks (column_of p) p"
proof -
  let ?q = "p\<lparr>is_primary := False, is_indexed := False\<rparr>"
  have "column_reads (column_of ?q) ?q"
    by (rule column_of_reads) (use assms in \<open>simp add: storable_def requires_index_def\<close>)
  then have "column_looks (column_of ?q) ?q" by (simp only: column_reads_looks)
  then have "column_looks (column_of ?q) p" by (auto simp: column_looks_def split: option.splits)
  then show ?thesis using column_of_same [of p ?q] by simp
qed

lemma renumbered:
  assumes "numbered cs os" "old < removed" "removed < length cs" "col_name (cs ! removed) = new" "col_name c = new"
    "\<forall>p \<in> set (persisted_properties os). prop_name p \<noteq> col_name (cs ! old)"
  shows "numbered (delete_nth removed (cs[old := c]))
    (os\<lparr>persisted_properties := map (renumber_after_removal removed old) (persisted_properties os)\<rparr>)"
proof -
  have nth: "delete_nth removed (cs[old := c]) ! i = (if i < removed then cs[old := c] ! i else cs[old := c] ! Suc i)"
    if "Suc i < length cs" for i
    using that assms(3) by (simp add: delete_nth_def nth_append min_def)
  have len: "length (delete_nth removed (cs[old := c])) = length cs - 1"
    using assms(3) by (simp add: delete_nth_def)
  have "table_column q < length cs - 1 \<and> col_name (delete_nth removed (cs[old := c]) ! table_column q) = prop_name q"
    if p: "p \<in> set (persisted_properties os)" and q: "q = renumber_after_removal removed old p" for p q
  proof -
    have i: "table_column p < length cs" "col_name (cs ! table_column p) = prop_name p"
      using assms(1) p by (simp_all add: numbered_def)
    have old: "table_column p \<noteq> old" using assms(6) p i(2) by metis
    consider "table_column p = removed" | "removed < table_column p" | "table_column p < removed" by linarith
    then show ?thesis
    proof cases
      case 1
      then show ?thesis using q i assms(2-5) nth [of old] by (simp add: renumber_after_removal_def)
    next
      case 2
      then obtain j where j: "table_column p = Suc j" by (cases "table_column p") auto
      have "cs[old := c] ! Suc j = cs ! Suc j" using j 2 assms(2) by simp
      then have "delete_nth removed (cs[old := c]) ! j = cs ! Suc j" using nth [of j] i(1) j 2 by simp
      then show ?thesis using q i j 2 by (simp add: renumber_after_removal_def)
    next
      case 3
      then show ?thesis using q i assms(3) old nth [of "table_column p"] by (simp add: renumber_after_removal_def)
    qed
  qed
  then show ?thesis by (auto simp: numbered_def len)
qed

lemma property_for_name_stored:
  assumes "property_for_name m (object_from_table ops g n (table_name_for_object_type n)) = Some p"
  shows "table_column p < length (columns_of_type ops g n)" "column_looks (columns_of_type ops g n ! table_column p) p"
    "prop_name p = m"
proof -
  let ?e = "object_from_table ops g n (table_name_for_object_type n)"
  have "computed_properties ?e = []" by (simp add: object_from_table_def set_primary_key_stored)
  then have p: "p \<in> set (persisted_properties ?e)" "prop_name p = m"
    using assms by (auto simp: property_for_name_def find_Some_iff split: option.splits)
  then show "prop_name p = m" by simp
  have "stored_in ?e (columns_of_type ops g n)" using object_from_table_stored(1) by (simp add: columns_of_type_def)
  from stored_property [OF this p(1)] show "table_column p < length (columns_of_type ops g n)"
    "column_looks (columns_of_type ops g n ! table_column p) p" by simp_all
qed

lemma looks_like_value:
  assumes "column_looks c p" "prop_type p \<in> set value_types"
  shows "object_type p = []"
proof -
  have "list_all (\<lambda>t. \<not> same_type t PT_Object) value_types" by code_simp
  then have "\<not> same_type (prop_type p) PT_Object" using assms(2) by (simp add: list_all_iff)
  then show ?thesis using assms(1)
    by (auto simp: column_looks_def column_property_def property_for_column_index_def Let_def split: if_splits option.splits)
qed

text \<open>The columns after the renaming, if the column at \<open>i\<close> becomes \<open>c\<close> and the one at \<open>j\<close> goes.\<close>

definition moved_columns :: "nat \<Rightarrow> nat \<Rightarrow> column \<Rightarrow> column list \<Rightarrow> column list" where
  "moved_columns i j c cs = delete_nth j (cs[i := c])"

lemma moved_columns_again: "i < j \<Longrightarrow> j < length cs \<Longrightarrow> (moved_columns i j c cs)[i := d] = moved_columns i j d cs"
  by (simp add: moved_columns_def delete_nth_def list_update_append take_update_swap)

lemma found_type: "find_type n s = Some os \<Longrightarrow> os \<in> set s \<and> name os = n"
  by (auto simp: find_type_def Let_def split: if_splits) (metis nth_mem)

text \<open>
  The column that the old one becomes: itself under the new name, or the optional one. And the calls
  that bring it there: the column is renamed where it is, the other one is removed, and for an optional one the
  values are copied from the renamed column before it is removed.
\<close>

definition same_option :: "property \<Rightarrow> property \<Rightarrow> bool" where
  "same_option p q \<longleftrightarrow> is_nullable (prop_type p) = is_nullable (prop_type q)"

definition renamed_column :: "property \<Rightarrow> property \<Rightarrow> column \<Rightarrow> column" where
  "renamed_column old_p new_p c = (if same_option old_p new_p then c\<lparr>col_name := prop_name new_p\<rparr> else column_of new_p)"

definition renaming_calls :: "'g group_ops \<Rightarrow> string \<Rightarrow> property \<Rightarrow> property \<Rightarrow> 'g \<Rightarrow> 'g" where
  "renaming_calls ops n old_p new_p g =
     (let t = table_name_for_object_type n; i = table_column old_p;
          g1 = remove_column_op ops t (table_column new_p) (rename_column_op ops t i (prop_name new_p) g)
      in if same_option old_p new_p then g1
         else remove_column_op ops t (i + 1) (copy_column_op ops t (i + 1) i (insert_column_op ops t i (column_of new_p) g1)))"

text \<open>What a renaming comes to for its type: the columns, their numbers, and the other types.\<close>

definition renamed :: "'g group_ops \<Rightarrow> string \<Rightarrow> property \<Rightarrow> property \<Rightarrow> schema \<Rightarrow> object_schema \<Rightarrow> 'g \<Rightarrow> 'g \<Rightarrow> schema \<Rightarrow> bool" where
  "renamed ops n old_p new_p target os g g' target' \<longleftrightarrow>
     g' = renaming_calls ops n old_p new_p g \<and>
     (\<forall>m. m \<noteq> n \<longrightarrow> columns_of_type ops g' m = columns_of_type ops g m) \<and>
     (let i = table_column old_p; j = table_column new_p; cs = columns_of_type ops g n;
          c = renamed_column old_p new_p (cs ! i)
      in columns_of_type ops g' n = delete_nth j (cs[i := c]) \<and> column_looks c new_p) \<and>
     (\<exists>os'. target' = map (\<lambda>t. if name t = n then os' else t) target \<and>
       map prop_name (persisted_properties os') = map prop_name (persisted_properties os) \<and>
       numbered (columns_of_type ops g' n) os')"

lemma renamedI:
  assumes "columns_become ops n (moved_columns (table_column old_p) (table_column new_p) c) g g'" "column_looks c new_p"
    "distinct (map name target)" "find_type n target = Some os" "property_for_name old os = None"
    "property_for_name old (object_from_table ops g n (table_name_for_object_type n)) = Some old_p"
    "property_for_name new (object_from_table ops g n (table_name_for_object_type n)) = Some new_p"
    "table_column old_p < table_column new_p" "numbered (columns_of_type ops g n) os"
    "c = renamed_column old_p new_p (columns_of_type ops g n ! table_column old_p)" "g' = renaming_calls ops n old_p new_p g"
  shows "renamed ops n old_p new_p target os g g' (map (\<lambda>os. if name os = n
     then os\<lparr>persisted_properties := map (renumber_after_removal (table_column new_p) (table_column old_p)) (persisted_properties os)\<rparr>
     else os) target)"
proof -
  let ?cs = "columns_of_type ops g n" and ?i = "table_column old_p" and ?j = "table_column new_p"
  let ?os' = "os\<lparr>persisted_properties := map (renumber_after_removal ?j ?i) (persisted_properties os)\<rparr>"
  note old_p = property_for_name_stored [OF assms(6)] and new_p = property_for_name_stored [OF assms(7)]
  have names: "col_name (?cs ! ?i) = old" "col_name (?cs ! ?j) = new" "col_name c = new"
    using old_p new_p column_looks_name assms(2) by metis+
  have "\<forall>p \<in> set (persisted_properties os). prop_name p \<noteq> col_name (?cs ! ?i)"
    using assms(5) names(1) by (auto simp: property_for_name_def find_None_iff split: option.splits)
  then have "numbered (delete_nth ?j (?cs[?i := c])) ?os'"
    by (intro renumbered [OF assms(9,8) new_p(1) names(2,3)])
  moreover have columns: "columns_of_type ops g' n = delete_nth ?j (?cs[?i := c])" "\<forall>m. m \<noteq> n \<longrightarrow> columns_of_type ops g' m = columns_of_type ops g m"
    using assms(1) by (simp_all add: columns_become_def moved_columns_def)
  moreover have "map (\<lambda>os. if name os = n then os\<lparr>persisted_properties := map (renumber_after_removal ?j ?i) (persisted_properties os)\<rparr>
     else os) target = map (\<lambda>t. if name t = n then ?os' else t) target"
  proof (rule map_cong [OF refl])
    fix t assume "t \<in> set target"
    then have "t = os" if "name t = n"
      using that found_type [OF assms(4)] assms(3) by (auto simp: distinct_map inj_on_def)
    then show "(if name t = n then t\<lparr>persisted_properties := map (renumber_after_removal ?j ?i) (persisted_properties t)\<rparr> else t) =
      (if name t = n then ?os' else t)" by auto
  qed
  moreover have "map prop_name (persisted_properties ?os') = map prop_name (persisted_properties os)"
    by (simp add: renumber_after_removal_def)
  ultimately have "\<exists>os'. map (\<lambda>os. if name os = n
     then os\<lparr>persisted_properties := map (renumber_after_removal ?j ?i) (persisted_properties os)\<rparr> else os) target =
       map (\<lambda>t. if name t = n then os' else t) target \<and>
      map prop_name (persisted_properties os') = map prop_name (persisted_properties os) \<and>
      numbered (columns_of_type ops g' n) os'"
    using columns(1) by (intro exI [of _ ?os']) simp
  then show ?thesis
    using assms(2,10,11) columns unfolding renamed_def Let_def by (intro conjI) simp_all
qed

context group_store
begin

lemma rename_column_runs:
  assumes "table_exists ops g n" "i < length (columns_of_type ops g n)" "length m \<le> max_column_name_length"
  shows "columns_become ops n (\<lambda>cs. cs[i := (cs ! i)\<lparr>col_name := m\<rparr>]) g
    (rename_column_op ops (table_name_for_object_type n) i m g)"
  by (intro columns_becomeI rename_column_law) (use assms in \<open>simp_all add: table_exists_def columns_of_type_def\<close>)

text \<open>The three steps on the columns: the new name, the removal, and the optional column.\<close>

lemma rename_then_remove:
  assumes "table_exists ops g n" "i < j" "j < length (columns_of_type ops g n)" "length m \<le> max_column_name_length"
  shows "remove_column ops n j (rename_column_op ops (table_name_for_object_type n) i m g) =
      Inr (remove_column_op ops (table_name_for_object_type n) j (rename_column_op ops (table_name_for_object_type n) i m g))"
    "columns_become ops n (\<lambda>cs. moved_columns i j ((cs ! i)\<lparr>col_name := m\<rparr>) cs) g
      (remove_column_op ops (table_name_for_object_type n) j (rename_column_op ops (table_name_for_object_type n) i m g))"
proof -
  let ?g1 = "rename_column_op ops (table_name_for_object_type n) i m g"
  have g1: "columns_become ops n (\<lambda>cs. cs[i := (cs ! i)\<lparr>col_name := m\<rparr>]) g ?g1"
    by (rule rename_column_runs [OF assms(1) _ assms(4)]) (use assms(2,3) in simp)
  have there: "table_exists ops ?g1 n" "j < length (columns_of_type ops ?g1 n)"
    using assms columns_become_exists [OF g1] g1 by (simp_all add: columns_become_def)
  then show run: "remove_column ops n j ?g1 = Inr (remove_column_op ops (table_name_for_object_type n) j ?g1)"
    by (simp add: remove_column_def)
  have "columns_become ops n (delete_nth j) ?g1 (remove_column_op ops (table_name_for_object_type n) j ?g1)"
    using remove_column_runs [OF there] run by auto
  from columns_become_trans [OF g1 this]
  show "columns_become ops n (\<lambda>cs. moved_columns i j ((cs ! i)\<lparr>col_name := m\<rparr>) cs) g
      (remove_column_op ops (table_name_for_object_type n) j ?g1)"
    by (simp add: moved_columns_def)
qed

text \<open>The calls of \<open>make_property_optional\<close>, when it succeeds.\<close>

lemma make_property_optional_calls:
  assumes "make_property_optional ops n p g = Inr g'" "optional_property p = p" "prop_type p \<in> set value_types"
    "column_for ops g p = Inr (column_of p)"
  shows "g' = remove_column_op ops (table_name_for_object_type n) (table_column p + 1)
     (copy_column_op ops (table_name_for_object_type n) (table_column p + 1) (table_column p)
       (insert_column_op ops (table_name_for_object_type n) (table_column p) (column_of p) g))"
proof -
  have "list_all (\<lambda>t. base_type t \<in> {PT_Int, PT_Bool, PT_Float, PT_Double, PT_String, PT_Data, PT_Date}) value_types"
    by code_simp
  then have "base_type (prop_type p) \<in> {PT_Int, PT_Bool, PT_Float, PT_Double, PT_String, PT_Data, PT_Date}"
    using assms(3) by (simp only: list_all_iff)
  then show ?thesis
    using assms(1,2,4)
    by (auto simp: make_property_optional_def optional_property_def insert_column_def remove_column_def
        copy_property_values_def bind_result_def Let_def split: if_splits)
qed

lemma then_optional:
  assumes "columns_become ops n (moved_columns i j c) g g1" "table_exists ops g n" "i < j" "j < length (columns_of_type ops g n)"
    "optional_property p = p" "prop_type p \<in> set value_types" "table_column p = i" "name_fits p"
    "col_type c = col_type (column_of p)" "plain_type (col_type c)"
  shows "\<exists>g'. make_property_optional ops n p g1 = Inr g' \<and>
    columns_become ops n (moved_columns i j (column_of p)) g g' \<and>
    g' = remove_column_op ops (table_name_for_object_type n) (i + 1)
     (copy_column_op ops (table_name_for_object_type n) (i + 1) i
       (insert_column_op ops (table_name_for_object_type n) i (column_of p) g1))"
proof -
  have g1: "table_exists ops g1 n" "table_column p < length (columns_of_type ops g1 n)"
    "columns_of_type ops g1 n ! table_column p = c"
    using assms(1-4,7) columns_become_exists [OF assms(1)]
    by (auto simp: columns_become_def moved_columns_def delete_nth_def nth_append)
  have "storable_type p" using assms(6) by (simp add: storable_type_def)
  moreover have "links_to_table ops g1 p"
  proof -
    have "list_all (\<lambda>t. \<not> same_type t PT_Object) value_types" by code_simp
    then show ?thesis using assms(6) by (simp add: links_to_table_def list_all_iff)
  qed
  ultimately have made: "column_for ops g1 p = Inr (column_of p)" by (rule column_for_typed)
  then obtain g' where g': "make_property_optional ops n p g1 = Inr g'"
    "columns_become ops n (\<lambda>cs. cs[table_column p := column_of p]) g1 g'"
    using make_optional_runs [of g1 n p] g1 assms(5,8-10) by auto
  have "columns_become ops n (moved_columns i j (column_of p)) g g'"
    by (rule columns_become_cong [OF columns_become_trans [OF assms(1) g'(2)]])
      (use assms in \<open>simp add: moved_columns_again\<close>)
  then show ?thesis
    using g'(1) make_property_optional_calls [OF g'(1) assms(5,6) made] assms(7) by blast
qed

lemma rename_property_runs:
  assumes "table_exists ops g n" "distinct (map name target)" "find_type n target = Some os" "property_for_name old os = None"
    "property_for_name old (object_from_table ops g n (table_name_for_object_type n)) = Some old_p"
    "property_for_name new (object_from_table ops g n (table_name_for_object_type n)) = Some new_p"
    "same_type (prop_type old_p) (prop_type new_p)" "object_type old_p = object_type new_p"
    "is_array (prop_type old_p) = is_array (prop_type new_p)" "is_nullable (prop_type old_p) \<longrightarrow> is_nullable (prop_type new_p)"
    "same_option old_p new_p \<or> prop_type new_p \<in> set value_types \<and> \<not> is_array (prop_type new_p)"
    "table_column old_p < table_column new_p" "numbered (columns_of_type ops g n) os" "name_fits new_p"
  shows "\<exists>g' target'. rename_property ops target n old new g = Inr (g', target') \<and>
    renamed ops n old_p new_p target os g g' target'"
proof -
  let ?cs = "columns_of_type ops g n" and ?i = "table_column old_p" and ?j = "table_column new_p"
  let ?optional = "is_nullable (prop_type new_p) \<and> \<not> is_nullable (prop_type old_p)"
  let ?p = "new_p\<lparr>table_column := ?i\<rparr>"
  let ?target = "map (\<lambda>os. if name os = n
     then os\<lparr>persisted_properties := map (renumber_after_removal ?j ?i) (persisted_properties os)\<rparr> else os) target"
  note old_p = property_for_name_stored [OF assms(5)] and new_p = property_for_name_stored [OF assms(6)]
  note renamedI = renamedI [OF _ _ assms(2-6,12,13)]
  have fits: "length new \<le> max_column_name_length" using assms(14) new_p(3) by (simp add: name_fits_def)
  define g1 where "g1 = remove_column_op ops (table_name_for_object_type n) ?j
    (rename_column_op ops (table_name_for_object_type n) ?i new g)"
  note g1 = rename_then_remove [OF assms(1,12) new_p(1) fits, folded g1_def]
  have plain: "columns_become ops n (moved_columns ?i ?j ((?cs ! ?i)\<lparr>col_name := new\<rparr>)) g g1"
    by (rule columns_become_cong [OF g1(2)]) simp
  have run: "rename_property ops target n old new g =
      (if ?optional then bind_result (make_property_optional ops n ?p g1) (\<lambda>g3. Inr (g3, ?target)) else Inr (g1, ?target))"
    using assms(1,3-10) g1(1) by (simp add: rename_property_def Let_def bind_result_def)
  have id: "prop_name new_p \<noteq> object_id_column_name" using column_looks_name [OF new_p(2)] by blast
  have option: "?optional \<longleftrightarrow> \<not> same_option old_p new_p" using assms(10) by (auto simp: same_option_def)
  have column_p: "column_of ?p = column_of new_p" by (simp add: column_of_def requires_index_def Let_def)
  show ?thesis
  proof (cases ?optional)
    case False
    then have "prop_type new_p = prop_type old_p"
      using property_type_ext [OF assms(7,9)] assms(10) by auto
    then have "column_looks ((?cs ! ?i)\<lparr>col_name := prop_name new_p\<rparr>) new_p"
      using column_looks_renamed [OF old_p(2) id] assms(8) by simp
    then have "renamed ops n old_p new_p target os g g1 ?target"
      by (rule renamedI [OF plain [folded new_p(3)]])
        (use False option new_p(3) in \<open>simp_all add: renamed_column_def renaming_calls_def g1_def Let_def\<close>)
    then show ?thesis using run False by auto
  next
    case True
    then have base: "prop_type new_p \<in> set value_types" "\<not> is_array (prop_type new_p)" using assms(11) option by blast+
    have same: "prop_type new_p OR PT_Nullable = prop_type new_p"
      by (rule optional_is) (use True in \<open>simp_all add: same_type_def\<close>)
    then have p: "optional_property ?p = ?p" by (simp add: optional_property_def)
    have "list_all (\<lambda>t. \<not> same_type t PT_Object \<and> \<not> same_type t PT_Any) value_types" by code_simp
    then have "\<not> same_type (prop_type old_p) PT_Object" "\<not> same_type (prop_type old_p) PT_Any"
      using base(1) assms(7) by (auto simp: list_all_iff same_type_def)
    then have type: "col_type (?cs ! ?i) = col_type (column_of (optional_property old_p))" "plain_type (col_type (?cs ! ?i))"
      using plain_column [OF old_p(2)] base(2) assms(9) by blast+
    have "prop_type old_p OR PT_Nullable = prop_type new_p"
      by (rule optional_is) (use True assms(7,9) in simp_all)
    then have "col_type (column_of (optional_property old_p)) = col_type (column_of ?p)"
      using assms(8) by (simp add: column_of_def optional_property_def Let_def)
    then obtain g2 where g2: "make_property_optional ops n ?p g1 = Inr g2"
      "columns_become ops n (moved_columns ?i ?j (column_of ?p)) g g2"
      "g2 = remove_column_op ops (table_name_for_object_type n) (?i + 1)
       (copy_column_op ops (table_name_for_object_type n) (?i + 1) ?i
         (insert_column_op ops (table_name_for_object_type n) ?i (column_of ?p) g1))"
      using then_optional [OF plain assms(1,12) new_p(1) p] base(1) type assms(14) by (auto simp: name_fits_def)
    have "column_looks (column_of ?p) ?p"
      by (rule column_of_looks) (use base looks_like_value [OF new_p(2) base(1)] id in simp_all)
    then have "column_looks (column_of ?p) new_p" by (auto simp: column_looks_def split: option.splits)
    from renamedI [OF g2(2) this] have "renamed ops n old_p new_p target os g g2 ?target"
      using True option column_p g2(3) new_p(3)
      by (simp add: renamed_column_def renaming_calls_def g1_def Let_def)
    then show ?thesis using run True g2(1) by (auto simp: bind_result_def)
  qed
qed

end

text \<open>
  C18. A renaming of a stored property that the wanted type no longer has, to one whose new column stands behind the
  old one, with the same type and link target, both lists or both not, and an optional flag that is the same
  or, for single values, added by the renaming; the new name fits. It succeeds, by the calls that it
  takes to rename the old column where it is and to remove the new one, and to copy its values
  to an optional column if that is what is wanted. The old column keeps its place, and
  is read as the new property from now on; the columns of the other types stay, and the numbers in
  the schema are again those of the columns with these names.
\<close>

theorem rename_keeps_numbers:
  assumes "group_store ops" "table_exists ops g n" "distinct (map name target)" "find_type n target = Some os"
    "property_for_name old os = None"
    "property_for_name old (object_from_table ops g n (table_name_for_object_type n)) = Some old_p"
    "property_for_name new (object_from_table ops g n (table_name_for_object_type n)) = Some new_p"
    "same_type (prop_type old_p) (prop_type new_p)" "object_type old_p = object_type new_p"
    "is_array (prop_type old_p) = is_array (prop_type new_p)" "is_nullable (prop_type old_p) \<longrightarrow> is_nullable (prop_type new_p)"
    "same_option old_p new_p \<or> prop_type new_p \<in> set value_types \<and> \<not> is_array (prop_type new_p)"
    "table_column old_p < table_column new_p" "numbered (columns_of_type ops g n) os" "name_fits new_p"
  shows "\<exists>g' target'. rename_property ops target n old new g = Inr (g', target') \<and>
    renamed ops n old_p new_p target os g g' target'"
  by (rule group_store.rename_property_runs [OF assms])

definition renaming_group :: listed_group where
  "renaming_group = one_table [text_column ''old'' False, text_column ''other'' False, text_column ''new'' True]"

definition renaming_type :: object_schema where
  "renaming_type = object_schema_of ''t'' [text_property ''new'' True 2, text_property ''other'' False 1] []"

lemma rename_keeps_numbers_witness:
  "\<exists>g' target'. rename_property listed_ops [renaming_type] ''t'' ''old'' ''new'' renaming_group = Inr (g', target') \<and>
    renamed listed_ops ''t'' (text_property ''old'' False 0) (text_property ''new'' True 2) [renaming_type] renaming_type
      renaming_group g' target'"
proof (rule rename_keeps_numbers [OF listed.group_store_axioms])
  show "table_exists listed_ops renaming_group ''t''" by code_simp
  show "distinct (map name [renaming_type])" by simp
  show "find_type ''t'' [renaming_type] = Some renaming_type" by code_simp
  show "property_for_name ''old'' renaming_type = None" by code_simp
  show "property_for_name ''old'' (object_from_table listed_ops renaming_group ''t'' (table_name_for_object_type ''t'')) =
      Some (text_property ''old'' False 0)" by code_simp
  show "property_for_name ''new'' (object_from_table listed_ops renaming_group ''t'' (table_name_for_object_type ''t'')) =
      Some (text_property ''new'' True 2)" by code_simp
  show "same_type (prop_type (text_property ''old'' False 0)) (prop_type (text_property ''new'' True 2))" by code_simp
  show "object_type (text_property ''old'' False 0) = object_type (text_property ''new'' True 2)" by code_simp
  show "is_array (prop_type (text_property ''old'' False 0)) = is_array (prop_type (text_property ''new'' True 2))" by code_simp
  show "is_nullable (prop_type (text_property ''old'' False 0)) \<longrightarrow> is_nullable (prop_type (text_property ''new'' True 2))" by code_simp
  show "same_option (text_property ''old'' False 0) (text_property ''new'' True 2) \<or>
      prop_type (text_property ''new'' True 2) \<in> set value_types \<and> \<not> is_array (prop_type (text_property ''new'' True 2))"
    by code_simp
  show "name_fits (text_property ''new'' True 2)" by code_simp
  show "table_column (text_property ''old'' False 0) < table_column (text_property ''new'' True 2)" by code_simp
  show "numbered (columns_of_type listed_ops renaming_group ''t'') renaming_type" by code_simp
qed

end
