(* ===== verification/Results_Notifier.thy ===== *)
theory Results_Notifier
  imports Notifier Change_Calculate Transact_Log
begin

text \<open>
  \<open>ResultsNotifier\<close> (\<open>impl/results_notifier.cpp\<close>): reruns a query on the background worker, finds out
  how its results changed, and hands the new results over to the target thread.

  The query and its table are the storage engine's. What the code asks them in one run is a value of
  \<open>query_state\<close>: whether the table is there, its index in the group (\<open>npos\<close> for the table of a
  list), the versions that \<open>sync_view_if_needed\<close> and \<open>sync_if_needed\<close> return, the rows that the
  query finds in the order of its descriptors, and what the target tells. A \<open>TableView\<close> is the list
  of its rows; what is handed over carries the version as well. Import and export of the query
  between threads are left out, as is the lock on the target.
\<close>

subsection \<open>State\<close>

record query_state =
  query_attached :: bool
  query_table :: nat
  query_version :: nat
  view_version :: nat
  query_rows :: "nat list"
  realm_alive :: bool
  wants_background_updates :: bool

record results_notifier =
  results_base :: notifier
  m_tv :: "nat list option"
  m_tv_handover :: "(nat \<times> nat list) option"
  m_tv_to_deliver :: "(nat \<times> nat list) option"
  m_last_seen_version :: nat
  m_previous_rows :: "nat list"
  m_changes :: change_builder
  m_target_is_in_table_order :: bool
  will_apply_sort :: bool

definition new_results_notifier :: "nat \<Rightarrow> bool \<Rightarrow> bool \<Rightarrow> results_notifier" where
  "new_results_notifier version in_table_order sorts =
     \<lparr>results_base = new_notifier version, m_tv = None, m_tv_handover = None, m_tv_to_deliver = None,
      m_last_seen_version = 2 ^ 64 - 1, m_previous_rows = [], m_changes = fresh_builder,
      m_target_is_in_table_order = in_table_order, will_apply_sort = sorts\<rparr>"

subsection \<open>What the transaction log has to tell\<close>

text \<open>
  The table of a list is found by its row and column in the parent table, \<open>parent\<close>; \<open>addr\<close> is the
  address of the own change set.
\<close>

definition results_required_info ::
  "nat \<Rightarrow> nat \<times> nat \<times> nat \<Rightarrow> query_state \<Rightarrow> results_notifier \<Rightarrow> transaction_info \<Rightarrow> bool \<times> transaction_info" where
  "results_required_info addr parent q n change =
     (if \<not> query_attached q then (False, change)
      else
        let table = query_table q; needed = table_moves_needed change;
            change = (if table = npos
              then change\<lparr>lists := lists change @ [\<lparr>list_table = fst parent, list_row = fst (snd parent),
                     list_col = snd (snd parent), list_changes = addr\<rparr>]\<rparr>
              else let needed = (if length needed \<le> table then resize_with False (table + 1) needed else needed)
                in change\<lparr>table_moves_needed := needed[table := True]\<rparr>)
        in (m_has_run (results_base n) \<and> m_have_callbacks (results_base n), change))"

subsection \<open>Running the query\<close>

definition need_to_run :: "query_state \<Rightarrow> results_notifier \<Rightarrow> bool" where
  "need_to_run q n =
     (if \<not> realm_alive q \<or> (\<not> m_have_callbacks (results_base n) \<and> \<not> wants_background_updates q) then False
      else if m_has_run (results_base n) \<and> query_version q = m_last_seen_version n then False
      else True)"

text \<open>Where a row is after the changes of its table; \<open>npos\<close> if it is gone.\<close>

definition row_after :: "'a change_set_scheme \<Rightarrow> nat \<Rightarrow> nat" where
  "row_after c idx =
     (if is_contains (deletions c) idx
      then let it = lower_bound (\<lambda>m. move_from m < idx) (moves c) 0 (length (moves c)) in
        (if it \<noteq> length (moves c) \<and> move_from (moves c ! it) = idx then move_to (moves c ! it) else npos)
      else is_shift (insertions c) (is_unshift (deletions c) idx))"

definition changes_of_table :: "change_info \<Rightarrow> query_state \<Rightarrow> results_notifier \<Rightarrow> change_builder option" where
  "changes_of_table change q n =
     (if query_table q = npos then Some (m_changes n)
      else if query_table q < length (info_tables change) then Some (info_tables change ! query_table q) else None)"

definition calculate_changes ::
  "(row_info list \<Rightarrow> row_info list) \<Rightarrow> (nat \<Rightarrow> bool) \<Rightarrow> change_info \<Rightarrow> query_state \<Rightarrow> nat list \<Rightarrow> results_notifier \<Rightarrow>
     results_notifier" where
  "calculate_changes sort_rows row_did_change change q next_rows n =
     (if m_has_run (results_base n) \<and> m_have_callbacks (results_base n) then
        let (previous, move_candidates) =
              (case changes_of_table change q n of
                 None \<Rightarrow> (m_previous_rows n, None)
               | Some c \<Rightarrow> (map (row_after c) (m_previous_rows n),
                   if m_target_is_in_table_order n \<and> \<not> will_apply_sort n then Some (insertions c) else None))
        in n\<lparr>m_changes := calculate sort_rows previous next_rows row_did_change move_candidates,
             m_previous_rows := next_rows\<rparr>
      else n\<lparr>m_previous_rows := next_rows\<rparr>)"

definition results_run ::
  "(row_info list \<Rightarrow> row_info list) \<Rightarrow> (nat \<Rightarrow> bool) \<Rightarrow> change_info \<Rightarrow> query_state \<Rightarrow> results_notifier \<Rightarrow> results_notifier" where
  "results_run sort_rows row_did_change change q n =
     (if \<not> query_attached q
      then n\<lparr>m_changes := fresh_builder\<lparr>deletions := is_set [] (length (m_previous_rows n))\<rparr>, m_previous_rows := []\<rparr>
      else if \<not> need_to_run q n then n
      else calculate_changes sort_rows row_did_change change q (query_rows q)
        (n\<lparr>m_tv := Some (query_rows q), m_last_seen_version := view_version q\<rparr>))"

subsection \<open>Handing the results over\<close>

definition taken_from :: "change_builder \<Rightarrow> change_builder" where
  "taken_from t = (moved_from t)\<lparr>m_move_mapping := []\<rparr>"

definition results_prepare_handover :: "nat \<Rightarrow> results_notifier \<Rightarrow> results_notifier" where
  "results_prepare_handover version n =
     (let handover = (case m_tv n of
            None \<Rightarrow> map_option (\<lambda>(v, rows). (version, rows)) (m_tv_handover n)
          | Some rows \<Rightarrow> Some (version, rows))
      in n\<lparr>m_tv_handover := handover, m_tv := None, m_changes := taken_from (m_changes n),
           results_base := prepare_handover version (add_changes (m_changes n) (results_base n))\<rparr>)"

definition results_prepare_to_deliver :: "bool \<Rightarrow> results_notifier \<Rightarrow> bool \<times> results_notifier" where
  "results_prepare_to_deliver alive n =
     (if \<not> alive then (False, n) else (True, n\<lparr>m_tv_to_deliver := m_tv_handover n, m_tv_handover := None\<rparr>))"

text \<open>The rows that the target gets, if any.\<close>

definition results_deliver :: "bool \<Rightarrow> results_notifier \<Rightarrow> nat list option \<times> results_notifier" where
  "results_deliver alive n =
     (if \<not> alive then (None, n) else (map_option snd (m_tv_to_deliver n), n\<lparr>m_tv_to_deliver := None\<rparr>))"

end
