(* ===== verification/Results_Props.thy ===== *)
theory Results_Props
  imports Results_Notifier Change_Calc_Props
begin

text \<open>
  What \<open>ResultsNotifier\<close> reports describes how the objects in the results changed, although it
  compares rows only: the rows of the last run are first taken through the changes of the table.
\<close>

subsection \<open>Rows and the objects in them\<close>

lemma nths_positions: "nths xs S = map ((!) xs) (filter (\<lambda>i. i \<in> S) [0 ..< length xs])"
proof -
  have "zip xs [0 ..< length xs] = map (\<lambda>i. (xs ! i, i)) [0 ..< length xs]"
    by (intro nth_equalityI) simp_all
  then show ?thesis by (simp add: nths_def filter_map comp_def)
qed

lemma keep_objects:
  assumes "length xs = length rows" "\<And>i. i < length rows \<Longrightarrow> i \<notin> D \<Longrightarrow> xs ! i = f (rows ! i)"
  shows "keep xs D = map f (keep rows D)"
  using assms by (auto simp: keep_def nths_positions intro!: map_cong)

text \<open>Changes of rows are changes of the objects in them; a row that is gone may have held anything.\<close>

lemma tracks_objects:
  assumes t: "tracks rows next_rows t" and len: "length xs = length rows" and no: "npos \<notin> set next_rows"
    and obj: "\<And>i. i < length rows \<Longrightarrow> rows ! i \<noteq> npos \<Longrightarrow> xs ! i = f (rows ! i)"
  shows "tracks xs (map f next_rows) t"
proof -
  let ?D = "elems (deletions t)" and ?I = "elems (insertions t)"
  have D: "?D \<subseteq> {..< length rows}" and I: "?I \<subseteq> {..< length next_rows}" and same: "keep rows ?D = keep next_rows ?I"
    using t by (simp_all add: tracks_def diff_ok_def)
  have kept: "xs ! i = f (rows ! i)" if "i < length rows" "i \<notin> ?D" for i
  proof -
    have "rows ! i \<in> set (keep rows ?D)" using that by (auto simp: keep_def nths_positions)
    then have "rows ! i \<in> set next_rows" unfolding same by (auto simp: keep_def nths_positions)
    then show ?thesis using obj [OF that(1)] no by metis
  qed
  have "keep xs ?D = map f (keep rows ?D)" using keep_objects [OF len] kept by blast
  also have "\<dots> = keep (map f next_rows) ?I" unfolding same by (intro keep_objects [symmetric]) simp_all
  finally have diff: "diff_ok xs (map f next_rows) ?D ?I" using D I len by (simp add: diff_ok_def)
  have "xs ! fst l = map f next_rows ! snd l" if "l \<in> set (Change_Track.links t)" for l
  proof -
    have l: "fst l \<in> ?D" "snd l \<in> ?I" "rows ! fst l = next_rows ! snd l"
      using t that by (auto simp: tracks_def links_ok_def)
    then have "fst l < length rows" "snd l < length next_rows" using D I by auto
    then show ?thesis using obj [of "fst l"] l(3) no by (metis nth_map nth_mem)
  qed
  then show ?thesis using t diff by (auto simp: tracks_def links_ok_def)
qed

subsection \<open>Rows after the changes of their table\<close>

definition survives :: "change_builder \<Rightarrow> nat \<Rightarrow> bool" where
  "survives c i \<longleftrightarrow> i \<notin> elems (deletions c) \<or> i \<in> move_from ` set (moves c)"

lemma find_move:
  assumes "sorted (map move_from ms)" "it = lower_bound (\<lambda>m. move_from m < i) ms 0 (length ms)"
  shows "(it \<noteq> length ms \<and> move_from (ms ! it) = i) = (i \<in> move_from ` set ms)" "it \<le> length ms"
proof -
  let ?p = "length (takeWhile (\<lambda>m. move_from m < i) ms)"
  have le: "?p \<le> length ms" by (rule length_takeWhile_le)
  have below: "move_from (ms ! k) < i \<longleftrightarrow> k < ?p" if "k < length ms" for k
  proof
    assume "move_from (ms ! k) < i"
    show "k < ?p"
    proof (rule ccontr)
      assume "\<not> k < ?p"
      then have "?p < length ms" using that by simp
      then have "\<not> move_from (ms ! ?p) < i" by (rule nth_length_takeWhile)
      moreover have "move_from (ms ! ?p) \<le> move_from (ms ! k)"
        using sorted_nth_mono [OF assms(1), of ?p k] \<open>\<not> k < ?p\<close> that by simp
      ultimately show False using \<open>move_from (ms ! k) < i\<close> by simp
    qed
  next
    assume "k < ?p"
    then have "ms ! k = takeWhile (\<lambda>m. move_from m < i) ms ! k" by (simp add: takeWhile_nth)
    then show "move_from (ms ! k) < i" using nth_mem [OF \<open>k < ?p\<close>] set_takeWhileD by metis
  qed
  have it: "it = ?p" unfolding assms(2)
    by (rule lower_bound_partition) (use le below in auto)
  then show "it \<le> length ms" using le by simp
  show "(it \<noteq> length ms \<and> move_from (ms ! it) = i) = (i \<in> move_from ` set ms)"
  proof
    assume "i \<in> move_from ` set ms"
    then obtain k where k: "k < length ms" "move_from (ms ! k) = i" by (auto simp: in_set_conv_nth)
    then have p: "?p \<le> k" using below [OF k(1)] by simp
    then have "?p < length ms" using k(1) by simp
    then have "\<not> move_from (ms ! ?p) < i" using below [of ?p] by simp
    moreover have "move_from (ms ! ?p) \<le> i" using sorted_nth_mono [OF assms(1) p] k \<open>?p < length ms\<close> by simp
    ultimately show "it \<noteq> length ms \<and> move_from (ms ! it) = i" using it \<open>?p < length ms\<close> by simp
  next
    assume "it \<noteq> length ms \<and> move_from (ms ! it) = i"
    then show "i \<in> move_from ` set ms" using it le by (metis image_eqI le_neq_implies_less nth_mem)
  qed
qed

lemma row_after_right:
  assumes t: "tracks A B c" and m: "m_move_mapping c = []" and s: "sorted (map move_from (moves c))" and i: "i < length A"
  shows "if survives c i then row_after c i < length B \<and> B ! row_after c i = A ! i else row_after c i = npos"
proof (cases "i \<in> elems (deletions c)")
  case False
  have inv: "crv_inv (deletions c)" "crv_inv (insertions c)" using t by (simp_all add: tracks_def)
  have row: "row_after c i = is_shift (insertions c) (is_unshift (deletions c) i)"
    using False by (simp add: row_after_def ix.mem [OF inv(1)])
  have "shifted_to (elems (insertions c)) (unshifted (elems (deletions c)) i) (row_after c i)"
    unfolding row using ix.shift [OF inv(2)] by (simp add: ix.unshift [OF inv(1)])
  then show ?thesis
    using kept_nth_eq [of A "elems (deletions c)" B "elems (insertions c)" i "row_after c i"] t False i
    by (simp add: tracks_def diff_ok_def shifted_to_def survives_def)
next
  case True
  have inv: "crv_inv (deletions c)" using t by (simp add: tracks_def)
  have links: "Change_Track.links c = map (\<lambda>m. (move_from m, move_to m)) (moves c)" by (simp add: Change_Track.links_def m)
  let ?it = "lower_bound (\<lambda>m. move_from m < i) (moves c) 0 (length (moves c))"
  note found = find_move [OF s refl, of i]
  have row: "row_after c i = (if ?it \<noteq> length (moves c) \<and> move_from (moves c ! ?it) = i then move_to (moves c ! ?it) else npos)"
    using True by (simp add: row_after_def ix.mem [OF inv] Let_def)
  show ?thesis
  proof (cases "survives c i")
    case False
    then show ?thesis using True row found by (auto simp: survives_def)
  next
    case sv: True
    then have it: "?it \<noteq> length (moves c)" "move_from (moves c ! ?it) = i"
      using True found by (auto simp: survives_def)
    have "?it < length (moves c)"
      using it(1) found(2) by simp
    then have "(i, row_after c i) \<in> set (Change_Track.links c)"
      using it row by (auto simp: links image_iff intro!: bexI [of _ "moves c ! ?it"])
    then show ?thesis using t sv by (fastforce simp: tracks_def links_ok_def diff_ok_def)
  qed
qed

subsection \<open>A run\<close>

text \<open>The rows of the last run are those of \<open>A\<close>, the rows that are found now those of \<open>B\<close>.\<close>

definition rows_moved :: "'a list \<Rightarrow> 'a list \<Rightarrow> change_builder \<Rightarrow> nat list \<Rightarrow> nat list \<Rightarrow> bool" where
  "rows_moved A B c rows next_rows \<longleftrightarrow> tracks A B c \<and> m_move_mapping c = [] \<and> sorted (map move_from (moves c)) \<and>
     length B \<le> npos \<and> length rows \<le> npos \<and> set rows \<subseteq> {..< length A} \<and> set next_rows \<subseteq> {..< length B}"

lemma rows_after:
  assumes "rows_moved A B c rows next_rows" "k < length rows"
  shows "if survives c (rows ! k)
    then row_after c (rows ! k) \<noteq> npos \<and> row_after c (rows ! k) < length B \<and> B ! row_after c (rows ! k) = A ! (rows ! k)
    else row_after c (rows ! k) = npos"
proof -
  have "rows ! k \<in> {..< length A}" using assms nth_mem [OF assms(2)] unfolding rows_moved_def by (metis subsetD)
  then have "rows ! k < length A" by simp
  then show ?thesis using row_after_right [of A B c "rows ! k"] assms(1) by (auto simp: rows_moved_def split: if_splits)
qed

lemma moved_rows_track:
  assumes "rows_moved A B c rows next_rows" "tracks (map (row_after c) rows) next_rows r"
  shows "tracks (map ((!) A) rows) (map ((!) B) next_rows) r"
proof (rule tracks_objects [OF assms(2)])
  have "set next_rows \<subseteq> {..< npos}" using assms(1) by (auto simp: rows_moved_def)
  then show "npos \<notin> set next_rows" by auto
  fix k assume "k < length (map (row_after c) rows)" "map (row_after c) rows ! k \<noteq> npos"
  then show "map ((!) A) rows ! k = B ! (map (row_after c) rows ! k)"
    using rows_after [OF assms(1), of k] by (auto split: if_splits)
qed simp

definition runs_again :: "query_state \<Rightarrow> results_notifier \<Rightarrow> bool" where
  "runs_again q n \<longleftrightarrow> query_attached q \<and> need_to_run q n \<and> m_has_run (results_base n) \<and> m_have_callbacks (results_base n)"

lemma run_again:
  assumes "runs_again q n" "changes_of_table ci q n = Some c"
  shows "m_changes (results_run s P ci q n) = calculate s (map (row_after c) (m_previous_rows n)) (query_rows q) P
      (if m_target_is_in_table_order n \<and> \<not> will_apply_sort n then Some (insertions c) else None)"
    "m_previous_rows (results_run s P ci q n) = query_rows q" "m_tv (results_run s P ci q n) = Some (query_rows q)"
  using assms by (simp_all add: results_run_def runs_again_def calculate_changes_def changes_of_table_def Let_def split: if_splits)

text \<open>
  C10. A further run of a query whose order is not that of the table: what \<open>ResultsNotifier\<close> reports
  describes how the objects in the results changed, when the changes of the table say how its rows
  changed; the marks are on the objects that were in the results before, are still, and changed
  themselves. The rows of this run are kept for the next.
\<close>

theorem results_changes_describe:
  assumes "sorts_rows s" "runs_again q n" "changes_of_table ci q n = Some c"
    "rows_moved A B c (m_previous_rows n) (query_rows q)" "distinct (query_rows q)"
    "\<not> m_target_is_in_table_order n \<or> will_apply_sort n"
  shows "let n' = results_run s row_did_change ci q n in
    tracks (map ((!) A) (m_previous_rows n)) (map ((!) B) (query_rows q)) (m_changes n') \<and>
    elems (modifications (m_changes n')) = {i. i < length (query_rows q) \<and> row_did_change (query_rows q ! i) \<and>
      query_rows q ! i \<in> row_after c ` {r \<in> set (m_previous_rows n). survives c r}} \<and>
    m_previous_rows n' = query_rows q"
proof -
  let ?prev = "map (row_after c) (m_previous_rows n)" and ?next = "query_rows q"
  let ?r = "calculate s ?prev ?next row_did_change None"
  have len: "length ?prev \<le> npos" using assms(4) by (simp add: rows_moved_def)
  have r: "m_changes (results_run s row_did_change ci q n) = ?r" using run_again(1) [OF assms(2,3)] assms(6) by auto
  have "tracks ?prev ?next ?r" using calculate_any_order [OF assms(1) len] by (simp add: Let_def)
  then have "tracks (map ((!) A) (m_previous_rows n)) (map ((!) B) ?next) ?r" by (rule moved_rows_track [OF assms(4)])
  moreover have "set ?prev - {npos} = row_after c ` {r \<in> set (m_previous_rows n). survives c r}"
  proof -
    have "row_after c r \<noteq> npos \<longleftrightarrow> survives c r" if r: "r \<in> set (m_previous_rows n)" for r
    proof -
      obtain k where "k < length (m_previous_rows n)" "r = m_previous_rows n ! k" using r by (auto simp: in_set_conv_nth)
      then show ?thesis using rows_after [OF assms(4), of k] by (auto split: if_splits)
    qed
    then show ?thesis by auto
  qed
  then have "elems (modifications ?r) = {i. i < length ?next \<and> row_did_change (?next ! i) \<and>
      ?next ! i \<in> row_after c ` {r \<in> set (m_previous_rows n). survives c r}}"
    unfolding calculate_marks_changed_rows [OF assms(1) len assms(5)] by auto
  ultimately show ?thesis using run_again(2) [OF assms(2,3)] by (simp add: r Let_def)
qed

subsection \<open>Results in table order\<close>

text \<open>
  Rows of a table move only when a row in front is deleted and the last one takes its place, so a
  row that moved was behind every row that did not.
\<close>

definition moves_from_end :: "'a list \<Rightarrow> change_builder \<Rightarrow> bool" where
  "moves_from_end A c \<longleftrightarrow> (\<forall>m \<in> set (moves c). \<forall>k < length A. k \<notin> elems (deletions c) \<longrightarrow> k < move_from m)"

lemma row_after_cases:
  assumes t: "tracks A B c" and m: "m_move_mapping c = []" and s: "sorted (map move_from (moves c))" and i: "survives c i"
  shows "i \<notin> elems (deletions c) \<and> row_after c i = is_shift (insertions c) (unshifted (elems (deletions c)) i) \<or>
    i \<in> move_from ` set (moves c) \<and> row_after c i \<in> elems (insertions c)"
proof (cases "i \<in> elems (deletions c)")
  case False
  have "crv_inv (deletions c)" using t by (simp add: tracks_def)
  then show ?thesis using False by (simp add: row_after_def ix.mem ix.unshift)
next
  case True
  have inv: "crv_inv (deletions c)" using t by (simp add: tracks_def)
  let ?it = "lower_bound (\<lambda>m. move_from m < i) (moves c) 0 (length (moves c))"
  note found = find_move [OF s refl, of i]
  have from_move: "i \<in> move_from ` set (moves c)" using i True by (simp add: survives_def)
  then have it: "?it < length (moves c)" "move_from (moves c ! ?it) = i" using found by auto
  then have "row_after c i = move_to (moves c ! ?it)"
    using True by (simp add: row_after_def ix.mem [OF inv] Let_def)
  moreover have "(i, move_to (moves c ! ?it)) \<in> set (Change_Track.links c)"
    using it by (auto simp: Change_Track.links_def m image_iff intro!: bexI [of _ "moves c ! ?it"])
  ultimately show ?thesis using t from_move by (fastforce simp: tracks_def links_ok_def)
qed

lemma not_overtaken_rows:
  assumes c: "rows_moved A B c rows next_rows" "moves_from_end A c"
    and sorted: "sorted_wrt (<) rows" "sorted_wrt (<) next_rows"
    and i: "i < j" "j < length next_rows" "next_rows ! i \<notin> elems (insertions c)"
    and p: "p < length rows" "row_after c (rows ! p) = next_rows ! i"
    and q: "q < length rows" "row_after c (rows ! q) = next_rows ! j"
  shows "p < q"
proof -
  have t: "tracks A B c" "m_move_mapping c = []" "sorted (map move_from (moves c))" "length B \<le> npos"
    and sub: "set rows \<subseteq> {..< length A}" "set next_rows \<subseteq> {..< length B}"
    using c(1) by (simp_all add: rows_moved_def)
  have "next_rows ! i \<in> {..< length B}" "next_rows ! j \<in> {..< length B}"
    using i sub(2) nth_mem by (metis less_trans subsetD)+
  then have "survives c (rows ! p)" "survives c (rows ! q)"
    using rows_after [OF c(1) p(1)] rows_after [OF c(1) q(1)] p(2) q(2) t(4) by (auto split: if_splits)
  note at = row_after_cases [OF t(1-3) this(1)] row_after_cases [OF t(1-3) this(2)]
  have kept: "rows ! p \<notin> elems (deletions c)"
    "next_rows ! i = is_shift (insertions c) (unshifted (elems (deletions c)) (rows ! p))" using at(1) p(2) i(3) by auto
  have A: "rows ! p < length A" using sub(1) nth_mem [OF p(1)] by auto
  have "rows ! p < rows ! q"
    using at(2)
  proof
    assume q': "rows ! q \<notin> elems (deletions c) \<and> row_after c (rows ! q) = is_shift (insertions c) (unshifted (elems (deletions c)) (rows ! q))"
    have inv: "crv_inv (insertions c)" using t(1) by (simp add: tracks_def)
    have less: "next_rows ! i < next_rows ! j" using sorted(2) i by (simp add: sorted_wrt_nth_less)
    show ?thesis
    proof (rule ccontr)
      assume "\<not> rows ! p < rows ! q"
      then have "rows ! q = rows ! p \<or> unshifted (elems (deletions c)) (rows ! q) < unshifted (elems (deletions c)) (rows ! p)"
        using unshifted_less [of "rows ! q" "rows ! p" "elems (deletions c)"] q' by force
      then have "next_rows ! j \<le> next_rows ! i"
        using ix.shift_strict_mono [OF inv] kept(2) q' q(2) p(2) by (metis less_imp_le order_refl)
      then show False using less by simp
    qed
  next
    assume "rows ! q \<in> move_from ` set (moves c) \<and> row_after c (rows ! q) \<in> elems (insertions c)"
    then show ?thesis using c(2) kept(1) A by (auto simp: moves_from_end_def)
  qed
  then show ?thesis
    using sorted(1) p(1) q(1) by (metis less_asym linorder_neqE_nat sorted_wrt_nth_less)
qed

text \<open>
  C11. A further run of a query whose results are in the order of their table: the report describes how
  the objects in the results changed, and each reported move leads from a deleted to an inserted
  position. It rests on the way rows of a table move (\<open>moves_from_end\<close>).
\<close>

theorem results_in_table_order:
  assumes "sorts_rows s" "runs_again q n" "changes_of_table ci q n = Some c"
    "rows_moved A B c (m_previous_rows n) (query_rows q)" "moves_from_end A c"
    "m_target_is_in_table_order n" "\<not> will_apply_sort n"
    "sorted_wrt (<) (m_previous_rows n)" "sorted_wrt (<) (query_rows q)"
  shows "let n' = results_run s row_did_change ci q n in
    tracks (map ((!) A) (m_previous_rows n)) (map ((!) B) (query_rows q)) (m_changes n') \<and> cb_verify (m_changes n')"
proof -
  let ?prev = "map (row_after c) (m_previous_rows n)" and ?next = "query_rows q"
  have len: "length ?prev \<le> npos" and inv: "crv_inv (insertions c)"
    using assms(4) by (simp_all add: rows_moved_def tracks_def)
  let ?r = "calculate s ?prev ?next row_did_change (Some (insertions c))"
  have order: "p < q" if "i < j" "j < length ?next" "?next ! i \<notin> elems (insertions c)"
      "p < length ?prev" "q < length ?prev" "?prev ! p = ?next ! i" "?prev ! q = ?next ! j" for i j p q
    by (rule not_overtaken_rows [OF assms(4,5,8,9) that(1-3)]) (use that in simp_all)
  have "let r = ?r in tracks ?prev ?next r \<and> cb_verify r \<and> marks_ok (length ?next) r"
    by (rule calculate_table_order [OF assms(1) len inv order])
  then have r: "tracks ?prev ?next ?r" "cb_verify ?r" by (simp_all only: Let_def)
  have "m_changes (results_run s row_did_change ci q n) = ?r"
    using run_again(1) [OF assms(2,3)] assms(6,7) by (simp only: simp_thms if_True)
  then show ?thesis using moved_rows_track [OF assms(4) r(1)] r(2) by (simp only: Let_def)
qed

subsection \<open>A run on four rows\<close>

text \<open>The first of four objects was deleted, and the last took its place; all but one are found.\<close>

definition moved_last :: change_builder where
  "moved_last = parse_complete (cb_move_over 0 3 True empty_builder)"

definition four_objects :: "string list" where
  "four_objects = [''a'', ''b'', ''c'', ''d'']"

definition three_objects :: "string list" where
  "three_objects = [''d'', ''b'', ''c'']"

definition example_query :: query_state where
  "example_query = \<lparr>query_attached = True, query_table = 0, query_version = 8, view_version = 8, query_rows = [0, 2],
     realm_alive = True, wants_background_updates = False\<rparr>"

definition example_results :: "bool \<Rightarrow> results_notifier" where
  "example_results in_table_order = (new_results_notifier 1 in_table_order False)
     \<lparr>results_base := (new_notifier 1)\<lparr>m_has_run := True, m_have_callbacks := True\<rparr>, m_previous_rows := [0, 1, 3]\<rparr>"

definition example_change :: change_info where
  "example_change = \<lparr>info_tables = [moved_last], schema_changed = False\<rparr>"

lemma moved_last_is: "moved_last = \<lparr>deletions = is_add (is_add [] 0) 3, insertions = is_add [] 0, modifications = [],
    modifications_new = [], moves = [\<lparr>move_from = 3, move_to = 0\<rparr>], columns = [], m_move_mapping = [], m_track_columns = True\<rparr>"
  unfolding moved_last_def empty_builder_def by code_simp

lemma example_moved: "rows_moved four_objects three_objects moved_last [0, 1, 3] [0, 2]"
proof -
  have "row_history four_objects (over 0 four_objects) (cb_move_over 0 (length four_objects - 1) True empty_builder)"
    by (intro row_history.over row_history.start) (simp_all add: four_objects_def npos_def)
  moreover have "over 0 four_objects = three_objects" "length four_objects - 1 = 3" by code_simp+
  ultimately have history: "row_history four_objects three_objects (cb_move_over 0 3 True empty_builder)" by (simp only:)
  have "tracks four_objects three_objects moved_last"
    unfolding moved_last_def by (rule parse_complete_tracks(1)) (use row_history_inv [OF history] in blast)+
  then show ?thesis
    by (simp add: rows_moved_def moved_last_is four_objects_def three_objects_def npos_def)
qed

lemma example_runs: "runs_again example_query (example_results b)"
  "changes_of_table example_change example_query (example_results b) = Some moved_last"
  by (simp_all add: runs_again_def need_to_run_def example_query_def example_results_def new_results_notifier_def
      new_notifier_def changes_of_table_def example_change_def npos_def)

theorem results_changes_describe_witness:
  "let n' = results_run (sort_key row_index) (\<lambda>r. r = 0) example_change example_query (example_results False) in
    tracks (map ((!) four_objects) [0, 1, 3]) (map ((!) three_objects) [0, 2]) (m_changes n')"
proof -
  have "rows_moved four_objects three_objects moved_last (m_previous_rows (example_results False)) (query_rows example_query)"
    using example_moved by (simp add: example_results_def example_query_def)
  from results_changes_describe [OF sort_key_sorts_rows example_runs this, of "\<lambda>r. r = 0"]
  show ?thesis by (simp add: example_results_def new_results_notifier_def example_query_def Let_def)
qed

theorem results_in_table_order_witness:
  "let n' = results_run (sort_key row_index) (\<lambda>r. r = 0) example_change example_query (example_results True) in
    tracks (map ((!) four_objects) [0, 1, 3]) (map ((!) three_objects) [0, 2]) (m_changes n') \<and> cb_verify (m_changes n')"
proof -
  have moved: "rows_moved four_objects three_objects moved_last (m_previous_rows (example_results True)) (query_rows example_query)"
    using example_moved by (simp add: example_results_def example_query_def)
  have D: "elems (deletions moved_last) = {0, 3}"
    using ix.add [OF crv_inv_Nil, of 0] ix.add [of "is_add [] 0" 3] by (simp add: moved_last_is insert_commute)
  have "moves_from_end four_objects moved_last" unfolding moves_from_end_def D
    by (auto simp: moved_last_is four_objects_def less_Suc_eq)
  from results_in_table_order [OF sort_key_sorts_rows example_runs moved this, of "\<lambda>r. r = 0"]
  show ?thesis by (simp add: example_results_def new_results_notifier_def example_query_def Let_def)
qed

subsection \<open>The end of a table, and the handover\<close>

text \<open>When the table is gone, the run reports every row as deleted, and forgets them.\<close>

lemma dead_table_reports_all:
  assumes "\<not> query_attached q"
  shows "let n' = results_run s P ci q n in
    tracks (map ((!) A) (m_previous_rows n)) [] (m_changes n') \<and> m_previous_rows n' = []"
  using assms set_correct [of "[]" "length (m_previous_rows n)"]
  by (simp add: results_run_def Let_def tracks_def diff_ok_def links_ok_def Change_Track.links_def fresh_builder_def make_builder_def
      keep_def nths_positions crv_inv_Nil atLeast0LessThan)

text \<open>Once the run is over the target gets the rows of the run, or those that still wait for it.\<close>

lemma handover_delivers:
  "results_deliver True (snd (results_prepare_to_deliver True (results_prepare_handover version n))) =
     (case m_tv n of Some rows \<Rightarrow> Some rows | None \<Rightarrow> map_option snd (m_tv_handover n),
      (results_prepare_handover version n)\<lparr>m_tv_handover := None, m_tv_to_deliver := None\<rparr>)"
  by (auto simp: results_deliver_def results_prepare_to_deliver_def results_prepare_handover_def Let_def
      option.map_comp comp_def case_prod_beta split: option.split)

lemma nothing_left_to_report: "cs_empty (m_changes (results_prepare_handover version n))"
  by (simp add: results_prepare_handover_def taken_from_def moved_from_def cs_empty_def crv_empty_def Let_def)

end
