(* ===== verification/List_Notifiers.thy ===== *)
theory List_Notifiers
  imports Notifier Transact_Log Deep_Check_Props
begin

text \<open>
  The notifiers of lists and of single objects (\<open>impl/list_notifier.cpp\<close>,
  \<open>impl/primitive_list_notifier.cpp\<close>, \<open>impl/object_notifier.cpp\<close>). What the transaction log
  recorded of their list or row is completed on the background worker and handed to the callbacks.

  The accessor of the list or row is the storage engine's: here \<open>None\<close> if it is gone or no longer
  attached. Its import and export between threads are left out.
\<close>

subsection \<open>Lists of objects\<close>

record list_notifier =
  list_base :: notifier
  m_prev_size :: nat
  m_change :: change_builder

definition new_list_notifier :: "nat \<Rightarrow> nat \<Rightarrow> list_notifier" where
  "new_list_notifier version n = \<lparr>list_base = new_notifier version, m_prev_size = n, m_change = fresh_builder\<rparr>"

text \<open>The list is known by its origin: table, row and column; \<open>addr\<close> is the address of the change set.\<close>

definition list_required_info :: "nat \<Rightarrow> (nat \<times> nat \<times> nat) option \<Rightarrow> transaction_info \<Rightarrow> bool \<times> transaction_info" where
  "list_required_info addr origin ti =
     (case origin of
        None \<Rightarrow> (False, ti)
      | Some (table, row, col) \<Rightarrow>
          (True, ti\<lparr>lists := lists ti @ [\<lparr>list_table = table, list_row = row, list_col = col, list_changes = addr\<rparr>]\<rparr>))"

definition list_gone :: "list_notifier \<Rightarrow> list_notifier" where
  "list_gone n =
     (if m_prev_size n \<noteq> 0
      then n\<lparr>m_change := (m_change n)\<lparr>deletions := is_set (deletions (m_change n)) (m_prev_size n)\<rparr>, m_prev_size := 0\<rparr>
      else n\<lparr>m_change := fresh_builder\<rparr>)"

definition mark_changed :: "(nat \<Rightarrow> bool) \<Rightarrow> nat list \<Rightarrow> nat \<Rightarrow> crv \<Rightarrow> crv" where
  "mark_changed row_did_change rows i mods =
     (if is_contains mods i then mods else if row_did_change (rows ! i) then is_add mods i else mods)"

text \<open>The rows of the list, if it is still there.\<close>

definition list_run :: "(nat \<Rightarrow> bool) \<Rightarrow> nat list option \<Rightarrow> list_notifier \<Rightarrow> list_notifier" where
  "list_run row_did_change lv n =
     (case lv of
        None \<Rightarrow> list_gone n
      | Some rows \<Rightarrow>
          let c = m_change n;
              mods = fold (mark_changed row_did_change rows) [0 ..< length rows] (modifications c);
              mods = fold (\<lambda>m. mark_changed row_did_change rows (move_to m)) (moves c) mods
          in n\<lparr>m_change := c\<lparr>modifications := mods\<rparr>, m_prev_size := length rows\<rparr>)"

definition list_prepare_handover :: "nat \<Rightarrow> list_notifier \<Rightarrow> list_notifier" where
  "list_prepare_handover version n =
     n\<lparr>list_base := prepare_handover version (add_changes (m_change n) (list_base n)),
       m_change := (moved_from (m_change n))\<lparr>m_move_mapping := []\<rparr>\<rparr>"

subsection \<open>Lists of values\<close>

text \<open>The size of the list, if it is still there. A cleared list was recorded with the largest size.\<close>

definition primitive_run :: "nat option \<Rightarrow> list_notifier \<Rightarrow> list_notifier" where
  "primitive_run size_now n =
     (case size_now of
        None \<Rightarrow> list_gone n
      | Some len \<Rightarrow>
          let c = m_change n; dels = deletions c;
              dels = (if \<not> crv_empty dels \<and> snd (deref dels (crv_begin dels)) = npos then is_set dels (m_prev_size n) else dels)
          in n\<lparr>m_change := c\<lparr>deletions := dels\<rparr>, m_prev_size := len\<rparr>)"

subsection \<open>Objects\<close>

text \<open>\<open>m_row\<close> is null, detached, or at a row of a table.\<close>

datatype row_ref = Null_row | Detached_row | Row_at nat nat

record object_notifier =
  object_base :: notifier
  m_row :: row_ref
  object_change :: change_builder

definition object_required_info :: "object_notifier \<Rightarrow> transaction_info \<Rightarrow> bool \<times> transaction_info" where
  "object_required_info n ti =
     (case m_row n of
        Row_at table row \<Rightarrow>
          let needed = table_modifications_needed ti;
              needed = (if length needed \<le> table then resize_with False (table + 1) needed else needed)
          in (False, ti\<lparr>table_modifications_needed := needed[table := True]\<rparr>)
      | _ \<Rightarrow> (False, ti))"

definition object_run :: "change_info \<Rightarrow> object_notifier \<Rightarrow> object_notifier" where
  "object_run ti n =
     (case m_row n of
        Null_row \<Rightarrow> n
      | Detached_row \<Rightarrow>
          n\<lparr>object_change := (object_change n)\<lparr>deletions := is_add (deletions (object_change n)) 0\<rparr>, m_row := Null_row\<rparr>
      | Row_at table row \<Rightarrow>
          if length (info_tables ti) \<le> table then n
          else let change = info_tables ti ! table in
            if \<not> is_contains (modifications change) row then n
            else n\<lparr>object_change := (object_change n)
              \<lparr>modifications := is_add (modifications (object_change n)) 0,
               columns := columns (object_change n) @
                 map (\<lambda>col. if is_contains col row then is_add [] 0 else []) (columns change)\<rparr>\<rparr>)"

definition object_prepare_handover :: "nat \<Rightarrow> object_notifier \<Rightarrow> object_notifier" where
  "object_prepare_handover version n =
     n\<lparr>object_base := prepare_handover version (add_changes (object_change n) (object_base n)),
       object_change := (moved_from (object_change n))\<lparr>m_move_mapping := []\<rparr>\<rparr>"

end
