(* ===== verification/List_Notifier_Props.thy ===== *)
theory List_Notifier_Props
  imports List_Notifiers
begin

text \<open>What the notifiers of lists and objects add to the recorded changes.\<close>

subsection \<open>Lists of objects\<close>

lemma mark_changed_elems:
  assumes "crv_inv mods"
  shows "crv_inv (mark_changed P rows i mods)"
    "elems (mark_changed P rows i mods) = elems mods \<union> (if P (rows ! i) then {i} else {})"
  using ix.add [OF assms, of i] ix.mem [OF assms, of i] assms by (auto simp: mark_changed_def)

lemma fold_mark_changed:
  assumes "crv_inv mods"
  shows "crv_inv (fold (\<lambda>x. mark_changed P rows (f x)) xs mods)"
    "elems (fold (\<lambda>x. mark_changed P rows (f x)) xs mods) = elems mods \<union> {f x |x. x \<in> set xs \<and> P (rows ! f x)}"
proof -
  have "crv_inv (fold (\<lambda>x. mark_changed P rows (f x)) xs mods) \<and>
      elems (fold (\<lambda>x. mark_changed P rows (f x)) xs mods) = elems mods \<union> {f x |x. x \<in> set xs \<and> P (rows ! f x)}"
    using assms
  proof (induction xs arbitrary: mods)
    case (Cons x xs)
    then show ?case using mark_changed_elems [OF Cons.prems, of P rows "f x"] by auto
  qed simp
  then show "crv_inv (fold (\<lambda>x. mark_changed P rows (f x)) xs mods)"
    "elems (fold (\<lambda>x. mark_changed P rows (f x)) xs mods) = elems mods \<union> {f x |x. x \<in> set xs \<and> P (rows ! f x)}"
    by blast+
qed

lemma list_run_change:
  "m_change (list_run P (Some rows) n) = (m_change n)\<lparr>modifications := modifications (m_change (list_run P (Some rows) n))\<rparr>"
  "m_prev_size (list_run P (Some rows) n) = length rows"
  by (simp_all add: list_run_def Let_def)

text \<open>
  C7. While the list is there, \<open>ListNotifier\<close> reports what the log recorded of it, and in addition
  exactly the positions whose row changed; it remembers the size for the next run. (The second loop, over
  the moves, never finds anything: the first has been at every position of the list.)
\<close>

theorem list_run_marks:
  assumes "tracks A rows (m_change n)" "marks_ok (length rows) (m_change n)"
  shows "let n' = list_run row_did_change (Some rows) n in
    tracks A rows (m_change n') \<and> marks_ok (length rows) (m_change n') \<and> m_prev_size n' = length rows \<and>
    elems (modifications (m_change n')) = elems (modifications (m_change n)) \<union> {i. i < length rows \<and> row_did_change (rows ! i)}"
proof -
  let ?c = "m_change n" and ?P = row_did_change
  let ?m1 = "fold (mark_changed ?P rows) [0 ..< length rows] (modifications ?c)"
  let ?m2 = "fold (\<lambda>m. mark_changed ?P rows (move_to m)) (moves ?c) ?m1"
  have inv: "crv_inv (modifications ?c)" "elems (modifications ?c) \<subseteq> {..< length rows}"
    using assms(2) by (simp_all add: marks_ok_def)
  note first = fold_mark_changed [OF inv(1), of ?P rows "\<lambda>i. i" "[0 ..< length rows]"]
  note second = fold_mark_changed [OF first(1), of ?P rows move_to "moves ?c"]
  have "move_to m < length rows" if "m \<in> set (moves ?c)" for m
    using assms(1) that by (fastforce simp: tracks_def links_ok_def diff_ok_def Change_Track.links_def)
  then have elems: "elems ?m2 = elems (modifications ?c) \<union> {i. i < length rows \<and> ?P (rows ! i)}"
    unfolding second(2) first(2) by auto
  have run: "list_run ?P (Some rows) n = n\<lparr>m_change := ?c\<lparr>modifications := ?m2\<rparr>, m_prev_size := length rows\<rparr>"
    by (simp add: list_run_def Let_def)
  have "tracks A rows (?c\<lparr>modifications := ?m2\<rparr>)" using assms(1) by (simp add: tracks_def Change_Track.links_def)
  then show ?thesis using second(1) elems inv(2) unfolding run by (auto simp: marks_ok_def Let_def)
qed

theorem list_run_marks_witness:
  "let n = (new_list_notifier 1 1)\<lparr>m_change := cb_insert 0 1 True empty_builder\<rparr>;
       n' = list_run (\<lambda>r. r = 7) (Some [5, 7]) n in
     tracks [7 :: nat] [5, 7] (m_change n') \<and> 1 \<in> elems (modifications (m_change n'))"
proof -
  let ?n = "(new_list_notifier 1 1)\<lparr>m_change := cb_insert 0 1 True empty_builder\<rparr>"
  have h: "list_history [7 :: nat] (take 0 [7] @ [5] @ drop 0 [7]) (cb_insert 0 (length [5 :: nat]) True empty_builder)"
    by (intro list_history.inserted list_history.start) simp_all
  have "tracks [7 :: nat] [5, 7] (m_change ?n)" using list_history_inv [OF h] by simp
  moreover have "marks_ok (length [5, 7 :: nat]) (m_change ?n)"
    using ix.make_room [OF crv_inv_Nil, of 1 0]
    by (simp add: cb_insert_def for_each_col_def empty_builder_def make_builder_def marks_ok_def Let_def elems_Nil open_gap_def)
  ultimately show ?thesis using list_run_marks [of "[7]" "[5, 7]" ?n "\<lambda>r. r = 7"] by (simp add: Let_def)
qed

subsection \<open>A list that is gone\<close>

lemma keep_none: "keep A {0 ..< length A} = []"
  by (simp add: keep_def length_nths flip: length_0_conv)

lemma list_gone_reports_all:
  assumes "insertions (m_change n) = []" "moves (m_change n) = []" "m_move_mapping (m_change n) = []" "m_prev_size n = length A"
  shows "tracks A [] (m_change (list_gone n))"
proof (cases "A = []")
  case True
  then show ?thesis using assms empty_tracks [of A] by (simp add: list_gone_def fresh_builder_def empty_builder_def)
next
  case False
  have "crv_inv (is_set (deletions (m_change n)) (length A))" "elems (is_set (deletions (m_change n)) (length A)) = {0 ..< length A}"
    by (rule set_correct)+
  then show ?thesis
    using assms False by (auto simp: list_gone_def tracks_def diff_ok_def links_ok_def Change_Track.links_def keep_none
        crv_inv_Nil elems_Nil)
qed

lemma list_gone_once: "list_gone (list_gone n\<lparr>m_prev_size := 0\<rparr>) = (list_gone n)\<lparr>m_change := fresh_builder, m_prev_size := 0\<rparr>"
  by (simp add: list_gone_def)

text \<open>
  When the list changed in the transaction that removed its owner, its insertions are reported along
  with the deletion of all rows, although the list is empty.
\<close>

lemma gone_list_reports_insertions:
  assumes "m_prev_size n = 1" "m_change n = cb_insert 0 1 True fresh_builder"
  shows "m_change (list_run P None n) = (m_change n)\<lparr>deletions := is_set [] 1\<rparr>"
    "flat (is_set [] 1) = [(0, 1)]" "flat (insertions (m_change n)) = [(0, 1)]"
proof -
  have "deletions (cb_insert 0 1 True fresh_builder) = []" "flat (insertions (cb_insert 0 1 True fresh_builder)) = [(0, 1)]"
    by code_simp+
  then show "m_change (list_run P None n) = (m_change n)\<lparr>deletions := is_set [] 1\<rparr>"
    "flat (insertions (m_change n)) = [(0, 1)]"
    using assms by (simp_all add: list_run_def list_gone_def)
  show "flat (is_set [] 1) = [(0, 1)]" by code_simp
qed

subsection \<open>Lists of values\<close>

lemma primitive_cleared:
  assumes "deletions (m_change n) = is_set [] npos"
  shows "elems (deletions (m_change (primitive_run (Some len) n))) = {0 ..< m_prev_size n}"
proof -
  have "npos \<noteq> 0" by (simp add: npos_def)
  then have "\<not> crv_empty (is_set [] npos)" "snd (deref (is_set [] npos) (crv_begin (is_set [] npos))) = npos"
    by (simp_all add: is_set_def crv_push_back_def is_clear_def crv_empty_def crv_begin_def deref_def)
  then show ?thesis using set_correct [of "is_set [] npos" "m_prev_size n"]
    by (simp add: primitive_run_def Let_def assms)
qed

subsection \<open>Objects\<close>

lemma object_run_reports:
  assumes "m_row n = Row_at table row" "\<forall>c \<in> set (info_tables ti). crv_inv (modifications c)"
    "object_change n = fresh_builder"
  shows "0 \<in> elems (modifications (object_change (object_run ti n))) \<longleftrightarrow> modified ti (table, row)"
proof -
  have "crv_inv ([] :: crv)" by (rule crv_inv_Nil)
  then show ?thesis using assms ix.add [OF crv_inv_Nil, of 0]
    by (auto simp: object_run_def modified_def row_modified_def Let_def fresh_builder_def make_builder_def elems_Nil ix.mem)
qed

end
