(* ===== verification/Spec2Isabelle.thy ===== *)
theory Spec2Isabelle
  imports Index_Set_Props Change_Asserts Change_Calc_Props Sync_Session_Props Deep_Check_Props Notifier_Props Schema_Props
    Kvo_Props Incremental_Change Schema_Update_Props Sync_File_Props
    Object_Store_Props Object_Store_Rename Results_Props List_Notifier_Props
begin

text \<open>
  A verification library of the Realm Object Store, the C++ library that this repository carries
  under \<open>src/App/Pods/Realm\<close>: the sources in \<open>Realm/ObjectStore/src\<close> and their headers in
  \<open>include\<close>. Paths below are relative to these directories.

  \<^bold>\<open>The program\<close>

  The Object Store sits between the bindings of a language and the storage engine. Three of its
  parts carry logic of their own. Change notifications: a transaction log is read instruction by
  instruction, the changes of tables and lists are recorded in change sets, merged over
  transactions and versions, and delivered to callbacks; all of this rests on sets of positions.
  Schemas: object types are validated, looked up and compared, and the comparison tells what has
  to change in a file. Synchronisation: a session is a state machine that owns an underlying
  session of the sync client, with callbacks that wait for transfers, report progress and
  connection states.

  \<^bold>\<open>Sets of positions\<close> (\<open>index_set.cpp\<close>, \<open>index_set.hpp\<close>)

  \<open>Range_Vector\<close> is the chunked vector of ranges with its iterators, \<open>Index_Set\<close> every
  operation of \<open>IndexSet\<close> on it, \<open>Index_Set_Bulk\<close> the builder and the operations on two sets.
  The invariant \<open>crv_inv\<close> implies the checks of \<open>verify()\<close>. \<open>Index_Set_Find\<close>, \<open>_Count\<close>,
  \<open>_Shift\<close> and \<open>_Remove\<close> show what each operation does to \<open>elems\<close>, the set of positions;
  \<open>Index_Set_Interface\<close> states it as the locale \<open>position_set\<close>, interpreted on the code's
  operations, and the later theories use nothing else. \<open>Index_Set_Props\<close> holds the properties.

  \<^bold>\<open>Change sets\<close> (\<open>impl/collection_change_builder.cpp\<close>)

  \<open>Change_Builder\<close> is \<open>CollectionChangeBuilder\<close>: each operation that records a change, \<open>merge\<close>,
  \<open>parse_complete\<close> and \<open>finalize\<close>. The relation \<open>tracks A B t\<close> (\<open>Change_Track\<close>) says that the
  builder \<open>t\<close> describes how the list \<open>A\<close> became \<open>B\<close>: outside deletions and insertions both are
  equal, and moves join equal elements. \<open>List_Edit\<close>, \<open>Change_Move\<close>, \<open>Change_Rows\<close>,
  \<open>Change_Merge\<close> and \<open>Change_History\<close> show that the operations keep it, \<open>Change_Props\<close> sums up.
  \<open>Change_Calculate\<close> is the difference of two lists of rows with the longest common subsequence;
  \<open>Change_Match\<close>, \<open>Change_Table_Order\<close> and \<open>Change_Align\<close> prove it right, \<open>Change_Calc_Props\<close>
  states it. The sort by row index is a parameter, of which only the order is known.

  \<^bold>\<open>Transaction logs\<close> (\<open>impl/transact_log_handler.cpp\<close>, \<open>impl/realm_coordinator.cpp\<close>)

  \<open>Transact_Log\<close> has an \<open>instruction\<close> for each method of the handlers and \<open>TransactLogObserver\<close>
  as the state that they change; an error is a value of \<open>log_error\<close>. \<open>Transact_Lists\<close> is the
  specification: a database whose tables, rows and columns have identities, with \<open>replay\<close> for
  what an instruction does to it. \<open>Transact_Follow\<close> and \<open>Transact_Props\<close> prove that the observer
  follows the database (the simulation relation is \<open>follows\<close>) and keep four logs on which it goes
  wrong. \<open>Transact_Columns\<close> does the same for the column numbers. \<open>Kvo_Adapter\<close> and \<open>Kvo_Props\<close>
  are \<open>KVOAdapter\<close>, which tells observers of rows what a log means for them.
  \<open>Incremental_Change\<close> is \<open>IncrementalChangeInfo\<close>, which merges the change information of
  several versions.

  \<^bold>\<open>Notifiers\<close> (\<open>impl/collection_notifier.cpp\<close>)

  \<open>Deep_Check\<close> is the search for modified rows behind links; \<open>Deep_Tables\<close>, \<open>Deep_Search\<close> and
  \<open>Deep_Check_Props\<close> prove it equal to reachability within the depth of the code. The recursion
  of \<open>find_related_tables\<close> carries fuel, and one unit for each table of the group is proved to be
  enough. \<open>Notifier\<close> and \<open>Notifier_Props\<close> are the callbacks of a notifier, its packages and their
  delivery while callbacks come and go (\<open>Notifier_Errors\<close> follows the list of callbacks through the
  delivery of an error). \<open>Results_Notifier\<close> is the notifier of a query
  (\<open>impl/results_notifier.cpp\<close>), which compares the rows of two runs; \<open>Results_Props\<close> shows that it
  reports how the objects in the results changed. \<open>List_Notifiers\<close> and \<open>List_Notifier_Props\<close> are the
  notifiers of lists and single objects (\<open>impl/list_notifier.cpp\<close>,
  \<open>impl/primitive_list_notifier.cpp\<close>, \<open>impl/object_notifier.cpp\<close>).

  \<^bold>\<open>Schemas\<close> (\<open>property.hpp\<close>, \<open>object_schema.cpp\<close>, \<open>schema.cpp\<close>)

  \<open>Object_Schema\<close> is \<open>Property\<close> and \<open>ObjectSchema\<close>, with property types as bytes and their flags
  as bits, \<open>Schema\<close> the validation and the comparison of schemas. \<open>Schema_Valid\<close> and
  \<open>Schema_Props\<close> prove validation equal to a typing judgement (\<open>schema_ok\<close>) and describe the
  changes that the comparison returns. \<open>std::partition\<close> and \<open>std::sort\<close> leave the order of equal
  elements open; \<open>orders_changes\<close> is what is known of it. \<open>Schema_Update\<close> holds the checks of
  \<open>object_store.cpp\<close> on these changes and the decisions of \<open>shared_realm.cpp\<close> that rest on them, for
  each schema mode; \<open>Schema_Update_Props\<close> states on the two schemas what the checks let pass.

  \<^bold>\<open>Tables of a schema\<close> (\<open>object_store.cpp\<close>)

  \<open>Object_Store\<close> reads a schema from a group, applies the changes of a comparison to its tables for
  each schema mode (\<open>apply_schema_changes\<close>), keeps primary keys and versions and renames
  properties. The group is a parameter, with a record of the calls on it (\<open>group_ops\<close>); what these
  calls promise is the locale \<open>group_store\<close> in \<open>Object_Store_Group\<close>, interpreted on a group of named
  lists of columns. \<open>Object_Store_Columns\<close> and \<open>Object_Store_Update\<close> follow the columns of one type
  through its changes, in any order that the comparison may leave them in (\<open>Object_Store_Compare\<close>);
  \<open>Object_Store_Steps\<close>, \<open>Object_Store_Migration\<close> and \<open>Object_Store_Runs\<close> lift this to the group, and
  \<open>Object_Store_Props\<close> states what a migration without a migration function achieves. The laws hold
  where the engine documents that a call succeeds: names of at most 63 bytes (that they are valid
  UTF-8 is not modelled), types that a column can have, keys that are integers or strings, an index
  that may be removed; where they do not, the call is an \<open>engine_error\<close>. \<open>keyless_store\<close> adds that
  the engine has no primary keys of its own. \<open>create_table\<close> of a table that is there is taken to return it.
  \<open>Object_Store_Order\<close> is \<open>std::partition\<close> as it is usually implemented, for
  \<open>Object_Store_Examples\<close>; \<open>Object_Store_Rename\<close> proves renaming right where the new column stands
  behind the old one, and shows what it loses otherwise.

  \<^bold>\<open>Sessions\<close> (\<open>sync/sync_session.cpp\<close>)

  \<open>Sync_Progress\<close> is the progress notifier and \<open>Callback_List\<close> the list of connection callbacks,
  which is walked while callbacks change it. \<open>Sync_Session\<close> is the session: its four states, what
  every operation does in each, and the calls to the underlying session as a trace.
  \<open>Sync_Session_Inv\<close> proves the invariant over all sequences of events, \<open>Sync_Session_Waits\<close>
  follows the completion callbacks, \<open>Sync_Session_Moves\<close> the changes of state,
  \<open>Sync_Session_Props\<close> holds the properties. An event is one call with the lock held: the code
  takes the state mutex for each. A client resync gives the lock up between two steps, so these
  are steps of their own (\<open>resync_begin\<close>, \<open>resync_end\<close>) with other events in between, in the runs of
  \<open>run_actions\<close>; \<open>update_configuration\<close> gives it up between the passes of its loop, and an event is one
  pass. A failed assertion is logged and ends the run (\<open>aborted\<close>).

  \<^bold>\<open>Files of sessions\<close> (\<open>sync/impl/sync_file.cpp\<close>)

  \<open>Sync_File\<close> is percent encoding, the composition of paths and \<open>SyncFileManager\<close>; the operations
  on files are a record of functions over any file system (\<open>file_ops\<close>). \<open>Sync_File_Props\<close> shows that
  paths of different Realms differ.

  \<^bold>\<open>Conventions\<close>

  \<open>size_t\<close> is \<open>nat\<close> with \<open>npos\<close> for \<open>size_t(-1)\<close>. Where the code lets a value wrap around on purpose
  (the position in a list of callbacks, shifts that may go below zero) the wrap is written out (\<open>size_inc\<close>,
  \<open>size_dec\<close>, \<open>add_diff\<close>); elsewhere the values are positions in lists, and where a result may pass
  \<open>npos\<close> the lemmas bound the lengths by it. Loops are structural recursions, or recursions with a measure; three carry fuel (the
  removal of ranges, \<open>do_remove_loop\<close>, the walk over callbacks, \<open>callback_loop\<close>, and the search for
  related tables) with the proof that it is enough. The build is the release build that is shipped, in which \<open>REALM_ASSERT_DEBUG\<close> and \<open>verify()\<close> are
  nothing and \<open>REALM_ASSERT\<close> aborts the process. In the log handlers, the session and the Object
  Store a \<open>REALM_ASSERT\<close> is an error value or ends the run (\<open>Assertion_failed\<close>). The operations of
  \<open>IndexSet\<close> and \<open>CollectionChangeBuilder\<close> leave out the assertions on their arguments: counts that
  are not zero, \<open>from\<close> and \<open>to\<close> of a move and the rows of a swap or of \<open>subsume\<close> that differ, and the bounds of \<open>move_over\<close>.
  \<open>Change_Asserts\<close> states those of the builder and proves that they hold at every step of a run of
  list or row operations; what is proved of a move to its own place goes beyond the code. \<open>Prelude\<close> has the algorithms of
  the standard library that the code uses. A lemma that shows a fault of the code stands beside
  the properties it limits.

  \<^bold>\<open>Not modelled\<close>

  The storage engine is there as headers of a compiled library only: tables, queries and logs on
  disk are parameters (\<open>table_graph\<close>, \<open>group_lists\<close>, \<open>log_between\<close>, \<open>group_ops\<close>, \<open>query_state\<close>). Code that does
  nothing but call it is left out: the permissions of \<open>ObjectStore\<close>, the rest of \<open>Realm\<close>, \<open>Results\<close>, \<open>List\<close> and \<open>Object\<close>,
  partial sync and permissions. Left out as well are threads and locks, open files and the network
  (\<open>RealmCoordinator\<close>, \<open>SyncManager\<close>, \<open>SyncUser\<close>, work queues), platform code, and
  the Swift application itself.
\<close>

end
